(* ===== verification/Prelude.thy ===== *)
theory Prelude
  imports Main "HOL-Library.Word"
begin

text \<open>
  Shared vocabulary of the development: the machine integers of the Rust sources
  (\<open>u64\<close>, \<open>u128\<close> as words, \<open>i128\<close> as integers with the wrap-around written out),
  the value of a little-endian bit list, and the list facts the components use.
  Two collections carry the component proofs: \<open>machine_simps\<close> (unfolding the
  machine-integer helpers) and \<open>bits_simps\<close> (arithmetic of bit lists).
\<close>

named_theorems machine_simps
named_theorems bits_simps

type_synonym u64 = "64 word"
type_synonym u128 = "128 word"

section \<open>The signed 128-bit integers\<close>

text \<open>
  Rust's \<open>i128\<close> as \<open>int\<close>: \<open>wrap_i128\<close> is the two's-complement reduction that the
  unchecked operators perform in a release build (the workspace does not enable
  \<open>overflow-checks\<close>), \<open>checked_i128\<close> is \<open>checked_add\<close> / \<open>checked_mul\<close> applied to the exact
  result, and \<open>sat_i128\<close> is the clamping of the \<open>saturating_*\<close> family.
\<close>

definition i128_min :: int where "i128_min = - (2 ^ 127)"
definition i128_max :: int where "i128_max = 2 ^ 127 - 1"

definition in_i128 :: "int \<Rightarrow> bool" where
  "in_i128 x \<longleftrightarrow> i128_min \<le> x \<and> x \<le> i128_max"

definition wrap_i128 :: "int \<Rightarrow> int" where
  "wrap_i128 x = (x + 2 ^ 127) mod 2 ^ 128 - 2 ^ 127"

definition checked_i128 :: "int \<Rightarrow> int option" where
  "checked_i128 x = (if in_i128 x then Some x else None)"

definition sat_i128 :: "int \<Rightarrow> int" where
  "sat_i128 x = max i128_min (min i128_max x)"

lemmas i128_defs = i128_min_def i128_max_def in_i128_def

lemma wrap_i128_id: "in_i128 x \<Longrightarrow> wrap_i128 x = x"
  by (simp add: wrap_i128_def i128_defs)

lemma wrap_i128_range: "in_i128 (wrap_i128 x)"
proof -
  have "0 \<le> (x + 2 ^ 127) mod 2 ^ 128" and "(x + 2 ^ 127) mod 2 ^ 128 < (2::int) ^ 128"
    by (simp_all add: pos_mod_bound)
  then show ?thesis by (simp add: wrap_i128_def i128_defs)
qed

lemma checked_i128_Some [machine_simps]:
  "checked_i128 x = Some y \<longleftrightarrow> in_i128 x \<and> y = x"
  by (auto simp: checked_i128_def)

lemma checked_i128_None [machine_simps]:
  "checked_i128 x = None \<longleftrightarrow> \<not> in_i128 x"
  by (auto simp: checked_i128_def)

lemma sat_i128_id: "in_i128 x \<Longrightarrow> sat_i128 x = x"
  by (simp add: sat_i128_def i128_defs)

lemma sat_i128_range: "in_i128 (sat_i128 x)"
  by (simp add: sat_i128_def i128_defs)

text \<open>Reduction to 128 bits followed by a reduction to a smaller width.\<close>

lemma mod_u128_mod [machine_simps]:
  fixes x :: "'a :: linordered_euclidean_semiring"
  assumes "w \<le> 128"
  shows "x mod 340282366920938463463374607431768211456 mod 2 ^ w = x mod 2 ^ w"
proof -
  have "(2::'a) ^ w dvd 2 ^ 128" by (rule le_imp_power_dvd [OF assms])
  then have "x mod 2 ^ 128 mod 2 ^ w = x mod 2 ^ w" by (rule mod_mod_cancel)
  then show ?thesis by simp
qed

section \<open>Little-endian bit lists\<close>

text \<open>The value of a bit list, least significant bit first.\<close>

primrec bits_val :: "bool list \<Rightarrow> nat" where
  "bits_val [] = 0"
| "bits_val (b # bs) = of_bool b + 2 * bits_val bs"

lemma bits_val_horner: "bits_val bs = horner_sum of_bool 2 bs"
  by (induction bs) simp_all

lemma bits_val_less [bits_simps]: "bits_val bs < 2 ^ length bs"
  by (induction bs) auto

lemma bits_val_append [bits_simps]:
  "bits_val (xs @ ys) = bits_val xs + 2 ^ length xs * bits_val ys"
  by (induction xs) (simp_all add: algebra_simps)

lemma bit_bits_val: "bit (bits_val bs) n \<longleftrightarrow> n < length bs \<and> bs ! n"
  by (simp add: bits_val_horner bit_horner_sum_bit_iff)

lemma bits_val_eqI:
  assumes "length bs = w" and "m < 2 ^ w" and "\<And>i. i < w \<Longrightarrow> bs ! i \<longleftrightarrow> bit m i"
  shows "bits_val bs = m"
proof (rule bit_eqI)
  fix n
  have "bit m n \<Longrightarrow> n < w"
    using \<open>m < 2 ^ w\<close> by (metis bit_take_bit_iff take_bit_nat_eq_self)
  then show "bit (bits_val bs) n \<longleftrightarrow> bit m n"
    using assms by (auto simp: bit_bits_val)
qed

lemma bits_val_inject:
  assumes "length xs = length ys" and "bits_val xs = bits_val ys"
  shows "xs = ys"
proof (rule nth_equalityI [OF assms(1)])
  fix i assume "i < length xs"
  then show "xs ! i = ys ! i"
    using bit_bits_val [of xs i] bit_bits_val [of ys i] assms by simp
qed

lemma bits_val_replicate_False [bits_simps, simp]: "bits_val (replicate n False) = 0"
  by (induction n) simp_all

lemma bits_val_map_Not: "bits_val (map Not bs) = 2 ^ length bs - 1 - bits_val bs"
proof -
  have "bits_val (map Not bs) + bits_val bs = 2 ^ length bs - 1"
  proof (induction bs)
    case Nil
    then show ?case by simp
  next
    case (Cons b bs)
    have "1 \<le> (2::nat) ^ length bs" by simp
    with Cons show ?case by (cases b; simp; arith)
  qed
  then show ?thesis by simp
qed

section \<open>Iterating a state-changing closure\<close>

text \<open>
  \<open>xs.iter().map(|x| self.f(x)).collect()\<close> and \<open>xs.iter().fold(a, |a, x| self.f(a, x))\<close> for a closure that
  changes the state it captures.
\<close>

primrec map_st :: "('a \<Rightarrow> 's \<Rightarrow> 'b \<times> 's) \<Rightarrow> 'a list \<Rightarrow> 's \<Rightarrow> 'b list \<times> 's" where
  "map_st f [] s = ([], s)"
| "map_st f (x # xs) s =
     (let (y, s) = f x s; (ys, s) = map_st f xs s in (y # ys, s))"

primrec fold_st :: "('b \<Rightarrow> 'a \<Rightarrow> 's \<Rightarrow> 'b \<times> 's) \<Rightarrow> 'b \<Rightarrow> 'a list \<Rightarrow> 's \<Rightarrow> 'b \<times> 's" where
  "fold_st f acc [] s = (acc, s)"
| "fold_st f acc (x # xs) s = (let (acc, s) = f acc x s in fold_st f acc xs s)"

lemma length_map_st: "map_st f xs s = (ys, s') \<Longrightarrow> length ys = length xs"
  by (induction xs arbitrary: s ys s') (auto split: prod.splits)

end
