(* ===== verification/Bit_Vector.thy ===== *)
theory Bit_Vector
  imports Prelude
begin

unbundle bit_operations_syntax

text \<open>
  The concrete machine values of \<open>crates/core/src/value.rs\<close>: a width and a 128-bit payload
  kept as two little-endian 64-bit words. The operations that assert (\<open>new\<close>,
  \<open>wrapping_add\<close>, \<open>wrapping_sub\<close>) return \<open>None\<close> where the source panics. The lemmas relate
  the payload arithmetic to the numbers it stands for: \<open>unsigned\<close> is the value modulo
  \<open>2 ^ width\<close> and \<open>signed\<close> the two's-complement reading, for every width from 1 to 128.
\<close>

record bit_vector =
  bv_width :: nat
  bv_words :: "u64 \<times> u64"

definition bv_mask :: "nat \<Rightarrow> u128" where
  "bv_mask width = (if width = 128 then - 1 else push_bit width 1 - 1)"

definition bv_split :: "u128 \<Rightarrow> u64 \<times> u64" where
  "bv_split v = (ucast v, ucast (drop_bit 64 v))"

definition bv_value :: "bit_vector \<Rightarrow> u128" where
  "bv_value b = ucast (fst (bv_words b)) OR push_bit 64 (ucast (snd (bv_words b)))"

definition bv_new :: "nat \<Rightarrow> u128 \<Rightarrow> bit_vector option" where
  "bv_new width v =
     (if width > 0 \<and> width \<le> 128
      then Some \<lparr>bv_width = width, bv_words = bv_split (v AND bv_mask width)\<rparr>
      else None)"

definition bv_zero :: "nat \<Rightarrow> bit_vector option" where
  "bv_zero width = bv_new width 0"

definition bv_unsigned :: "bit_vector \<Rightarrow> u128" where
  "bv_unsigned b = bv_value b"

definition bv_signed :: "bit_vector \<Rightarrow> int" where
  "bv_signed b =
     (let shift = 128 - bv_width b
      in sint (signed_drop_bit shift (push_bit shift (bv_value b))))"

definition bv_is_zero :: "bit_vector \<Rightarrow> bool" where
  "bv_is_zero b \<longleftrightarrow> bv_words b = (0, 0)"

definition bv_wrapping_add :: "bit_vector \<Rightarrow> bit_vector \<Rightarrow> bit_vector option" where
  "bv_wrapping_add a b =
     (if bv_width a = bv_width b then bv_new (bv_width a) (bv_value a + bv_value b) else None)"

definition bv_wrapping_sub :: "bit_vector \<Rightarrow> bit_vector \<Rightarrow> bit_vector option" where
  "bv_wrapping_sub a b =
     (if bv_width a = bv_width b then bv_new (bv_width a) (bv_value a - bv_value b) else None)"

text \<open>The type invariant: a legal width and a payload already reduced to it.\<close>

definition bv_wf :: "bit_vector \<Rightarrow> bool" where
  "bv_wf b \<longleftrightarrow> 0 < bv_width b \<and> bv_width b \<le> 128 \<and> unat (bv_value b) < 2 ^ bv_width b"

text \<open>The number a bit-vector stands for.\<close>

definition bv_nat :: "bit_vector \<Rightarrow> nat" where
  "bv_nat b = unat (bv_unsigned b)"

text \<open>The two's-complement reading of a number below \<open>2 ^ w\<close>.\<close>

definition to_signed :: "nat \<Rightarrow> nat \<Rightarrow> int" where
  "to_signed w n = (if n < 2 ^ (w - 1) then int n else int n - 2 ^ w)"

section \<open>The two-word payload\<close>

lemma bv_value_split: "bv_value \<lparr>bv_width = w, bv_words = bv_split v\<rparr> = v"
  by (rule bit_word_eqI)
    (auto simp: bv_value_def bv_split_def bit_simps)

lemma bv_split_value: "bv_split (bv_value b) = bv_words b"
proof -
  have "ucast (bv_value b) = fst (bv_words b)"
    by (rule bit_word_eqI) (auto simp: bv_value_def bit_simps)
  moreover have "ucast (drop_bit 64 (bv_value b)) = snd (bv_words b)"
    by (rule bit_word_eqI) (use bit_imp_le_length in \<open>force simp: bv_value_def bit_simps\<close>)
  ultimately show ?thesis by (simp add: bv_split_def)
qed

lemma bv_mask_eq: "w \<le> 128 \<Longrightarrow> bv_mask w = mask w"
  by (simp add: bv_mask_def mask_eq_exp_minus_1 push_bit_of_1 flip: mask_full)

lemma unat_and_bv_mask:
  "w \<le> 128 \<Longrightarrow> unat (v AND bv_mask w) = unat v mod 2 ^ w"
  by (simp add: bv_mask_eq unsigned_take_bit_eq take_bit_eq_mod [symmetric]
      flip: take_bit_eq_mask)

lemma bv_new_Some:
  "bv_new w v = Some b \<longleftrightarrow>
     0 < w \<and> w \<le> 128 \<and> b = \<lparr>bv_width = w, bv_words = bv_split (v AND bv_mask w)\<rparr>"
  by (auto simp: bv_new_def)

lemma bv_new_facts:
  assumes "bv_new w v = Some b"
  shows "bv_width b = w" and "bv_nat b = unat v mod 2 ^ w" and "bv_wf b"
  using assms
  by (auto simp: bv_new_Some bv_nat_def bv_unsigned_def bv_wf_def bv_value_split unat_and_bv_mask)

lemma bv_nat_less: "bv_wf b \<Longrightarrow> bv_nat b < 2 ^ bv_width b"
  by (simp add: bv_wf_def bv_nat_def bv_unsigned_def)

lemma bv_eqI:
  assumes "bv_width a = bv_width b" and "bv_nat a = bv_nat b"
  shows "a = b"
proof -
  have "bv_value a = bv_value b"
    using assms(2) by (simp add: bv_nat_def bv_unsigned_def word_unat_eq_iff)
  then have "bv_words a = bv_words b" by (metis bv_split_value)
  with assms(1) show ?thesis by simp
qed

lemma bv_is_zero_iff: "bv_is_zero b \<longleftrightarrow> bv_nat b = 0"
proof -
  have "bv_words b = (0, 0) \<longleftrightarrow> bv_value b = 0"
  proof
    assume "bv_value b = 0"
    then show "bv_words b = (0, 0)"
      using bv_split_value [of b] by (simp add: bv_split_def)
  qed (simp add: bv_value_def)
  then show ?thesis by (simp add: bv_is_zero_def bv_nat_def bv_unsigned_def unat_eq_0)
qed

section \<open>The signed reading\<close>

lemma sint_128: "sint (x :: u128) = (if uint x < 2 ^ 127 then uint x else uint x - 2 ^ 128)"
proof -
  have r: "0 \<le> uint x" "uint x < 2 ^ 128"
    using uint_bounded [of x] by simp_all
  have "sint x = (uint x + 2 ^ 127) mod 2 ^ 128 - 2 ^ 127"
    by (simp add: sint_uint signed_take_bit_eq_take_bit_shift take_bit_eq_mod)
  also have "(uint x + 2 ^ 127) mod 2 ^ 128
      = (if uint x < 2 ^ 127 then uint x + 2 ^ 127 else uint x - 2 ^ 127)"
  proof (cases "uint x < 2 ^ 127")
    case False
    have "(uint x + 2 ^ 127) mod 2 ^ 128 = (uint x + 2 ^ 127 - 2 ^ 128) mod (2::int) ^ 128"
      by (rule minus_mod_self2 [symmetric])
    also have "\<dots> = uint x - 2 ^ 127"
      using False r by (simp add: mod_pos_pos_trivial)
    finally show ?thesis using False by simp
  qed (use r in \<open>simp add: mod_pos_pos_trivial\<close>)
  finally show ?thesis by simp
qed

lemma bv_signed_to_signed:
  assumes "bv_wf b"
  shows "bv_signed b = to_signed (bv_width b) (bv_nat b)"
proof -
  define w s u where "w = bv_width b" and "s = 128 - w" and "u = unat (bv_value b)"
  have w: "0 < w" "w \<le> 128" "u < 2 ^ w"
    using assms by (simp_all add: bv_wf_def w_def u_def)
  have pow: "(2::int) ^ 128 = 2 ^ w * 2 ^ s"
    using w by (simp add: s_def flip: power_add)
  have half: "(2::int) ^ 127 = 2 ^ (w - 1) * 2 ^ s"
    using w by (simp add: s_def flip: power_add)
  have "uint (push_bit s (bv_value b)) = take_bit 128 (int u * 2 ^ s)"
    by (simp add: unsigned_push_bit_eq u_def flip: push_bit_eq_mult)
  also have "\<dots> = int u * 2 ^ s"
  proof (rule take_bit_int_eq_self)
    have "int u < 2 ^ w" using w by (simp flip: of_nat_less_iff)
    then show "int u * 2 ^ s < 2 ^ 128" unfolding pow by simp
  qed simp
  finally have "sint (push_bit s (bv_value b))
      = (if int u < 2 ^ (w - 1) then int u * 2 ^ s else (int u - 2 ^ w) * 2 ^ s)"
    unfolding sint_128 half pow by (simp add: algebra_simps)
  moreover have "int u < 2 ^ (w - 1) \<longleftrightarrow> u < 2 ^ (w - 1)"
    by (metis of_nat_less_numeral_power_cancel_iff of_nat_numeral of_nat_power)
  ultimately show ?thesis
    by (simp add: bv_signed_def Let_def sint_signed_drop_bit_eq drop_bit_eq_div
        to_signed_def bv_nat_def bv_unsigned_def flip: w_def s_def u_def)
qed

text \<open>
  Wrap-around addition and subtraction agree with arithmetic modulo \<open>2 ^ width\<close>.
\<close>

lemma bv_wrapping_add_nat:
  assumes "bv_wrapping_add a b = Some c"
  shows "bv_nat c = (bv_nat a + bv_nat b) mod 2 ^ bv_width a"
proof -
  from assms have new: "bv_new (bv_width a) (bv_value a + bv_value b) = Some c"
    by (simp add: bv_wrapping_add_def split: if_splits)
  then have w: "bv_width a \<le> 128" by (simp add: bv_new_Some)
  have "bv_nat c = (unat (bv_value a) + unat (bv_value b)) mod 2 ^ 128 mod 2 ^ bv_width a"
    using bv_new_facts(2) [OF new] by (simp add: unat_word_ariths)
  then show ?thesis
    using w by (simp add: bv_nat_def bv_unsigned_def machine_simps)
qed

lemma bv_wrapping_sub_nat:
  assumes "bv_wrapping_sub a b = Some c" and "bv_wf b"
  shows "bv_nat c = (bv_nat a + (2 ^ bv_width a - bv_nat b)) mod 2 ^ bv_width a"
proof -
  from assms have new: "bv_new (bv_width a) (bv_value a - bv_value b) = Some c"
      and eq: "bv_width b = bv_width a"
    by (simp_all add: bv_wrapping_sub_def split: if_splits)
  then have w: "bv_width a \<le> 128" by (simp add: bv_new_Some)
  have le: "unat (bv_value b) < 2 ^ bv_width a" using assms(2) eq by (simp add: bv_wf_def)
  have "int (bv_nat c) = (int (unat (bv_value a)) - int (unat (bv_value b))) mod 2 ^ bv_width a"
    using bv_new_facts(2) [OF new] w
    by (simp add: of_nat_mod uint_word_ariths machine_simps)
  also have "\<dots> = (int (unat (bv_value a)) + (2 ^ bv_width a - int (unat (bv_value b)))) mod 2 ^ bv_width a"
    using mod_add_self2 [of "int (unat (bv_value a)) - int (unat (bv_value b))" "2 ^ bv_width a"]
    by (simp add: algebra_simps)
  finally have "int (bv_nat c)
      = int ((unat (bv_value a) + (2 ^ bv_width a - unat (bv_value b))) mod 2 ^ bv_width a)"
    using le by (simp add: of_nat_mod of_nat_diff add_diff_eq)
  then show ?thesis
    by (simp only: of_nat_eq_iff bv_nat_def bv_unsigned_def)
qed

end
