(* ===== verification/Verdicts.thy ===== *)
theory Verdicts
  imports Bit_Vector
begin

text \<open>
  The verdict lattice and the evidence types of \<open>crates/core\<close>: \<open>verdict.rs\<close>,
  \<open>obligation.rs\<close>, \<open>proof.rs\<close> and \<open>region.rs\<close>. A verdict is ordered by severity
  (\<open>Pass < Unknown < Fail\<close>), and \<open>combine\<close> is the maximum of that order, so the fold over a
  report is the worst verdict in it. Rendered texts (predicates, reasons) are strings
  as in the source.
\<close>

section \<open>Verdicts\<close>

datatype verdict = Pass | Fail | Unknown

fun combine :: "verdict \<Rightarrow> verdict \<Rightarrow> verdict" where
  "combine Fail _ = Fail"
| "combine _ Fail = Fail"
| "combine Unknown _ = Unknown"
| "combine _ Unknown = Unknown"
| "combine Pass Pass = Pass"

definition combine_all :: "verdict list \<Rightarrow> verdict" where
  "combine_all vs = foldl combine Pass vs"

definition is_pass :: "verdict \<Rightarrow> bool" where
  "is_pass v \<longleftrightarrow> v = Pass"

fun verdict_id :: "verdict \<Rightarrow> string" where
  "verdict_id Pass = ''PASS''"
| "verdict_id Fail = ''FAIL''"
| "verdict_id Unknown = ''UNKNOWN''"

fun severity :: "verdict \<Rightarrow> nat" where
  "severity Pass = 0"
| "severity Unknown = 1"
| "severity Fail = 2"

instantiation verdict :: linorder
begin

definition less_eq_verdict :: "verdict \<Rightarrow> verdict \<Rightarrow> bool" where
  "less_eq_verdict a b \<longleftrightarrow> severity a \<le> severity b"

definition less_verdict :: "verdict \<Rightarrow> verdict \<Rightarrow> bool" where
  "less_verdict a b \<longleftrightarrow> severity a < severity b"

instance
proof
  fix a b :: verdict
  show "a \<le> b \<Longrightarrow> b \<le> a \<Longrightarrow> a = b"
    by (cases a; cases b) (simp_all add: less_eq_verdict_def)
qed (auto simp: less_eq_verdict_def less_verdict_def)

end

section \<open>Proof trees, models, counterexamples\<close>

datatype justification =
    Axiom string
  | AbstractInterpretation string string
  | Unsat_core string "string list"
  | CaseSplit "string list"
  | ByAssumption string

datatype proof_step =
  ProofStep (step_conclusion: string) (step_justification: justification)
    (step_premises: "proof_step list")

definition proof_leaf :: "string \<Rightarrow> justification \<Rightarrow> proof_step" where
  "proof_leaf c j = ProofStep c j []"

fun leaf_count :: "proof_step \<Rightarrow> nat" where
  "leaf_count (ProofStep c j ps) = (if ps = [] then 1 else sum_list (map leaf_count ps))"

record proof_tree =
  pt_root :: proof_step
  pt_assumptions :: "string list"

definition proof_tree_new :: "proof_step \<Rightarrow> proof_tree" where
  "proof_tree_new r = \<lparr>pt_root = r, pt_assumptions = []\<rparr>"

definition with_assumptions :: "proof_tree \<Rightarrow> string list \<Rightarrow> proof_tree" where
  "with_assumptions t as = t\<lparr>pt_assumptions := as\<rparr>"

type_synonym assignment = "string \<times> bit_vector"
type_synonym model = "assignment list"

definition model_get :: "model \<Rightarrow> string \<Rightarrow> bit_vector option" where
  "model_get m name = map_option snd (find (\<lambda>a. fst a = name) m)"

record counter_example =
  ce_summary :: string
  ce_model :: model
  ce_trace :: "string list"

definition counter_example_new :: "string \<Rightarrow> model \<Rightarrow> counter_example" where
  "counter_example_new s m = \<lparr>ce_summary = s, ce_model = m, ce_trace = []\<rparr>"

record residual_obligation =
  ro_predicate :: string
  ro_reason :: string

record suggested_assumption =
  sa_assumption :: string
  sa_rationale :: string

datatype obligation_result =
    Proven proof_tree
  | Refuted counter_example
  | Open "residual_obligation list" "suggested_assumption list"

fun obligation_verdict :: "obligation_result \<Rightarrow> verdict" where
  "obligation_verdict (Proven _) = Pass"
| "obligation_verdict (Refuted _) = Fail"
| "obligation_verdict (Open _ _) = Unknown"

section \<open>Region kinds\<close>

datatype region_kind = Stack | Heap | Global | Tls | Mmio

fun region_kind_id :: "region_kind \<Rightarrow> string" where
  "region_kind_id Stack = ''stack''"
| "region_kind_id Heap = ''heap''"
| "region_kind_id Global = ''global''"
| "region_kind_id Tls = ''tls''"
| "region_kind_id Mmio = ''mmio''"

definition is_explicitly_freed :: "region_kind \<Rightarrow> bool" where
  "is_explicitly_freed k \<longleftrightarrow> k = Heap"

section \<open>Combining verdicts\<close>

lemma combine_max: "combine a b = max a b"
  by (cases a; cases b) (simp_all add: max_def less_eq_verdict_def)

lemma Pass_least [simp]: "Pass \<le> v"
  by (simp add: less_eq_verdict_def)

lemma foldl_combine: "foldl combine v vs = fold max vs v"
  by (induction vs arbitrary: v) (simp_all add: combine_max max.commute)

lemma fold_max_le_iff: "fold max vs v \<le> u \<longleftrightarrow> v \<le> u \<and> (\<forall>x\<in>set vs. x \<le> u)"
  for u :: "'a :: linorder"
  by (induction vs arbitrary: v) auto

lemma combine_all_le_iff: "combine_all vs \<le> u \<longleftrightarrow> (\<forall>x\<in>set vs. x \<le> u)"
  by (simp add: combine_all_def foldl_combine fold_max_le_iff)

lemma verdict_le_simps [simp]:
  "v \<le> Pass \<longleftrightarrow> v = Pass" "v \<le> Unknown \<longleftrightarrow> v \<noteq> Fail" "v \<le> Fail"
  by (cases v; simp add: less_eq_verdict_def)+

lemma combine_all_Pass: "combine_all vs = Pass \<longleftrightarrow> (\<forall>v\<in>set vs. v = Pass)"
  using combine_all_le_iff [of vs Pass] by simp

lemma combine_all_Fail: "combine_all vs = Fail \<longleftrightarrow> Fail \<in> set vs"
  using combine_all_le_iff [of vs Unknown] by auto

lemma combine_all_upper: "v \<in> set vs \<Longrightarrow> v \<le> combine_all vs"
  using combine_all_le_iff [of vs "combine_all vs"] by simp

lemma combine_all_append: "combine_all (us @ vs) = combine (combine_all us) (combine_all vs)"
  by (rule antisym)
    (auto simp: combine_all_le_iff combine_max intro: combine_all_upper max.coboundedI1 max.coboundedI2)

end
