(* ===== verification/Safety_Properties.thy ===== *)
theory Safety_Properties
  imports Main
begin

text \<open>
  The catalogue of safety properties of \<open>crates/core/src/property.rs\<close>: the enumeration, its
  stable identifiers, the one-line descriptions and the list of all properties.
\<close>

datatype safety_property =
    InBounds
  | NoUseAfterFree
  | NoDoubleFree
  | NoDanglingDeref
  | NoNullDeref
  | StackIntegrity
  | ValidPointerArith
  | ValidReference
  | ValidWrite
  | ValidRead
  | NoForbiddenOverlap
  | Alignment
  | ValidStackFrame
  | ValidIndirectTarget
  | WriteCapability
  | NoInfoLeak
  | NoSizeOverflow
  | DataRace
  | DoubleFetch
  | TaintedSink
  | TypestateViolation
  | SecretDependent
  | NoDivByZero
  | NoShiftOverflow
  | NoArithOverflow
  | SleepInAtomic
  | NoAliasingViolation
  | ValidValue

fun property_id :: "safety_property \<Rightarrow> string" where
  "property_id InBounds = ''in_bounds''"
| "property_id NoUseAfterFree = ''no_use_after_free''"
| "property_id NoDoubleFree = ''no_double_free''"
| "property_id NoDanglingDeref = ''no_dangling_deref''"
| "property_id NoNullDeref = ''no_null_deref''"
| "property_id StackIntegrity = ''stack_integrity''"
| "property_id ValidPointerArith = ''valid_pointer_arith''"
| "property_id ValidReference = ''valid_reference''"
| "property_id ValidWrite = ''valid_write''"
| "property_id ValidRead = ''valid_read''"
| "property_id NoForbiddenOverlap = ''no_forbidden_overlap''"
| "property_id Alignment = ''alignment''"
| "property_id ValidStackFrame = ''valid_stack_frame''"
| "property_id ValidIndirectTarget = ''valid_indirect_target''"
| "property_id WriteCapability = ''write_capability''"
| "property_id NoInfoLeak = ''no_info_leak''"
| "property_id NoSizeOverflow = ''no_size_overflow''"
| "property_id DataRace = ''data_race''"
| "property_id DoubleFetch = ''double_fetch''"
| "property_id SleepInAtomic = ''sleep_in_atomic''"
| "property_id TaintedSink = ''tainted_sink''"
| "property_id TypestateViolation = ''typestate_violation''"
| "property_id SecretDependent = ''secret_dependent''"
| "property_id NoDivByZero = ''no_div_by_zero''"
| "property_id NoShiftOverflow = ''no_shift_overflow''"
| "property_id NoArithOverflow = ''no_arith_overflow''"
| "property_id NoAliasingViolation = ''no_aliasing_violation''"
| "property_id ValidValue = ''valid_value''"

fun describe :: "safety_property \<Rightarrow> string" where
  "describe InBounds = ''access is within allocation bounds''"
| "describe NoUseAfterFree = ''no access to freed memory''"
| "describe NoDoubleFree = ''no double free''"
| "describe NoDanglingDeref = ''no dereference of a dangling pointer''"
| "describe NoNullDeref = ''no null-pointer dereference''"
| "describe StackIntegrity = ''stack is not corrupted''"
| "describe ValidPointerArith = ''pointer arithmetic stays in-object''"
| "describe ValidReference = ''reference points to a valid value''"
| "describe ValidWrite = ''write targets valid writable memory''"
| "describe ValidRead = ''read targets valid initialized memory''"
| "describe NoForbiddenOverlap = ''disjoint regions do not overlap''"
| "describe Alignment = ''access satisfies alignment requirement''"
| "describe ValidStackFrame = ''stack frame is well-formed''"
| "describe ValidIndirectTarget = ''indirect branch target is valid''"
| "describe WriteCapability = ''access target'' @ [CHR 0x27] @ ''s provenance grants the capability''"
| "describe NoInfoLeak = ''no uninitialized memory is disclosed to userspace''"
| "describe NoSizeOverflow = ''allocation size computation does not overflow''"
| "describe DataRace = ''no concurrency-safety violation (AA self-deadlock)''"
| "describe DoubleFetch = ''no double-fetch of user memory''"
| "describe SleepInAtomic = ''no sleeping call in atomic (spinlock-held) context''"
| "describe TaintedSink = ''no tainted value reaches an unsafe sink''"
| "describe TypestateViolation = ''no resource is used in a forbidden protocol state''"
| "describe SecretDependent = ''no secret-dependent branch or memory index''"
| "describe NoDivByZero = ''divisor of a division/modulo is non-zero''"
| "describe NoShiftOverflow = ''shift amount is less than the bit width''"
| "describe NoArithOverflow = ''nsw/nuw arithmetic does not overflow''"
| "describe NoAliasingViolation = ''no write through a shared (&T) reference''"
| "describe ValidValue = ''loaded value is a valid instance of its type''"

definition all_properties :: "safety_property list" where
  "all_properties =
    [InBounds, NoUseAfterFree, NoDoubleFree, NoDanglingDeref,
     NoNullDeref, StackIntegrity, ValidPointerArith, ValidReference,
     ValidWrite, ValidRead, NoForbiddenOverlap, Alignment,
     ValidStackFrame, ValidIndirectTarget, WriteCapability, NoInfoLeak,
     NoSizeOverflow, DataRace, DoubleFetch, SleepInAtomic,
     TaintedSink, TypestateViolation, SecretDependent, NoDivByZero,
     NoShiftOverflow, NoArithOverflow, NoAliasingViolation, ValidValue]"

text \<open>
  The catalogue is complete and duplicate-free, and the identifier printed in reports and
  caches determines the property.
\<close>

lemma set_all_properties: "set all_properties = UNIV"
proof -
  have "p \<in> set all_properties" for p
    by (cases p) (simp_all add: all_properties_def)
  then show ?thesis by auto
qed

lemma distinct_map_property_id: "distinct (map property_id all_properties)"
  by (simp add: all_properties_def)

lemma inj_property_id: "inj property_id"
  using distinct_map_property_id by (simp add: distinct_map set_all_properties)

end
