(* ===== verification/Memory_Model.thy ===== *)
theory Memory_Model
  imports Verdicts Safety_Properties
begin

text \<open>
  The memory model of \<open>crates/memory\<close>: regions with a lifetime state (\<open>region.rs\<close>), pointers as
  provenance plus offset (\<open>pointer.rs\<close>), alias answers (\<open>alias.rs\<close>) and the per-property check of an
  access (\<open>access.rs\<close>). A \<open>u64\<close> or \<open>u32\<close> that is only compared or stored is a natural number; the
  \<open>i128\<close> offset arithmetic wraps as in a release build (\<open>wrap_i128\<close>). The human-readable \<open>detail\<close> and
  \<open>condition\<close> texts are kept as a datatype \<open>message\<close> with one constructor per format string of the source,
  carrying the values it interpolates.
\<close>

section \<open>Regions\<close>

type_synonym region_id = nat

record permissions =
  perm_read :: bool
  perm_write :: bool
  perm_exec :: bool

definition READ_WRITE :: permissions where
  "READ_WRITE = \<lparr>perm_read = True, perm_write = True, perm_exec = False\<rparr>"

definition READ_ONLY :: permissions where
  "READ_ONLY = \<lparr>perm_read = True, perm_write = False, perm_exec = False\<rparr>"

definition READ_EXEC :: permissions where
  "READ_EXEC = \<lparr>perm_read = True, perm_write = False, perm_exec = True\<rparr>"

datatype lifetime_state = Live | Freed | Uninitialized

datatype sym_size = SizeExact nat | SizeSymbolic string | SizeUnknown

fun size_as_exact :: "sym_size \<Rightarrow> nat option" where
  "size_as_exact (SizeExact n) = Some n"
| "size_as_exact _ = None"

record region =
  r_id :: region_id
  r_kind :: region_kind
  r_size :: sym_size
  r_align :: nat
  r_state :: lifetime_state
  r_permissions :: permissions
  r_label :: string

type_synonym memory_model = "region list"

section \<open>Pointers\<close>

datatype provenance = ProvNull | ProvRegion region_id | ProvUnknown | ProvInvalid

datatype sym_offset = OffExact int | OffSymbolic string | OffTop

fun offset_as_exact :: "sym_offset \<Rightarrow> int option" where
  "offset_as_exact (OffExact n) = Some n"
| "offset_as_exact _ = None"

record pointer =
  p_provenance :: provenance
  p_offset :: sym_offset
  p_align :: nat

definition to_region :: "region_id \<Rightarrow> nat \<Rightarrow> pointer" where
  "to_region r align = \<lparr>p_provenance = ProvRegion r, p_offset = OffExact 0, p_align = align\<rparr>"

definition null_pointer :: pointer where
  "null_pointer = \<lparr>p_provenance = ProvNull, p_offset = OffExact 0, p_align = 1\<rparr>"

function gcd_loop :: "nat \<Rightarrow> nat \<Rightarrow> nat" where
  "gcd_loop a b = (if b \<noteq> 0 then gcd_loop b (a mod b) else a)"
  by pat_completeness auto
termination
  by (relation "measure snd") auto

declare gcd_loop.simps [simp del]

definition align_after_offset :: "nat \<Rightarrow> int \<Rightarrow> nat" where
  "align_after_offset base_align delta =
     (if delta = 0 then base_align
      else let d = nat \<bar>delta\<bar> mod 2 ^ 64 in max (gcd_loop base_align d) 1)"

definition offset_bytes :: "pointer \<Rightarrow> int \<Rightarrow> pointer" where
  "offset_bytes p delta =
     (let off = (case p_offset p of
            OffExact n \<Rightarrow> OffExact (wrap_i128 (n + delta))
          | OffSymbolic _ \<Rightarrow> OffTop
          | OffTop \<Rightarrow> OffTop);
          align = align_after_offset (p_align p) delta
      in \<lparr>p_provenance = p_provenance p, p_offset = off, p_align = align\<rparr>)"

datatype alias_result = Must | May | No

fun alias_id :: "alias_result \<Rightarrow> string" where
  "alias_id Must = ''must''"
| "alias_id May = ''may''"
| "alias_id No = ''no''"

definition is_disjoint :: "alias_result \<Rightarrow> bool" where
  "is_disjoint a \<longleftrightarrow> a = No"

section \<open>Checking an access\<close>

record access =
  a_size :: nat
  a_align :: nat
  a_need :: permissions

definition access_read :: "nat \<Rightarrow> nat \<Rightarrow> access" where
  "access_read sz align = \<lparr>a_size = sz, a_align = align,
     a_need = \<lparr>perm_read = True, perm_write = False, perm_exec = False\<rparr>\<rparr>"

definition access_write :: "nat \<Rightarrow> nat \<Rightarrow> access" where
  "access_write sz align = \<lparr>a_size = sz, a_align = align,
     a_need = \<lparr>perm_read = False, perm_write = True, perm_exec = False\<rparr>\<rparr>"

datatype message =
    NotTracked region_id
  | WasLive region_id
  | AlreadyFreed region_id string
  | NeverAllocated region_id string
  | NullDeref
  | InvalidProvenance
  | OpaqueProvenance
  | RegionProvenance
  | IsLive region_id
  | IsFreed region_id string
  | NotYetAllocated region_id string
  | Within int int nat
  | Escapes int int nat
  | BoundsCondition nat sym_offset sym_size
  | ByteAligned
  | AlignedEnough nat nat
  | GuaranteedOnly nat nat
  | AlignCondition nat
  | Permits string string
  | DoesNotPermit string string

datatype check_outcome =
    CProven (outcome_property: safety_property) (outcome_message: message)
  | CViolated (outcome_property: safety_property) (outcome_message: message)
  | CResidual (outcome_property: safety_property) (outcome_message: message)

fun is_violation :: "check_outcome \<Rightarrow> bool" where
  "is_violation (CViolated _ _) = True"
| "is_violation _ = False"

fun outcome_verdict :: "check_outcome \<Rightarrow> verdict" where
  "outcome_verdict (CProven _ _) = Pass"
| "outcome_verdict (CViolated _ _) = Fail"
| "outcome_verdict (CResidual _ _) = Unknown"

type_synonym access_report = "check_outcome list"

definition report_verdict :: "access_report \<Rightarrow> verdict" where
  "report_verdict outcomes = combine_all (map outcome_verdict outcomes)"

definition bounds_outcome :: "sym_offset \<Rightarrow> nat \<Rightarrow> sym_size \<Rightarrow> check_outcome" where
  "bounds_outcome offset access_size region_size =
     (case (offset_as_exact offset, size_as_exact region_size) of
        (Some off, Some sz) \<Rightarrow>
          (let end_off = wrap_i128 (off + int access_size)
           in if off \<ge> 0 \<and> end_off \<le> int sz
              then CProven InBounds (Within off end_off sz)
              else CViolated InBounds (Escapes off end_off sz))
      | _ \<Rightarrow> CResidual InBounds (BoundsCondition access_size offset region_size))"

text \<open>\<open>u64::is_multiple_of\<close>: the only multiple of 0 is 0.\<close>

definition is_multiple_of :: "nat \<Rightarrow> nat \<Rightarrow> bool" where
  "is_multiple_of a b = (if b = 0 then a = 0 else a mod b = 0)"

definition alignment_outcome :: "pointer \<Rightarrow> nat \<Rightarrow> nat \<Rightarrow> check_outcome" where
  "alignment_outcome ptr region_align access_align =
     (if access_align \<le> 1 then CProven Alignment ByteAligned
      else if is_multiple_of (p_align ptr) access_align
      then CProven Alignment (AlignedEnough (p_align ptr) access_align)
      else case p_offset ptr of
        OffExact _ \<Rightarrow> CViolated Alignment (GuaranteedOnly (p_align ptr) access_align)
      | _ \<Rightarrow> CResidual Alignment (AlignCondition access_align))"

definition permission_outcome ::
    "bool \<Rightarrow> safety_property \<Rightarrow> string \<Rightarrow> string \<Rightarrow> check_outcome" where
  "permission_outcome granted prop verb label =
     (if granted then CProven prop (Permits label verb)
      else CViolated prop (DoesNotPermit label verb))"

definition region_of :: "memory_model \<Rightarrow> region_id \<Rightarrow> region option" where
  "region_of m rid = (if rid < length m then Some (m ! rid) else None)"

definition temporal_outcome :: "region \<Rightarrow> check_outcome" where
  "temporal_outcome r =
     (case r_state r of
        Live \<Rightarrow> CProven NoUseAfterFree (IsLive (r_id r))
      | Freed \<Rightarrow> CViolated NoUseAfterFree (IsFreed (r_id r) (r_label r))
      | Uninitialized \<Rightarrow> CViolated NoUseAfterFree (NotYetAllocated (r_id r) (r_label r)))"

definition check_access :: "memory_model \<Rightarrow> pointer \<Rightarrow> access \<Rightarrow> access_report" where
  "check_access m ptr acc =
     (case p_provenance ptr of
        ProvNull \<Rightarrow> [CViolated NoNullDeref NullDeref]
      | ProvInvalid \<Rightarrow> [CViolated NoDanglingDeref InvalidProvenance]
      | ProvUnknown \<Rightarrow> [CResidual ValidReference OpaqueProvenance]
      | ProvRegion rid \<Rightarrow>
          (case region_of m rid of
             None \<Rightarrow> [CResidual ValidReference (NotTracked rid)]
           | Some r \<Rightarrow>
               [CProven NoNullDeref RegionProvenance,
                temporal_outcome r,
                bounds_outcome (p_offset ptr) (a_size acc) (r_size r),
                alignment_outcome ptr (r_align r) (a_align acc)]
               @ (if perm_read (a_need acc)
                  then [permission_outcome (perm_read (r_permissions r)) ValidRead ''read'' (r_label r)]
                  else [])
               @ (if perm_write (a_need acc)
                  then [permission_outcome (perm_write (r_permissions r)) ValidWrite ''write'' (r_label r)]
                  else [])))"

section \<open>Allocation and deallocation\<close>

definition allocate ::
    "memory_model \<Rightarrow> region_kind \<Rightarrow> sym_size \<Rightarrow> nat \<Rightarrow> permissions \<Rightarrow> string \<Rightarrow> region_id \<times> memory_model" where
  "allocate m kind sz align perms label =
     (let rid = length m
      in (rid, m @ [\<lparr>r_id = rid, r_kind = kind, r_size = sz, r_align = align,
                     r_state = Live, r_permissions = perms, r_label = label\<rparr>]))"

definition deallocate :: "memory_model \<Rightarrow> region_id \<Rightarrow> check_outcome \<times> memory_model" where
  "deallocate m rid =
     (case region_of m rid of
        None \<Rightarrow> (CResidual NoDoubleFree (NotTracked rid), m)
      | Some r \<Rightarrow>
          (case r_state r of
             Live \<Rightarrow> (CProven NoDoubleFree (WasLive rid), m[rid := r\<lparr>r_state := Freed\<rparr>])
           | Freed \<Rightarrow> (CViolated NoDoubleFree (AlreadyFreed rid (r_label r)), m)
           | Uninitialized \<Rightarrow> (CViolated NoDoubleFree (NeverAllocated rid (r_label r)), m)))"

section \<open>Alignment arithmetic\<close>

lemma gcd_loop_gcd: "gcd_loop a b = gcd a b"
proof (induction a b rule: gcd_loop.induct)
  case (1 a b)
  then show ?case
    by (subst gcd_loop.simps) (simp add: gcd_red_nat [of a b] gcd.commute)
qed

text \<open>
  The cast of \<open>|delta|\<close> to \<open>u64\<close> drops the high bits; for a power-of-two alignment this loses nothing.
\<close>

lemma align_after_offset_gcd:
  assumes "k < 64"
  shows "align_after_offset (2 ^ k) delta = gcd (2 ^ k) (nat \<bar>delta\<bar>)"
proof -
  have "(2::nat) ^ k dvd 2 ^ 64" by (rule le_imp_power_dvd) (use assms in simp)
  then have "nat \<bar>delta\<bar> mod 2 ^ 64 mod 2 ^ k = nat \<bar>delta\<bar> mod 2 ^ k" by (rule mod_mod_cancel)
  then have eq: "gcd (2 ^ k) (nat \<bar>delta\<bar> mod 2 ^ 64) = gcd (2 ^ k) (nat \<bar>delta\<bar>)"
    using gcd_red_nat [of "nat \<bar>delta\<bar> mod 2 ^ 64" "2 ^ k"] gcd_red_nat [of "nat \<bar>delta\<bar>" "2 ^ k"]
    by (simp only: gcd.commute)
  have "0 < gcd (2 ^ k) (nat \<bar>delta\<bar>)" by simp
  then have "max (gcd (2 ^ k) (nat \<bar>delta\<bar>)) 1 = gcd (2 ^ k) (nat \<bar>delta\<bar>)" by linarith
  with eq show ?thesis
    by (simp only: align_after_offset_def Let_def gcd_loop_gcd split: if_split) simp
qed

lemma align_after_offset_examples:
  "align_after_offset 8 4 = 4" "align_after_offset 8 8 = 8" "align_after_offset 4 4 = 4"
  using align_after_offset_gcd [of 3 4] align_after_offset_gcd [of 3 8] align_after_offset_gcd [of 2 4]
  by (simp_all add: gcd_proj2_if_dvd_nat)

lemma align_after_offset_dvd:
  assumes "k < 64" and "int (2 ^ k) dvd address"
  shows "int (align_after_offset (2 ^ k) delta) dvd address + delta"
proof -
  have "int (gcd (2 ^ k) (nat \<bar>delta\<bar>)) dvd address"
    using assms(2) by (meson dvd_trans gcd_dvd1 of_nat_dvd_iff)
  moreover have "int (gcd (2 ^ k) (nat \<bar>delta\<bar>)) dvd delta"
    by (metis abs_ge_zero dvd_abs_iff gcd_dvd2 int_nat_eq of_nat_dvd_iff)
  ultimately show ?thesis
    by (simp add: align_after_offset_gcd [OF assms(1)])
qed

section \<open>Reading a report\<close>

lemma report_verdict_Pass:
  "report_verdict rep = Pass \<longleftrightarrow> (\<forall>c\<in>set rep. outcome_verdict c = Pass)"
  by (auto simp: report_verdict_def combine_all_Pass)

lemma report_verdict_Fail:
  "report_verdict rep = Fail \<longleftrightarrow> (\<exists>c\<in>set rep. is_violation c)"
proof -
  have "outcome_verdict c = Fail \<longleftrightarrow> is_violation c" for c by (cases c) simp_all
  then show ?thesis by (force simp: report_verdict_def combine_all_Fail)
qed

lemma bounds_outcome_Pass:
  "outcome_verdict (bounds_outcome off n rs) = Pass \<longleftrightarrow>
     (\<exists>x sz. off = OffExact x \<and> rs = SizeExact sz \<and> 0 \<le> x \<and> wrap_i128 (x + int n) \<le> int sz)"
  by (cases off; cases rs) (auto simp: bounds_outcome_def Let_def)

lemma temporal_outcome_Pass: "outcome_verdict (temporal_outcome r) = Pass \<longleftrightarrow> r_state r = Live"
  by (cases "r_state r") (simp_all add: temporal_outcome_def)

lemma alignment_outcome_Pass:
  "outcome_verdict (alignment_outcome p ra n) = Pass \<longleftrightarrow> n \<le> 1 \<or> is_multiple_of (p_align p) n"
  by (cases "p_offset p") (auto simp: alignment_outcome_def)

lemma permission_outcome_Pass: "outcome_verdict (permission_outcome g p v l) = Pass \<longleftrightarrow> g"
  by (simp add: permission_outcome_def)

lemmas outcome_Pass_simps =
  report_verdict_Pass bounds_outcome_Pass temporal_outcome_Pass alignment_outcome_Pass
  permission_outcome_Pass

section \<open>Lifetimes as a state machine\<close>

text \<open>One client operation on the model: allocate a region or deallocate one.\<close>

inductive mem_step :: "memory_model \<Rightarrow> memory_model \<Rightarrow> bool" where
  step_allocate: "mem_step m (snd (allocate m kind sz align perms label))"
| step_deallocate: "mem_step m (snd (deallocate m rid))"

inductive mem_steps :: "memory_model \<Rightarrow> memory_model \<Rightarrow> bool" where
  steps_refl: "mem_steps m m"
| steps_step: "mem_steps m m' \<Longrightarrow> mem_step m' m'' \<Longrightarrow> mem_steps m m''"

text \<open>Every region sits at its own index and has been allocated.\<close>

definition mem_wf :: "memory_model \<Rightarrow> bool" where
  "mem_wf m \<longleftrightarrow> (\<forall>i < length m. r_id (m ! i) = i \<and> r_state (m ! i) \<noteq> Uninitialized)"

text \<open>What a later model still knows of an earlier one: no region disappears, a freed one stays freed.\<close>

definition mem_le :: "memory_model \<Rightarrow> memory_model \<Rightarrow> bool" where
  "mem_le m m' \<longleftrightarrow> length m \<le> length m' \<and>
     (\<forall>i < length m. r_id (m' ! i) = r_id (m ! i) \<and> r_size (m' ! i) = r_size (m ! i) \<and>
        (r_state (m ! i) = Freed \<longrightarrow> r_state (m' ! i) = Freed))"

lemma mem_le_refl [simp]: "mem_le m m"
  by (simp add: mem_le_def)

lemma mem_le_trans: "mem_le a b \<Longrightarrow> mem_le b c \<Longrightarrow> mem_le a c"
  by (fastforce simp: mem_le_def)

lemma allocate_wf: "mem_wf m \<Longrightarrow> mem_wf (snd (allocate m k s a p l))"
  by (auto simp: mem_wf_def allocate_def Let_def nth_append)

lemma allocate_le: "mem_le m (snd (allocate m k s a p l))"
  by (auto simp: mem_le_def allocate_def Let_def nth_append)

lemma deallocate_wf: "mem_wf m \<Longrightarrow> mem_wf (snd (deallocate m rid))"
  by (auto simp: mem_wf_def deallocate_def region_of_def nth_list_update split: lifetime_state.splits)

lemma deallocate_le: "mem_le m (snd (deallocate m rid))"
  by (auto simp: mem_le_def deallocate_def region_of_def nth_list_update split: lifetime_state.splits)

lemma mem_step_wf: "mem_step m m' \<Longrightarrow> mem_wf m \<Longrightarrow> mem_wf m'"
  by (induction rule: mem_step.induct) (simp_all add: allocate_wf deallocate_wf)

lemma mem_step_le: "mem_step m m' \<Longrightarrow> mem_le m m'"
  by (induction rule: mem_step.induct) (simp_all add: allocate_le deallocate_le)

lemma mem_steps_wf: "mem_steps m m' \<Longrightarrow> mem_wf m \<Longrightarrow> mem_wf m'"
  by (induction rule: mem_steps.induct) (auto dest: mem_step_wf)

lemma mem_steps_le: "mem_steps m m' \<Longrightarrow> mem_le m m'"
  by (induction rule: mem_steps.induct) (auto dest: mem_step_le intro: mem_le_trans)

lemma deallocate_Live:
  assumes "rid < length m" and "r_state (m ! rid) = Live"
  shows "fst (deallocate m rid) = CProven NoDoubleFree (WasLive rid)"
    and "r_state (snd (deallocate m rid) ! rid) = Freed"
  using assms by (simp_all add: deallocate_def region_of_def)

section \<open>Properties\<close>





text \<open>
  Property C16. Temporal safety over whole histories: once a region has been freed, then
  after any sequence of allocations and deallocations a second free of it is reported as a
  violation, and so is every access through a pointer into it.
\<close>

theorem freed_region_stays_violated:
  assumes "mem_steps m m'" and "rid < length m" and "r_state (m ! rid) = Freed"
  shows "is_violation (fst (deallocate m' rid)) \<and>
     report_verdict (check_access m' (ptr\<lparr>p_provenance := ProvRegion rid\<rparr>) acc) = Fail"
proof -
  have "rid < length m'" "r_state (m' ! rid) = Freed"
    using mem_steps_le [OF assms(1)] assms(2,3) by (auto simp: mem_le_def)
  then show ?thesis
    by (simp add: deallocate_def region_of_def report_verdict_Fail check_access_def temporal_outcome_def)
qed

theorem freed_region_stays_violated_witness:
  "is_violation (fst (deallocate
      (snd (deallocate (snd (allocate [] Heap (SizeExact 8) 8 READ_WRITE ''b'')) 0)) 0))"
proof -
  let ?m = "snd (deallocate (snd (allocate [] Heap (SizeExact 8) 8 READ_WRITE ''b'')) 0)"
  have "0 < length ?m" "r_state (?m ! 0) = Freed"
    by (simp_all add: allocate_def deallocate_def region_of_def)
  from freed_region_stays_violated [OF mem_steps.steps_refl this] show ?thesis by blast
qed

text \<open>
  Property C17. Every history keeps the model well formed: regions carry the index they are
  stored at and are never back in the unallocated state; freeing a live region of a
  reachable model succeeds and marks it freed.
\<close>

theorem reachable_model_wf:
  assumes "mem_steps [] m"
  shows "(\<forall>i < length m. r_id (m ! i) = i) \<and>
    (\<forall>rid < length m. r_state (m ! rid) \<noteq> Freed \<longrightarrow>
       outcome_verdict (fst (deallocate m rid)) = Pass \<and>
       r_state (snd (deallocate m rid) ! rid) = Freed)"
proof -
  have wf: "mem_wf m" by (rule mem_steps_wf [OF assms]) (simp add: mem_wf_def)
  have "r_state (m ! rid) = Live" if "rid < length m" "r_state (m ! rid) \<noteq> Freed" for rid
    using wf that by (cases "r_state (m ! rid)") (auto simp: mem_wf_def)
  with wf show ?thesis by (auto simp: mem_wf_def deallocate_Live)
qed

theorem reachable_model_wf_witness:
  "outcome_verdict (fst (deallocate (snd (allocate [] Stack SizeUnknown 4 READ_ONLY ''x'')) 0)) = Pass"
proof -
  have "mem_steps [] (snd (allocate [] Stack SizeUnknown 4 READ_ONLY ''x''))"
    by (rule mem_steps.steps_step [OF mem_steps.steps_refl mem_step.step_allocate])
  from reachable_model_wf [OF this] show ?thesis
    by (simp add: allocate_def)
qed

text \<open>
  Pointer arithmetic keeps the alignment guarantee: if the recorded alignment
  is a power of two below \<open>2 ^ 64\<close> and divides the pointer's address, then after
  \<open>offset_bytes\<close> (with no \<open>i128\<close> overflow) the new recorded alignment divides the new address,
  and the provenance is unchanged.
\<close>

theorem offset_bytes_alignment:
  assumes "p_align p = 2 ^ k" and "k < 64" and "p_offset p = OffExact x" and "in_i128 (x + delta)"
    and "int (p_align p) dvd base + x"
  shows "p_offset (offset_bytes p delta) = OffExact (x + delta) \<and>
    int (p_align (offset_bytes p delta)) dvd base + (x + delta) \<and>
    p_provenance (offset_bytes p delta) = p_provenance p"
  using align_after_offset_dvd [of k "base + x" delta] assms
  by (simp add: offset_bytes_def Let_def wrap_i128_id add.assoc)

theorem offset_bytes_alignment_witness:
  "p_offset (offset_bytes (to_region 3 8) 4) = OffExact 4 \<and>
   int (p_align (offset_bytes (to_region 3 8) 4)) dvd 1000 + 4"
  using offset_bytes_alignment [of "to_region 3 8" 3 0 4 1000]
  by (simp add: to_region_def i128_defs)

text \<open>
  The alignment verdict depends on how an address was computed. Stepping an
  8-aligned pointer by 4 twice reaches the same offset as stepping by 8, which is 8-aligned
  at every 8-aligned base, yet the access through the former is reported as an alignment
  violation and the access through the latter as proven.
\<close>

theorem alignment_violation_is_path_dependent:
  "let p = to_region 0 8; two_steps = offset_bytes (offset_bytes p 4) 4; one_step = offset_bytes p 8
   in p_offset two_steps = p_offset one_step \<and>
      outcome_verdict (alignment_outcome two_steps 8 8) = Fail \<and>
      outcome_verdict (alignment_outcome one_step 8 8) = Pass"
  by (simp add: to_region_def offset_bytes_def Let_def align_after_offset_examples
      alignment_outcome_def is_multiple_of_def wrap_i128_def)

text \<open>
  At the extreme of the \<open>i128\<close> range the bounds check of a release build is
  fooled by wrap-around: for the largest offset the end of the access wraps to a negative
  number and the access is reported as in bounds of a region of any size.
\<close>

theorem bounds_outcome_wraps:
  "outcome_verdict (bounds_outcome (OffExact i128_max) 1 (SizeExact sz)) = Pass"
  by (simp add: bounds_outcome_def i128_max_def wrap_i128_def)

end
