(* ===== verification/Bv_Ops.thy ===== *)
theory Bv_Ops
  imports Bit_Vector
begin

unbundle bit_operations_syntax

text \<open>
  The operators of the expression IR (\<open>crates/solver/src/expr.rs\<close>), constant folding
  (\<open>fold_bin\<close>, \<open>eval_cmp\<close>) and the reference semantics they are checked against:
  \<open>bin_den op w x y\<close> is the SMT-LIB value of \<open>x op y\<close> on \<open>w\<close>-bit numbers (total, also for a zero
  divisor) and \<open>cmp_den op w x y\<close> the truth value of a comparison.
\<close>

datatype bv_op = Add | Sub | Mul | UDiv | SDiv | URem | SRem | And | Or | Xor | Shl | LShr | AShr

datatype cmp_op = Eq | Ne | Ult | Ule | Ugt | Uge | Slt | Sle | Sgt | Sge

fun cmp_negate :: "cmp_op \<Rightarrow> cmp_op" where
  "cmp_negate Eq = Ne"
| "cmp_negate Ne = Eq"
| "cmp_negate Ult = Uge"
| "cmp_negate Uge = Ult"
| "cmp_negate Ule = Ugt"
| "cmp_negate Ugt = Ule"
| "cmp_negate Slt = Sge"
| "cmp_negate Sge = Slt"
| "cmp_negate Sle = Sgt"
| "cmp_negate Sgt = Sle"

text \<open>Rust's \<open>/\<close> and \<open>%\<close> on signed integers round towards zero.\<close>

definition trunc_div :: "int \<Rightarrow> int \<Rightarrow> int" where
  "trunc_div a b = sgn a * sgn b * (\<bar>a\<bar> div \<bar>b\<bar>)"

definition trunc_rem :: "int \<Rightarrow> int \<Rightarrow> int" where
  "trunc_rem a b = sgn a * (\<bar>a\<bar> mod \<bar>b\<bar>)"

definition fold_bin :: "bv_op \<Rightarrow> bit_vector \<Rightarrow> bit_vector \<Rightarrow> nat \<Rightarrow> bit_vector option" where
  "fold_bin op x y width =
     (let xu = bv_unsigned x; yu = bv_unsigned y; w = width in
      case op of
        Add \<Rightarrow> bv_new w (xu + yu)
      | Sub \<Rightarrow> bv_new w (xu - yu)
      | Mul \<Rightarrow> bv_new w (xu * yu)
      | UDiv \<Rightarrow> if yu = 0 then None else bv_new w (xu div yu)
      | URem \<Rightarrow> if yu = 0 then None else bv_new w (xu mod yu)
      | SDiv \<Rightarrow> (let ys = bv_signed y in
          if ys = 0 then None
          else bv_new w (word_of_int (wrap_i128 (trunc_div (bv_signed x) ys))))
      | SRem \<Rightarrow> (let ys = bv_signed y in
          if ys = 0 then None
          else bv_new w (word_of_int (wrap_i128 (trunc_rem (bv_signed x) ys))))
      | And \<Rightarrow> bv_new w (xu AND yu)
      | Or \<Rightarrow> bv_new w (xu OR yu)
      | Xor \<Rightarrow> bv_new w (xu XOR yu)
      | Shl \<Rightarrow> bv_new w (if unat yu \<ge> w then 0 else push_bit (unat yu) xu)
      | LShr \<Rightarrow> bv_new w (if unat yu \<ge> w then 0 else drop_bit (unat yu) xu)
      | AShr \<Rightarrow> (let s = bv_signed x in
          bv_new w (if unat yu \<ge> w then (if s < 0 then - 1 else 0)
                    else word_of_int (drop_bit (unat yu) s))))"

definition eval_cmp :: "cmp_op \<Rightarrow> bit_vector \<Rightarrow> bit_vector \<Rightarrow> bool" where
  "eval_cmp op x y =
     (let xu = bv_unsigned x; yu = bv_unsigned y; xs = bv_signed x; ys = bv_signed y in
      case op of
        Eq \<Rightarrow> xu = yu | Ne \<Rightarrow> xu \<noteq> yu
      | Ult \<Rightarrow> xu < yu | Ule \<Rightarrow> xu \<le> yu | Ugt \<Rightarrow> xu > yu | Uge \<Rightarrow> xu \<ge> yu
      | Slt \<Rightarrow> xs < ys | Sle \<Rightarrow> xs \<le> ys | Sgt \<Rightarrow> xs > ys | Sge \<Rightarrow> xs \<ge> ys)"

section \<open>Reference semantics\<close>

definition from_int :: "nat \<Rightarrow> int \<Rightarrow> nat" where
  "from_int w i = nat (i mod 2 ^ w)"

definition bin_den :: "bv_op \<Rightarrow> nat \<Rightarrow> nat \<Rightarrow> nat \<Rightarrow> nat" where
  "bin_den op w x y =
     (let sx = to_signed w x; sy = to_signed w y in
      case op of
        Add \<Rightarrow> (x + y) mod 2 ^ w
      | Sub \<Rightarrow> (x + (2 ^ w - y)) mod 2 ^ w
      | Mul \<Rightarrow> (x * y) mod 2 ^ w
      | UDiv \<Rightarrow> if y = 0 then 2 ^ w - 1 else x div y
      | URem \<Rightarrow> if y = 0 then x else x mod y
      | SDiv \<Rightarrow> if y = 0 then (if sx < 0 then 1 else 2 ^ w - 1) else from_int w (trunc_div sx sy)
      | SRem \<Rightarrow> if y = 0 then x else from_int w (trunc_rem sx sy)
      | And \<Rightarrow> x AND y
      | Or \<Rightarrow> x OR y
      | Xor \<Rightarrow> x XOR y
      | Shl \<Rightarrow> if y \<ge> w then 0 else (x * 2 ^ y) mod 2 ^ w
      | LShr \<Rightarrow> if y \<ge> w then 0 else x div 2 ^ y
      | AShr \<Rightarrow> from_int w (if y \<ge> w then (if sx < 0 then - 1 else 0) else sx div 2 ^ y))"

definition cmp_den :: "cmp_op \<Rightarrow> nat \<Rightarrow> nat \<Rightarrow> nat \<Rightarrow> bool" where
  "cmp_den op w x y =
     (let sx = to_signed w x; sy = to_signed w y in
      case op of
        Eq \<Rightarrow> x = y | Ne \<Rightarrow> x \<noteq> y
      | Ult \<Rightarrow> x < y | Ule \<Rightarrow> x \<le> y | Ugt \<Rightarrow> x > y | Uge \<Rightarrow> x \<ge> y
      | Slt \<Rightarrow> sx < sy | Sle \<Rightarrow> sx \<le> sy | Sgt \<Rightarrow> sx > sy | Sge \<Rightarrow> sx \<ge> sy)"

lemma bin_den_simps:
  "bin_den Add w x y = (x + y) mod 2 ^ w"
  "bin_den Sub w x y = (x + (2 ^ w - y)) mod 2 ^ w"
  "bin_den Mul w x y = (x * y) mod 2 ^ w"
  "bin_den And w x y = x AND y"
  "bin_den Or w x y = x OR y"
  "bin_den Xor w x y = x XOR y"
  "bin_den Shl w x y = (if y \<ge> w then 0 else (x * 2 ^ y) mod 2 ^ w)"
  "bin_den LShr w x y = (if y \<ge> w then 0 else x div 2 ^ y)"
  "bin_den AShr w x y = from_int w (if y \<ge> w then (if to_signed w x < 0 then - 1 else 0)
     else to_signed w x div 2 ^ y)"
  by (simp_all add: bin_den_def)

lemma cmp_den_negate: "cmp_den (cmp_negate op) w x y \<longleftrightarrow> \<not> cmp_den op w x y"
  by (cases op) (auto simp: cmp_den_def)

lemma cmp_negate_involutive [simp]: "cmp_negate (cmp_negate op) = op"
  by (cases op) simp_all

lemma from_int_less [simp]: "from_int w i < 2 ^ w"
  by (simp add: from_int_def nat_less_iff)

lemma from_int_of_nat: "n < 2 ^ w \<Longrightarrow> from_int w (int n) = n"
  by (simp add: from_int_def nat_mod_distrib nat_power_eq)

lemma from_int_cong: "i mod 2 ^ w = j mod 2 ^ w \<Longrightarrow> from_int w i = from_int w j"
  by (simp add: from_int_def)

lemma int_from_int: "int (from_int w i) = i mod 2 ^ w"
  by (simp add: from_int_def)

lemma to_signed_bounds:
  assumes "n < 2 ^ w" and "0 < w"
  shows "- (2 ^ (w - 1)) \<le> to_signed w n" and "to_signed w n < 2 ^ (w - 1)"
proof -
  have "(2::int) ^ w = 2 * 2 ^ (w - 1)" using assms(2) by (cases w) simp_all
  moreover have "int n < 2 ^ w" using assms(1) by simp
  moreover have "\<not> n < 2 ^ (w - 1) \<Longrightarrow> 2 ^ (w - 1) \<le> int n" by (simp add: not_less)
  moreover have "n < 2 ^ (w - 1) \<Longrightarrow> int n < 2 ^ (w - 1)" by simp
  ultimately show "- (2 ^ (w - 1)) \<le> to_signed w n" and "to_signed w n < 2 ^ (w - 1)"
    by (auto simp: to_signed_def)
qed

lemma to_signed_mod: "to_signed w n mod 2 ^ w = int n mod 2 ^ w"
  by (simp add: to_signed_def)

lemma from_int_to_signed: "n < 2 ^ w \<Longrightarrow> from_int w (to_signed w n) = n"
  using from_int_cong [OF to_signed_mod] from_int_of_nat by metis

lemma to_signed_eq_0:
  assumes "n < 2 ^ w"
  shows "to_signed w n = 0 \<longleftrightarrow> n = 0"
proof -
  have "int n < 2 ^ w" using assms by simp
  then show ?thesis by (cases "n = 0") (auto simp: to_signed_def)
qed

section \<open>Constant folding is exact\<close>

lemma eval_cmp_den:
  assumes "bv_wf x" and "bv_wf y" and "bv_width x = w" and "bv_width y = w"
  shows "eval_cmp op x y = cmp_den op w (bv_nat x) (bv_nat y)"
  using assms
  by (cases op) (auto simp: eval_cmp_def cmp_den_def Let_def bv_signed_to_signed bv_nat_def
      word_less_nat_alt word_le_nat_alt word_unat_eq_iff)

lemma fold_bin_unsigned:
  assumes "bv_wf x" and "bv_wf y" and "bv_width x = w" and "bv_width y = w"
    and "fold_bin op x y w = Some v" and "op \<in> {Add, Mul, UDiv, URem, And, Or, Xor, Shl, LShr}"
  shows "bv_nat v = bin_den op w (bv_nat x) (bv_nat y)"
proof -
  have w: "0 < w" "w \<le> 128" using assms(1,3) by (auto simp: bv_wf_def)
  have x: "bv_nat x < 2 ^ w" and y: "bv_nat y < 2 ^ w"
    using bv_nat_less [OF assms(1)] bv_nat_less [OF assms(2)] assms(3,4) by simp_all
  have new: "bv_new w r = Some v \<Longrightarrow> bv_nat v = unat r mod 2 ^ w" for r
    by (rule bv_new_facts(2))
  have le: "bv_nat x div m < 2 ^ w" "bv_nat x mod m < 2 ^ w" for m
    using x by (meson div_le_dividend mod_less_eq_dividend order_le_less_trans)+
  have bits: "bv_nat x AND bv_nat y < 2 ^ w" "bv_nat x OR bv_nat y < 2 ^ w" "bv_nat x XOR bv_nat y < 2 ^ w"
    using x y by (simp_all add: take_bit_and take_bit_or take_bit_xor flip: take_bit_nat_eq_self_iff)
  have z: "bv_unsigned y = 0 \<longleftrightarrow> bv_nat y = 0" by (simp add: bv_nat_def unat_eq_0)
  have shl: "unat (push_bit k (bv_unsigned x)) mod 2 ^ w = bv_nat x * 2 ^ k mod 2 ^ w" for k
  proof -
    have "unat (push_bit k (bv_unsigned x)) = take_bit 128 (push_bit k (bv_nat x))"
      by (simp only: unsigned_push_bit_eq bv_nat_def) simp
    then show ?thesis using w by (simp only: take_bit_eq_mod push_bit_eq_mult) (simp add: machine_simps)
  qed
  have shr: "unat (drop_bit k (bv_unsigned x)) = bv_nat x div 2 ^ k" for k
    by (simp only: unsigned_drop_bit_eq bv_nat_def flip: drop_bit_eq_div)
      (simp add: take_bit_drop_bit take_bit_word_eq_self flip: unsigned_take_bit_eq)
  show ?thesis
    using assms(5,6) le bits
    by (cases op)
      (auto simp: fold_bin_def bin_den_def Let_def bv_nat_def [symmetric] unat_word_ariths unat_div_distrib
        unat_mod_distrib z shl shr unsigned_and_eq unsigned_or_eq unsigned_xor_eq
        w machine_simps
        split: if_splits dest!: new)
qed

lemma unat_word_of_int_mod:
  assumes "w \<le> 128"
  shows "unat (word_of_int i :: u128) mod 2 ^ w = from_int w i"
proof -
  have "int (unat (word_of_int i :: u128) mod 2 ^ w) = i mod 2 ^ w"
    by (simp add: of_nat_mod uint_word_of_int machine_simps assms)
  then show ?thesis by (metis int_from_int of_nat_eq_iff)
qed

lemma wrap_i128_mod:
  assumes "w \<le> 128"
  shows "wrap_i128 x mod 2 ^ w = x mod 2 ^ w"
proof -
  have "wrap_i128 x mod 2 ^ w = ((x + 2 ^ 127) mod 2 ^ 128 mod 2 ^ w - 2 ^ 127) mod 2 ^ w"
    unfolding wrap_i128_def by (simp only: mod_diff_left_eq)
  also have "\<dots> = x mod 2 ^ w"
    using assms by (simp add: machine_simps mod_diff_left_eq)
  finally show ?thesis .
qed

lemma fold_bin_signed:
  assumes "bv_wf x" and "bv_wf y" and "bv_width x = w" and "bv_width y = w"
    and "fold_bin op x y w = Some v" and "op \<in> {SDiv, SRem, AShr}"
  shows "bv_nat v = bin_den op w (bv_nat x) (bv_nat y)"
proof -
  have w: "0 < w" "w \<le> 128" using assms(1,3) by (auto simp: bv_wf_def)
  have y: "bv_nat y < 2 ^ w"
    using bv_nat_less [OF assms(2)] assms(4) by simp
  have new: "bv_new w (word_of_int i) = Some v \<Longrightarrow> bv_nat v = from_int w i" for i
    using bv_new_facts(2) [of w "word_of_int i" v] unat_word_of_int_mod [OF w(2)] by simp
  have wrap: "from_int w (wrap_i128 i) = from_int w i" for i
    by (rule from_int_cong) (rule wrap_i128_mod [OF w(2)])
  have s: "bv_signed x = to_signed w (bv_nat x)" "bv_signed y = to_signed w (bv_nat y)"
    using bv_signed_to_signed assms(1-4) by auto
  have new': "bv_new w (- 1) = Some v \<Longrightarrow> bv_nat v = from_int w (- 1)"
    "bv_new w 0 = Some v \<Longrightarrow> bv_nat v = from_int w 0"
    using new [of "- 1"] new [of 0] by simp_all
  have z: "bv_signed y = 0 \<longleftrightarrow> bv_nat y = 0" by (simp add: s to_signed_eq_0 [OF y])
  consider "op = SDiv" | "op = SRem" | "op = AShr" using assms(6) by blast
  then show ?thesis
  proof cases
    case 3
    then show ?thesis
      using assms(5) new [of "drop_bit (bv_nat y) (to_signed w (bv_nat x))"] new'
      by (simp add: fold_bin_def bin_den_def s(1) Let_def drop_bit_eq_div flip: bv_nat_def split: if_splits)
  next
    case 1
    with assms(5) have "bv_nat y \<noteq> 0"
        and "bv_new w (word_of_int (wrap_i128 (trunc_div (to_signed w (bv_nat x)) (to_signed w (bv_nat y))))) = Some v"
      by (simp_all add: fold_bin_def Let_def z s to_signed_eq_0 [OF y] split: if_splits)
    with 1 new wrap show ?thesis by (simp add: bin_den_def)
  next
    case 2
    with assms(5) have "bv_nat y \<noteq> 0"
        and "bv_new w (word_of_int (wrap_i128 (trunc_rem (to_signed w (bv_nat x)) (to_signed w (bv_nat y))))) = Some v"
      by (simp_all add: fold_bin_def Let_def z s to_signed_eq_0 [OF y] split: if_splits)
    with 2 new wrap show ?thesis by (simp add: bin_den_def)
  qed
qed

lemma fold_bin_sub:
  assumes "bv_wf x" and "bv_wf y" and "bv_width x = w" and "bv_width y = w"
    and "fold_bin Sub x y w = Some v"
  shows "bv_nat v = bin_den Sub w (bv_nat x) (bv_nat y)"
  using assms bv_wrapping_sub_nat [of x y v]
  by (simp add: fold_bin_def bin_den_def bv_wrapping_sub_def bv_unsigned_def)

text \<open>Constant folding computes the reference value of the operation, and is defined except for a zero divisor.\<close>

lemma fold_bin_exact:
  assumes "bv_wf x" and "bv_wf y" and "bv_width x = w" and "bv_width y = w"
    and "fold_bin op x y w = Some v"
  shows "bv_nat v = bin_den op w (bv_nat x) (bv_nat y) \<and> bv_width v = w \<and> bv_wf v"
proof -
  have "bv_nat v = bin_den op w (bv_nat x) (bv_nat y)"
    using fold_bin_unsigned [OF assms] fold_bin_signed [OF assms] fold_bin_sub [OF assms(1-4)] assms(5)
    by (cases op) auto
  moreover have "\<exists>r. bv_new w r = Some v"
    using assms(5) by (auto simp: fold_bin_def Let_def split: bv_op.splits if_splits)
  ultimately show ?thesis using bv_new_facts by blast
qed

lemma bin_den_less:
  assumes "x < 2 ^ w" and "y < 2 ^ w"
  shows "bin_den op w x y < 2 ^ w"
proof -
  have "x AND y < 2 ^ w" "x OR y < 2 ^ w" "x XOR y < 2 ^ w"
    using assms by (simp_all add: take_bit_and take_bit_or take_bit_xor flip: take_bit_nat_eq_self_iff)
  moreover have "x div m < 2 ^ w" "x mod m < 2 ^ w" for m
    using assms(1) by (meson div_le_dividend mod_less_eq_dividend order_le_less_trans)+
  moreover have "to_signed w x < 0 \<Longrightarrow> Suc 0 < 2 ^ w"
    using assms(1) one_less_power [of "2::nat" w] by (cases "w = 0") (auto simp: to_signed_def)
  ultimately show ?thesis
    using assms by (cases op) (auto simp: bin_den_def Let_def)
qed

text \<open>
  Property C14. Constant folding and its error path: folding two well-formed constants of one
  width gives no constant exactly when the operation is one of the four divisions and the divisor
  is zero, and otherwise gives the constant of that width whose value is the operation's.
\<close>

theorem constant_folding_exact:
  assumes "bv_wf x" and "bv_wf y" and "bv_width x = w" and "bv_width y = w"
  shows "map_option (\<lambda>v. (bv_width v, bv_nat v)) (fold_bin op x y w) =
    (if op \<in> {UDiv, URem, SDiv, SRem} \<and> bv_nat y = 0 then None
     else Some (w, bin_den op w (bv_nat x) (bv_nat y)))"
proof -
  have w: "0 < w" "w \<le> 128"
    using assms by (auto simp: bv_wf_def)
  have zero: "bv_signed y = 0 \<longleftrightarrow> bv_nat y = 0" "bv_unsigned y = 0 \<longleftrightarrow> bv_nat y = 0"
    using assms(2,4) bv_signed_to_signed [OF assms(2)] bv_nat_less [OF assms(2)] w(1)
    by (simp_all add: to_signed_eq_0 bv_nat_def unat_eq_0)
  have new: "bv_new w v \<noteq> None" for v
    using w by (simp add: bv_new_def)
  have none: "fold_bin op x y w = None \<longleftrightarrow> op \<in> {UDiv, URem, SDiv, SRem} \<and> bv_nat y = 0"
    using new by (cases op) (auto simp: fold_bin_def Let_def zero)
  show ?thesis
  proof (cases "fold_bin op x y w")
    case None
    then show ?thesis using none by simp
  next
    case (Some v)
    then show ?thesis using none fold_bin_exact [OF assms Some] by simp
  qed
qed

text \<open>Dividing 7 by 0 at eight bits is not folded; dividing it by 2 gives 3.\<close>

theorem constant_folding_exact_witness:
  "map_option (\<lambda>v. (bv_width v, bv_nat v))
      (fold_bin SDiv \<lparr>bv_width = 8, bv_words = (7, 0)\<rparr> \<lparr>bv_width = 8, bv_words = (0, 0)\<rparr> 8) = None
   \<and> map_option (\<lambda>v. (bv_width v, bv_nat v))
      (fold_bin SDiv \<lparr>bv_width = 8, bv_words = (7, 0)\<rparr> \<lparr>bv_width = 8, bv_words = (2, 0)\<rparr> 8) = Some (8, 3)"
  using constant_folding_exact [of "\<lparr>bv_width = 8, bv_words = (7, 0)\<rparr>" "\<lparr>bv_width = 8, bv_words = (0, 0)\<rparr>" 8 SDiv]
    constant_folding_exact [of "\<lparr>bv_width = 8, bv_words = (7, 0)\<rparr>" "\<lparr>bv_width = 8, bv_words = (2, 0)\<rparr>" 8 SDiv]
  by (simp add: bv_wf_def bv_value_def bv_nat_def bv_unsigned_def bin_den_def to_signed_def
      trunc_div_def from_int_def Let_def)

end
