(* ===== verification/Expr_Ctx.thy ===== *)
theory Expr_Ctx
  imports Bv_Ops
begin

text \<open>
  The hash-consed expression arena of \<open>crates/solver/src/expr.rs\<close>. Expression ids are indices into the
  arena; the \<open>u32\<close> index is a natural number (an arena of \<open>2 ^ 32\<close> nodes does not fit in memory).
  A builder that can panic (a constant of width 0 or above 128) returns \<open>None\<close> in that case.

  The denotation \<open>expr_val env ctx e\<close> is a number below \<open>2 ^ width ctx e\<close>; a symbol is identified by its
  name and width. The lemmas show that every builder keeps the arena invariant, leaves the
  value of every earlier expression unchanged, and returns an expression with the value of the
  operation it is named after, whichever simplification it takes.
\<close>

datatype expr_node =
    Const bit_vector
  | Sym string nat
  | Bin bv_op nat nat
  | Cmp cmp_op nat nat
  | Bool bool
  | Not_node nat
  | And_node "nat list"
  | Or_node "nat list"
  | Ite nat nat nat
  | Zext nat
  | Sext nat

record expr_ctx =
  nodes :: "expr_node list"
  widths :: "nat list"
  intern_map :: "expr_node \<Rightarrow> nat option"

definition expr_ctx_new :: expr_ctx where
  "expr_ctx_new = \<lparr>nodes = [], widths = [], intern_map = (\<lambda>_. None)\<rparr>"

definition ctx_len :: "expr_ctx \<Rightarrow> nat" where
  "ctx_len ctx = length (nodes ctx)"

definition node :: "expr_ctx \<Rightarrow> nat \<Rightarrow> expr_node" where
  "node ctx e = nodes ctx ! e"

definition width :: "expr_ctx \<Rightarrow> nat \<Rightarrow> nat" where
  "width ctx e = widths ctx ! e"

definition BOOL_WIDTH :: nat where
  "BOOL_WIDTH = 1"

definition as_const :: "expr_ctx \<Rightarrow> nat \<Rightarrow> bit_vector option" where
  "as_const ctx e = (case node ctx e of Const bv \<Rightarrow> Some bv | _ \<Rightarrow> None)"

definition as_bool :: "expr_ctx \<Rightarrow> nat \<Rightarrow> bool option" where
  "as_bool ctx e = (case node ctx e of Bool b \<Rightarrow> Some b | _ \<Rightarrow> None)"

definition intern :: "expr_node \<Rightarrow> nat \<Rightarrow> expr_ctx \<Rightarrow> nat \<times> expr_ctx" where
  "intern n w ctx =
     (case intern_map ctx n of
        Some e \<Rightarrow> (e, ctx)
      | None \<Rightarrow>
          (let e = length (nodes ctx)
           in (e, \<lparr>nodes = nodes ctx @ [n], widths = widths ctx @ [w],
                   intern_map = (intern_map ctx)(n \<mapsto> e)\<rparr>)))"

section \<open>Builders\<close>

definition constant_expr :: "bit_vector \<Rightarrow> expr_ctx \<Rightarrow> nat \<times> expr_ctx" where
  "constant_expr v ctx = intern (Const v) (bv_width v) ctx"

definition int_const :: "nat \<Rightarrow> u128 \<Rightarrow> expr_ctx \<Rightarrow> (nat \<times> expr_ctx) option" where
  "int_const w v ctx = map_option (\<lambda>bv. constant_expr bv ctx) (bv_new w v)"

definition zext :: "nat \<Rightarrow> nat \<Rightarrow> expr_ctx \<Rightarrow> (nat \<times> expr_ctx) option" where
  "zext val to ctx =
     (if width ctx val \<ge> to then Some (val, ctx)
      else case node ctx val of
             Const bv \<Rightarrow> int_const to (bv_unsigned bv) ctx
           | _ \<Rightarrow> Some (intern (Zext val) to ctx))"

definition sext :: "nat \<Rightarrow> nat \<Rightarrow> expr_ctx \<Rightarrow> (nat \<times> expr_ctx) option" where
  "sext val to ctx =
     (if width ctx val \<ge> to then Some (val, ctx)
      else case node ctx val of
             Const bv \<Rightarrow> int_const to (word_of_int (bv_signed bv)) ctx
           | _ \<Rightarrow> Some (intern (Sext val) to ctx))"

definition symbol :: "string \<Rightarrow> nat \<Rightarrow> expr_ctx \<Rightarrow> nat \<times> expr_ctx" where
  "symbol name w ctx = intern (Sym name w) w ctx"

definition boolean :: "bool \<Rightarrow> expr_ctx \<Rightarrow> nat \<times> expr_ctx" where
  "boolean b ctx = intern (Bool b) BOOL_WIDTH ctx"

definition bin :: "bv_op \<Rightarrow> nat \<Rightarrow> nat \<Rightarrow> expr_ctx \<Rightarrow> (nat \<times> expr_ctx) option" where
  "bin op a b ctx =
     (let w = width ctx a;
          folded = (case (as_const ctx a, as_const ctx b) of
                      (Some x, Some y) \<Rightarrow> if bv_width x = bv_width y then fold_bin op x y w else None
                    | _ \<Rightarrow> None)
      in case folded of
           Some v \<Rightarrow> Some (constant_expr v ctx)
         | None \<Rightarrow>
             (let zero = map_option bv_is_zero (as_const ctx a);
                  zero_b = map_option bv_is_zero (as_const ctx b);
                  one = map_option (\<lambda>v. bv_unsigned v = 1) (as_const ctx a);
                  one_b = map_option (\<lambda>v. bv_unsigned v = 1) (as_const ctx b)
              in if op \<in> {Add, Sub, Or, Xor} \<and> zero_b = Some True then Some (a, ctx)
                 else if op \<in> {Add, Or} \<and> zero = Some True then Some (b, ctx)
                 else if op \<in> {Mul, And} \<and> zero_b = Some True then Some (b, ctx)
                 else if op \<in> {Mul, And} \<and> zero = Some True then Some (a, ctx)
                 else if op = Mul \<and> one_b = Some True then Some (a, ctx)
                 else if op = Mul \<and> one = Some True then Some (b, ctx)
                 else if op = Sub \<and> a = b then int_const w 0 ctx
                 else Some (intern (Bin op a b) w ctx)))"

definition cmp :: "cmp_op \<Rightarrow> nat \<Rightarrow> nat \<Rightarrow> expr_ctx \<Rightarrow> nat \<times> expr_ctx" where
  "cmp op a b ctx =
     (let rest = (if a = b then boolean (op \<in> {Eq, Ule, Uge, Sle, Sge}) ctx
                  else intern (Cmp op a b) BOOL_WIDTH ctx)
      in case (as_const ctx a, as_const ctx b) of
           (Some x, Some y) \<Rightarrow> if bv_width x = bv_width y then boolean (eval_cmp op x y) ctx else rest
         | _ \<Rightarrow> rest)"

definition not_expr :: "nat \<Rightarrow> expr_ctx \<Rightarrow> nat \<times> expr_ctx" where
  "not_expr e ctx =
     (case node ctx e of
        Bool b \<Rightarrow> boolean (\<not> b) ctx
      | Not_node inner \<Rightarrow> (inner, ctx)
      | Cmp op a b \<Rightarrow> cmp (cmp_negate op) a b ctx
      | _ \<Rightarrow> intern (Not_node e) BOOL_WIDTH ctx)"

text \<open>The flattening loop; \<open>None\<close> when an absorbing literal ends it early.\<close>

fun flatten_and :: "expr_ctx \<Rightarrow> nat list \<Rightarrow> nat list \<Rightarrow> nat list option" where
  "flatten_and ctx [] flat = Some flat"
| "flatten_and ctx (p # parts) flat =
     (case node ctx p of
        Bool b \<Rightarrow> if b then flatten_and ctx parts flat else None
      | And_node inner \<Rightarrow> flatten_and ctx parts (flat @ inner)
      | _ \<Rightarrow> flatten_and ctx parts (flat @ [p]))"

fun flatten_or :: "expr_ctx \<Rightarrow> nat list \<Rightarrow> nat list \<Rightarrow> nat list option" where
  "flatten_or ctx [] flat = Some flat"
| "flatten_or ctx (p # parts) flat =
     (case node ctx p of
        Bool b \<Rightarrow> if b then None else flatten_or ctx parts flat
      | Or_node inner \<Rightarrow> flatten_or ctx parts (flat @ inner)
      | _ \<Rightarrow> flatten_or ctx parts (flat @ [p]))"

definition sort_dedup :: "nat list \<Rightarrow> nat list" where
  "sort_dedup xs = remdups_adj (sort xs)"

definition and_expr :: "nat list \<Rightarrow> expr_ctx \<Rightarrow> nat \<times> expr_ctx" where
  "and_expr parts ctx =
     (case flatten_and ctx parts [] of
        None \<Rightarrow> boolean False ctx
      | Some flat \<Rightarrow>
          (case sort_dedup flat of
             [] \<Rightarrow> boolean True ctx
           | [e] \<Rightarrow> (e, ctx)
           | es \<Rightarrow> intern (And_node es) BOOL_WIDTH ctx))"

definition or_expr :: "nat list \<Rightarrow> expr_ctx \<Rightarrow> nat \<times> expr_ctx" where
  "or_expr parts ctx =
     (case flatten_or ctx parts [] of
        None \<Rightarrow> boolean True ctx
      | Some flat \<Rightarrow>
          (case sort_dedup flat of
             [] \<Rightarrow> boolean False ctx
           | [e] \<Rightarrow> (e, ctx)
           | es \<Rightarrow> intern (Or_node es) BOOL_WIDTH ctx))"

definition ite :: "nat \<Rightarrow> nat \<Rightarrow> nat \<Rightarrow> expr_ctx \<Rightarrow> nat \<times> expr_ctx" where
  "ite c t e ctx =
     (case as_bool ctx c of
        Some b \<Rightarrow> (if b then t else e, ctx)
      | None \<Rightarrow> if t = e then (t, ctx) else intern (Ite c t e) (width ctx t) ctx)"

section \<open>Reachable symbols\<close>

fun children :: "expr_node \<Rightarrow> nat list" where
  "children (Const _) = []"
| "children (Bool _) = []"
| "children (Sym _ _) = []"
| "children (Not_node a) = [a]"
| "children (Zext a) = [a]"
| "children (Sext a) = [a]"
| "children (Bin _ a b) = [a, b]"
| "children (Cmp _ a b) = [a, b]"
| "children (And_node v) = v"
| "children (Or_node v) = v"
| "children (Ite c t e) = [c, t, e]"

fun is_sym :: "expr_node \<Rightarrow> bool" where
  "is_sym (Sym _ _) = True"
| "is_sym _ = False"

text \<open>
  The depth-first worklist; the top of the stack is the head of the list, so pushing \<open>xs\<close> in order puts
  \<open>rev xs\<close> in front. \<open>None\<close> is the index panic of \<open>node\<close> on an id outside the arena.
\<close>

function symbols_loop :: "expr_ctx \<Rightarrow> nat list \<Rightarrow> nat list \<Rightarrow> nat list \<Rightarrow> nat list option" where
  "symbols_loop ctx [] seen acc = Some acc"
| "symbols_loop ctx (x # stack) seen acc =
     (if x \<in> set seen then symbols_loop ctx stack seen acc
      else if x < ctx_len ctx
      then symbols_loop ctx (rev (children (node ctx x)) @ stack) (x # seen)
             (if is_sym (node ctx x) then acc @ [x] else acc)
      else None)"
  by pat_completeness auto
termination
proof (relation "measures [\<lambda>(ctx, stack, seen, acc). card ({0..<ctx_len ctx} - set seen),
    \<lambda>(ctx, stack, seen, acc). length stack]", goal_cases)
  case (3 ctx x stack seen acc)
  then have "x \<in> {0..<ctx_len ctx} - set seen" by simp
  then have "card ({0..<ctx_len ctx} - set seen - {x}) < card ({0..<ctx_len ctx} - set seen)"
    by (intro card_Diff1_less) auto
  moreover have "{0..<ctx_len ctx} - set (x # seen) = {0..<ctx_len ctx} - set seen - {x}" by auto
  ultimately show ?case by simp
qed simp_all

definition symbols_of :: "expr_ctx \<Rightarrow> nat \<Rightarrow> nat list option" where
  "symbols_of ctx root = map_option sort_dedup (symbols_loop ctx [root] [] [])"

section \<open>Denotation\<close>

type_synonym env = "string \<Rightarrow> nat \<Rightarrow> nat"

primrec node_den :: "env \<Rightarrow> (nat \<Rightarrow> nat) \<Rightarrow> (nat \<Rightarrow> nat) \<Rightarrow> nat \<Rightarrow> expr_node \<Rightarrow> nat" where
  "node_den env W V w (Const bv) = bv_nat bv"
| "node_den env W V w (Sym name _) = env name w"
| "node_den env W V w (Bin op a b) = bin_den op (W a) (V a) (V b)"
| "node_den env W V w (Cmp op a b) = of_bool (cmp_den op (W a) (V a) (V b))"
| "node_den env W V w (Bool b) = of_bool b"
| "node_den env W V w (Not_node a) = of_bool (V a = 0)"
| "node_den env W V w (And_node xs) = of_bool (list_all (\<lambda>x. V x \<noteq> 0) xs)"
| "node_den env W V w (Or_node xs) = of_bool (list_ex (\<lambda>x. V x \<noteq> 0) xs)"
| "node_den env W V w (Ite c t e) = (if V c \<noteq> 0 then V t else V e)"
| "node_den env W V w (Zext a) = V a"
| "node_den env W V w (Sext a) = from_int w (to_signed (W a) (V a))"

definition arena_step :: "env \<Rightarrow> nat list \<Rightarrow> nat list \<Rightarrow> expr_node \<times> nat \<Rightarrow> nat list" where
  "arena_step env ws vs nw =
     vs @ [node_den env (\<lambda>i. ws ! i) (\<lambda>i. vs ! i) (snd nw) (fst nw) mod 2 ^ snd nw]"

definition arena_vals :: "env \<Rightarrow> expr_ctx \<Rightarrow> nat list" where
  "arena_vals env ctx = foldl (arena_step env (widths ctx)) [] (zip (nodes ctx) (widths ctx))"

definition expr_val :: "env \<Rightarrow> expr_ctx \<Rightarrow> nat \<Rightarrow> nat" where
  "expr_val env ctx e = arena_vals env ctx ! e"

section \<open>The arena invariant\<close>

fun node_ok :: "(nat \<Rightarrow> nat) \<Rightarrow> nat \<Rightarrow> expr_node \<Rightarrow> bool" where
  "node_ok W w (Const bv) \<longleftrightarrow> bv_wf bv \<and> w = bv_width bv"
| "node_ok W w (Sym _ v) \<longleftrightarrow> w = v"
| "node_ok W w (Bin _ a _) \<longleftrightarrow> w = W a"
| "node_ok W w (Ite _ t _) \<longleftrightarrow> w = W t"
| "node_ok W w (Zext a) \<longleftrightarrow> W a < w"
| "node_ok W w (Sext a) \<longleftrightarrow> W a < w"
| "node_ok W w _ \<longleftrightarrow> w = BOOL_WIDTH"

definition ctx_wf :: "expr_ctx \<Rightarrow> bool" where
  "ctx_wf ctx \<longleftrightarrow> length (widths ctx) = ctx_len ctx \<and>
     (\<forall>e < ctx_len ctx. node_ok (width ctx) (width ctx e) (node ctx e) \<and>
        (\<forall>x\<in>set (children (node ctx e)). x < e)) \<and>
     (\<forall>n e. intern_map ctx n = Some e \<longleftrightarrow> e < ctx_len ctx \<and> node ctx e = n)"

definition ctx_ext :: "expr_ctx \<Rightarrow> expr_ctx \<Rightarrow> bool" where
  "ctx_ext ctx ctx' \<longleftrightarrow> (\<exists>ns. nodes ctx' = nodes ctx @ ns) \<and> (\<exists>ws. widths ctx' = widths ctx @ ws)"

section \<open>Values of an arena\<close>

lemma node_den_cong:
  assumes "\<And>x. x \<in> set (children n) \<Longrightarrow> W x = W' x \<and> V x = V' x"
  shows "node_den env W V w n = node_den env W' V' w n"
  using assms by (cases n) (auto simp: list_all_iff list_ex_iff)

lemma arena_fold_length: "length (foldl (arena_step env ws) vs xs) = length vs + length xs"
  by (induction xs arbitrary: vs) (simp_all add: arena_step_def)

lemma arena_fold_prefix:
  "i < length vs \<Longrightarrow> foldl (arena_step env ws) vs xs ! i = vs ! i"
  by (induction xs arbitrary: vs) (simp_all add: arena_step_def nth_append)

lemma arena_fold_nth:
  assumes "i < length xs"
  shows "foldl (arena_step env ws) [] xs ! i =
    node_den env (\<lambda>j. ws ! j) (\<lambda>j. foldl (arena_step env ws) [] (take i xs) ! j) (snd (xs ! i)) (fst (xs ! i))
      mod 2 ^ snd (xs ! i)"
proof -
  have xs: "xs = take i xs @ xs ! i # drop (Suc i) xs" using assms by (rule id_take_nth_drop)
  let ?pre = "foldl (arena_step env ws) [] (take i xs)"
  have len: "length ?pre = i" using assms by (simp add: arena_fold_length)
  have "foldl (arena_step env ws) [] xs
      = foldl (arena_step env ws) (arena_step env ws ?pre (xs ! i)) (drop (Suc i) xs)"
    by (subst xs) simp
  then show ?thesis
    using len by (simp add: arena_fold_prefix arena_step_def nth_append)
qed

lemma length_arena_vals: "ctx_wf ctx \<Longrightarrow> length (arena_vals env ctx) = ctx_len ctx"
  by (simp add: arena_vals_def arena_fold_length ctx_wf_def ctx_len_def)

lemma ctx_wf_children:
  "ctx_wf ctx \<Longrightarrow> e < ctx_len ctx \<Longrightarrow> x \<in> set (children (node ctx e)) \<Longrightarrow> x < e"
  by (auto simp: ctx_wf_def)

lemma ctx_wf_node_ok:
  "ctx_wf ctx \<Longrightarrow> e < ctx_len ctx \<Longrightarrow> node_ok (width ctx) (width ctx e) (node ctx e)"
  by (auto simp: ctx_wf_def)

text \<open>Hash-consing: equal nodes have equal ids.\<close>

lemma node_inject:
  assumes "ctx_wf ctx" and "e < ctx_len ctx" and "e' < ctx_len ctx" and "node ctx e = node ctx e'"
  shows "e = e'"
proof -
  have "intern_map ctx (node ctx e) = Some e" "intern_map ctx (node ctx e') = Some e'"
    using assms(1-3) unfolding ctx_wf_def by blast+
  with assms(4) show ?thesis by (metis option.inject)
qed

text \<open>The recursion equation of the denotation.\<close>

lemma expr_val_node:
  assumes wf: "ctx_wf ctx" and e: "e < ctx_len ctx"
  shows "expr_val env ctx e =
    node_den env (width ctx) (expr_val env ctx) (width ctx e) (node ctx e) mod 2 ^ width ctx e"
proof -
  let ?xs = "zip (nodes ctx) (widths ctx)"
  have len: "length ?xs = ctx_len ctx" using wf by (simp add: ctx_wf_def ctx_len_def)
  have nth: "?xs ! e = (node ctx e, width ctx e)"
    using wf e by (simp add: ctx_wf_def ctx_len_def node_def width_def)
  have "foldl (arena_step env (widths ctx)) [] (take e ?xs) ! x = expr_val env ctx x" if "x < e" for x
  proof -
    have "foldl (arena_step env (widths ctx)) [] ?xs
        = foldl (arena_step env (widths ctx)) (foldl (arena_step env (widths ctx)) [] (take e ?xs)) (drop e ?xs)"
      by (metis append_take_drop_id foldl_append)
    moreover have "length (foldl (arena_step env (widths ctx)) [] (take e ?xs)) = e"
      using e len by (simp add: arena_fold_length)
    ultimately show ?thesis
      using that by (simp add: expr_val_def arena_vals_def arena_fold_prefix)
  qed
  moreover have "x < e" if "x \<in> set (children (node ctx e))" for x
    using ctx_wf_children [OF wf e that] .
  ultimately have "node_den env (\<lambda>j. widths ctx ! j)
      (\<lambda>j. foldl (arena_step env (widths ctx)) [] (take e ?xs) ! j) (width ctx e) (node ctx e)
      = node_den env (width ctx) (expr_val env ctx) (width ctx e) (node ctx e)"
    by (intro node_den_cong) (simp add: width_def)
  moreover have "e < length ?xs" using e len by simp
  ultimately show ?thesis
    using arena_fold_nth [of e ?xs env "widths ctx"] nth by (simp only: expr_val_def arena_vals_def fst_conv snd_conv)
qed

lemma expr_val_less: "ctx_wf ctx \<Longrightarrow> e < ctx_len ctx \<Longrightarrow> expr_val env ctx e < 2 ^ width ctx e"
  by (subst expr_val_node) simp_all

lemma ctx_ext_refl [simp]: "ctx_ext ctx ctx"
  by (simp add: ctx_ext_def)

lemma ctx_ext_trans: "ctx_ext a b \<Longrightarrow> ctx_ext b c \<Longrightarrow> ctx_ext a c"
  by (auto simp: ctx_ext_def)

lemma ctx_ext_facts:
  assumes "ctx_ext ctx ctx'" and "ctx_wf ctx" and "e < ctx_len ctx"
  shows "e < ctx_len ctx'" and "node ctx' e = node ctx e" and "width ctx' e = width ctx e"
  using assms by (auto simp: ctx_ext_def ctx_len_def node_def width_def nth_append ctx_wf_def)

text \<open>Extending the arena does not change earlier values.\<close>

lemma ctx_ext_val:
  assumes ext: "ctx_ext ctx ctx'" and wf: "ctx_wf ctx" and wf': "ctx_wf ctx'" and "e < ctx_len ctx"
  shows "expr_val env ctx' e = expr_val env ctx e"
  using \<open>e < ctx_len ctx\<close>
proof (induction e rule: less_induct)
  case (less e)
  note same = ctx_ext_facts [OF ext wf]
  have "node_den env (width ctx') (expr_val env ctx') (width ctx e) (node ctx e)
      = node_den env (width ctx) (expr_val env ctx) (width ctx e) (node ctx e)"
  proof (rule node_den_cong)
    fix x assume "x \<in> set (children (node ctx e))"
    then have "x < e" by (rule ctx_wf_children [OF wf less.prems])
    with less show "width ctx' x = width ctx x \<and> expr_val env ctx' x = expr_val env ctx x"
      using same(3) [of x] by simp
  qed
  then show ?case
    using expr_val_node [OF wf less.prems] expr_val_node [OF wf' same(1) [OF less.prems]] same(2,3) [OF less.prems]
    by simp
qed

section \<open>Builders denote their operation\<close>

definition builds :: "expr_ctx \<Rightarrow> nat \<times> expr_ctx \<Rightarrow> nat \<Rightarrow> (env \<Rightarrow> nat) \<Rightarrow> bool" where
  "builds ctx r w f \<longleftrightarrow> ctx_wf (snd r) \<and> ctx_ext ctx (snd r) \<and> fst r < ctx_len (snd r) \<and>
     width (snd r) (fst r) = w \<and> (\<forall>env. expr_val env (snd r) (fst r) = f env)"

lemma builds_same:
  "ctx_wf ctx \<Longrightarrow> e < ctx_len ctx \<Longrightarrow> width ctx e = w \<Longrightarrow> (\<And>env. expr_val env ctx e = f env) \<Longrightarrow>
    builds ctx (e, ctx) w f"
  by (simp add: builds_def)

lemma builds_cong: "builds ctx r w f \<Longrightarrow> (\<And>env. f env = g env) \<Longrightarrow> builds ctx r w g"
  by (simp add: builds_def)

lemma ctx_wf_new: "ctx_wf expr_ctx_new"
  by (simp add: ctx_wf_def expr_ctx_new_def ctx_len_def)

lemma node_ok_mono:
  assumes "\<And>x. x \<in> set (children n) \<Longrightarrow> W x = W' x"
  shows "node_ok W w n = node_ok W' w n"
  using assms by (cases n) auto

lemma intern_fresh:
  assumes wf: "ctx_wf ctx" and ok: "node_ok (width ctx) w n"
    and ch: "\<forall>x\<in>set (children n). x < ctx_len ctx" and fresh: "intern_map ctx n = None"
    and r: "intern n w ctx = (e, ctx')"
  shows "e = ctx_len ctx" and "ctx_ext ctx ctx'" and "ctx_wf ctx'" and "node ctx' e = n" and "width ctx' e = w"
    and "ctx_len ctx' = Suc (ctx_len ctx)"
proof -
  have e: "e = ctx_len ctx" and c': "ctx' = \<lparr>nodes = nodes ctx @ [n], widths = widths ctx @ [w],
      intern_map = (intern_map ctx)(n \<mapsto> e)\<rparr>"
    using r fresh by (auto simp: intern_def ctx_len_def Let_def)
  have lenw: "length (widths ctx) = ctx_len ctx" using wf by (simp add: ctx_wf_def)
  have old: "node ctx' i = node ctx i" "width ctx' i = width ctx i" if "i < ctx_len ctx" for i
    using that lenw by (simp_all add: c' node_def width_def nth_append ctx_len_def)
  have new: "node ctx' e = n" "width ctx' e = w" "ctx_len ctx' = Suc (ctx_len ctx)"
    using lenw by (simp_all add: c' e node_def width_def nth_append ctx_len_def)
  have wf': "node_ok (width ctx') (width ctx' i) (node ctx' i) \<and> (\<forall>x\<in>set (children (node ctx' i)). x < i)"
    if "i < ctx_len ctx'" for i
  proof (cases "i = e")
    case True
    moreover have "node_ok (width ctx') w n = node_ok (width ctx) w n"
      using ch old(2) by (intro node_ok_mono) auto
    ultimately show ?thesis using ok ch new e by simp
  next
    case False
    then have i: "i < ctx_len ctx" using that new(3) e by simp
    have "node_ok (width ctx') (width ctx i) (node ctx i) = node_ok (width ctx) (width ctx i) (node ctx i)"
      using ctx_wf_children [OF wf i] old(2) i by (intro node_ok_mono) force
    with i wf show ?thesis by (simp add: old ctx_wf_def)
  qed
  have map: "intern_map ctx' m = Some i \<longleftrightarrow> i < ctx_len ctx' \<and> node ctx' i = m" for m i
  proof -
    have A: "intern_map ctx m = Some i \<longleftrightarrow> i < ctx_len ctx \<and> node ctx i = m" for m i
      using wf by (simp add: ctx_wf_def)
    have B: "\<not> (i < ctx_len ctx \<and> node ctx i = n)" for i using A [of n i] fresh by simp
    have im: "intern_map ctx' m = (if m = n then Some e else intern_map ctx m)" by (simp add: c')
    show ?thesis
      using A [of m i] B [of i] old(1) [of i] new by (auto simp: im less_Suc_eq e)
  qed
  show "e = ctx_len ctx" "ctx_ext ctx ctx'" "node ctx' e = n" "width ctx' e = w" "ctx_len ctx' = Suc (ctx_len ctx)"
    using new e by (simp_all add: ctx_ext_def c')
  show "ctx_wf ctx'"
    unfolding ctx_wf_def using wf' map lenw new(3) by (simp add: c')
qed

lemma intern_builds:
  assumes wf: "ctx_wf ctx" and ok: "node_ok (width ctx) w n"
    and ch: "\<forall>x\<in>set (children n). x < ctx_len ctx"
    and det: "\<And>e. intern_map ctx n = Some e \<Longrightarrow> width ctx e = w"
  shows "builds ctx (intern n w ctx) w (\<lambda>env. node_den env (width ctx) (expr_val env ctx) w n mod 2 ^ w)"
proof (cases "intern_map ctx n")
  case None
  obtain e ctx' where r: "intern n w ctx = (e, ctx')" by fastforce
  note F = intern_fresh [OF wf ok ch None r]
  have "node_den env (width ctx') (expr_val env ctx') w n = node_den env (width ctx) (expr_val env ctx) w n" for env
    using ch ctx_ext_facts(3) [OF F(2) wf] ctx_ext_val [OF F(2) wf F(3)] by (intro node_den_cong) auto
  then show ?thesis
    using F expr_val_node [OF F(3), of e] by (simp add: builds_def r)
next
  case (Some e)
  then have "e < ctx_len ctx" "node ctx e = n" using wf by (auto simp: ctx_wf_def)
  then show ?thesis
    using Some det [OF Some] expr_val_node [OF wf, of e] wf by (simp add: builds_def intern_def)
qed

text \<open>Every node but the extensions fixes its own width.\<close>

lemma intern_builds_det:
  assumes wf: "ctx_wf ctx" and ok: "node_ok (width ctx) w n"
    and ch: "\<forall>x\<in>set (children n). x < ctx_len ctx" and n: "\<And>a. n \<noteq> Zext a" "\<And>a. n \<noteq> Sext a"
  shows "builds ctx (intern n w ctx) w (\<lambda>env. node_den env (width ctx) (expr_val env ctx) w n mod 2 ^ w)"
proof (rule intern_builds [OF wf ok ch])
  fix e assume "intern_map ctx n = Some e"
  then have "node_ok (width ctx) (width ctx e) n" using wf ctx_wf_node_ok [OF wf] by (auto simp: ctx_wf_def)
  with ok n show "width ctx e = w" by (cases n) auto
qed

lemma constant_expr_builds:
  assumes "ctx_wf ctx" and "bv_wf v"
  shows "builds ctx (constant_expr v ctx) (bv_width v) (\<lambda>_. bv_nat v)"
  using intern_builds_det [OF assms(1), of "bv_width v" "Const v"] assms(2) bv_nat_less [OF assms(2)]
  by (simp add: constant_expr_def)

lemma int_const_builds:
  assumes "ctx_wf ctx" and "int_const w v ctx = Some r"
  shows "builds ctx r w (\<lambda>_. unat v mod 2 ^ w)"
  using assms constant_expr_builds [OF assms(1)] bv_new_facts by (fastforce simp: int_const_def)

lemma symbol_builds:
  "ctx_wf ctx \<Longrightarrow> builds ctx (symbol name w ctx) w (\<lambda>env. env name w mod 2 ^ w)"
  using intern_builds_det [of ctx w "Sym name w"] by (simp add: symbol_def)

lemma boolean_builds: "ctx_wf ctx \<Longrightarrow> builds ctx (boolean b ctx) 1 (\<lambda>_. of_bool b)"
  using intern_builds_det [of ctx 1 "Bool b"] by (simp add: boolean_def BOOL_WIDTH_def)

lemma as_const_SomeD:
  assumes "ctx_wf ctx" and "e < ctx_len ctx" and "as_const ctx e = Some v"
  shows "bv_wf v" and "width ctx e = bv_width v" and "expr_val env ctx e = bv_nat v"
proof -
  have n: "node ctx e = Const v" using assms(3) by (simp add: as_const_def split: expr_node.splits)
  then show "bv_wf v" "width ctx e = bv_width v" using ctx_wf_node_ok [OF assms(1,2)] by simp_all
  then show "expr_val env ctx e = bv_nat v"
    using n expr_val_node [OF assms(1,2)] bv_nat_less [of v] by simp
qed

lemma bin_den_zero_right:
  assumes "x < 2 ^ w" and "op \<in> {Add, Sub, Or, Xor}"
  shows "bin_den op w x 0 = x"
  using assms by (auto simp: bin_den_simps)

lemma bin_den_same_sub: "x < 2 ^ w \<Longrightarrow> bin_den Sub w x x = 0"
  by (simp add: bin_den_simps)

lemmas bin_identities = bin_den_zero_right bin_den_same_sub

lemma if_SomeE:
  "(if b then x else y) = Some r \<Longrightarrow> (b \<Longrightarrow> x = Some r \<Longrightarrow> P) \<Longrightarrow> (\<not> b \<Longrightarrow> y = Some r \<Longrightarrow> P) \<Longrightarrow> P"
  by (cases b) auto

lemma bin_builds:
  assumes wf: "ctx_wf ctx" and a: "a < ctx_len ctx" and b: "b < ctx_len ctx"
    and eq: "width ctx a = w" "width ctx b = w" and r: "bin op a b ctx = Some r"
  shows "builds ctx r w (\<lambda>env. bin_den op w (expr_val env ctx a) (expr_val env ctx b))"
proof -
  note ca = as_const_SomeD [OF wf a] and cb = as_const_SomeD [OF wf b]
  note va = expr_val_less [OF wf a, unfolded eq] and vb = expr_val_less [OF wf b, unfolded eq]
  let ?den = "\<lambda>env. bin_den op w (expr_val env ctx a) (expr_val env ctx b)"
  have zb: "expr_val env ctx b = 0" if "map_option bv_is_zero (as_const ctx b) = Some True" for env
    using that cb(3) by (auto simp: bv_is_zero_iff)
  have za: "expr_val env ctx a = 0" if "map_option bv_is_zero (as_const ctx a) = Some True" for env
    using that ca(3) by (auto simp: bv_is_zero_iff)
  have ob: "expr_val env ctx b = 1" if "map_option (\<lambda>v. bv_unsigned v = 1) (as_const ctx b) = Some True" for env
    using that cb(3) by (auto simp: bv_nat_def)
  have oa: "expr_val env ctx a = 1" if "map_option (\<lambda>v. bv_unsigned v = 1) (as_const ctx a) = Some True" for env
    using that ca(3) by (auto simp: bv_nat_def)
  have A: "builds ctx r w ?den" if "Some (a, ctx) = Some r" and "\<And>env. ?den env = expr_val env ctx a"
    using that wf a eq by (auto simp: builds_def)
  have B: "builds ctx r w ?den" if "Some (b, ctx) = Some r" and "\<And>env. ?den env = expr_val env ctx b"
    using that wf b eq by (auto simp: builds_def)
  have I: "builds ctx (intern (Bin op a b) w ctx) w ?den"
    using intern_builds_det [OF wf, of w "Bin op a b"] a b eq bin_den_less [OF va vb] by simp
  have Z: "builds ctx r w ?den" if "int_const w 0 ctx = Some r" "op = Sub" "a = b"
    using int_const_builds [OF wf that(1)] va by (simp add: that bin_identities builds_def)
  have F: "builds ctx (constant_expr v ctx) w ?den"
    if "as_const ctx a = Some x" "as_const ctx b = Some y" "fold_bin op x y w = Some v" for x y v
  proof -
    have "bv_width x = w" "bv_width y = w" using ca(2) cb(2) that eq by auto
    then have v: "bv_nat v = bin_den op w (bv_nat x) (bv_nat y)" "bv_width v = w" "bv_wf v"
      using fold_bin_exact ca(1) cb(1) that by blast+
    show ?thesis
      using constant_expr_builds [OF wf v(3)] by (simp add: ca(3) [OF that(1)] cb(3) [OF that(2)] v)
  qed
  show ?thesis
  proof (cases "\<exists>x y v. as_const ctx a = Some x \<and> as_const ctx b = Some y \<and> bv_width x = bv_width y
      \<and> fold_bin op x y w = Some v")
    case True
    then show ?thesis using r F eq by (auto simp: bin_def Let_def)
  next
    case False
    then have nf: "(case (as_const ctx a, as_const ctx b) of
          (Some x, Some y) \<Rightarrow> if bv_width x = bv_width y then fold_bin op x y w else None | _ \<Rightarrow> None) = None"
      by (cases "as_const ctx a", simp, cases "as_const ctx b", simp) force
    from r [unfolded bin_def Let_def eq(1) nf option.case] show ?thesis
    proof (elim if_SomeE, goal_cases)
      case 1
      show ?case by (rule A [OF 1(2)]) (use 1 zb va in \<open>auto simp: bin_identities\<close>)
    next
      case 2
      show ?case by (rule B [OF 2(3)]) (use 2 za vb in \<open>auto simp: bin_den_simps\<close>)
    next
      case 3
      show ?case by (rule B [OF 3(4)]) (use 3 zb  in \<open>auto simp: bin_den_simps\<close>)
    next
      case 4
      show ?case by (rule A [OF 4(5)]) (use 4 za  in \<open>auto simp: bin_den_simps\<close>)
    next
      case 5
      show ?case by (rule A [OF 5(6)]) (use 5 ob va in \<open>auto simp: bin_den_simps\<close>)
    next
      case 6
      show ?case by (rule B [OF 6(7)]) (use 6 oa vb in \<open>auto simp: bin_den_simps\<close>)
    qed (use Z I in auto)
  qed
qed

lemma of_bool_mod_2 [simp]: "of_bool b mod (2::nat) = of_bool b"
  by (cases b) simp_all

lemma cmp_den_refl: "cmp_den op w x x \<longleftrightarrow> op \<in> {Eq, Ule, Uge, Sle, Sge}"
  by (cases op) (simp_all add: cmp_den_def)

lemma cmp_builds:
  assumes wf: "ctx_wf ctx" and a: "a < ctx_len ctx" and b: "b < ctx_len ctx"
    and eq: "width ctx a = w" "width ctx b = w"
  shows "builds ctx (cmp op a b ctx) 1 (\<lambda>env. of_bool (cmp_den op w (expr_val env ctx a) (expr_val env ctx b)))"
proof -
  note ca = as_const_SomeD [OF wf a] and cb = as_const_SomeD [OF wf b]
  let ?den = "\<lambda>env. of_bool (cmp_den op w (expr_val env ctx a) (expr_val env ctx b)) :: nat"
  have I: "builds ctx (intern (Cmp op a b) BOOL_WIDTH ctx) 1 ?den"
    using intern_builds_det [OF wf, of 1 "Cmp op a b"] a b eq by (simp add: BOOL_WIDTH_def)
  have R: "builds ctx (boolean (op \<in> {Eq, Ule, Uge, Sle, Sge}) ctx) 1 ?den" if "a = b"
    using boolean_builds [OF wf, of "op \<in> {Eq, Ule, Uge, Sle, Sge}"] that by (simp only: cmp_den_refl)
  have F: "builds ctx (boolean (eval_cmp op x y) ctx) 1 ?den"
    if "as_const ctx a = Some x" "as_const ctx b = Some y" for x y
  proof -
    have "bv_width x = w" "bv_width y = w" using ca(2) [OF that(1)] cb(2) [OF that(2)] eq by simp_all
    from eval_cmp_den [OF ca(1) [OF that(1)] cb(1) [OF that(2)] this] show ?thesis
      using boolean_builds [OF wf, of "eval_cmp op x y"] by (simp only: ca(3) [OF that(1)] cb(3) [OF that(2)])
  qed
  have rest: "builds ctx (if a = b then boolean (op \<in> {Eq, Ule, Uge, Sle, Sge}) ctx
      else intern (Cmp op a b) BOOL_WIDTH ctx) 1 ?den"
    by (simp only: split: if_split) (use I R in blast)
  show ?thesis
    unfolding cmp_def Let_def prod.case
    by (cases "as_const ctx a", simp only: rest option.case,
        cases "as_const ctx b", simp only: rest option.case)
      (use rest F in \<open>simp only: option.case split: if_split; blast\<close>)
qed

lemma not_expr_builds:
  assumes wf: "ctx_wf ctx" and e: "e < ctx_len ctx" and w: "width ctx e = 1"
    and typed: "\<And>op a b. node ctx e = Cmp op a b \<Longrightarrow> width ctx a = width ctx b"
      "\<And>a. node ctx e = Not_node a \<Longrightarrow> width ctx a = 1"
  shows "builds ctx (not_expr e ctx) 1 (\<lambda>env. of_bool (expr_val env ctx e = 0))"
proof -
  note v = expr_val_node [OF wf e, unfolded w]
  have I: "builds ctx (intern (Not_node e) BOOL_WIDTH ctx) 1 (\<lambda>env. of_bool (expr_val env ctx e = 0))"
    using intern_builds_det [OF wf, of 1 "Not_node e"] e w by (simp add: BOOL_WIDTH_def)
  have ch: "x < ctx_len ctx" if "x \<in> set (children (node ctx e))" for x
    using ctx_wf_children [OF wf e that] e by simp
  show ?thesis
  proof (cases "node ctx e")
    case (Cmp op a b)
    then have "builds ctx (cmp (cmp_negate op) a b ctx) 1
        (\<lambda>env. of_bool (cmp_den (cmp_negate op) (width ctx b) (expr_val env ctx a) (expr_val env ctx b)))"
      using ch typed(1) by (intro cmp_builds [OF wf]) auto
    then show ?thesis using Cmp typed(1) by (simp add: not_expr_def v cmp_den_negate)
  next
    case (Bool b)
    then show ?thesis using boolean_builds [OF wf, of "\<not> b"] by (simp add: not_expr_def v)
  next
    case (Not_node a)
    then have a: "a < ctx_len ctx" "width ctx a = 1" using ch typed(2) by auto
    have "expr_val env ctx a = of_bool (expr_val env ctx a \<noteq> 0)" for env
      using expr_val_less [OF wf a(1), of env] a(2) by simp
    then show ?thesis using Not_node a wf by (simp add: not_expr_def v builds_def)
  qed (use I in \<open>simp_all add: not_expr_def\<close>)
qed

section \<open>Conjunction and disjunction\<close>

lemma set_sort_dedup [simp]: "set (sort_dedup xs) = set xs"
  by (simp add: sort_dedup_def)

lemma sort_dedup_sorted: "sorted (sort_dedup xs) \<and> distinct (sort_dedup xs)"
proof -
  have "sorted ys \<Longrightarrow> distinct (remdups_adj ys)" for ys :: "nat list"
    by (induction ys rule: remdups_adj.induct) auto
  then show ?thesis by (simp add: sort_dedup_def sorted_remdups_adj)
qed

lemma flatten_and_val:
  assumes wf: "ctx_wf ctx" and "\<forall>p\<in>set parts. p < ctx_len ctx \<and> width ctx p = 1"
    and "\<forall>p\<in>set flat. p < ctx_len ctx"
  shows "(case flatten_and ctx parts flat of
      None \<Rightarrow> \<exists>p\<in>set parts. expr_val env ctx p = 0
    | Some es \<Rightarrow> (\<forall>p\<in>set es. p < ctx_len ctx) \<and>
        ((\<forall>p\<in>set es. expr_val env ctx p \<noteq> 0) \<longleftrightarrow> (\<forall>p\<in>set flat \<union> set parts. expr_val env ctx p \<noteq> 0)))"
  using assms(2,3)
proof (induction parts arbitrary: flat)
  case Nil
  then show ?case by simp
next
  case (Cons p parts)
  then have p: "p < ctx_len ctx" and w: "width ctx p = 1" by auto
  note v = expr_val_node [OF wf p, unfolded w, of env]
  have ch: "x < ctx_len ctx" if "x \<in> set (children (node ctx p))" for x
    using ctx_wf_children [OF wf p that] p by simp
  show ?case
  proof (cases "node ctx p")
    case (Bool b)
    then show ?thesis using Cons.IH [of flat] Cons.prems v by (cases b) (auto split: option.splits)
  next
    case (And_node xs)
    then have "\<forall>q\<in>set (flat @ xs). q < ctx_len ctx" using ch Cons.prems by auto
    moreover have "expr_val env ctx p \<noteq> 0 \<longleftrightarrow> (\<forall>x\<in>set xs. expr_val env ctx x \<noteq> 0)"
      using v And_node by (simp add: list_all_iff)
    ultimately show ?thesis
      using Cons.IH [of "flat @ xs"] Cons.prems And_node by (auto split: option.splits)
  next
    case (Const)
    then show ?thesis using Cons.IH [of "flat @ [p]"] Cons.prems by (auto split: option.splits)
  next
    case (Sym)
    then show ?thesis using Cons.IH [of "flat @ [p]"] Cons.prems by (auto split: option.splits)
  qed (use Cons.IH [of "flat @ [p]"] Cons.prems in \<open>auto split: option.splits\<close>)
qed

lemma flatten_or_val:
  assumes wf: "ctx_wf ctx" and "\<forall>p\<in>set parts. p < ctx_len ctx \<and> width ctx p = 1"
    and "\<forall>p\<in>set flat. p < ctx_len ctx"
  shows "(case flatten_or ctx parts flat of
      None \<Rightarrow> \<exists>p\<in>set parts. expr_val env ctx p \<noteq> 0
    | Some es \<Rightarrow> (\<forall>p\<in>set es. p < ctx_len ctx) \<and>
        ((\<exists>p\<in>set es. expr_val env ctx p \<noteq> 0) \<longleftrightarrow> (\<exists>p\<in>set flat \<union> set parts. expr_val env ctx p \<noteq> 0)))"
  using assms(2,3)
proof (induction parts arbitrary: flat)
  case Nil
  then show ?case by simp
next
  case (Cons p parts)
  then have p: "p < ctx_len ctx" and w: "width ctx p = 1" by auto
  note v = expr_val_node [OF wf p, unfolded w, of env]
  have ch: "x < ctx_len ctx" if "x \<in> set (children (node ctx p))" for x
    using ctx_wf_children [OF wf p that] p by simp
  show ?case
  proof (cases "node ctx p")
    case (Bool b)
    then show ?thesis using Cons.IH [of flat] Cons.prems v by (cases b) (auto split: option.splits)
  next
    case (Or_node xs)
    then have "\<forall>q\<in>set (flat @ xs). q < ctx_len ctx" using ch Cons.prems by auto
    moreover have "expr_val env ctx p \<noteq> 0 \<longleftrightarrow> (\<exists>x\<in>set xs. expr_val env ctx x \<noteq> 0)"
      using v Or_node by (simp add: list_ex_iff)
    ultimately show ?thesis
      using Cons.IH [of "flat @ xs"] Cons.prems Or_node by (auto split: option.splits)
  qed (use Cons.IH [of "flat @ [p]"] Cons.prems in \<open>auto split: option.splits\<close>)
qed

text \<open>A flattened operand is one of the parts or an operand of a nested connective; all are boolean in a typed arena.\<close>

definition bool_args :: "expr_ctx \<Rightarrow> bool" where
  "bool_args ctx \<longleftrightarrow> (\<forall>e < ctx_len ctx. case node ctx e of
     And_node xs \<Rightarrow> \<forall>x\<in>set xs. width ctx x = 1 | Or_node xs \<Rightarrow> \<forall>x\<in>set xs. width ctx x = 1 | _ \<Rightarrow> True)"

lemma flatten_and_width:
  assumes "bool_args ctx" and "\<forall>p\<in>set parts. p < ctx_len ctx \<and> width ctx p = 1" and "\<forall>p\<in>set flat. width ctx p = 1"
    and "flatten_and ctx parts flat = Some es"
  shows "\<forall>p\<in>set es. width ctx p = 1"
  using assms(2-)
proof (induction parts arbitrary: flat)
  case (Cons p parts)
  show ?case
  proof (cases "node ctx p")
    case (And_node xs)
    then have "\<forall>x\<in>set (flat @ xs). width ctx x = 1"
      using assms(1) Cons.prems by (auto simp: bool_args_def split: expr_node.splits)
    then show ?thesis using Cons.IH [of "flat @ xs"] Cons.prems And_node by simp
  next
    case (Bool b)
    then show ?thesis using Cons.IH [of flat] Cons.prems by (simp split: if_splits)
  qed (use Cons.IH [of "flat @ [p]"] Cons.prems in simp_all)
qed simp

lemma flatten_or_width:
  assumes "bool_args ctx" and "\<forall>p\<in>set parts. p < ctx_len ctx \<and> width ctx p = 1" and "\<forall>p\<in>set flat. width ctx p = 1"
    and "flatten_or ctx parts flat = Some es"
  shows "\<forall>p\<in>set es. width ctx p = 1"
  using assms(2-)
proof (induction parts arbitrary: flat)
  case (Cons p parts)
  show ?case
  proof (cases "node ctx p")
    case (Or_node xs)
    then have "\<forall>x\<in>set (flat @ xs). width ctx x = 1"
      using assms(1) Cons.prems by (auto simp: bool_args_def split: expr_node.splits)
    then show ?thesis using Cons.IH [of "flat @ xs"] Cons.prems Or_node by simp
  next
    case (Bool b)
    then show ?thesis using Cons.IH [of flat] Cons.prems by (simp split: if_splits)
  qed (use Cons.IH [of "flat @ [p]"] Cons.prems in simp_all)
qed simp

lemma and_expr_builds:
  assumes wf: "ctx_wf ctx" and ba: "bool_args ctx"
    and parts: "\<forall>p\<in>set parts. p < ctx_len ctx \<and> width ctx p = 1"
  shows "builds ctx (and_expr parts ctx) 1 (\<lambda>env. of_bool (\<forall>p\<in>set parts. expr_val env ctx p \<noteq> 0))"
proof (cases "flatten_and ctx parts []")
  case None
  then have "\<exists>p\<in>set parts. expr_val env ctx p = 0" for env
    using flatten_and_val [OF wf parts, of "[]" env] by simp
  then have "builds ctx (boolean False ctx) 1 (\<lambda>env. of_bool (\<forall>p\<in>set parts. expr_val env ctx p \<noteq> 0))"
    by (intro builds_cong [OF boolean_builds [OF wf, of False]]) auto
  then show ?thesis using None by (simp add: and_expr_def)
next
  case (Some es)
  have es: "\<forall>p\<in>set es. p < ctx_len ctx"
    and val: "(\<forall>p\<in>set parts. expr_val env ctx p \<noteq> 0) \<longleftrightarrow> (\<forall>p\<in>set es. expr_val env ctx p \<noteq> 0)" for env
    using flatten_and_val [OF wf parts, of "[]" env] Some by simp_all
  have w: "\<forall>p\<in>set es. width ctx p = 1" using flatten_and_width [OF ba parts _ Some] by simp
  obtain ds where ds: "sort_dedup es = ds" "set ds = set es" by simp
  have one: "expr_val env ctx p = of_bool (expr_val env ctx p \<noteq> 0)" if "p \<in> set es" for p env
    using expr_val_less [OF wf, of p env] es w that by simp
  have I: "builds ctx (intern (And_node ds) BOOL_WIDTH ctx) 1 (\<lambda>env. of_bool (\<forall>p\<in>set es. expr_val env ctx p \<noteq> 0))"
    using intern_builds_det [OF wf, of 1 "And_node ds"] es ds by (simp add: BOOL_WIDTH_def list_all_iff)
  show ?thesis
  proof (cases ds rule: remdups_adj.cases)
    case 1
    then show ?thesis using Some ds val boolean_builds [OF wf, of True] by (simp add: and_expr_def)
  next
    case (2 p)
    then have p: "p \<in> set es" "set es = {p}" using ds by auto
    have "builds ctx (p, ctx) 1 (\<lambda>env. of_bool (\<forall>p\<in>set es. expr_val env ctx p \<noteq> 0))"
      using p es w one [OF p(1)] wf by (intro builds_same) simp_all
    then show ?thesis unfolding val using Some ds 2 by (simp add: and_expr_def)
  next
    case 3
    then show ?thesis unfolding val using Some ds I by (simp add: and_expr_def)
  qed
qed

lemma or_expr_builds:
  assumes wf: "ctx_wf ctx" and ba: "bool_args ctx"
    and parts: "\<forall>p\<in>set parts. p < ctx_len ctx \<and> width ctx p = 1"
  shows "builds ctx (or_expr parts ctx) 1 (\<lambda>env. of_bool (\<exists>p\<in>set parts. expr_val env ctx p \<noteq> 0))"
proof (cases "flatten_or ctx parts []")
  case None
  then have "\<exists>p\<in>set parts. expr_val env ctx p \<noteq> 0" for env
    using flatten_or_val [OF wf parts, of "[]" env] by simp
  then have "builds ctx (boolean True ctx) 1 (\<lambda>env. of_bool (\<exists>p\<in>set parts. expr_val env ctx p \<noteq> 0))"
    by (intro builds_cong [OF boolean_builds [OF wf, of True]]) auto
  then show ?thesis using None by (simp add: or_expr_def)
next
  case (Some es)
  have es: "\<forall>p\<in>set es. p < ctx_len ctx"
    and val: "(\<exists>p\<in>set parts. expr_val env ctx p \<noteq> 0) \<longleftrightarrow> (\<exists>p\<in>set es. expr_val env ctx p \<noteq> 0)" for env
    using flatten_or_val [OF wf parts, of "[]" env] Some by simp_all
  have w: "\<forall>p\<in>set es. width ctx p = 1" using flatten_or_width [OF ba parts _ Some] by simp
  obtain ds where ds: "sort_dedup es = ds" "set ds = set es" by simp
  have one: "expr_val env ctx p = of_bool (expr_val env ctx p \<noteq> 0)" if "p \<in> set es" for p env
    using expr_val_less [OF wf, of p env] es w that by simp
  have I: "builds ctx (intern (Or_node ds) BOOL_WIDTH ctx) 1 (\<lambda>env. of_bool (\<exists>p\<in>set es. expr_val env ctx p \<noteq> 0))"
    using intern_builds_det [OF wf, of 1 "Or_node ds"] es ds by (simp add: BOOL_WIDTH_def list_ex_iff)
  show ?thesis
  proof (cases ds rule: remdups_adj.cases)
    case 1
    then show ?thesis using Some ds val boolean_builds [OF wf, of False] by (simp add: or_expr_def)
  next
    case (2 p)
    then have p: "p \<in> set es" "set es = {p}" using ds by auto
    have "builds ctx (p, ctx) 1 (\<lambda>env. of_bool (\<exists>p\<in>set es. expr_val env ctx p \<noteq> 0))"
      using p es w one [OF p(1)] wf by (intro builds_same) simp_all
    then show ?thesis unfolding val using Some ds 2 by (simp add: or_expr_def)
  next
    case 3
    then show ?thesis unfolding val using Some ds I by (simp add: or_expr_def)
  qed
qed

lemma ite_builds:
  assumes wf: "ctx_wf ctx" and c: "c < ctx_len ctx" "width ctx c = 1" and t: "t < ctx_len ctx" "width ctx t = w"
    and e: "e < ctx_len ctx" "width ctx e = w"
  shows "builds ctx (ite c t e ctx) w (\<lambda>env. if expr_val env ctx c \<noteq> 0 then expr_val env ctx t else expr_val env ctx e)"
proof -
  have I: "builds ctx (intern (Ite c t e) w ctx) w
      (\<lambda>env. if expr_val env ctx c \<noteq> 0 then expr_val env ctx t else expr_val env ctx e)"
    by (rule builds_cong [OF intern_builds_det [OF wf, of w "Ite c t e"]])
      (use c t e expr_val_less [OF wf t(1)] expr_val_less [OF wf e(1)] in auto)
  have "expr_val env ctx c = of_bool b" if "as_bool ctx c = Some b" for b env
    using that expr_val_node [OF wf c(1)] c(2) by (simp add: as_bool_def split: expr_node.splits)
  then show ?thesis
    using I wf t e by (auto simp: ite_def builds_def split: option.splits)
qed

lemma zext_builds:
  assumes wf: "ctx_wf ctx" and v: "v < ctx_len ctx" and le: "width ctx v \<le> to"
    and once: "\<And>e. intern_map ctx (Zext v) = Some e \<Longrightarrow> width ctx e = to" and r: "zext v to ctx = Some r"
  shows "builds ctx r to (\<lambda>env. expr_val env ctx v)"
proof (cases "width ctx v = to")
  case True
  then show ?thesis using r wf v by (auto simp: zext_def builds_def)
next
  case False
  then have lt: "width ctx v < to" using le by simp
  have small: "expr_val env ctx v < 2 ^ to" for env
    using expr_val_less [OF wf v, of env] lt by (meson less_trans one_less_numeral_iff power_strict_increasing_iff semiring_norm(76))
  have I: "builds ctx (intern (Zext v) to ctx) to (\<lambda>env. expr_val env ctx v)"
    using intern_builds [OF wf, of to "Zext v"] v lt once small by simp
  show ?thesis
  proof (cases "as_const ctx v")
    case None
    then show ?thesis using r I lt by (auto simp: zext_def as_const_def split: expr_node.splits)
  next
    case (Some bv)
    then have "int_const to (bv_unsigned bv) ctx = Some r" using r lt by (auto simp: zext_def as_const_def split: expr_node.splits)
    from int_const_builds [OF wf this] show ?thesis
      using as_const_SomeD(3) [OF wf v Some] small by (simp add: builds_def flip: bv_nat_def)
  qed
qed

lemma sext_builds:
  assumes wf: "ctx_wf ctx" and v: "v < ctx_len ctx" and le: "width ctx v \<le> to"
    and once: "\<And>e. intern_map ctx (Sext v) = Some e \<Longrightarrow> width ctx e = to" and r: "sext v to ctx = Some r"
  shows "builds ctx r to (\<lambda>env. from_int to (to_signed (width ctx v) (expr_val env ctx v)))"
proof (cases "width ctx v = to")
  case True
  then show ?thesis
    using r wf v expr_val_less [OF wf v] by (auto simp: sext_def builds_def from_int_to_signed)
next
  case False
  then have lt: "width ctx v < to" using le by simp
  have I: "builds ctx (intern (Sext v) to ctx) to (\<lambda>env. from_int to (to_signed (width ctx v) (expr_val env ctx v)))"
    using intern_builds [OF wf, of to "Sext v"] v lt once by simp
  show ?thesis
  proof (cases "as_const ctx v")
    case None
    then show ?thesis using r I lt by (auto simp: sext_def as_const_def split: expr_node.splits)
  next
    case (Some bv)
    then have c: "int_const to (word_of_int (bv_signed bv)) ctx = Some r"
      using r lt by (auto simp: sext_def as_const_def split: expr_node.splits)
    then have "to \<le> 128" by (auto simp: int_const_def bv_new_def split: if_splits)
    with int_const_builds [OF wf c] show ?thesis
      using as_const_SomeD [OF wf v Some] by (simp add: builds_def unat_word_of_int_mod bv_signed_to_signed)
  qed
qed

section \<open>Symbols and relevance\<close>

inductive reaches :: "expr_ctx \<Rightarrow> nat \<Rightarrow> nat \<Rightarrow> bool" for ctx where
  reaches_self: "reaches ctx e e"
| reaches_step: "x \<in> set (children (node ctx e)) \<Longrightarrow> reaches ctx x y \<Longrightarrow> reaches ctx e y"

inductive_cases reachesE: "reaches ctx e y"

lemma reaches_le:
  assumes "ctx_wf ctx" and "reaches ctx e y" and "e < ctx_len ctx"
  shows "y \<le> e"
  using assms(2,3)
proof induction
  case (reaches_step x e y)
  then have "x < e" using ctx_wf_children [OF assms(1)] by blast
  with reaches_step show ?case by simp
qed simp

lemma reaches_trans: "reaches ctx a b \<Longrightarrow> reaches ctx b c \<Longrightarrow> reaches ctx a c"
  by (induction rule: reaches.induct) (auto intro: reaches.intros)

lemma closed_reaches:
  assumes "reaches ctx z y" and "z \<in> set seen"
    and "\<forall>x\<in>set seen. set (children (node ctx x)) \<subseteq> set seen \<union> set stack"
  shows "y \<in> set seen \<or> (\<exists>s\<in>set stack. reaches ctx s y)"
  using assms by (induction rule: reaches.induct) (auto intro: reaches.intros)

text \<open>The worklist returns the symbols already seen or reachable from the stack.\<close>

lemma symbols_loop_correct:
  assumes "ctx_wf ctx" and "\<forall>x\<in>set stack. x < ctx_len ctx"
    and "\<forall>x\<in>set seen. set (children (node ctx x)) \<subseteq> set seen \<union> set stack"
    and "set acc = {x \<in> set seen. is_sym (node ctx x)}"
  shows "\<exists>out. symbols_loop ctx stack seen acc = Some out \<and>
    set out = {y. is_sym (node ctx y) \<and> (y \<in> set seen \<or> (\<exists>x\<in>set stack. reaches ctx x y))}"
  using assms
proof (induction ctx stack seen acc rule: symbols_loop.induct)
  case (1 ctx seen acc)
  then show ?case by auto
next
  case (2 ctx x stack seen acc)
  note prems = \<open>ctx_wf ctx\<close> \<open>\<forall>x\<in>set (x # stack). x < ctx_len ctx\<close>
    \<open>\<forall>y\<in>set seen. set (children (node ctx y)) \<subseteq> set seen \<union> set (x # stack)\<close>
    \<open>set acc = {x \<in> set seen. is_sym (node ctx x)}\<close>
  show ?case
  proof (cases "x \<in> set seen")
    case True
    then have cl: "\<forall>y\<in>set seen. set (children (node ctx y)) \<subseteq> set seen \<union> set stack" using prems(3) by auto
    obtain out where out: "symbols_loop ctx stack seen acc = Some out"
        "set out = {y. is_sym (node ctx y) \<and> (y \<in> set seen \<or> (\<exists>x\<in>set stack. reaches ctx x y))}"
      using 2(1) [OF True prems(1) _ cl prems(4)] prems(2) by auto
    have "(y \<in> set seen \<or> (\<exists>s\<in>set stack. reaches ctx s y)) \<longleftrightarrow>
        (y \<in> set seen \<or> (\<exists>s\<in>set (x # stack). reaches ctx s y))" for y
      using closed_reaches [OF _ True cl, of y] by auto
    then show ?thesis using True out by simp
  next
    case False
    have x: "x < ctx_len ctx" using prems(2) by simp
    let ?st = "rev (children (node ctx x)) @ stack"
    let ?acc = "if is_sym (node ctx x) then acc @ [x] else acc"
    have "\<forall>y\<in>set ?st. y < ctx_len ctx"
      using prems(2) ctx_wf_children [OF prems(1) x] x by (auto intro: less_trans)
    moreover have "\<forall>y\<in>set (x # seen). set (children (node ctx y)) \<subseteq> set (x # seen) \<union> set ?st"
      using prems(3) by auto
    moreover have "set ?acc = {y \<in> set (x # seen). is_sym (node ctx y)}" using prems(4) False by auto
    ultimately obtain out where out: "symbols_loop ctx ?st (x # seen) ?acc = Some out"
        "set out = {y. is_sym (node ctx y) \<and> (y \<in> set (x # seen) \<or> (\<exists>s\<in>set ?st. reaches ctx s y))}"
      using 2(2) [OF False x prems(1)] by blast
    have "reaches ctx x y \<longleftrightarrow> y = x \<or> (\<exists>s\<in>set (children (node ctx x)). reaches ctx s y)" for y
      by (auto elim: reachesE intro: reaches.intros)
    then show ?thesis using out x False by auto
  qed
qed

lemma symbols_of_correct:
  assumes "ctx_wf ctx" and "root < ctx_len ctx"
  shows "\<exists>out. symbols_of ctx root = Some out \<and> sorted out \<and> distinct out \<and>
    set out = {y. is_sym (node ctx y) \<and> reaches ctx root y}"
  using symbols_loop_correct [OF assms(1), of "[root]" "[]" "[]"] assms(2) sort_dedup_sorted
  by (auto simp: symbols_of_def)

text \<open>Two environments that agree on the symbols of an expression give it the same value.\<close>

lemma expr_val_coincidence:
  assumes wf: "ctx_wf ctx" and "root < ctx_len ctx"
    and agree: "\<And>y name w. reaches ctx root y \<Longrightarrow> node ctx y = Sym name w \<Longrightarrow> env name w = env' name w"
  shows "expr_val env ctx root = expr_val env' ctx root"
  using assms(2,3)
proof (induction root rule: less_induct)
  case (less e)
  have IH: "expr_val env ctx x = expr_val env' ctx x" if x: "x \<in> set (children (node ctx e))" for x
  proof (rule less.IH)
    show "x < e" by (rule ctx_wf_children [OF wf less.prems(1) x])
    then show "x < ctx_len ctx" using less.prems(1) by simp
    show "env name w = env' name w" if "reaches ctx x y" "node ctx y = Sym name w" for y name w
      using less.prems(2) [OF reaches_step [OF x that(1)] that(2)] .
  qed
  have sym: "env name (width ctx e) = env' name (width ctx e)" if "node ctx e = Sym name w" for name w
    using less.prems(2) [OF reaches_self that] ctx_wf_node_ok [OF wf less.prems(1)] that by simp
  have "node_den env (width ctx) (expr_val env ctx) (width ctx e) (node ctx e)
      = node_den env' (width ctx) (expr_val env' ctx) (width ctx e) (node ctx e)"
    using IH sym by (cases "node ctx e") (auto simp: list_all_iff list_ex_iff)
  then show ?case by (simp add: expr_val_node [OF wf less.prems(1)])
qed

end
