(* ===== verification/Cnf_Gates.thy ===== *)
theory Cnf_Gates
  imports Prelude
begin

text \<open>
  Literals (\<open>crates/solver/src/sat.rs\<close>) and the CNF under construction with its Tseitin gates
  (\<open>crates/solver/src/bitblast.rs\<close>). Each \<open>&mut self\<close> method is a function that returns its result
  together with the new CNF. Variable indices and clause counts are natural numbers.

  The central notion is \<open>computes c (o, c') f\<close>: building the gate on top of \<open>c\<close> extends
  \<open>c\<close> conservatively (every model of \<open>c\<close> extends to one of \<open>c'\<close> without changing old
  variables) and in every model of \<open>c'\<close> the output literal has the value \<open>f\<close>.
\<close>

section \<open>Literals\<close>

datatype lit = Lit (lit_var: nat) (lit_neg: bool)

definition lit_pos :: "nat \<Rightarrow> lit" where "lit_pos v = Lit v False"
definition lit_negative :: "nat \<Rightarrow> lit" where "lit_negative v = Lit v True"

fun negated :: "lit \<Rightarrow> lit" where
  "negated (Lit v n) = Lit v (\<not> n)"

type_synonym clause = "lit list"
type_synonym valuation = "nat \<Rightarrow> bool"

definition lit_val :: "valuation \<Rightarrow> lit \<Rightarrow> bool" where
  "lit_val \<sigma> l \<longleftrightarrow> \<sigma> (lit_var l) \<noteq> lit_neg l"

definition clause_true :: "valuation \<Rightarrow> clause \<Rightarrow> bool" where
  "clause_true \<sigma> c \<longleftrightarrow> (\<exists>l\<in>set c. lit_val \<sigma> l)"

definition cnf_sat :: "valuation \<Rightarrow> clause list \<Rightarrow> bool" where
  "cnf_sat \<sigma> cs \<longleftrightarrow> (\<forall>c\<in>set cs. clause_true \<sigma> c)"

definition satisfiable :: "clause list \<Rightarrow> bool" where
  "satisfiable cs \<longleftrightarrow> (\<exists>\<sigma>. cnf_sat \<sigma> cs)"

lemma lit_var_negated [simp]: "lit_var (negated l) = lit_var l"
  by (cases l) simp

lemma lit_val_negated [simp]: "lit_val \<sigma> (negated l) \<longleftrightarrow> \<not> lit_val \<sigma> l"
  by (cases l) (simp add: lit_val_def)

lemma negated_negated [simp]: "negated (negated l) = l"
  by (cases l) simp

lemma negated_neq [simp]: "negated l \<noteq> l" "l \<noteq> negated l"
  by (cases l; simp)+

lemma lit_val_Lit [simp]: "lit_val \<sigma> (Lit v n) \<longleftrightarrow> \<sigma> v \<noteq> n"
  by (simp add: lit_val_def)

lemma lit_val_cong: "\<sigma> (lit_var l) = \<sigma>' (lit_var l) \<Longrightarrow> lit_val \<sigma> l = lit_val \<sigma>' l"
  by (simp add: lit_val_def)

lemma clause_true_simps [simp]:
  "clause_true \<sigma> [] \<longleftrightarrow> False"
  "clause_true \<sigma> (l # c) \<longleftrightarrow> lit_val \<sigma> l \<or> clause_true \<sigma> c"
  by (auto simp: clause_true_def)

lemma cnf_sat_simps [simp]:
  "cnf_sat \<sigma> []"
  "cnf_sat \<sigma> (c # cs) \<longleftrightarrow> clause_true \<sigma> c \<and> cnf_sat \<sigma> cs"
  "cnf_sat \<sigma> (cs @ ds) \<longleftrightarrow> cnf_sat \<sigma> cs \<and> cnf_sat \<sigma> ds"
  by (auto simp: cnf_sat_def)

lemma cnf_sat_mono: "cnf_sat \<sigma> ds \<Longrightarrow> set cs \<subseteq> set ds \<Longrightarrow> cnf_sat \<sigma> cs"
  by (auto simp: cnf_sat_def)

section \<open>The CNF and its gates\<close>

record cnf =
  num_vars :: nat
  clauses :: "clause list"
  true_lit :: "lit option"

definition cnf_default :: cnf where
  "cnf_default = \<lparr>num_vars = 0, clauses = [], true_lit = None\<rparr>"

definition new_var :: "cnf \<Rightarrow> lit \<times> cnf" where
  "new_var c = (lit_pos (num_vars c), c\<lparr>num_vars := num_vars c + 1\<rparr>)"

definition add_clause :: "clause \<Rightarrow> cnf \<Rightarrow> cnf" where
  "add_clause cl c = c\<lparr>clauses := clauses c @ [cl]\<rparr>"

definition lit_true :: "cnf \<Rightarrow> lit \<times> cnf" where
  "lit_true c =
     (case true_lit c of
        Some l \<Rightarrow> (l, c)
      | None \<Rightarrow> (let (l, c) = new_var c; c = add_clause [l] c in (l, c\<lparr>true_lit := Some l\<rparr>)))"

definition lit_false :: "cnf \<Rightarrow> lit \<times> cnf" where
  "lit_false c = (let (l, c) = lit_true c in (negated l, c))"

definition is_true :: "cnf \<Rightarrow> lit \<Rightarrow> bool" where
  "is_true c l \<longleftrightarrow> true_lit c = Some l"

definition is_false :: "cnf \<Rightarrow> lit \<Rightarrow> bool" where
  "is_false c l \<longleftrightarrow> true_lit c = Some (negated l)"

definition and2 :: "lit \<Rightarrow> lit \<Rightarrow> cnf \<Rightarrow> lit \<times> cnf" where
  "and2 a b c =
     (if is_false c a \<or> is_false c b then lit_false c
      else if is_true c a then (b, c)
      else if is_true c b then (a, c)
      else if a = b then (a, c)
      else if a = negated b then lit_false c
      else let (o', c) = new_var c;
               c = add_clause [negated a, negated b, o'] c;
               c = add_clause [a, negated o'] c;
               c = add_clause [b, negated o'] c
           in (o', c))"

definition or2 :: "lit \<Rightarrow> lit \<Rightarrow> cnf \<Rightarrow> lit \<times> cnf" where
  "or2 a b c =
     (if is_true c a \<or> is_true c b then lit_true c
      else if is_false c a then (b, c)
      else if is_false c b then (a, c)
      else if a = b then (a, c)
      else if a = negated b then lit_true c
      else let (o', c) = new_var c;
               c = add_clause [a, b, negated o'] c;
               c = add_clause [negated a, o'] c;
               c = add_clause [negated b, o'] c
           in (o', c))"

definition xor2 :: "lit \<Rightarrow> lit \<Rightarrow> cnf \<Rightarrow> lit \<times> cnf" where
  "xor2 a b c =
     (if is_false c a then (b, c)
      else if is_false c b then (a, c)
      else if is_true c a then (negated b, c)
      else if is_true c b then (negated a, c)
      else if a = b then lit_false c
      else if a = negated b then lit_true c
      else let (o', c) = new_var c;
               c = add_clause [negated a, negated b, negated o'] c;
               c = add_clause [a, b, negated o'] c;
               c = add_clause [a, negated b, o'] c;
               c = add_clause [negated a, b, o'] c
           in (o', c))"

definition mux :: "lit \<Rightarrow> lit \<Rightarrow> lit \<Rightarrow> cnf \<Rightarrow> lit \<times> cnf" where
  "mux s a b c =
     (if is_true c s then (a, c)
      else if is_false c s then (b, c)
      else if a = b then (a, c)
      else let (t, c) = and2 s a c;
               (e, c) = and2 (negated s) b c
           in or2 t e c)"

definition iff :: "lit \<Rightarrow> lit \<Rightarrow> cnf \<Rightarrow> lit \<times> cnf" where
  "iff a b c = (let (x, c) = xor2 a b c in (negated x, c))"

definition big_and :: "lit list \<Rightarrow> cnf \<Rightarrow> lit \<times> cnf" where
  "big_and lits c = (case lits of [] \<Rightarrow> lit_true c | first # rest \<Rightarrow> fold_st and2 first rest c)"

definition big_or :: "lit list \<Rightarrow> cnf \<Rightarrow> lit \<times> cnf" where
  "big_or lits c = (case lits of [] \<Rightarrow> lit_false c | first # rest \<Rightarrow> fold_st or2 first rest c)"

section \<open>Conservative extension\<close>

definition in_range :: "cnf \<Rightarrow> lit \<Rightarrow> bool" where
  "in_range c l \<longleftrightarrow> lit_var l < num_vars c"

definition cnf_wf :: "cnf \<Rightarrow> bool" where
  "cnf_wf c \<longleftrightarrow> (\<forall>cl\<in>set (clauses c). \<forall>l\<in>set cl. in_range c l) \<and>
     (\<forall>t. true_lit c = Some t \<longrightarrow> in_range c t \<and> [t] \<in> set (clauses c))"

definition extends :: "cnf \<Rightarrow> cnf \<Rightarrow> bool" where
  "extends c c' \<longleftrightarrow> cnf_wf c' \<and> num_vars c \<le> num_vars c' \<and> set (clauses c) \<subseteq> set (clauses c') \<and>
     (\<forall>\<sigma>. cnf_sat \<sigma> (clauses c) \<longrightarrow>
        (\<exists>\<sigma>'. (\<forall>v < num_vars c. \<sigma>' v = \<sigma> v) \<and> cnf_sat \<sigma>' (clauses c')))"

definition computes :: "cnf \<Rightarrow> lit \<times> cnf \<Rightarrow> (valuation \<Rightarrow> bool) \<Rightarrow> bool" where
  "computes c r f \<longleftrightarrow> extends c (snd r) \<and> in_range (snd r) (fst r) \<and>
     (\<forall>\<sigma>. cnf_sat \<sigma> (clauses (snd r)) \<longrightarrow> lit_val \<sigma> (fst r) = f \<sigma>)"

definition computes_vec :: "cnf \<Rightarrow> lit list \<times> cnf \<Rightarrow> (valuation \<Rightarrow> bool list) \<Rightarrow> bool" where
  "computes_vec c r f \<longleftrightarrow> extends c (snd r) \<and> list_all (in_range (snd r)) (fst r) \<and>
     (\<forall>\<sigma>. cnf_sat \<sigma> (clauses (snd r)) \<longrightarrow> map (lit_val \<sigma>) (fst r) = f \<sigma>)"

lemma extends_refl [simp]: "cnf_wf c \<Longrightarrow> extends c c"
  by (auto simp: extends_def)

lemma extends_wf: "extends c c' \<Longrightarrow> cnf_wf c'"
  by (simp add: extends_def)

lemma extends_trans [trans]:
  assumes "extends a b" and "extends b c"
  shows "extends a c"
proof -
  have "\<exists>\<tau>. (\<forall>v < num_vars a. \<tau> v = \<sigma> v) \<and> cnf_sat \<tau> (clauses c)"
    if "cnf_sat \<sigma> (clauses a)" for \<sigma>
  proof -
    obtain \<sigma>' where 1: "\<forall>v < num_vars a. \<sigma>' v = \<sigma> v" "cnf_sat \<sigma>' (clauses b)"
      using assms(1) \<open>cnf_sat \<sigma> (clauses a)\<close> by (auto simp: extends_def)
    obtain \<tau> where 2: "\<forall>v < num_vars b. \<tau> v = \<sigma>' v" "cnf_sat \<tau> (clauses c)"
      using assms(2) 1(2) by (auto simp: extends_def)
    have "num_vars a \<le> num_vars b" using assms(1) by (simp add: extends_def)
    with 1 2 have "\<forall>v < num_vars a. \<tau> v = \<sigma> v" by (metis order_less_le_trans)
    with 2 show ?thesis by blast
  qed
  with assms show ?thesis by (auto simp: extends_def)
qed

lemma extends_in_range: "extends c c' \<Longrightarrow> in_range c l \<Longrightarrow> in_range c' l"
  by (auto simp: extends_def in_range_def)

lemma extends_in_range_all: "extends c c' \<Longrightarrow> list_all (in_range c) ls \<Longrightarrow> list_all (in_range c') ls"
  by (auto simp: list_all_iff intro: extends_in_range)

lemma extends_sat: "extends c c' \<Longrightarrow> cnf_sat \<sigma> (clauses c') \<Longrightarrow> cnf_sat \<sigma> (clauses c)"
  by (auto simp: extends_def intro: cnf_sat_mono)

lemma in_range_negated [simp]: "in_range c (negated l) \<longleftrightarrow> in_range c l"
  by (simp add: in_range_def)

lemma computesI_same: "cnf_wf c \<Longrightarrow> in_range c l \<Longrightarrow>
    (\<And>\<sigma>. cnf_sat \<sigma> (clauses c) \<Longrightarrow> lit_val \<sigma> l = f \<sigma>) \<Longrightarrow> computes c (l, c) f"
  by (simp add: computes_def)

lemma computesE:
  assumes "computes c r f"
  obtains l c' where "r = (l, c')" and "extends c c'" and "cnf_wf c'" and "in_range c' l"
    and "\<And>\<sigma>. cnf_sat \<sigma> (clauses c') \<Longrightarrow> lit_val \<sigma> l = f \<sigma>"
  using assms extends_wf by (cases r) (auto simp: computes_def)

lemma computes_vecE:
  assumes "computes_vec c r f"
  obtains ls c' where "r = (ls, c')" and "extends c c'" and "cnf_wf c'"
    and "list_all (in_range c') ls"
    and "\<And>\<sigma>. cnf_sat \<sigma> (clauses c') \<Longrightarrow> map (lit_val \<sigma>) ls = f \<sigma>"
  using assms extends_wf by (cases r) (auto simp: computes_vec_def)

text \<open>Adding a fresh variable \<open>n\<close> with clauses that define it as a function of the old ones.\<close>

lemma tseitin:
  assumes wf: "cnf_wf c" and n: "n = num_vars c"
    and vars: "\<And>d l. d \<in> set D \<Longrightarrow> l \<in> set d \<Longrightarrow> lit_var l \<le> n"
    and def: "\<And>\<sigma>. cnf_sat \<sigma> D \<longleftrightarrow> \<sigma> n = f \<sigma>"
    and indep: "\<And>\<sigma> b. f (\<sigma>(n := b)) = f \<sigma>"
    and clauses': "clauses c' = clauses c @ D" and vars': "num_vars c' = Suc n"
    and true': "true_lit c' = true_lit c \<or> true_lit c' = Some (Lit n False) \<and> [Lit n False] \<in> set D"
  shows "computes c (Lit n False, c') f"
proof -
  have "cnf_wf c'"
    using wf vars true' unfolding cnf_wf_def
    by (auto simp: clauses' vars' n in_range_def less_Suc_eq_le intro: less_imp_le)
  moreover have "\<exists>\<sigma>'. (\<forall>v < num_vars c. \<sigma>' v = \<sigma> v) \<and> cnf_sat \<sigma>' (clauses c')"
    if sat: "cnf_sat \<sigma> (clauses c)" for \<sigma>
  proof -
    let ?\<sigma> = "\<sigma>(n := f \<sigma>)"
    have "clause_true ?\<sigma> cl" if "cl \<in> set (clauses c)" for cl
    proof -
      obtain l where l: "l \<in> set cl" "lit_val \<sigma> l"
        using sat \<open>cl \<in> set (clauses c)\<close> by (auto simp: cnf_sat_def clause_true_def)
      have "in_range c l" using wf \<open>cl \<in> set (clauses c)\<close> l(1) by (auto simp: cnf_wf_def)
      with l(2) have "lit_val ?\<sigma> l" by (simp add: lit_val_def in_range_def n)
      with l(1) show ?thesis by (auto simp: clause_true_def)
    qed
    moreover have "cnf_sat ?\<sigma> D" by (simp add: def indep)
    ultimately have "cnf_sat ?\<sigma> (clauses c')" by (auto simp: clauses' cnf_sat_def)
    moreover have "\<forall>v < num_vars c. ?\<sigma> v = \<sigma> v" by (simp add: n)
    ultimately show ?thesis by blast
  qed
  ultimately have "extends c c'" by (auto simp: extends_def clauses' vars' n)
  moreover have "lit_val \<sigma> (Lit n False) = f \<sigma>" if "cnf_sat \<sigma> (clauses c')" for \<sigma>
    using that def by (simp add: clauses')
  ultimately show ?thesis by (simp add: computes_def in_range_def vars')
qed

section \<open>Correctness of the gates\<close>

lemma is_true_negated [simp]: "is_true c (negated l) \<longleftrightarrow> is_false c l"
  and is_false_negated [simp]: "is_false c (negated l) \<longleftrightarrow> is_true c l"
  by (simp_all add: is_true_def is_false_def)

lemma sat_true_lit:
  assumes "cnf_wf c" and "cnf_sat \<sigma> (clauses c)"
  shows "is_true c l \<Longrightarrow> lit_val \<sigma> l" and "is_false c l \<Longrightarrow> \<not> lit_val \<sigma> l"
proof -
  have unit: "true_lit c = Some t \<Longrightarrow> lit_val \<sigma> t" for t
    using assms unfolding cnf_wf_def cnf_sat_def by fastforce
  then show "is_true c l \<Longrightarrow> lit_val \<sigma> l" by (simp add: is_true_def)
  show "is_false c l \<Longrightarrow> \<not> lit_val \<sigma> l"
    using unit [of "negated l"] by (simp add: is_false_def)
qed

lemma new_var_computes:
  assumes "cnf_wf c"
  shows "extends c (snd (new_var c))" and "in_range (snd (new_var c)) (fst (new_var c))"
  using assms
  by (auto simp: new_var_def extends_def cnf_wf_def in_range_def lit_pos_def less_Suc_eq)

lemma lit_true_computes: "cnf_wf c \<Longrightarrow> computes c (lit_true c) (\<lambda>_. True)"
proof (cases "true_lit c")
  case None
  assume "cnf_wf c"
  then have "computes c (Lit (num_vars c) False,
      add_clause [Lit (num_vars c) False] (snd (new_var c))\<lparr>true_lit := Some (Lit (num_vars c) False)\<rparr>)
      (\<lambda>_. True)"
    by (rule tseitin [where D = "[[Lit (num_vars c) False]]"])
      (auto simp: add_clause_def new_var_def)
  with None show ?thesis
    by (simp add: lit_true_def new_var_def lit_pos_def)
next
  case (Some t)
  assume wf: "cnf_wf c"
  with Some have "in_range c t" by (simp add: cnf_wf_def)
  with Some wf show ?thesis
    using sat_true_lit(1) [OF wf] by (auto simp: lit_true_def is_true_def intro!: computesI_same)
qed

lemma computes_negated:
  assumes "computes c r f"
  shows "computes c (let (l, c') = r in (negated l, c')) (\<lambda>\<sigma>. \<not> f \<sigma>)"
  using assms by (cases r) (simp add: computes_def)

lemma lit_false_computes: "cnf_wf c \<Longrightarrow> computes c (lit_false c) (\<lambda>_. False)"
  using computes_negated [OF lit_true_computes] by (simp add: lit_false_def)

lemma computes_cong:
  "computes c r f \<Longrightarrow> (\<And>\<sigma>. cnf_sat \<sigma> (clauses c) \<Longrightarrow> f \<sigma> = g \<sigma>) \<Longrightarrow> computes c r g"
  using extends_sat by (fastforce simp: computes_def)

lemma computes_if:
  "(P \<Longrightarrow> computes c x f) \<Longrightarrow> (\<not> P \<Longrightarrow> computes c y f) \<Longrightarrow> computes c (if P then x else y) f"
  by simp

lemma lit_val_upd: "in_range c a \<Longrightarrow> lit_val (\<sigma>(num_vars c := b)) a = lit_val \<sigma> a"
  by (auto simp: lit_val_def in_range_def)

text \<open>
  One lemma per gate: the constant folding branches by the meaning of the cached true literal,
  the last branch by \<open>tseitin\<close>.
\<close>

lemma and2_computes:
  assumes wf: "cnf_wf c" and a: "in_range c a" and b: "in_range c b"
  shows "computes c (and2 a b c) (\<lambda>\<sigma>. lit_val \<sigma> a \<and> lit_val \<sigma> b)"
proof -
  let ?o = "Lit (num_vars c) False"
  have gate: "computes c (?o,
      add_clause [b, negated ?o] (add_clause [a, negated ?o]
        (add_clause [negated a, negated b, ?o] (snd (new_var c)))))
      (\<lambda>\<sigma>. lit_val \<sigma> a \<and> lit_val \<sigma> b)"
    by (rule tseitin [OF wf refl, where D = "[[negated a, negated b, ?o], [a, negated ?o], [b, negated ?o]]"])
      (use a b in \<open>auto simp: add_clause_def new_var_def lit_val_upd in_range_def\<close>)
  show ?thesis
    unfolding and2_def
    by (intro computes_if)
      (use gate a b in \<open>auto simp: new_var_def lit_pos_def Let_def dest: sat_true_lit [OF wf]
        intro!: computesI_same [OF wf] computes_cong [OF lit_false_computes [OF wf]]\<close>)
qed

lemma or2_computes:
  assumes wf: "cnf_wf c" and a: "in_range c a" and b: "in_range c b"
  shows "computes c (or2 a b c) (\<lambda>\<sigma>. lit_val \<sigma> a \<or> lit_val \<sigma> b)"
proof -
  let ?o = "Lit (num_vars c) False"
  have gate: "computes c (?o,
      add_clause [negated b, ?o] (add_clause [negated a, ?o]
        (add_clause [a, b, negated ?o] (snd (new_var c)))))
      (\<lambda>\<sigma>. lit_val \<sigma> a \<or> lit_val \<sigma> b)"
    by (rule tseitin [OF wf refl, where D = "[[a, b, negated ?o], [negated a, ?o], [negated b, ?o]]"])
      (use a b in \<open>auto simp: add_clause_def new_var_def lit_val_upd in_range_def\<close>)
  show ?thesis
    unfolding or2_def
    by (intro computes_if)
      (use gate a b in \<open>auto simp: new_var_def lit_pos_def Let_def dest: sat_true_lit [OF wf]
        intro!: computesI_same [OF wf] computes_cong [OF lit_true_computes [OF wf]]\<close>)
qed

lemma xor2_computes:
  assumes wf: "cnf_wf c" and a: "in_range c a" and b: "in_range c b"
  shows "computes c (xor2 a b c) (\<lambda>\<sigma>. lit_val \<sigma> a \<noteq> lit_val \<sigma> b)"
proof -
  let ?o = "Lit (num_vars c) False"
  have gate: "computes c (?o,
      add_clause [negated a, b, ?o] (add_clause [a, negated b, ?o]
        (add_clause [a, b, negated ?o] (add_clause [negated a, negated b, negated ?o] (snd (new_var c))))))
      (\<lambda>\<sigma>. lit_val \<sigma> a \<noteq> lit_val \<sigma> b)"
    by (rule tseitin [OF wf refl, where D = "[[negated a, negated b, negated ?o], [a, b, negated ?o],
          [a, negated b, ?o], [negated a, b, ?o]]"])
      (use a b in \<open>auto simp: add_clause_def new_var_def lit_val_upd in_range_def\<close>)
  show ?thesis
    unfolding xor2_def
    by (intro computes_if)
      (use gate a b in \<open>auto simp: new_var_def lit_pos_def Let_def dest: sat_true_lit [OF wf]
        intro!: computesI_same [OF wf] computes_cong [OF lit_true_computes [OF wf]]
          computes_cong [OF lit_false_computes [OF wf]]\<close>)
qed

lemma mux_computes:
  assumes wf: "cnf_wf c" and s: "in_range c s" and a: "in_range c a" and b: "in_range c b"
  shows "computes c (mux s a b c) (\<lambda>\<sigma>. if lit_val \<sigma> s then lit_val \<sigma> a else lit_val \<sigma> b)"
proof -
  obtain t c1 where 1: "and2 s a c = (t, c1)" "extends c c1" "cnf_wf c1" "in_range c1 t"
      "\<And>\<sigma>. cnf_sat \<sigma> (clauses c1) \<Longrightarrow> lit_val \<sigma> t = (lit_val \<sigma> s \<and> lit_val \<sigma> a)"
    by (rule computesE [OF and2_computes [OF wf s a]]) blast
  have "in_range c1 (negated s)" "in_range c1 b"
    using extends_in_range [OF 1(2)] s b by auto
  then obtain e c2 where 2: "and2 (negated s) b c1 = (e, c2)" "extends c1 c2" "cnf_wf c2" "in_range c2 e"
      "\<And>\<sigma>. cnf_sat \<sigma> (clauses c2) \<Longrightarrow> lit_val \<sigma> e = (\<not> lit_val \<sigma> s \<and> lit_val \<sigma> b)"
    by - (rule computesE [OF and2_computes [OF 1(3)]], assumption+, simp)
  obtain x c3 where 3: "or2 t e c2 = (x, c3)" "extends c2 c3" "in_range c3 x"
      "\<And>\<sigma>. cnf_sat \<sigma> (clauses c3) \<Longrightarrow> lit_val \<sigma> x = (lit_val \<sigma> t \<or> lit_val \<sigma> e)"
    by (rule computesE [OF or2_computes [OF 2(3) extends_in_range [OF 2(2) 1(4)] 2(4)]]) blast
  have ext: "extends c c3"
    by (rule extends_trans [OF 1(2) extends_trans [OF 2(2) 3(2)]])
  have val: "lit_val \<sigma> x = (if lit_val \<sigma> s then lit_val \<sigma> a else lit_val \<sigma> b)"
    if "cnf_sat \<sigma> (clauses c3)" for \<sigma>
    using 1(5) 2(5) 3(4) extends_sat [OF 2(2)] extends_sat [OF 3(2)] that by auto
  show ?thesis
    unfolding mux_def 1(1) 2(1) 3(1) Let_def prod.case
    by (intro computes_if)
      (use a b ext val 3(3) in \<open>auto simp: computes_def extends_refl [OF wf]
        dest: sat_true_lit [OF wf]\<close>)
qed

lemma iff_computes:
  assumes "cnf_wf c" and "in_range c a" and "in_range c b"
  shows "computes c (iff a b c) (\<lambda>\<sigma>. lit_val \<sigma> a = lit_val \<sigma> b)"
  using computes_negated [OF xor2_computes [OF assms]] by (simp add: iff_def)

section \<open>Gates over lists\<close>

lemma computes_map_st:
  assumes "cnf_wf c"
    and "\<And>x c'. x \<in> set xs \<Longrightarrow> extends c c' \<Longrightarrow> computes c' (g x c') (f x)"
  shows "computes_vec c (map_st g xs c) (\<lambda>\<sigma>. map (\<lambda>x. f x \<sigma>) xs)"
  using assms
proof (induction xs arbitrary: c)
  case Nil
  then show ?case by (simp add: computes_vec_def)
next
  case (Cons x xs)
  obtain l c1 where 1: "g x c = (l, c1)" "extends c c1" "cnf_wf c1" "in_range c1 l"
      "\<And>\<sigma>. cnf_sat \<sigma> (clauses c1) \<Longrightarrow> lit_val \<sigma> l = f x \<sigma>"
    by (rule computesE [OF Cons.prems(2) [OF list.set_intros(1) extends_refl [OF Cons.prems(1)]]]) blast
  have "computes_vec c1 (map_st g xs c1) (\<lambda>\<sigma>. map (\<lambda>x. f x \<sigma>) xs)"
    by (rule Cons.IH [OF 1(3)]) (auto intro: Cons.prems(2) extends_trans [OF 1(2)])
  then obtain ls c2 where 2: "map_st g xs c1 = (ls, c2)" "extends c1 c2" "list_all (in_range c2) ls"
      "\<And>\<sigma>. cnf_sat \<sigma> (clauses c2) \<Longrightarrow> map (lit_val \<sigma>) ls = map (\<lambda>x. f x \<sigma>) xs"
    by (rule computes_vecE) blast
  show ?case
    using 1 2 extends_trans [OF 1(2) 2(2)] extends_in_range [OF 2(2)] extends_sat [OF 2(2)]
    by (simp add: computes_vec_def)
qed

lemma computes_fold_st:
  assumes gate: "\<And>a b c. cnf_wf c \<Longrightarrow> in_range c a \<Longrightarrow> in_range c b \<Longrightarrow>
      computes c (g a b c) (\<lambda>\<sigma>. f (lit_val \<sigma> a) (lit_val \<sigma> b))"
    and "cnf_wf c" and "in_range c a" and "list_all (in_range c) xs"
  shows "computes c (fold_st g a xs c) (\<lambda>\<sigma>. foldl f (lit_val \<sigma> a) (map (lit_val \<sigma>) xs))"
  using assms(2-)
proof (induction xs arbitrary: a c)
  case Nil
  then show ?case by (simp add: computes_def)
next
  case (Cons x xs)
  have "in_range c x" using Cons.prems by simp
  then obtain l c1 where 1: "g a x c = (l, c1)" "extends c c1" "cnf_wf c1" "in_range c1 l"
      "\<And>\<sigma>. cnf_sat \<sigma> (clauses c1) \<Longrightarrow> lit_val \<sigma> l = f (lit_val \<sigma> a) (lit_val \<sigma> x)"
    by - (rule computesE [OF gate [OF Cons.prems(1,2)]], assumption, blast)
  have "list_all (in_range c1) xs"
    using Cons.prems(3) extends_in_range_all [OF 1(2)] by simp
  with Cons.IH [OF 1(3,4)]
  have 2: "computes c1 (fold_st g l xs c1) (\<lambda>\<sigma>. foldl f (lit_val \<sigma> l) (map (lit_val \<sigma>) xs))" .
  then obtain y c2 where 3: "fold_st g l xs c1 = (y, c2)" "extends c1 c2"
    by (rule computesE) blast
  then show ?case
    using 1 2 extends_trans [OF 1(2)] extends_sat [OF 3(2)]
    by (simp add: computes_def)
qed

lemma foldl_and: "foldl (\<and>) a bs \<longleftrightarrow> a \<and> list_all id bs"
  and foldl_or: "foldl (\<or>) a bs \<longleftrightarrow> a \<or> list_ex id bs"
  by (induction bs arbitrary: a) auto

lemma big_and_computes:
  assumes "cnf_wf c" and "list_all (in_range c) ls"
  shows "computes c (big_and ls c) (\<lambda>\<sigma>. list_all (lit_val \<sigma>) ls)"
proof (cases ls)
  case Nil
  then show ?thesis using lit_true_computes [OF assms(1)] by (simp add: big_and_def)
next
  case (Cons l ls')
  then show ?thesis
    using computes_fold_st [where g = and2 and f = "(\<and>)", OF and2_computes assms(1)] assms(2)
    by (simp add: big_and_def foldl_and list.pred_map comp_def)
qed

lemma big_or_computes:
  assumes "cnf_wf c" and "list_all (in_range c) ls"
  shows "computes c (big_or ls c) (\<lambda>\<sigma>. list_ex (lit_val \<sigma>) ls)"
proof (cases ls)
  case Nil
  then show ?thesis using lit_false_computes [OF assms(1)] by (simp add: big_or_def)
next
  case (Cons l ls')
  then show ?thesis
    using computes_fold_st [where g = or2 and f = "(\<or>)", OF or2_computes assms(1)] assms(2)
    by (simp add: big_or_def foldl_or list_ex_iff)
qed

text \<open>The same value read through an equivalent specification.\<close>

lemma computes_vec_cong:
  assumes "computes_vec c r f" and "\<And>\<sigma>. f \<sigma> = g \<sigma>"
  shows "computes_vec c r g"
  using assms by (simp add: computes_vec_def)

end
