(* ===== verification/Cnf_Circuits.thy ===== *)
theory Cnf_Circuits
  imports Cnf_Gates Bv_Ops
begin

text \<open>
  The bit-vector circuits of \<open>crates/solver/src/bitblast.rs\<close>: ripple-carry adder, subtractor,
  shift-add multiplier, restoring divider, barrel shifter and comparators over literal vectors,
  least significant literal first. Every circuit is shown to compute the reference operation
  \<open>bin_den\<close> / \<open>cmp_den\<close> of \<open>Bv_Ops\<close> at every width, including the total SMT-LIB values of a
  division by zero and shift amounts beyond the width.
\<close>

section \<open>Circuits\<close>

definition full_adder :: "lit \<Rightarrow> lit \<Rightarrow> lit \<Rightarrow> cnf \<Rightarrow> (lit \<times> lit) \<times> cnf" where
  "full_adder a b cin c =
     (let (axb, c) = xor2 a b c;
          (s, c) = xor2 axb cin c;
          (ab, c) = and2 a b c;
          (cx, c) = and2 cin axb c;
          (cout, c) = or2 ab cx c
      in ((s, cout), c))"

primrec adder_loop :: "(lit \<times> lit) list \<Rightarrow> lit \<Rightarrow> cnf \<Rightarrow> (lit list \<times> lit) \<times> cnf" where
  "adder_loop [] carry c = (([], carry), c)"
| "adder_loop (ab # rest) carry c =
     (let ((s, carry), c) = full_adder (fst ab) (snd ab) carry c;
          ((out, carry), c) = adder_loop rest carry c
      in ((s # out, carry), c))"

definition adder :: "lit list \<Rightarrow> lit list \<Rightarrow> lit \<Rightarrow> cnf \<Rightarrow> (lit list \<times> lit) \<times> cnf" where
  "adder a b cin c = adder_loop (zip a b) cin c"

definition add :: "lit list \<Rightarrow> lit list \<Rightarrow> cnf \<Rightarrow> lit list \<times> cnf" where
  "add a b c = (let (cin, c) = lit_false c; ((out, _), c) = adder a b cin c in (out, c))"

definition sub_with_borrow :: "lit list \<Rightarrow> lit list \<Rightarrow> cnf \<Rightarrow> (lit list \<times> lit) \<times> cnf" where
  "sub_with_borrow a b c =
     (let nb = map negated b; (cin, c) = lit_true c in adder a nb cin c)"

definition sub :: "lit list \<Rightarrow> lit list \<Rightarrow> cnf \<Rightarrow> lit list \<times> cnf" where
  "sub a b c = (let ((diff, _), c) = sub_with_borrow a b c in (diff, c))"

definition partial_product :: "lit \<Rightarrow> lit list \<Rightarrow> nat \<Rightarrow> lit \<Rightarrow> cnf \<Rightarrow> lit list \<times> cnf" where
  "partial_product zero a j bj c =
     (let w = length a; (hi, c) = map_st (\<lambda>ai. and2 ai bj) (take (w - j) a) c
      in (replicate (min j w) zero @ hi, c))"

primrec mul_loop :: "lit \<Rightarrow> lit list \<Rightarrow> lit list \<Rightarrow> nat \<Rightarrow> lit list \<Rightarrow> cnf \<Rightarrow> lit list \<times> cnf" where
  "mul_loop zero a [] j acc c = (acc, c)"
| "mul_loop zero a (bj # bs) j acc c =
     (let (pp, c) = partial_product zero a j bj c;
          (acc, c) = add acc pp c
      in mul_loop zero a bs (Suc j) acc c)"

definition mul :: "lit list \<Rightarrow> lit list \<Rightarrow> cnf \<Rightarrow> lit list \<times> cnf" where
  "mul a b c = (let (zero, c) = lit_false c in mul_loop zero a b 0 (replicate (length a) zero) c)"

definition negate :: "lit list \<Rightarrow> cnf \<Rightarrow> lit list \<times> cnf" where
  "negate a c =
     (let na = map negated a;
          (zero, c) = lit_false c;
          (cin, c) = lit_true c;
          ((out, _), c) = adder na (replicate (length a) zero) cin c
      in (out, c))"

definition mux_vec :: "lit \<Rightarrow> lit list \<Rightarrow> lit list \<Rightarrow> cnf \<Rightarrow> lit list \<times> cnf" where
  "mux_vec s a b c = map_st (\<lambda>(x, y). mux s x y) (zip a b) c"

definition abs_sign :: "lit list \<Rightarrow> cnf \<Rightarrow> (lit list \<times> lit) \<times> cnf" where
  "abs_sign a c =
     (let sign = a ! (length a - 1);
          (nega, c) = negate a c;
          (mag, c) = mux_vec sign nega a c
      in ((mag, sign), c))"

text \<open>The dividend bits are consumed from the most significant one, so each new quotient bit is the lowest so far.\<close>

primrec udivrem_loop :: "lit list \<Rightarrow> nat \<Rightarrow> lit list \<Rightarrow> lit list \<Rightarrow> lit list \<Rightarrow> cnf
    \<Rightarrow> (lit list \<times> lit list) \<times> cnf" where
  "udivrem_loop bext w [] rem quot c = ((quot, rem), c)"
| "udivrem_loop bext w (ai # as) rem quot c =
     (let shifted = ai # rem;
          ((diff, carry), c) = sub_with_borrow shifted bext c;
          (newrem, c) = mux_vec carry diff shifted c
      in udivrem_loop bext w as (take w newrem) (carry # quot) c)"

definition udivrem :: "lit list \<Rightarrow> lit list \<Rightarrow> cnf \<Rightarrow> (lit list \<times> lit list) \<times> cnf" where
  "udivrem a b c =
     (let w = length a; (zero, c) = lit_false c
      in udivrem_loop (b @ [zero]) w (rev a) (replicate w zero) [] c)"

definition sdivrem :: "lit list \<Rightarrow> lit list \<Rightarrow> cnf \<Rightarrow> (lit list \<times> lit list) \<times> cnf" where
  "sdivrem a b c =
     (let ((ma, sa), c) = abs_sign a c;
          ((mb, sb), c) = abs_sign b c;
          ((uq, ur), c) = udivrem ma mb c;
          (qsign, c) = xor2 sa sb c;
          (neg_uq, c) = negate uq c;
          (quot, c) = mux_vec qsign neg_uq uq c;
          (neg_ur, c) = negate ur c;
          (rem, c) = mux_vec sa neg_ur ur c
      in ((quot, rem), c))"

fun ilog2 :: "nat \<Rightarrow> nat" where
  "ilog2 n = (if n < 2 then 0 else Suc (ilog2 (n div 2)))"

declare ilog2.simps [simp del]

text \<open>Moving every wire by \<open>k\<close> places (left for \<open>Shl\<close>, right otherwise) and filling with \<open>fill\<close>.\<close>

definition shift_wire :: "bv_op \<Rightarrow> 'a \<Rightarrow> nat \<Rightarrow> 'a list \<Rightarrow> 'a list" where
  "shift_wire op fill k xs =
     (if op = Shl then map (\<lambda>i. if i \<ge> k then xs ! (i - k) else fill) [0..<length xs]
      else map (\<lambda>i. if i + k < length xs then xs ! (i + k) else fill) [0..<length xs])"

primrec barrel :: "bv_op \<Rightarrow> lit \<Rightarrow> lit list \<Rightarrow> nat \<Rightarrow> lit list \<Rightarrow> cnf \<Rightarrow> lit list \<times> cnf" where
  "barrel op fill [] k x c = (x, c)"
| "barrel op fill (ctrl # rest) k x c =
     (let (x, c) = mux_vec ctrl (shift_wire op fill (2 ^ k) x) x c
      in barrel op fill rest (Suc k) x c)"

definition shift_var :: "bv_op \<Rightarrow> lit list \<Rightarrow> lit list \<Rightarrow> cnf \<Rightarrow> lit list \<times> cnf" where
  "shift_var op a b c =
     (let w = length a;
          (zero, c) = lit_false c;
          sign = a ! (w - 1);
          fill = (if op = AShr then sign else zero);
          stages = (if w \<le> 1 then 0 else ilog2 (w - 1) + 1);
          (x, c) = barrel op fill (take stages b) 0 a c;
          (oob, c) = big_or (drop (min stages w) b) c
      in mux_vec oob (replicate w fill) x c)"

text \<open>Called with \<open>And\<close>, \<open>Or\<close> and \<open>Xor\<close> only; any other operator is \<open>unreachable!\<close> in the source.\<close>

definition bitwise :: "bv_op \<Rightarrow> lit list \<Rightarrow> lit list \<Rightarrow> cnf \<Rightarrow> lit list \<times> cnf" where
  "bitwise op a b c =
     map_st (\<lambda>(x, y). case op of And \<Rightarrow> and2 x y | Or \<Rightarrow> or2 x y | _ \<Rightarrow> xor2 x y) (zip a b) c"

definition eq_circuit :: "lit list \<Rightarrow> lit list \<Rightarrow> cnf \<Rightarrow> lit \<times> cnf" where
  "eq_circuit a b c = (let (bits, c) = map_st (\<lambda>(x, y). iff x y) (zip a b) c in big_and bits c)"

definition ult :: "lit list \<Rightarrow> lit list \<Rightarrow> cnf \<Rightarrow> lit \<times> cnf" where
  "ult a b c = (let ((_, carry), c) = sub_with_borrow a b c in (negated carry, c))"

definition slt :: "lit list \<Rightarrow> lit list \<Rightarrow> cnf \<Rightarrow> lit \<times> cnf" where
  "slt a b c =
     (let w = length a; sa = a ! (w - 1); sb = b ! (w - 1);
          (diff_sign, c) = xor2 sa sb c;
          (unsigned_lt, c) = ult a b c
      in mux diff_sign sa unsigned_lt c)"

definition neg_result :: "lit \<times> cnf \<Rightarrow> lit \<times> cnf" where
  "neg_result r = (negated (fst r), snd r)"

fun compare :: "cmp_op \<Rightarrow> lit list \<Rightarrow> lit list \<Rightarrow> cnf \<Rightarrow> lit \<times> cnf" where
  "compare Eq a b c = eq_circuit a b c"
| "compare Ne a b c = neg_result (eq_circuit a b c)"
| "compare Ult a b c = ult a b c"
| "compare Ule a b c = neg_result (ult b a c)"
| "compare Ugt a b c = ult b a c"
| "compare Uge a b c = neg_result (ult a b c)"
| "compare Slt a b c = slt a b c"
| "compare Sle a b c = neg_result (slt b a c)"
| "compare Sgt a b c = slt b a c"
| "compare Sge a b c = neg_result (slt a b c)"

section \<open>Words read from a valuation\<close>

definition word_val :: "valuation \<Rightarrow> lit list \<Rightarrow> nat" where
  "word_val \<sigma> ls = bits_val (map (lit_val \<sigma>) ls)"

definition computes_word :: "cnf \<Rightarrow> lit list \<times> cnf \<Rightarrow> nat \<Rightarrow> (valuation \<Rightarrow> nat) \<Rightarrow> bool" where
  "computes_word c r w f \<longleftrightarrow> extends c (snd r) \<and> length (fst r) = w \<and>
     list_all (in_range (snd r)) (fst r) \<and>
     (\<forall>\<sigma>. cnf_sat \<sigma> (clauses (snd r)) \<longrightarrow> word_val \<sigma> (fst r) = f \<sigma>)"

lemma word_val_simps [simp]:
  "word_val \<sigma> [] = 0"
  "word_val \<sigma> (l # ls) = of_bool (lit_val \<sigma> l) + 2 * word_val \<sigma> ls"
  "word_val \<sigma> (xs @ ys) = word_val \<sigma> xs + 2 ^ length xs * word_val \<sigma> ys"
  by (simp_all add: word_val_def bits_val_append)

lemma word_val_less: "length ls = w \<Longrightarrow> word_val \<sigma> ls < 2 ^ w"
  unfolding word_val_def using bits_val_less [of "map (lit_val \<sigma>) ls"] by simp

lemma word_val_negated: "word_val \<sigma> (map negated ls) = 2 ^ length ls - 1 - word_val \<sigma> ls"
proof -
  have "map (lit_val \<sigma>) (map negated ls) = map Not (map (lit_val \<sigma>) ls)" by simp
  then show ?thesis by (simp add: word_val_def bits_val_map_Not del: map_map)
qed

lemma word_val_replicate_False: "\<not> lit_val \<sigma> l \<Longrightarrow> word_val \<sigma> (replicate n l) = 0"
  by (simp add: word_val_def)

lemma list_all_in_range_negated [simp]:
  "list_all (in_range c) (map negated ls) \<longleftrightarrow> list_all (in_range c) ls"
  by (simp add: list.pred_map comp_def)

lemma computes_wordE:
  assumes "computes_word c r w f"
  obtains ls c' where "r = (ls, c')" and "extends c c'" and "cnf_wf c'" and "length ls = w"
    and "list_all (in_range c') ls"
    and "\<And>\<sigma>. cnf_sat \<sigma> (clauses c') \<Longrightarrow> word_val \<sigma> ls = f \<sigma>"
  using assms extends_wf by (cases r) (auto simp: computes_word_def)

section \<open>Addition and subtraction\<close>

lemma full_adder_correct:
  assumes wf: "cnf_wf c" and rng: "in_range c a" "in_range c b" "in_range c cin"
  obtains s co c' where "full_adder a b cin c = ((s, co), c')" and "extends c c'" and "cnf_wf c'"
    and "in_range c' s" and "in_range c' co"
    and "\<And>\<sigma>. cnf_sat \<sigma> (clauses c') \<Longrightarrow>
      of_bool (lit_val \<sigma> s) + 2 * of_bool (lit_val \<sigma> co) =
      (of_bool (lit_val \<sigma> a) + of_bool (lit_val \<sigma> b) + of_bool (lit_val \<sigma> cin) :: nat)"
proof -
  obtain x c1 where 1: "xor2 a b c = (x, c1)" "extends c c1" "cnf_wf c1" "in_range c1 x"
      "\<And>\<sigma>. cnf_sat \<sigma> (clauses c1) \<Longrightarrow> lit_val \<sigma> x = (lit_val \<sigma> a \<noteq> lit_val \<sigma> b)"
    by (rule computesE [OF xor2_computes [OF wf rng(1,2)]]) blast
  note r1 = extends_in_range [OF 1(2)]
  obtain s c2 where 2: "xor2 x cin c1 = (s, c2)" "extends c1 c2" "cnf_wf c2" "in_range c2 s"
      "\<And>\<sigma>. cnf_sat \<sigma> (clauses c2) \<Longrightarrow> lit_val \<sigma> s = (lit_val \<sigma> x \<noteq> lit_val \<sigma> cin)"
    by (rule computesE [OF xor2_computes [OF 1(3,4) r1 [OF rng(3)]]]) blast
  note r2 = extends_in_range [OF 2(2)]
  obtain ab c3 where 3: "and2 a b c2 = (ab, c3)" "extends c2 c3" "cnf_wf c3" "in_range c3 ab"
      "\<And>\<sigma>. cnf_sat \<sigma> (clauses c3) \<Longrightarrow> lit_val \<sigma> ab = (lit_val \<sigma> a \<and> lit_val \<sigma> b)"
    by (rule computesE [OF and2_computes [OF 2(3) r2 [OF r1 [OF rng(1)]] r2 [OF r1 [OF rng(2)]]]]) blast
  note r3 = extends_in_range [OF 3(2)]
  obtain cx c4 where 4: "and2 cin x c3 = (cx, c4)" "extends c3 c4" "cnf_wf c4" "in_range c4 cx"
      "\<And>\<sigma>. cnf_sat \<sigma> (clauses c4) \<Longrightarrow> lit_val \<sigma> cx = (lit_val \<sigma> cin \<and> lit_val \<sigma> x)"
    by (rule computesE [OF and2_computes [OF 3(3) r3 [OF r2 [OF r1 [OF rng(3)]]] r3 [OF r2 [OF 1(4)]]]]) blast
  note r4 = extends_in_range [OF 4(2)]
  obtain co c5 where 5: "or2 ab cx c4 = (co, c5)" "extends c4 c5" "cnf_wf c5" "in_range c5 co"
      "\<And>\<sigma>. cnf_sat \<sigma> (clauses c5) \<Longrightarrow> lit_val \<sigma> co = (lit_val \<sigma> ab \<or> lit_val \<sigma> cx)"
    by (rule computesE [OF or2_computes [OF 4(3) r4 [OF 3(4)] 4(4)]]) blast
  have c15: "extends c2 c5" using 3(2) 4(2) 5(2) extends_trans by blast
  show thesis
  proof (rule that)
    show "full_adder a b cin c = ((s, co), c5)"
      by (simp add: full_adder_def 1(1) 2(1) 3(1) 4(1) 5(1))
    show "extends c c5" using 1(2) 2(2) c15 extends_trans by blast
    show "in_range c5 s" by (rule extends_in_range [OF c15 2(4)])
    fix \<sigma> assume "cnf_sat \<sigma> (clauses c5)"
    then have "lit_val \<sigma> s = (lit_val \<sigma> x \<noteq> lit_val \<sigma> cin)" "lit_val \<sigma> x = (lit_val \<sigma> a \<noteq> lit_val \<sigma> b)"
      "lit_val \<sigma> co = (lit_val \<sigma> a \<and> lit_val \<sigma> b \<or> lit_val \<sigma> cin \<and> lit_val \<sigma> x)"
      using 1(5) 2(5) 3(5) 4(5) 5(5) extends_sat [OF 2(2)] extends_sat [OF 3(2)]
        extends_sat [OF 4(2)] extends_sat [OF 5(2)] by blast+
    then show "of_bool (lit_val \<sigma> s) + 2 * of_bool (lit_val \<sigma> co) =
      (of_bool (lit_val \<sigma> a) + of_bool (lit_val \<sigma> b) + of_bool (lit_val \<sigma> cin) :: nat)"
      by (auto simp: of_bool_def)
  qed (rule 5(3,4))+
qed

text \<open>The carry-save equation of a ripple-carry adder.\<close>

lemma adder_correct:
  assumes "cnf_wf c" and "list_all (in_range c) a" and "list_all (in_range c) b"
    and "in_range c cin" and "length a = w" and "length b = w"
  obtains s co c' where "adder a b cin c = ((s, co), c')" and "extends c c'" and "cnf_wf c'"
    and "length s = w" and "list_all (in_range c') s" and "in_range c' co"
    and "\<And>\<sigma>. cnf_sat \<sigma> (clauses c') \<Longrightarrow>
      word_val \<sigma> s + 2 ^ w * of_bool (lit_val \<sigma> co) =
      word_val \<sigma> a + word_val \<sigma> b + of_bool (lit_val \<sigma> cin)"
  using assms
proof (induction w arbitrary: a b cin c thesis)
  case 0
  then show ?case by (intro 0(1) [of "[]" cin c]) (auto simp: adder_def)
next
  case (Suc w)
  obtain x xs y ys where ab: "a = x # xs" "b = y # ys" "length xs = w" "length ys = w"
    using Suc.prems(6,7) by (auto simp: length_Suc_conv)
  have rng: "in_range c x" "in_range c y" "list_all (in_range c) xs" "list_all (in_range c) ys"
    using Suc.prems(3,4) ab by auto
  obtain s co c1 where 1: "full_adder x y cin c = ((s, co), c1)" "extends c c1" "cnf_wf c1"
      "in_range c1 s" "in_range c1 co"
      "\<And>\<sigma>. cnf_sat \<sigma> (clauses c1) \<Longrightarrow>
        of_bool (lit_val \<sigma> s) + 2 * of_bool (lit_val \<sigma> co) =
        (of_bool (lit_val \<sigma> x) + of_bool (lit_val \<sigma> y) + of_bool (lit_val \<sigma> cin) :: nat)"
    using full_adder_correct [OF Suc.prems(2) rng(1,2) Suc.prems(5)] by blast
  obtain ss co2 c2 where 2: "adder xs ys co c1 = ((ss, co2), c2)" "extends c1 c2" "cnf_wf c2"
      "length ss = w" "list_all (in_range c2) ss" "in_range c2 co2"
      "\<And>\<sigma>. cnf_sat \<sigma> (clauses c2) \<Longrightarrow>
        word_val \<sigma> ss + 2 ^ w * of_bool (lit_val \<sigma> co2) =
        word_val \<sigma> xs + word_val \<sigma> ys + of_bool (lit_val \<sigma> co)"
    using Suc.IH [OF _ 1(3) _ _ 1(5) ab(3,4)] rng extends_in_range_all [OF 1(2)] by blast
  show ?case
  proof (rule Suc.prems(1))
    show "adder a b cin c = ((s # ss, co2), c2)"
      using 1(1) 2(1) by (simp add: adder_def ab)
    show "extends c c2" by (rule extends_trans [OF 1(2) 2(2)])
    show "length (s # ss) = Suc w" by (simp add: 2)
    show "list_all (in_range c2) (s # ss)" using 2(5) extends_in_range [OF 2(2) 1(4)] by simp
    fix \<sigma> assume "cnf_sat \<sigma> (clauses c2)"
    with 1(6) [of \<sigma>] 2(7) [of \<sigma>] extends_sat [OF 2(2)]
    show "word_val \<sigma> (s # ss) + 2 ^ Suc w * of_bool (lit_val \<sigma> co2) =
      word_val \<sigma> a + word_val \<sigma> b + of_bool (lit_val \<sigma> cin)"
      by (simp add: ab algebra_simps)
  qed (rule 2(3,6))+
qed

lemma add_computes:
  assumes wf: "cnf_wf c" and a: "list_all (in_range c) a" "length a = w"
    and b: "list_all (in_range c) b" "length b = w"
  shows "computes_word c (add a b c) w (\<lambda>\<sigma>. (word_val \<sigma> a + word_val \<sigma> b) mod 2 ^ w)"
proof -
  obtain z c1 where 1: "lit_false c = (z, c1)" "extends c c1" "cnf_wf c1" "in_range c1 z"
      "\<And>\<sigma>. cnf_sat \<sigma> (clauses c1) \<Longrightarrow> lit_val \<sigma> z = False"
    by (rule computesE [OF lit_false_computes [OF wf]]) blast
  note r1 = extends_in_range_all [OF 1(2)]
  obtain s co c2 where 2: "adder a b z c1 = ((s, co), c2)" "extends c1 c2" "length s = w"
      "list_all (in_range c2) s"
      "\<And>\<sigma>. cnf_sat \<sigma> (clauses c2) \<Longrightarrow>
        word_val \<sigma> s + 2 ^ w * of_bool (lit_val \<sigma> co) = word_val \<sigma> a + word_val \<sigma> b + of_bool (lit_val \<sigma> z)"
    by (rule adder_correct [OF 1(3) r1 [OF a(1)] r1 [OF b(1)] 1(4) a(2) b(2)]) auto
  have "word_val \<sigma> s = (word_val \<sigma> a + word_val \<sigma> b) mod 2 ^ w" if "cnf_sat \<sigma> (clauses c2)" for \<sigma>
  proof -
    have "word_val \<sigma> s + 2 ^ w * of_bool (lit_val \<sigma> co) = word_val \<sigma> a + word_val \<sigma> b"
      using 2(5) [OF that] 1(5) [OF extends_sat [OF 2(2) that]] by simp
    then have "(word_val \<sigma> a + word_val \<sigma> b) mod 2 ^ w = word_val \<sigma> s mod 2 ^ w"
      by (metis mod_mult_self2)
    then show ?thesis using word_val_less [OF 2(3)] by simp
  qed
  then show ?thesis
    using 2 extends_trans [OF 1(2) 2(2)] by (simp add: computes_word_def add_def 1(1))
qed

lemma sub_with_borrow_correct:
  assumes wf: "cnf_wf c" and a: "list_all (in_range c) a" "length a = w"
    and b: "list_all (in_range c) b" "length b = w"
  obtains s co c' where "sub_with_borrow a b c = ((s, co), c')" and "extends c c'" and "cnf_wf c'"
    and "length s = w" and "list_all (in_range c') s" and "in_range c' co"
    and "\<And>\<sigma>. cnf_sat \<sigma> (clauses c') \<Longrightarrow>
      lit_val \<sigma> co = (word_val \<sigma> b \<le> word_val \<sigma> a) \<and>
      word_val \<sigma> s = (word_val \<sigma> a + (2 ^ w - word_val \<sigma> b)) mod 2 ^ w"
proof -
  obtain t c1 where 1: "lit_true c = (t, c1)" "extends c c1" "cnf_wf c1" "in_range c1 t"
      "\<And>\<sigma>. cnf_sat \<sigma> (clauses c1) \<Longrightarrow> lit_val \<sigma> t = True"
    by (rule computesE [OF lit_true_computes [OF wf]]) blast
  note r1 = extends_in_range_all [OF 1(2)]
  obtain s co c2 where 2: "adder a (map negated b) t c1 = ((s, co), c2)" "extends c1 c2" "cnf_wf c2"
      "length s = w" "list_all (in_range c2) s" "in_range c2 co"
      "\<And>\<sigma>. cnf_sat \<sigma> (clauses c2) \<Longrightarrow>
        word_val \<sigma> s + 2 ^ w * of_bool (lit_val \<sigma> co) =
        word_val \<sigma> a + word_val \<sigma> (map negated b) + of_bool (lit_val \<sigma> t)"
    using adder_correct [OF 1(3) r1 [OF a(1)] _ 1(4) a(2), of "map negated b"] r1 [OF b(1)] b(2) by auto
  show thesis
  proof (rule that)
    show "sub_with_borrow a b c = ((s, co), c2)" by (simp add: sub_with_borrow_def 1(1) 2(1))
    show "extends c c2" by (rule extends_trans [OF 1(2) 2(2)])
    fix \<sigma> assume sat: "cnf_sat \<sigma> (clauses c2)"
    let ?a = "word_val \<sigma> a" and ?b = "word_val \<sigma> b" and ?s = "word_val \<sigma> s"
    have less: "?a < 2 ^ w" "?b < 2 ^ w" "?s < 2 ^ w" by (simp_all add: word_val_less a b 2)
    have eq: "?s + 2 ^ w * of_bool (lit_val \<sigma> co) = ?a + (2 ^ w - ?b)"
      using 2(7) [OF sat] 1(5) [OF extends_sat [OF 2(2) sat]] less(2) by (simp add: word_val_negated b)
    show "lit_val \<sigma> co = (?b \<le> ?a) \<and> ?s = (?a + (2 ^ w - ?b)) mod 2 ^ w"
    proof
      show "lit_val \<sigma> co = (?b \<le> ?a)" using eq less by (cases "lit_val \<sigma> co") auto
      have "(?a + (2 ^ w - ?b)) mod 2 ^ w = ?s mod 2 ^ w" by (metis eq mod_mult_self2)
      then show "?s = (?a + (2 ^ w - ?b)) mod 2 ^ w" using less(3) by simp
    qed
  qed (rule 2(3-6))+
qed

lemma sub_computes:
  assumes "cnf_wf c" and "list_all (in_range c) a" "length a = w"
    and "list_all (in_range c) b" "length b = w"
  shows "computes_word c (sub a b c) w (\<lambda>\<sigma>. (word_val \<sigma> a + (2 ^ w - word_val \<sigma> b)) mod 2 ^ w)"
  by (rule sub_with_borrow_correct [OF assms]) (simp add: sub_def computes_word_def)

lemma negate_computes:
  assumes wf: "cnf_wf c" and a: "list_all (in_range c) a" "length a = w"
  shows "computes_word c (negate a c) w (\<lambda>\<sigma>. (2 ^ w - word_val \<sigma> a) mod 2 ^ w)"
proof -
  obtain z c1 where 1: "lit_false c = (z, c1)" "extends c c1" "cnf_wf c1" "in_range c1 z"
      "\<And>\<sigma>. cnf_sat \<sigma> (clauses c1) \<Longrightarrow> lit_val \<sigma> z = False"
    by (rule computesE [OF lit_false_computes [OF wf]]) blast
  obtain t c2 where 2: "lit_true c1 = (t, c2)" "extends c1 c2" "cnf_wf c2" "in_range c2 t"
      "\<And>\<sigma>. cnf_sat \<sigma> (clauses c2) \<Longrightarrow> lit_val \<sigma> t = True"
    by (rule computesE [OF lit_true_computes [OF 1(3)]]) blast
  have rng: "list_all (in_range c2) (map negated a)" "list_all (in_range c2) (replicate w z)"
    using a extends_in_range_all [OF extends_trans [OF 1(2) 2(2)]] extends_in_range [OF 2(2) 1(4)]
    by (auto simp: list_all_iff)
  obtain s co c3 where 3: "adder (map negated a) (replicate w z) t c2 = ((s, co), c3)" "extends c2 c3"
      "length s = w" "list_all (in_range c3) s"
      "\<And>\<sigma>. cnf_sat \<sigma> (clauses c3) \<Longrightarrow>
        word_val \<sigma> s + 2 ^ w * of_bool (lit_val \<sigma> co) =
        word_val \<sigma> (map negated a) + word_val \<sigma> (replicate w z) + of_bool (lit_val \<sigma> t)"
    by (rule adder_correct [OF 2(3) rng 2(4)]) (use a in auto)
  have "word_val \<sigma> s = (2 ^ w - word_val \<sigma> a) mod 2 ^ w" if sat: "cnf_sat \<sigma> (clauses c3)" for \<sigma>
  proof -
    note sat2 = extends_sat [OF 3(2) sat]
    have "word_val \<sigma> s + 2 ^ w * of_bool (lit_val \<sigma> co) = 2 ^ w - word_val \<sigma> a"
      using 3(5) [OF sat] 1(5) [OF extends_sat [OF 2(2) sat2]] 2(5) [OF sat2] word_val_less [OF a(2), of \<sigma>]
      by (simp add: word_val_negated word_val_replicate_False a)
    then have "(2 ^ w - word_val \<sigma> a) mod 2 ^ w = word_val \<sigma> s mod 2 ^ w" by (metis mod_mult_self2)
    then show ?thesis using word_val_less [OF 3(3)] by simp
  qed
  then show ?thesis
    using 3 extends_trans [OF 1(2) extends_trans [OF 2(2) 3(2)]]
    by (simp add: computes_word_def negate_def 1(1) 2(1) a)
qed

lemma mux_vec_computes:
  assumes wf: "cnf_wf c" and s: "in_range c s" and a: "list_all (in_range c) a" "length a = w"
    and b: "list_all (in_range c) b" "length b = w"
  shows "computes_vec c (mux_vec s a b c) (\<lambda>\<sigma>. map (lit_val \<sigma>) (if lit_val \<sigma> s then a else b))"
    and "computes_word c (mux_vec s a b c) w (\<lambda>\<sigma>. if lit_val \<sigma> s then word_val \<sigma> a else word_val \<sigma> b)"
proof -
  have "computes_vec c (mux_vec s a b c)
      (\<lambda>\<sigma>. map (\<lambda>p. if lit_val \<sigma> s then lit_val \<sigma> (fst p) else lit_val \<sigma> (snd p)) (zip a b))"
    unfolding mux_vec_def
  proof (rule computes_map_st [OF wf], goal_cases)
    case (1 p c')
    have "fst p \<in> set a" "snd p \<in> set b"
      using 1(1) by (metis prod.collapse set_zip_leftD, metis prod.collapse set_zip_rightD)
    then have "in_range c' s" "in_range c' (fst p)" "in_range c' (snd p)"
      using s a(1) b(1) extends_in_range [OF 1(2)] by (simp_all add: list_all_iff)
    then show ?case using mux_computes extends_wf [OF 1(2)] by (simp add: case_prod_beta)
  qed
  moreover have "map (\<lambda>p. if lit_val \<sigma> s then lit_val \<sigma> (fst p) else lit_val \<sigma> (snd p)) (zip a b)
      = map (lit_val \<sigma>) (if lit_val \<sigma> s then a else b)" for \<sigma>
    by (rule nth_equalityI) (simp_all add: a b)
  ultimately show vec: "computes_vec c (mux_vec s a b c)
      (\<lambda>\<sigma>. map (lit_val \<sigma>) (if lit_val \<sigma> s then a else b))" by simp
  have "length (fst (mux_vec s a b c)) = w"
    using length_map_st [of "\<lambda>(x, y). mux s x y" "zip a b" c] a(2) b(2)
    by (simp add: mux_vec_def) (metis prod.collapse)
  with vec show "computes_word c (mux_vec s a b c) w
      (\<lambda>\<sigma>. if lit_val \<sigma> s then word_val \<sigma> a else word_val \<sigma> b)"
    by (simp add: computes_word_def computes_vec_def word_val_def)
qed

section \<open>Multiplication\<close>

lemma computes_word_refl:
  "cnf_wf c \<Longrightarrow> list_all (in_range c) ls \<Longrightarrow> length ls = w \<Longrightarrow>
    (\<And>\<sigma>. cnf_sat \<sigma> (clauses c) \<Longrightarrow> word_val \<sigma> ls = f \<sigma>) \<Longrightarrow> computes_word c (ls, c) w f"
  by (simp add: computes_word_def)

lemma computes_word_step:
  assumes "extends c c1" and "computes_word c1 r w g"
    and "\<And>\<sigma>. cnf_sat \<sigma> (clauses c1) \<Longrightarrow> g \<sigma> = f \<sigma>"
  shows "computes_word c r w f"
  using assms extends_trans extends_sat unfolding computes_word_def by metis

lemma computes_word_cong:
  assumes "computes_word c r w f" and "\<And>\<sigma>. f \<sigma> = g \<sigma>"
  shows "computes_word c r w g"
  using assms by (simp add: computes_word_def)

lemma take_drop_word: "word_val \<sigma> ls = word_val \<sigma> (take k ls) + 2 ^ min (length ls) k * word_val \<sigma> (drop k ls)"
  by (metis append_take_drop_id length_take word_val_simps(3))

lemma partial_product_computes:
  assumes wf: "cnf_wf c" and z: "in_range c zero" "\<And>\<sigma>. cnf_sat \<sigma> (clauses c) \<Longrightarrow> \<not> lit_val \<sigma> zero"
    and a: "list_all (in_range c) a" "length a = w" and bj: "in_range c bj" and "j \<le> w"
  shows "computes_word c (partial_product zero a j bj c) w
      (\<lambda>\<sigma>. (2 ^ j * word_val \<sigma> a * of_bool (lit_val \<sigma> bj)) mod 2 ^ w)"
proof -
  have "computes_vec c (map_st (\<lambda>ai. and2 ai bj) (take (w - j) a) c)
      (\<lambda>\<sigma>. map (\<lambda>ai. lit_val \<sigma> ai \<and> lit_val \<sigma> bj) (take (w - j) a))"
  proof (rule computes_map_st [OF wf], goal_cases)
    case (1 x c')
    then have "in_range c x" using a(1) by (auto simp: list_all_iff dest: in_set_takeD)
    with 1 bj show ?case by (intro and2_computes) (auto intro: extends_wf extends_in_range)
  qed
  then obtain hi c1 where 1: "map_st (\<lambda>ai. and2 ai bj) (take (w - j) a) c = (hi, c1)" "extends c c1"
      "list_all (in_range c1) hi"
      "\<And>\<sigma>. cnf_sat \<sigma> (clauses c1) \<Longrightarrow>
        map (lit_val \<sigma>) hi = map (\<lambda>ai. lit_val \<sigma> ai \<and> lit_val \<sigma> bj) (take (w - j) a)"
    by (rule computes_vecE) blast
  have len: "length hi = w - j" using length_map_st [OF 1(1)] a(2) by simp
  have "word_val \<sigma> (replicate j zero @ hi) = (2 ^ j * word_val \<sigma> a * of_bool (lit_val \<sigma> bj)) mod 2 ^ w"
    if "cnf_sat \<sigma> (clauses c1)" for \<sigma>
  proof -
    have "word_val \<sigma> hi = word_val \<sigma> (take (w - j) a) * of_bool (lit_val \<sigma> bj)"
      using 1(4) [OF that] by (cases "lit_val \<sigma> bj") (simp_all add: word_val_def map_replicate_const)
    moreover have "word_val \<sigma> (take (w - j) a) = word_val \<sigma> a mod 2 ^ (w - j)"
      using take_drop_word [of \<sigma> a "w - j"] word_val_less [of "take (w - j) a" "w - j" \<sigma>] a(2) by simp
    moreover have "2 ^ j * (word_val \<sigma> a mod 2 ^ (w - j)) = (2 ^ j * word_val \<sigma> a) mod 2 ^ w"
      using \<open>j \<le> w\<close> by (simp add: mult_mod_right flip: power_add)
    ultimately show ?thesis
      using z(2) [OF extends_sat [OF 1(2) that]] by (simp add: word_val_replicate_False)
  qed
  then show ?thesis
    using 1 \<open>j \<le> w\<close> a(2) len z(1) extends_in_range [OF 1(2)]
    by (auto simp add: partial_product_def computes_word_def list_all_iff)
qed

lemma mul_loop_computes:
  assumes "cnf_wf c" and "in_range c zero" and "\<And>\<sigma>. cnf_sat \<sigma> (clauses c) \<Longrightarrow> \<not> lit_val \<sigma> zero"
    and a: "list_all (in_range c) a" "length a = w" and "list_all (in_range c) acc" "length acc = w"
    and "list_all (in_range c) bs" and "j + length bs \<le> w"
  shows "computes_word c (mul_loop zero a bs j acc c) w
      (\<lambda>\<sigma>. (word_val \<sigma> acc + 2 ^ j * word_val \<sigma> a * word_val \<sigma> bs) mod 2 ^ w)"
  using assms
proof (induction bs arbitrary: j acc c)
  case Nil
  then show ?case
    by (auto intro!: computes_word_refl simp: word_val_less)
next
  case (Cons b bs)
  have rng: "in_range c b" "list_all (in_range c) bs" "j \<le> w" using Cons.prems(8,9) by simp_all
  obtain pp c1 where 1: "partial_product zero a j b c = (pp, c1)" "extends c c1" "cnf_wf c1" "length pp = w"
      "list_all (in_range c1) pp"
      "\<And>\<sigma>. cnf_sat \<sigma> (clauses c1) \<Longrightarrow>
        word_val \<sigma> pp = (2 ^ j * word_val \<sigma> a * of_bool (lit_val \<sigma> b)) mod 2 ^ w"
    by (rule computes_wordE [OF partial_product_computes [OF Cons.prems(1-5) rng(1,3)]]) auto
  note r1 = extends_in_range_all [OF 1(2)]
  obtain acc' c2 where 2: "add acc pp c1 = (acc', c2)" "extends c1 c2" "cnf_wf c2" "length acc' = w"
      "list_all (in_range c2) acc'"
      "\<And>\<sigma>. cnf_sat \<sigma> (clauses c2) \<Longrightarrow> word_val \<sigma> acc' = (word_val \<sigma> acc + word_val \<sigma> pp) mod 2 ^ w"
    by (rule computes_wordE [OF add_computes [OF 1(3) r1 [OF Cons.prems(6)] Cons.prems(7) 1(5,4)]]) auto
  have ext: "extends c c2" by (rule extends_trans [OF 1(2) 2(2)])
  have "computes_word c2 (mul_loop zero a bs (Suc j) acc' c2) w
      (\<lambda>\<sigma>. (word_val \<sigma> acc' + 2 ^ Suc j * word_val \<sigma> a * word_val \<sigma> bs) mod 2 ^ w)"
    using Cons.prems rng(2) extends_in_range [OF ext] extends_in_range_all [OF ext] extends_sat [OF ext]
    by (intro Cons.IH) (simp_all add: 2)
  then show ?case
    unfolding mul_loop.simps 1(1) 2(1) Let_def prod.case
  proof (rule computes_word_step [OF ext])
    fix \<sigma> assume sat: "cnf_sat \<sigma> (clauses c2)"
    have "word_val \<sigma> acc' = (word_val \<sigma> acc + 2 ^ j * word_val \<sigma> a * of_bool (lit_val \<sigma> b)) mod 2 ^ w"
      using 2(6) [OF sat] 1(6) [OF extends_sat [OF 2(2) sat]] by (simp add: mod_add_right_eq)
    then show "(word_val \<sigma> acc' + 2 ^ Suc j * word_val \<sigma> a * word_val \<sigma> bs) mod 2 ^ w
        = (word_val \<sigma> acc + 2 ^ j * word_val \<sigma> a * word_val \<sigma> (b # bs)) mod 2 ^ w"
      by (simp only: mod_add_left_eq) (simp add: algebra_simps)
  qed
qed

lemma mul_computes:
  assumes wf: "cnf_wf c" and a: "list_all (in_range c) a" "length a = w"
    and b: "list_all (in_range c) b" "length b = w"
  shows "computes_word c (mul a b c) w (\<lambda>\<sigma>. (word_val \<sigma> a * word_val \<sigma> b) mod 2 ^ w)"
proof -
  obtain z c1 where 1: "lit_false c = (z, c1)" "extends c c1" "cnf_wf c1" "in_range c1 z"
      "\<And>\<sigma>. cnf_sat \<sigma> (clauses c1) \<Longrightarrow> lit_val \<sigma> z = False"
    by (rule computesE [OF lit_false_computes [OF wf]]) blast
  note r1 = extends_in_range_all [OF 1(2)]
  have "computes_word c1 (mul_loop z a b 0 (replicate w z) c1) w
      (\<lambda>\<sigma>. (word_val \<sigma> (replicate w z) + 2 ^ 0 * word_val \<sigma> a * word_val \<sigma> b) mod 2 ^ w)"
    using 1 r1 a b by (intro mul_loop_computes) (simp_all add: list_all_iff)
  then show ?thesis
    unfolding mul_def 1(1) a(2) Let_def prod.case
    by (rule computes_word_step [OF 1(2)]) (simp add: 1(5) word_val_replicate_False)
qed

section \<open>Division\<close>

text \<open>One step of restoring division, on numbers.\<close>

definition div_q :: "nat \<Rightarrow> nat \<Rightarrow> nat \<Rightarrow> nat" where
  "div_q k b n = (if b = 0 then 2 ^ k - 1 else n div b)"

definition div_r :: "nat \<Rightarrow> nat \<Rightarrow> nat" where
  "div_r b n = (if b = 0 then n else n mod b)"

lemma div_step:
  assumes "d < 2"
  shows "div_r b (2 * n + d) = (let s = 2 * div_r b n + d in if b \<le> s then s - b else s)"
    and "div_q (Suc k) b (2 * n + d) = of_bool (b \<le> 2 * div_r b n + d) + 2 * div_q k b n"
proof -
  define q r where "q = n div b" and "r = n mod b"
  have n: "n = q * b + r" by (simp add: q_def r_def)
  have "div_r b (2 * n + d) = (let s = 2 * div_r b n + d in if b \<le> s then s - b else s) \<and>
        div_q (Suc k) b (2 * n + d) = of_bool (b \<le> 2 * div_r b n + d) + 2 * div_q k b n"
  proof (cases "b = 0")
    case True
    have "2 * (2 ^ k - 1 :: nat) + 1 = 2 * 2 ^ k - 1" using one_le_power [of "2::nat" k] by arith
    with True show ?thesis by (simp add: div_r_def div_q_def)
  next
    case False
    then have r: "r < b" by (simp add: r_def)
    define s where "s = 2 * r + d"
    have eq: "2 * n + d = s + 2 * q * b" by (simp add: n s_def algebra_simps)
    have s: "s < 2 * b" using r assms by (simp add: s_def)
    have "(2 * n + d) mod b = s mod b" "(2 * n + d) div b = 2 * q + s div b"
      using False by (simp_all add: eq)
    moreover have "s div b = of_bool (b \<le> s)"
    proof (cases "b \<le> s")
      case True
      then have "s div b = Suc ((s - b) div b)" using False by (simp add: le_div_geq)
      with True s show ?thesis by simp
    qed simp
    moreover have "s mod b = (if b \<le> s then s - b else s)"
      using s by (simp add: le_mod_geq)
    ultimately show ?thesis using False by (simp add: div_r_def div_q_def r_def [symmetric] q_def [symmetric] s_def Let_def)
  qed
  then show "div_r b (2 * n + d) = (let s = 2 * div_r b n + d in if b \<le> s then s - b else s)"
    and "div_q (Suc k) b (2 * n + d) = of_bool (b \<le> 2 * div_r b n + d) + 2 * div_q k b n" by simp_all
qed

lemma div_r_less: "b < 2 ^ w \<Longrightarrow> n < 2 ^ w \<Longrightarrow> div_r b n < 2 ^ w"
  by (simp add: div_r_def) (meson mod_less_eq_dividend order_le_less_trans)

lemma udivrem_loop_correct:
  assumes "cnf_wf c" and "list_all (in_range c) bext" and "length bext = Suc w"
    and "list_all (in_range c) as" and "list_all (in_range c) rem" and "length rem = w"
    and "list_all (in_range c) quot" and "length as + length quot = w"
    and "\<And>\<sigma>. cnf_sat \<sigma> (clauses c) \<Longrightarrow>
      word_val \<sigma> bext < 2 ^ w \<and> n \<sigma> < 2 ^ length quot \<and> word_val \<sigma> rem = div_r (word_val \<sigma> bext) (n \<sigma>) \<and>
      word_val \<sigma> quot = div_q (length quot) (word_val \<sigma> bext) (n \<sigma>)"
  obtains q r c' where "udivrem_loop bext w as rem quot c = ((q, r), c')" and "extends c c'" and "cnf_wf c'"
    and "length q = w" and "length r = w" and "list_all (in_range c') q" and "list_all (in_range c') r"
    and "\<And>\<sigma>. cnf_sat \<sigma> (clauses c') \<Longrightarrow>
      (let m = n \<sigma> * 2 ^ length as + word_val \<sigma> (rev as)
       in word_val \<sigma> r = div_r (word_val \<sigma> bext) m \<and> word_val \<sigma> q = div_q w (word_val \<sigma> bext) m)"
  using assms
proof (induction as arbitrary: rem quot c n thesis)
  case Nil
  show ?case
    by (rule Nil(1) [of quot rem c]) (use Nil(2-) in auto)
next
  case (Cons x as)
  note prems = Cons.prems(2-)
  have rngs: "list_all (in_range c) (x # rem)" "length (x # rem) = Suc w" using prems by simp_all
  obtain d co c1 where 1: "sub_with_borrow (x # rem) bext c = ((d, co), c1)" "extends c c1" "cnf_wf c1"
      "length d = Suc w" "list_all (in_range c1) d" "in_range c1 co"
      "\<And>\<sigma>. cnf_sat \<sigma> (clauses c1) \<Longrightarrow>
        lit_val \<sigma> co = (word_val \<sigma> bext \<le> word_val \<sigma> (x # rem)) \<and>
        word_val \<sigma> d = (word_val \<sigma> (x # rem) + (2 ^ Suc w - word_val \<sigma> bext)) mod 2 ^ Suc w"
    by (rule sub_with_borrow_correct [OF prems(1) rngs prems(2,3)]) auto
  note r1 = extends_in_range_all [OF 1(2)]
  obtain nr c2 where 2: "mux_vec co d (x # rem) c1 = (nr, c2)" "extends c1 c2" "cnf_wf c2" "length nr = Suc w"
      "list_all (in_range c2) nr"
      "\<And>\<sigma>. cnf_sat \<sigma> (clauses c2) \<Longrightarrow>
        word_val \<sigma> nr = (if lit_val \<sigma> co then word_val \<sigma> d else word_val \<sigma> (x # rem))"
    by (rule computes_wordE [OF mux_vec_computes(2) [OF 1(3,6,5,4) r1 [OF rngs(1)] rngs(2)]]) auto
  have ext: "extends c c2" by (rule extends_trans [OF 1(2) 2(2)])
  define n' where "n' \<sigma> = 2 * n \<sigma> + of_bool (lit_val \<sigma> x)" for \<sigma>
  have inv: "word_val \<sigma> bext < 2 ^ w \<and> n' \<sigma> < 2 ^ length (co # quot) \<and>
      word_val \<sigma> (take w nr) = div_r (word_val \<sigma> bext) (n' \<sigma>) \<and>
      word_val \<sigma> (co # quot) = div_q (length (co # quot)) (word_val \<sigma> bext) (n' \<sigma>)"
    if sat: "cnf_sat \<sigma> (clauses c2)" for \<sigma>
  proof -
    let ?b = "word_val \<sigma> bext" and ?s = "word_val \<sigma> (x # rem)"
    note sat1 = extends_sat [OF 2(2) sat] and sat0 = extends_sat [OF ext sat]
    have b: "?b < 2 ^ w" and n: "n \<sigma> < 2 ^ length quot" and rem: "word_val \<sigma> rem = div_r ?b (n \<sigma>)"
      and quot: "word_val \<sigma> quot = div_q (length quot) ?b (n \<sigma>)"
      using prems(9) [OF sat0] by auto
    have s: "?s = 2 * div_r ?b (n \<sigma>) + of_bool (lit_val \<sigma> x)" "?s < 2 ^ Suc w"
      using rem word_val_less [OF rngs(2), of \<sigma>] by simp_all
    have n': "n' \<sigma> < 2 ^ length (co # quot)" using n by (simp add: n'_def)
    have co: "lit_val \<sigma> co = (?b \<le> ?s)" and d: "?b \<le> ?s \<Longrightarrow> word_val \<sigma> d = ?s - ?b"
    proof -
      show "lit_val \<sigma> co = (?b \<le> ?s)" using 1(7) [OF sat1] by simp
      assume "?b \<le> ?s"
      then have "?s + (2 ^ Suc w - ?b) = (?s - ?b) + 2 ^ Suc w" using b by simp
      moreover have "word_val \<sigma> d = (?s + (2 ^ Suc w - ?b)) mod 2 ^ Suc w" using 1(7) [OF sat1] by blast
      ultimately show "word_val \<sigma> d = ?s - ?b" using s(2) by simp
    qed
    have lt: "of_bool (lit_val \<sigma> x) < (2::nat)" by simp
    have "word_val \<sigma> nr = (if ?b \<le> ?s then ?s - ?b else ?s)" using 2(6) [OF sat] co d by simp
    also have "\<dots> = div_r ?b (n' \<sigma>)"
      by (simp only: n'_def div_step(1) [OF lt] Let_def s(1))
    finally have nr: "word_val \<sigma> nr = div_r ?b (n' \<sigma>)" .
    have "(2::nat) ^ length (co # quot) \<le> 2 ^ w" using prems(8) by (intro power_increasing) simp_all
    then have "word_val \<sigma> nr < 2 ^ w" using nr div_r_less [OF b] n' by simp
    moreover have "word_val \<sigma> nr = word_val \<sigma> (take w nr) + 2 ^ w * word_val \<sigma> (drop w nr)"
      using take_drop_word [of \<sigma> nr w] 2(4) by simp
    ultimately have "word_val \<sigma> (take w nr) = word_val \<sigma> nr" by (cases "word_val \<sigma> (drop w nr)") auto
    moreover have "word_val \<sigma> (co # quot) = div_q (length (co # quot)) ?b (n' \<sigma>)"
      by (simp only: n'_def list.size add_Suc_right add_0_right div_step(2) [OF lt] word_val_simps(2) co s(1) [symmetric] quot)
    ultimately show ?thesis using b n' nr by simp
  qed
  obtain q r c' where 3: "udivrem_loop bext w as (take w nr) (co # quot) c2 = ((q, r), c')"
    "extends c2 c'" "cnf_wf c'" "length q = w" "length r = w" "list_all (in_range c') q" "list_all (in_range c') r"
    "\<And>\<sigma>. cnf_sat \<sigma> (clauses c') \<Longrightarrow>
      (let m = n' \<sigma> * 2 ^ length as + word_val \<sigma> (rev as)
       in word_val \<sigma> r = div_r (word_val \<sigma> bext) m \<and> word_val \<sigma> q = div_q w (word_val \<sigma> bext) m)"
  proof (rule Cons.IH [OF _ 2(3) _ prems(3) _ _ _ _ _ inv])
    show "list_all (in_range c2) bext" "list_all (in_range c2) as" "list_all (in_range c2) (co # quot)"
      using prems extends_in_range_all [OF ext] extends_in_range [OF 2(2) 1(6)] by auto
    show "list_all (in_range c2) (take w nr)" using 2(5) by (auto simp: list_all_iff dest: in_set_takeD)
    show "length (take w nr) = w" "length as + length (co # quot) = w" using 2(4) prems(8) by simp_all
  qed (use prems in auto)
  show ?case
  proof (rule Cons.prems(1) [OF _ _ 3(3-7)])
    show "udivrem_loop bext w (x # as) rem quot c = ((q, r), c')" by (simp add: 1(1) 2(1) 3(1))
    show "extends c c'" by (rule extends_trans [OF ext 3(2)])
    fix \<sigma> assume "cnf_sat \<sigma> (clauses c')"
    from 3(8) [OF this] show "(let m = n \<sigma> * 2 ^ length (x # as) + word_val \<sigma> (rev (x # as))
       in word_val \<sigma> r = div_r (word_val \<sigma> bext) m \<and> word_val \<sigma> q = div_q w (word_val \<sigma> bext) m)"
      by (simp add: n'_def algebra_simps Let_def)
  qed
qed

lemma udivrem_correct:
  assumes wf: "cnf_wf c" and a: "list_all (in_range c) a" "length a = w"
    and b: "list_all (in_range c) b" "length b = w"
  obtains q r c' where "udivrem a b c = ((q, r), c')" and "extends c c'" and "cnf_wf c'"
    and "length q = w" and "length r = w" and "list_all (in_range c') q" and "list_all (in_range c') r"
    and "\<And>\<sigma>. cnf_sat \<sigma> (clauses c') \<Longrightarrow>
      word_val \<sigma> q = bin_den UDiv w (word_val \<sigma> a) (word_val \<sigma> b) \<and>
      word_val \<sigma> r = bin_den URem w (word_val \<sigma> a) (word_val \<sigma> b)"
proof -
  obtain z c1 where 1: "lit_false c = (z, c1)" "extends c c1" "cnf_wf c1" "in_range c1 z"
      "\<And>\<sigma>. cnf_sat \<sigma> (clauses c1) \<Longrightarrow> lit_val \<sigma> z = False"
    by (rule computesE [OF lit_false_computes [OF wf]]) blast
  note r1 = extends_in_range_all [OF 1(2)]
  obtain q r c' where 2: "udivrem_loop (b @ [z]) w (rev a) (replicate w z) [] c1 = ((q, r), c')"
    "extends c1 c'" "cnf_wf c'" "length q = w" "length r = w" "list_all (in_range c') q" "list_all (in_range c') r"
    "\<And>\<sigma>. cnf_sat \<sigma> (clauses c') \<Longrightarrow>
      (let m = 0 * 2 ^ length (rev a) + word_val \<sigma> (rev (rev a))
       in word_val \<sigma> r = div_r (word_val \<sigma> (b @ [z])) m \<and> word_val \<sigma> q = div_q w (word_val \<sigma> (b @ [z])) m)"
    by (rule udivrem_loop_correct [of c1 "b @ [z]" w "rev a" "replicate w z" "[]" "\<lambda>_. 0"])
      (use 1 r1 [OF a(1)] r1 [OF b(1)] a(2) b(2) word_val_less in
        \<open>auto simp: list_all_iff word_val_replicate_False div_r_def div_q_def\<close>)
  show thesis
  proof (rule that [OF _ _ 2(3-7)])
    show "udivrem a b c = ((q, r), c')" using 2(1) by (simp add: udivrem_def 1(1) a)
    show "extends c c'" by (rule extends_trans [OF 1(2) 2(2)])
    fix \<sigma> assume sat: "cnf_sat \<sigma> (clauses c')"
    then show "word_val \<sigma> q = bin_den UDiv w (word_val \<sigma> a) (word_val \<sigma> b) \<and>
        word_val \<sigma> r = bin_den URem w (word_val \<sigma> a) (word_val \<sigma> b)"
      using 2(8) [OF sat] 1(5) [OF extends_sat [OF 2(2) sat]]
      by (simp add: Let_def bin_den_def div_q_def div_r_def)
  qed
qed

lemma sign_bit:
  assumes "length bs = w" and "0 < w"
  shows "bs ! (w - 1) \<longleftrightarrow> 2 ^ (w - 1) \<le> bits_val bs"
proof -
  have ne: "bs \<noteq> []" using assms by auto
  then have last: "bs ! (w - 1) = last bs" using assms by (simp add: last_conv_nth)
  have "bits_val bs = bits_val (butlast bs) + 2 ^ (w - 1) * of_bool (last bs)"
    using bits_val_append [of "butlast bs" "[last bs]"] ne assms by simp
  moreover have "bits_val (butlast bs) < 2 ^ (w - 1)"
    using bits_val_less [of "butlast bs"] assms by simp
  ultimately show ?thesis unfolding last by (cases "last bs") auto
qed

lemma word_sign:
  assumes "length ls = w" and "0 < w"
  shows "lit_val \<sigma> (ls ! (w - 1)) \<longleftrightarrow> to_signed w (word_val \<sigma> ls) < 0"
proof -
  have "lit_val \<sigma> (ls ! (w - 1)) = map (lit_val \<sigma>) ls ! (w - 1)" using assms by simp
  also have "\<dots> \<longleftrightarrow> 2 ^ (w - 1) \<le> word_val \<sigma> ls"
    using sign_bit [of "map (lit_val \<sigma>) ls" w] assms by (simp add: word_val_def)
  also have "\<dots> \<longleftrightarrow> to_signed w (word_val \<sigma> ls) < 0"
    using word_val_less [OF assms(1), of \<sigma>] by (auto simp: to_signed_def)
  finally show ?thesis .
qed

lemma from_int_uminus:
  assumes "n \<le> 2 ^ w"
  shows "from_int w (- int n) = (2 ^ w - n) mod 2 ^ w"
proof -
  have "from_int w (- int n) = from_int w (int (2 ^ w - n))"
    using assms by (intro from_int_cong) (simp add: of_nat_diff)
  then show ?thesis by (simp add: from_int_def nat_mod_distrib nat_power_eq)
qed

lemma nat_abs_to_signed:
  assumes "n < 2 ^ w" and "0 < w"
  shows "nat \<bar>to_signed w n\<bar> = (if to_signed w n < 0 then 2 ^ w - n else n)"
    and "nat \<bar>to_signed w n\<bar> < 2 ^ w"
proof -
  have "int n < 2 ^ w" using assms by simp
  moreover have "int (2 ^ w - n) = 2 ^ w - int n" using assms by (simp add: of_nat_diff)
  moreover have "to_signed w n < 0 \<Longrightarrow> 0 < n"
    by (cases "n = 0") (auto simp: to_signed_def split: if_splits)
  ultimately show "nat \<bar>to_signed w n\<bar> = (if to_signed w n < 0 then 2 ^ w - n else n)"
      and "nat \<bar>to_signed w n\<bar> < 2 ^ w"
    by (auto simp: to_signed_def nat_eq_iff split: if_splits)
qed

lemma abs_sign_correct:
  assumes wf: "cnf_wf c" and a: "list_all (in_range c) a" "length a = w" and "0 < w"
  obtains m s c' where "abs_sign a c = ((m, s), c')" and "extends c c'" and "cnf_wf c'"
    and "length m = w" and "list_all (in_range c') m" and "in_range c' s"
    and "\<And>\<sigma>. cnf_sat \<sigma> (clauses c') \<Longrightarrow>
      word_val \<sigma> m = nat \<bar>to_signed w (word_val \<sigma> a)\<bar> \<and> lit_val \<sigma> s = (to_signed w (word_val \<sigma> a) < 0)"
proof -
  obtain na c1 where 1: "negate a c = (na, c1)" "extends c c1" "cnf_wf c1" "length na = w"
      "list_all (in_range c1) na"
      "\<And>\<sigma>. cnf_sat \<sigma> (clauses c1) \<Longrightarrow> word_val \<sigma> na = (2 ^ w - word_val \<sigma> a) mod 2 ^ w"
    by (rule computes_wordE [OF negate_computes [OF wf a]]) auto
  let ?s = "a ! (w - 1)"
  have s: "in_range c1 ?s" "list_all (in_range c1) a"
    using a \<open>0 < w\<close> extends_in_range_all [OF 1(2) a(1)] by (auto simp: list_all_length)
  obtain m c2 where 2: "mux_vec ?s na a c1 = (m, c2)" "extends c1 c2" "cnf_wf c2" "length m = w"
      "list_all (in_range c2) m"
      "\<And>\<sigma>. cnf_sat \<sigma> (clauses c2) \<Longrightarrow>
        word_val \<sigma> m = (if lit_val \<sigma> ?s then word_val \<sigma> na else word_val \<sigma> a)"
    by (rule computes_wordE [OF mux_vec_computes(2) [OF 1(3) s(1) 1(5,4) s(2) a(2)]]) auto
  show thesis
  proof (rule that [OF _ _ 2(3-5)])
    show "abs_sign a c = ((m, ?s), c2)" by (simp only: abs_sign_def 1(1) 2(1) a Let_def prod.case)
    show "extends c c2" by (rule extends_trans [OF 1(2) 2(2)])
    show "in_range c2 ?s" by (rule extends_in_range [OF 2(2) s(1)])
    fix \<sigma> assume sat: "cnf_sat \<sigma> (clauses c2)"
    let ?a = "word_val \<sigma> a"
    have sgn: "lit_val \<sigma> ?s = (to_signed w ?a < 0)" by (rule word_sign [OF a(2) \<open>0 < w\<close>])
    have less: "?a < 2 ^ w" by (rule word_val_less [OF a(2)])
    have "to_signed w ?a < 0 \<Longrightarrow> (2 ^ w - ?a) mod 2 ^ w = 2 ^ w - ?a"
      by (cases "?a = 0") (auto simp: to_signed_def)
    then show "word_val \<sigma> m = nat \<bar>to_signed w ?a\<bar> \<and> lit_val \<sigma> ?s = (to_signed w ?a < 0)"
      using 2(6) [OF sat] 1(6) [OF extends_sat [OF 2(2) sat]] sgn nat_abs_to_signed(1) [OF less \<open>0 < w\<close>]
      by simp
  qed
qed

text \<open>Dividing magnitudes and fixing the sign is division rounding towards zero.\<close>

lemma signed_division_by_magnitudes:
  assumes w: "0 < w" and x: "x < 2 ^ w" and y: "y < 2 ^ w"
  defines "sx \<equiv> to_signed w x" and "sy \<equiv> to_signed w y"
  defines "q \<equiv> bin_den UDiv w (nat \<bar>sx\<bar>) (nat \<bar>sy\<bar>)" and "r \<equiv> bin_den URem w (nat \<bar>sx\<bar>) (nat \<bar>sy\<bar>)"
  shows "(if (sx < 0) \<noteq> (sy < 0) then (2 ^ w - q) mod 2 ^ w else q) = bin_den SDiv w x y"
    and "(if sx < 0 then (2 ^ w - r) mod 2 ^ w else r) = bin_den SRem w x y"
proof -
  note mx = nat_abs_to_signed(2) [OF x w, folded sx_def]
  note my = nat_abs_to_signed(2) [OF y w, folded sy_def]
  have q: "q < 2 ^ w" and r: "r < 2 ^ w" unfolding q_def r_def by (rule bin_den_less [OF mx my])+
  have y0: "sy = 0 \<longleftrightarrow> y = 0" unfolding sy_def by (rule to_signed_eq_0 [OF y])
  have one: "Suc 0 < 2 ^ w" using w one_less_power [of "2::nat" w] by simp
  have neg: "from_int w (- int n) = (2 ^ w - n) mod 2 ^ w" and pos: "from_int w (int n) = n" if "n < 2 ^ w" for n
    using that by (simp_all add: from_int_uminus from_int_of_nat)
  have x_back: "from_int w sx = x" unfolding sx_def by (rule from_int_to_signed [OF x])
  show "(if (sx < 0) \<noteq> (sy < 0) then (2 ^ w - q) mod 2 ^ w else q) = bin_den SDiv w x y"
  proof (cases "y = 0")
    case True
    then show ?thesis
      using y0 one unfolding q_def bin_den_def sx_def [symmetric] sy_def [symmetric] Let_def
      by (auto simp: Suc_diff_Suc)
  next
    case False
    then have q_eq: "int q = \<bar>sx\<bar> div \<bar>sy\<bar>"
      using y0 unfolding q_def bin_den_def by (simp add: zdiv_int)
    have "trunc_div sx sy = (if (sx < 0) \<noteq> (sy < 0) then - int q else int q)"
      unfolding trunc_div_def q_eq using y0 False by (auto simp: sgn_if)
    then show ?thesis
      using False neg [OF q] pos [OF q] unfolding bin_den_def sx_def [symmetric] sy_def [symmetric] Let_def by simp
  qed
  show "(if sx < 0 then (2 ^ w - r) mod 2 ^ w else r) = bin_den SRem w x y"
  proof (cases "y = 0")
    case True
    then have "int r = \<bar>sx\<bar>" using y0 unfolding r_def bin_den_def by simp
    then have "from_int w (if sx < 0 then - int r else int r) = x" using x_back by simp
    then show ?thesis using True neg [OF r] pos [OF r] by (simp add: bin_den_def split: if_splits)
  next
    case False
    then have r_eq: "int r = \<bar>sx\<bar> mod \<bar>sy\<bar>"
      using y0 unfolding r_def bin_den_def by (simp add: zmod_int)
    have "trunc_rem sx sy = (if sx < 0 then - int r else int r)"
      unfolding trunc_rem_def r_eq by (auto simp: sgn_if)
    then show ?thesis
      using False neg [OF r] pos [OF r] unfolding bin_den_def sx_def [symmetric] sy_def [symmetric] Let_def by simp
  qed
qed

lemma sdivrem_correct:
  assumes wf: "cnf_wf c" and a: "list_all (in_range c) a" "length a = w"
    and b: "list_all (in_range c) b" "length b = w" and "0 < w"
  obtains q r c' where "sdivrem a b c = ((q, r), c')" and "extends c c'" and "cnf_wf c'"
    and "length q = w" and "length r = w" and "list_all (in_range c') q" and "list_all (in_range c') r"
    and "\<And>\<sigma>. cnf_sat \<sigma> (clauses c') \<Longrightarrow>
      word_val \<sigma> q = bin_den SDiv w (word_val \<sigma> a) (word_val \<sigma> b) \<and>
      word_val \<sigma> r = bin_den SRem w (word_val \<sigma> a) (word_val \<sigma> b)"
proof -
  let ?sx = "\<lambda>\<sigma>. to_signed w (word_val \<sigma> a)" and ?sy = "\<lambda>\<sigma>. to_signed w (word_val \<sigma> b)"
  obtain ma sa c1 where 1: "abs_sign a c = ((ma, sa), c1)" "extends c c1" "cnf_wf c1" "length ma = w"
      "list_all (in_range c1) ma" "in_range c1 sa"
      "\<And>\<sigma>. cnf_sat \<sigma> (clauses c1) \<Longrightarrow> word_val \<sigma> ma = nat \<bar>?sx \<sigma>\<bar> \<and> lit_val \<sigma> sa = (?sx \<sigma> < 0)"
    by (rule abs_sign_correct [OF wf a \<open>0 < w\<close>]) auto
  obtain mb sb c2 where 2: "abs_sign b c1 = ((mb, sb), c2)" "extends c1 c2" "cnf_wf c2" "length mb = w"
      "list_all (in_range c2) mb" "in_range c2 sb"
      "\<And>\<sigma>. cnf_sat \<sigma> (clauses c2) \<Longrightarrow> word_val \<sigma> mb = nat \<bar>?sy \<sigma>\<bar> \<and> lit_val \<sigma> sb = (?sy \<sigma> < 0)"
    by (rule abs_sign_correct [OF 1(3) extends_in_range_all [OF 1(2) b(1)] b(2) \<open>0 < w\<close>]) auto
  obtain uq ur c3 where 3: "udivrem ma mb c2 = ((uq, ur), c3)" "extends c2 c3" "cnf_wf c3"
      "length uq = w" "length ur = w" "list_all (in_range c3) uq" "list_all (in_range c3) ur"
      "\<And>\<sigma>. cnf_sat \<sigma> (clauses c3) \<Longrightarrow>
        word_val \<sigma> uq = bin_den UDiv w (word_val \<sigma> ma) (word_val \<sigma> mb) \<and>
        word_val \<sigma> ur = bin_den URem w (word_val \<sigma> ma) (word_val \<sigma> mb)"
    by (rule udivrem_correct [OF 2(3) extends_in_range_all [OF 2(2) 1(5)] 1(4) 2(5,4)]) auto
  have e13: "extends c1 c3" by (rule extends_trans [OF 2(2) 3(2)])
  have sa3: "in_range c3 sa" "in_range c3 sb"
    using extends_in_range [OF e13 1(6)] extends_in_range [OF 3(2) 2(6)] by auto
  obtain qs c4 where 4: "xor2 sa sb c3 = (qs, c4)" "extends c3 c4" "cnf_wf c4" "in_range c4 qs"
      "\<And>\<sigma>. cnf_sat \<sigma> (clauses c4) \<Longrightarrow> lit_val \<sigma> qs = (lit_val \<sigma> sa \<noteq> lit_val \<sigma> sb)"
    by (rule computesE [OF xor2_computes [OF 3(3) sa3]]) blast
  note r4 = extends_in_range_all [OF 4(2)]
  obtain nq c5 where 5: "negate uq c4 = (nq, c5)" "extends c4 c5" "cnf_wf c5" "length nq = w"
      "list_all (in_range c5) nq"
      "\<And>\<sigma>. cnf_sat \<sigma> (clauses c5) \<Longrightarrow> word_val \<sigma> nq = (2 ^ w - word_val \<sigma> uq) mod 2 ^ w"
    by (rule computes_wordE [OF negate_computes [OF 4(3) r4 [OF 3(6)] 3(4)]]) auto
  note r5 = extends_in_range_all [OF 5(2)]
  obtain q c6 where 6: "mux_vec qs nq uq c5 = (q, c6)" "extends c5 c6" "cnf_wf c6" "length q = w"
      "list_all (in_range c6) q"
      "\<And>\<sigma>. cnf_sat \<sigma> (clauses c6) \<Longrightarrow>
        word_val \<sigma> q = (if lit_val \<sigma> qs then word_val \<sigma> nq else word_val \<sigma> uq)"
    by (rule computes_wordE [OF mux_vec_computes(2) [OF 5(3) extends_in_range [OF 5(2) 4(4)] 5(5,4) r5 [OF r4 [OF 3(6)]] 3(4)]]) auto
  have e36: "extends c3 c6" using 4(2) 5(2) 6(2) extends_trans by blast
  obtain nr c7 where 7: "negate ur c6 = (nr, c7)" "extends c6 c7" "cnf_wf c7" "length nr = w"
      "list_all (in_range c7) nr"
      "\<And>\<sigma>. cnf_sat \<sigma> (clauses c7) \<Longrightarrow> word_val \<sigma> nr = (2 ^ w - word_val \<sigma> ur) mod 2 ^ w"
    by (rule computes_wordE [OF negate_computes [OF 6(3) extends_in_range_all [OF e36 3(7)] 3(5)]]) auto
  have e37: "extends c3 c7" by (rule extends_trans [OF e36 7(2)])
  obtain r c8 where 8: "mux_vec sa nr ur c7 = (r, c8)" "extends c7 c8" "cnf_wf c8" "length r = w"
      "list_all (in_range c8) r"
      "\<And>\<sigma>. cnf_sat \<sigma> (clauses c8) \<Longrightarrow>
        word_val \<sigma> r = (if lit_val \<sigma> sa then word_val \<sigma> nr else word_val \<sigma> ur)"
    by (rule computes_wordE [OF mux_vec_computes(2) [OF 7(3) extends_in_range [OF e37 sa3(1)] 7(5,4)
          extends_in_range_all [OF e37 3(7)] 3(5)]]) auto
  have e68: "extends c6 c8" by (rule extends_trans [OF 7(2) 8(2)])
  have e38: "extends c3 c8" by (rule extends_trans [OF e36 e68])
  show thesis
  proof (rule that [OF _ _ 8(3) 6(4) 8(4) _ 8(5)])
    show "sdivrem a b c = ((q, r), c8)"
      by (simp add: sdivrem_def 1(1) 2(1) 3(1) 4(1) 5(1) 6(1) 7(1) 8(1))
    show "extends c c8" by (rule extends_trans [OF extends_trans [OF 1(2) e13] e38])
    show "list_all (in_range c8) q" by (rule extends_in_range_all [OF e68 6(5)])
    fix \<sigma> assume s8: "cnf_sat \<sigma> (clauses c8)"
    note s7 = extends_sat [OF 8(2) s8] and s6 = extends_sat [OF e68 s8] and s3 = extends_sat [OF e38 s8]
    note s5 = extends_sat [OF 6(2) s6]
    note s4 = extends_sat [OF 5(2) s5] and s2 = extends_sat [OF 3(2) s3]
    note s1 = extends_sat [OF 2(2) s2]
    have less: "word_val \<sigma> a < 2 ^ w" "word_val \<sigma> b < 2 ^ w" using word_val_less a(2) b(2) by blast+
    show "word_val \<sigma> q = bin_den SDiv w (word_val \<sigma> a) (word_val \<sigma> b) \<and>
      word_val \<sigma> r = bin_den SRem w (word_val \<sigma> a) (word_val \<sigma> b)"
      unfolding signed_division_by_magnitudes [OF \<open>0 < w\<close> less, symmetric]
      using 1(7) [OF s1] 2(7) [OF s2] 3(8) [OF s3] 4(5) [OF s4] 5(6) [OF s5] 6(6) [OF s6] 7(6) [OF s7] 8(6) [OF s8]
      by simp
  qed
qed

section \<open>Shifts\<close>

lemma length_shift_wire [simp]: "length (shift_wire op fill k xs) = length xs"
  by (simp add: shift_wire_def)

lemma nth_shift_wire:
  "i < length xs \<Longrightarrow> shift_wire op fill k xs ! i =
     (if op = Shl then (if k \<le> i then xs ! (i - k) else fill)
      else (if i + k < length xs then xs ! (i + k) else fill))"
  by (simp add: shift_wire_def)

lemma map_shift_wire: "map f (shift_wire op fill k xs) = shift_wire op (f fill) k (map f xs)"
  by (auto simp: shift_wire_def)

lemma shift_wire_compose:
  "shift_wire op fill j (shift_wire op fill k xs) = shift_wire op fill (j + k) xs"
  by (rule nth_equalityI) (auto simp: nth_shift_wire add.assoc)

lemma shift_wire_0 [simp]: "shift_wire op fill 0 xs = xs"
  by (rule nth_equalityI) (auto simp: nth_shift_wire)

lemma shift_wire_all: "length xs \<le> k \<Longrightarrow> shift_wire op fill k xs = replicate (length xs) fill"
  by (rule nth_equalityI) (auto simp: nth_shift_wire)

lemma set_shift_wire: "set (shift_wire op fill k xs) \<subseteq> insert fill (set xs)"
  by (auto simp: shift_wire_def)

lemma to_signed_eq_signed_take_bit:
  assumes "x < 2 ^ w" and "0 < w"
  shows "to_signed w x = signed_take_bit (w - 1) (int x)"
proof -
  have "take_bit w (int x) = int x" using assms by (simp add: take_bit_int_eq_self)
  moreover have "bit (int x) (w - 1) \<longleftrightarrow> \<not> x < 2 ^ (w - 1)"
  proof -
    obtain v where w: "w = Suc v" using assms(2) by (cases w) auto
    have "x div 2 ^ v < 2" using assms(1) by (simp add: w div_less_iff_less_mult)
    then have "odd (x div 2 ^ v) \<longleftrightarrow> 0 < x div 2 ^ v" by (cases "x div 2 ^ v" rule: nat.exhaust) auto
    then show ?thesis by (simp add: w bit_of_nat_iff_bit not_less) (simp add: bit_iff_odd div_greater_zero_iff)
  qed
  ultimately show ?thesis
    using assms(2) by (simp add: to_signed_def signed_take_bit_eq_take_bit_minus)
qed

lemma shift_wire_den:
  assumes len: "length bs = w" and "0 < w" and op: "op \<in> {Shl, LShr, AShr}"
  shows "bits_val (shift_wire op (op = AShr \<and> bs ! (w - 1)) k bs) = bin_den op w (bits_val bs) k"
proof (rule bits_val_eqI)
  have less: "bits_val bs < 2 ^ w" using bits_val_less [of bs] len by simp
  have "k < 2 ^ w \<or> w \<le> k" by (meson less_exp not_le order_less_trans)
  then show "bin_den op w (bits_val bs) k < 2 ^ w"
    using bin_den_less [OF less, of k op] op by (auto simp: bin_den_def)
  fix i assume i: "i < w"
  have bit: "bit (bits_val bs) n \<longleftrightarrow> n < w \<and> bs ! n" for n by (simp add: bit_bits_val len)
  consider "op = Shl" | "op = LShr" | "op = AShr" using op by blast
  then show "shift_wire op (op = AShr \<and> bs ! (w - 1)) k bs ! i \<longleftrightarrow> bit (bin_den op w (bits_val bs) k) i"
  proof cases
    case 1
    have "bits_val bs * 2 ^ k mod 2 ^ w = take_bit w (push_bit k (bits_val bs))"
      by (simp add: take_bit_eq_mod push_bit_eq_mult)
    then show ?thesis
      using 1 i len by (auto simp: nth_shift_wire bin_den_simps bit_take_bit_iff bit_push_bit_iff bit)
  next
    case 2
    have "bits_val bs div 2 ^ k = drop_bit k (bits_val bs)" by (simp add: drop_bit_eq_div)
    then show ?thesis
      using 2 i len by (auto simp: nth_shift_wire bin_den_simps bit_drop_bit_eq bit add.commute)
  next
    case 3
    let ?s = "to_signed w (bits_val bs)"
    have s: "bit ?s n \<longleftrightarrow> bs ! min (w - 1) n" for n
      using bit [of "min (w - 1) n"] min_less_iff_disj [of "w - 1" n w] \<open>0 < w\<close>
      by (simp add: to_signed_eq_signed_take_bit [OF less \<open>0 < w\<close>] bit_signed_take_bit_iff bit_of_nat_iff_bit)
    have neg: "?s < 0 \<longleftrightarrow> bs ! (w - 1)"
      using word_sign [of "map lit_pos [0..<w]" w "\<lambda>i. bs ! i"] \<open>0 < w\<close> len
      by (simp add: word_val_def lit_pos_def comp_def map_nth [of bs, unfolded len])
    have nat_bit: "bit (from_int w z) i \<longleftrightarrow> bit z i" for z
    proof -
      have "bit (int (from_int w z)) i \<longleftrightarrow> bit (take_bit w z) i"
        by (simp add: int_from_int take_bit_eq_mod)
      then show ?thesis using i by (simp add: bit_of_nat_iff_bit bit_take_bit_iff)
    qed
    have "bit (?s div 2 ^ k) i \<longleftrightarrow> bs ! min (w - 1) (k + i)"
      by (simp add: bit_drop_bit_eq s flip: drop_bit_eq_div)
    moreover have "min (w - 1) (k + i) = (if i + k < w then i + k else w - 1)" using i by auto
    ultimately show ?thesis
      using 3 i len neg by (auto simp: nth_shift_wire bin_den_simps nat_bit bit_minus_1_iff)
  qed
qed (simp add: len)

lemma barrel_step:
  assumes asm: "cnf_wf c" "in_range c fill" "list_all (in_range c) (b # bs)" "list_all (in_range c) x" "length x = w"
  obtains x' c' where "barrel op fill (b # bs) k x c = barrel op fill bs (Suc k) x' c'" and "extends c c'"
    and "cnf_wf c'" and "in_range c' fill" and "list_all (in_range c') bs" and "list_all (in_range c') x'"
    and "length x' = w"
    and "\<And>\<sigma>. cnf_sat \<sigma> (clauses c') \<Longrightarrow> map (lit_val \<sigma>) x'
        = shift_wire op (lit_val \<sigma> fill) (2 ^ k * of_bool (lit_val \<sigma> b)) (map (lit_val \<sigma>) x)"
proof -
  let ?sh = "shift_wire op fill (2 ^ k) x"
  have "list_all (in_range c) ?sh"
    using asm(2,4) set_shift_wire [of op fill "2 ^ k" x] by (auto simp: list_all_iff)
  moreover have "length ?sh = w" "in_range c b" using asm by simp_all
  ultimately have cv: "computes_vec c (mux_vec b ?sh x c) (\<lambda>\<sigma>. map (lit_val \<sigma>) (if lit_val \<sigma> b then ?sh else x))"
      and cw: "length (fst (mux_vec b ?sh x c)) = w"
    using mux_vec_computes [OF asm(1) _ _ _ asm(4,5)] by (auto simp: computes_word_def)
  obtain x' c' where r: "mux_vec b ?sh x c = (x', c')" by fastforce
  have ext: "extends c c'" using cv r by (simp add: computes_vec_def)
  have "map (lit_val \<sigma>) (if lit_val \<sigma> b then ?sh else x)
      = shift_wire op (lit_val \<sigma> fill) (2 ^ k * of_bool (lit_val \<sigma> b)) (map (lit_val \<sigma>) x)" for \<sigma>
    by (simp add: map_shift_wire)
  with cv cw r asm show thesis
    by (intro that [OF _ ext extends_wf [OF ext] extends_in_range [OF ext] extends_in_range_all [OF ext]])
      (auto simp: computes_vec_def)
qed

lemma barrel_computes:
  assumes "cnf_wf c" and "in_range c fill" and "list_all (in_range c) bs"
    and "list_all (in_range c) x" and "length x = w"
  shows "computes_vec c (barrel op fill bs k x c)
      (\<lambda>\<sigma>. shift_wire op (lit_val \<sigma> fill) (2 ^ k * word_val \<sigma> bs) (map (lit_val \<sigma>) x)) \<and>
    length (fst (barrel op fill bs k x c)) = w"
  using assms
proof (induction bs arbitrary: k x c)
  case Nil
  then show ?case by (simp add: computes_vec_def)
next
  case (Cons b bs)
  obtain x' c' where s: "barrel op fill (b # bs) k x c = barrel op fill bs (Suc k) x' c'" "extends c c'"
      "cnf_wf c'" "in_range c' fill" "list_all (in_range c') bs" "list_all (in_range c') x'" "length x' = w"
      "\<And>\<sigma>. cnf_sat \<sigma> (clauses c') \<Longrightarrow> map (lit_val \<sigma>) x'
        = shift_wire op (lit_val \<sigma> fill) (2 ^ k * of_bool (lit_val \<sigma> b)) (map (lit_val \<sigma>) x)"
    by (rule barrel_step [OF Cons.prems, of op k]) blast
  have IH: "computes_vec c' (barrel op fill bs (Suc k) x' c')
      (\<lambda>\<sigma>. shift_wire op (lit_val \<sigma> fill) (2 ^ Suc k * word_val \<sigma> bs) (map (lit_val \<sigma>) x'))"
      "length (fst (barrel op fill bs (Suc k) x' c')) = w"
    using Cons.IH [OF s(3-7)] by blast+
  obtain ls c2 where r: "barrel op fill bs (Suc k) x' c' = (ls, c2)" "extends c' c2" "list_all (in_range c2) ls"
      "\<And>\<sigma>. cnf_sat \<sigma> (clauses c2) \<Longrightarrow> map (lit_val \<sigma>) ls
        = shift_wire op (lit_val \<sigma> fill) (2 ^ Suc k * word_val \<sigma> bs) (map (lit_val \<sigma>) x')"
    by (rule computes_vecE [OF IH(1)]) blast
  show ?case
    using IH(2) unfolding s(1) r(1) using r s(8) extends_trans [OF s(2) r(2)] extends_sat [OF r(2)]
    by (simp add: computes_vec_def shift_wire_compose algebra_simps)
qed

lemma ilog2_bounds: "n < 2 ^ Suc (ilog2 n)"
  by (induction n rule: ilog2.induct) (subst ilog2.simps, auto)

lemma ilog2_less: "ilog2 n \<le> n"
proof (induction n rule: ilog2.induct)
  case (1 n)
  then have "2 \<le> n \<Longrightarrow> Suc (ilog2 (n div 2)) \<le> n" by linarith
  then show ?case by (subst ilog2.simps) simp
qed

lemma shift_var_computes:
  assumes wf: "cnf_wf c" and a: "list_all (in_range c) a" "length a = w"
    and b: "list_all (in_range c) b" "length b = w" and w: "0 < w" and op: "op \<in> {Shl, LShr, AShr}"
  shows "computes_word c (shift_var op a b c) w (\<lambda>\<sigma>. bin_den op w (word_val \<sigma> a) (word_val \<sigma> b))"
proof -
  obtain z c1 where 1: "lit_false c = (z, c1)" "extends c c1" "cnf_wf c1" "in_range c1 z"
      "\<And>\<sigma>. cnf_sat \<sigma> (clauses c1) \<Longrightarrow> lit_val \<sigma> z = False"
    by (rule computesE [OF lit_false_computes [OF wf]]) blast
  note r1 = extends_in_range_all [OF 1(2)]
  define fill where "fill = (if op = AShr then a ! (w - 1) else z)"
  define st where "st = (if w \<le> 1 then 0 else ilog2 (w - 1) + 1)"
  have st: "w \<le> 2 ^ st" "st \<le> w"
  proof -
    show "w \<le> 2 ^ st" using ilog2_bounds [of "w - 1"] w by (auto simp: st_def)
    show "st \<le> w" using ilog2_less [of "w - 1"] w by (auto simp: st_def)
  qed
  have fill: "in_range c1 fill"
    using 1(4) r1 [OF a(1)] a(2) w by (auto simp: fill_def list_all_length)
  have rng: "list_all (in_range c1) (take st b)" "list_all (in_range c1) (drop st b)"
    using r1 [OF b(1)] by (auto simp: list_all_iff dest: in_set_takeD in_set_dropD)
  note bar = barrel_computes [OF 1(3) fill rng(1) r1 [OF a(1)] a(2), of op 0]
  obtain x c2 where 2: "barrel op fill (take st b) 0 a c1 = (x, c2)" "extends c1 c2" "cnf_wf c2"
      "list_all (in_range c2) x"
      "\<And>\<sigma>. cnf_sat \<sigma> (clauses c2) \<Longrightarrow> map (lit_val \<sigma>) x
        = shift_wire op (lit_val \<sigma> fill) (2 ^ 0 * word_val \<sigma> (take st b)) (map (lit_val \<sigma>) a)"
    by (rule computes_vecE [OF conjunct1 [OF bar]]) blast
  have lx: "length x = w" using conjunct2 [OF bar] 2(1) by simp
  obtain oob c3 where 3: "big_or (drop st b) c2 = (oob, c3)" "extends c2 c3" "cnf_wf c3" "in_range c3 oob"
      "\<And>\<sigma>. cnf_sat \<sigma> (clauses c3) \<Longrightarrow> lit_val \<sigma> oob = list_ex (lit_val \<sigma>) (drop st b)"
    by (rule computesE [OF big_or_computes [OF 2(3) extends_in_range_all [OF 2(2) rng(2)]]]) blast
  have e13: "extends c1 c3" by (rule extends_trans [OF 2(2) 3(2)])
  have rep: "list_all (in_range c3) (replicate w fill)" "length (replicate w fill) = w"
    using extends_in_range [OF e13 fill] by (auto simp: list_all_iff)
  have "computes_word c3 (mux_vec oob (replicate w fill) x c3) w
      (\<lambda>\<sigma>. if lit_val \<sigma> oob then word_val \<sigma> (replicate w fill) else word_val \<sigma> x)"
    by (rule mux_vec_computes(2) [OF 3(3,4) rep extends_in_range_all [OF 3(2) 2(4)] lx])
  then have "computes_word c (mux_vec oob (replicate w fill) x c3) w
      (\<lambda>\<sigma>. bin_den op w (word_val \<sigma> a) (word_val \<sigma> b))"
  proof (rule computes_word_step [OF extends_trans [OF 1(2) e13]])
    fix \<sigma> assume s3: "cnf_sat \<sigma> (clauses c3)"
    note s2 = extends_sat [OF 3(2) s3]
    note s1 = extends_sat [OF 2(2) s2]
    let ?a = "map (lit_val \<sigma>) a"
    have len: "length ?a = w" using a(2) by simp
    have f: "lit_val \<sigma> fill \<longleftrightarrow> op = AShr \<and> ?a ! (w - 1)" using 1(5) [OF s1] a(2) w by (simp add: fill_def)
    have split: "word_val \<sigma> b = word_val \<sigma> (take st b) + 2 ^ st * word_val \<sigma> (drop st b)"
      using take_drop_word [of \<sigma> b st] st(2) b(2) by (simp add: min_def)
    have zero: "word_val \<sigma> ls = 0 \<longleftrightarrow> \<not> list_ex (lit_val \<sigma>) ls" for ls
      by (induction ls) auto
    have den: "bin_den op w (word_val \<sigma> a) (word_val \<sigma> b)
        = bits_val (shift_wire op (lit_val \<sigma> fill) (word_val \<sigma> b) ?a)"
      using shift_wire_den [OF len w op, of "word_val \<sigma> b"] by (simp add: f word_val_def)
    show "(if lit_val \<sigma> oob then word_val \<sigma> (replicate w fill) else word_val \<sigma> x)
        = bin_den op w (word_val \<sigma> a) (word_val \<sigma> b)"
    proof (cases "lit_val \<sigma> oob")
      case True
      then have "word_val \<sigma> (drop st b) \<noteq> 0" using zero 3(5) [OF s3] by simp
      then have "2 ^ st * 1 \<le> 2 ^ st * word_val \<sigma> (drop st b)" by (intro mult_le_mono2) simp
      then have "w \<le> word_val \<sigma> b" using split st(1) by linarith
      then show ?thesis using True den len by (simp add: shift_wire_all word_val_def)
    next
      case False
      then have "word_val \<sigma> (drop st b) = 0" using zero 3(5) [OF s3] by simp
      then show ?thesis using False den 2(5) [OF s2] split by (simp add: word_val_def)
    qed
  qed
  then show ?thesis
    using st(2) unfolding shift_var_def 1(1) Let_def prod.case a(2) st_def [symmetric] fill_def [symmetric] 2(1)
    by (simp add: min_absorb1 3(1))
qed

section \<open>Bitwise operations and comparisons\<close>

lemma bitwise_computes:
  assumes wf: "cnf_wf c" and a: "list_all (in_range c) a" "length a = w"
    and b: "list_all (in_range c) b" "length b = w" and "0 < w" and op: "op \<in> {And, Or, Xor}"
  shows "computes_word c (bitwise op a b c) w (\<lambda>\<sigma>. bin_den op w (word_val \<sigma> a) (word_val \<sigma> b))"
proof -
  define f where "f x y = (case op of And \<Rightarrow> x \<and> y | Or \<Rightarrow> x \<or> y | _ \<Rightarrow> x \<noteq> y)" for x y
  have "computes_vec c (bitwise op a b c) (\<lambda>\<sigma>. map (\<lambda>p. f (lit_val \<sigma> (fst p)) (lit_val \<sigma> (snd p))) (zip a b))"
    unfolding bitwise_def
  proof (rule computes_map_st [OF wf], goal_cases)
    case (1 p c')
    have "fst p \<in> set a" "snd p \<in> set b"
      using 1(1) by (metis prod.collapse set_zip_leftD, metis prod.collapse set_zip_rightD)
    then have "in_range c' (fst p)" "in_range c' (snd p)"
      using a(1) b(1) extends_in_range [OF 1(2)] by (simp_all add: list_all_iff)
    then show ?case
      using and2_computes or2_computes xor2_computes extends_wf [OF 1(2)] op
      by (auto simp: f_def case_prod_beta)
  qed
  moreover have "length (fst (bitwise op a b c)) = w"
    using a(2) b(2) by (simp add: bitwise_def length_map_st [OF prod.collapse [symmetric]])
  moreover have "bits_val (map (\<lambda>p. f (lit_val \<sigma> (fst p)) (lit_val \<sigma> (snd p))) (zip a b))
      = bin_den op w (word_val \<sigma> a) (word_val \<sigma> b)" for \<sigma>
  proof (rule bits_val_eqI)
    have less: "word_val \<sigma> a < 2 ^ w" "word_val \<sigma> b < 2 ^ w" using word_val_less a(2) b(2) by blast+
    show "bin_den op w (word_val \<sigma> a) (word_val \<sigma> b) < 2 ^ w"
      by (rule bin_den_less [OF less])
    fix i assume "i < w"
    then show "map (\<lambda>p. f (lit_val \<sigma> (fst p)) (lit_val \<sigma> (snd p))) (zip a b) ! i
        = bit (bin_den op w (word_val \<sigma> a) (word_val \<sigma> b)) i"
      using op a(2) b(2)
      by (auto simp: f_def bin_den_simps bit_and_iff bit_or_iff bit_xor_iff word_val_def bit_bits_val)
  qed (simp add: a b)
  ultimately show ?thesis by (simp add: computes_word_def computes_vec_def word_val_def)
qed

lemma eq_circuit_computes:
  assumes wf: "cnf_wf c" and a: "list_all (in_range c) a" "length a = w"
    and b: "list_all (in_range c) b" "length b = w"
  shows "computes c (eq_circuit a b c) (\<lambda>\<sigma>. word_val \<sigma> a = word_val \<sigma> b)"
proof -
  have "computes_vec c (map_st (\<lambda>(x, y). iff x y) (zip a b) c)
      (\<lambda>\<sigma>. map (\<lambda>p. lit_val \<sigma> (fst p) = lit_val \<sigma> (snd p)) (zip a b))"
  proof (rule computes_map_st [OF wf], goal_cases)
    case (1 p c')
    have "fst p \<in> set a" "snd p \<in> set b"
      using 1(1) by (metis prod.collapse set_zip_leftD, metis prod.collapse set_zip_rightD)
    then have "in_range c' (fst p)" "in_range c' (snd p)"
      using a(1) b(1) extends_in_range [OF 1(2)] by (simp_all add: list_all_iff)
    then show ?case using iff_computes extends_wf [OF 1(2)] by (simp add: case_prod_beta)
  qed
  then obtain ls c1 where 1: "map_st (\<lambda>(x, y). iff x y) (zip a b) c = (ls, c1)" "extends c c1" "cnf_wf c1"
      "list_all (in_range c1) ls"
      "\<And>\<sigma>. cnf_sat \<sigma> (clauses c1) \<Longrightarrow>
        map (lit_val \<sigma>) ls = map (\<lambda>p. lit_val \<sigma> (fst p) = lit_val \<sigma> (snd p)) (zip a b)"
    by (rule computes_vecE) blast
  have val: "list_all (lit_val \<sigma>) ls \<longleftrightarrow> word_val \<sigma> a = word_val \<sigma> b" if "cnf_sat \<sigma> (clauses c1)" for \<sigma>
  proof -
    have "list_all (lit_val \<sigma>) ls \<longleftrightarrow> list_all id (map (lit_val \<sigma>) ls)" by (simp add: list.pred_map)
    also have "\<dots> \<longleftrightarrow> map (lit_val \<sigma>) a = map (lit_val \<sigma>) b"
      unfolding 1(5) [OF that] using a(2) b(2) by (auto simp: list_all_length list_eq_iff_nth_eq)
    also have "\<dots> \<longleftrightarrow> word_val \<sigma> a = word_val \<sigma> b"
      unfolding word_val_def using bits_val_inject a(2) b(2) by (metis length_map)
    finally show ?thesis .
  qed
  obtain l c2 where 2: "big_and ls c1 = (l, c2)" "extends c1 c2" "in_range c2 l"
      "\<And>\<sigma>. cnf_sat \<sigma> (clauses c2) \<Longrightarrow> lit_val \<sigma> l = list_all (lit_val \<sigma>) ls"
    by (rule computesE [OF big_and_computes [OF 1(3,4)]]) blast
  then show ?thesis
    using extends_trans [OF 1(2) 2(2)] extends_sat [OF 2(2)] val
    by (simp add: computes_def eq_circuit_def 1(1) 2(1))
qed

lemma ult_computes:
  assumes "cnf_wf c" and "list_all (in_range c) a" "length a = w"
    and "list_all (in_range c) b" "length b = w"
  shows "computes c (ult a b c) (\<lambda>\<sigma>. word_val \<sigma> a < word_val \<sigma> b)"
  by (rule sub_with_borrow_correct [OF assms]) (auto simp: ult_def computes_def)

lemma to_signed_less:
  assumes "x < 2 ^ w" and "y < 2 ^ w"
  shows "to_signed w x < to_signed w y \<longleftrightarrow>
    (if (to_signed w x < 0) \<noteq> (to_signed w y < 0) then to_signed w x < 0 else x < y)"
proof -
  obtain P where P: "(2::int) ^ w = P" "int x < P" "int y < P" using assms by simp
  then show ?thesis unfolding to_signed_def P(1) by auto
qed

lemma slt_computes:
  assumes wf: "cnf_wf c" and a: "list_all (in_range c) a" "length a = w"
    and b: "list_all (in_range c) b" "length b = w" and w: "0 < w"
  shows "computes c (slt a b c) (\<lambda>\<sigma>. to_signed w (word_val \<sigma> a) < to_signed w (word_val \<sigma> b))"
proof -
  let ?sa = "a ! (w - 1)" and ?sb = "b ! (w - 1)"
  have s: "in_range c ?sa" "in_range c ?sb" using a b w by (auto simp: list_all_length)
  obtain d c1 where 1: "xor2 ?sa ?sb c = (d, c1)" "extends c c1" "cnf_wf c1" "in_range c1 d"
      "\<And>\<sigma>. cnf_sat \<sigma> (clauses c1) \<Longrightarrow> lit_val \<sigma> d = (lit_val \<sigma> ?sa \<noteq> lit_val \<sigma> ?sb)"
    by (rule computesE [OF xor2_computes [OF wf s]]) blast
  note r1 = extends_in_range_all [OF 1(2)]
  obtain u c2 where 2: "ult a b c1 = (u, c2)" "extends c1 c2" "cnf_wf c2" "in_range c2 u"
      "\<And>\<sigma>. cnf_sat \<sigma> (clauses c2) \<Longrightarrow> lit_val \<sigma> u = (word_val \<sigma> a < word_val \<sigma> b)"
    by (rule computesE [OF ult_computes [OF 1(3) r1 [OF a(1)] a(2) r1 [OF b(1)] b(2)]]) blast
  have e: "extends c c2" by (rule extends_trans [OF 1(2) 2(2)])
  obtain l c3 where 3: "mux d ?sa u c2 = (l, c3)" "extends c2 c3" "in_range c3 l"
      "\<And>\<sigma>. cnf_sat \<sigma> (clauses c3) \<Longrightarrow> lit_val \<sigma> l = (if lit_val \<sigma> d then lit_val \<sigma> ?sa else lit_val \<sigma> u)"
    by (rule computesE [OF mux_computes [OF 2(3) extends_in_range [OF 2(2) 1(4)] extends_in_range [OF e s(1)] 2(4)]]) blast
  have "lit_val \<sigma> l = (to_signed w (word_val \<sigma> a) < to_signed w (word_val \<sigma> b))"
    if s3: "cnf_sat \<sigma> (clauses c3)" for \<sigma>
  proof -
    note s2 = extends_sat [OF 3(2) s3]
    have less: "word_val \<sigma> a < 2 ^ w" "word_val \<sigma> b < 2 ^ w" using word_val_less a(2) b(2) by blast+
    show ?thesis
      using 3(4) [OF s3] 2(5) [OF s2] 1(5) [OF extends_sat [OF 2(2) s2]]
        word_sign [OF a(2) w, of \<sigma>] word_sign [OF b(2) w, of \<sigma>]
      by (simp add: to_signed_less [OF less])
  qed
  then show ?thesis
    using 3(2,3) extends_trans [OF e 3(2)]
    unfolding slt_def a(2) Let_def 1(1) prod.case 2(1) 3(1) by (simp add: computes_def)
qed

lemma neg_result_computes: "computes c r f \<Longrightarrow> computes c (neg_result r) (\<lambda>\<sigma>. \<not> f \<sigma>)"
  by (auto simp: computes_def neg_result_def)

lemma compare_computes:
  assumes "cnf_wf c" and "list_all (in_range c) a" "length a = w"
    and "list_all (in_range c) b" "length b = w" and "0 < w"
  shows "computes c (compare op a b c) (\<lambda>\<sigma>. cmp_den op w (word_val \<sigma> a) (word_val \<sigma> b))"
proof -
  note eq = eq_circuit_computes [OF assms(1-5)]
    and ult = ult_computes [OF assms(1-5)] ult_computes [OF assms(1,4,5,2,3)]
    and slt = slt_computes [OF assms] slt_computes [OF assms(1,4,5,2,3,6)]
  show ?thesis
    using eq ult slt neg_result_computes [OF eq] ult [THEN neg_result_computes] slt [THEN neg_result_computes]
    by (cases op) (simp_all add: cmp_den_def not_less)
qed

end
