(* ===== verification/Blaster.thy ===== *)
theory Blaster
  imports Expr_Ctx Cnf_Circuits
begin

text \<open>
  The bit-blaster of \<open>crates/solver/src/blaster.rs\<close>: expressions of one arena are lowered into a shared CNF,
  memoised by expression id. \<open>encode\<close> recurses on operand ids, which the arena invariant makes
  smaller than the id itself; the model takes a fuel argument, returns \<open>None\<close> when it runs out, and
  \<open>encode_total\<close> shows that the id plus one is enough. The source's own \<open>Option\<close> (an unsupported width, operands
  of different widths) is the inner option.

  \<open>blast_ok\<close> is the invariant: every memoised vector has the value of its expression in every model
  of the CNF whose symbol bits agree with the environment, and every environment extends to
  such a model, so the CNF constrains nothing.
\<close>

record blaster =
  bl_cnf :: cnf
  memo :: "nat \<Rightarrow> lit list option"
  syms :: "(string \<times> nat \<times> lit list) list"

definition MAX_WIDTH :: nat where
  "MAX_WIDTH = 128"

definition blaster_new :: blaster where
  "blaster_new = \<lparr>bl_cnf = cnf_default, memo = (\<lambda>_. None), syms = []\<rparr>"

text \<open>Running a CNF operation, and the \<open>?\<close> operator on results that may also run out of fuel.\<close>

definition on_cnf :: "(cnf \<Rightarrow> 'a \<times> cnf) \<Rightarrow> blaster \<Rightarrow> 'a \<times> blaster" where
  "on_cnf f st = (let (x, c) = f (bl_cnf st) in (x, st\<lparr>bl_cnf := c\<rparr>))"

definition try_bind :: "('a option \<times> 's) option \<Rightarrow> ('a \<Rightarrow> 's \<Rightarrow> ('b option \<times> 's) option) \<Rightarrow> ('b option \<times> 's) option" where
  "try_bind m k =
     (case m of
        None \<Rightarrow> None
      | Some (r, s) \<Rightarrow> (case r of None \<Rightarrow> Some (None, s) | Some x \<Rightarrow> k x s))"

definition done_with :: "(cnf \<Rightarrow> lit list \<times> cnf) \<Rightarrow> blaster \<Rightarrow> (lit list option \<times> blaster) option" where
  "done_with f st = (let (bits, st) = on_cnf f st in Some (Some bits, st))"

definition const_bits :: "u128 \<Rightarrow> nat \<Rightarrow> cnf \<Rightarrow> lit list \<times> cnf" where
  "const_bits v w c = map_st (\<lambda>i. if bit v i then lit_true else lit_false) [0..<w] c"

definition shift_const :: "bv_op \<Rightarrow> lit list \<Rightarrow> u128 \<Rightarrow> nat \<Rightarrow> cnf \<Rightarrow> lit list \<times> cnf" where
  "shift_const op a k w c =
     (let (zero, c) = lit_false c;
          k = min (unat k) w;
          sign = a ! (w - 1)
      in (shift_wire op (if op = AShr then sign else zero) k a, c))"

definition encode_bin :: "expr_ctx \<Rightarrow> bv_op \<Rightarrow> lit list \<Rightarrow> lit list \<Rightarrow> nat \<Rightarrow> cnf \<Rightarrow> lit list \<times> cnf" where
  "encode_bin ctx op a b b_id =
     (case op of
        Add \<Rightarrow> add a b
      | Sub \<Rightarrow> sub a b
      | Mul \<Rightarrow> mul a b
      | UDiv \<Rightarrow> (\<lambda>c. let ((q, _), c) = udivrem a b c in (q, c))
      | URem \<Rightarrow> (\<lambda>c. let ((_, r), c) = udivrem a b c in (r, c))
      | SDiv \<Rightarrow> (\<lambda>c. let ((q, _), c) = sdivrem a b c in (q, c))
      | SRem \<Rightarrow> (\<lambda>c. let ((_, r), c) = sdivrem a b c in (r, c))
      | And \<Rightarrow> bitwise op a b
      | Or \<Rightarrow> bitwise op a b
      | Xor \<Rightarrow> bitwise op a b
      | _ \<Rightarrow> (case as_const ctx b_id of
               Some k \<Rightarrow> shift_const op a (bv_unsigned k) (length a)
             | None \<Rightarrow> shift_var op a b))"

primrec encode_lits :: "(nat \<Rightarrow> blaster \<Rightarrow> (lit list option \<times> blaster) option) \<Rightarrow> nat list \<Rightarrow> blaster
    \<Rightarrow> (lit list option \<times> blaster) option" where
  "encode_lits enc [] st = Some (Some [], st)"
| "encode_lits enc (x # xs) st =
     try_bind (enc x st) (\<lambda>xv st.
       if length xv \<noteq> 1 then Some (None, st)
       else try_bind (encode_lits enc xs st) (\<lambda>lits st. Some (Some (xv ! 0 # lits), st)))"

definition single :: "(cnf \<Rightarrow> lit \<times> cnf) \<Rightarrow> cnf \<Rightarrow> lit list \<times> cnf" where
  "single f c = (let (l, c) = f c in ([l], c))"

text \<open>The bits of one node, given the encoder of its operands.\<close>

definition encode_node :: "expr_ctx \<Rightarrow> (nat \<Rightarrow> blaster \<Rightarrow> (lit list option \<times> blaster) option) \<Rightarrow> nat \<Rightarrow> expr_node
    \<Rightarrow> blaster \<Rightarrow> (lit list option \<times> blaster) option" where
  "encode_node ctx enc w n st =
     (case n of
        Const bv \<Rightarrow> done_with (const_bits (bv_unsigned bv) w) st
      | Sym name _ \<Rightarrow>
          (let (bits, st) = on_cnf (map_st (\<lambda>_. new_var) [0..<w]) st
           in Some (Some bits, st\<lparr>syms := syms st @ [(name, w, bits)]\<rparr>))
      | Bool b \<Rightarrow> done_with (single (if b then lit_true else lit_false)) st
      | Bin op a b \<Rightarrow>
          try_bind (enc a st) (\<lambda>av st. try_bind (enc b st) (\<lambda>bv st.
            if length av \<noteq> length bv then Some (None, st)
            else done_with (encode_bin ctx op av bv b) st))
      | Cmp op a b \<Rightarrow>
          try_bind (enc a st) (\<lambda>av st. try_bind (enc b st) (\<lambda>bv st.
            if length av \<noteq> length bv then Some (None, st)
            else done_with (single (compare op av bv)) st))
      | Not_node x \<Rightarrow>
          try_bind (enc x st) (\<lambda>xv st.
            if length xv \<noteq> 1 then Some (None, st) else Some (Some [negated (xv ! 0)], st))
      | And_node xs \<Rightarrow> try_bind (encode_lits enc xs st) (\<lambda>lits st. done_with (single (big_and lits)) st)
      | Or_node xs \<Rightarrow> try_bind (encode_lits enc xs st) (\<lambda>lits st. done_with (single (big_or lits)) st)
      | Ite c t e \<Rightarrow>
          try_bind (enc c st) (\<lambda>cv st.
            if length cv \<noteq> 1 then Some (None, st)
            else try_bind (enc t st) (\<lambda>tv st. try_bind (enc e st) (\<lambda>ev st.
              if length tv \<noteq> length ev then Some (None, st)
              else done_with (mux_vec (cv ! 0) tv ev) st)))
      | Zext v \<Rightarrow>
          try_bind (enc v st) (\<lambda>bits st.
            done_with (\<lambda>c. let (fill, c) = map_st (\<lambda>_. lit_false) [length bits..<w] c in (bits @ fill, c)) st)
      | Sext v \<Rightarrow>
          try_bind (enc v st) (\<lambda>bits st.
            if bits = [] then Some (None, st)
            else Some (Some (bits @ replicate (w - length bits) (last bits)), st)))"

primrec encode :: "nat \<Rightarrow> expr_ctx \<Rightarrow> nat \<Rightarrow> blaster \<Rightarrow> (lit list option \<times> blaster) option" where
  "encode 0 ctx e st = None"
| "encode (Suc fuel) ctx e st =
     (case memo st e of
        Some bits \<Rightarrow> Some (Some bits, st)
      | None \<Rightarrow>
          (let w = width ctx e in
           if w = 0 \<or> w > MAX_WIDTH then Some (None, st)
           else try_bind (encode_node ctx (encode fuel ctx) w (node ctx e) st) (\<lambda>bits st.
                  Some (Some bits, st\<lparr>memo := (memo st)(e \<mapsto> bits)\<rparr>))))"

definition encode_bool :: "expr_ctx \<Rightarrow> nat \<Rightarrow> blaster \<Rightarrow> (lit option \<times> blaster) option" where
  "encode_bool ctx e st =
     try_bind (encode (Suc e) ctx e st) (\<lambda>bits st.
       Some (if length bits = 1 then Some (bits ! 0) else None, st))"

section \<open>The blaster invariant\<close>

definition agrees :: "(string \<times> nat \<times> lit list) list \<Rightarrow> valuation \<Rightarrow> env \<Rightarrow> bool" where
  "agrees ss \<sigma> env \<longleftrightarrow> (\<forall>(name, w, bits)\<in>set ss. word_val \<sigma> bits = env name w mod 2 ^ w)"

definition den_ok :: "expr_ctx \<Rightarrow> blaster \<Rightarrow> nat \<Rightarrow> lit list \<Rightarrow> bool" where
  "den_ok ctx st e bits \<longleftrightarrow> 0 < width ctx e \<and> length bits = width ctx e \<and> list_all (in_range (bl_cnf st)) bits \<and>
     (\<forall>\<sigma> env. cnf_sat \<sigma> (clauses (bl_cnf st)) \<longrightarrow> agrees (syms st) \<sigma> env \<longrightarrow> word_val \<sigma> bits = expr_val env ctx e)"

definition syms_ok :: "expr_ctx \<Rightarrow> blaster \<Rightarrow> bool" where
  "syms_ok ctx st \<longleftrightarrow> distinct (map (\<lambda>(name, w, _). (name, w)) (syms st)) \<and>
     (\<forall>(name, w, bits)\<in>set (syms st). 0 < w \<and> w \<le> MAX_WIDTH \<and> length bits = w \<and> list_all (in_range (bl_cnf st)) bits \<and>
        (\<exists>e < ctx_len ctx. node ctx e = Sym name w \<and> memo st e \<noteq> None))"

text \<open>\<open>A\<close> is the condition the unit clauses pushed so far assert of the symbols.\<close>

definition asserts :: "(env \<Rightarrow> bool) \<Rightarrow> blaster \<Rightarrow> bool" where
  "asserts A st \<longleftrightarrow> (\<forall>\<sigma> env. cnf_sat \<sigma> (clauses (bl_cnf st)) \<longrightarrow> agrees (syms st) \<sigma> env \<longrightarrow> A env)"

definition blast_ok :: "expr_ctx \<Rightarrow> (env \<Rightarrow> bool) \<Rightarrow> blaster \<Rightarrow> bool" where
  "blast_ok ctx A st \<longleftrightarrow> cnf_wf (bl_cnf st) \<and> syms_ok ctx st \<and>
     (\<forall>e bits. memo st e = Some bits \<longrightarrow> e < ctx_len ctx \<and> den_ok ctx st e bits) \<and>
     (\<forall>env. A env \<longrightarrow> (\<exists>\<sigma>. cnf_sat \<sigma> (clauses (bl_cnf st)) \<and> agrees (syms st) \<sigma> env)) \<and> asserts A st"

definition st_ext :: "blaster \<Rightarrow> blaster \<Rightarrow> bool" where
  "st_ext st st' \<longleftrightarrow> num_vars (bl_cnf st) \<le> num_vars (bl_cnf st') \<and>
     set (clauses (bl_cnf st)) \<subseteq> set (clauses (bl_cnf st')) \<and> set (syms st) \<subseteq> set (syms st')"

lemma agrees_mono: "agrees ss' \<sigma> env \<Longrightarrow> set ss \<subseteq> set ss' \<Longrightarrow> agrees ss \<sigma> env"
  by (auto simp: agrees_def)

lemma agrees_cong:
  assumes "\<And>v. v < n \<Longrightarrow> \<sigma>' v = \<sigma> v"
    and "\<forall>(name, w, bits)\<in>set ss. \<forall>l\<in>set bits. lit_var l < n"
  shows "agrees ss \<sigma>' env = agrees ss \<sigma> env"
proof -
  have "word_val \<sigma>' bits = word_val \<sigma> bits" if "\<forall>l\<in>set bits. lit_var l < n" for bits
    unfolding word_val_def using assms(1) that by (intro arg_cong [of _ _ bits_val] map_cong) (auto simp: lit_val_def)
  then show ?thesis using assms(2) by (force simp: agrees_def)
qed

lemma st_ext_refl [simp]: "st_ext st st"
  by (simp add: st_ext_def)

lemma st_ext_trans: "st_ext a b \<Longrightarrow> st_ext b c \<Longrightarrow> st_ext a c"
  by (auto simp: st_ext_def)

lemma den_ok_mono:
  assumes "den_ok ctx st e bits" and "st_ext st st'"
  shows "den_ok ctx st' e bits"
proof -
  have "list_all (in_range (bl_cnf st')) bits"
    using assms by (auto simp: den_ok_def st_ext_def list_all_iff in_range_def intro: less_le_trans)
  moreover have "cnf_sat \<sigma> (clauses (bl_cnf st))" if "cnf_sat \<sigma> (clauses (bl_cnf st'))" for \<sigma>
    using that assms(2) by (auto simp: st_ext_def intro: cnf_sat_mono)
  ultimately show ?thesis
    using assms agrees_mono [of "syms st'" _ _ "syms st"] by (auto simp: den_ok_def st_ext_def)
qed

lemma blast_okD:
  assumes "blast_ok ctx A st"
  shows "cnf_wf (bl_cnf st)" and "syms_ok ctx st" and "\<And>env. A env \<Longrightarrow> \<exists>\<sigma>. cnf_sat \<sigma> (clauses (bl_cnf st)) \<and> agrees (syms st) \<sigma> env"
    and "\<And>e bits. memo st e = Some bits \<Longrightarrow> e < ctx_len ctx \<and> den_ok ctx st e bits" and "asserts A st"
  using assms by (auto simp: blast_ok_def)

lemma asserts_mono: "asserts A st \<Longrightarrow> st_ext st st' \<Longrightarrow> asserts A st'"
  unfolding asserts_def st_ext_def cnf_sat_def agrees_def by blast

lemma syms_in_range:
  "syms_ok ctx st \<Longrightarrow> \<forall>(name, w, bits)\<in>set (syms st). \<forall>l\<in>set bits. lit_var l < num_vars (bl_cnf st)"
  by (auto simp: syms_ok_def list_all_iff in_range_def)

text \<open>Gates only add definitions, so they keep the invariant.\<close>

lemma blast_ok_extends:
  assumes ok: "blast_ok ctx A st" and ext: "extends (bl_cnf st) c'"
  shows "blast_ok ctx A (st\<lparr>bl_cnf := c'\<rparr>)" and "st_ext st (st\<lparr>bl_cnf := c'\<rparr>)"
proof -
  let ?st = "st\<lparr>bl_cnf := c'\<rparr>"
  show se: "st_ext st ?st" using ext by (auto simp: st_ext_def extends_def)
  have "\<exists>\<sigma>. cnf_sat \<sigma> (clauses c') \<and> agrees (syms st) \<sigma> env" if "A env" for env
  proof -
    obtain \<sigma> where \<sigma>: "cnf_sat \<sigma> (clauses (bl_cnf st))" "agrees (syms st) \<sigma> env"
      using blast_okD(3) [OF ok \<open>A env\<close>] by blast
    then obtain \<sigma>' where \<sigma>': "\<forall>v < num_vars (bl_cnf st). \<sigma>' v = \<sigma> v" "cnf_sat \<sigma>' (clauses c')"
      using ext by (auto simp: extends_def)
    then have "agrees (syms st) \<sigma>' env"
      using \<sigma>(2) agrees_cong [OF _ syms_in_range [OF blast_okD(2) [OF ok]], of \<sigma>' \<sigma> env] by simp
    with \<sigma>'(2) show ?thesis by blast
  qed
  moreover have "syms_ok ctx ?st"
    using blast_okD(2) [OF ok] extends_in_range_all [OF ext] by (fastforce simp: syms_ok_def)
  ultimately show "blast_ok ctx A ?st"
    using blast_okD(4) [OF ok] den_ok_mono [OF _ se] extends_wf [OF ext] asserts_mono [OF blast_okD(5) [OF ok] se]
    by (auto simp: blast_ok_def)
qed

lemma on_cnf_word:
  assumes ok: "blast_ok ctx A st" and w: "0 < width ctx e" and cw: "computes_word (bl_cnf st) (f (bl_cnf st)) (width ctx e) g"
    and val: "\<And>\<sigma> env. cnf_sat \<sigma> (clauses (bl_cnf st)) \<Longrightarrow> agrees (syms st) \<sigma> env \<Longrightarrow> g \<sigma> = expr_val env ctx e"
    and r: "done_with f st = Some (r, st')"
  shows "blast_ok ctx A st' \<and> st_ext st st' \<and> memo st' = memo st \<and> (\<exists>bits. r = Some bits \<and> den_ok ctx st' e bits)"
proof -
  obtain ls c' where c': "f (bl_cnf st) = (ls, c')" "extends (bl_cnf st) c'" "length ls = width ctx e"
      "list_all (in_range c') ls" "\<And>\<sigma>. cnf_sat \<sigma> (clauses c') \<Longrightarrow> word_val \<sigma> ls = g \<sigma>"
    by (rule computes_wordE [OF cw]) blast
  have st': "st' = st\<lparr>bl_cnf := c'\<rparr>" "r = Some ls"
    using r by (simp_all add: done_with_def on_cnf_def c'(1))
  have "den_ok ctx st' e ls"
    using w c'(3-5) val extends_sat [OF c'(2)] by (simp add: den_ok_def st')
  then show ?thesis using blast_ok_extends [OF ok c'(2)] st' by simp
qed

lemma computes_single:
  assumes "computes c (f c) g"
  shows "computes_word c (single f c) 1 (\<lambda>\<sigma>. of_bool (g \<sigma>))"
proof -
  obtain l c' where "f c = (l, c')" "extends c c'" "in_range c' l" "\<And>\<sigma>. cnf_sat \<sigma> (clauses c') \<Longrightarrow> lit_val \<sigma> l = g \<sigma>"
    by (rule computesE [OF assms]) blast
  then show ?thesis by (simp add: computes_word_def single_def)
qed

text \<open>Recording a finished vector in the memo table.\<close>

lemma blast_ok_memo:
  assumes ok: "blast_ok ctx A st" and "den_ok ctx st e bits" and "e < ctx_len ctx"
  shows "blast_ok ctx A (st\<lparr>memo := (memo st)(e \<mapsto> bits)\<rparr>)" and "st_ext st (st\<lparr>memo := (memo st)(e \<mapsto> bits)\<rparr>)"
    and "den_ok ctx (st\<lparr>memo := (memo st)(e \<mapsto> bits)\<rparr>) e bits"
proof -
  let ?st = "st\<lparr>memo := (memo st)(e \<mapsto> bits)\<rparr>"
  show "st_ext st ?st" by (auto simp: st_ext_def)
  have same: "den_ok ctx ?st e' b' = den_ok ctx st e' b'" for e' b' by (simp add: den_ok_def)
  then show "den_ok ctx ?st e bits" using assms(2) by simp
  have "syms_ok ctx ?st" using blast_okD(2) [OF ok] by (fastforce simp: syms_ok_def)
  then show "blast_ok ctx A ?st"
    using assms same blast_okD [OF ok] by (auto simp: blast_ok_def asserts_def)
qed

section \<open>Symbols\<close>

lemma new_vars:
  "map_st (\<lambda>_. new_var) xs c =
     (map (\<lambda>k. Lit (num_vars c + k) False) [0..<length xs], c\<lparr>num_vars := num_vars c + length xs\<rparr>)"
proof (induction xs arbitrary: c)
  case (Cons x xs)
  have "Lit (num_vars c) False # map (\<lambda>k. Lit (Suc (num_vars c) + k) False) [0..<length xs]
      = map (\<lambda>k. Lit (num_vars c + k) False) [0..<Suc (length xs)]"
    by (rule nth_equalityI) (auto simp: nth_Cons nth_append less_Suc_eq split: nat.splits)
  moreover have "new_var c = (Lit (num_vars c) False, c\<lparr>num_vars := Suc (num_vars c)\<rparr>)"
    by (simp add: new_var_def lit_pos_def)
  ultimately show ?case by (simp add: Cons.IH)
qed simp

text \<open>Fresh bits for a new symbol: every value of the symbol is still possible.\<close>

lemma blast_ok_sym:
  assumes wf: "ctx_wf ctx" and ok: "blast_ok ctx A st" and e: "e < ctx_len ctx" "node ctx e = Sym name w"
    and w: "0 < w" and wm: "w \<le> MAX_WIDTH" and fresh: "memo st e = None"
    and bits: "bits = map (\<lambda>k. Lit (num_vars (bl_cnf st) + k) False) [0..<w]"
    and st': "st' = st\<lparr>bl_cnf := (bl_cnf st)\<lparr>num_vars := num_vars (bl_cnf st) + w\<rparr>,
      syms := syms st @ [(name, w, bits)], memo := (memo st)(e \<mapsto> bits)\<rparr>"
  shows "blast_ok ctx A st'" and "st_ext st st'" and "den_ok ctx st' e bits"
proof -
  let ?c = "bl_cnf st" and ?c' = "bl_cnf st'" and ?n = "num_vars (bl_cnf st)"
  have c': "clauses ?c' = clauses ?c" "num_vars ?c' = ?n + w" "true_lit ?c' = true_lit ?c" by (simp_all add: st')
  have we: "width ctx e = w" using ctx_wf_node_ok [OF wf e(1)] e(2) by simp
  show se: "st_ext st st'" by (auto simp: st_ext_def st')
  have rng: "list_all (in_range ?c') bits" by (auto simp: bits list_all_iff in_range_def c')
  have len: "length bits = w" by (simp add: bits)
  show den: "den_ok ctx st' e bits"
    using len we w rng expr_val_node [OF wf e(1)] e(2) by (auto simp: den_ok_def agrees_def st')
  have wfc: "cnf_wf ?c'"
    using blast_okD(1) [OF ok] unfolding cnf_wf_def in_range_def c' by (meson trans_less_add1)
  have new: "(name, w) \<notin> set (map (\<lambda>(name, w, _). (name, w)) (syms st))"
  proof
    assume "(name, w) \<in> set (map (\<lambda>(name, w, _). (name, w)) (syms st))"
    then obtain e' where "e' < ctx_len ctx" "node ctx e' = Sym name w" "memo st e' \<noteq> None"
      using blast_okD(2) [OF ok] by (fastforce simp: syms_ok_def)
    then show False using node_inject [OF wf e(1)] e(2) fresh by metis
  qed
  have so: "syms_ok ctx st'"
    unfolding syms_ok_def
  proof (intro conjI ballI)
    show "distinct (map (\<lambda>(name, w, _). (name, w)) (syms st'))"
      using blast_okD(2) [OF ok] new by (simp add: syms_ok_def st')
    fix s assume s: "s \<in> set (syms st')"
    show "case s of (name, w, bits) \<Rightarrow> 0 < w \<and> w \<le> MAX_WIDTH \<and> length bits = w \<and> list_all (in_range ?c') bits \<and>
        (\<exists>e < ctx_len ctx. node ctx e = Sym name w \<and> memo st' e \<noteq> None)"
    proof (cases "s \<in> set (syms st)")
      case True
      then show ?thesis
        using blast_okD(2) [OF ok]
        by (fastforce simp: syms_ok_def list_all_iff in_range_def c' st' intro: trans_less_add1)
    next
      case False
      then have "s = (name, w, bits)" using s by (simp add: st')
      then show ?thesis using e len rng w wm by (auto simp: st')
    qed
  qed
  have ex: "\<exists>\<sigma>. cnf_sat \<sigma> (clauses ?c') \<and> agrees (syms st') \<sigma> env" if "A env" for env
  proof -
    obtain \<sigma> where \<sigma>: "cnf_sat \<sigma> (clauses ?c)" "agrees (syms st) \<sigma> env" using blast_okD(3) [OF ok \<open>A env\<close>] by blast
    define \<sigma>' where "\<sigma>' v = (if v < ?n then \<sigma> v else bit (env name w mod 2 ^ w) (v - ?n))" for v
    have "word_val \<sigma>' bits = env name w mod 2 ^ w"
      unfolding word_val_def by (rule bits_val_eqI [of _ w]) (simp_all add: bits \<sigma>'_def)
    moreover have "agrees (syms st) \<sigma>' env"
      using \<sigma>(2) agrees_cong [OF _ syms_in_range [OF blast_okD(2) [OF ok]], of \<sigma>' \<sigma> env] by (simp add: \<sigma>'_def)
    moreover have "cnf_sat \<sigma>' (clauses ?c)"
    proof -
      have "lit_val \<sigma>' l = lit_val \<sigma> l" if "cl \<in> set (clauses ?c)" "l \<in> set cl" for cl l
        using blast_okD(1) [OF ok] that by (auto simp: cnf_wf_def in_range_def \<sigma>'_def intro!: lit_val_cong)
      then show ?thesis using \<sigma>(1) by (auto simp: cnf_sat_def clause_true_def)
    qed
    ultimately have "cnf_sat \<sigma>' (clauses ?c') \<and> agrees (syms st') \<sigma>' env" by (simp add: c' agrees_def st')
    then show ?thesis by blast
  qed
  have "e' < ctx_len ctx \<and> den_ok ctx st' e' b" if "memo st' e' = Some b" for e' b
    using that den e(1) we w blast_okD(4) [OF ok] den_ok_mono [OF _ se]
    by (cases "e' = e") (auto simp: st')
  then show "blast_ok ctx A st'" using wfc so ex asserts_mono [OF blast_okD(5) [OF ok] se] by (simp add: blast_ok_def)
qed

section \<open>Node encodings\<close>

lemma const_bits_computes:
  assumes "cnf_wf c"
  shows "computes_word c (const_bits v w c) w (\<lambda>_. unat v mod 2 ^ w)"
proof -
  have cv: "computes_vec c (const_bits v w c) (\<lambda>\<sigma>. map (\<lambda>i. bit v i) [0..<w])"
    unfolding const_bits_def
  proof (rule computes_map_st [OF assms], goal_cases)
    case (1 i c')
    then show ?case
      using lit_true_computes [OF extends_wf [OF 1(2)]] lit_false_computes [OF extends_wf [OF 1(2)]]
      by (simp add: computes_def)
  qed
  have "bits_val (map (\<lambda>i. bit v i) [0..<w]) = unat v mod 2 ^ w"
    by (rule bits_val_eqI [of _ w])
      (simp_all add: bit_take_bit_iff bit_unsigned_iff flip: take_bit_eq_mod)
  moreover have "length (fst (const_bits v w c)) = w"
    by (simp add: const_bits_def length_map_st [OF prod.collapse [symmetric]])
  ultimately show ?thesis using cv by (simp add: computes_word_def computes_vec_def word_val_def)
qed

lemma bin_den_shift_clamp:
  assumes "op \<in> {Shl, LShr, AShr}"
  shows "bin_den op w x (min k w) = bin_den op w x k"
  using assms by (auto simp: bin_den_simps min_def)

lemma shift_const_computes:
  assumes wf: "cnf_wf c" and a: "list_all (in_range c) a" "length a = w" and w: "0 < w"
    and op: "op \<in> {Shl, LShr, AShr}"
  shows "computes_word c (shift_const op a k w c) w (\<lambda>\<sigma>. bin_den op w (word_val \<sigma> a) (unat k))"
proof -
  obtain z c1 where 1: "lit_false c = (z, c1)" "extends c c1" "cnf_wf c1" "in_range c1 z"
      "\<And>\<sigma>. cnf_sat \<sigma> (clauses c1) \<Longrightarrow> lit_val \<sigma> z = False"
    by (rule computesE [OF lit_false_computes [OF wf]]) blast
  let ?fill = "if op = AShr then a ! (w - 1) else z"
  let ?ls = "shift_wire op ?fill (min (unat k) w) a"
  have ra: "list_all (in_range c1) a" by (rule extends_in_range_all [OF 1(2) a(1)])
  then have rf: "in_range c1 ?fill" using 1(4) a(2) w by (simp add: list_all_length)
  have rl: "list_all (in_range c1) ?ls"
    using ra rf set_shift_wire [of op ?fill "min (unat k) w" a] by (auto simp: list_all_iff)
  have "word_val \<sigma> ?ls = bin_den op w (word_val \<sigma> a) (unat k)" if "cnf_sat \<sigma> (clauses c1)" for \<sigma>
  proof -
    let ?a = "map (lit_val \<sigma>) a"
    have "lit_val \<sigma> ?fill = (op = AShr \<and> ?a ! (w - 1))" using 1(5) [OF that] a(2) w by simp
    then have "word_val \<sigma> ?ls = bits_val (shift_wire op (op = AShr \<and> ?a ! (w - 1)) (min (unat k) w) ?a)"
      unfolding word_val_def by (simp only: map_shift_wire)
    also have "\<dots> = bin_den op w (word_val \<sigma> a) (min (unat k) w)"
      using shift_wire_den [of ?a w op "min (unat k) w"] a(2) w op by (simp add: word_val_def)
    finally show ?thesis using bin_den_shift_clamp [OF op] by simp
  qed
  then show ?thesis
    using 1(2) a(2) rl unfolding computes_word_def shift_const_def 1(1) Let_def prod.case fst_conv snd_conv
    by (simp only: length_shift_wire) blast
qed

lemma encode_bin_computes:
  assumes wf: "cnf_wf c" and a: "list_all (in_range c) a" "length a = w"
    and b: "list_all (in_range c) b" "length b = w" and w: "0 < w"
    and k: "\<And>v \<sigma>. as_const ctx b_id = Some v \<Longrightarrow> cnf_sat \<sigma> (clauses c) \<Longrightarrow> word_val \<sigma> b = bv_nat v"
  shows "computes_word c (encode_bin ctx op a b b_id c) w (\<lambda>\<sigma>. bin_den op w (word_val \<sigma> a) (word_val \<sigma> b))"
proof -
  note ab = wf a b
  have shift: "computes_word c (encode_bin ctx op a b b_id c) w (\<lambda>\<sigma>. bin_den op w (word_val \<sigma> a) (word_val \<sigma> b))"
    if op: "op \<in> {Shl, LShr, AShr}"
  proof (cases "as_const ctx b_id")
    case None
    then have "encode_bin ctx op a b b_id c = shift_var op a b c"
      using op by (auto simp: encode_bin_def)
    then show ?thesis using shift_var_computes [OF ab w op] by simp
  next
    case (Some v)
    then have "encode_bin ctx op a b b_id c = shift_const op a (bv_unsigned v) w c"
      using op a(2) by (auto simp: encode_bin_def)
    moreover have "computes_word c (shift_const op a (bv_unsigned v) w c) w
        (\<lambda>\<sigma>. bin_den op w (word_val \<sigma> a) (word_val \<sigma> b))"
      by (rule computes_word_step [OF extends_refl [OF wf] shift_const_computes [OF wf a w op]])
        (simp add: k [OF Some] bv_nat_def)
    ultimately show ?thesis by simp
  qed
  obtain q r c1 where u: "udivrem a b c = ((q, r), c1)" "extends c c1" "length q = w" "length r = w"
      "list_all (in_range c1) q" "list_all (in_range c1) r"
      "\<And>\<sigma>. cnf_sat \<sigma> (clauses c1) \<Longrightarrow> word_val \<sigma> q = bin_den UDiv w (word_val \<sigma> a) (word_val \<sigma> b) \<and>
        word_val \<sigma> r = bin_den URem w (word_val \<sigma> a) (word_val \<sigma> b)"
    by (rule udivrem_correct [OF ab]) blast
  obtain q' r' c2 where s: "sdivrem a b c = ((q', r'), c2)" "extends c c2" "length q' = w" "length r' = w"
      "list_all (in_range c2) q'" "list_all (in_range c2) r'"
      "\<And>\<sigma>. cnf_sat \<sigma> (clauses c2) \<Longrightarrow> word_val \<sigma> q' = bin_den SDiv w (word_val \<sigma> a) (word_val \<sigma> b) \<and>
        word_val \<sigma> r' = bin_den SRem w (word_val \<sigma> a) (word_val \<sigma> b)"
    by (rule sdivrem_correct [OF ab w]) blast
  show ?thesis
  proof (cases op)
    case Add
    then show ?thesis using add_computes [OF ab] by (simp add: encode_bin_def bin_den_simps)
  next
    case Sub
    then show ?thesis using sub_computes [OF ab] by (simp add: encode_bin_def bin_den_simps)
  next
    case Mul
    then show ?thesis using mul_computes [OF ab] by (simp add: encode_bin_def bin_den_simps)
  next
    case And
    then show ?thesis using bitwise_computes [OF ab w, of And] by (simp add: encode_bin_def)
  next
    case Or
    then show ?thesis using bitwise_computes [OF ab w, of Or] by (simp add: encode_bin_def)
  next
    case Xor
    then show ?thesis using bitwise_computes [OF ab w, of Xor] by (simp add: encode_bin_def)
  qed (use shift u s in \<open>simp_all add: encode_bin_def computes_word_def\<close>)
qed

section \<open>Correctness of encode\<close>

definition enc_post :: "expr_ctx \<Rightarrow> (env \<Rightarrow> bool) \<Rightarrow> blaster \<Rightarrow> nat \<Rightarrow> lit list option \<Rightarrow> blaster \<Rightarrow> bool" where
  "enc_post ctx A st e r st' \<longleftrightarrow> blast_ok ctx A st' \<and> st_ext st st' \<and> (\<forall>bits. r = Some bits \<longrightarrow> den_ok ctx st' e bits)"

definition enc_ok :: "expr_ctx \<Rightarrow> (env \<Rightarrow> bool) \<Rightarrow> (nat \<Rightarrow> blaster \<Rightarrow> (lit list option \<times> blaster) option) \<Rightarrow> nat \<Rightarrow> bool" where
  "enc_ok ctx A enc e \<longleftrightarrow> (\<forall>st r st'. blast_ok ctx A st \<longrightarrow> enc e st = Some (r, st') \<longrightarrow> enc_post ctx A st e r st')"

lemma try_bindE:
  assumes "try_bind m k = Some (r, s')"
  obtains s where "m = Some (None, s)" and "r = None" and "s' = s"
  | x s where "m = Some (Some x, s)" and "k x s = Some (r, s')"
  using assms by (auto simp: try_bind_def split: option.splits)

lemma enc_okD:
  assumes "enc_ok ctx A enc e" and "blast_ok ctx A st" and "enc e st = Some (r, st')"
  shows "blast_ok ctx A st'" and "st_ext st st'" and "\<And>bits. r = Some bits \<Longrightarrow> den_ok ctx st' e bits"
  using assms by (auto simp: enc_ok_def enc_post_def)

lemma enc_postI_None: "blast_ok ctx A st' \<Longrightarrow> st_ext st st' \<Longrightarrow> enc_post ctx A st e None st'"
  by (simp add: enc_post_def)

lemma enc_post_trans: "st_ext st st1 \<Longrightarrow> enc_post ctx A st1 e r st' \<Longrightarrow> enc_post ctx A st e r st'"
  using st_ext_trans by (auto simp: enc_post_def)

lemma den_okD:
  assumes "den_ok ctx st e bits"
  shows "length bits = width ctx e" and "list_all (in_range (bl_cnf st)) bits" and "0 < width ctx e"
    and "\<And>\<sigma> env. cnf_sat \<sigma> (clauses (bl_cnf st)) \<Longrightarrow> agrees (syms st) \<sigma> env \<Longrightarrow> word_val \<sigma> bits = expr_val env ctx e"
  using assms by (auto simp: den_ok_def)

text \<open>An operation on the CNF that computes the value of \<open>e\<close> ends the encoding of \<open>e\<close>.\<close>

lemma done_with_post:
  assumes "blast_ok ctx A st" and "0 < width ctx e" and "computes_word (bl_cnf st) (f (bl_cnf st)) (width ctx e) g"
    and "\<And>\<sigma> env. cnf_sat \<sigma> (clauses (bl_cnf st)) \<Longrightarrow> agrees (syms st) \<sigma> env \<Longrightarrow> g \<sigma> = expr_val env ctx e"
    and "done_with f st = Some (r, st')"
  shows "enc_post ctx A st e r st'"
  using on_cnf_word [OF assms] by (auto simp: enc_post_def)

text \<open>Two operands, encoded one after the other.\<close>

lemma encode_two:
  assumes ok: "blast_ok ctx A st" and a: "enc_ok ctx A enc a" and b: "enc_ok ctx A enc b"
    and r: "try_bind (enc a st) (\<lambda>av st. try_bind (enc b st) (\<lambda>bv st.
        if length av \<noteq> length bv then Some (None, st) else k av bv st)) = Some (r, st')"
    and k: "\<And>av bv st2. st_ext st st2 \<Longrightarrow> blast_ok ctx A st2 \<Longrightarrow> den_ok ctx st2 a av \<Longrightarrow> den_ok ctx st2 b bv \<Longrightarrow>
      length av = length bv \<Longrightarrow> k av bv st2 = Some (r, st') \<Longrightarrow> enc_post ctx A st2 e r st'"
  shows "enc_post ctx A st e r st'"
  using r
proof (rule try_bindE)
  fix s assume "enc a st = Some (None, s)" "r = None" "st' = s"
  then show ?thesis using enc_okD [OF a ok] by (auto intro: enc_postI_None)
next
  fix av st1
  assume 1: "enc a st = Some (Some av, st1)" and r: "try_bind (enc b st1) (\<lambda>bv st.
        if length av \<noteq> length bv then Some (None, st) else k av bv st) = Some (r, st')"
  note A = enc_okD [OF a ok 1]
  from r show ?thesis
  proof (rule try_bindE)
    fix s assume "enc b st1 = Some (None, s)" "r = None" "st' = s"
    then show ?thesis using enc_okD [OF b A(1)] st_ext_trans [OF A(2)] by (auto intro: enc_postI_None)
  next
    fix bv st2
    assume 2: "enc b st1 = Some (Some bv, st2)"
      and r: "(if length av \<noteq> length bv then Some (None, st2) else k av bv st2) = Some (r, st')"
    note B = enc_okD [OF b A(1) 2]
    have ext: "st_ext st st2" by (rule st_ext_trans [OF A(2) B(2)])
    show ?thesis
    proof (cases "length av = length bv")
      case True
      then show ?thesis
        using k [OF ext B(1) den_ok_mono [OF A(3) B(2)] B(3)] r enc_post_trans [OF ext] by simp
    next
      case False
      then show ?thesis using r B(1) ext by (auto intro: enc_postI_None)
    qed
  qed
qed

lemma encode_one:
  assumes ok: "blast_ok ctx A st" and a: "enc_ok ctx A enc a"
    and r: "try_bind (enc a st) k = Some (r, st')"
    and k: "\<And>av st1. blast_ok ctx A st1 \<Longrightarrow> den_ok ctx st1 a av \<Longrightarrow> k av st1 = Some (r, st') \<Longrightarrow> enc_post ctx A st1 e r st'"
  shows "enc_post ctx A st e r st'"
  using r
proof (rule try_bindE)
  fix s assume "enc a st = Some (None, s)" "r = None" "st' = s"
  then show ?thesis using enc_okD [OF a ok] by (auto intro: enc_postI_None)
next
  fix av st1 assume "enc a st = Some (Some av, st1)" "k av st1 = Some (r, st')"
  then show ?thesis using enc_okD [OF a ok] k enc_post_trans by metis
qed

lemma single_val:
  assumes "length xv = 1"
  shows "word_val \<sigma> xv = of_bool (lit_val \<sigma> (xv ! 0))"
  using assms by (cases xv) auto

lemma encode_lits_correct:
  assumes "\<forall>x\<in>set xs. enc_ok ctx A enc x" and "blast_ok ctx A st" and "encode_lits enc xs st = Some (r, st')"
  shows "blast_ok ctx A st' \<and> st_ext st st' \<and> (\<forall>lits. r = Some lits \<longrightarrow>
    list_all (in_range (bl_cnf st')) lits \<and>
    (\<forall>\<sigma> env. cnf_sat \<sigma> (clauses (bl_cnf st')) \<longrightarrow> agrees (syms st') \<sigma> env \<longrightarrow>
      map (lit_val \<sigma>) lits = map (\<lambda>x. expr_val env ctx x \<noteq> 0) xs))"
  using assms
proof (induction xs arbitrary: st r)
  case Nil
  then show ?case by auto
next
  case (Cons x xs)
  have x: "enc_ok ctx A enc x" and xs: "\<forall>x\<in>set xs. enc_ok ctx A enc x" using Cons.prems(1) by auto
  from Cons.prems(3) [unfolded encode_lits.simps] show ?case
  proof (rule try_bindE)
    fix s assume "enc x st = Some (None, s)" "r = None" "st' = s"
    then show ?thesis using enc_okD [OF x Cons.prems(2)] by auto
  next
    fix xv st1
    assume 1: "enc x st = Some (Some xv, st1)" and r: "(if length xv \<noteq> 1 then Some (None, st1)
       else try_bind (encode_lits enc xs st1) (\<lambda>lits st. Some (Some (xv ! 0 # lits), st))) = Some (r, st')"
    note A = enc_okD [OF x Cons.prems(2) 1]
    show ?thesis
    proof (cases "length xv = 1")
      case False
      then show ?thesis using r A by auto
    next
      case len: True
      then have "try_bind (encode_lits enc xs st1) (\<lambda>lits st. Some (Some (xv ! 0 # lits), st)) = Some (r, st')"
        using r by simp
      then show ?thesis
      proof (rule try_bindE)
        fix s assume "encode_lits enc xs st1 = Some (None, s)" "r = None" "st' = s"
        then show ?thesis using Cons.IH [OF xs A(1)] st_ext_trans [OF A(2)] by auto
      next
        fix lits st2
        assume 2: "encode_lits enc xs st1 = Some (Some lits, st2)" "Some (Some (xv ! 0 # lits), st2) = Some (r, st')"
        then have IH: "blast_ok ctx A st'" "st_ext st1 st'" "list_all (in_range (bl_cnf st')) lits"
            "\<And>\<sigma> env. cnf_sat \<sigma> (clauses (bl_cnf st')) \<Longrightarrow> agrees (syms st') \<sigma> env \<Longrightarrow>
              map (lit_val \<sigma>) lits = map (\<lambda>x. expr_val env ctx x \<noteq> 0) xs"
          using Cons.IH [OF xs A(1), of "Some lits"] by auto
        note D = den_okD [OF den_ok_mono [OF A(3) [OF refl] IH(2)]]
        have "in_range (bl_cnf st') (xv ! 0)" using D(2) len by (simp add: list_all_length)
        moreover have "lit_val \<sigma> (xv ! 0) = (expr_val env ctx x \<noteq> 0)"
          if "cnf_sat \<sigma> (clauses (bl_cnf st'))" "agrees (syms st') \<sigma> env" for \<sigma> env
          using D(4) [OF that] single_val [OF len, of \<sigma>] by (cases "lit_val \<sigma> (xv ! 0)") auto
        ultimately show ?thesis using 2(2) IH st_ext_trans [OF A(2) IH(2)] by auto
      qed
    qed
  qed
qed

lemma computes_fill:
  assumes wf: "cnf_wf c" and b: "list_all (in_range c) bits" "length bits \<le> w"
  shows "computes_word c (let (fill, c) = map_st (\<lambda>_. lit_false) [length bits..<w] c in (bits @ fill, c)) w
    (\<lambda>\<sigma>. word_val \<sigma> bits)"
proof -
  have "computes_vec c (map_st (\<lambda>_. lit_false) [length bits..<w] c) (\<lambda>\<sigma>. map (\<lambda>_. False) [length bits..<w])"
    by (rule computes_map_st [OF wf]) (use lit_false_computes extends_wf in blast)
  then obtain ls c1 where 1: "map_st (\<lambda>_. lit_false) [length bits..<w] c = (ls, c1)" "extends c c1"
      "list_all (in_range c1) ls"
      "\<And>\<sigma>. cnf_sat \<sigma> (clauses c1) \<Longrightarrow> map (lit_val \<sigma>) ls = map (\<lambda>_. False) [length bits..<w]"
    by (rule computes_vecE) blast
  have "word_val \<sigma> ls = 0" if "cnf_sat \<sigma> (clauses c1)" for \<sigma>
    using 1(4) [OF that] by (simp add: word_val_def map_replicate_const)
  then show ?thesis
    using 1 b length_map_st [OF 1(1)] extends_in_range_all [OF 1(2)] by (simp add: computes_word_def)
qed

lemma bits_val_sign_extend:
  assumes len: "length bs = v" and v: "0 < v" and w: "v \<le> w"
  shows "bits_val (bs @ replicate (w - v) (last bs)) = from_int w (to_signed v (bits_val bs))"
proof (rule bits_val_eqI)
  show "length (bs @ replicate (w - v) (last bs)) = w" using len w by simp
  show "from_int w (to_signed v (bits_val bs)) < 2 ^ w" by simp
  have less: "bits_val bs < 2 ^ v" using bits_val_less [of bs] len by simp
  have last: "last bs = bs ! (v - 1)" using len v by (metis last_conv_nth length_0_conv less_numeral_extra(3))
  fix i assume i: "i < w"
  have "bit (int (from_int w (to_signed v (bits_val bs)))) i \<longleftrightarrow> bit (to_signed v (bits_val bs)) i"
    using i by (simp add: int_from_int bit_take_bit_iff flip: take_bit_eq_mod)
  also have "\<dots> \<longleftrightarrow> bs ! min (v - 1) i"
    using v len min_less_iff_disj [of "v - 1" i v]
    by (simp add: to_signed_eq_signed_take_bit [OF less v] bit_signed_take_bit_iff bit_of_nat_iff_bit bit_bits_val)
  also have "\<dots> \<longleftrightarrow> (bs @ replicate (w - v) (last bs)) ! i"
  proof (cases "i < v")
    case True
    then have "min (v - 1) i = i" by simp
    then show ?thesis using True len by (simp add: nth_append)
  next
    case False
    then have "min (v - 1) i = v - 1" by simp
    then show ?thesis using False len i last by (simp add: nth_append)
  qed
  finally show "(bs @ replicate (w - v) (last bs)) ! i = bit (from_int w (to_signed v (bits_val bs))) i"
    by (simp add: bit_of_nat_iff_bit)
qed

text \<open>Reading the symbols back from a valuation.\<close>

definition model_env :: "(string \<times> nat \<times> lit list) list \<Rightarrow> valuation \<Rightarrow> env" where
  "model_env ss \<sigma> name w =
     (case map_of (map (\<lambda>(n, w, bits). ((n, w), bits)) ss) (name, w) of
        Some bits \<Rightarrow> word_val \<sigma> bits | None \<Rightarrow> 0)"

lemma model_env_agrees:
  assumes "syms_ok ctx st"
  shows "agrees (syms st) \<sigma> (model_env (syms st) \<sigma>)"
  unfolding agrees_def
proof (clarify)
  fix name w bits assume s: "(name, w, bits) \<in> set (syms st)"
  let ?m = "map (\<lambda>(n, w, bits). ((n, w), bits)) (syms st)"
  have "map fst ?m = map (\<lambda>(name, w, _). (name, w)) (syms st)" by (induction "syms st") auto
  then have "map_of ?m (name, w) = Some bits"
    using assms s by (intro map_of_is_SomeI) (simp_all only: syms_ok_def, force)
  moreover have "word_val \<sigma> bits < 2 ^ w" using assms s word_val_less by (fastforce simp: syms_ok_def)
  ultimately show "word_val \<sigma> bits = model_env (syms st) \<sigma> name w mod 2 ^ w" by (simp add: model_env_def)
qed

text \<open>The encoding of one node is correct whenever the encodings of its operands are.\<close>

lemma encode_node_correct:
  assumes wf: "ctx_wf ctx" and e: "e < ctx_len ctx" and w: "0 < width ctx e"
    and ok: "blast_ok ctx A st" and enc: "\<forall>x\<in>set (children (node ctx e)). enc_ok ctx A enc x"
    and sym: "\<not> is_sym (node ctx e)"
    and r: "encode_node ctx enc (width ctx e) (node ctx e) st = Some (r, st')"
  shows "enc_post ctx A st e r st'"
proof -
  note v = expr_val_node [OF wf e]
  note nok = ctx_wf_node_ok [OF wf e]
  have ch: "x < ctx_len ctx" if "x \<in> set (children (node ctx e))" for x
    using ctx_wf_children [OF wf e that] e by simp
  show ?thesis
  proof (cases "node ctx e")
    case (Const bv)
    then show ?thesis
      using r v const_bits_computes [OF blast_okD(1) [OF ok], of "bv_unsigned bv" "width ctx e"]
      by (intro done_with_post [OF ok w]) (auto simp: encode_node_def bv_nat_def)
  next
    case (Sym name w)
    then show ?thesis using sym by simp
  next
    case (Bool b)
    have "computes (bl_cnf st) ((if b then lit_true else lit_false) (bl_cnf st)) (\<lambda>_. b)"
      using lit_true_computes [OF blast_okD(1) [OF ok]] lit_false_computes [OF blast_okD(1) [OF ok]]
      by (simp add: computes_def)
    then show ?thesis
      using r v Bool nok computes_single [of "bl_cnf st" "if b then lit_true else lit_false" "\<lambda>_. b"]
      by (intro done_with_post [OF ok w]) (auto simp: encode_node_def BOOL_WIDTH_def)
  next
    case (Bin op a b)
    have we: "width ctx e = width ctx a" using nok Bin by simp
    show ?thesis
    proof (rule encode_two [where enc = enc and a = a and b = b, OF ok _ _ r [unfolded Bin encode_node_def expr_node.case]])
      show "enc_ok ctx A enc a" "enc_ok ctx A enc b" using enc Bin by auto
      fix av bv st2
      assume "st_ext st st2" and ok2: "blast_ok ctx A st2" and A: "den_ok ctx st2 a av" and B: "den_ok ctx st2 b bv"
        and len: "length av = length bv" and fin: "done_with (encode_bin ctx op av bv b) st2 = Some (r, st')"
      note A = den_okD [OF A] and B = den_okD [OF B]
      have b: "b < ctx_len ctx" using ch Bin by simp
      show "enc_post ctx A st2 e r st'"
      proof (rule done_with_post [OF ok2 w encode_bin_computes [OF blast_okD(1) [OF ok2] A(2) _ B(2)] _ fin])
        fix v \<sigma> assume c: "as_const ctx b = Some v" and sat: "cnf_sat \<sigma> (clauses (bl_cnf st2))"
        show "word_val \<sigma> bv = bv_nat v"
          using B(4) [OF sat model_env_agrees [OF blast_okD(2) [OF ok2]]] as_const_SomeD(3) [OF wf b c] by simp
      next
        fix \<sigma> env assume "cnf_sat \<sigma> (clauses (bl_cnf st2))" "agrees (syms st2) \<sigma> env"
        then show "bin_den op (width ctx e) (word_val \<sigma> av) (word_val \<sigma> bv) = expr_val env ctx e"
          using A(4) B(4) v [of env] Bin we bin_den_less [of "expr_val env ctx a" "width ctx a" "expr_val env ctx b" op]
            expr_val_less [OF wf, of a env] expr_val_less [OF wf b, of env] ch A(1) B(1) len by simp
      qed (use A(1) B(1) len we w in simp_all)
    qed
  next
    case (Cmp op a b)
    have we: "width ctx e = 1" using nok Cmp by (simp add: BOOL_WIDTH_def)
    show ?thesis
    proof (rule encode_two [where enc = enc and a = a and b = b, OF ok _ _ r [unfolded Cmp encode_node_def expr_node.case]])
      show "enc_ok ctx A enc a" "enc_ok ctx A enc b" using enc Cmp by auto
      fix av bv st2
      assume "st_ext st st2" and ok2: "blast_ok ctx A st2" and A: "den_ok ctx st2 a av" and B: "den_ok ctx st2 b bv"
        and len: "length av = length bv" and fin: "done_with (single (compare op av bv)) st2 = Some (r, st')"
      note A = den_okD [OF A] and B = den_okD [OF B]
      have w': "length bv = width ctx a" "0 < width ctx a" using A(1,3) B(1) len by simp_all
      show "enc_post ctx A st2 e r st'"
      proof (rule done_with_post [OF ok2 w _ _ fin])
        show "computes_word (bl_cnf st2) (single (compare op av bv) (bl_cnf st2)) (width ctx e)
            (\<lambda>\<sigma>. of_bool (cmp_den op (width ctx a) (word_val \<sigma> av) (word_val \<sigma> bv)))"
          unfolding we using compare_computes [OF blast_okD(1) [OF ok2] A(2,1) B(2)] w' by (intro computes_single) simp
        fix \<sigma> env assume "cnf_sat \<sigma> (clauses (bl_cnf st2))" "agrees (syms st2) \<sigma> env"
        then show "of_bool (cmp_den op (width ctx a) (word_val \<sigma> av) (word_val \<sigma> bv)) = expr_val env ctx e"
          using A(4) B(4) v [of env] Cmp we by simp
      qed
    qed
  next
    case (Not_node x)
    have we: "width ctx e = 1" using nok Not_node by (simp add: BOOL_WIDTH_def)
    show ?thesis
    proof (rule encode_one [where enc = enc and a = x, OF ok _ r [unfolded Not_node encode_node_def expr_node.case]])
      show "enc_ok ctx A enc x" using enc Not_node by auto
      fix xv st1
      assume ok1: "blast_ok ctx A st1" and D: "den_ok ctx st1 x xv"
        and fin: "(if length xv \<noteq> 1 then Some (None, st1) else Some (Some [negated (xv ! 0)], st1)) = Some (r, st')"
      show "enc_post ctx A st1 e r st'"
      proof (cases "length xv = 1")
        case True
        then have "in_range (bl_cnf st1) (xv ! 0)" using den_okD(2) [OF D] by (simp add: list_all_length)
        moreover have "expr_val env ctx e = of_bool (\<not> lit_val \<sigma> (xv ! 0))"
          if "cnf_sat \<sigma> (clauses (bl_cnf st1))" "agrees (syms st1) \<sigma> env" for \<sigma> env
          using den_okD(4) [OF D that] single_val [OF True, of \<sigma>] v [of env] Not_node we
          by (cases "lit_val \<sigma> (xv ! 0)") auto
        ultimately have "den_ok ctx st1 e [negated (xv ! 0)]"
          using we w by (simp add: den_ok_def)
        then show ?thesis using fin True ok1 by (auto simp: enc_post_def)
      qed (use fin ok1 in \<open>auto intro: enc_postI_None\<close>)
    qed
  next
    case (And_node xs)
    have we: "width ctx e = 1" using nok And_node by (simp add: BOOL_WIDTH_def)
    have "\<forall>x\<in>set xs. enc_ok ctx A enc x" using enc And_node by auto
    note L = encode_lits_correct [OF this ok]
    from r [unfolded And_node encode_node_def expr_node.case] show ?thesis
    proof (rule try_bindE)
      fix s assume "encode_lits enc xs st = Some (None, s)" "r = None" "st' = s"
      then show ?thesis using L by (auto intro: enc_postI_None)
    next
      fix lits st1
      assume 1: "encode_lits enc xs st = Some (Some lits, st1)" and fin: "done_with (single (big_and lits)) st1 = Some (r, st')"
      have ok1: "blast_ok ctx A st1" and ext: "st_ext st st1" and rng: "list_all (in_range (bl_cnf st1)) lits"
        using L [OF 1] by auto
      show ?thesis
      proof (rule enc_post_trans [OF ext], rule done_with_post [OF ok1 w _ _ fin])
        show "computes_word (bl_cnf st1) (single (big_and lits) (bl_cnf st1)) (width ctx e)
            (\<lambda>\<sigma>. of_bool (list_all (lit_val \<sigma>) lits))"
          unfolding we by (intro computes_single big_and_computes [OF blast_okD(1) [OF ok1] rng])
        fix \<sigma> env assume "cnf_sat \<sigma> (clauses (bl_cnf st1))" "agrees (syms st1) \<sigma> env"
        then have "map (lit_val \<sigma>) lits = map (\<lambda>x. expr_val env ctx x \<noteq> 0) xs" using L [OF 1] by blast
        then have "list_all id (map (lit_val \<sigma>) lits) = list_all id (map (\<lambda>x. expr_val env ctx x \<noteq> 0) xs)" by simp
        then show "of_bool (list_all (lit_val \<sigma>) lits) = expr_val env ctx e"
          using v [of env] And_node we by (simp add: list.pred_map comp_def)
      qed
    qed
  next
    case (Or_node xs)
    have we: "width ctx e = 1" using nok Or_node by (simp add: BOOL_WIDTH_def)
    have "\<forall>x\<in>set xs. enc_ok ctx A enc x" using enc Or_node by auto
    note L = encode_lits_correct [OF this ok]
    from r [unfolded Or_node encode_node_def expr_node.case] show ?thesis
    proof (rule try_bindE)
      fix s assume "encode_lits enc xs st = Some (None, s)" "r = None" "st' = s"
      then show ?thesis using L by (auto intro: enc_postI_None)
    next
      fix lits st1
      assume 1: "encode_lits enc xs st = Some (Some lits, st1)" and fin: "done_with (single (big_or lits)) st1 = Some (r, st')"
      have ok1: "blast_ok ctx A st1" and ext: "st_ext st st1" and rng: "list_all (in_range (bl_cnf st1)) lits"
        using L [OF 1] by auto
      show ?thesis
      proof (rule enc_post_trans [OF ext], rule done_with_post [OF ok1 w _ _ fin])
        show "computes_word (bl_cnf st1) (single (big_or lits) (bl_cnf st1)) (width ctx e)
            (\<lambda>\<sigma>. of_bool (list_ex (lit_val \<sigma>) lits))"
          unfolding we by (intro computes_single big_or_computes [OF blast_okD(1) [OF ok1] rng])
        fix \<sigma> env assume "cnf_sat \<sigma> (clauses (bl_cnf st1))" "agrees (syms st1) \<sigma> env"
        then have "map (lit_val \<sigma>) lits = map (\<lambda>x. expr_val env ctx x \<noteq> 0) xs" using L [OF 1] by blast
        then have "list_ex id (map (lit_val \<sigma>) lits) = list_ex id (map (\<lambda>x. expr_val env ctx x \<noteq> 0) xs)" by simp
        then show "of_bool (list_ex (lit_val \<sigma>) lits) = expr_val env ctx e"
          using v [of env] Or_node we by (simp add: list_ex_iff)
      qed
    qed
  next
    case (Ite c t f)
    have we: "width ctx e = width ctx t" using nok Ite by simp
    show ?thesis
    proof (rule encode_one [where enc = enc and a = c, OF ok _ r [unfolded Ite encode_node_def expr_node.case]])
      show "enc_ok ctx A enc c" using enc Ite by auto
      fix cv st1
      assume ok1: "blast_ok ctx A st1" and C: "den_ok ctx st1 c cv"
        and fin: "(if length cv \<noteq> 1 then Some (None, st1)
            else try_bind (enc t st1) (\<lambda>tv st. try_bind (enc f st) (\<lambda>ev st.
              if length tv \<noteq> length ev then Some (None, st)
              else done_with (mux_vec (cv ! 0) tv ev) st))) = Some (r, st')"
      show "enc_post ctx A st1 e r st'"
      proof (cases "length cv = 1")
        case False
        then show ?thesis using fin ok1 by (auto intro: enc_postI_None)
      next
        case len: True
        then have "try_bind (enc t st1) (\<lambda>tv st. try_bind (enc f st) (\<lambda>ev st.
              if length tv \<noteq> length ev then Some (None, st)
              else done_with (mux_vec (cv ! 0) tv ev) st)) = Some (r, st')" using fin by simp
        then show ?thesis
        proof (rule encode_two [where enc = enc and a = t and b = f, OF ok1, rotated 2])
          show "enc_ok ctx A enc t" "enc_ok ctx A enc f" using enc Ite by auto
          fix tv ev st2
          assume ext: "st_ext st1 st2" and ok2: "blast_ok ctx A st2" and A: "den_ok ctx st2 t tv" and B: "den_ok ctx st2 f ev"
            and len': "length tv = length ev" and fin: "done_with (mux_vec (cv ! 0) tv ev) st2 = Some (r, st')"
          note A = den_okD [OF A] and B = den_okD [OF B] and C' = den_okD [OF den_ok_mono [OF C ext]]
          have c0: "in_range (bl_cnf st2) (cv ! 0)" using C'(2) len by (simp add: list_all_length)
          have lens: "length tv = width ctx e" "length ev = width ctx e" using A(1) len' we by simp_all
          show "enc_post ctx A st2 e r st'"
          proof (rule done_with_post [OF ok2 w mux_vec_computes(2) [OF blast_okD(1) [OF ok2] c0 A(2) lens(1) B(2) lens(2)] _ fin])
            fix \<sigma> env assume s: "cnf_sat \<sigma> (clauses (bl_cnf st2))" "agrees (syms st2) \<sigma> env"
            have "lit_val \<sigma> (cv ! 0) = (expr_val env ctx c \<noteq> 0)"
              using C'(4) [OF s] single_val [OF len, of \<sigma>] by (cases "lit_val \<sigma> (cv ! 0)") auto
            moreover have "expr_val env ctx t < 2 ^ width ctx e" "expr_val env ctx f < 2 ^ width ctx e"
              using word_val_less [OF lens(1), of \<sigma>] word_val_less [OF lens(2), of \<sigma>] A(4) [OF s] B(4) [OF s] by simp_all
            ultimately show "(if lit_val \<sigma> (cv ! 0) then word_val \<sigma> tv else word_val \<sigma> ev) = expr_val env ctx e"
              using A(4) [OF s] B(4) [OF s] v [of env] Ite by simp
          qed
        qed
      qed
    qed
  next
    case (Zext x)
    show ?thesis
    proof (rule encode_one [where enc = enc and a = x, OF ok _ r [unfolded Zext encode_node_def expr_node.case]])
      show "enc_ok ctx A enc x" using enc Zext by auto
      fix bits st1
      assume ok1: "blast_ok ctx A st1" and D: "den_ok ctx st1 x bits"
        and fin: "done_with (\<lambda>c. let (fill, c) = map_st (\<lambda>_. lit_false) [length bits..<width ctx e] c
            in (bits @ fill, c)) st1 = Some (r, st')"
      have le: "length bits \<le> width ctx e" using den_okD(1) [OF D] nok Zext by simp
      show "enc_post ctx A st1 e r st'"
      proof (rule done_with_post [OF ok1 w computes_fill [OF blast_okD(1) [OF ok1] den_okD(2) [OF D] le] _ fin])
        fix \<sigma> env assume "cnf_sat \<sigma> (clauses (bl_cnf st1))" "agrees (syms st1) \<sigma> env"
        moreover have "word_val \<sigma> bits < 2 ^ width ctx e"
          using word_val_less [OF refl, of \<sigma> bits] le by (meson le_trans not_less one_le_numeral power_increasing)
        ultimately show "word_val \<sigma> bits = expr_val env ctx e" using den_okD(4) [OF D] v [of env] Zext by simp
      qed
    qed
  next
    case (Sext x)
    show ?thesis
    proof (rule encode_one [where enc = enc and a = x, OF ok _ r [unfolded Sext encode_node_def expr_node.case]])
      show "enc_ok ctx A enc x" using enc Sext by auto
      fix bits st1
      assume ok1: "blast_ok ctx A st1" and D: "den_ok ctx st1 x bits"
        and fin: "(if bits = [] then Some (None, st1)
            else Some (Some (bits @ replicate (width ctx e - length bits) (last bits)), st1)) = Some (r, st')"
      show "enc_post ctx A st1 e r st'"
      proof (cases "bits = []")
        case True
        then show ?thesis using fin ok1 by (auto intro: enc_postI_None)
      next
        case False
        let ?out = "bits @ replicate (width ctx e - length bits) (last bits)"
        have len: "length bits = width ctx x" "width ctx x < width ctx e" "0 < width ctx x"
          using den_okD(1,3) [OF D] nok Sext by auto
        have val: "word_val \<sigma> ?out = from_int (width ctx e) (to_signed (width ctx x) (word_val \<sigma> bits))" for \<sigma>
          using bits_val_sign_extend [of "map (lit_val \<sigma>) bits" "width ctx x" "width ctx e"] len False
          by (simp only: word_val_def) (simp add: last_map)
        have "list_all (in_range (bl_cnf st1)) ?out"
          using den_okD(2) [OF D] False by (auto simp: list_all_iff)
        moreover have "word_val \<sigma> ?out = expr_val env ctx e"
          if "cnf_sat \<sigma> (clauses (bl_cnf st1))" "agrees (syms st1) \<sigma> env" for \<sigma> env
          unfolding val using den_okD(4) [OF D that] v [of env] Sext by simp
        moreover have "length ?out = width ctx e" using len by simp
        ultimately have "den_ok ctx st1 e ?out" using w unfolding den_ok_def by blast
        then show ?thesis using fin False ok1 by (auto simp: enc_post_def)
      qed
    qed
  qed
qed

lemma encode_correct:
  assumes wf: "ctx_wf ctx" and "e < ctx_len ctx"
  shows "enc_ok ctx A (encode fuel ctx) e"
  using assms(2)
proof (induction fuel arbitrary: e)
  case 0
  then show ?case by (simp add: enc_ok_def)
next
  case (Suc fuel)
  show ?case
    unfolding enc_ok_def
  proof (intro allI impI)
    fix st r st'
    assume ok: "blast_ok ctx A st" and r: "encode (Suc fuel) ctx e st = Some (r, st')"
    show "enc_post ctx A st e r st'"
    proof (cases "memo st e")
      case (Some bits)
      then show ?thesis using r ok blast_okD(4) [OF ok] by (auto simp: enc_post_def)
    next
      case None
      show ?thesis
      proof (cases "width ctx e = 0 \<or> MAX_WIDTH < width ctx e")
        case True
        then show ?thesis using r ok None by (auto simp: enc_post_def)
      next
        case False
        then have w: "0 < width ctx e" by simp
        have r': "try_bind (encode_node ctx (encode fuel ctx) (width ctx e) (node ctx e) st) (\<lambda>bits st.
              Some (Some bits, st\<lparr>memo := (memo st)(e \<mapsto> bits)\<rparr>)) = Some (r, st')"
          using r None False by (simp add: Let_def)
        show ?thesis
        proof (cases "is_sym (node ctx e)")
          case True
          then obtain name u where n: "node ctx e = Sym name u" by (cases "node ctx e") auto
          then have u: "u = width ctx e" using ctx_wf_node_ok [OF wf Suc.prems] by simp
          have "enc_post ctx A st e (Some (map (\<lambda>k. Lit (num_vars (bl_cnf st) + k) False) [0..<u])) st'"
            using r' blast_ok_sym [OF wf ok Suc.prems n _ _ None refl] w u False
            by (auto simp: n encode_node_def on_cnf_def new_vars try_bind_def enc_post_def)
          moreover have "r = Some (map (\<lambda>k. Lit (num_vars (bl_cnf st) + k) False) [0..<u])"
            using r' u by (auto simp: n encode_node_def on_cnf_def new_vars try_bind_def)
          ultimately show ?thesis by simp
        next
          case sym: False
          have ch: "\<forall>x\<in>set (children (node ctx e)). enc_ok ctx A (encode fuel ctx) x"
            using Suc.IH ctx_wf_children [OF wf Suc.prems] Suc.prems by (meson less_trans)
          note N = encode_node_correct [OF wf Suc.prems w ok ch sym]
          from r' show ?thesis
          proof (rule try_bindE)
            fix s assume "encode_node ctx (encode fuel ctx) (width ctx e) (node ctx e) st = Some (None, s)" "r = None" "st' = s"
            then show ?thesis using N by simp
          next
            fix bits st1
            assume 1: "encode_node ctx (encode fuel ctx) (width ctx e) (node ctx e) st = Some (Some bits, st1)"
              and 2: "Some (Some bits, st1\<lparr>memo := (memo st1)(e \<mapsto> bits)\<rparr>) = Some (r, st')"
            have P: "blast_ok ctx A st1" "st_ext st st1" "den_ok ctx st1 e bits" using N [OF 1] by (auto simp: enc_post_def)
            show ?thesis
              using blast_ok_memo [OF P(1,3) Suc.prems] st_ext_trans [OF P(2)] 2 by (auto simp: enc_post_def)
          qed
        qed
      qed
    qed
  qed
qed

text \<open>Fuel beyond the id is enough: operands have smaller ids.\<close>

lemma try_bind_total: "m \<noteq> None \<Longrightarrow> (\<And>x s. k x s \<noteq> None) \<Longrightarrow> try_bind m k \<noteq> None"
  by (auto simp: try_bind_def split: option.splits)

lemma encode_lits_total: "\<forall>x\<in>set xs. \<forall>st. enc x st \<noteq> None \<Longrightarrow> encode_lits enc xs st \<noteq> None"
proof (induction xs arbitrary: st)
  case (Cons x xs)
  then show ?case
    unfolding encode_lits.simps by (intro try_bind_total) (auto intro!: try_bind_total [simplified])
qed simp

lemma encode_total:
  assumes "ctx_wf ctx" and "e < ctx_len ctx" and "e < fuel"
  shows "encode fuel ctx e st \<noteq> None"
  using assms(2,3)
proof (induction fuel arbitrary: e st)
  case (Suc fuel)
  have ch: "\<forall>x\<in>set (children (node ctx e)). \<forall>st. encode fuel ctx x st \<noteq> None"
  proof (intro ballI allI)
    fix x st assume "x \<in> set (children (node ctx e))"
    then have "x < e" by (rule ctx_wf_children [OF assms(1) Suc.prems(1)])
    with Suc show "encode fuel ctx x st \<noteq> None" by simp
  qed
  have "encode_node ctx (encode fuel ctx) (width ctx e) (node ctx e) st \<noteq> None"
  proof (cases "node ctx e")
    case (And_node xs)
    then have "encode_lits (encode fuel ctx) xs st \<noteq> None" using ch by (intro encode_lits_total) auto
    then show ?thesis unfolding And_node encode_node_def expr_node.case
      by (intro try_bind_total) (auto simp: done_with_def split: prod.splits)
  next
    case (Or_node xs)
    then have "encode_lits (encode fuel ctx) xs st \<noteq> None" using ch by (intro encode_lits_total) auto
    then show ?thesis unfolding Or_node encode_node_def expr_node.case
      by (intro try_bind_total) (auto simp: done_with_def split: prod.splits)
  qed (use ch in \<open>auto simp: encode_node_def done_with_def on_cnf_def case_prod_beta
      intro!: try_bind_total [simplified]\<close>)
  then have "try_bind (encode_node ctx (encode fuel ctx) (width ctx e) (node ctx e) st) (\<lambda>bits st.
      Some (Some bits, st\<lparr>memo := (memo st)(e \<mapsto> bits)\<rparr>)) \<noteq> None"
    by (intro try_bind_total) simp_all
  then show ?case by (auto simp: Let_def split: option.splits)
qed simp

lemma blast_ok_new: "blast_ok ctx (\<lambda>_. True) blaster_new"
  by (simp add: blast_ok_def asserts_def blaster_new_def cnf_wf_def cnf_default_def syms_ok_def agrees_def)

lemma encode_bool_correct:
  assumes wf: "ctx_wf ctx" and e: "e < ctx_len ctx" and ok: "blast_ok ctx A st"
  obtains r st' where "encode_bool ctx e st = Some (r, st')" and "blast_ok ctx A st'" and "st_ext st st'"
    and "\<And>l. r = Some l \<Longrightarrow> width ctx e = 1 \<and> in_range (bl_cnf st') l \<and>
      (\<forall>\<sigma> env. cnf_sat \<sigma> (clauses (bl_cnf st')) \<longrightarrow> agrees (syms st') \<sigma> env \<longrightarrow> lit_val \<sigma> l = (expr_val env ctx e = 1))"
proof -
  obtain r st1 where 1: "encode (Suc e) ctx e st = Some (r, st1)" using encode_total [OF wf e, of "Suc e" st] by auto
  note P = enc_okD [OF encode_correct [OF wf e] ok 1]
  show thesis
  proof (cases "\<exists>bits. r = Some bits \<and> length bits = 1")
    case False
    then have "encode_bool ctx e st = Some (None, st1)"
      by (cases r) (auto simp: encode_bool_def try_bind_def 1 simp del: encode.simps)
    then show thesis using P by (intro that) auto
  next
    case True
    then obtain bits where bits: "r = Some bits" "length bits = 1" by blast
    note D = den_okD [OF P(3) [OF bits(1)]]
    have "encode_bool ctx e st = Some (Some (bits ! 0), st1)"
      using bits by (simp add: encode_bool_def try_bind_def 1 del: encode.simps)
    moreover have "lit_val \<sigma> (bits ! 0) = (expr_val env ctx e = 1)"
      if "cnf_sat \<sigma> (clauses (bl_cnf st1))" "agrees (syms st1) \<sigma> env" for \<sigma> env
      using D(4) [OF that] single_val [OF bits(2), of \<sigma>] by (cases "lit_val \<sigma> (bits ! 0)") auto
    ultimately show thesis
      using P D bits by (intro that [of "Some (bits ! 0)" st1]) (auto simp: list_all_length)
  qed
qed

end
