(* ===== verification/Sat_Solver.thy ===== *)
theory Sat_Solver
  imports Cnf_Gates "HOL-Library.Multiset"
begin

unbundle bit_operations_syntax

text \<open>
  The CDCL solver of \<open>crates/solver/src/sat.rs\<close> and \<open>sat_learn.rs\<close>: two-watched-literal propagation,
  1-UIP analysis, non-chronological backjumping, VSIDS, Luby restarts and learnt-clause deletion.

  The vectors of fixed length \<open>num_vars\<close> (\<open>assign\<close>, \<open>level\<close>, \<open>reason\<close>, \<open>seen\<close>, \<open>activity\<close>) and the watch lists are
  functions on their index; every index used belongs to a variable in range. The propagation
  queue is a stack with its top first. The \<open>f64\<close> activities are an abstract type \<open>'f\<close> with a record of the operations the code
  applies to them, and the wall clock is a function from the number of clock readings to whether the time budget
  is exceeded. Loops without an evident measure carry fuel: \<open>None\<close> is a loop that runs out of fuel or an index
  underflow panic.
\<close>

record 'f float_ops =
  f_zero :: 'f
  f_one :: 'f
  f_neg_inf :: 'f
  f_add :: "'f \<Rightarrow> 'f \<Rightarrow> 'f"
  f_mul :: "'f \<Rightarrow> 'f \<Rightarrow> 'f"
  f_gt :: "'f \<Rightarrow> 'f \<Rightarrow> bool"
  f_inv_decay :: 'f
  f_limit :: 'f
  f_rescale :: 'f

datatype sat_result = Sat "bool list" | Unsat | Unknown

definition DEFAULT_BUDGET :: nat where "DEFAULT_BUDGET = 200000"
definition RESTART_UNIT :: u64 where "RESTART_UNIT = 50"
definition MIN_LEARNT_LIMIT :: nat where "MIN_LEARNT_LIMIT = 100"

record 'f solver =
  s_num_vars :: nat
  s_clauses :: "clause list"
  watches :: "nat \<Rightarrow> nat list"
  assign :: "nat \<Rightarrow> bool option"
  level :: "nat \<Rightarrow> nat"
  reason :: "nat \<Rightarrow> nat option"
  trail :: "nat list"
  trail_lim :: "nat list"
  prop_queue :: "nat list"
  seen :: "nat \<Rightarrow> bool"
  activity :: "nat \<Rightarrow> 'f"
  var_inc :: 'f
  conflicts_since_restart :: u64
  luby_u :: u64
  luby_v :: u64
  restart_unit :: u64
  restarts :: u64
  num_original :: nat
  lbd :: "nat list"
  max_learnt :: nat
  reductions :: u64

definition lit_code :: "lit \<Rightarrow> nat" where
  "lit_code l = 2 * lit_var l + of_bool (lit_neg l)"

text \<open>Appending clause \<open>ci\<close> to the watch lists of the first two literals of a clause.\<close>

definition push_watch :: "lit \<Rightarrow> nat \<Rightarrow> (nat \<Rightarrow> nat list) \<Rightarrow> nat \<Rightarrow> nat list" where
  "push_watch l ci ws = ws(lit_code l := ws (lit_code l) @ [ci])"

definition watch_clause :: "nat \<Rightarrow> clause \<Rightarrow> (nat \<Rightarrow> nat list) \<Rightarrow> nat \<Rightarrow> nat list" where
  "watch_clause ci c ws =
     (if 2 \<le> length c then push_watch (c ! 1) ci (push_watch (c ! 0) ci ws) else ws)"

primrec watch_all :: "clause list \<Rightarrow> nat \<Rightarrow> (nat \<Rightarrow> nat list) \<Rightarrow> nat \<Rightarrow> nat list" where
  "watch_all [] ci ws = ws"
| "watch_all (c # cs) ci ws = watch_all cs (Suc ci) (watch_clause ci c ws)"

definition solver_new :: "'f float_ops \<Rightarrow> nat \<Rightarrow> clause list \<Rightarrow> 'f solver" where
  "solver_new fo n cs =
     \<lparr>s_num_vars = n, s_clauses = cs, watches = watch_all cs 0 (\<lambda>_. []),
      assign = (\<lambda>_. None), level = (\<lambda>_. 0), reason = (\<lambda>_. None),
      trail = [], trail_lim = [], prop_queue = [], seen = (\<lambda>_. False),
      activity = (\<lambda>_. f_zero fo), var_inc = f_one fo,
      conflicts_since_restart = 0, luby_u = 1, luby_v = 1, restart_unit = RESTART_UNIT, restarts = 0,
      num_original = length cs, lbd = replicate (length cs) 0,
      max_learnt = max (length cs div 3) MIN_LEARNT_LIMIT, reductions = 0\<rparr>"

definition decision_level :: "'f solver \<Rightarrow> nat" where
  "decision_level s = length (trail_lim s)"

definition lit_value :: "'f solver \<Rightarrow> lit \<Rightarrow> bool option" where
  "lit_value s l = map_option (\<lambda>b. b \<noteq> lit_neg l) (assign s (lit_var l))"

definition enqueue :: "lit \<Rightarrow> nat option \<Rightarrow> 'f solver \<Rightarrow> bool \<times> 'f solver" where
  "enqueue l r s =
     (case assign s (lit_var l) of
        Some b \<Rightarrow> (b \<noteq> lit_neg l, s)
      | None \<Rightarrow>
          (True, s\<lparr>assign := (assign s)(lit_var l := Some (\<not> lit_neg l)),
                   level := (level s)(lit_var l := decision_level s),
                   reason := (reason s)(lit_var l := r),
                   trail := trail s @ [lit_var l],
                   prop_queue := lit_var l # prop_queue s\<rparr>))"

definition swap :: "nat \<Rightarrow> nat \<Rightarrow> 'a list \<Rightarrow> 'a list" where
  "swap i j xs = xs[i := xs ! j, j := xs ! i]"

definition set_clause :: "nat \<Rightarrow> clause \<Rightarrow> 'f solver \<Rightarrow> 'f solver" where
  "set_clause ci c s = s\<lparr>s_clauses := (s_clauses s)[ci := c]\<rparr>"

definition normalise :: "lit \<Rightarrow> clause \<Rightarrow> clause" where
  "normalise false_lit c = (if c ! 0 = false_lit then swap 0 1 c else c)"

definition find_replacement :: "'f solver \<Rightarrow> clause \<Rightarrow> nat option" where
  "find_replacement s c = find (\<lambda>k. lit_value s (c ! k) \<noteq> Some False) [2..<length c]"

text \<open>
  The walk over the clauses watching a literal that just became false: \<open>keep\<close> is the rebuilt watch list; on a
  conflict the rest is retained unchanged.
\<close>

primrec prop_watchers :: "lit \<Rightarrow> nat list \<Rightarrow> nat list \<Rightarrow> 'f solver \<Rightarrow> nat option \<times> nat list \<times> 'f solver" where
  "prop_watchers false_lit [] keep s = (None, keep, s)"
| "prop_watchers false_lit (ci # rest) keep s =
     (let c = normalise false_lit (s_clauses s ! ci);
          s = set_clause ci c s;
          other = c ! 0
      in if lit_value s other = Some True then prop_watchers false_lit rest (keep @ [ci]) s
         else case find_replacement s c of
                Some k \<Rightarrow>
                  (let c = swap 1 k c;
                       s = set_clause ci c s
                   in prop_watchers false_lit rest keep (s\<lparr>watches := push_watch (c ! 1) ci (watches s)\<rparr>))
              | None \<Rightarrow>
                  (case lit_value s other of
                     Some False \<Rightarrow> (Some ci, (keep @ [ci]) @ rest, s)
                   | None \<Rightarrow> prop_watchers false_lit rest (keep @ [ci]) (snd (enqueue other (Some ci) s))
                   | Some True \<Rightarrow> prop_watchers false_lit rest (keep @ [ci]) s))"

primrec propagate_loop :: "nat \<Rightarrow> 'f solver \<Rightarrow> (nat option \<times> 'f solver) option" where
  "propagate_loop 0 s = None"
| "propagate_loop (Suc fuel) s =
     (case prop_queue s of
        [] \<Rightarrow> Some (None, s)
      | v # queue \<Rightarrow>
          (let s = s\<lparr>prop_queue := queue\<rparr>;
               false_lit = Lit v (assign s v = Some True);
               fc = lit_code false_lit;
               watchers = watches s fc;
               s = s\<lparr>watches := (watches s)(fc := [])\<rparr>;
               (conflict, keep, s) = prop_watchers false_lit watchers [] s;
               s = s\<lparr>watches := (watches s)(fc := keep)\<rparr>
           in case conflict of
                Some ci \<Rightarrow> Some (Some ci, s)
              | None \<Rightarrow> propagate_loop fuel s))"

text \<open>Every variable enters the queue at most once, so this fuel suffices (\<open>propagate_total\<close>).\<close>

definition propagate :: "'f solver \<Rightarrow> (nat option \<times> 'f solver) option" where
  "propagate s = propagate_loop (Suc (2 * s_num_vars s + length (prop_queue s))) s"

section \<open>Conflict analysis\<close>

type_synonym marks = "(nat \<Rightarrow> bool) \<times> clause \<times> nat"

definition mark_lit :: "(nat \<Rightarrow> nat) \<Rightarrow> nat \<Rightarrow> nat option \<Rightarrow> lit \<Rightarrow> marks \<Rightarrow> marks" where
  "mark_lit lev d pivot l m =
     (case m of (sn, learnt, counter) \<Rightarrow>
        let v = lit_var l in
        if Some v = pivot then m
        else if \<not> sn v \<and> lev v > 0 then
          (if lev v = d then (sn(v := True), learnt, Suc counter) else (sn(v := True), learnt @ [l], counter))
        else m)"

primrec walk_back :: "(nat \<Rightarrow> bool) \<Rightarrow> nat list \<Rightarrow> nat \<Rightarrow> nat option" where
  "walk_back sn tr 0 = None"
| "walk_back sn tr (Suc i) = (if sn (tr ! i) then Some i else walk_back sn tr i)"

lemma walk_back_Some:
  "walk_back sn tr idx = Some i \<Longrightarrow> i < idx \<and> sn (tr ! i) \<and> (\<forall>j. i < j \<longrightarrow> j < idx \<longrightarrow> \<not> sn (tr ! j))"
  by (induction idx) (auto split: if_splits simp: less_Suc_eq)

function analyze_loop :: "'f solver \<Rightarrow> nat \<Rightarrow> nat \<Rightarrow> nat option \<Rightarrow> nat \<Rightarrow> marks \<Rightarrow> (nat \<times> marks) option" where
  "analyze_loop s d ci pivot idx m =
     (let (sn, learnt, counter) = fold (mark_lit (level s) d pivot) (s_clauses s ! ci) m
      in case walk_back sn (trail s) idx of
           None \<Rightarrow> None
         | Some i \<Rightarrow>
             (let tv = trail s ! i; sn = sn(tv := False) in
              if counter = 0 then None
              else if counter - 1 = 0 then Some (tv, sn, learnt, 0)
              else case reason s tv of
                     Some r \<Rightarrow> analyze_loop s d r (Some tv) i (sn, learnt, counter - 1)
                   | None \<Rightarrow> Some (tv, (\<lambda>_. False), learnt, counter - 1)))"
  by pat_completeness auto
termination
  by (relation "measure (\<lambda>(s, d, ci, pivot, idx, m). idx)") (auto dest!: walk_back_Some)

declare analyze_loop.simps [simp del]

definition bump_var :: "'f float_ops \<Rightarrow> nat \<Rightarrow> 'f solver \<Rightarrow> 'f solver" where
  "bump_var fo v s =
     (let act = (activity s)(v := f_add fo (activity s v) (var_inc s))
      in if f_gt fo (act v) (f_limit fo)
         then s\<lparr>activity := (\<lambda>u. f_mul fo (act u) (f_rescale fo)), var_inc := f_mul fo (var_inc s) (f_rescale fo)\<rparr>
         else s\<lparr>activity := act\<rparr>)"

definition decay_var_inc :: "'f float_ops \<Rightarrow> 'f solver \<Rightarrow> 'f solver" where
  "decay_var_inc fo s = s\<lparr>var_inc := f_mul fo (var_inc s) (f_inv_decay fo)\<rparr>"

definition max_level_index :: "(nat \<Rightarrow> nat) \<Rightarrow> clause \<Rightarrow> nat" where
  "max_level_index lev learnt =
     foldl (\<lambda>m i. if lev (lit_var (learnt ! i)) > lev (lit_var (learnt ! m)) then i else m) 1 [2..<length learnt]"

definition analyze :: "'f float_ops \<Rightarrow> nat \<Rightarrow> 'f solver \<Rightarrow> ((clause \<times> nat \<times> nat) \<times> 'f solver) option" where
  "analyze fo confl s =
     (case analyze_loop s (decision_level s) confl None (length (trail s)) (seen s, [], 0) of
        None \<Rightarrow> None
      | Some (uip, sn, tail, _) \<Rightarrow>
          (let learnt = Lit uip (assign s uip = Some True) # tail;
               learnt = (if 2 \<le> length learnt then swap 1 (max_level_index (level s) learnt) learnt else learnt);
               btlevel = (if 2 \<le> length learnt then level s (lit_var (learnt ! 1)) else 0);
               s = fold (\<lambda>l. bump_var fo (lit_var l)) learnt s;
               s = decay_var_inc fo s;
               s = s\<lparr>seen := fold (\<lambda>l sn. sn(lit_var l := False)) (tl learnt) sn\<rparr>;
               levels = remdups_adj (sort (map (\<lambda>l. level s (lit_var l)) learnt))
           in Some ((learnt, btlevel, length levels), s)))"

definition add_learnt :: "clause \<Rightarrow> nat \<Rightarrow> 'f solver \<Rightarrow> nat \<times> 'f solver" where
  "add_learnt learnt l s =
     (let ci = length (s_clauses s)
      in (ci, s\<lparr>watches := watch_clause ci learnt (watches s), s_clauses := s_clauses s @ [learnt],
                lbd := lbd s @ [l]\<rparr>))"

definition backtrack_to :: "nat \<Rightarrow> 'f solver \<Rightarrow> 'f solver" where
  "backtrack_to lvl s =
     (if decision_level s \<le> lvl then s
      else let target = trail_lim s ! lvl
           in s\<lparr>assign := fold (\<lambda>v a. a(v := None)) (rev (drop target (trail s))) (assign s),
                trail := take target (trail s), trail_lim := take lvl (trail_lim s), prop_queue := []\<rparr>)"

definition pick_branch :: "'f float_ops \<Rightarrow> 'f solver \<Rightarrow> nat option" where
  "pick_branch fo s =
     fst (foldl (\<lambda>(best, best_act) v.
            if assign s v = None \<and> f_gt fo (activity s v) best_act then (Some v, activity s v) else (best, best_act))
          (None, f_neg_inf fo) [0..<s_num_vars s])"

definition model_of :: "'f solver \<Rightarrow> bool list" where
  "model_of s = map (\<lambda>v. case assign s v of Some b \<Rightarrow> b | None \<Rightarrow> False) [0..<s_num_vars s]"

section \<open>Restarts and clause deletion\<close>

definition advance_luby :: "u64 \<times> u64 \<Rightarrow> u64 \<times> u64" where
  "advance_luby uv =
     (let (u, v) = uv in if u AND (- u) = v then (u + 1, 1) else (u, v * 2))"

definition reorder_watches :: "'f solver \<Rightarrow> clause \<Rightarrow> clause" where
  "reorder_watches s c =
     (let c = (case find (\<lambda>k. lit_value s (c ! k) \<noteq> Some False) [0..<length c] of Some k \<Rightarrow> swap 0 k c | None \<Rightarrow> c)
      in case find (\<lambda>k. lit_value s (c ! k) \<noteq> Some False) [1..<length c] of Some k \<Rightarrow> swap 1 k c | None \<Rightarrow> c)"

definition rebuild_watches :: "'f solver \<Rightarrow> 'f solver" where
  "rebuild_watches s =
     (let cs = map (\<lambda>c. if 2 \<le> length c then reorder_watches s c else c) (s_clauses s)
      in s\<lparr>s_clauses := cs, watches := watch_all cs 0 (\<lambda>_. [])\<rparr>)"

definition locked :: "'f solver \<Rightarrow> nat \<Rightarrow> bool" where
  "locked s ci \<longleftrightarrow> ci \<in> {r. \<exists>v\<in>set (trail s). reason s v = Some r}"

definition removal_set :: "'f solver \<Rightarrow> nat list" where
  "removal_set s =
     (let candidates = filter (\<lambda>ci. lbd s ! ci > 2 \<and> \<not> locked s ci) [num_original s..<length (s_clauses s)];
          candidates = sort_key (\<lambda>ci. - int (lbd s ! ci)) candidates
      in take (length candidates div 2) candidates)"

definition reduce_db :: "'f solver \<Rightarrow> 'f solver" where
  "reduce_db s =
     (let remove = removal_set s in
      if remove = [] then s
      else let kept = filter (\<lambda>ci. ci \<notin> set remove) [0..<length (s_clauses s)];
               new_index = (\<lambda>ci. length (filter (\<lambda>k. k \<notin> set remove) [0..<ci]));
               s = s\<lparr>s_clauses := map (\<lambda>ci. s_clauses s ! ci) kept, lbd := map (\<lambda>ci. lbd s ! ci) kept,
                     reason := (\<lambda>v. if assign s v \<noteq> None then map_option new_index (reason s v) else reason s v)\<rparr>;
               s = rebuild_watches s
           in s\<lparr>reductions := reductions s + 1\<rparr>)"

definition maybe_restart :: "'f solver \<Rightarrow> 'f solver" where
  "maybe_restart s =
     (if decision_level s > 0 \<and> conflicts_since_restart s \<ge> restart_unit s * luby_v s
      then let s = backtrack_to 0 s;
               (u, v) = advance_luby (luby_u s, luby_v s);
               s = s\<lparr>conflicts_since_restart := 0, restarts := restarts s + 1, luby_u := u, luby_v := v\<rparr>
           in if length (s_clauses s) - num_original s > max_learnt s
              then let s = reduce_db s in s\<lparr>max_learnt := max_learnt s + max_learnt s div 2\<rparr>
              else s
      else s)"

section \<open>The main loop\<close>

text \<open>\<open>timed_out\<close> with its tick counter; the second component counts the clock readings.\<close>

definition timed_out :: "(nat \<Rightarrow> bool) \<Rightarrow> nat \<times> nat \<Rightarrow> bool \<times> nat \<times> nat" where
  "timed_out clock tm =
     (let (ticks, reads) = tm
      in if ticks + 1 \<ge> 8192 then (clock reads, 0, reads + 1) else (False, ticks + 1, reads))"

primrec seed_units :: "nat list \<Rightarrow> 'f solver \<Rightarrow> bool \<times> 'f solver" where
  "seed_units [] s = (True, s)"
| "seed_units (ci # cis) s =
     (let c = s_clauses s ! ci in
      if length c = 0 then (False, s)
      else if length c = 1
      then (let (ok, s) = enqueue (c ! 0) (Some ci) s in if ok then seed_units cis s else (False, s))
      else seed_units cis s)"

definition learn_and_backjump :: "'f float_ops \<Rightarrow> nat \<Rightarrow> 'f solver \<Rightarrow> 'f solver option" where
  "learn_and_backjump fo confl s =
     (case analyze fo confl s of
        None \<Rightarrow> None
      | Some ((learnt, btlevel, l), s) \<Rightarrow>
          (let s = backtrack_to btlevel s;
               (ci, s) = add_learnt learnt l s;
               asserting = s_clauses s ! ci ! 0;
               s = snd (enqueue asserting (Some ci) s)
           in Some (s\<lparr>conflicts_since_restart := conflicts_since_restart s + 1\<rparr>)))"

text \<open>Each conflict strictly lowers the decision level, so the fuel is the level plus one.\<close>

primrec conflict_loop :: "'f float_ops \<Rightarrow> (nat \<Rightarrow> bool) \<Rightarrow> nat \<Rightarrow> 'f solver \<Rightarrow> nat \<times> nat
    \<Rightarrow> (sat_result + 'f solver \<times> nat \<times> nat) option" where
  "conflict_loop fo clock 0 s tm = None"
| "conflict_loop fo clock (Suc fuel) s tm =
     (case propagate s of
        None \<Rightarrow> None
      | Some (None, s) \<Rightarrow> Some (Inr (s, tm))
      | Some (Some confl, s) \<Rightarrow>
          if trail_lim s = [] then Some (Inl Unsat)
          else let (timeout, tm) = timed_out clock tm in
               if timeout then Some (Inl Unknown)
               else case learn_and_backjump fo confl s of
                      None \<Rightarrow> None
                    | Some s \<Rightarrow> conflict_loop fo clock fuel s tm)"

definition decide :: "nat \<Rightarrow> 'f solver \<Rightarrow> 'f solver" where
  "decide v s = snd (enqueue (lit_pos v) None (s\<lparr>trail_lim := trail_lim s @ [length (trail s)]\<rparr>))"

primrec solve_loop :: "'f float_ops \<Rightarrow> (nat \<Rightarrow> bool) \<Rightarrow> nat \<Rightarrow> 'f solver \<Rightarrow> nat \<times> nat \<Rightarrow> sat_result option" where
  "solve_loop fo clock 0 s tm =
     (let s = maybe_restart s in
      case pick_branch fo s of None \<Rightarrow> Some (Sat (model_of s)) | Some v \<Rightarrow> Some Unknown)"
| "solve_loop fo clock (Suc budget) s tm =
     (let s = maybe_restart s in
      case pick_branch fo s of
        None \<Rightarrow> Some (Sat (model_of s))
      | Some v \<Rightarrow>
          (let (timeout, tm) = timed_out clock tm in
           if timeout then Some Unknown
           else let s = decide v s in
                case conflict_loop fo clock (Suc (decision_level s)) s tm of
                  None \<Rightarrow> None
                | Some (Inl r) \<Rightarrow> Some r
                | Some (Inr (s, tm)) \<Rightarrow> solve_loop fo clock budget s tm))"

definition solve :: "'f float_ops \<Rightarrow> (nat \<Rightarrow> bool) \<Rightarrow> nat \<Rightarrow> 'f solver \<Rightarrow> sat_result option" where
  "solve fo clock budget s =
     (let (ok, s) = seed_units [0..<length (s_clauses s)] s in
      if \<not> ok then Some Unsat
      else case propagate s of
             None \<Rightarrow> None
           | Some (Some _, s) \<Rightarrow> Some Unsat
           | Some (None, s) \<Rightarrow> solve_loop fo clock budget s (0, 0))"

end
