(* ===== verification/Sat_Invariant.thy ===== *)
theory Sat_Invariant
  imports Sat_Solver
begin

text \<open>
  The invariants of the CDCL solver. \<open>core_inv\<close> speaks about the trail, the levels, the reasons and
  the clause store: every stored clause follows from the input, and every propagated literal is the only
  non-false literal of its reason, whose other literals were assigned earlier. \<open>watch_inv\<close> counts the watch lists and
  \<open>two_watch\<close> is the two-watched-literal property. Each operation is shown to preserve them.
\<close>

definition lfalse :: "'f solver \<Rightarrow> lit \<Rightarrow> bool" where
  "lfalse s l \<longleftrightarrow> assign s (lit_var l) = Some (lit_neg l)"

definition ltrue :: "'f solver \<Rightarrow> lit \<Rightarrow> bool" where
  "ltrue s l \<longleftrightarrow> assign s (lit_var l) = Some (\<not> lit_neg l)"

definition entails :: "clause list \<Rightarrow> clause \<Rightarrow> bool" where
  "entails F c \<longleftrightarrow> (\<forall>\<sigma>. cnf_sat \<sigma> F \<longrightarrow> clause_true \<sigma> c)"

definition trail_ok :: "'f solver \<Rightarrow> bool" where
  "trail_ok s \<longleftrightarrow> distinct (trail s) \<and> (\<forall>v. v \<in> set (trail s) \<longleftrightarrow> assign s v \<noteq> None) \<and>
     (\<forall>v\<in>set (trail s). v < s_num_vars s) \<and> sorted_wrt (<) (trail_lim s) \<and>
     (\<forall>k\<in>set (trail_lim s). k < length (trail s)) \<and>
     (\<forall>i < length (trail s). level s (trail s ! i) = length (filter (\<lambda>k. k \<le> i) (trail_lim s)))"

definition reason_clause :: "'f solver \<Rightarrow> nat \<Rightarrow> clause \<Rightarrow> bool" where
  "reason_clause s i c \<longleftrightarrow> (\<exists>l\<in>set c. lit_var l = trail s ! i \<and> ltrue s l) \<and>
     (\<forall>l\<in>set c. lit_var l = trail s ! i \<and> ltrue s l \<or> lfalse s l \<and> lit_var l \<in> set (take i (trail s)))"

definition reasons_ok :: "'f solver \<Rightarrow> bool" where
  "reasons_ok s \<longleftrightarrow> (\<forall>i < length (trail s).
     case reason s (trail s ! i) of
       Some r \<Rightarrow> r < length (s_clauses s) \<and> reason_clause s i (s_clauses s ! r)
     | None \<Rightarrow> i \<in> set (trail_lim s))"

definition store_ok :: "clause list \<Rightarrow> 'f solver \<Rightarrow> bool" where
  "store_ok F s \<longleftrightarrow> num_original s = length F \<and> length F \<le> length (s_clauses s) \<and>
     (\<forall>ci < length F. mset (s_clauses s ! ci) = mset (F ! ci)) \<and>
     (\<forall>c\<in>set (s_clauses s). entails F c \<and> (\<forall>l\<in>set c. lit_var l < s_num_vars s))"

definition core_inv :: "clause list \<Rightarrow> 'f solver \<Rightarrow> bool" where
  "core_inv F s \<longleftrightarrow> trail_ok s \<and> reasons_ok s \<and> store_ok F s \<and> seen s = (\<lambda>_. False)"

definition queue_ok :: "'f solver \<Rightarrow> bool" where
  "queue_ok s \<longleftrightarrow> (\<forall>v\<in>set (prop_queue s). v \<in> set (trail s) \<and> level s v = decision_level s)"

definition watch_count :: "clause list \<Rightarrow> nat \<Rightarrow> lit \<Rightarrow> nat" where
  "watch_count cs ci l = (if ci < length cs \<and> 2 \<le> length (cs ! ci) then count_list (take 2 (cs ! ci)) l else 0)"

definition watch_inv :: "(nat \<Rightarrow> nat list) \<Rightarrow> clause list \<Rightarrow> bool" where
  "watch_inv ws cs \<longleftrightarrow> (\<forall>l ci. count_list (ws (lit_code l)) ci = watch_count cs ci l)"

text \<open>A false watch whose variable has been processed leaves the other watch true, at a level not above it.\<close>

definition watch_pair :: "'f solver \<Rightarrow> lit \<Rightarrow> lit \<Rightarrow> bool" where
  "watch_pair s w w' \<longleftrightarrow> (lfalse s w \<and> lit_var w \<notin> set (prop_queue s) \<longrightarrow>
     ltrue s w' \<and> level s (lit_var w') \<le> level s (lit_var w))"

definition two_watch :: "(lit \<Rightarrow> nat \<Rightarrow> bool) \<Rightarrow> 'f solver \<Rightarrow> bool" where
  "two_watch ex s \<longleftrightarrow> (\<forall>ci < length (s_clauses s). let c = s_clauses s ! ci in 2 \<le> length c \<longrightarrow>
     (ex (c ! 0) ci \<or> watch_pair s (c ! 0) (c ! 1)) \<and> (ex (c ! 1) ci \<or> watch_pair s (c ! 1) (c ! 0)))"

definition units_ok :: "'f solver \<Rightarrow> bool" where
  "units_ok s \<longleftrightarrow> (\<forall>c\<in>set (s_clauses s). c \<noteq> [] \<and> (length c = 1 \<longrightarrow> ltrue s (c ! 0) \<and> level s (lit_var (c ! 0)) = 0))"

section \<open>Basic facts\<close>

lemma lit_value_simps:
  "lit_value s l = Some True \<longleftrightarrow> ltrue s l"
  "lit_value s l = Some False \<longleftrightarrow> lfalse s l"
  "lit_value s l = None \<longleftrightarrow> assign s (lit_var l) = None"
  by (auto simp: lit_value_def ltrue_def lfalse_def)

lemma lit_cases: "ltrue s l \<or> lfalse s l \<or> assign s (lit_var l) = None"
  by (cases "assign s (lit_var l)") (auto simp: ltrue_def lfalse_def)

lemma ltrue_not_lfalse: "ltrue s l \<Longrightarrow> \<not> lfalse s l"
  by (auto simp: ltrue_def lfalse_def)

lemma lfalse_unique: "lfalse s l \<Longrightarrow> lfalse s l' \<Longrightarrow> lit_var l = lit_var l' \<Longrightarrow> l = l'"
  by (cases l; cases l') (auto simp: lfalse_def)

lemma ltrue_unique: "ltrue s l \<Longrightarrow> ltrue s l' \<Longrightarrow> lit_var l = lit_var l' \<Longrightarrow> l = l'"
  by (cases l; cases l') (auto simp: ltrue_def)

lemma ltrue_lfalse_val: "ltrue s l \<Longrightarrow> lfalse s l' \<Longrightarrow> lit_var l = lit_var l' \<Longrightarrow> lit_val \<sigma> l' = (\<not> lit_val \<sigma> l)"
  by (cases l; cases l') (auto simp: ltrue_def lfalse_def)

lemma lit_code_inject: "lit_code l = lit_code l' \<Longrightarrow> l = l'"
  by (cases l; cases l'; cases "lit_neg l"; cases "lit_neg l'"; simp add: lit_code_def; presburger)

lemma length_swap [simp]: "length (swap i j xs) = length xs"
  by (simp add: swap_def)

lemma mset_swap_clause [simp]: "i < length xs \<Longrightarrow> j < length xs \<Longrightarrow> mset (swap i j xs) = mset xs"
  by (simp add: swap_def mset_swap)

lemma set_swap_clause [simp]: "i < length xs \<Longrightarrow> j < length xs \<Longrightarrow> set (swap i j xs) = set xs"
  using mset_eq_setD [OF mset_swap_clause] .

lemma nth_swap:
  "i < length xs \<Longrightarrow> j < length xs \<Longrightarrow> k < length xs \<Longrightarrow>
    swap i j xs ! k = (if k = j then xs ! i else if k = i then xs ! j else xs ! k)"
  by (auto simp: swap_def nth_list_update)

lemma filter_count_le:
  assumes "sorted_wrt (<) (xs :: nat list)" and "k < length xs"
  shows "length (filter (\<lambda>x. x \<le> i) xs) \<le> k \<longleftrightarrow> i < xs ! k"
  using assms
proof (induction xs arbitrary: k)
  case (Cons x xs)
  show ?case
  proof (cases "x \<le> i")
    case True
    then show ?thesis using Cons by (cases k) auto
  next
    case False
    then have "filter (\<lambda>x. x \<le> i) xs = []" using Cons.prems(1) by (auto simp: filter_empty_conv)
    moreover have "i < (x # xs) ! k" using False Cons.prems by (cases k) (auto simp: not_le intro: less_trans [of i x])
    ultimately show ?thesis using False by simp
  qed
qed simp

lemma trail_okD:
  assumes "trail_ok s"
  shows "distinct (trail s)" and "v \<in> set (trail s) \<longleftrightarrow> assign s v \<noteq> None" and "v \<in> set (trail s) \<Longrightarrow> v < s_num_vars s"
    and "sorted_wrt (<) (trail_lim s)" and "k \<in> set (trail_lim s) \<Longrightarrow> k < length (trail s)"
    and "i < length (trail s) \<Longrightarrow> level s (trail s ! i) = length (filter (\<lambda>k. k \<le> i) (trail_lim s))"
  using assms by (auto simp: trail_ok_def)

lemma level_le_decision: "trail_ok s \<Longrightarrow> v \<in> set (trail s) \<Longrightarrow> level s v \<le> decision_level s"
  by (metis decision_level_def in_set_conv_nth length_filter_le trail_okD(6))

lemma level_mono:
  assumes "trail_ok s" and "i \<le> j" and "j < length (trail s)"
  shows "level s (trail s ! i) \<le> level s (trail s ! j)"
proof -
  have "length (filter (\<lambda>k. k \<le> i) xs) \<le> length (filter (\<lambda>k. k \<le> j) xs)" for xs :: "nat list"
    using assms(2) by (induction xs) auto
  then show ?thesis using assms by (simp add: trail_okD(6))
qed

lemma level_le_iff:
  assumes "trail_ok s" and "i < length (trail s)" and "k < decision_level s"
  shows "level s (trail s ! i) \<le> k \<longleftrightarrow> i < trail_lim s ! k"
  using filter_count_le [OF trail_okD(4) [OF assms(1)]] assms
  by (simp add: trail_okD(6) decision_level_def)

lemma core_invD:
  assumes "core_inv F s"
  shows "trail_ok s" and "reasons_ok s" and "store_ok F s" and "seen s = (\<lambda>_. False)"
  using assms by (auto simp: core_inv_def)

lemma reasons_okD:
  assumes "reasons_ok s" and "i < length (trail s)"
  shows "reason s (trail s ! i) = Some r \<Longrightarrow> r < length (s_clauses s) \<and> reason_clause s i (s_clauses s ! r)"
    and "reason s (trail s ! i) = None \<Longrightarrow> i \<in> set (trail_lim s)"
  using assms by (force simp: reasons_ok_def)+

text \<open>A literal assigned at level 0 follows from the input.\<close>

lemma level_0_entailed:
  assumes inv: "core_inv F s" and "v \<in> set (trail s)" and "level s v = 0"
    and l: "lit_var l = v" "ltrue s l" and \<sigma>: "cnf_sat \<sigma> F"
  shows "lit_val \<sigma> l"
proof -
  note T = core_invD(1) [OF inv]
  have "\<forall>l. level s (trail s ! i) = 0 \<longrightarrow> lit_var l = trail s ! i \<longrightarrow> ltrue s l \<longrightarrow> lit_val \<sigma> l"
    if "i < length (trail s)" for i
    using that
  proof (induction i rule: less_induct)
    case (less i)
    show ?case
    proof (intro allI impI)
      fix l assume lev: "level s (trail s ! i) = 0" and l: "lit_var l = trail s ! i" "ltrue s l"
      have "i \<notin> set (trail_lim s)"
      proof
        assume "i \<in> set (trail_lim s)"
        then have "filter (\<lambda>k. k \<le> i) (trail_lim s) \<noteq> []" by (auto simp: filter_empty_conv)
        then show False using lev trail_okD(6) [OF T less.prems] by simp
      qed
      then obtain r where r: "r < length (s_clauses s)" "reason_clause s i (s_clauses s ! r)"
        using reasons_okD [OF core_invD(2) [OF inv] less.prems] by (cases "reason s (trail s ! i)") auto
      have "entails F (s_clauses s ! r)" using core_invD(3) [OF inv] r(1) by (auto simp: store_ok_def)
      then obtain l' where l': "l' \<in> set (s_clauses s ! r)" "lit_val \<sigma> l'"
        using \<sigma> by (auto simp: entails_def clause_true_def)
      have "\<not> (lfalse s l' \<and> lit_var l' \<in> set (take i (trail s)))"
      proof
        assume f: "lfalse s l' \<and> lit_var l' \<in> set (take i (trail s))"
        then obtain j where j: "j < i" "lit_var l' = trail s ! j" using less.prems by (auto simp: in_set_conv_nth)
        then have "level s (trail s ! j) = 0" using level_mono [OF T, of j i] less.prems lev by simp
        moreover have "ltrue s (negated l')" using f by (cases l') (simp add: lfalse_def ltrue_def)
        ultimately have "lit_val \<sigma> (negated l')" using less.IH [OF j(1)] less.prems j
          by (metis less_trans lit_var_negated)
        then show False using l'(2) by simp
      qed
      then have "lit_var l' = trail s ! i" "ltrue s l'" using r(2) l'(1) by (auto simp: reason_clause_def)
      then have "l' = l" using l ltrue_unique by metis
      with l'(2) show "lit_val \<sigma> l" by simp
    qed
  qed
  then show ?thesis using assms by (metis in_set_conv_nth)
qed

section \<open>Assigning a literal\<close>

text \<open>The state after \<open>enqueue\<close> of an unassigned literal.\<close>

definition push_lit :: "lit \<Rightarrow> nat option \<Rightarrow> 'f solver \<Rightarrow> 'f solver" where
  "push_lit l r s = s\<lparr>assign := (assign s)(lit_var l := Some (\<not> lit_neg l)),
     level := (level s)(lit_var l := decision_level s), reason := (reason s)(lit_var l := r),
     trail := trail s @ [lit_var l], prop_queue := lit_var l # prop_queue s\<rparr>"

lemma enqueue_None: "assign s (lit_var l) = None \<Longrightarrow> enqueue l r s = (True, push_lit l r s)"
  by (simp add: enqueue_def push_lit_def)

lemma enqueue_Some: "assign s (lit_var l) \<noteq> None \<Longrightarrow> enqueue l r s = (\<not> lfalse s l, s)"
  by (auto simp: enqueue_def lfalse_def)

lemma push_lit_simps [simp]:
  "s_num_vars (push_lit l r s) = s_num_vars s" "s_clauses (push_lit l r s) = s_clauses s"
  "watches (push_lit l r s) = watches s" "trail (push_lit l r s) = trail s @ [lit_var l]"
  "trail_lim (push_lit l r s) = trail_lim s" "prop_queue (push_lit l r s) = lit_var l # prop_queue s"
  "seen (push_lit l r s) = seen s" "decision_level (push_lit l r s) = decision_level s"
  "num_original (push_lit l r s) = num_original s"
  by (simp_all add: push_lit_def decision_level_def)

lemma push_lit_vals:
  assumes "assign s (lit_var l) = None"
  shows "ltrue (push_lit l r s) l" and "lfalse s l' \<Longrightarrow> lfalse (push_lit l r s) l'"
    and "ltrue s l' \<Longrightarrow> ltrue (push_lit l r s) l'"
    and "lfalse (push_lit l r s) l' \<Longrightarrow> lfalse s l' \<or> l' = negated l"
    and "assign s v \<noteq> None \<Longrightarrow> level (push_lit l r s) v = level s v"
    and "assign s v \<noteq> None \<Longrightarrow> reason (push_lit l r s) v = reason s v"
    and "level (push_lit l r s) (lit_var l) = decision_level s"
    and "reason (push_lit l r s) (lit_var l) = r"
  using assms by (cases l; cases l'; auto simp: push_lit_def ltrue_def lfalse_def split: if_splits)+

lemma reason_clause_cong:
  assumes "reason_clause s i c" and "i < length (trail s)" and "set c' = set c"
    and "\<And>l. ltrue s l \<Longrightarrow> ltrue s' l" and "\<And>l. lfalse s l \<Longrightarrow> lfalse s' l"
    and "take (Suc i) (trail s') = take (Suc i) (trail s)"
  shows "reason_clause s' i c'"
proof -
  have "trail s' ! i = trail s ! i" "take i (trail s') = take i (trail s)"
    using assms(2,6) by (metis lessI nth_take, metis min.absorb1 lessI less_imp_le take_take)
  then show ?thesis using assms(1,3-5) unfolding reason_clause_def by auto
qed

lemma push_lit_core:
  assumes inv: "core_inv F s" and un: "assign s (lit_var l) = None" and v: "lit_var l < s_num_vars s"
    and r: "r < length (s_clauses s)" and c: "l \<in> set (s_clauses s ! r)" "\<And>l'. l' \<in> set (s_clauses s ! r) \<Longrightarrow> l' = l \<or> lfalse s l'"
  shows "core_inv F (push_lit l (Some r) s)"
proof -
  let ?s = "push_lit l (Some r) s"
  note T = core_invD(1) [OF inv] and V = push_lit_vals [OF un, where r = "Some r"]
  have new: "lit_var l \<notin> set (trail s)" using trail_okD(2) [OF T] un by simp
  have old: "trail ?s ! i = trail s ! i" "level ?s (trail s ! i) = level s (trail s ! i)"
    "reason ?s (trail s ! i) = reason s (trail s ! i)" if "i < length (trail s)" for i
    using that V(5,6) trail_okD(2) [OF T, of "trail s ! i"] by (simp_all add: nth_append)
  have T': "trail_ok ?s"
    unfolding trail_ok_def
  proof (intro conjI allI ballI impI)
    show "distinct (trail ?s)" using trail_okD(1) [OF T] new by simp
    show "v \<in> set (trail ?s) \<longleftrightarrow> assign ?s v \<noteq> None" for v using trail_okD(2) [OF T, of v] by (auto simp: push_lit_def)
    show "v < s_num_vars ?s" if "v \<in> set (trail ?s)" for v using that trail_okD(3) [OF T] v by auto
    show "sorted_wrt (<) (trail_lim ?s)" using trail_okD(4) [OF T] by simp
    show "k < length (trail ?s)" if "k \<in> set (trail_lim ?s)" for k using that trail_okD(5) [OF T] by fastforce
    fix i assume i: "i < length (trail ?s)"
    show "level ?s (trail ?s ! i) = length (filter (\<lambda>k. k \<le> i) (trail_lim ?s))"
    proof (cases "i < length (trail s)")
      case True
      then show ?thesis using old trail_okD(6) [OF T True] by simp
    next
      case False
      then have i: "i = length (trail s)" using i by simp
      have "filter (\<lambda>k. k \<le> i) (trail_lim s) = trail_lim s"
        using trail_okD(5) [OF T] i by (auto simp: filter_id_conv less_imp_le)
      then show ?thesis using i V(7) by (simp add: decision_level_def)
    qed
  qed
  have R': "reasons_ok ?s"
    unfolding reasons_ok_def
  proof (intro allI impI)
    fix i assume i: "i < length (trail ?s)"
    show "case reason ?s (trail ?s ! i) of Some r \<Rightarrow> r < length (s_clauses ?s) \<and> reason_clause ?s i (s_clauses ?s ! r)
        | None \<Rightarrow> i \<in> set (trail_lim ?s)"
    proof (cases "i < length (trail s)")
      case True
      have "reason_clause ?s i c" if "reason_clause s i c" for c
        by (rule reason_clause_cong [OF that True refl V(3,2)]) (use True in auto)
      then show ?thesis
        using reasons_okD [OF core_invD(2) [OF inv] True] old [OF True] by (auto split: option.splits)
    next
      case False
      then have i: "i = length (trail s)" using i by simp
      have "reason_clause ?s i (s_clauses s ! r)"
        unfolding reason_clause_def
      proof (intro conjI ballI)
        show "\<exists>la\<in>set (s_clauses s ! r). lit_var la = trail ?s ! i \<and> ltrue ?s la" using c(1) V(1) i by auto
        fix l' assume "l' \<in> set (s_clauses s ! r)"
        then have "l' = l \<or> lfalse s l'" by (rule c(2))
        moreover have "lfalse s l' \<Longrightarrow> lit_var l' \<in> set (trail s)" using trail_okD(2) [OF T] by (simp add: lfalse_def)
        ultimately show "lit_var l' = trail ?s ! i \<and> ltrue ?s l' \<or> lfalse ?s l' \<and> lit_var l' \<in> set (take i (trail ?s))"
          using V(1,2) i by auto
      qed
      then show ?thesis using i V(8) r by simp
    qed
  qed
  have "store_ok F ?s" using core_invD(3) [OF inv] by (simp add: store_ok_def)
  then show ?thesis using T' R' core_invD(4) [OF inv] by (simp add: core_inv_def)
qed

lemma push_lit_queue_ok:
  assumes "queue_ok s" and "trail_ok s" and "assign s (lit_var l) = None"
  shows "queue_ok (push_lit l r s)"
  using assms push_lit_vals(5,7) [OF assms(3), where r = r] trail_okD(2) [OF assms(2)]
  by (auto simp: queue_ok_def)

lemma push_lit_watch_pair:
  assumes "watch_pair s w w'" and "assign s (lit_var l) = None"
  shows "watch_pair (push_lit l r s) w w'"
proof -
  note V = push_lit_vals [OF assms(2), where r = r]
  have "ltrue (push_lit l r s) w' \<and> level (push_lit l r s) (lit_var w') \<le> level (push_lit l r s) (lit_var w)"
    if f: "lfalse (push_lit l r s) w" and q: "lit_var w \<notin> set (prop_queue (push_lit l r s))"
  proof -
    have "lfalse s w" using V(4) [OF f] q by auto
    then have "ltrue s w'" "level s (lit_var w') \<le> level s (lit_var w)" using assms(1) q by (auto simp: watch_pair_def)
    then show ?thesis using V(3,5) \<open>lfalse s w\<close> by (simp add: ltrue_def lfalse_def)
  qed
  then show ?thesis by (simp add: watch_pair_def)
qed

lemma push_lit_two_watch:
  "two_watch ex s \<Longrightarrow> assign s (lit_var l) = None \<Longrightarrow> two_watch ex (push_lit l r s)"
  using push_lit_watch_pair by (fastforce simp: two_watch_def Let_def)

lemma push_lit_units_ok:
  assumes "units_ok s" and "assign s (lit_var l) = None"
  shows "units_ok (push_lit l r s)"
  using assms push_lit_vals(3,5) [OF assms(2), where r = r] by (auto simp: units_ok_def ltrue_def)

end
