(* ===== verification/Sat_Propagate.thy ===== *)
theory Sat_Propagate
  imports Sat_Invariant
begin

text \<open>
  Unit propagation keeps the invariants, reports only clauses all of whose literals are false, and always
  finishes within its fuel.
\<close>

section \<open>Permuting a stored clause\<close>

lemma set_clause_simps [simp]:
  "s_num_vars (set_clause ci c s) = s_num_vars s" "s_clauses (set_clause ci c s) = (s_clauses s)[ci := c]"
  "watches (set_clause ci c s) = watches s" "assign (set_clause ci c s) = assign s"
  "level (set_clause ci c s) = level s" "reason (set_clause ci c s) = reason s" "trail (set_clause ci c s) = trail s"
  "trail_lim (set_clause ci c s) = trail_lim s" "prop_queue (set_clause ci c s) = prop_queue s"
  "seen (set_clause ci c s) = seen s" "num_original (set_clause ci c s) = num_original s"
  "decision_level (set_clause ci c s) = decision_level s"
  by (simp_all add: set_clause_def decision_level_def)

lemma set_clause_vals [simp]:
  "lfalse (set_clause ci c s) = lfalse s" "ltrue (set_clause ci c s) = ltrue s"
  "watch_pair (set_clause ci c s) = watch_pair s" "lit_value (set_clause ci c s) = lit_value s"
  by (auto simp: fun_eq_iff lfalse_def ltrue_def watch_pair_def lit_value_def)

lemma set_clause_core:
  assumes inv: "core_inv F s" and m: "mset c = mset (s_clauses s ! ci)" and ci: "ci < length (s_clauses s)"
  shows "core_inv F (set_clause ci c s)"
proof -
  let ?s = "set_clause ci c s"
  have set: "set c = set (s_clauses s ! ci)" by (rule mset_eq_setD [OF m])
  have "trail_ok ?s" using core_invD(1) [OF inv] by (simp add: trail_ok_def)
  moreover have "reasons_ok ?s"
    unfolding reasons_ok_def
  proof (intro allI impI)
    fix i assume "i < length (trail ?s)"
    then have i: "i < length (trail s)" by simp
    have "reason_clause ?s i ((s_clauses s)[ci := c] ! r)" if "reason_clause s i (s_clauses s ! r)" for r
      by (rule reason_clause_cong [OF that i]) (use set ci in \<open>auto simp: nth_list_update\<close>)
    then show "case reason ?s (trail ?s ! i) of Some r \<Rightarrow> r < length (s_clauses ?s) \<and> reason_clause ?s i (s_clauses ?s ! r)
        | None \<Rightarrow> i \<in> set (trail_lim ?s)"
      using reasons_okD [OF core_invD(2) [OF inv] i] by (auto split: option.splits)
  qed
  moreover have "store_ok F ?s"
  proof -
    have S: "store_ok F s" by (rule core_invD(3) [OF inv])
    have "entails F c \<and> (\<forall>l\<in>set c. lit_var l < s_num_vars s)"
      using S set ci by (auto simp: store_ok_def entails_def clause_true_def)
    then show ?thesis
      using S m ci by (auto simp: store_ok_def nth_list_update dest!: set_update_subset_insert [THEN subsetD])
  qed
  ultimately show ?thesis using core_invD(4) [OF inv] by (simp add: core_inv_def)
qed

lemma set_clause_units:
  "units_ok s \<Longrightarrow> 2 \<le> length c \<Longrightarrow> units_ok (set_clause ci c s)"
  by (auto simp: units_ok_def lfalse_def ltrue_def dest!: set_update_subset_insert [THEN subsetD])

lemma set_clause_queue: "queue_ok (set_clause ci c s) = queue_ok s"
  by (simp add: queue_ok_def)

lemma watches_simps [simp]:
  "core_inv F (s\<lparr>watches := w\<rparr>) = core_inv F s" "queue_ok (s\<lparr>watches := w\<rparr>) = queue_ok s"
  "units_ok (s\<lparr>watches := w\<rparr>) = units_ok s" "two_watch ex (s\<lparr>watches := w\<rparr>) = two_watch ex s"
  "lfalse (s\<lparr>watches := w\<rparr>) = lfalse s" "ltrue (s\<lparr>watches := w\<rparr>) = ltrue s"
  "decision_level (s\<lparr>watches := w\<rparr>) = decision_level s"
  by (simp_all add: core_inv_def trail_ok_def reasons_ok_def reason_clause_def store_ok_def queue_ok_def
      units_ok_def two_watch_def watch_pair_def lfalse_def ltrue_def decision_level_def fun_eq_iff cong: option.case_cong)

lemma count_list_take2: "2 \<le> length c \<Longrightarrow> count_list (take 2 c) l = of_bool (c ! 0 = l) + of_bool (c ! 1 = l)"
  by (cases c; cases "tl c") (auto simp: numeral_2_eq_2)

lemma watch_count_pos:
  assumes "0 < watch_count cs ci l"
  shows "ci < length cs" and "2 \<le> length (cs ! ci)" and "cs ! ci ! 0 = l \<or> cs ! ci ! 1 = l"
  using assms by (auto simp: watch_count_def count_list_take2 split: if_splits)

lemma normalise_facts:
  assumes "2 \<le> length c" and "c ! 0 = fl \<or> c ! 1 = fl"
  shows "normalise fl c ! 1 = fl" and "length (normalise fl c) = length c" and "mset (normalise fl c) = mset c"
    and "{normalise fl c ! 0, normalise fl c ! 1} = {c ! 0, c ! 1}"
    and "count_list (take 2 (normalise fl c)) l = count_list (take 2 c) l"
proof -
  obtain a b d where c: "c = a # b # d" using assms(1) by (cases c; cases "tl c") auto
  show "normalise fl c ! 1 = fl" "length (normalise fl c) = length c" "mset (normalise fl c) = mset c"
    "{normalise fl c ! 0, normalise fl c ! 1} = {c ! 0, c ! 1}"
    "count_list (take 2 (normalise fl c)) l = count_list (take 2 c) l"
    using assms(2) by (auto simp: c normalise_def swap_def numeral_2_eq_2)
qed

section \<open>Propagation\<close>

definition loop_watch :: "lit \<Rightarrow> nat list \<Rightarrow> (nat \<Rightarrow> nat list) \<Rightarrow> clause list \<Rightarrow> bool" where
  "loop_watch fl ws_fl ws cs \<longleftrightarrow>
     (\<forall>l ci. count_list (if l = fl then ws_fl else ws (lit_code l)) ci = watch_count cs ci l)"

lemma loop_watchD:
  "loop_watch fl ws_fl ws cs \<Longrightarrow> count_list (if l = fl then ws_fl else ws (lit_code l)) ci = watch_count cs ci l"
  by (simp add: loop_watch_def)

lemma loop_watchI:
  "(\<And>l ci. count_list (if l = fl then ws_fl else ws (lit_code l)) ci = watch_count cs ci l) \<Longrightarrow> loop_watch fl ws_fl ws cs"
  by (simp only: loop_watch_def) simp

definition prop_inv :: "clause list \<Rightarrow> lit \<Rightarrow> nat list \<Rightarrow> nat list \<Rightarrow> 'f solver \<Rightarrow> bool" where
  "prop_inv F fl rest keep s \<longleftrightarrow> core_inv F s \<and> queue_ok s \<and> units_ok s \<and>
     lfalse s fl \<and> level s (lit_var fl) = decision_level s \<and>
     loop_watch fl (keep @ rest) (watches s) (s_clauses s) \<and> two_watch (\<lambda>l ci. l = fl \<and> ci \<in> set rest) s \<and>
     (\<forall>ci\<in>set keep. ltrue s (s_clauses s ! ci ! 0) \<or> ltrue s (s_clauses s ! ci ! 1))"

lemma prop_invD:
  assumes "prop_inv F fl rest keep s"
  shows "core_inv F s" and "queue_ok s" and "units_ok s" and "lfalse s fl" and "level s (lit_var fl) = decision_level s"
    and "loop_watch fl (keep @ rest) (watches s) (s_clauses s)"
    and "two_watch (\<lambda>l ci. l = fl \<and> ci \<in> set rest) s"
    and "ci \<in> set keep \<Longrightarrow> ltrue s (s_clauses s ! ci ! 0) \<or> ltrue s (s_clauses s ! ci ! 1)"
  using assms by (auto simp: prop_inv_def)

lemma two_watchD:
  assumes "two_watch ex s" and "ci < length (s_clauses s)" and "2 \<le> length (s_clauses s ! ci)"
  shows "ex (s_clauses s ! ci ! 0) ci \<or> watch_pair s (s_clauses s ! ci ! 0) (s_clauses s ! ci ! 1)"
    and "ex (s_clauses s ! ci ! 1) ci \<or> watch_pair s (s_clauses s ! ci ! 1) (s_clauses s ! ci ! 0)"
  using assms by (auto simp: two_watch_def Let_def)

lemma two_watch_set_clause:
  assumes "two_watch ex s" and "ci < length (s_clauses s)"
    and "\<And>l cj. cj \<noteq> ci \<Longrightarrow> ex l cj \<Longrightarrow> ex' l cj"
    and "2 \<le> length c \<Longrightarrow> ex' (c ! 0) ci \<or> watch_pair s (c ! 0) (c ! 1)"
    and "2 \<le> length c \<Longrightarrow> ex' (c ! 1) ci \<or> watch_pair s (c ! 1) (c ! 0)"
  shows "two_watch ex' (set_clause ci c s)"
  using assms by (auto simp: two_watch_def Let_def nth_list_update)

text \<open>Moving the false watch to index 1.\<close>

lemma prop_inv_normalise:
  assumes inv: "prop_inv F fl (ci # rest) keep s"
  defines "c \<equiv> normalise fl (s_clauses s ! ci)"
  shows "prop_inv F fl (ci # rest) keep (set_clause ci c s)" and "ci < length (s_clauses s)" and "2 \<le> length c" and "c ! 1 = fl"
proof -
  note I = prop_invD [OF inv]
  have "0 < watch_count (s_clauses s) ci fl" using loop_watchD [OF I(6), of fl ci] by (simp add: count_list_append)
  note W = watch_count_pos [OF this]
  note N = normalise_facts [OF W(2,3), folded c_def]
  show ci: "ci < length (s_clauses s)" and "2 \<le> length c" and "c ! 1 = fl" using W N by auto
  have "watch_count (s_clauses (set_clause ci c s)) cj l = watch_count (s_clauses s) cj l" for cj l
    using N(2,5) W by (cases "cj = ci") (simp_all add: watch_count_def)
  then have wc: "loop_watch fl (keep @ ci # rest) (watches s) ((s_clauses s)[ci := c])"
    using I(6) by (simp add: loop_watch_def)
  have tw: "two_watch (\<lambda>l cj. l = fl \<and> cj \<in> set (ci # rest)) (set_clause ci c s)"
  proof (rule two_watch_set_clause [OF I(7) ci])
    have "c ! 0 = s_clauses s ! ci ! 0 \<and> c ! 1 = s_clauses s ! ci ! 1 \<or> c ! 0 = s_clauses s ! ci ! 1 \<and> c ! 1 = s_clauses s ! ci ! 0"
      using N(4) by (auto simp: doubleton_eq_iff)
    then show "(c ! 0 = fl \<and> ci \<in> set (ci # rest)) \<or> watch_pair s (c ! 0) (c ! 1)"
        "(c ! 1 = fl \<and> ci \<in> set (ci # rest)) \<or> watch_pair s (c ! 1) (c ! 0)"
      using two_watchD [OF I(7) W(1,2)] by metis+
  qed auto
  have k: "ltrue s (s_clauses (set_clause ci c s) ! cj ! 0) \<or> ltrue s (s_clauses (set_clause ci c s) ! cj ! 1)"
    if "cj \<in> set keep" for cj
    using I(8) [OF that] N(4) ci by (auto simp: nth_list_update doubleton_eq_iff)
  show "prop_inv F fl (ci # rest) keep (set_clause ci c s)"
    using I set_clause_core [OF I(1) N(3) ci] set_clause_units [OF I(3), of c ci] W(2) N(2) wc tw k
    by (simp add: prop_inv_def set_clause_queue)
qed

text \<open>One watcher whose clause has been normalised.\<close>

lemma prop_inv_keep:
  assumes inv: "prop_inv F fl (ci # rest) keep s" and ci: "ci < length (s_clauses s)" "s_clauses s ! ci = c"
    and c: "2 \<le> length c" "c ! 1 = fl" and t: "ltrue s (c ! 0)"
  shows "prop_inv F fl rest (keep @ [ci]) s"
proof -
  note I = prop_invD [OF inv]
  have "lit_var (c ! 0) \<in> set (trail s)"
    using t trail_okD(2) [OF core_invD(1) [OF I(1)]] by (simp add: ltrue_def)
  then have lev: "level s (lit_var (c ! 0)) \<le> level s (lit_var fl)"
    using level_le_decision [OF core_invD(1) [OF I(1)]] I(5) by simp
  have "two_watch (\<lambda>l cj. l = fl \<and> cj \<in> set rest) (set_clause ci c s)"
    by (rule two_watch_set_clause [OF I(7) ci(1)]) (use c t lev ltrue_not_lfalse in \<open>auto simp: watch_pair_def\<close>)
  moreover have "set_clause ci c s = s" using ci list_update_id [of "s_clauses s" ci] by (simp add: set_clause_def)
  ultimately show ?thesis
    using I t ci(2) by (simp add: prop_inv_def)
qed

lemma prop_inv_move:
  assumes inv: "prop_inv F fl (ci # rest) keep s" and ci: "ci < length (s_clauses s)" "s_clauses s ! ci = c"
    and c: "2 \<le> length c" "c ! 1 = fl" and nt: "\<not> ltrue s (c ! 0)"
    and k: "2 \<le> k" "k < length c" "\<not> lfalse s (c ! k)" and c': "c' = swap 1 k c"
  shows "prop_inv F fl rest keep ((set_clause ci c' s)\<lparr>watches := push_watch (c' ! 1) ci (watches s)\<rparr>)"
proof -
  note I = prop_invD [OF inv]
  have c'k: "c' ! 0 = c ! 0" "c' ! 1 = c ! k" "length c' = length c" "mset c' = mset c"
    using k c by (cases "c = []"; simp add: c' nth_swap)+
  have new: "c ! k \<noteq> fl" using k(3) I(4) by auto
  have ck: "ci \<notin> set keep" using I(8) [of ci] ci(2) c(2) nt I(4) ltrue_not_lfalse by auto
  have tw: "two_watch (\<lambda>l cj. l = fl \<and> cj \<in> set rest) (set_clause ci c' s)"
  proof (rule two_watch_set_clause [OF I(7) ci(1)])
    show "(c' ! 1 = fl \<and> ci \<in> set rest) \<or> watch_pair s (c' ! 1) (c' ! 0)" unfolding c'k watch_pair_def using k(3) by blast
    show "(c' ! 0 = fl \<and> ci \<in> set rest) \<or> watch_pair s (c' ! 0) (c' ! 1)"
    proof (cases "c ! 0 = fl")
      case True
      then have "watch_count (s_clauses s) ci fl = 2" using ci c by (simp add: watch_count_def count_list_take2)
      then have "count_list (keep @ rest) ci = 1" using loop_watchD [OF I(6), of fl ci] by simp
      then have "ci \<in> set rest" using ck by (metis Un_iff count_list_0_iff set_append zero_neq_one)
      then show ?thesis using True c'k by simp
    next
      case False
      then have "watch_pair s (c ! 0) fl" using two_watchD(1) [OF I(7) ci(1)] ci(2) c by auto
      then show ?thesis using I(4) ltrue_not_lfalse by (auto simp: c'k watch_pair_def)
    qed
  qed auto
  have wc': "count_list (if l = fl then keep @ rest else push_watch (c' ! 1) ci (watches s) (lit_code l)) cj
      = watch_count (s_clauses (set_clause ci c' s)) cj l" for l cj
  proof (cases "cj = ci")
    case False
    have "count_list (push_watch (c' ! 1) ci (watches s) (lit_code l)) cj = count_list (watches s (lit_code l)) cj"
      using False by (simp add: push_watch_def)
    then show ?thesis using loop_watchD [OF I(6), of l cj] False by (auto simp: watch_count_def split: if_splits)
  next
    case True
    have "count_list (push_watch (c' ! 1) ci (watches s) (lit_code l)) ci
        = count_list (watches s (lit_code l)) ci + of_bool (l = c ! k)"
      unfolding c'k using lit_code_inject [of l "c ! k"] by (auto simp: push_watch_def)
    moreover have "watch_count (s_clauses s) ci l = of_bool (c ! 0 = l) + of_bool (fl = l)"
      using ci c by (simp add: watch_count_def count_list_take2)
    moreover have "watch_count (s_clauses (set_clause ci c' s)) ci l = of_bool (c ! 0 = l) + of_bool (c ! k = l)"
      using ci c c'k by (simp add: watch_count_def count_list_take2)
    ultimately show ?thesis using loop_watchD [OF I(6), of l ci] True new by (auto split: if_splits)
  qed
  then have wc: "loop_watch fl (keep @ rest) (push_watch (c' ! 1) ci (watches s)) ((s_clauses s)[ci := c'])"
    by (intro loop_watchI) (simp only: set_clause_simps)
  have "core_inv F (set_clause ci c' s)" using set_clause_core [OF I(1) _ ci(1)] c'k(4) ci(2) by simp
  moreover have "units_ok (set_clause ci c' s)" using set_clause_units [OF I(3)] c'k(3) c(1) by simp
  moreover have "ltrue s ((s_clauses s)[ci := c'] ! cj ! 0) \<or> ltrue s ((s_clauses s)[ci := c'] ! cj ! 1)"
    if "cj \<in> set keep" for cj
    using I(8) [OF that] ck that by (cases "cj = ci") auto
  ultimately show ?thesis
    using I wc tw by (simp add: prop_inv_def set_clause_queue)
qed

lemma prop_inv_push:
  assumes inv: "prop_inv F fl (ci # rest) keep s" and ci: "ci < length (s_clauses s)" "s_clauses s ! ci = c"
    and c: "2 \<le> length c" "c ! 1 = fl" and un: "assign s (lit_var (c ! 0)) = None"
    and fs: "\<And>k. 2 \<le> k \<Longrightarrow> k < length c \<Longrightarrow> lfalse s (c ! k)"
  shows "prop_inv F fl rest (keep @ [ci]) (push_lit (c ! 0) (Some ci) s)"
proof (rule prop_inv_keep [OF _ _ _ c])
  note I = prop_invD [OF inv] and V = push_lit_vals [OF un, where r = "Some ci"]
  show "ci < length (s_clauses (push_lit (c ! 0) (Some ci) s))" "s_clauses (push_lit (c ! 0) (Some ci) s) ! ci = c"
    using ci by simp_all
  show "ltrue (push_lit (c ! 0) (Some ci) s) (c ! 0)" by (rule V(1))
  have c0: "c ! 0 \<in> set c" using c(1) by (intro nth_mem) linarith
  have others: "l = c ! 0 \<or> lfalse s l" if "l \<in> set c" for l
  proof -
    obtain k where k: "k < length c" "l = c ! k" using \<open>l \<in> set c\<close> by (auto simp: in_set_conv_nth)
    consider "k = 0" | "k = 1" | "2 \<le> k" by linarith
    then show ?thesis using k c fs I(4) by cases auto
  qed
  have "lit_var (c ! 0) < s_num_vars s"
    using core_invD(3) [OF I(1)] ci c0 by (auto simp: store_ok_def)
  then have core: "core_inv F (push_lit (c ! 0) (Some ci) s)"
    using push_lit_core [OF I(1) un _ ci(1)] others c0 ci(2) by blast
  have fl: "level (push_lit (c ! 0) (Some ci) s) (lit_var fl) = level s (lit_var fl)"
    using V(5) I(4) by (simp add: lfalse_def)
  have "ltrue (push_lit (c ! 0) (Some ci) s) (s_clauses s ! cj ! 0) \<or> ltrue (push_lit (c ! 0) (Some ci) s) (s_clauses s ! cj ! 1)"
    if "cj \<in> set keep" for cj
    using I(8) [OF that] V(3) by blast
  then show "prop_inv F fl (ci # rest) keep (push_lit (c ! 0) (Some ci) s)"
    unfolding prop_inv_def
    using core push_lit_queue_ok [OF I(2) core_invD(1) [OF I(1)] un] push_lit_units_ok [OF I(3) un]
      V(2) [OF I(4)] fl I(5,6) push_lit_two_watch [OF I(7) un] by simp
qed

lemma find_replacement_cases:
  "find_replacement s c = Some k \<Longrightarrow> 2 \<le> k \<and> k < length c \<and> \<not> lfalse s (c ! k)"
  "find_replacement s c = None \<Longrightarrow> 2 \<le> k \<Longrightarrow> k < length c \<Longrightarrow> lfalse s (c ! k)"
  by (auto simp: find_replacement_def find_Some_iff find_None_iff lit_value_simps)

text \<open>What the walk over the watchers leaves behind.\<close>

definition conflict_at :: "clause list \<Rightarrow> lit \<Rightarrow> nat list \<Rightarrow> nat \<Rightarrow> 'f solver \<Rightarrow> bool" where
  "conflict_at F fl keep ci s \<longleftrightarrow> core_inv F s \<and> queue_ok s \<and> units_ok s \<and> ci < length (s_clauses s) \<and>
     (\<forall>l\<in>set (s_clauses s ! ci). lfalse s l) \<and> fl \<in> set (s_clauses s ! ci) \<and>
     level s (lit_var fl) = decision_level s \<and> loop_watch fl keep (watches s) (s_clauses s) \<and>
     two_watch (\<lambda>l ci. l = fl) s"

definition same_frame :: "'f solver \<Rightarrow> 'f solver \<Rightarrow> bool" where
  "same_frame s s' \<longleftrightarrow> s_num_vars s' = s_num_vars s \<and> trail_lim s' = trail_lim s \<and>
     length (trail s') + length (prop_queue s) = length (trail s) + length (prop_queue s') \<and>
     length (trail s) \<le> length (trail s') \<and> (\<forall>v. assign s v \<noteq> None \<longrightarrow> assign s' v = assign s v)"

lemma same_frame_refl: "same_frame s s"
  by (simp add: same_frame_def)

lemma same_frame_trans: "same_frame a b \<Longrightarrow> same_frame b c \<Longrightarrow> same_frame a c"
  by (auto simp: same_frame_def)

lemma same_frame_set_clause: "same_frame s (set_clause ci c s)" "same_frame s ((set_clause ci c s)\<lparr>watches := w\<rparr>)"
  by (simp_all add: same_frame_def)

lemma same_frame_push: "assign s (lit_var l) = None \<Longrightarrow> same_frame s (push_lit l r s)"
  by (auto simp: same_frame_def push_lit_def)

lemma prop_watchers_correct:
  assumes "prop_inv F fl rest keep s" and "prop_watchers fl rest keep s = (cf, keep', s')"
  shows "same_frame s s' \<and> (case cf of None \<Rightarrow> prop_inv F fl [] keep' s' | Some ci \<Rightarrow> conflict_at F fl keep' ci s')"
  using assms
proof (induction rest arbitrary: keep s)
  case Nil
  then show ?case by (simp add: same_frame_refl)
next
  case (Cons ci rest)
  define c where "c = normalise fl (s_clauses s ! ci)"
  define s1 where "s1 = set_clause ci c s"
  note N = prop_inv_normalise [OF Cons.prems(1), folded c_def, folded s1_def]
  have ci: "ci < length (s_clauses s1)" "s_clauses s1 ! ci = c" using N(2) by (simp_all add: s1_def)
  have f1: "same_frame s s1" by (simp add: s1_def same_frame_set_clause)
  have step: "?case" if "prop_inv F fl rest keep1 s2" "prop_watchers fl rest keep1 s2 = (cf, keep', s')" "same_frame s1 s2" for keep1 s2
    using Cons.IH [OF that(1,2)] same_frame_trans [OF f1 same_frame_trans [OF that(3)]] by blast
  have w1: "watches s1 = watches s" by (simp add: s1_def)
  have eq: "prop_watchers fl (ci # rest) keep s =
      (if ltrue s1 (c ! 0) then prop_watchers fl rest (keep @ [ci]) s1
       else case find_replacement s1 c of
              Some k \<Rightarrow> prop_watchers fl rest keep ((set_clause ci (swap 1 k c) s1)\<lparr>watches := push_watch (swap 1 k c ! 1) ci (watches s1)\<rparr>)
            | None \<Rightarrow> (case lit_value s1 (c ! 0) of
                 Some False \<Rightarrow> (Some ci, (keep @ [ci]) @ rest, s1)
               | None \<Rightarrow> prop_watchers fl rest (keep @ [ci]) (snd (enqueue (c ! 0) (Some ci) s1))
               | Some True \<Rightarrow> prop_watchers fl rest (keep @ [ci]) s1))"
    by (simp only: prop_watchers.simps Let_def c_def [symmetric] s1_def [symmetric] lit_value_simps(1) set_clause_simps(3) w1)
  show ?case
  proof (cases "ltrue s1 (c ! 0)")
    case True
    show ?thesis
      by (rule step [OF prop_inv_keep [OF N(1) ci N(3,4) True]]) (use Cons.prems(2) True eq in \<open>auto simp: same_frame_refl\<close>)
  next
    case nt: False
    show ?thesis
    proof (cases "find_replacement s1 c")
      case (Some k)
      note k = find_replacement_cases(1) [OF Some]
      show ?thesis
        by (rule step [OF prop_inv_move [OF N(1) ci N(3,4) nt _ _ _ refl]])
          (use k Cons.prems(2) nt Some eq same_frame_set_clause in auto)
    next
      case None
      note fs = find_replacement_cases(2) [OF None]
      show ?thesis
      proof (cases "lfalse s1 (c ! 0)")
        case True
        then have r: "cf = Some ci" "keep' = (keep @ [ci]) @ rest" "s' = s1"
          using Cons.prems(2) eq nt None by (auto simp: lit_value_simps(2) [THEN iffD2])
        note I = prop_invD [OF N(1)]
        have "lfalse s1 l" if "l \<in> set c" for l
        proof -
          obtain k where k: "k < length c" "l = c ! k" using \<open>l \<in> set c\<close> by (auto simp: in_set_conv_nth)
          consider "k = 0" | "k = 1" | "2 \<le> k" by linarith
          then show ?thesis using k N(4) fs I(4) True by cases auto
        qed
        moreover have "fl \<in> set c" using N(3,4) nth_mem [of 1 c] by auto
        moreover have "two_watch (\<lambda>l ci. l = fl) s1" using I(7) by (auto simp: two_watch_def Let_def)
        ultimately have "conflict_at F fl keep' ci s'"
          using I ci r by (simp add: conflict_at_def)
        then show ?thesis using r f1 by simp
      next
        case False
        then have un: "assign s1 (lit_var (c ! 0)) = None" using nt lit_cases by blast
        have "prop_watchers fl rest (keep @ [ci]) (push_lit (c ! 0) (Some ci) s1) = (cf, keep', s')"
          using Cons.prems(2) eq nt None lit_value_simps(3) [of s1 "c ! 0"] un by (simp add: enqueue_None)
        then show ?thesis
          by (intro step [OF prop_inv_push [OF N(1) ci N(3,4) un fs] _ same_frame_push [OF un]])
      qed
    qed
  qed
qed

text \<open>The state between propagations, with the queue possibly non-empty.\<close>

definition solver_inv :: "clause list \<Rightarrow> 'f solver \<Rightarrow> bool" where
  "solver_inv F s \<longleftrightarrow> core_inv F s \<and> queue_ok s \<and> units_ok s \<and> watch_inv (watches s) (s_clauses s) \<and>
     two_watch (\<lambda>_ _. False) s"

lemma solver_invD:
  assumes "solver_inv F s"
  shows "core_inv F s" and "queue_ok s" and "units_ok s" and "watch_inv (watches s) (s_clauses s)" and "two_watch (\<lambda>_ _. False) s"
  using assms by (auto simp: solver_inv_def)

text \<open>The state in which a conflict is reported: \<open>fl\<close> is the literal whose watchers were being visited.\<close>

definition conflict_inv :: "clause list \<Rightarrow> nat \<Rightarrow> 'f solver \<Rightarrow> bool" where
  "conflict_inv F ci s \<longleftrightarrow> core_inv F s \<and> queue_ok s \<and> units_ok s \<and> ci < length (s_clauses s) \<and>
     (\<forall>l\<in>set (s_clauses s ! ci). lfalse s l) \<and> watch_inv (watches s) (s_clauses s) \<and>
     (\<exists>fl\<in>set (s_clauses s ! ci). level s (lit_var fl) = decision_level s \<and> two_watch (\<lambda>l _. l = fl) s)"

lemma pop_queue_inv:
  assumes inv: "solver_inv F s" and q: "prop_queue s = v # queue"
  defines "fl \<equiv> Lit v (assign s v = Some True)"
  defines "s1 \<equiv> s\<lparr>prop_queue := queue, watches := (watches s)(lit_code fl := [])\<rparr>"
  shows "prop_inv F fl (watches s (lit_code fl)) [] s1"
proof -
  note I = solver_invD [OF inv]
  have v: "v \<in> set (trail s)" "level s v = decision_level s" using I(2) q by (auto simp: queue_ok_def)
  then obtain b where b: "assign s v = Some b" using trail_okD(2) [OF core_invD(1) [OF I(1)]] by auto
  have fl: "lfalse s fl" using b by (auto simp: fl_def lfalse_def)
  have vals: "lfalse s1 = lfalse s" "ltrue s1 = ltrue s" "level s1 = level s" "s_clauses s1 = s_clauses s"
    by (auto simp: s1_def lfalse_def ltrue_def fun_eq_iff)
  have core: "core_inv F s1"
    using I(1) by (simp add: s1_def core_inv_def trail_ok_def reasons_ok_def reason_clause_def store_ok_def
        lfalse_def ltrue_def cong: option.case_cong)
  have lw: "loop_watch fl (watches s (lit_code fl)) (watches s1) (s_clauses s1)"
    using I(4) lit_code_inject by (auto simp: loop_watch_def watch_inv_def s1_def)
  have pair: "w = fl \<or> watch_pair s1 w w'" if "watch_pair s w w'" for w w'
  proof (cases "w = fl")
    case False
    then have "lfalse s w \<Longrightarrow> lit_var w \<noteq> v" using lfalse_unique [OF _ fl, of w] by (auto simp: fl_def)
    then show ?thesis using that q vals by (auto simp: watch_pair_def s1_def)
  qed simp
  have "two_watch (\<lambda>l ci. l = fl \<and> ci \<in> set (watches s (lit_code fl))) s1"
    unfolding two_watch_def Let_def
  proof (intro allI impI)
    fix ci assume ci: "ci < length (s_clauses s1)" and len: "2 \<le> length (s_clauses s1 ! ci)"
    note P = two_watchD [OF I(5), of ci]
    have mem: "ci \<in> set (watches s (lit_code fl))" if "s_clauses s ! ci ! 0 = fl \<or> s_clauses s ! ci ! 1 = fl"
    proof -
      have "0 < watch_count (s_clauses s) ci fl" using ci len that vals by (auto simp: watch_count_def count_list_take2)
      then have "0 < count_list (watches s (lit_code fl)) ci" using I(4) by (simp add: watch_inv_def)
      then show ?thesis by (metis count_list_0_iff less_not_refl)
    qed
    show "(s_clauses s1 ! ci ! 0 = fl \<and> ci \<in> set (watches s (lit_code fl)) \<or> watch_pair s1 (s_clauses s1 ! ci ! 0) (s_clauses s1 ! ci ! 1)) \<and>
        (s_clauses s1 ! ci ! 1 = fl \<and> ci \<in> set (watches s (lit_code fl)) \<or> watch_pair s1 (s_clauses s1 ! ci ! 1) (s_clauses s1 ! ci ! 0))"
      using P ci len mem pair vals by metis
  qed
  moreover have "units_ok s1" using I(3) vals by (simp add: units_ok_def)
  moreover have "queue_ok s1" using I(2) q by (auto simp: queue_ok_def s1_def decision_level_def)
  ultimately show ?thesis
    using core lw fl v vals by (simp add: prop_inv_def fl_def) (simp add: s1_def decision_level_def)
qed

lemma restore_watches:
  "loop_watch fl keep ws cs \<Longrightarrow> watch_inv (ws(lit_code fl := keep)) cs"
  using loop_watchD [of fl keep ws cs] lit_code_inject [of _ fl] unfolding watch_inv_def fun_upd_apply by metis

lemma propagate_loop_step:
  assumes "prop_queue s = v # queue" and "fl = Lit v (assign s v = Some True)"
    and "prop_watchers fl (watches s (lit_code fl)) [] (s\<lparr>prop_queue := queue, watches := (watches s)(lit_code fl := [])\<rparr>) = (cf, keep, s2)"
  shows "propagate_loop (Suc fuel) s =
    (case cf of Some ci \<Rightarrow> Some (Some ci, s2\<lparr>watches := (watches s2)(lit_code fl := keep)\<rparr>)
     | None \<Rightarrow> propagate_loop fuel (s2\<lparr>watches := (watches s2)(lit_code fl := keep)\<rparr>))"
  using assms(3) unfolding assms(2) by (simp add: assms(1) Let_def split: option.splits)

lemma propagate_loop_Nil: "prop_queue s = [] \<Longrightarrow> propagate_loop (Suc fuel) s = Some (None, s)"
  by simp

declare propagate_loop.simps(2) [simp del]

lemma propagate_loop_correct:
  assumes "solver_inv F s" and "propagate_loop fuel s = Some (cf, s')"
  shows "s_num_vars s' = s_num_vars s \<and> trail_lim s' = trail_lim s \<and>
    (\<forall>v. assign s v \<noteq> None \<longrightarrow> assign s' v = assign s v) \<and>
    (case cf of None \<Rightarrow> solver_inv F s' \<and> prop_queue s' = [] | Some ci \<Rightarrow> conflict_inv F ci s')"
  using assms
proof (induction fuel arbitrary: s)
  case (Suc fuel)
  show ?case
  proof (cases "prop_queue s")
    case Nil
    then show ?thesis using Suc.prems by (simp add: propagate_loop_Nil)
  next
    case (Cons v queue)
    define fl where "fl = Lit v (assign s v = Some True)"
    define s1 where "s1 = s\<lparr>prop_queue := queue, watches := (watches s)(lit_code fl := [])\<rparr>"
    obtain cf1 keep s2 where r: "prop_watchers fl (watches s (lit_code fl)) [] s1 = (cf1, keep, s2)" by (metis prod_cases3)
    define s3 where "s3 = s2\<lparr>watches := (watches s2)(lit_code fl := keep)\<rparr>"
    have eq: "propagate_loop (Suc fuel) s = (case cf1 of Some ci \<Rightarrow> Some (Some ci, s3) | None \<Rightarrow> propagate_loop fuel s3)"
      unfolding s3_def by (rule propagate_loop_step [OF Cons fl_def r [unfolded s1_def]])
    note C = prop_watchers_correct [OF pop_queue_inv [OF Suc.prems(1) Cons, folded fl_def, folded s1_def] r]
    have f: "s_num_vars s3 = s_num_vars s" "trail_lim s3 = trail_lim s" "\<forall>v. assign s v \<noteq> None \<longrightarrow> assign s3 v = assign s v"
      using C by (auto simp: same_frame_def s1_def s3_def)
    show ?thesis
    proof (cases cf1)
      case None
      then have "prop_inv F fl [] keep s2" using C by simp
      note I = prop_invD [OF this]
      have "two_watch (\<lambda>_ _. False) s2" using I(7) by (simp add: two_watch_def Let_def)
      then have "solver_inv F s3"
        using I(1-3) restore_watches I(6) by (simp add: solver_inv_def s3_def)
      moreover have "propagate_loop fuel s3 = Some (cf, s')" using Suc.prems(2) eq None by simp
      ultimately show ?thesis using Suc.IH [of s3] f by auto
    next
      case (Some ci)
      have c: "conflict_at F fl keep ci s2" using C Some by simp
      have r': "cf = Some ci" "s' = s3" using Suc.prems(2) eq Some by simp_all
      have "\<exists>fl\<in>set (s_clauses s3 ! ci). level s3 (lit_var fl) = decision_level s3 \<and> two_watch (\<lambda>l _. l = fl) s3"
        by (rule bexI [of _ fl]) (use c in \<open>simp_all add: conflict_at_def s3_def\<close>)
      moreover have "watch_inv (watches s3) (s_clauses s3)"
        using c restore_watches [of fl keep "watches s2" "s_clauses s2"] by (simp add: conflict_at_def s3_def)
      moreover have "core_inv F s3 \<and> queue_ok s3 \<and> units_ok s3 \<and> ci < length (s_clauses s3) \<and>
          (\<forall>l\<in>set (s_clauses s3 ! ci). lfalse s3 l)"
        using c by (simp add: conflict_at_def s3_def)
      ultimately have "conflict_inv F ci s3" unfolding conflict_inv_def by blast
      then show ?thesis using r' f by simp
    qed
  qed
qed simp

text \<open>Each round removes a queue entry, and each entry added uses up an unassigned variable.\<close>

lemma trail_length_le: "trail_ok s \<Longrightarrow> length (trail s) \<le> s_num_vars s"
proof -
  assume T: "trail_ok s"
  then have "set (trail s) \<subseteq> {0..<s_num_vars s}" using trail_okD(3) [OF T] by auto
  then have "card (set (trail s)) \<le> s_num_vars s" using card_mono [of "{0..<s_num_vars s}" "set (trail s)"] by simp
  then show ?thesis using distinct_card [OF trail_okD(1) [OF T]] by simp
qed

lemma propagate_loop_total:
  assumes "solver_inv F s" and "2 * (s_num_vars s - length (trail s)) + length (prop_queue s) < fuel"
  shows "propagate_loop fuel s \<noteq> None"
  using assms
proof (induction fuel arbitrary: s)
  case (Suc fuel)
  show ?case
  proof (cases "prop_queue s")
    case (Cons v queue)
    define fl where "fl = Lit v (assign s v = Some True)"
    define s1 where "s1 = s\<lparr>prop_queue := queue, watches := (watches s)(lit_code fl := [])\<rparr>"
    obtain cf1 keep s2 where r: "prop_watchers fl (watches s (lit_code fl)) [] s1 = (cf1, keep, s2)" by (metis prod_cases3)
    define s3 where "s3 = s2\<lparr>watches := (watches s2)(lit_code fl := keep)\<rparr>"
    have eq: "propagate_loop (Suc fuel) s = (case cf1 of Some ci \<Rightarrow> Some (Some ci, s3) | None \<Rightarrow> propagate_loop fuel s3)"
      unfolding s3_def by (rule propagate_loop_step [OF Cons fl_def r [unfolded s1_def]])
    note C = prop_watchers_correct [OF pop_queue_inv [OF Suc.prems(1) Cons, folded fl_def, folded s1_def] r]
    show ?thesis
    proof (cases cf1)
      case None
      then have "prop_inv F fl [] keep s2" using C by simp
      note I = prop_invD [OF this]
      have "two_watch (\<lambda>_ _. False) s2" using I(7) by (simp add: two_watch_def Let_def)
      then have inv: "solver_inv F s3"
        using I(1-3) restore_watches I(6) by (simp add: solver_inv_def s3_def)
      have frame: "s_num_vars s3 = s_num_vars s" "length (trail s) \<le> length (trail s3)"
          "length (trail s3) + length queue = length (trail s) + length (prop_queue s3)"
        using C by (auto simp: same_frame_def s1_def s3_def)
      have "length (trail s3) \<le> s_num_vars s"
        using trail_length_le [OF core_invD(1) [OF solver_invD(1) [OF inv]]] frame(1) by simp
      then have "2 * (s_num_vars s3 - length (trail s3)) + length (prop_queue s3) < fuel"
        using frame Suc.prems(2) Cons by simp
      then show ?thesis using Suc.IH [OF inv] eq None by simp
    qed (simp add: eq)
  qed (simp add: propagate_loop_Nil)
qed simp

lemma propagate_total: "solver_inv F s \<Longrightarrow> propagate s \<noteq> None"
  unfolding propagate_def by (rule propagate_loop_total) simp_all

end
