(* ===== verification/Sat_Analyze.thy ===== *)
theory Sat_Analyze
  imports Sat_Propagate
begin

text \<open>
  1-UIP conflict analysis: the learnt clause follows from the input, its first literal is the only one of
  the current decision level, and the walk over the trail never falls off its end.
\<close>

text \<open>The literal of an assigned variable that is false.\<close>

definition false_lit_of :: "'f solver \<Rightarrow> nat \<Rightarrow> lit" where
  "false_lit_of s v = Lit v (assign s v = Some True)"

lemma false_lit_of:
  assumes "assign s v \<noteq> None"
  shows "lfalse s (false_lit_of s v)" and "lit_var (false_lit_of s v) = v"
  using assms by (auto simp: false_lit_of_def lfalse_def)

lemma false_lit_of_eq: "lfalse s l \<Longrightarrow> false_lit_of s (lit_var l) = l"
  by (cases l) (auto simp: false_lit_of_def lfalse_def)

definition marks_ok :: "'f solver \<Rightarrow> nat \<Rightarrow> nat \<Rightarrow> marks \<Rightarrow> bool" where
  "marks_ok s d idx m \<longleftrightarrow> (case m of (sn, learnt, counter) \<Rightarrow>
     (\<forall>v. sn v \<longrightarrow> v \<in> set (trail s) \<and> 0 < level s v \<and> (level s v = d \<longrightarrow> v \<in> set (take idx (trail s)))) \<and>
     counter = card {v. sn v \<and> level s v = d} \<and>
     {v. sn v \<and> level s v \<noteq> d} = lit_var ` set learnt \<and>
     (\<forall>l\<in>set learnt. lfalse s l))"

definition current_marks :: "'f solver \<Rightarrow> nat \<Rightarrow> marks \<Rightarrow> nat set" where
  "current_marks s d m = {v. fst m v \<and> level s v = d}"

text \<open>The clause represented by the marks: the collected literals and the false literals of the marked current-level variables.\<close>

definition marks_true :: "'f solver \<Rightarrow> nat \<Rightarrow> valuation \<Rightarrow> marks \<Rightarrow> bool" where
  "marks_true s d \<sigma> m \<longleftrightarrow> (\<exists>l\<in>set (fst (snd m)). lit_val \<sigma> l) \<or>
     (\<exists>v. fst m v \<and> level s v = d \<and> lit_val \<sigma> (false_lit_of s v))"

lemma marks_finite: "marks_ok s d idx m \<Longrightarrow> finite {v. fst m v \<and> level s v = d}"
  by (rule finite_subset [of _ "set (trail s)"]) (auto simp: marks_ok_def)

lemma mark_lit_ok:
  assumes T: "trail_ok s" and m: "marks_ok s d idx m" and f: "lfalse s l" and i: "level s (lit_var l) = d \<Longrightarrow> lit_var l \<in> set (take idx (trail s))"
  shows "marks_ok s d idx (mark_lit (level s) d pivot l m)"
proof -
  obtain sn learnt counter where m_eq: "m = (sn, learnt, counter)" by (metis prod_cases3)
  let ?v = "lit_var l"
  have tr: "?v \<in> set (trail s)" using f trail_okD(2) [OF T] by (simp add: lfalse_def)
  have fin: "finite {v. sn v \<and> level s v = d}" using marks_finite [OF m] by (simp add: m_eq)
  show ?thesis
  proof (cases "Some ?v = pivot \<or> sn ?v \<or> level s ?v = 0")
    case True
    then have "mark_lit (level s) d pivot l m = m" by (auto simp: m_eq mark_lit_def Let_def)
    then show ?thesis using m by simp
  next
    case False
    then have new: "?v \<notin> {v. sn v \<and> level s v = d}" "Some ?v \<noteq> pivot" "\<not> sn ?v" "0 < level s ?v" by auto
    show ?thesis
    proof (cases "level s ?v = d")
      case True
      have "mark_lit (level s) d pivot l m = (sn(?v := True), learnt, Suc counter)"
        using new True by (simp add: m_eq mark_lit_def Let_def)
      moreover have "{v. (sn(?v := True)) v \<and> level s v = d} = insert ?v {v. sn v \<and> level s v = d}"
        "{v. (sn(?v := True)) v \<and> level s v \<noteq> d} = {v. sn v \<and> level s v \<noteq> d}" using True by auto
      ultimately show ?thesis
        using m tr i [OF True] new fin unfolding m_eq marks_ok_def by (simp del: fun_upd_apply) auto
    next
      case other: False
      have "mark_lit (level s) d pivot l m = (sn(?v := True), learnt @ [l], counter)"
        using new other by (simp add: m_eq mark_lit_def Let_def)
      moreover have "{v. (sn(?v := True)) v \<and> level s v = d} = {v. sn v \<and> level s v = d}"
        "{v. (sn(?v := True)) v \<and> level s v \<noteq> d} = insert ?v {v. sn v \<and> level s v \<noteq> d}" using other by auto
      ultimately show ?thesis
        using m tr new f other unfolding m_eq marks_ok_def by (simp del: fun_upd_apply) auto
    qed
  qed
qed

lemma mark_lit_mono:
  "marks_true s d \<sigma> m \<Longrightarrow> marks_true s d \<sigma> (mark_lit lev d pivot l m)"
proof -
  have "fst m v \<Longrightarrow> fst (mark_lit lev d pivot l m) v" for v by (cases m) (simp add: mark_lit_def Let_def)
  moreover have "set (fst (snd m)) \<subseteq> set (fst (snd (mark_lit lev d pivot l m)))"
    by (cases m) (auto simp: mark_lit_def Let_def)
  ultimately show "marks_true s d \<sigma> m \<Longrightarrow> marks_true s d \<sigma> (mark_lit lev d pivot l m)"
    unfolding marks_true_def by blast
qed

lemma mark_lit_marked:
  assumes "lev (lit_var l) > 0" and "Some (lit_var l) \<noteq> pivot"
  shows "fst (mark_lit lev d pivot l m) (lit_var l)"
  using assms by (cases m) (auto simp: mark_lit_def Let_def)

lemma mark_lit_keeps: "fst m v \<Longrightarrow> fst (mark_lit lev d pivot l m) v"
  by (cases m) (auto simp: mark_lit_def Let_def)

lemma fold_mark_keeps: "fst m v \<Longrightarrow> fst (fold (mark_lit lev d pivot) c m) v"
  by (induction c arbitrary: m) (simp_all add: mark_lit_keeps)

lemma fold_mark_mono: "marks_true s d \<sigma> m \<Longrightarrow> marks_true s d \<sigma> (fold (mark_lit lev d pivot) c m)"
  by (induction c arbitrary: m) (simp_all add: mark_lit_mono)

lemma fold_mark_marked:
  assumes "l \<in> set c" and "lev (lit_var l) > 0" and "Some (lit_var l) \<noteq> pivot"
  shows "fst (fold (mark_lit lev d pivot) c m) (lit_var l)"
  using assms(1)
proof (induction c arbitrary: m)
  case (Cons x c)
  show ?case
  proof (cases "x = l")
    case True
    then show ?thesis using mark_lit_marked [where lev = lev, OF assms(2,3)] by (simp add: fold_mark_keeps)
  next
    case False
    then show ?thesis using Cons by simp
  qed
qed simp

lemma fold_mark_ok:
  assumes T: "trail_ok s" and "marks_ok s d idx m"
    and "\<And>l. l \<in> set c \<Longrightarrow> Some (lit_var l) = pivot \<or> lfalse s l \<and> (level s (lit_var l) = d \<longrightarrow> lit_var l \<in> set (take idx (trail s)))"
  shows "marks_ok s d idx (fold (mark_lit (level s) d pivot) c m)"
  using assms(2,3)
proof (induction c arbitrary: m)
  case (Cons x c)
  have "marks_ok s d idx (mark_lit (level s) d pivot x m)"
  proof (cases "Some (lit_var x) = pivot")
    case True
    then show ?thesis using Cons.prems(1) by (cases m) (auto simp: mark_lit_def Let_def)
  next
    case False
    then show ?thesis using mark_lit_ok [OF T Cons.prems(1)] Cons.prems(2) [of x] by simp
  qed
  then show ?case using Cons.IH Cons.prems(2) by simp
qed simp

text \<open>
  Resolving: if the marks (or the pivot's false literal) are forced by the input, marking the other literals of an
  entailed clause keeps the represented clause entailed.
\<close>

lemma fold_mark_entailed:
  assumes inv: "core_inv F s" and m: "marks_ok s d idx (fold (mark_lit (level s) d pivot) c m)"
    and c: "entails F c" and lits: "\<And>l. l \<in> set c \<Longrightarrow> Some (lit_var l) = pivot \<and> ltrue s l \<or> Some (lit_var l) \<noteq> pivot \<and> lfalse s l"
    and \<sigma>: "cnf_sat \<sigma> F"
    and pre: "marks_true s d \<sigma> m \<or> pivot = None \<or> (\<exists>p. pivot = Some p \<and> lit_val \<sigma> (false_lit_of s p))"
  shows "marks_true s d \<sigma> (fold (mark_lit (level s) d pivot) c m)"
proof (cases "marks_true s d \<sigma> m")
  case False
  let ?m = "fold (mark_lit (level s) d pivot) c m"
  obtain l where l: "l \<in> set c" "lit_val \<sigma> l" using c \<sigma> by (auto simp: entails_def clause_true_def)
  have np: "Some (lit_var l) \<noteq> pivot \<and> lfalse s l"
  proof (rule ccontr)
    assume "\<not> ?thesis"
    then have p: "Some (lit_var l) = pivot" "ltrue s l" using lits [OF l(1)] by auto
    then have "lit_val \<sigma> (false_lit_of s (lit_var l))" using pre False by auto
    moreover have "lfalse s (false_lit_of s (lit_var l))" "lit_var (false_lit_of s (lit_var l)) = lit_var l"
      using p(2) false_lit_of [of s "lit_var l"] by (auto simp: ltrue_def)
    ultimately show False using ltrue_lfalse_val [OF p(2)] l(2) by metis
  qed
  then have tr: "lit_var l \<in> set (trail s)" using trail_okD(2) [OF core_invD(1) [OF inv]] by (simp add: lfalse_def)
  have lev: "level s (lit_var l) > 0"
  proof (rule ccontr)
    assume "\<not> ?thesis"
    moreover have "ltrue s (negated l)" using np by (cases l) (auto simp: lfalse_def ltrue_def)
    ultimately have "lit_val \<sigma> (negated l)" using level_0_entailed [OF inv tr _ _ _ \<sigma>, of "negated l"] by simp
    then show False using l(2) by simp
  qed
  have mk: "fst ?m (lit_var l)" using fold_mark_marked [where lev = "level s", OF l(1) lev] np by blast
  show ?thesis
  proof (cases "level s (lit_var l) = d")
    case True
    moreover have "lit_val \<sigma> (false_lit_of s (lit_var l))" using l(2) false_lit_of_eq np by metis
    ultimately show ?thesis using mk unfolding marks_true_def by blast
  next
    case False
    then have "lit_var l \<in> lit_var ` set (fst (snd ?m))" using m mk by (force simp: marks_ok_def split: prod.splits)
    then obtain l' where l': "l' \<in> set (fst (snd ?m))" "lit_var l' = lit_var l" by auto
    then have "lfalse s l'" using m by (auto simp: marks_ok_def split: prod.splits)
    then have "l' = l" using lfalse_unique np l'(2) by blast
    then show ?thesis using l' l(2) by (auto simp: marks_true_def)
  qed
qed (rule fold_mark_mono)

lemma walk_back_exists: "j < idx \<Longrightarrow> sn (tr ! j) \<Longrightarrow> \<exists>i. walk_back sn tr idx = Some i"
  by (induction idx) (auto simp: less_Suc_eq)

definition uip_result :: "clause list \<Rightarrow> 'f solver \<Rightarrow> nat \<Rightarrow> nat \<Rightarrow> (nat \<Rightarrow> bool) \<Rightarrow> clause \<Rightarrow> bool" where
  "uip_result F s d uip sn learnt \<longleftrightarrow> uip \<in> set (trail s) \<and> level s uip = d \<and> {v. sn v} = lit_var ` set learnt \<and>
     (\<forall>l\<in>set learnt. lfalse s l \<and> 0 < level s (lit_var l) \<and> level s (lit_var l) < d) \<and>
     entails F (false_lit_of s uip # learnt)"

text \<open>The most recent marked variable is of the current level.\<close>

lemma walk_back_level:
  assumes T: "trail_ok s" and m: "marks_ok s (decision_level s) idx (sn, learnt, counter)" and idx: "idx \<le> length (trail s)"
    and v: "sn v" "level s v = decision_level s" and wb: "walk_back sn (trail s) idx = Some i"
  shows "level s (trail s ! i) = decision_level s" and "v \<in> set (take (Suc i) (trail s))"
proof -
  have "v \<in> set (take idx (trail s))" using m v by (auto simp: marks_ok_def)
  then obtain j where j: "j < idx" "j < length (trail s)" "v = trail s ! j" by (auto simp: in_set_conv_nth)
  note W = walk_back_Some [OF wb]
  have ji: "j \<le> i" using W j v(1) by (metis not_le)
  have i: "i < length (trail s)" using W idx by simp
  have "level s v \<le> level s (trail s ! i)" using level_mono [OF T ji i] j by simp
  moreover have "level s (trail s ! i) \<le> decision_level s" using level_le_decision [OF T] i by simp
  ultimately show "level s (trail s ! i) = decision_level s" using v(2) by simp
  show "v \<in> set (take (Suc i) (trail s))" using j ji by (auto simp: in_set_conv_nth)
qed

text \<open>Unmarking the variable found.\<close>

lemma unmark_ok:
  assumes T: "trail_ok s" and m: "marks_ok s d idx (sn, learnt, counter)" and d: "d = decision_level s" and idx: "idx \<le> length (trail s)"
    and wb: "walk_back sn (trail s) idx = Some i" and tv: "level s (trail s ! i) = d"
  shows "marks_ok s d i (sn(trail s ! i := False), learnt, counter - 1)"
proof -
  note W = walk_back_Some [OF wb]
  let ?tv = "trail s ! i" and ?S = "{v. sn v \<and> level s v = d}"
  have eq: "{v. (sn(?tv := False)) v \<and> level s v = d} = ?S - {?tv}"
      "{v. (sn(?tv := False)) v \<and> level s v \<noteq> d} = {v. sn v \<and> level s v \<noteq> d}" using tv by auto
  have "?tv \<in> ?S" using W tv by simp
  then have card: "card (?S - {?tv}) = counter - 1"
    using m marks_finite [OF m] by (simp add: marks_ok_def)
  have "v \<in> set (take i (trail s))" if "sn v" "v \<noteq> ?tv" "level s v = d" for v
  proof -
    have "v \<in> set (take (Suc i) (trail s))" using walk_back_level(2) [OF T m [unfolded d] idx _ _ wb] that d by simp
    moreover have "i < length (trail s)" using W idx by simp
    ultimately show ?thesis using that(2) by (simp add: take_Suc_conv_app_nth)
  qed
  then show ?thesis using m eq card unfolding marks_ok_def prod.case by (simp del: fun_upd_apply) auto
qed

lemma marks_ok_zero: "marks_ok s d idx (sn, learnt, 0) \<Longrightarrow> {v. sn v \<and> level s v = d} = {}"
  using marks_finite [of s d idx "(sn, learnt, 0)"] by (simp add: marks_ok_def)

lemma marks_ok_pos:
  assumes "marks_ok s d idx (sn, learnt, counter)" and "counter \<noteq> 0"
  shows "\<exists>v. sn v \<and> level s v = d"
proof -
  have "card {v. sn v \<and> level s v = d} \<noteq> 0" using assms by (simp add: marks_ok_def)
  then have "{v. sn v \<and> level s v = d} \<noteq> {}" by (metis card.empty)
  then show ?thesis by blast
qed

lemma uip_resultI:
  assumes inv: "core_inv F s" and d: "d = decision_level s" and tv: "tv \<in> set (trail s)" "level s tv = d"
    and m: "marks_ok s d i (sn(tv := False), learnt, 0)"
    and ent: "\<And>\<sigma>. cnf_sat \<sigma> F \<Longrightarrow> marks_true s d \<sigma> (sn, learnt, k)"
  shows "uip_result F s d tv (sn(tv := False)) learnt"
proof -
  let ?sn = "sn(tv := False)"
  have none: "{v. ?sn v \<and> level s v = d} = {}" by (rule marks_ok_zero [OF m])
  then have "{v. ?sn v} = {v. ?sn v \<and> level s v \<noteq> d}" by blast
  then have sn: "{v. ?sn v} = lit_var ` set learnt" using m by (simp add: marks_ok_def)
  have lits: "lfalse s l \<and> 0 < level s (lit_var l) \<and> level s (lit_var l) < d" if l: "l \<in> set learnt" for l
  proof -
    have "lit_var l \<in> {v. ?sn v \<and> level s v \<noteq> d}" using m l by (auto simp: marks_ok_def)
    then have "lit_var l \<in> set (trail s)" "0 < level s (lit_var l)" "level s (lit_var l) \<noteq> d"
      using m by (auto simp: marks_ok_def)
    moreover have "level s (lit_var l) \<le> d" using level_le_decision [OF core_invD(1) [OF inv] calculation(1)] d by simp
    moreover have "lfalse s l" using m l by (simp add: marks_ok_def)
    ultimately show ?thesis by simp
  qed
  have "entails F (false_lit_of s tv # learnt)"
    unfolding entails_def
  proof (intro allI impI)
    fix \<sigma> assume "cnf_sat \<sigma> F"
    then have "marks_true s d \<sigma> (sn, learnt, k)" by (rule ent)
    moreover have "v = tv" if "sn v" "level s v = d" for v
    proof (rule ccontr)
      assume "v \<noteq> tv"
      then have "v \<in> {v. ?sn v \<and> level s v = d}" using that by simp
      then show False using none by blast
    qed
    ultimately show "clause_true \<sigma> (false_lit_of s tv # learnt)"
      by (auto simp: marks_true_def clause_true_def)
  qed
  then show ?thesis using tv sn lits by (simp add: uip_result_def)
qed

lemma decision_is_last_mark:
  assumes T: "trail_ok s" and d: "d = decision_level s" and i: "i \<in> set (trail_lim s)"
    and m: "marks_ok s d i (sn, learnt, counter)"
  shows "counter = 0"
proof (rule ccontr)
  assume "counter \<noteq> 0"
  then obtain v where v: "sn v" "level s v = d" using marks_ok_pos [OF m] by blast
  then have "v \<in> set (take i (trail s))" using m by (simp add: marks_ok_def)
  then obtain j where j: "j < i" "j < length (trail s)" "v = trail s ! j" by (auto simp: in_set_conv_nth)
  have "length (filter (\<lambda>k. k \<le> j) (trail_lim s)) < length (trail_lim s)"
    using i j by (intro length_filter_less [of i]) auto
  then show False using trail_okD(6) [OF T j(2)] v d j by (simp add: decision_level_def)
qed

lemma analyze_loop_correct:
  assumes inv: "core_inv F s" and d: "d = decision_level s" and "idx \<le> length (trail s)" and "marks_ok s d idx m"
    and "ci < length (s_clauses s)"
    and "\<And>l. l \<in> set (s_clauses s ! ci) \<Longrightarrow> Some (lit_var l) = pivot \<and> ltrue s l \<or>
      Some (lit_var l) \<noteq> pivot \<and> lfalse s l \<and> lit_var l \<in> set (take idx (trail s))"
    and "\<And>\<sigma>. cnf_sat \<sigma> F \<Longrightarrow> marks_true s d \<sigma> m \<or> pivot = None \<or> (\<exists>p. pivot = Some p \<and> lit_val \<sigma> (false_lit_of s p))"
    and "(\<exists>l\<in>set (s_clauses s ! ci). Some (lit_var l) \<noteq> pivot \<and> level s (lit_var l) = d \<and> 0 < d) \<or> (\<exists>v. fst m v \<and> level s v = d)"
  shows "\<exists>uip sn learnt. analyze_loop s d ci pivot idx m = Some (uip, sn, learnt, 0) \<and> uip_result F s d uip sn learnt"
  using assms(3-)
proof (induction idx arbitrary: ci pivot m rule: less_induct)
  case (less idx)
  note T = core_invD(1) [OF inv]
  let ?c = "s_clauses s ! ci"
  obtain sn learnt counter where m': "fold (mark_lit (level s) d pivot) ?c m = (sn, learnt, counter)" by (metis prod_cases3)
  have ok: "marks_ok s d idx (sn, learnt, counter)"
    unfolding m' [symmetric] by (rule fold_mark_ok [OF T less.prems(2)]) (use less.prems(4) in blast)
  have ent_c: "entails F ?c" using core_invD(3) [OF inv] less.prems(3) by (auto simp: store_ok_def)
  have ent: "marks_true s d \<sigma> (sn, learnt, counter)" if \<sigma>: "cnf_sat \<sigma> F" for \<sigma>
    unfolding m' [symmetric]
    by (rule fold_mark_entailed [OF inv _ ent_c _ \<sigma> less.prems(5) [OF \<sigma>]]) (use ok m' less.prems(4) in auto)
  obtain v where v: "sn v" "level s v = d"
  proof -
    from less.prems(6) show thesis
    proof (elim disjE bexE exE conjE)
      fix l assume l: "l \<in> set ?c" "Some (lit_var l) \<noteq> pivot" "level s (lit_var l) = d" "0 < d"
      then show thesis
        using that fold_mark_marked [where lev = "level s", OF l(1) _ l(2), of d m] m' by simp
    next
      fix v assume "fst m v" "level s v = d"
      then show thesis using that fold_mark_keeps [of m v "level s" d pivot ?c] m' by simp
    qed
  qed
  have "v \<in> set (take idx (trail s))" using ok v by (simp add: marks_ok_def)
  then obtain j where "j < idx" "trail s ! j = v" by (auto simp: in_set_conv_nth)
  then obtain i where wb: "walk_back sn (trail s) idx = Some i"
    using walk_back_exists [of j idx sn "trail s"] v(1) by blast
  note W = walk_back_Some [OF wb]
  have i: "i < length (trail s)" "i < idx" using W less.prems(1) by auto
  let ?tv = "trail s ! i"
  have tv: "level s ?tv = d"
    using walk_back_level(1) [OF T ok [unfolded d] less.prems(1) v(1) _ wb] v(2) d by simp
  have unm: "marks_ok s d i (sn(?tv := False), learnt, counter - 1)"
    by (rule unmark_ok [OF T ok d less.prems(1) wb tv])
  have c0: "counter \<noteq> 0" using marks_ok_zero [of s d idx sn learnt] ok v by (cases counter) auto
  have eq: "analyze_loop s d ci pivot idx m =
      (if counter - 1 = 0 then Some (?tv, sn(?tv := False), learnt, 0)
       else case reason s ?tv of
              Some r \<Rightarrow> analyze_loop s d r (Some ?tv) i (sn(?tv := False), learnt, counter - 1)
            | None \<Rightarrow> Some (?tv, (\<lambda>_. False), learnt, counter - 1))"
    using c0 by (subst analyze_loop.simps) (simp add: m' wb Let_def)
  show ?case
  proof (cases "counter - 1 = 0")
    case True
    then show ?thesis
      using eq uip_resultI [OF inv d _ tv _ ent] unm i by auto
  next
    case False
    have "reason s ?tv \<noteq> None"
      using reasons_okD(2) [OF core_invD(2) [OF inv] i(1)] decision_is_last_mark [OF T d _ unm] False by blast
    then obtain r where r: "reason s ?tv = Some r" by blast
    note R = reasons_okD(1) [OF core_invD(2) [OF inv] i(1) r]
    have IH: "\<exists>uip sn' learnt'. analyze_loop s d r (Some ?tv) i (sn(?tv := False), learnt, counter - 1)
        = Some (uip, sn', learnt', 0) \<and> uip_result F s d uip sn' learnt'"
    proof (rule less.IH [OF i(2) _ unm])
      show "i \<le> length (trail s)" "r < length (s_clauses s)" using i R by auto
      fix l assume "l \<in> set (s_clauses s ! r)"
      moreover have "?tv \<notin> set (take i (trail s))"
        using trail_okD(1) [OF T] i(1) by (metis distinct_take id_take_nth_drop not_distinct_conv_prefix append.assoc distinct_append IntI disjoint_iff list.set_intros(1) set_append)
      ultimately show "Some (lit_var l) = Some ?tv \<and> ltrue s l \<or>
          Some (lit_var l) \<noteq> Some ?tv \<and> lfalse s l \<and> lit_var l \<in> set (take i (trail s))"
        using R by (auto simp: reason_clause_def)
    next
      fix \<sigma> assume "cnf_sat \<sigma> F"
      from ent [OF this] show "marks_true s d \<sigma> (sn(?tv := False), learnt, counter - 1) \<or> Some ?tv = None \<or>
          (\<exists>p. Some ?tv = Some p \<and> lit_val \<sigma> (false_lit_of s p))"
        unfolding marks_true_def fst_conv snd_conv by (metis fun_upd_other)
    next
      show "(\<exists>l\<in>set (s_clauses s ! r). Some (lit_var l) \<noteq> Some ?tv \<and> level s (lit_var l) = d \<and> 0 < d) \<or>
          (\<exists>v. fst (sn(?tv := False), learnt, counter - 1) v \<and> level s v = d)"
        using marks_ok_pos [OF unm False] unfolding fst_conv by blast
    qed
    then show ?thesis using eq False r by simp
  qed
qed

section \<open>The learnt clause\<close>

lemma max_level_index_correct:
  fixes lev :: "nat \<Rightarrow> nat"
  assumes "2 \<le> length c"
  defines "m \<equiv> max_level_index lev c"
  shows "1 \<le> m" and "m < length c" and "\<And>i. 1 \<le> i \<Longrightarrow> i < length c \<Longrightarrow> lev (lit_var (c ! i)) \<le> lev (lit_var (c ! m))"
proof -
  let ?f = "\<lambda>m i. if lev (lit_var (c ! i)) > lev (lit_var (c ! m)) then i else m"
  have "1 \<le> foldl ?f 1 [2..<n] \<and> foldl ?f 1 [2..<n] < n \<and>
      (\<forall>i. 1 \<le> i \<longrightarrow> i < n \<longrightarrow> lev (lit_var (c ! i)) \<le> lev (lit_var (c ! foldl ?f 1 [2..<n])))" if "2 \<le> n" for n
    using that
  proof (induction n rule: dec_induct)
    case base
    then show ?case by (auto simp: less_Suc_eq numeral_2_eq_2)
  next
    case (step n)
    then show ?case by (auto simp: less_Suc_eq upt_Suc_append)
  qed
  from this [OF assms(1)] show "1 \<le> m" "m < length c"
    "\<And>i. 1 \<le> i \<Longrightarrow> i < length c \<Longrightarrow> lev (lit_var (c ! i)) \<le> lev (lit_var (c ! m))"
    by (auto simp: m_def max_level_index_def)
qed

text \<open>The activity updates touch nothing else.\<close>

definition heuristic_change :: "'f solver \<Rightarrow> 'f solver \<Rightarrow> bool" where
  "heuristic_change s s' \<longleftrightarrow> (\<exists>a i. s' = s\<lparr>activity := a, var_inc := i\<rparr>)"

lemma heuristic_change_trans: "heuristic_change a b \<Longrightarrow> heuristic_change b c \<Longrightarrow> heuristic_change a c"
  by (auto simp: heuristic_change_def) blast

lemma bump_heuristic: "heuristic_change s (bump_var fo v s)"
  by (cases s) (auto simp: heuristic_change_def bump_var_def Let_def)

lemma decay_heuristic: "heuristic_change s (decay_var_inc fo s)"
  by (cases s) (auto simp: heuristic_change_def decay_var_inc_def)

lemma fold_bump_heuristic: "heuristic_change s (fold (\<lambda>l. bump_var fo (lit_var l)) c s)"
proof (induction c arbitrary: s)
  case Nil
  show ?case by (cases s) (auto simp: heuristic_change_def)
next
  case (Cons l c)
  show ?case by (simp, rule heuristic_change_trans [OF bump_heuristic Cons.IH])
qed

definition learnt_ok :: "clause list \<Rightarrow> 'f solver \<Rightarrow> clause \<Rightarrow> nat \<Rightarrow> bool" where
  "learnt_ok F s learnt bt \<longleftrightarrow> learnt \<noteq> [] \<and> entails F learnt \<and> bt < decision_level s \<and>
     (\<forall>l\<in>set learnt. lfalse s l) \<and> level s (lit_var (learnt ! 0)) = decision_level s \<and>
     (\<forall>l\<in>set (tl learnt). level s (lit_var l) \<le> bt) \<and>
     (2 \<le> length learnt \<longrightarrow> level s (lit_var (learnt ! 1)) = bt) \<and> (length learnt = 1 \<longrightarrow> bt = 0)"

lemma clear_seen:
  assumes "{v. sn v} = lit_var ` set xs"
  shows "fold (\<lambda>l sn. sn(lit_var l := False)) xs sn = (\<lambda>_. False)"
proof -
  have "fold (\<lambda>l sn. sn(lit_var l := False)) xs sn v = (sn v \<and> v \<notin> lit_var ` set xs)" for v
    by (induction xs arbitrary: sn) auto
  then show ?thesis using assms by (auto simp: fun_eq_iff)
qed

lemma learnt_arrange:
  assumes res: "uip_result F s d uip sn tail" and d: "d = decision_level s" "0 < d" and T: "trail_ok s"
  defines "l0 \<equiv> false_lit_of s uip # tail"
  defines "learnt \<equiv> (if 2 \<le> length l0 then swap 1 (max_level_index (level s) l0) l0 else l0)"
  shows "learnt_ok F s learnt (if 2 \<le> length learnt then level s (lit_var (learnt ! 1)) else 0)"
    and "set (tl learnt) = set tail" and "learnt ! 0 = false_lit_of s uip"
proof -
  have uip: "uip \<in> set (trail s)" "level s uip = d" and tail: "\<forall>l\<in>set tail. lfalse s l \<and> 0 < level s (lit_var l) \<and> level s (lit_var l) < d"
    and ent: "entails F l0" using res by (auto simp: uip_result_def l0_def)
  have f: "lfalse s (false_lit_of s uip)" "lit_var (false_lit_of s uip) = uip"
    using false_lit_of [of s uip] trail_okD(2) [OF T] uip(1) by auto
  let ?bt = "if 2 \<le> length learnt then level s (lit_var (learnt ! 1)) else 0"
  have "learnt_ok F s learnt ?bt \<and> set (tl learnt) = set tail \<and> learnt ! 0 = false_lit_of s uip"
  proof (cases tail)
    case Nil
    then have "learnt = [false_lit_of s uip]" by (simp add: learnt_def l0_def)
    then show ?thesis using Nil f uip d ent by (simp add: learnt_ok_def l0_def)
  next
    case (Cons t ts)
    then have len: "2 \<le> length l0" by (simp add: l0_def)
    define k where "k = max_level_index (level s) l0"
    have k: "1 \<le> k" "k < length l0" "\<And>i. 1 \<le> i \<Longrightarrow> i < length l0 \<Longrightarrow> level s (lit_var (l0 ! i)) \<le> level s (lit_var (l0 ! k))"
      using max_level_index_correct [OF len, where lev = "level s"] by (auto simp: k_def)
    have eq: "learnt = swap 1 k l0" using len by (simp add: learnt_def k_def)
    have ms: "mset learnt = mset l0" "length learnt = length l0" using k len by (simp_all add: eq)
    have l: "learnt ! 0 = false_lit_of s uip" "learnt ! 1 = l0 ! k"
    proof -
      have "swap 1 k l0 ! 0 = l0 ! 0" using nth_swap [of 1 l0 k 0] k(1,2) len by force
      moreover have "swap 1 k l0 ! 1 = l0 ! k" using nth_swap [of 1 l0 k 1] k(1,2) len by force
      ultimately show "learnt ! 0 = false_lit_of s uip" "learnt ! 1 = l0 ! k" by (simp_all add: eq l0_def)
    qed
    have "learnt \<noteq> []" using ms len by auto
    then have hd: "learnt = learnt ! 0 # tl learnt" by (cases learnt) auto
    then have "mset (tl learnt) = mset tail" using ms(1) l(1) unfolding l0_def by (metis add_left_imp_eq add_mset_add_single mset.simps(2) union_commute)
    then have st: "set (tl learnt) = set tail" by (rule mset_eq_setD)
    have "set learnt = set l0" by (rule mset_eq_setD [OF ms(1)])
    then have "entails F learnt" using ent by (simp add: entails_def clause_true_def)
    moreover have "level s (lit_var l) \<le> level s (lit_var (l0 ! k))" if "l \<in> set tail" for l
    proof -
      obtain j where "j < length tail" "l = tail ! j" using \<open>l \<in> set tail\<close> by (auto simp: in_set_conv_nth)
      then show ?thesis using k(3) [of "Suc j"] by (simp add: l0_def)
    qed
    moreover have "l0 ! k \<in> set tail" using k(1,2) by (cases k) (auto simp: l0_def)
    ultimately show ?thesis
      using l st hd tail f uip d len ms \<open>learnt \<noteq> []\<close> \<open>set learnt = set l0\<close>
      unfolding learnt_ok_def by (auto simp: l0_def)
  qed
  then show "learnt_ok F s learnt ?bt" "set (tl learnt) = set tail" "learnt ! 0 = false_lit_of s uip" by blast+
qed

lemma analyze_correct:
  assumes inv: "conflict_inv F confl s" and lev: "0 < decision_level s"
  shows "\<exists>learnt bt l s'. analyze fo confl s = Some ((learnt, bt, l), s') \<and> heuristic_change s s' \<and> learnt_ok F s learnt bt"
proof -
  have core: "core_inv F s" and ci: "confl < length (s_clauses s)" and fs: "\<forall>l\<in>set (s_clauses s ! confl). lfalse s l"
    and top: "\<exists>fl\<in>set (s_clauses s ! confl). level s (lit_var fl) = decision_level s"
    using inv by (auto simp: conflict_inv_def)
  note T = core_invD(1) [OF core]
  have "\<exists>uip sn tail. analyze_loop s (decision_level s) confl None (length (trail s)) (seen s, [], 0) = Some (uip, sn, tail, 0)
      \<and> uip_result F s (decision_level s) uip sn tail"
  proof (rule analyze_loop_correct [OF core refl le_refl _ ci])
    show "marks_ok s (decision_level s) (length (trail s)) (seen s, [], 0)"
      using core_invD(4) [OF core] by (simp add: marks_ok_def)
    show "Some (lit_var l) = None \<and> ltrue s l \<or>
      Some (lit_var l) \<noteq> None \<and> lfalse s l \<and> lit_var l \<in> set (take (length (trail s)) (trail s))"
      if "l \<in> set (s_clauses s ! confl)" for l
      using that fs trail_okD(2) [OF T] by (auto simp: lfalse_def)
  qed (use top lev in auto)
  then obtain uip sn tail where 1: "analyze_loop s (decision_level s) confl None (length (trail s)) (seen s, [], 0) = Some (uip, sn, tail, 0)"
      and res: "uip_result F s (decision_level s) uip sn tail" by blast
  define l0 where "l0 = false_lit_of s uip # tail"
  define learnt where "learnt = (if 2 \<le> length l0 then swap 1 (max_level_index (level s) l0) l0 else l0)"
  note L = learnt_arrange [OF res refl lev T, folded l0_def, folded learnt_def]
  define s1 where "s1 = decay_var_inc fo (fold (\<lambda>l. bump_var fo (lit_var l)) learnt s)"
  have h: "heuristic_change s s1"
    unfolding s1_def by (rule heuristic_change_trans [OF fold_bump_heuristic decay_heuristic])
  have "fold (\<lambda>l sn. sn(lit_var l := False)) (tl learnt) sn = (\<lambda>_. False)"
    by (rule clear_seen) (use res L(2) in \<open>simp add: uip_result_def\<close>)
  moreover have "s1\<lparr>seen := (\<lambda>_. False)\<rparr> = s1"
    using h core_invD(4) [OF core] by (cases s; auto simp: heuristic_change_def)
  ultimately have "\<exists>l. analyze fo confl s = Some ((learnt, if 2 \<le> length learnt then level s (lit_var (learnt ! 1)) else 0, l), s1)"
    unfolding analyze_def 1 option.case prod.case Let_def false_lit_of_def [symmetric] l0_def [symmetric]
      learnt_def [symmetric] s1_def [symmetric] by auto
  then show ?thesis using h L(1) by blast
qed

end
