(* ===== verification/Sat_Backjump.thy ===== *)
theory Sat_Backjump
  imports Sat_Analyze
begin

text \<open>
  Backjumping, learning a clause, deciding and restarting keep the solver invariants.
\<close>

section \<open>Backtracking\<close>

lemma in_set_drop_nth: "x \<in> set (drop n xs) \<longleftrightarrow> (\<exists>i < length xs. n \<le> i \<and> x = xs ! i)"
proof
  assume "x \<in> set (drop n xs)"
  then obtain j where "j < length xs - n" "x = xs ! (n + j)" by (auto simp: in_set_conv_nth)
  then show "\<exists>i < length xs. n \<le> i \<and> x = xs ! i" by (intro exI [of _ "n + j"]) auto
next
  assume "\<exists>i < length xs. n \<le> i \<and> x = xs ! i"
  then obtain i where "i < length xs" "n \<le> i" "x = xs ! i" by blast
  then show "x \<in> set (drop n xs)" by (auto simp: in_set_conv_nth intro!: exI [of _ "i - n"])
qed

lemma fold_unassign: "fold (\<lambda>v a. a(v := None)) vs a v = (if v \<in> set vs then None else a v)"
  by (induction vs arbitrary: a) auto

lemma backtrack_simps:
  assumes "lvl < decision_level s"
  shows "trail (backtrack_to lvl s) = take (trail_lim s ! lvl) (trail s)"
    and "trail_lim (backtrack_to lvl s) = take lvl (trail_lim s)" and "prop_queue (backtrack_to lvl s) = []"
    and "s_clauses (backtrack_to lvl s) = s_clauses s" and "watches (backtrack_to lvl s) = watches s"
    and "level (backtrack_to lvl s) = level s" and "reason (backtrack_to lvl s) = reason s"
    and "seen (backtrack_to lvl s) = seen s" and "s_num_vars (backtrack_to lvl s) = s_num_vars s"
    and "num_original (backtrack_to lvl s) = num_original s"
    and "assign (backtrack_to lvl s) v = (if v \<in> set (drop (trail_lim s ! lvl) (trail s)) then None else assign s v)"
  using assms by (simp_all add: backtrack_to_def Let_def fold_unassign)

lemma backtrack_assign:
  assumes T: "trail_ok s" and lvl: "lvl < decision_level s"
  shows "assign (backtrack_to lvl s) v = (if level s v \<le> lvl then assign s v else None)"
proof (cases "v \<in> set (trail s)")
  case False
  then have "assign s v = None" using trail_okD(2) [OF T] by blast
  then show ?thesis by (simp add: backtrack_simps(11) [OF lvl])
next
  case True
  then obtain i where i: "i < length (trail s)" "v = trail s ! i" by (auto simp: in_set_conv_nth)
  have "v \<in> set (drop n (trail s)) \<longleftrightarrow> n \<le> i" for n
    using i trail_okD(1) [OF T] by (auto simp: in_set_drop_nth nth_eq_iff_index_eq)
  then show ?thesis using level_le_iff [OF T i(1) lvl] i(2) by (auto simp: backtrack_simps(11) [OF lvl])
qed

lemma backtrack_vals:
  assumes "trail_ok s" and "lvl < decision_level s"
  shows "lfalse (backtrack_to lvl s) l \<longleftrightarrow> lfalse s l \<and> level s (lit_var l) \<le> lvl"
    and "ltrue (backtrack_to lvl s) l \<longleftrightarrow> ltrue s l \<and> level s (lit_var l) \<le> lvl"
  by (auto simp: lfalse_def ltrue_def backtrack_assign [OF assms])

lemma backtrack_core:
  assumes inv: "core_inv F s" and lvl: "lvl < decision_level s"
  shows "core_inv F (backtrack_to lvl s)"
proof -
  let ?s = "backtrack_to lvl s" and ?n = "trail_lim s ! lvl"
  note T = core_invD(1) [OF inv] and S = backtrack_simps [OF lvl]
  have n: "?n < length (trail s)" using trail_okD(5) [OF T] lvl by (simp add: decision_level_def)
  have lims: "k \<in> set (take lvl (trail_lim s)) \<Longrightarrow> k < ?n" for k
    using trail_okD(4) [OF T] lvl by (auto simp: in_set_conv_nth sorted_wrt_iff_nth_less decision_level_def)
  have rest: "?n \<le> k" if "k \<in> set (drop lvl (trail_lim s))" for k
  proof -
    obtain j where "j < length (trail_lim s)" "lvl \<le> j" "k = trail_lim s ! j"
      using \<open>k \<in> set (drop lvl (trail_lim s))\<close> by (auto simp: in_set_drop_nth)
    then show ?thesis using trail_okD(4) [OF T] by (cases "j = lvl") (auto simp: sorted_wrt_iff_nth_less less_imp_le)
  qed
  have cnt: "length (filter (\<lambda>k. k \<le> i) (take lvl (trail_lim s))) = length (filter (\<lambda>k. k \<le> i) (trail_lim s))" if "i < ?n" for i
  proof -
    have "filter (\<lambda>k. k \<le> i) (drop lvl (trail_lim s)) = []" using rest that by (fastforce simp: filter_empty_conv)
    then show ?thesis using filter_append [of "\<lambda>k. k \<le> i" "take lvl (trail_lim s)" "drop lvl (trail_lim s)"] by simp
  qed
  have T': "trail_ok ?s"
    unfolding trail_ok_def
  proof (intro conjI allI ballI impI)
    show "distinct (trail ?s)" using trail_okD(1) [OF T] by (simp add: S)
    show "v \<in> set (trail ?s) \<longleftrightarrow> assign ?s v \<noteq> None" for v
    proof -
      have "set (take ?n (trail s)) \<inter> set (drop ?n (trail s)) = {}"
        using trail_okD(1) [OF T] by (metis append_take_drop_id distinct_append)
      moreover have "set (trail s) = set (take ?n (trail s)) \<union> set (drop ?n (trail s))" by (metis append_take_drop_id set_append)
      ultimately show ?thesis using trail_okD(2) [OF T, of v] by (auto simp: S)
    qed
    show "v < s_num_vars ?s" if "v \<in> set (trail ?s)" for v using that trail_okD(3) [OF T] by (auto simp: S dest: in_set_takeD)
    show "sorted_wrt (<) (trail_lim ?s)" using trail_okD(4) [OF T] by (simp add: S sorted_wrt_take)
    show "k < length (trail ?s)" if "k \<in> set (trail_lim ?s)" for k using that lims n by (simp add: S)
    fix i assume "i < length (trail ?s)"
    then have i: "i < ?n" "i < length (trail s)" by (simp_all add: S)
    then show "level ?s (trail ?s ! i) = length (filter (\<lambda>k. k \<le> i) (trail_lim ?s))"
      using trail_okD(6) [OF T i(2)] cnt by (simp add: S)
  qed
  have "reasons_ok ?s"
    unfolding reasons_ok_def
  proof (intro allI impI)
    fix i assume "i < length (trail ?s)"
    then have i: "i < ?n" "i < length (trail s)" by (simp_all add: S)
    have lev: "level s (trail s ! j) \<le> lvl" if "j \<le> i" for j using level_le_iff [OF T _ lvl, of j] i that by simp
    have rc: "reason_clause ?s i c" if "reason_clause s i c" for c
    proof -
      have "lit_var l \<in> set (take i (trail s)) \<Longrightarrow> level s (lit_var l) \<le> lvl" for l
        using lev i(2) by (metis in_set_conv_nth length_take less_imp_le min.strict_boundedE nth_take)
      then show ?thesis
        using that i lev [of i] unfolding reason_clause_def backtrack_vals [OF T lvl] by (fastforce simp: S min_def)
    qed
    have lim: "i \<in> set (trail_lim s) \<Longrightarrow> i \<in> set (take lvl (trail_lim s))"
      using rest i(1) by (metis Un_iff append_take_drop_id not_le set_append)
    show "case reason ?s (trail ?s ! i) of Some r \<Rightarrow> r < length (s_clauses ?s) \<and> reason_clause ?s i (s_clauses ?s ! r)
        | None \<Rightarrow> i \<in> set (trail_lim ?s)"
      using reasons_okD [OF core_invD(2) [OF inv] i(2)] i rc lim by (auto simp: S split: option.splits)
  qed
  then show ?thesis using T' core_invD(3,4) [OF inv] by (simp add: core_inv_def store_ok_def S)
qed

text \<open>Backjumping below the level of every pending variable restores the full invariant.\<close>

lemma backtrack_solver_inv:
  assumes core: "core_inv F s" and units: "units_ok s" and w: "watch_inv (watches s) (s_clauses s)" and tw: "two_watch ex s"
    and lvl: "lvl < decision_level s" and q: "\<forall>v\<in>set (prop_queue s). lvl < level s v"
    and ex: "\<And>l ci. ex l ci \<Longrightarrow> lvl < level s (lit_var l)"
  shows "solver_inv F (backtrack_to lvl s)"
proof -
  let ?s = "backtrack_to lvl s"
  note T = core_invD(1) [OF core] and S = backtrack_simps [OF lvl]
  have pair: "watch_pair ?s w w'" if "ex w ci \<or> watch_pair s w w'" for w w' ci
    unfolding watch_pair_def backtrack_vals [OF T lvl] S
  proof (intro impI)
    assume a: "(lfalse s w \<and> level s (lit_var w) \<le> lvl) \<and> lit_var w \<notin> set []"
    then have "\<not> ex w ci" "lit_var w \<notin> set (prop_queue s)" using ex q by (fastforce simp: not_le)+
    then show "(ltrue s w' \<and> level s (lit_var w') \<le> lvl) \<and> level s (lit_var w') \<le> level s (lit_var w)"
      using that a by (auto simp: watch_pair_def)
  qed
  have "two_watch (\<lambda>_ _. False) ?s"
    using tw pair unfolding two_watch_def Let_def S by blast
  moreover have "units_ok ?s" using units by (auto simp: units_ok_def S backtrack_vals [OF T lvl])
  ultimately show ?thesis
    using backtrack_core [OF core lvl] w by (simp add: solver_inv_def queue_ok_def S)
qed


section \<open>Learning a clause\<close>

lemma watch_inv_append:
  assumes "watch_inv ws cs"
  shows "watch_inv (watch_clause (length cs) c ws) (cs @ [c])"
  unfolding watch_inv_def
proof (intro allI)
  fix l ci
  have old: "count_list (ws (lit_code l)) ci = watch_count cs ci l" for l ci using assms by (simp add: watch_inv_def)
  have inj: "lit_code l = lit_code l' \<longleftrightarrow> l = l'" for l l' using lit_code_inject by blast
  have "watch_count (cs @ [c]) ci l = watch_count cs ci l" if "ci \<noteq> length cs"
    using that by (auto simp: watch_count_def nth_append)
  moreover have "watch_count cs (length cs) l = 0" by (simp add: watch_count_def)
  ultimately show "count_list (watch_clause (length cs) c ws (lit_code l)) ci = watch_count (cs @ [c]) ci l"
    using old [of l ci] by (cases "ci = length cs")
      (auto simp: watch_clause_def push_watch_def inj count_list_take2 watch_count_def)
qed

lemma watch_inv_watch_all:
  "watch_inv ws pre \<Longrightarrow> watch_inv (watch_all cs (length pre) ws) (pre @ cs)"
proof (induction cs arbitrary: pre ws)
  case (Cons c cs)
  then show ?case using Cons.IH [OF watch_inv_append [OF Cons.prems, of c]] by simp
qed simp

text \<open>The invariants read the search state only: activities, restart and deletion counters are irrelevant.\<close>

lemma search_state_cong:
  assumes "s_num_vars s' = s_num_vars s" "s_clauses s' = s_clauses s" "watches s' = watches s" "assign s' = assign s"
    "level s' = level s" "reason s' = reason s" "trail s' = trail s" "trail_lim s' = trail_lim s"
    "prop_queue s' = prop_queue s" "seen s' = seen s" "num_original s' = num_original s"
  shows "core_inv F s' = core_inv F s" and "queue_ok s' = queue_ok s" and "units_ok s' = units_ok s"
    and "two_watch ex s' = two_watch ex s" and "lfalse s' = lfalse s" and "trail_ok s' = trail_ok s"
    and "solver_inv F s' = solver_inv F s" and "conflict_inv F ci s' = conflict_inv F ci s"
proof -
  have vals: "lfalse s' = lfalse s" "ltrue s' = ltrue s" "decision_level s' = decision_level s"
    by (simp_all add: fun_eq_iff lfalse_def ltrue_def decision_level_def assms)
  have rc: "reason_clause s' = reason_clause s" "watch_pair s' = watch_pair s"
    by (simp_all add: fun_eq_iff reason_clause_def watch_pair_def vals assms)
  show "lfalse s' = lfalse s" by (rule vals)
  show t: "trail_ok s' = trail_ok s" by (simp add: trail_ok_def assms)
  show core: "core_inv F s' = core_inv F s"
    by (simp add: core_inv_def t reasons_ok_def store_ok_def rc assms cong: option.case_cong)
  show q: "queue_ok s' = queue_ok s" and u: "units_ok s' = units_ok s" and w: "two_watch ex s' = two_watch ex s" for ex
    by (simp_all add: queue_ok_def units_ok_def two_watch_def vals rc assms)
  show "solver_inv F s' = solver_inv F s" "conflict_inv F ci s' = conflict_inv F ci s"
    by (simp_all add: solver_inv_def conflict_inv_def core q u w vals assms)
qed

lemma heuristic_inv:
  assumes "heuristic_change s s'"
  shows "decision_level s' = decision_level s" and "lfalse s' = lfalse s" and "level s' = level s"
    and "s_num_vars s' = s_num_vars s" and "conflict_inv F ci s' = conflict_inv F ci s"
proof -
  obtain a i where s': "s' = s\<lparr>activity := a, var_inc := i\<rparr>" using assms by (auto simp: heuristic_change_def)
  show "lfalse s' = lfalse s" "conflict_inv F ci s' = conflict_inv F ci s"
    unfolding s' by (rule search_state_cong; simp)+
qed (use assms in \<open>auto simp: heuristic_change_def decision_level_def\<close>)

lemma solver_inv_upd [simp]:
  "solver_inv F (s\<lparr>conflicts_since_restart := k\<rparr>) = solver_inv F s" "solver_inv F (s\<lparr>restarts := k\<rparr>) = solver_inv F s"
  "solver_inv F (s\<lparr>luby_u := k\<rparr>) = solver_inv F s" "solver_inv F (s\<lparr>luby_v := k\<rparr>) = solver_inv F s"
  "solver_inv F (s\<lparr>max_learnt := n\<rparr>) = solver_inv F s" "solver_inv F (s\<lparr>reductions := k\<rparr>) = solver_inv F s"
  by (rule search_state_cong; simp)+

text \<open>Appending an entailed clause whose first literal is unassigned and whose others are false, and asserting that literal.\<close>

lemma add_learnt_core:
  assumes inv: "core_inv F s" and c: "entails F c" "\<forall>l\<in>set c. lit_var l < s_num_vars s"
  shows "core_inv F (snd (add_learnt c k s))"
proof -
  let ?s = "snd (add_learnt c k s)"
  have "store_ok F ?s" using core_invD(3) [OF inv] c by (auto simp: store_ok_def add_learnt_def Let_def nth_append)
  moreover have "trail_ok ?s" using core_invD(1) [OF inv] by (simp add: trail_ok_def add_learnt_def Let_def)
  moreover have "reason_clause ?s = reason_clause s"
    by (simp add: fun_eq_iff reason_clause_def lfalse_def ltrue_def add_learnt_def Let_def)
  then have "reasons_ok ?s"
    using core_invD(2) [OF inv] unfolding reasons_ok_def
    by (fastforce simp: add_learnt_def Let_def nth_append split: option.splits)
  ultimately show ?thesis using core_invD(4) [OF inv] by (simp add: core_inv_def add_learnt_def Let_def)
qed

lemma learn_assert_inv:
  fixes k :: nat
  assumes inv: "solver_inv F s" and ent: "entails F c" and rng: "\<forall>l\<in>set c. lit_var l < s_num_vars s" and ne: "c \<noteq> []"
    and un: "assign s (lit_var (c ! 0)) = None" and fs: "\<forall>l\<in>set (tl c). lfalse s l"
    and one: "length c = 1 \<Longrightarrow> decision_level s = 0" and two: "2 \<le> length c \<Longrightarrow> decision_level s \<le> level s (lit_var (c ! 1))"
  defines "s1 \<equiv> snd (add_learnt c k s)"
  shows "solver_inv F (push_lit (c ! 0) (Some (length (s_clauses s))) s1)"
proof -
  let ?s' = "push_lit (c ! 0) (Some (length (s_clauses s))) s1"
  have s1: "s_clauses s1 = s_clauses s @ [c]" "assign s1 = assign s" "level s1 = level s" "prop_queue s1 = prop_queue s"
    "trail s1 = trail s" "decision_level s1 = decision_level s" "watches s1 = watch_clause (length (s_clauses s)) c (watches s)"
    "s_num_vars s1 = s_num_vars s" "trail_lim s1 = trail_lim s"
    by (simp_all add: s1_def add_learnt_def Let_def decision_level_def)
  have vals: "lfalse s1 = lfalse s" "ltrue s1 = ltrue s" "watch_pair s1 = watch_pair s"
    by (simp_all add: fun_eq_iff lfalse_def ltrue_def watch_pair_def s1)
  have un1: "assign s1 (lit_var (c ! 0)) = None" using un by (simp add: s1)
  note V = push_lit_vals [OF un1, where r = "Some (length (s_clauses s))"]
  have hd: "c = c ! 0 # tl c" using ne by (cases c) auto
  have core1: "core_inv F s1" unfolding s1_def by (rule add_learnt_core [OF solver_invD(1) [OF inv] ent rng])
  have core: "core_inv F ?s'"
  proof (rule push_lit_core [OF core1 un1])
    show "lit_var (c ! 0) < s_num_vars s1" using rng ne by (simp add: s1)
    show "length (s_clauses s) < length (s_clauses s1)" "c ! 0 \<in> set (s_clauses s1 ! length (s_clauses s))"
      using ne by (simp_all add: s1)
    show "l' = c ! 0 \<or> lfalse s1 l'" if "l' \<in> set (s_clauses s1 ! length (s_clauses s))" for l'
    proof -
      have "l' \<in> set (c ! 0 # tl c)" using that hd by (simp add: s1)
      then show ?thesis using fs vals by auto
    qed
  qed
  have queue: "queue_ok ?s'"
    by (rule push_lit_queue_ok [OF _ core_invD(1) [OF core1] un1]) (use solver_invD(2) [OF inv] in \<open>simp add: queue_ok_def s1\<close>)
  have "units_ok (s1\<lparr>s_clauses := s_clauses s\<rparr>)"
    using solver_invD(3) [OF inv] by (simp add: units_ok_def ltrue_def s1)
  then have "units_ok (push_lit (c ! 0) (Some (length (s_clauses s))) (s1\<lparr>s_clauses := s_clauses s\<rparr>))"
    by (rule push_lit_units_ok) (simp add: un1)
  then have units: "units_ok ?s'"
    using V(1) V(7) one ne by (auto simp: units_ok_def s1 push_lit_def ltrue_def decision_level_def)
  have pair: "watch_pair ?s' w w'" if "watch_pair s w w'" for w w'
    using push_lit_watch_pair [OF _ un1] that vals by metis
  have new: "watch_pair ?s' (c ! 0) (c ! 1)" "watch_pair ?s' (c ! 1) (c ! 0)" if "2 \<le> length c"
  proof -
    have "c ! 1 \<in> set (tl c)" using that by (cases c) (auto simp: nth_Cons' Suc_le_eq)
    then have "lfalse s1 (c ! 1)" using fs vals by simp
    then have "level ?s' (lit_var (c ! 1)) = level s (lit_var (c ! 1))" using V(5) by (simp add: lfalse_def s1)
    then show "watch_pair ?s' (c ! 1) (c ! 0)" using V(1,7) two [OF that] by (simp add: watch_pair_def s1)
    show "watch_pair ?s' (c ! 0) (c ! 1)" using V(1) ltrue_not_lfalse by (auto simp: watch_pair_def)
  qed
  have "two_watch (\<lambda>_ _. False) ?s'"
    unfolding two_watch_def Let_def
  proof (intro allI impI)
    fix ci assume "ci < length (s_clauses ?s')" and "2 \<le> length (s_clauses ?s' ! ci)"
    then show "(False \<or> watch_pair ?s' (s_clauses ?s' ! ci ! 0) (s_clauses ?s' ! ci ! 1)) \<and>
        (False \<or> watch_pair ?s' (s_clauses ?s' ! ci ! 1) (s_clauses ?s' ! ci ! 0))"
      using two_watchD [OF solver_invD(5) [OF inv], of ci] pair new by (cases "ci < length (s_clauses s)") (auto simp: s1 nth_append)
  qed
  moreover have "watch_inv (watches ?s') (s_clauses ?s')"
    using watch_inv_append [OF solver_invD(4) [OF inv]] by (simp add: s1)
  ultimately show ?thesis using core queue units by (simp add: solver_inv_def)
qed


lemma learn_and_backjump_correct:
  assumes inv: "conflict_inv F confl s" and lev: "0 < decision_level s"
  shows "\<exists>s'. learn_and_backjump fo confl s = Some s' \<and> solver_inv F s' \<and> decision_level s' < decision_level s \<and>
    s_num_vars s' = s_num_vars s"
proof -
  obtain c bt l s1 where an: "analyze fo confl s = Some ((c, bt, l), s1)" and h: "heuristic_change s s1" and ok: "learnt_ok F s c bt"
    using analyze_correct [OF inv lev, of fo] by blast
  note H = heuristic_inv [OF h]
  have inv1: "conflict_inv F confl s1" using inv H(5) by simp
  obtain fl where fl: "level s1 (lit_var fl) = decision_level s1" "two_watch (\<lambda>l _. l = fl) s1"
    using inv1 unfolding conflict_inv_def by auto
  have core: "core_inv F s1" and bt: "bt < decision_level s1"
    using inv1 ok H(1) by (auto simp: conflict_inv_def learnt_ok_def)
  note T = core_invD(1) [OF core] and S = backtrack_simps [OF bt]
  let ?s2 = "backtrack_to bt s1"
  have "solver_inv F ?s2"
    by (rule backtrack_solver_inv [OF core _ _ fl(2) bt]) (use inv1 fl bt in \<open>auto simp: conflict_inv_def queue_ok_def\<close>)
  moreover have d2: "decision_level ?s2 = bt" using bt by (simp add: decision_level_def S)
  moreover have rng: "\<forall>l\<in>set c. lit_var l < s_num_vars ?s2"
  proof
    fix l assume "l \<in> set c"
    then have "assign s1 (lit_var l) \<noteq> None" using ok H(2) by (auto simp: learnt_ok_def lfalse_def dest!: fun_cong)
    then show "lit_var l < s_num_vars ?s2" using trail_okD(2,3) [OF T] by (simp add: S)
  qed
  moreover have un: "assign ?s2 (lit_var (c ! 0)) = None"
    using ok bt H(1,3) by (simp add: backtrack_assign [OF T bt] learnt_ok_def)
  moreover have "\<forall>l\<in>set (tl c). lfalse ?s2 l"
    using ok H(2,3) by (auto simp: backtrack_vals [OF T bt] learnt_ok_def dest: list.set_sel(2))
  moreover have "entails F c" "c \<noteq> []" "length c = 1 \<Longrightarrow> bt = 0" "2 \<le> length c \<Longrightarrow> bt \<le> level ?s2 (lit_var (c ! 1))"
    using ok H(3) by (auto simp: learnt_ok_def S)
  ultimately have inv3: "solver_inv F (push_lit (c ! 0) (Some (length (s_clauses ?s2))) (snd (add_learnt c l ?s2)))"
    by (intro learn_assert_inv) simp_all
  let ?s3 = "push_lit (c ! 0) (Some (length (s_clauses ?s2))) (snd (add_learnt c l ?s2))"
  have "learn_and_backjump fo confl s = Some (?s3\<lparr>conflicts_since_restart := conflicts_since_restart ?s3 + 1\<rparr>)"
    using un by (simp add: learn_and_backjump_def an add_learnt_def Let_def enqueue_None)
  moreover have "solver_inv F (?s3\<lparr>conflicts_since_restart := k\<rparr>)" for k
    using inv3 by (simp add: solver_inv_upd)
  moreover have "decision_level (?s3\<lparr>conflicts_since_restart := k\<rparr>) = bt" "s_num_vars (?s3\<lparr>conflicts_since_restart := k\<rparr>) = s_num_vars s" for k
    using d2 H(4) by (simp_all add: decision_level_def S add_learnt_def Let_def)
  ultimately show ?thesis using bt H(1) by auto
qed

end
