(* ===== verification/Sat_Search.thy ===== *)
theory Sat_Search
  imports Sat_Backjump
begin

text \<open>
  Decisions, restarts and clause deletion keep the invariants, and the main loop is sound and total: \<open>Unsat\<close> is
  answered only for unsatisfiable inputs, \<open>Sat\<close> only with a model, and no index is ever out of range.
\<close>

section \<open>Decisions\<close>

lemma decide_trail:
  assumes T: "trail_ok s" and un: "assign s v = None" and v: "v < s_num_vars s"
  shows "trail_ok (decide v s)"
proof -
  let ?s' = "decide v s"
  have s': "trail ?s' = trail s @ [v]" "trail_lim ?s' = trail_lim s @ [length (trail s)]" "s_num_vars ?s' = s_num_vars s"
    "assign ?s' = (assign s)(v := Some True)" "level ?s' = (level s)(v := Suc (length (trail_lim s)))"
    using un by (simp_all add: decide_def enqueue_def decision_level_def lit_pos_def)
  have new: "v \<notin> set (trail s)" using trail_okD(2) [OF T] un by simp
  show ?thesis
    unfolding trail_ok_def
  proof (intro conjI allI ballI impI)
    show "distinct (trail ?s')" using trail_okD(1) [OF T] new by (simp add: s')
    show "u \<in> set (trail ?s') \<longleftrightarrow> assign ?s' u \<noteq> None" for u using trail_okD(2) [OF T, of u] by (auto simp: s')
    show "u < s_num_vars ?s'" if "u \<in> set (trail ?s')" for u using that trail_okD(3) [OF T] v by (auto simp: s')
    show "sorted_wrt (<) (trail_lim ?s')" using trail_okD(4,5) [OF T] by (simp add: s' sorted_wrt_append)
    show "k < length (trail ?s')" if "k \<in> set (trail_lim ?s')" for k using that trail_okD(5) [OF T] by (fastforce simp: s')
    fix i assume i: "i < length (trail ?s')"
    show "level ?s' (trail ?s' ! i) = length (filter (\<lambda>k. k \<le> i) (trail_lim ?s'))"
    proof (cases "i < length (trail s)")
      case True
      then have "trail s ! i \<noteq> v" using new by auto
      then show ?thesis using True trail_okD(6) [OF T True] by (simp add: s' nth_append)
    next
      case False
      then have "i = length (trail s)" using i by (simp add: s')
      moreover have "filter (\<lambda>k. k \<le> length (trail s)) (trail_lim s) = trail_lim s"
        using trail_okD(5) [OF T] by (auto simp: filter_id_conv less_imp_le)
      ultimately show ?thesis by (simp add: s')
    qed
  qed
qed

lemma decide_inv:
  assumes inv: "solver_inv F s" and q: "prop_queue s = []" and un: "assign s v = None" and v: "v < s_num_vars s"
  shows "solver_inv F (decide v s)" and "decision_level (decide v s) = Suc (decision_level s)"
    and "s_num_vars (decide v s) = s_num_vars s"
proof -
  let ?s1 = "s\<lparr>trail_lim := trail_lim s @ [length (trail s)]\<rparr>"
  have d: "decide v s = push_lit (lit_pos v) None ?s1"
    using un by (simp add: decide_def enqueue_None lit_pos_def)
  have un1: "assign ?s1 (lit_var (lit_pos v)) = None" using un by (simp add: lit_pos_def)
  note V = push_lit_vals [OF un1, where r = None] and core = solver_invD(1) [OF inv]
  have vals: "lfalse ?s1 = lfalse s" "ltrue ?s1 = ltrue s" "watch_pair ?s1 = watch_pair s"
    by (simp_all add: fun_eq_iff lfalse_def ltrue_def watch_pair_def)
  have T': "trail_ok (decide v s)" by (rule decide_trail [OF core_invD(1) [OF core] un v])
  have "reasons_ok (decide v s)"
    unfolding reasons_ok_def
  proof (intro allI impI)
    fix i assume i: "i < length (trail (decide v s))"
    show "case reason (decide v s) (trail (decide v s) ! i) of
        Some r \<Rightarrow> r < length (s_clauses (decide v s)) \<and> reason_clause (decide v s) i (s_clauses (decide v s) ! r)
      | None \<Rightarrow> i \<in> set (trail_lim (decide v s))"
    proof (cases "i < length (trail s)")
      case True
      have "assign s (trail s ! i) \<noteq> None" using trail_okD(2) [OF core_invD(1) [OF core], of "trail s ! i"] True by simp
      then have "reason (decide v s) (trail (decide v s) ! i) = reason s (trail s ! i)"
        using V(6) True by (simp add: d nth_append)
      moreover have "reason_clause (decide v s) i c" if "reason_clause s i c" for c
        by (rule reason_clause_cong [OF that True refl]) (use V(2,3) True vals in \<open>auto simp: d\<close>)
      ultimately show ?thesis using reasons_okD [OF core_invD(2) [OF core] True] by (auto simp: d split: option.splits)
    next
      case False
      then have "i = length (trail s)" using i by (simp add: d)
      then show ?thesis using V(8) by (simp add: d)
    qed
  qed
  then have core': "core_inv F (decide v s)"
    using T' core_invD(3,4) [OF core] by (simp add: core_inv_def store_ok_def d)
  have "queue_ok (decide v s)" using V(7) q by (simp add: queue_ok_def d)
  moreover have "units_ok (decide v s)"
    unfolding d by (rule push_lit_units_ok [OF _ un1]) (use solver_invD(3) [OF inv] in \<open>simp add: units_ok_def vals\<close>)
  moreover have "two_watch (\<lambda>_ _. False) (decide v s)"
    unfolding d by (rule push_lit_two_watch [OF _ un1]) (use solver_invD(5) [OF inv] in \<open>simp add: two_watch_def vals\<close>)
  ultimately show "solver_inv F (decide v s)" using core' solver_invD(4) [OF inv] by (simp add: solver_inv_def d)
  show "decision_level (decide v s) = Suc (decision_level s)" "s_num_vars (decide v s) = s_num_vars s"
    by (simp_all add: d decision_level_def)
qed

section \<open>Clause deletion\<close>

lemma filter_index:
  assumes "r < n" and "P r"
  shows "filter P [0..<n] ! length (filter P [0..<r]) = r" and "length (filter P [0..<r]) < length (filter P [0..<n])"
proof -
  have "[0..<n] = [0..<r] @ r # [Suc r..<n]"
    using assms(1) by (metis less_imp_le_nat upt_add_eq_append upt_conv_Cons le_add_diff_inverse zero_le)
  then have "filter P [0..<n] = filter P [0..<r] @ r # filter P [Suc r..<n]" using assms(2) by simp
  then show "filter P [0..<n] ! length (filter P [0..<r]) = r" "length (filter P [0..<r]) < length (filter P [0..<n])"
    by simp_all
qed

lemma find_Some_upt: "find P [a..<b] = Some k \<Longrightarrow> a \<le> k \<and> k < b \<and> P k"
  by (auto simp: find_Some_iff nth_append)

lemma find_None_upt: "find P [a..<b] = None \<Longrightarrow> a \<le> k \<Longrightarrow> k < b \<Longrightarrow> \<not> P k"
  by (auto simp: find_None_iff)

definition bring_forward :: "'f solver \<Rightarrow> nat \<Rightarrow> clause \<Rightarrow> clause" where
  "bring_forward s i c =
     (case find (\<lambda>k. lit_value s (c ! k) \<noteq> Some False) [i..<length c] of Some k \<Rightarrow> swap i k c | None \<Rightarrow> c)"

lemma reorder_bring: "reorder_watches s c = bring_forward s 1 (bring_forward s 0 c)"
  unfolding reorder_watches_def bring_forward_def Let_def ..

lemma mset_bring: "i < length c \<Longrightarrow> mset (bring_forward s i c) = mset c"
  using find_Some_upt [of _ i "length c"] by (auto simp: bring_forward_def split: option.splits)

lemma mset_reorder:
  assumes "2 \<le> length c"
  shows "mset (reorder_watches s c) = mset c"
proof -
  have m: "mset (bring_forward s 0 c) = mset c" by (rule mset_bring) (use assms in linarith)
  moreover have "1 < length (bring_forward s 0 c)" using assms mset_eq_length [OF m] by linarith
  ultimately show ?thesis unfolding reorder_bring by (simp only: mset_bring)
qed

text \<open>With a true watch or two non-false watches, the reordered clause has a non-false first watch, true if the second is false.\<close>

lemma reorder_watch_pair:
  assumes len: "2 \<le> length c"
    and pre: "\<not> lfalse s (c ! 0) \<and> \<not> lfalse s (c ! 1) \<or> ltrue s (c ! 0) \<or> ltrue s (c ! 1)"
  shows "\<not> lfalse s (reorder_watches s c ! 0)"
    and "lfalse s (reorder_watches s c ! 1) \<Longrightarrow> ltrue s (reorder_watches s c ! 0)"
proof -
  have nf: "lit_value s l \<noteq> Some False \<longleftrightarrow> \<not> lfalse s l" for l by (simp add: lit_value_simps)
  let ?P = "\<lambda>c k. lit_value s (c ! k) \<noteq> Some False"
  obtain k where k: "find (?P c) [0..<length c] = Some k"
  proof (cases "find (?P c) [0..<length c]")
    case None
    have "lfalse s (c ! 0)" "lfalse s (c ! 1)"
      using find_None_upt [OF None, of 0] find_None_upt [OF None, of 1] len unfolding nf by linarith+
    then show ?thesis using pre ltrue_not_lfalse by blast
  qed
  define d where "d = swap 0 k c"
  have len0: "0 < length c" using len by linarith
  have kd: "k < length c" "\<not> lfalse s (c ! k)" using find_Some_upt [OF k] nf by auto
  have d: "length d = length c" "mset d = mset c" "\<not> lfalse s (d ! 0)"
    using kd nth_swap [OF len0 kd(1) len0] mset_swap_clause [OF len0 kd(1)] by (auto simp: d_def split: if_splits)
  have r: "reorder_watches s c = (case find (?P d) [1..<length d] of Some j \<Rightarrow> swap 1 j d | None \<Rightarrow> d)"
    unfolding reorder_watches_def k Let_def option.case d_def ..
  show "\<not> lfalse s (reorder_watches s c ! 0)"
  proof (cases "find (?P d) [1..<length d]")
    case (Some j)
    then show ?thesis using find_Some_upt [OF Some] d(1,3) len0 len nth_swap [of 1 d j 0] unfolding r by auto
  qed (use d(3) r in auto)
  assume f: "lfalse s (reorder_watches s c ! 1)"
  have none: "find (?P d) [1..<length d] = None"
  proof (rule ccontr)
    assume "find (?P d) [1..<length d] \<noteq> None"
    then obtain j where j: "find (?P d) [1..<length d] = Some j" by blast
    then show False using f find_Some_upt [OF j] nf d(1) len nth_swap [of 1 d j 1] unfolding r by (auto split: if_splits)
  qed
  have fs: "lfalse s (d ! j)" if "1 \<le> j" "j < length c" for j
    using find_None_upt [OF none that(1)] that nf d(1) by simp
  have "ltrue s (c ! 0) \<or> ltrue s (c ! 1)"
  proof (rule ccontr)
    assume "\<not> ?thesis"
    then have "\<not> lfalse s (c ! 0)" "\<not> lfalse s (c ! 1)" using pre by auto
    then have "k = 0" using k upt_conv_Cons [OF len0] nf [of "c ! 0"] by simp
    then have "d = c" using len by (simp add: d_def swap_def)
    then show False using fs [of 1] \<open>\<not> lfalse s (c ! 1)\<close> len by simp
  qed
  moreover have "c ! 0 \<in> set c" "c ! 1 \<in> set c" using len0 len by (auto intro!: nth_mem)
  ultimately obtain l where "l \<in> set c" "ltrue s l" by blast
  then obtain j where "j < length c" "ltrue s (d ! j)" using d(1,2) by (metis in_set_conv_nth mset_eq_setD)
  then have "j = 0" using fs [of j] ltrue_not_lfalse by (cases j) auto
  then show "ltrue s (reorder_watches s c ! 0)" using \<open>ltrue s (d ! j)\<close> none by (simp add: r)
qed


lemma reorder_cong: "assign s' = assign s \<Longrightarrow> reorder_watches s' = reorder_watches s"
  by (simp add: fun_eq_iff reorder_watches_def lit_value_def)

lemma removal_set_range: "ci \<in> set (removal_set s) \<Longrightarrow> num_original s \<le> ci \<and> ci < length (s_clauses s) \<and> \<not> locked s ci"
  by (auto simp: removal_set_def Let_def dest!: in_set_takeD)

text \<open>Replacing the clause store by a reordered subset of itself keeps the core invariant when no reason is dropped.\<close>

lemma shrink_core:
  fixes ls :: "nat list" and ws :: "nat \<Rightarrow> nat list"
  assumes core: "core_inv F s" and orig: "\<forall>ci < length F. P ci"
    and lock: "\<forall>v\<in>set (trail s). \<forall>r. reason s v = Some r \<longrightarrow> P r"
    and f: "\<And>c. c \<in> set (s_clauses s) \<Longrightarrow> mset (f c) = mset c"
  defines "kept \<equiv> filter P [0..<length (s_clauses s)]"
  defines "s' \<equiv> s\<lparr>s_clauses := map (\<lambda>ci. f (s_clauses s ! ci)) kept, lbd := ls, watches := ws,
    reason := (\<lambda>v. if assign s v \<noteq> None then map_option (\<lambda>ci. length (filter P [0..<ci])) (reason s v) else reason s v)\<rparr>"
  shows "core_inv F s'"
proof -
  note T = core_invD(1) [OF core] and ST = core_invD(3) [OF core]
  have le: "length F \<le> length (s_clauses s)" and n: "num_original s = length F" using ST by (auto simp: store_ok_def)
  have split: "kept = [0..<length F] @ filter P [length F..<length (s_clauses s)]"
  proof -
    have "[0..<length (s_clauses s)] = [0..<length F] @ [length F..<length (s_clauses s)]"
      using le by (metis le_add_diff_inverse upt_add_eq_append zero_le)
    then show ?thesis using orig by (simp add: kept_def filter_id_conv)
  qed
  have kept_lt: "ci < length (s_clauses s)" if "ci \<in> set kept" for ci using that by (simp add: kept_def)
  have setf: "set (f c) = set c" if "c \<in> set (s_clauses s)" for c using f [OF that] by (rule mset_eq_setD)
  have "store_ok F s'"
  proof -
    have "mset (s_clauses s' ! ci) = mset (F ! ci)" if "ci < length F" for ci
      using that ST f [of "s_clauses s ! ci"] le by (simp add: s'_def split nth_append store_ok_def)
    moreover have "entails F c \<and> (\<forall>l\<in>set c. lit_var l < s_num_vars s)" if c: "c \<in> set (s_clauses s')" for c
    proof -
      obtain ci where ci: "ci < length (s_clauses s)" "c = f (s_clauses s ! ci)"
        using c kept_lt by (auto simp: s'_def)
      have "set c = set (s_clauses s ! ci)" using setf ci by simp
      then show ?thesis using ST ci by (auto simp: store_ok_def entails_def clause_true_def)
    qed
    moreover have "length F \<le> length (s_clauses s')" by (simp add: s'_def split)
    ultimately show ?thesis using n by (simp add: store_ok_def s'_def)
  qed
  moreover have "reasons_ok s'"
    unfolding reasons_ok_def
  proof (intro allI impI)
    fix i assume i: "i < length (trail s')"
    then have i': "i < length (trail s)" by (simp add: s'_def)
    have as: "assign s (trail s ! i) \<noteq> None" using trail_okD(2) [OF T, of "trail s ! i"] i' by simp
    show "case reason s' (trail s' ! i) of Some r \<Rightarrow> r < length (s_clauses s') \<and> reason_clause s' i (s_clauses s' ! r)
        | None \<Rightarrow> i \<in> set (trail_lim s')"
    proof (cases "reason s (trail s ! i)")
      case None
      then show ?thesis using reasons_okD(2) [OF core_invD(2) [OF core] i'] as by (simp add: s'_def)
    next
      case (Some r)
      note R = reasons_okD(1) [OF core_invD(2) [OF core] i' Some]
      have P: "P r" using lock Some nth_mem [OF i'] by blast
      note I = filter_index [of r "length (s_clauses s)" P, OF conjunct1 [OF R] P]
      have "reason_clause s' i (f (s_clauses s ! r))"
        by (rule reason_clause_cong [OF conjunct2 [OF R] i'])
          (use R setf in \<open>auto simp: s'_def ltrue_def lfalse_def\<close>)
      then show ?thesis using Some as I by (simp add: s'_def kept_def)
    qed
  qed
  ultimately show ?thesis using T core_invD(4) [OF core] by (simp add: core_inv_def trail_ok_def s'_def)
qed

lemma reduce_db_inv:
  assumes inv: "solver_inv F s" and d: "decision_level s = 0" and q: "prop_queue s = []"
  shows "solver_inv F (reduce_db s)"
proof (cases "removal_set s = []")
  case False
  let ?P = "\<lambda>ci. ci \<notin> set (removal_set s)"
  define f where "f = (\<lambda>c. if 2 \<le> length c then reorder_watches s c else c)"
  define kept where "kept = filter ?P [0..<length (s_clauses s)]"
  define cs where "cs = map (\<lambda>ci. f (s_clauses s ! ci)) kept"
  define s' where "s' = s\<lparr>s_clauses := cs, lbd := map (\<lambda>ci. lbd s ! ci) kept, watches := watch_all cs 0 (\<lambda>_. []),
    reason := (\<lambda>v. if assign s v \<noteq> None then map_option (\<lambda>ci. length (filter ?P [0..<ci])) (reason s v) else reason s v)\<rparr>"
  note core = solver_invD(1) [OF inv]
  have T: "trail_ok s" by (rule core_invD(1) [OF core])
  have lv: "level s v = 0" if "assign s v \<noteq> None" for v using level_le_decision [OF T] trail_okD(2) [OF T, of v] that d by simp
  have red: "reduce_db s = s'\<lparr>reductions := reductions s' + 1\<rparr>"
  proof -
    let ?s1 = "s\<lparr>s_clauses := map (\<lambda>ci. s_clauses s ! ci) kept, lbd := map (\<lambda>ci. lbd s ! ci) kept,
      reason := (\<lambda>v. if assign s v \<noteq> None then map_option (\<lambda>ci. length (filter ?P [0..<ci])) (reason s v) else reason s v)\<rparr>"
    have ro: "reorder_watches ?s1 = reorder_watches s" by (rule reorder_cong) simp
    have "rebuild_watches ?s1 = s'"
      unfolding rebuild_watches_def Let_def ro by (simp add: s'_def cs_def f_def comp_def)
    moreover have "reduce_db s = (rebuild_watches ?s1)\<lparr>reductions := reductions (rebuild_watches ?s1) + 1\<rparr>"
      using False unfolding reduce_db_def Let_def kept_def by simp
    ultimately show ?thesis by simp
  qed
  have "core_inv F s'"
    unfolding s'_def cs_def kept_def
  proof (rule shrink_core [OF core])
    show "\<forall>ci < length F. ?P ci" using removal_set_range core_invD(3) [OF core] by (fastforce simp: store_ok_def)
    show "\<forall>v\<in>set (trail s). \<forall>r. reason s v = Some r \<longrightarrow> ?P r" using removal_set_range by (fastforce simp: locked_def)
    show "mset (f c) = mset c" for c by (simp add: f_def mset_reorder)
  qed
  moreover have vals: "ltrue s' = ltrue s" "lfalse s' = lfalse s" by (simp_all add: fun_eq_iff s'_def ltrue_def lfalse_def)
  moreover have len: "length (f c) = length c" for c using mset_eq_length [OF mset_reorder, of c s] by (simp add: f_def)
  moreover have "watch_inv (watches s') (s_clauses s')"
    using watch_inv_watch_all [of "\<lambda>_. []" "[]" cs] by (simp add: s'_def watch_inv_def watch_count_def)
  moreover have "units_ok s'"
  proof -
    have "c \<noteq> [] \<and> (length c = 1 \<longrightarrow> ltrue s' (c ! 0) \<and> level s' (lit_var (c ! 0)) = 0)" if c: "c \<in> set cs" for c
    proof -
      obtain ci where ci: "ci < length (s_clauses s)" "c = f (s_clauses s ! ci)" using c by (auto simp: cs_def kept_def)
      have "length c = 1 \<Longrightarrow> c = s_clauses s ! ci" using ci len [of "s_clauses s ! ci"] by (simp add: f_def)
      then show ?thesis
        using solver_invD(3) [OF inv] ci len [of "s_clauses s ! ci"] vals by (auto simp: units_ok_def s'_def dest: nth_mem)
    qed
    then show ?thesis by (simp add: units_ok_def s'_def)
  qed
  moreover have "two_watch (\<lambda>_ _. False) s'"
    unfolding two_watch_def Let_def
  proof (intro allI impI)
    fix k assume k: "k < length (s_clauses s')" and l2: "2 \<le> length (s_clauses s' ! k)"
    have kk: "k < length kept" using k by (simp add: s'_def cs_def)
    define ci where "ci = kept ! k"
    have ci: "ci < length (s_clauses s)" "s_clauses s' ! k = f (s_clauses s ! ci)"
    proof -
      have "\<forall>x\<in>set kept. x < length (s_clauses s)" by (simp add: kept_def)
      then show "ci < length (s_clauses s)" using nth_mem [OF kk] unfolding ci_def by blast
    qed (use kk in \<open>simp add: ci_def s'_def cs_def\<close>)
    let ?c = "s_clauses s ! ci"
    have c2: "2 \<le> length ?c" using l2 ci len by simp
    have "\<not> lfalse s (?c ! 0) \<and> \<not> lfalse s (?c ! 1) \<or> ltrue s (?c ! 0) \<or> ltrue s (?c ! 1)"
      using two_watchD [OF solver_invD(5) [OF inv] ci(1) c2] q by (auto simp: watch_pair_def)
    note W = reorder_watch_pair [OF c2 this]
    have eq: "s_clauses s' ! k = reorder_watches s ?c" using ci c2 by (simp add: f_def)
    have "level s' (lit_var l) = 0" if "ltrue s l" for l using lv [of "lit_var l"] that by (simp add: s'_def ltrue_def)
    then show "(False \<or> watch_pair s' (s_clauses s' ! k ! 0) (s_clauses s' ! k ! 1)) \<and>
        (False \<or> watch_pair s' (s_clauses s' ! k ! 1) (s_clauses s' ! k ! 0))"
      using W by (simp add: eq watch_pair_def vals)
  qed
  moreover have "queue_ok s'" using q by (simp add: queue_ok_def s'_def)
  ultimately have "solver_inv F s'" by (simp add: solver_inv_def)
  then show ?thesis by (simp add: red)
qed (simp add: reduce_db_def inv)


lemma maybe_restart_inv:
  assumes inv: "solver_inv F s" and q: "prop_queue s = []"
  shows "solver_inv F (maybe_restart s)" and "prop_queue (maybe_restart s) = []" and "s_num_vars (maybe_restart s) = s_num_vars s"
    and "activity (maybe_restart s) = activity s" and "var_inc (maybe_restart s) = var_inc s"
proof -
  let ?s0 = "backtrack_to 0 s"
  have bt: "solver_inv F ?s0" "decision_level ?s0 = 0" "prop_queue ?s0 = []" "s_num_vars ?s0 = s_num_vars s" if d: "0 < decision_level s"
  proof -
    show "solver_inv F ?s0"
      by (rule backtrack_solver_inv [where ex = "\<lambda>_ _. False", OF solver_invD(1,3,4,5) [OF inv] d]) (use q in simp_all)
    show "decision_level ?s0 = 0" "prop_queue ?s0 = []" "s_num_vars ?s0 = s_num_vars s"
      by (simp_all add: decision_level_def backtrack_simps [OF d])
  qed
  have red: "solver_inv F (reduce_db t)" "prop_queue (reduce_db t) = []" "s_num_vars (reduce_db t) = s_num_vars t"
    if "solver_inv F t" "decision_level t = 0" "prop_queue t = []" for t :: "'a solver"
    using reduce_db_inv [OF that] that(3) by (simp_all add: reduce_db_def rebuild_watches_def Let_def)
  have heur: "activity (reduce_db t) = activity t" "var_inc (reduce_db t) = var_inc t" for t :: "'a solver"
    by (simp_all add: reduce_db_def rebuild_watches_def Let_def)
  have heur0: "activity ?s0 = activity s" "var_inc ?s0 = var_inc s" by (simp_all add: backtrack_to_def Let_def)
  show "solver_inv F (maybe_restart s)" "prop_queue (maybe_restart s) = []" "s_num_vars (maybe_restart s) = s_num_vars s"
    "activity (maybe_restart s) = activity s" "var_inc (maybe_restart s) = var_inc s"
    using inv q bt heur0
    by (simp_all add: maybe_restart_def Let_def red heur decision_level_def split: prod.splits)
qed

section \<open>Unit clauses of the input\<close>

definition units_seeded :: "nat set \<Rightarrow> 'f solver \<Rightarrow> bool" where
  "units_seeded I s \<longleftrightarrow> (\<forall>ci\<in>I. let c = s_clauses s ! ci in c \<noteq> [] \<and> (length c = 1 \<longrightarrow> ltrue s (c ! 0)))"

definition seed_inv :: "clause list \<Rightarrow> 'f solver \<Rightarrow> bool" where
  "seed_inv F s \<longleftrightarrow> core_inv F s \<and> queue_ok s \<and> watch_inv (watches s) (s_clauses s) \<and> two_watch (\<lambda>_ _. False) s \<and>
     trail_lim s = [] \<and> s_clauses s = F"

lemma entails_false:
  assumes inv: "core_inv F s" and tl: "trail_lim s = []" and c: "c \<in> set (s_clauses s)" and f: "\<forall>l\<in>set c. lfalse s l"
  shows "\<not> satisfiable F"
proof
  assume "satisfiable F"
  then obtain \<sigma> where \<sigma>: "cnf_sat \<sigma> F" by (auto simp: satisfiable_def)
  note T = core_invD(1) [OF inv]
  have "entails F c" using core_invD(3) [OF inv] c by (simp add: store_ok_def)
  then obtain l where l: "l \<in> set c" "lit_val \<sigma> l" using \<sigma> unfolding entails_def clause_true_def by blast
  have fl: "lfalse s l" using f l by blast
  then have v: "lit_var l \<in> set (trail s)" using trail_okD(2) [OF T] by (simp add: lfalse_def)
  have "level s (lit_var l) = 0" using level_le_decision [OF T v] tl by (simp add: decision_level_def)
  moreover have "ltrue s (negated l)" using fl by (cases l) (simp add: lfalse_def ltrue_def)
  ultimately have "lit_val \<sigma> (negated l)" using level_0_entailed [OF inv v _ _ _ \<sigma>] lit_var_negated by blast
  then show False using l(2) by simp
qed

lemma seed_units_correct:
  assumes "seed_inv F s" and "\<forall>ci\<in>set cis. ci < length F" and "units_seeded I s" and "seed_units cis s = (ok, s')"
  shows "if ok then seed_inv F s' \<and> units_seeded (I \<union> set cis) s' \<and> s_num_vars s' = s_num_vars s \<and>
      activity s' = activity s \<and> var_inc s' = var_inc s else \<not> satisfiable F"
  using assms
proof (induction cis arbitrary: s I)
  case (Cons ci cis)
  let ?c = "s_clauses s ! ci"
  note inv = Cons.prems(1) and I = Cons.prems(3)
  have ci: "ci < length F" "s_clauses s = F" "?c \<in> set (s_clauses s)" and core: "core_inv F s"
    using Cons.prems by (auto simp: seed_inv_def)
  consider (empty) "?c = []" | (unit) l where "?c = [l]" | (long) "2 \<le> length ?c"
    by (cases ?c rule: remdups_adj.cases) auto
  then show ?case
  proof cases
    case empty
    then have "\<not> satisfiable F" using entails_false [OF core _ ci(3)] inv by (simp add: seed_inv_def)
    then show ?thesis using Cons.prems(4) empty by simp
  next
    case long
    then have us: "units_seeded (insert ci I) s" using I by (auto simp: units_seeded_def)
    have "seed_units (ci # cis) s = seed_units cis s" using long by (cases ?c rule: remdups_adj.cases) auto
    then show ?thesis using Cons.IH [OF inv _ us] Cons.prems(2,4) by (cases ok) auto
  next
    case unit
    show ?thesis
    proof (cases "assign s (lit_var l)")
      case None
      let ?s1 = "push_lit l (Some ci) s"
      note V = push_lit_vals [OF None, where r = "Some ci"]
      have rng: "lit_var l < s_num_vars s" using core_invD(3) [OF core] ci(3) unit by (auto simp: store_ok_def)
      have "seed_inv F ?s1"
        using inv push_lit_core [OF core None rng, of ci] push_lit_queue_ok [OF _ core_invD(1) [OF core] None]
          push_lit_two_watch [OF _ None] unit ci by (simp add: seed_inv_def)
      moreover have "units_seeded (insert ci I) ?s1" using I V(1,3) unit by (simp add: units_seeded_def Let_def)
      ultimately show ?thesis
        using Cons.IH [of ?s1 "insert ci I"] Cons.prems(2,4) unit None
        by (cases ok) (auto simp: enqueue_None push_lit_def)
    next
      case (Some b)
      show ?thesis
      proof (cases "lfalse s l")
        case True
        then have "\<not> satisfiable F" using entails_false [OF core _ ci(3)] inv unit by (simp add: seed_inv_def)
        then show ?thesis using Cons.prems(4) unit Some True by (simp add: enqueue_Some)
      next
        case False
        then have us: "units_seeded (insert ci I) s" using I unit Some lit_cases [of s l] by (auto simp: units_seeded_def)
        show ?thesis using Cons.IH [OF inv _ us] Cons.prems(2,4) unit Some False by (cases ok) (auto simp: enqueue_Some)
      qed
    qed
  qed
qed simp

end
