(* ===== verification/Sat_Correct.thy ===== *)
theory Sat_Correct
  imports Sat_Search
begin

text \<open>
  Correctness of the whole solver: the main loop returns on every input with variables in range, \<open>Unsat\<close> means unsatisfiable and
  \<open>Sat\<close> carries a model. The only law needed of the \<open>f64\<close> activities is that the values the heuristic computes compare greater
  than negative infinity, so that a free variable is always found.
\<close>

section \<open>Activities\<close>

definition f64_closed :: "('f \<Rightarrow> bool) \<Rightarrow> 'f float_ops \<Rightarrow> bool" where
  "f64_closed ok fo \<longleftrightarrow> ok (f_zero fo) \<and> ok (f_one fo) \<and> (\<forall>x y. ok x \<longrightarrow> ok y \<longrightarrow> ok (f_add fo x y)) \<and>
     (\<forall>x. ok x \<longrightarrow> ok (f_mul fo x (f_rescale fo))) \<and> (\<forall>x. ok x \<longrightarrow> ok (f_mul fo x (f_inv_decay fo)))"

definition above_neg_inf :: "('f \<Rightarrow> bool) \<Rightarrow> 'f float_ops \<Rightarrow> bool" where
  "above_neg_inf ok fo \<longleftrightarrow> (\<forall>x. ok x \<longrightarrow> f_gt fo x (f_neg_inf fo))"

text \<open>
  \<open>f64_law ok fo\<close>: the values satisfying \<open>ok\<close> (the non-negative floats, infinity included) are closed under the
  operations the heuristic applies and compare greater than negative infinity.
\<close>

definition f64_law :: "('f \<Rightarrow> bool) \<Rightarrow> 'f float_ops \<Rightarrow> bool" where
  "f64_law ok fo \<longleftrightarrow> f64_closed ok fo \<and> above_neg_inf ok fo"

definition activity_ok :: "('f \<Rightarrow> bool) \<Rightarrow> 'f solver \<Rightarrow> bool" where
  "activity_ok ok s \<longleftrightarrow> (\<forall>v. ok (activity s v)) \<and> ok (var_inc s)"

lemma activity_ok_cong:
  "activity s' = activity s \<Longrightarrow> var_inc s' = var_inc s \<Longrightarrow> activity_ok ok s' = activity_ok ok s"
  by (simp add: activity_ok_def)

lemma bump_var_ok: "f64_closed ok fo \<Longrightarrow> activity_ok ok s \<Longrightarrow> activity_ok ok (bump_var fo v s)"
  by (auto simp: f64_closed_def activity_ok_def bump_var_def Let_def)

lemma decay_ok: "f64_closed ok fo \<Longrightarrow> activity_ok ok s \<Longrightarrow> activity_ok ok (decay_var_inc fo s)"
  by (auto simp: f64_closed_def activity_ok_def decay_var_inc_def)

lemma fold_bump_ok: "f64_closed ok fo \<Longrightarrow> activity_ok ok s \<Longrightarrow> activity_ok ok (fold (\<lambda>l. bump_var fo (lit_var l)) c s)"
  by (induction c arbitrary: s) (auto simp: bump_var_ok)

lemma analyze_activity:
  assumes "f64_closed ok fo" and "activity_ok ok s" and "analyze fo confl s = Some (r, s')"
  shows "activity_ok ok s'"
  using assms decay_ok [OF assms(1) fold_bump_ok [OF assms(1,2)]]
  by (auto simp: analyze_def Let_def activity_ok_def split: option.splits prod.splits)

lemma prop_watchers_heuristic:
  "prop_watchers fl rest keep s = (cf, keep', s') \<Longrightarrow> activity s' = activity s \<and> var_inc s' = var_inc s"
proof (induction rest arbitrary: keep s)
  case (Cons ci rest)
  have "activity (snd (enqueue l r t)) = activity t \<and> var_inc (snd (enqueue l r t)) = var_inc t" for l r and t :: "'a solver"
    by (simp add: enqueue_def split: option.splits)
  then show ?case using Cons.prems
    by (auto simp: Let_def set_clause_def split: if_splits option.splits bool.splits dest!: Cons.IH)
qed simp

lemma propagate_heuristic: "propagate_loop fuel s = Some (cf, s') \<Longrightarrow> activity s' = activity s \<and> var_inc s' = var_inc s"
proof (induction fuel arbitrary: s)
  case (Suc fuel)
  show ?case
  proof (cases "prop_queue s")
    case Nil
    then show ?thesis using Suc.prems propagate_loop_Nil [OF Nil, of fuel] by simp
  next
    case (Cons v queue)
    define fl where "fl = Lit v (assign s v = Some True)"
    obtain c keep s2 where w: "prop_watchers fl (watches s (lit_code fl)) []
        (s\<lparr>prop_queue := queue, watches := (watches s)(lit_code fl := [])\<rparr>) = (c, keep, s2)"
      by (metis prod_cases3)
    show ?thesis
      using Suc.prems prop_watchers_heuristic [OF w] unfolding propagate_loop_step [OF Cons fl_def w]
      by (auto split: option.splits dest!: Suc.IH)
  qed
qed simp

lemma learn_activity:
  assumes "f64_closed ok fo" and "activity_ok ok s" and "learn_and_backjump fo confl s = Some s'"
  shows "activity_ok ok s'"
proof -
  obtain c bt l s1 where an: "analyze fo confl s = Some ((c, bt, l), s1)"
    using assms(3) by (auto simp: learn_and_backjump_def split: option.splits)
  have "activity_ok ok s1" by (rule analyze_activity [OF assms(1,2) an])
  moreover have "activity s' = activity s1" "var_inc s' = var_inc s1"
    using assms(3) by (auto simp: learn_and_backjump_def an add_learnt_def Let_def enqueue_def backtrack_to_def split: option.splits)
  ultimately show ?thesis by (simp add: activity_ok_def)
qed

lemma pick_branch_fold:
  fixes s :: "'f solver"
  assumes law: "above_neg_inf ok fo" and act: "activity_ok ok s"
  defines "step \<equiv> \<lambda>(best, best_act) v. if assign s v = None \<and> f_gt fo (activity s v) best_act then (Some v, activity s v) else (best, best_act)"
  assumes "fst r = None \<Longrightarrow> snd r = f_neg_inf fo"
  shows "case fst (foldl step r vs) of
      None \<Rightarrow> fst r = None \<and> (\<forall>v\<in>set vs. assign s v \<noteq> None)
    | Some v \<Rightarrow> fst r = Some v \<or> v \<in> set vs \<and> assign s v = None"
  using assms(4)
proof (induction vs arbitrary: r)
  case (Cons v vs)
  show ?case
  proof (cases "assign s v = None \<and> f_gt fo (activity s v) (snd r)")
    case True
    then have "step r v = (Some v, activity s v)" by (cases r) (simp add: step_def)
    then show ?thesis using Cons.IH [of "(Some v, activity s v)"] True by (auto split: option.splits)
  next
    case False
    then have st: "step r v = r" by (cases r) (auto simp: step_def)
    have "fst r = None \<Longrightarrow> assign s v \<noteq> None"
      using False Cons.prems law act by (auto simp: above_neg_inf_def activity_ok_def)
    then show ?thesis using Cons.IH [OF Cons.prems] by (auto simp: st split: option.splits)
  qed
qed (auto split: option.splits)

lemma pick_branch_Some: "pick_branch fo s = Some v \<Longrightarrow> v < s_num_vars s \<and> assign s v = None"
proof -
  let ?step = "\<lambda>(best, best_act) v. if assign s v = None \<and> f_gt fo (activity s v) best_act then (Some v, activity s v) else (best, best_act)"
  have "\<forall>v. fst (foldl ?step r vs) = Some v \<longrightarrow> fst r = Some v \<or> v \<in> set vs \<and> assign s v = None" for r vs
  proof (induction vs arbitrary: r)
    case (Cons u vs)
    have "fst (?step r u) = fst r \<or> fst (?step r u) = Some u \<and> assign s u = None" by (cases r) auto
    then show ?case using Cons.IH [of "?step r u"] by auto
  qed simp
  then show "pick_branch fo s = Some v \<Longrightarrow> v < s_num_vars s \<and> assign s v = None"
    unfolding pick_branch_def by fastforce
qed

lemma pick_branch_None:
  assumes "above_neg_inf ok fo" and "activity_ok ok s" and "pick_branch fo s = None" and "v < s_num_vars s"
  shows "assign s v \<noteq> None"
  using pick_branch_fold [OF assms(1,2), of "(None, f_neg_inf fo)" "[0..<s_num_vars s]"] assms(3,4)
  by (simp add: pick_branch_def)

section \<open>A full assignment is a model\<close>

lemma full_assignment_model:
  assumes inv: "solver_inv F s" and q: "prop_queue s = []" and full: "\<forall>v < s_num_vars s. assign s v \<noteq> None"
  shows "cnf_sat (\<lambda>v. model_of s ! v) F"
  unfolding cnf_sat_def
proof
  fix c0 assume "c0 \<in> set F"
  then obtain ci where ci: "ci < length F" "F ! ci = c0" by (auto simp: in_set_conv_nth)
  have ST: "store_ok F s" using core_invD(3) [OF solver_invD(1) [OF inv]] .
  let ?c = "s_clauses s ! ci"
  have cl: "ci < length (s_clauses s)" "set ?c = set c0" "?c \<in> set (s_clauses s)"
    using ST ci by (auto simp: store_ok_def dest: mset_eq_setD)
  have rng: "lit_var l < s_num_vars s" if "l \<in> set ?c" for l using ST cl(3) that by (auto simp: store_ok_def)
  have "\<exists>l\<in>set ?c. ltrue s l"
  proof (cases "2 \<le> length ?c")
    case True
    then have mem: "?c ! 0 \<in> set ?c" "?c ! 1 \<in> set ?c" by (auto intro!: nth_mem)
    have "ltrue s (?c ! 0) \<or> ltrue s (?c ! 1)"
      using two_watchD(1) [OF solver_invD(5) [OF inv] cl(1) True] full rng [OF mem(1)] lit_cases [of s "?c ! 0"] q
      by (auto simp: watch_pair_def)
    then show ?thesis using mem by blast
  next
    case False
    then have "length ?c = 1" "ltrue s (?c ! 0)"
      using solver_invD(3) [OF inv] cl(3) by (auto simp: units_ok_def not_le numeral_2_eq_2 less_Suc_eq dest!: bspec [of _ _ ?c])
    then show ?thesis by (metis One_nat_def length_pos_if_in_set nth_mem zero_less_one)
  qed
  then obtain l where l: "l \<in> set c0" "ltrue s l" "lit_var l < s_num_vars s" using cl(2) rng by auto
  then have "lit_val (\<lambda>v. model_of s ! v) l" by (simp add: lit_val_def ltrue_def model_of_def)
  then show "clause_true (\<lambda>v. model_of s ! v) c0" using l(1) by (auto simp: clause_true_def)
qed


section \<open>The main loop\<close>

definition search_inv :: "('f \<Rightarrow> bool) \<Rightarrow> clause list \<Rightarrow> nat \<Rightarrow> 'f solver \<Rightarrow> bool" where
  "search_inv ok F n s \<longleftrightarrow> solver_inv F s \<and> activity_ok ok s \<and> s_num_vars s = n"

lemma propagate_search:
  assumes inv: "search_inv ok F n s" and p: "propagate s = Some (cf, s')"
  shows "trail_lim s' = trail_lim s"
    and "cf = None \<Longrightarrow> search_inv ok F n s' \<and> prop_queue s' = []"
    and "cf = Some ci \<Longrightarrow> conflict_inv F ci s' \<and> activity_ok ok s' \<and> s_num_vars s' = n"
  using propagate_loop_correct [of F s, OF _ p [unfolded propagate_def]] propagate_heuristic [OF p [unfolded propagate_def]] inv
  by (auto simp: search_inv_def activity_ok_def split: option.splits)

lemma level_0_conflict_unsat:
  assumes "conflict_inv F ci s" and "trail_lim s = []"
  shows "\<not> satisfiable F"
  using assms entails_false [of F s "s_clauses s ! ci"] by (auto simp: conflict_inv_def)

lemma conflict_loop_correct:
  assumes "f64_closed ok fo" and "search_inv ok F n s" and "decision_level s < fuel"
  shows "\<exists>r. conflict_loop fo clock fuel s tm = Some r \<and>
    (case r of Inl res \<Rightarrow> res = Unsat \<and> \<not> satisfiable F \<or> res = Unknown
     | Inr (s', tm') \<Rightarrow> search_inv ok F n s' \<and> prop_queue s' = [])"
  using assms(2,3)
proof (induction fuel arbitrary: s tm)
  case (Suc fuel)
  have "solver_inv F s" using Suc.prems by (simp add: search_inv_def)
  then obtain cf s1 where p: "propagate s = Some (cf, s1)" using propagate_total by fastforce
  note P = propagate_search [OF Suc.prems(1) p]
  show ?case
  proof (cases cf)
    case None
    then show ?thesis using P(2) p by simp
  next
    case (Some ci)
    note C = P(3) [OF Some]
    show ?thesis
    proof (cases "trail_lim s1 = []")
      case True
      then show ?thesis using C level_0_conflict_unsat Some p by auto
    next
      case False
      obtain to tm1 where to: "timed_out clock tm = (to, tm1)" by (cases "timed_out clock tm") blast
      have d: "0 < decision_level s1" "decision_level s1 = decision_level s"
        using False P(1) by (simp_all add: decision_level_def)
      obtain s2 where s2: "learn_and_backjump fo ci s1 = Some s2" "solver_inv F s2" "decision_level s2 < decision_level s1"
        "s_num_vars s2 = s_num_vars s1"
        using learn_and_backjump_correct [OF _ d(1), of F ci fo] C by blast
      have "search_inv ok F n s2" using s2 C learn_activity [OF assms(1) _ s2(1)] by (simp add: search_inv_def)
      then obtain r where "conflict_loop fo clock fuel s2 tm1 = Some r"
        "case r of Inl res \<Rightarrow> res = Unsat \<and> \<not> satisfiable F \<or> res = Unknown | Inr (s', tm') \<Rightarrow> search_inv ok F n s' \<and> prop_queue s' = []"
        using Suc.IH [of s2 tm1] s2(3) d(2) Suc.prems(2) by auto
      then show ?thesis using p Some False to s2(1) by auto
    qed
  qed
qed simp

definition result_ok :: "bool \<Rightarrow> clause list \<Rightarrow> nat \<Rightarrow> sat_result \<Rightarrow> bool" where
  "result_ok g F n r \<longleftrightarrow> (case r of Unsat \<Rightarrow> \<not> satisfiable F
     | Sat m \<Rightarrow> length m = n \<and> (g \<longrightarrow> cnf_sat (\<lambda>v. m ! v) F) | Unknown \<Rightarrow> True)"

lemma solve_loop_correct:
  assumes law: "f64_closed ok fo" and "search_inv ok F n s" and "prop_queue s = []"
  shows "\<exists>r. solve_loop fo clock budget s tm = Some r \<and> result_ok (above_neg_inf ok fo) F n r"
  using assms(2,3)
proof (induction budget arbitrary: s tm)
  have restart: "search_inv ok F n (maybe_restart s)" "prop_queue (maybe_restart s) = []"
    if "search_inv ok F n s" "prop_queue s = []" for s :: "'a solver"
    using maybe_restart_inv [of F s] that by (simp_all add: search_inv_def activity_ok_def)
  have model: "result_ok (above_neg_inf ok fo) F n (Sat (model_of s))" if "search_inv ok F n s" "prop_queue s = []" "pick_branch fo s = None" for s
    using full_assignment_model [of F s] pick_branch_None [of ok, OF _ _ that(3)] that by (auto simp: result_ok_def search_inv_def model_of_def)
  {
    case 0
    then show ?case using restart model by (auto simp: Let_def result_ok_def split: option.splits)
  next
    case (Suc budget)
    let ?s = "maybe_restart s"
    note R = restart [OF Suc.prems]
    show ?case
    proof (cases "pick_branch fo ?s")
      case None
      then show ?thesis using model [OF R] by simp
    next
      case (Some v)
      have v: "v < s_num_vars ?s" "assign ?s v = None" using pick_branch_Some [OF Some] by auto
      obtain to tm1 where to: "timed_out clock tm = (to, tm1)" by (cases "timed_out clock tm") blast
      have "search_inv ok F n (decide v ?s)"
        using decide_inv [OF _ R(2) v(2,1), of F] R(1)
        by (auto simp: search_inv_def activity_ok_def decide_def enqueue_def split: option.splits)
      then obtain r where r: "conflict_loop fo clock (Suc (decision_level (decide v ?s))) (decide v ?s) tm1 = Some r"
        "case r of Inl res \<Rightarrow> res = Unsat \<and> \<not> satisfiable F \<or> res = Unknown | Inr (s', tm') \<Rightarrow> search_inv ok F n s' \<and> prop_queue s' = []"
        using conflict_loop_correct [OF law] by blast
      show ?thesis
      proof (cases r)
        case (Inl res)
        then show ?thesis using r Some to by (auto simp: Let_def result_ok_def)
      next
        case (Inr st)
        then show ?thesis using r Some to Suc.IH [of "fst st" "snd st"] by (cases st) (auto simp: Let_def result_ok_def)
      qed
    qed
  }
qed

lemma solver_new_seed:
  assumes "\<forall>c\<in>set F. \<forall>l\<in>set c. lit_var l < n"
  shows "seed_inv F (solver_new fo n F)"
  using assms watch_inv_watch_all [of "\<lambda>_. []" "[]" F]
  by (auto simp: seed_inv_def solver_new_def core_inv_def trail_ok_def reasons_ok_def store_ok_def queue_ok_def two_watch_def
      watch_pair_def lfalse_def entails_def cnf_sat_def watch_inv_def watch_count_def)

lemma seeded_search:
  assumes "seed_inv F s" and "units_seeded {0..<length F} s"
  shows "solver_inv F s"
proof -
  have "level s v = 0" if "assign s v \<noteq> None" for v
    using level_le_decision [of s v] trail_okD(2) [of s v] that assms(1) by (simp add: seed_inv_def core_inv_def decision_level_def)
  then have "units_ok s"
    using assms unfolding units_ok_def all_set_conv_all_nth by (simp add: units_seeded_def seed_inv_def Let_def ltrue_def)
  then show ?thesis using assms(1) by (auto simp: seed_inv_def solver_inv_def)
qed

lemma solve_correct:
  assumes law: "f64_closed ok fo" and rng: "\<forall>c\<in>set F. \<forall>l\<in>set c. lit_var l < n"
  shows "\<exists>r. solve fo clock budget (solver_new fo n F) = Some r \<and> result_ok (above_neg_inf ok fo) F n r"
proof -
  let ?s = "solver_new fo n F"
  obtain k s1 where sd: "seed_units [0..<length F] ?s = (k, s1)" by force
  have cl: "s_clauses ?s = F" "s_num_vars ?s = n" by (simp_all add: solver_new_def)
  have act: "activity_ok ok ?s" using law by (simp add: activity_ok_def solver_new_def f64_closed_def)
  have S: "if k then seed_inv F s1 \<and> units_seeded ({} \<union> set [0..<length F]) s1 \<and> s_num_vars s1 = s_num_vars ?s \<and>
      activity s1 = activity ?s \<and> var_inc s1 = var_inc ?s else \<not> satisfiable F"
    by (rule seed_units_correct [OF solver_new_seed [OF rng, of fo] _ _ sd]) (simp_all add: units_seeded_def)
  show ?thesis
  proof (cases k)
    case False
    then show ?thesis using S sd by (simp add: solve_def cl result_ok_def)
  next
    case True
    have S': "seed_inv F s1" "units_seeded {0..<length F} s1" "s_num_vars s1 = n" "activity_ok ok s1"
      using S True act cl by (simp_all add: units_seeded_def activity_ok_def)
    have "solver_inv F s1" by (rule seeded_search [OF S'(1,2)])
    then have inv: "search_inv ok F n s1" using S' by (simp add: search_inv_def)
    obtain cf s2 where p: "propagate s1 = Some (cf, s2)" using propagate_total \<open>solver_inv F s1\<close> by fastforce
    note P = propagate_search [OF inv p]
    have tl: "trail_lim s2 = []" using S'(1) P(1) by (simp add: seed_inv_def)
    show ?thesis
    proof (cases cf)
      case None
      then show ?thesis using solve_loop_correct [OF law] P(2) sd True p by (auto simp: solve_def cl)
    next
      case (Some ci)
      then show ?thesis using level_0_conflict_unsat [OF _ tl] P(3) sd True p by (auto simp: solve_def cl result_ok_def)
    qed
  qed
qed

text \<open>Soundness of \<open>Unsat\<close> and totality hold whatever the floating-point values are.\<close>

lemma solve_unsat_sound:
  assumes "\<forall>c\<in>set F. \<forall>l\<in>set c. lit_var l < n" and "solve fo clock budget (solver_new fo n F) = Some Unsat"
  shows "\<not> satisfiable F"
  using solve_correct [of "\<lambda>_. True" fo F n clock budget] assms by (simp add: f64_closed_def result_ok_def)

lemma solve_returns:
  assumes "\<forall>c\<in>set F. \<forall>l\<in>set c. lit_var l < n"
  shows "solve fo clock budget (solver_new fo n F) \<noteq> None"
  using solve_correct [of "\<lambda>_. True" fo F n clock budget] assms by (auto simp: f64_closed_def)

lemma solve_model:
  assumes "f64_law ok fo" and "\<forall>c\<in>set F. \<forall>l\<in>set c. lit_var l < n"
    and "solve fo clock budget (solver_new fo n F) = Some (Sat m)"
  shows "length m = n" and "cnf_sat (\<lambda>v. m ! v) F"
  using solve_correct [of ok fo F n clock budget] assms by (auto simp: f64_law_def result_ok_def)

end
