(* ===== verification/Bit_Precise.thy ===== *)
theory Bit_Precise
  imports Blaster Sat_Correct Verdicts
begin

unbundle bit_operations_syntax

text \<open>
  The bit-precise decision procedure of \<open>crates/solver/src/bitprecise.rs\<close>: the assumptions and the negated goal are
  bit-blasted and asserted as unit clauses, and the CDCL solver is asked to refute them.

  Results are wrapped in an option whose \<open>None\<close> stands for a panic or an exhausted fuel; it is shown never to occur. The
  locale \<open>refuter\<close> states what the procedure relies on of the SAT solver, and is interpreted on the CDCL model.
\<close>

definition MAX_CLAUSES :: nat where
  "MAX_CLAUSES = 300000"

definition push_clause :: "clause \<Rightarrow> blaster \<Rightarrow> blaster" where
  "push_clause cl st = st\<lparr>bl_cnf := add_clause cl (bl_cnf st)\<rparr>"

primrec assert_all :: "expr_ctx \<Rightarrow> nat list \<Rightarrow> blaster \<Rightarrow> blaster option option" where
  "assert_all ctx [] st = Some (Some st)"
| "assert_all ctx (a # as) st =
     (case encode_bool ctx a st of
        None \<Rightarrow> None
      | Some (None, st) \<Rightarrow> Some None
      | Some (Some lit, st) \<Rightarrow> assert_all ctx as (push_clause [lit] st))"

definition encode_query :: "expr_ctx \<Rightarrow> nat list \<Rightarrow> nat \<Rightarrow> blaster option option" where
  "encode_query ctx as goal =
     (case assert_all ctx as blaster_new of
        None \<Rightarrow> None
      | Some None \<Rightarrow> Some None
      | Some (Some st) \<Rightarrow>
          (case encode_bool ctx goal st of
             None \<Rightarrow> None
           | Some (None, st) \<Rightarrow> Some None
           | Some (Some lit, st) \<Rightarrow> Some (Some (push_clause [negated lit] st))))"

definition prove_implies_budget :: "'f float_ops \<Rightarrow> (nat \<Rightarrow> bool) \<Rightarrow> expr_ctx \<Rightarrow> nat list \<Rightarrow> nat \<Rightarrow> nat \<Rightarrow> bool option" where
  "prove_implies_budget fo clock ctx as goal budget =
     (case encode_query ctx as goal of
        None \<Rightarrow> None
      | Some None \<Rightarrow> Some False
      | Some (Some st) \<Rightarrow>
          (let cnf = bl_cnf st in
           if length (clauses cnf) > MAX_CLAUSES then Some False
           else map_option (\<lambda>r. r = Unsat) (solve fo clock budget (solver_new fo (num_vars cnf) (clauses cnf)))))"

definition prove_implies_bits :: "'f float_ops \<Rightarrow> (nat \<Rightarrow> bool) \<Rightarrow> expr_ctx \<Rightarrow> nat list \<Rightarrow> nat \<Rightarrow> bool option" where
  "prove_implies_bits fo clock ctx as goal = prove_implies_budget fo clock ctx as goal DEFAULT_BUDGET"

text \<open>Reading a model back: the bits of a symbol, least significant first, set in a 128-bit accumulator.\<close>

definition model_bit :: "bool list \<Rightarrow> lit \<Rightarrow> bool" where
  "model_bit m l \<longleftrightarrow> (if lit_var l < length m then m ! lit_var l else False) \<noteq> lit_neg l"

primrec read_bits :: "bool list \<Rightarrow> nat \<Rightarrow> lit list \<Rightarrow> u128 \<Rightarrow> u128" where
  "read_bits m i [] v = v"
| "read_bits m i (l # ls) v = read_bits m (Suc i) ls (if model_bit m l then v OR push_bit i 1 else v)"

primrec read_model :: "bool list \<Rightarrow> (string \<times> nat \<times> lit list) list \<Rightarrow> model option" where
  "read_model m [] = Some []"
| "read_model m (s # ss) =
     (case s of (name, w, bits) \<Rightarrow>
        case bv_new w (read_bits m 0 bits 0) of
          None \<Rightarrow> None
        | Some v \<Rightarrow> map_option (\<lambda>as. (name, v) # as) (read_model m ss))"

definition find_counterexample :: "'f float_ops \<Rightarrow> (nat \<Rightarrow> bool) \<Rightarrow> expr_ctx \<Rightarrow> nat list \<Rightarrow> nat \<Rightarrow> model option option" where
  "find_counterexample fo clock ctx as goal =
     (case encode_query ctx as goal of
        None \<Rightarrow> None
      | Some None \<Rightarrow> Some None
      | Some (Some st) \<Rightarrow>
          (let cnf = bl_cnf st in
           if length (clauses cnf) > MAX_CLAUSES then Some None
           else case solve fo clock DEFAULT_BUDGET (solver_new fo (num_vars cnf) (clauses cnf)) of
                  None \<Rightarrow> None
                | Some (Sat m) \<Rightarrow> map_option Some (read_model m (syms st))
                | Some _ \<Rightarrow> Some None))"

section \<open>The encoded query\<close>

definition holds :: "env \<Rightarrow> expr_ctx \<Rightarrow> nat \<Rightarrow> bool" where
  "holds env ctx e \<longleftrightarrow> expr_val env ctx e = 1"

definition implies_all :: "expr_ctx \<Rightarrow> nat list \<Rightarrow> nat \<Rightarrow> bool" where
  "implies_all ctx as goal \<longleftrightarrow> (\<forall>env. (\<forall>a\<in>set as. holds env ctx a) \<longrightarrow> holds env ctx goal)"

lemma push_clause_simps [simp]:
  "clauses (bl_cnf (push_clause cl st)) = clauses (bl_cnf st) @ [cl]" "syms (push_clause cl st) = syms st"
  "memo (push_clause cl st) = memo st" "num_vars (bl_cnf (push_clause cl st)) = num_vars (bl_cnf st)"
  "in_range (bl_cnf (push_clause cl st)) = in_range (bl_cnf st)"
  by (simp_all add: push_clause_def add_clause_def fun_eq_iff in_range_def)

lemma push_clause_ext: "st_ext st (push_clause cl st)"
  by (auto simp: st_ext_def)

text \<open>Asserting a literal with the meaning \<open>P\<close> adds \<open>P\<close> to the condition carried by the invariant.\<close>

lemma push_unit_ok:
  assumes ok: "blast_ok ctx A st" and l: "in_range (bl_cnf st) l"
    and P: "\<And>\<sigma> env. cnf_sat \<sigma> (clauses (bl_cnf st)) \<Longrightarrow> agrees (syms st) \<sigma> env \<Longrightarrow> lit_val \<sigma> l = P env"
  shows "blast_ok ctx (\<lambda>env. A env \<and> P env) (push_clause [l] st)"
proof -
  let ?st = "push_clause [l] st"
  have sat: "cnf_sat \<sigma> (clauses (bl_cnf ?st)) \<longleftrightarrow> cnf_sat \<sigma> (clauses (bl_cnf st)) \<and> lit_val \<sigma> l" for \<sigma>
    by (auto simp: cnf_sat_def clause_true_def)
  have "cnf_wf (bl_cnf ?st)"
    using blast_okD(1) [OF ok] l by (auto simp: cnf_wf_def push_clause_def add_clause_def in_range_def)
  moreover have "syms_ok ctx ?st" using blast_okD(2) [OF ok] by (simp add: syms_ok_def)
  moreover have "den_ok ctx ?st e bits" if "den_ok ctx st e bits" for e bits
    using that sat by (simp add: den_ok_def)
  moreover have "\<exists>\<sigma>. cnf_sat \<sigma> (clauses (bl_cnf ?st)) \<and> agrees (syms st) \<sigma> env" if "A env" "P env" for env
    using blast_okD(3) [OF ok that(1)] that(2) sat P by blast
  moreover have "asserts (\<lambda>env. A env \<and> P env) ?st"
    using blast_okD(5) [OF ok] sat P unfolding asserts_def push_clause_simps(2) by blast
  ultimately show ?thesis using blast_okD(4) [OF ok] unfolding blast_ok_def push_clause_simps(2,3) by blast
qed

definition lit_means :: "expr_ctx \<Rightarrow> nat \<Rightarrow> blaster \<Rightarrow> lit \<Rightarrow> bool" where
  "lit_means ctx e st l \<longleftrightarrow> in_range (bl_cnf st) l \<and>
     (\<forall>\<sigma> env. cnf_sat \<sigma> (clauses (bl_cnf st)) \<longrightarrow> agrees (syms st) \<sigma> env \<longrightarrow> lit_val \<sigma> l = holds env ctx e)"

lemma encode_bool_means:
  assumes "ctx_wf ctx" and "e < ctx_len ctx" and "blast_ok ctx A st"
  shows "\<exists>r st'. encode_bool ctx e st = Some (r, st') \<and> blast_ok ctx A st' \<and> (\<forall>l. r = Some l \<longrightarrow> lit_means ctx e st' l)"
  by (rule encode_bool_correct [OF assms]) (metis lit_means_def holds_def)

lemma assert_all_correct:
  assumes wf: "ctx_wf ctx" and "\<forall>a\<in>set as. a < ctx_len ctx" and "blast_ok ctx A st"
  shows "\<exists>r. assert_all ctx as st = Some r \<and>
    (\<forall>st'. r = Some st' \<longrightarrow> blast_ok ctx (\<lambda>env. A env \<and> (\<forall>a\<in>set as. holds env ctx a)) st')"
  using assms(2,3)
proof (induction as arbitrary: st A)
  case (Cons a as)
  obtain r st1 where e: "encode_bool ctx a st = Some (r, st1)" and ok1: "blast_ok ctx A st1"
    and l: "\<And>l. r = Some l \<Longrightarrow> lit_means ctx a st1 l"
    using encode_bool_means [OF wf _ Cons.prems(2), of a] Cons.prems(1) by auto
  show ?case
  proof (cases r)
    case None
    then show ?thesis using e by simp
  next
    case (Some lit)
    have "blast_ok ctx (\<lambda>env. A env \<and> holds env ctx a) (push_clause [lit] st1)"
      by (rule push_unit_ok [OF ok1]) (use l [OF Some] in \<open>auto simp: lit_means_def\<close>)
    from Cons.IH [OF _ this] show ?thesis using e Some Cons.prems(1) by (simp add: conj_assoc)
  qed
qed simp

lemma encode_query_correct:
  assumes wf: "ctx_wf ctx" and as: "\<forall>a\<in>set as. a < ctx_len ctx" and g: "goal < ctx_len ctx"
  shows "\<exists>r. encode_query ctx as goal = Some r \<and>
    (\<forall>st. r = Some st \<longrightarrow> blast_ok ctx (\<lambda>env. (\<forall>a\<in>set as. holds env ctx a) \<and> \<not> holds env ctx goal) st)"
proof -
  obtain r where r: "assert_all ctx as blaster_new = Some r"
    "\<And>st. r = Some st \<Longrightarrow> blast_ok ctx (\<lambda>env. True \<and> (\<forall>a\<in>set as. holds env ctx a)) st"
    using assert_all_correct [OF wf as blast_ok_new] by blast
  show ?thesis
  proof (cases r)
    case None
    then show ?thesis using r by (simp add: encode_query_def)
  next
    case (Some st)
    have ok: "blast_ok ctx (\<lambda>env. \<forall>a\<in>set as. holds env ctx a) st" using r(2) [OF Some] by simp
    obtain rg st1 where e: "encode_bool ctx goal st = Some (rg, st1)" and ok1: "blast_ok ctx (\<lambda>env. \<forall>a\<in>set as. holds env ctx a) st1"
      and l: "\<And>l. rg = Some l \<Longrightarrow> lit_means ctx goal st1 l"
      using encode_bool_means [OF wf g ok] by blast
    show ?thesis
    proof (cases rg)
      case None
      then show ?thesis using r Some e by (simp add: encode_query_def)
    next
      case (Some lit)
      have "blast_ok ctx (\<lambda>env. (\<forall>a\<in>set as. holds env ctx a) \<and> \<not> holds env ctx goal) (push_clause [negated lit] st1)"
        by (rule push_unit_ok [OF ok1]) (use l [OF Some] in \<open>auto simp: lit_means_def in_range_def\<close>)
      then show ?thesis using r \<open>r = Some st\<close> e Some by (simp add: encode_query_def)
    qed
  qed
qed

lemma blast_ok_range: "blast_ok ctx A st \<Longrightarrow> \<forall>c\<in>set (clauses (bl_cnf st)). \<forall>l\<in>set c. lit_var l < num_vars (bl_cnf st)"
  by (auto dest!: blast_okD(1) simp: cnf_wf_def in_range_def)

section \<open>What is required of the SAT solver\<close>

locale refuter =
  fixes refute :: "nat \<Rightarrow> clause list \<Rightarrow> sat_result option"
  assumes refute_sound: "\<forall>c\<in>set F. \<forall>l\<in>set c. lit_var l < n \<Longrightarrow> refute n F = Some Unsat \<Longrightarrow> \<not> satisfiable F"
    and refute_returns: "\<forall>c\<in>set F. \<forall>l\<in>set c. lit_var l < n \<Longrightarrow> refute n F \<noteq> None"
begin

lemma refuted_query_implies:
  assumes "ctx_wf ctx" and "\<forall>a\<in>set as. a < ctx_len ctx" and "goal < ctx_len ctx"
    and q: "encode_query ctx as goal = Some (Some st)" and u: "refute (num_vars (bl_cnf st)) (clauses (bl_cnf st)) = Some Unsat"
  shows "implies_all ctx as goal"
proof -
  have ok: "blast_ok ctx (\<lambda>env. (\<forall>a\<in>set as. holds env ctx a) \<and> \<not> holds env ctx goal) st"
    using encode_query_correct [OF assms(1-3)] q by auto
  have "\<not> satisfiable (clauses (bl_cnf st))" by (rule refute_sound [OF blast_ok_range [OF ok] u])
  then show ?thesis using blast_okD(3) [OF ok] unfolding implies_all_def satisfiable_def by blast
qed

lemma query_returns:
  assumes "ctx_wf ctx" and "\<forall>a\<in>set as. a < ctx_len ctx" and "goal < ctx_len ctx"
    and "encode_query ctx as goal = Some (Some st)"
  shows "refute (num_vars (bl_cnf st)) (clauses (bl_cnf st)) \<noteq> None"
  using encode_query_correct [OF assms(1-3)] assms(4) by (intro refute_returns) (auto dest: blast_ok_range)

end

interpretation cdcl: refuter "\<lambda>n F. solve fo clock budget (solver_new fo n F)" for fo :: "'f float_ops" and clock budget
proof unfold_locales
  show "\<not> satisfiable F" if "\<forall>c\<in>set F. \<forall>l\<in>set c. lit_var l < n" "solve fo clock budget (solver_new fo n F) = Some Unsat" for F n
    using that by (rule solve_unsat_sound)
  show "solve fo clock budget (solver_new fo n F) \<noteq> None" if "\<forall>c\<in>set F. \<forall>l\<in>set c. lit_var l < n" for F n
    using that by (rule solve_returns)
qed

lemma prove_implies_budget_True:
  assumes "ctx_wf ctx" and "\<forall>a\<in>set as. a < ctx_len ctx" and "goal < ctx_len ctx"
    and "prove_implies_budget fo clock ctx as goal budget = Some True"
  shows "implies_all ctx as goal"
  using assms cdcl.refuted_query_implies [OF assms(1-3)]
  by (auto simp: prove_implies_budget_def Let_def split: option.splits if_splits)

lemma prove_implies_budget_returns:
  assumes "ctx_wf ctx" and "\<forall>a\<in>set as. a < ctx_len ctx" and "goal < ctx_len ctx"
  shows "prove_implies_budget fo clock ctx as goal budget \<noteq> None"
  using encode_query_correct [OF assms] cdcl.query_returns [OF assms, where fo = fo and clock = clock and budget = budget]
  by (auto simp: prove_implies_budget_def Let_def split: option.splits)


section \<open>Counterexamples\<close>

definition env_of_model :: "model \<Rightarrow> env" where
  "env_of_model m name w = (case find (\<lambda>(n, v). n = name \<and> bv_width v = w) m of Some (n, v) \<Rightarrow> unat (bv_unsigned v) | None \<Rightarrow> 0)"

lemma bit_read_bits:
  "bit (read_bits m i ls v) n \<longleftrightarrow> bit v n \<or> i \<le> n \<and> n < i + length ls \<and> n < 128 \<and> model_bit m (ls ! (n - i))"
proof (induction ls arbitrary: i v)
  case (Cons l ls)
  have "bit (if model_bit m l then v OR push_bit i 1 else v) n \<longleftrightarrow> bit v n \<or> n = i \<and> n < 128 \<and> model_bit m l"
    by (auto simp: bit_or_iff bit_exp_iff)
  then show ?case
    using Cons.IH [of "Suc i"] by (cases "n = i") (auto simp: nth_Cons' Suc_le_eq)
qed auto

lemma read_bits_val:
  assumes "length bits \<le> 128" and "\<forall>l\<in>set bits. lit_var l < length m"
  shows "unat (read_bits m 0 bits 0) = word_val (\<lambda>v. m ! v) bits"
proof (rule bit_eqI)
  fix n
  have "model_bit m (bits ! n) = lit_val (\<lambda>v. m ! v) (bits ! n)" if "n < length bits"
    using assms(2) nth_mem [OF that] by (simp add: model_bit_def lit_val_def)
  then show "bit (unat (read_bits m 0 bits 0)) n = bit (word_val (\<lambda>v. m ! v) bits) n"
    using assms(1) by (auto simp: bit_unsigned_iff bit_read_bits word_val_def bit_bits_val)
qed

lemma read_model_correct:
  assumes "\<forall>(name, w, bits)\<in>set ss. 0 < w \<and> w \<le> 128 \<and> length bits = w \<and> (\<forall>l\<in>set bits. lit_var l < length m)"
  shows "\<exists>mdl. read_model m ss = Some mdl \<and> env_of_model mdl = model_env ss (\<lambda>v. m ! v)"
  using assms
proof (induction ss)
  case Nil
  then show ?case by (simp add: env_of_model_def model_env_def fun_eq_iff)
next
  case (Cons s ss)
  obtain name w bits where s: "s = (name, w, bits)" by (cases s)
  have w: "0 < w" "w \<le> 128" "length bits = w" "\<forall>l\<in>set bits. lit_var l < length m" using Cons.prems s by auto
  obtain b where b: "bv_new w (read_bits m 0 bits 0) = Some b" using w by (auto simp: bv_new_def)
  have v: "bv_width b = w" "unat (bv_unsigned b) = word_val (\<lambda>v. m ! v) bits"
    using bv_new_facts [OF b] read_bits_val [of bits m] w word_val_less [of bits w "\<lambda>v. m ! v"] by (simp_all add: bv_nat_def)
  obtain mdl where "read_model m ss = Some mdl" "env_of_model mdl = model_env ss (\<lambda>v. m ! v)" using Cons by auto
  then show ?case using s b v by (auto simp: env_of_model_def model_env_def fun_eq_iff split: option.splits)
qed

lemma find_counterexample_genuine:
  assumes "f64_law ok fo" and ctx: "ctx_wf ctx" "\<forall>a\<in>set as. a < ctx_len ctx" "goal < ctx_len ctx"
    and "find_counterexample fo clock ctx as goal = Some (Some mdl)"
  shows "(\<forall>a\<in>set as. holds (env_of_model mdl) ctx a) \<and> \<not> holds (env_of_model mdl) ctx goal"
proof -
  obtain st m where q: "encode_query ctx as goal = Some (Some st)"
    and sv: "solve fo clock DEFAULT_BUDGET (solver_new fo (num_vars (bl_cnf st)) (clauses (bl_cnf st))) = Some (Sat m)"
    and rm: "read_model m (syms st) = Some mdl"
    using assms(5) by (auto simp: find_counterexample_def Let_def split: option.splits if_splits sat_result.splits)
  have ok: "blast_ok ctx (\<lambda>env. (\<forall>a\<in>set as. holds env ctx a) \<and> \<not> holds env ctx goal) st"
    using encode_query_correct [OF ctx] q by auto
  note M = solve_model [OF assms(1) blast_ok_range [OF ok] sv]
  have "env_of_model mdl = model_env (syms st) (\<lambda>v. m ! v)"
    using read_model_correct [of "syms st" m] blast_okD(2) [OF ok] rm M(1)
    by (fastforce simp: syms_ok_def MAX_WIDTH_def list_all_iff in_range_def)
  then show ?thesis
    using blast_okD(5) [OF ok] M(2) model_env_agrees [OF blast_okD(2) [OF ok]] by (simp add: asserts_def)
qed

end
