(* ===== verification/Linear_Arith.thy ===== *)
theory Linear_Arith
  imports Expr_Ctx
begin

text \<open>
  The linear-arithmetic procedure of \<open>crates/solver/src/linear.rs\<close>: comparisons are read as integer inequalities
  \<open>Linear \<le> 0\<close> and their conjunction with the negated goal is refuted by Fourier-Motzkin elimination in checked
  \<open>i128\<close> arithmetic.

  A \<open>BTreeMap\<close> of coefficients is a list of pairs with strictly increasing keys. \<open>linearize\<close> and \<open>constraints_of\<close> recurse
  along the arena with fuel \<open>Suc e\<close>, shown sufficient in \<open>linearize_fuel\<close> and \<open>constraints_of_fuel\<close>;
  \<open>feasible\<close> has the number of variable occurrences as fuel and is shown to return.
\<close>

definition CONSTRAINT_LIMIT :: nat where
  "CONSTRAINT_LIMIT = 4096"

record linear =
  lin_coeffs :: "(nat \<times> int) list"
  lin_const :: int

definition linear_constant :: "int \<Rightarrow> linear" where
  "linear_constant c = \<lparr>lin_coeffs = [], lin_const = c\<rparr>"

definition linear_atom :: "nat \<Rightarrow> linear" where
  "linear_atom e = \<lparr>lin_coeffs = [(e, 1)], lin_const = 0\<rparr>"

definition is_constant :: "linear \<Rightarrow> bool" where
  "is_constant l \<longleftrightarrow> lin_coeffs l = []"

definition coeff_of :: "linear \<Rightarrow> nat \<Rightarrow> int" where
  "coeff_of l v = (case map_of (lin_coeffs l) v of Some c \<Rightarrow> c | None \<Rightarrow> 0)"

definition normalized :: "linear \<Rightarrow> linear" where
  "normalized l = l\<lparr>lin_coeffs := filter (\<lambda>(_, c). c \<noteq> 0) (lin_coeffs l)\<rparr>"

text \<open>\<open>entry(k).or_insert(0)\<close> followed by a checked addition.\<close>

fun entry_add :: "nat \<Rightarrow> int \<Rightarrow> (nat \<times> int) list \<Rightarrow> (nat \<times> int) list option" where
  "entry_add k c [] = map_option (\<lambda>s. [(k, s)]) (checked_i128 (0 + c))"
| "entry_add k c ((k', c') # m) =
     (if k < k' then map_option (\<lambda>s. (k, s) # (k', c') # m) (checked_i128 (0 + c))
      else if k = k' then map_option (\<lambda>s. (k, s) # m) (checked_i128 (c' + c))
      else map_option (\<lambda>m. (k', c') # m) (entry_add k c m))"

primrec entry_add_all :: "(nat \<times> int) list \<Rightarrow> (nat \<times> int) list \<Rightarrow> (nat \<times> int) list option" where
  "entry_add_all [] m = Some m"
| "entry_add_all (kc # kcs) m = Option.bind (entry_add (fst kc) (snd kc) m) (entry_add_all kcs)"

definition linear_add :: "linear \<Rightarrow> linear \<Rightarrow> linear option" where
  "linear_add l m =
     Option.bind (checked_i128 (lin_const l + lin_const m)) (\<lambda>k.
     Option.bind (entry_add_all (lin_coeffs m) (lin_coeffs l)) (\<lambda>cs.
       Some (normalized \<lparr>lin_coeffs = cs, lin_const = k\<rparr>)))"

primrec scale_coeffs :: "int \<Rightarrow> (nat \<times> int) list \<Rightarrow> (nat \<times> int) list option" where
  "scale_coeffs k [] = Some []"
| "scale_coeffs k (ac # m) =
     Option.bind (checked_i128 (snd ac * k)) (\<lambda>c. map_option (\<lambda>m. (fst ac, c) # m) (scale_coeffs k m))"

definition linear_scale :: "int \<Rightarrow> linear \<Rightarrow> linear option" where
  "linear_scale k l =
     Option.bind (checked_i128 (lin_const l * k)) (\<lambda>c.
     Option.bind (scale_coeffs k (lin_coeffs l)) (\<lambda>cs. Some (normalized \<lparr>lin_coeffs = cs, lin_const = c\<rparr>)))"

definition linear_sub :: "linear \<Rightarrow> linear \<Rightarrow> linear option" where
  "linear_sub l m = Option.bind (linear_scale (- 1) m) (linear_add l)"

definition linear_add_const :: "int \<Rightarrow> linear \<Rightarrow> linear option" where
  "linear_add_const k l = map_option (\<lambda>c. l\<lparr>lin_const := c\<rparr>) (checked_i128 (lin_const l + k))"

definition const_to_int :: "bit_vector \<Rightarrow> int" where
  "const_to_int bv = (let u = uint (bv_unsigned bv) in if u \<le> i128_max then u else bv_signed bv)"

primrec linearize :: "nat \<Rightarrow> expr_ctx \<Rightarrow> nat \<Rightarrow> linear option" where
  "linearize 0 ctx e = None"
| "linearize (Suc fuel) ctx e =
     (case node ctx e of
        Const bv \<Rightarrow> Some (linear_constant (const_to_int bv))
      | Bin op a b \<Rightarrow>
          Option.bind (linearize fuel ctx a) (\<lambda>la. Option.bind (linearize fuel ctx b) (\<lambda>lb.
            case op of
              Add \<Rightarrow> linear_add la lb
            | Sub \<Rightarrow> linear_sub la lb
            | Mul \<Rightarrow>
                if is_constant la then linear_scale (lin_const la) lb
                else if is_constant lb then linear_scale (lin_const lb) la
                else Some (linear_atom e)
            | _ \<Rightarrow> Some (linear_atom e)))
      | _ \<Rightarrow> Some (linear_atom e))"

definition cmp_constraints :: "cmp_op \<Rightarrow> linear \<Rightarrow> linear \<Rightarrow> linear list option" where
  "cmp_constraints op la lb =
     Option.bind
       (case op of
          Ult \<Rightarrow> map_option (\<lambda>l. [l]) (Option.bind (linear_sub la lb) (linear_add_const 1))
        | Slt \<Rightarrow> map_option (\<lambda>l. [l]) (Option.bind (linear_sub la lb) (linear_add_const 1))
        | Ule \<Rightarrow> map_option (\<lambda>l. [l]) (linear_sub la lb)
        | Sle \<Rightarrow> map_option (\<lambda>l. [l]) (linear_sub la lb)
        | Ugt \<Rightarrow> map_option (\<lambda>l. [l]) (Option.bind (linear_sub lb la) (linear_add_const 1))
        | Sgt \<Rightarrow> map_option (\<lambda>l. [l]) (Option.bind (linear_sub lb la) (linear_add_const 1))
        | Uge \<Rightarrow> map_option (\<lambda>l. [l]) (linear_sub lb la)
        | Sge \<Rightarrow> map_option (\<lambda>l. [l]) (linear_sub lb la)
        | Eq \<Rightarrow> Option.bind (linear_sub la lb) (\<lambda>l. map_option (\<lambda>m. [l, m]) (linear_sub lb la))
        | Ne \<Rightarrow> None)
       (\<lambda>res.
          if op \<in> {Ult, Ule, Ugt, Uge}
          then Option.bind (linear_scale (- 1) la) (\<lambda>na. map_option (\<lambda>nb. res @ [na, nb]) (linear_scale (- 1) lb))
          else Some res)"

primrec all_constraints :: "(nat \<Rightarrow> linear list option) \<Rightarrow> nat list \<Rightarrow> linear list option" where
  "all_constraints f [] = Some []"
| "all_constraints f (x # xs) = Option.bind (f x) (\<lambda>cs. map_option (\<lambda>ds. cs @ ds) (all_constraints f xs))"

primrec constraints_of :: "nat \<Rightarrow> expr_ctx \<Rightarrow> nat \<Rightarrow> bool \<Rightarrow> linear list option" where
  "constraints_of 0 ctx e truth = None"
| "constraints_of (Suc fuel) ctx e truth =
     (case node ctx e of
        Bool b \<Rightarrow> if b = truth then Some [] else Some [linear_constant 1]
      | Not_node x \<Rightarrow> constraints_of fuel ctx x (\<not> truth)
      | And_node xs \<Rightarrow> if truth then all_constraints (\<lambda>x. constraints_of fuel ctx x True) xs else None
      | Or_node xs \<Rightarrow> if \<not> truth then all_constraints (\<lambda>x. constraints_of fuel ctx x False) xs else None
      | Cmp op a b \<Rightarrow>
          Option.bind (linearize (Suc a) ctx a) (\<lambda>la. Option.bind (linearize (Suc b) ctx b) (\<lambda>lb.
            cmp_constraints (if truth then op else cmp_negate op) la lb))
      | _ \<Rightarrow> None)"

section \<open>Fourier-Motzkin elimination\<close>

definition remove_var :: "nat \<Rightarrow> linear \<Rightarrow> linear" where
  "remove_var v l = l\<lparr>lin_coeffs := filter (\<lambda>(k, _). k \<noteq> v) (lin_coeffs l)\<rparr>"

definition contradiction :: "linear \<Rightarrow> bool" where
  "contradiction l \<longleftrightarrow> is_constant l \<and> lin_const l > 0"

definition combine_pair :: "nat \<Rightarrow> linear \<Rightarrow> linear \<Rightarrow> linear option" where
  "combine_pair v p n =
     (let a = coeff_of p v; b = wrap_i128 (- coeff_of n v) in
      Option.bind (linear_scale b p) (\<lambda>bp. Option.bind (linear_scale a n) (\<lambda>an.
        map_option (\<lambda>c. normalized (remove_var v c)) (linear_add bp an))))"

text \<open>The inner loop over the negative occurrences; \<open>Inl\<close> is an early return of \<open>feasible\<close>.\<close>

primrec eliminate_neg :: "nat \<Rightarrow> linear \<Rightarrow> linear list \<Rightarrow> linear list \<Rightarrow> bool + linear list" where
  "eliminate_neg v p [] next = Inr next"
| "eliminate_neg v p (n # ns) next =
     (case combine_pair v p n of
        None \<Rightarrow> Inl True
      | Some c \<Rightarrow>
          if contradiction c then Inl False
          else if length (next @ [c]) > CONSTRAINT_LIMIT then Inl True
          else eliminate_neg v p ns (next @ [c]))"

primrec eliminate :: "nat \<Rightarrow> linear list \<Rightarrow> linear list \<Rightarrow> linear list \<Rightarrow> bool + linear list" where
  "eliminate v [] ns next = Inr next"
| "eliminate v (p # ps) ns next =
     (case eliminate_neg v p ns next of Inl r \<Rightarrow> Inl r | Inr next \<Rightarrow> eliminate v ps ns next)"

definition constraint_keys :: "linear list \<Rightarrow> nat list" where
  "constraint_keys cs = concat (map (\<lambda>c. map fst (lin_coeffs c)) cs)"

primrec feasible_loop :: "nat \<Rightarrow> linear list \<Rightarrow> bool option" where
  "feasible_loop 0 cs = None"
| "feasible_loop (Suc fuel) cs =
     (if list_ex contradiction cs then Some False
      else case constraint_keys cs of
             [] \<Rightarrow> Some True
           | v # _ \<Rightarrow>
               (case eliminate v (filter (\<lambda>c. coeff_of c v > 0) cs) (filter (\<lambda>c. coeff_of c v < 0) cs)
                      (filter (\<lambda>c. coeff_of c v = 0) cs) of
                  Inl r \<Rightarrow> Some r
                | Inr next \<Rightarrow> feasible_loop fuel next))"

definition feasible :: "linear list \<Rightarrow> bool option" where
  "feasible cs = feasible_loop (Suc (length (remdups (constraint_keys cs)))) cs"

primrec gather :: "expr_ctx \<Rightarrow> nat list \<Rightarrow> linear list" where
  "gather ctx [] = []"
| "gather ctx (a # as) = (case constraints_of (Suc a) ctx a True of Some cs \<Rightarrow> cs | None \<Rightarrow> []) @ gather ctx as"

definition prove_implies :: "expr_ctx \<Rightarrow> nat list \<Rightarrow> nat \<Rightarrow> bool option" where
  "prove_implies ctx as goal =
     (case constraints_of (Suc goal) ctx goal False of
        None \<Rightarrow> Some False
      | Some cs \<Rightarrow> map_option Not (feasible (gather ctx as @ cs)))"

section \<open>The value of a linear form\<close>

definition lin_eval :: "(nat \<Rightarrow> int) \<Rightarrow> linear \<Rightarrow> int" where
  "lin_eval v l = lin_const l + sum_list (map (\<lambda>(k, c). c * v k) (lin_coeffs l))"

definition keys :: "(nat \<times> int) list \<Rightarrow> nat set" where
  "keys m = fst ` set m"

lemma keys_simps [simp]: "keys [] = {}" "keys ((k, c) # m) = insert k (keys m)" "finite (keys m)"
  by (simp_all add: keys_def)

definition coeffs_wf :: "(nat \<times> int) list \<Rightarrow> bool" where
  "coeffs_wf m \<longleftrightarrow> sorted_wrt (<) (map fst m) \<and> (\<forall>(_, c)\<in>set m. in_i128 c)"

definition lin_wf :: "linear \<Rightarrow> bool" where
  "lin_wf l \<longleftrightarrow> coeffs_wf (lin_coeffs l) \<and> (\<forall>(_, c)\<in>set (lin_coeffs l). c \<noteq> 0)"

definition coeff :: "(nat \<times> int) list \<Rightarrow> nat \<Rightarrow> int" where
  "coeff m v = (case map_of m v of Some c \<Rightarrow> c | None \<Rightarrow> 0)"

definition coeffs_eval :: "(nat \<Rightarrow> int) \<Rightarrow> (nat \<times> int) list \<Rightarrow> int" where
  "coeffs_eval v m = sum_list (map (\<lambda>(k, c). c * v k) m)"

lemma coeffs_eval_simps [simp]:
  "coeffs_eval v [] = 0" "coeffs_eval v ((k, c) # m) = c * v k + coeffs_eval v m"
  by (simp_all add: coeffs_eval_def)

lemma lin_eval_coeffs: "lin_eval v l = lin_const l + coeffs_eval v (lin_coeffs l)"
  by (simp add: lin_eval_def coeffs_eval_def)

lemma coeff_simps [simp]: "coeff [] v = 0" "coeff ((k, c) # m) v = (if v = k then c else coeff m v)"
  by (simp_all add: coeff_def)

lemma coeff_of_coeff: "coeff_of l v = coeff (lin_coeffs l) v"
  by (simp add: coeff_of_def coeff_def)

lemma coeffs_wf_simps [simp]:
  "coeffs_wf []" "coeffs_wf ((k, c) # m) \<longleftrightarrow> (\<forall>k'\<in>keys m. k < k') \<and> in_i128 c \<and> coeffs_wf m"
  by (auto simp: coeffs_wf_def keys_def)

lemma coeff_absent: "v \<notin> keys m \<Longrightarrow> coeff m v = 0"
  by (induction m) auto

lemma coeff_i128: "coeffs_wf m \<Longrightarrow> in_i128 (coeff m v)"
  by (induction m) (auto simp: i128_defs)

lemma entry_add_correct:
  assumes "coeffs_wf m" and "entry_add k c m = Some m'"
  shows "coeffs_wf m' \<and> keys m' = insert k (keys m) \<and> coeffs_eval v m' = c * v k + coeffs_eval v m \<and>
    coeff m' u = (if u = k then coeff m k + c else coeff m u)"
  using assms
proof (induction k c m arbitrary: m' rule: entry_add.induct)
  case (1 k c)
  then show ?case by (auto simp: checked_i128_Some)
next
  case (2 k c k' c' m)
  have abs: "k \<le> k' \<Longrightarrow> k \<notin> keys m" using 2(2) by auto
  consider (less) "k < k'" | (eq) "k = k'" | (gr) "k' < k" by linarith
  then show ?case
  proof cases
    case less
    then have "\<forall>k''\<in>keys m. k < k''" using 2(2) by fastforce
    then show ?thesis using less 2(2,3) abs coeff_absent by (auto simp: checked_i128_Some)
  next
    case eq
    then show ?thesis using 2(2,3) by (auto simp: checked_i128_Some algebra_simps)
  next
    case gr
    then obtain m1 where m1: "entry_add k c m = Some m1" "m' = (k', c') # m1" using 2(3) by auto
    then show ?thesis using 2(1) [OF _ _ _ m1(1)] 2(2) gr by auto
  qed
qed

lemma entry_add_all_correct:
  assumes "coeffs_wf m" and "entry_add_all kcs m = Some m'" and "distinct (map fst kcs)"
  shows "coeffs_wf m' \<and> keys m' = keys kcs \<union> keys m \<and> coeffs_eval v m' = coeffs_eval v kcs + coeffs_eval v m \<and>
    coeff m' u = coeff m u + coeff kcs u"
  using assms
proof (induction kcs arbitrary: m)
  case (Cons kc kcs)
  obtain m1 where m1: "entry_add (fst kc) (snd kc) m = Some m1" "entry_add_all kcs m1 = Some m'"
    using Cons.prems(2) by (auto simp: bind_eq_Some_conv)
  note E = entry_add_correct [OF Cons.prems(1) m1(1), of v]
  show ?case using Cons.IH [OF _ m1(2)] E E [of u] Cons.prems(3) coeff_absent [of "fst kc" kcs]
    by (cases kc) (auto simp: keys_def)
qed simp

lemma normalized_facts:
  "lin_eval v (normalized l) = lin_eval v l" "coeffs_wf (lin_coeffs l) \<Longrightarrow> lin_wf (normalized l)"
  "coeffs_wf (lin_coeffs l) \<Longrightarrow> coeff (lin_coeffs (normalized l)) u = coeff (lin_coeffs l) u"
  "keys (lin_coeffs (normalized l)) \<subseteq> keys (lin_coeffs l)"
proof -
  have "coeffs_eval v (filter (\<lambda>(_, c). c \<noteq> 0) m) = coeffs_eval v m" for m by (induction m) auto
  then show "lin_eval v (normalized l) = lin_eval v l" by (simp add: normalized_def lin_eval_coeffs)
  have sub: "keys (filter (\<lambda>(_, c). c \<noteq> 0) m) \<subseteq> keys m" for m by (auto simp: keys_def)
  have "coeffs_wf m \<Longrightarrow> coeffs_wf (filter (\<lambda>(_, c). c \<noteq> 0) m)" for m
  proof (induction m)
    case (Cons kc m)
    then show ?case using sub [of m] by (cases kc) auto
  qed simp
  then show "coeffs_wf (lin_coeffs l) \<Longrightarrow> lin_wf (normalized l)" by (auto simp: normalized_def lin_wf_def)
  have "coeffs_wf m \<Longrightarrow> coeff (filter (\<lambda>(_, c). c \<noteq> 0) m) u = coeff m u" for m
    using coeff_absent by (induction m) fastforce+
  then show "coeffs_wf (lin_coeffs l) \<Longrightarrow> coeff (lin_coeffs (normalized l)) u = coeff (lin_coeffs l) u" by (simp add: normalized_def)
qed (auto simp: normalized_def keys_def)


lemma lin_wf_coeffs: "lin_wf l \<Longrightarrow> coeffs_wf (lin_coeffs l)"
  by (simp add: lin_wf_def)

lemma coeffs_wf_distinct: "coeffs_wf m \<Longrightarrow> distinct (map fst m)"
  by (auto simp: coeffs_wf_def strict_sorted_iff)

text \<open>What an operation that returns \<open>Some l\<close> guarantees: the exact value, and keys among those of the operands.\<close>

definition lin_vars :: "linear \<Rightarrow> nat set" where
  "lin_vars l = keys (lin_coeffs l)"

lemma linear_add_correct:
  assumes "lin_wf l" and "lin_wf m" and "linear_add l m = Some r"
  shows "lin_wf r" and "lin_eval v r = lin_eval v l + lin_eval v m" and "coeff_of r u = coeff_of l u + coeff_of m u"
    and "in_i128 (coeff_of l u + coeff_of m u)" and "lin_vars r \<subseteq> lin_vars l \<union> lin_vars m"
proof -
  obtain cs where cs: "entry_add_all (lin_coeffs m) (lin_coeffs l) = Some cs"
    "r = normalized \<lparr>lin_coeffs = cs, lin_const = lin_const l + lin_const m\<rparr>"
    using assms(3) by (auto simp: linear_add_def bind_eq_Some_conv checked_i128_Some)
  have E: "coeffs_wf cs" "keys cs = keys (lin_coeffs m) \<union> keys (lin_coeffs l)"
    "coeffs_eval v cs = coeffs_eval v (lin_coeffs m) + coeffs_eval v (lin_coeffs l)"
    "coeff cs u = coeff (lin_coeffs l) u + coeff (lin_coeffs m) u" for v u
    using entry_add_all_correct [OF lin_wf_coeffs [OF assms(1)] cs(1) coeffs_wf_distinct [OF lin_wf_coeffs [OF assms(2)]]] by blast+
  show "lin_wf r" "lin_eval v r = lin_eval v l + lin_eval v m" "coeff_of r u = coeff_of l u + coeff_of m u"
    "lin_vars r \<subseteq> lin_vars l \<union> lin_vars m"
    using E normalized_facts [where l = "\<lparr>lin_coeffs = cs, lin_const = lin_const l + lin_const m\<rparr>"]
    by (auto simp: cs(2) lin_eval_coeffs coeff_of_coeff lin_vars_def)
  show "in_i128 (coeff_of l u + coeff_of m u)" using coeff_i128 [OF E(1), of u] E(4) [of u] by (simp add: coeff_of_coeff)
qed

lemma scale_coeffs_correct:
  assumes "coeffs_wf m" and "scale_coeffs k m = Some m'"
  shows "coeffs_wf m' \<and> keys m' = keys m \<and> coeffs_eval v m' = k * coeffs_eval v m \<and> coeff m' u = coeff m u * k"
  using assms
proof (induction m arbitrary: m')
  case (Cons kc m)
  then show ?case by (cases kc) (auto simp: bind_eq_Some_conv checked_i128_Some algebra_simps)
qed simp

lemma linear_scale_correct:
  assumes "lin_wf l" and "linear_scale k l = Some r"
  shows "lin_wf r" and "lin_eval v r = k * lin_eval v l" and "coeff_of r u = k * coeff_of l u"
    and "in_i128 (k * coeff_of l u)" and "lin_vars r \<subseteq> lin_vars l"
proof -
  obtain cs where cs: "scale_coeffs k (lin_coeffs l) = Some cs" "r = normalized \<lparr>lin_coeffs = cs, lin_const = lin_const l * k\<rparr>"
    using assms(2) by (auto simp: linear_scale_def bind_eq_Some_conv checked_i128_Some)
  have E: "coeffs_wf cs" "keys cs = keys (lin_coeffs l)" "coeffs_eval v cs = k * coeffs_eval v (lin_coeffs l)"
    "coeff cs u = coeff (lin_coeffs l) u * k" for v u
    using scale_coeffs_correct [OF lin_wf_coeffs [OF assms(1)] cs(1)] by blast+
  show "lin_wf r" "lin_eval v r = k * lin_eval v l" "coeff_of r u = k * coeff_of l u" "lin_vars r \<subseteq> lin_vars l"
    using E normalized_facts [where l = "\<lparr>lin_coeffs = cs, lin_const = lin_const l * k\<rparr>"]
    by (auto simp: cs(2) lin_eval_coeffs coeff_of_coeff lin_vars_def algebra_simps)
  show "in_i128 (k * coeff_of l u)" using coeff_i128 [OF E(1), of u] E(4) [of u] by (simp add: coeff_of_coeff mult.commute)
qed

lemma linear_sub_correct:
  assumes "lin_wf l" and "lin_wf m" and "linear_sub l m = Some r"
  shows "lin_wf r" and "lin_eval v r = lin_eval v l - lin_eval v m"
proof -
  obtain n where n: "linear_scale (- 1) m = Some n" "linear_add l n = Some r" using assms(3) by (auto simp: linear_sub_def bind_eq_Some_conv)
  note S = linear_scale_correct [OF assms(2) n(1)]
  note A = linear_add_correct [OF assms(1) S(1) n(2)]
  show "lin_wf r" by (rule A(1))
  show "lin_eval v r = lin_eval v l - lin_eval v m" using A(2) S(2) by simp
qed

lemma linear_add_const_correct:
  assumes "lin_wf l" and "linear_add_const k l = Some r"
  shows "lin_wf r" and "lin_eval v r = lin_eval v l + k"
  using assms by (auto simp: linear_add_const_def checked_i128_Some lin_wf_def lin_eval_def)

lemma linear_atom_facts [simp]: "lin_wf (linear_atom e)" "lin_eval v (linear_atom e) = v e"
  by (simp_all add: linear_atom_def lin_wf_def lin_eval_def i128_defs)

lemma linear_constant_facts [simp]: "lin_wf (linear_constant c)" "lin_eval v (linear_constant c) = c"
  by (simp_all add: linear_constant_def lin_wf_def lin_eval_def)

lemma is_constant_eval: "is_constant l \<Longrightarrow> lin_eval v l = lin_const l"
  by (simp add: is_constant_def lin_eval_def)

section \<open>Elimination keeps every integer solution\<close>

definition solution :: "(nat \<Rightarrow> int) \<Rightarrow> linear list \<Rightarrow> bool" where
  "solution v cs \<longleftrightarrow> (\<forall>c\<in>set cs. lin_eval v c \<le> 0)"

lemma remove_var_correct:
  assumes "lin_wf l" and "coeff_of l v = 0"
  shows "remove_var v l = l" and "v \<notin> lin_vars l"
proof -
  have "v \<notin> keys m" if "coeff m v = 0" "\<forall>(_, c)\<in>set m. c \<noteq> 0" for m 
    using that by (induction m) (auto split: if_splits)
  then have "v \<notin> keys (lin_coeffs l)" using assms by (auto simp: lin_wf_def coeff_of_coeff)
  then show "v \<notin> lin_vars l" by (simp add: lin_vars_def)
  then have "filter (\<lambda>(k, _). k \<noteq> v) (lin_coeffs l) = lin_coeffs l" by (force simp: filter_id_conv lin_vars_def keys_def)
  then show "remove_var v l = l" by (simp add: remove_var_def)
qed

text \<open>
  The multiplier \<open>b\<close> is the wrapped negation of the negative coefficient; at \<open>i128::MIN\<close> it stays negative, but then a
  checked operation fails, so a combination that is returned always cancels the variable.
\<close>

lemma combine_pair_correct:
  assumes wf: "lin_wf p" "lin_wf n" and sgn: "coeff_of p v > 0" "coeff_of n v < 0" and c: "combine_pair v p n = Some c"
  shows "lin_wf c" and "lin_eval x p \<le> 0 \<Longrightarrow> lin_eval x n \<le> 0 \<Longrightarrow> lin_eval x c \<le> 0"
    and "lin_vars c \<subseteq> (lin_vars p \<union> lin_vars n) - {v}"
proof -
  let ?a = "coeff_of p v" and ?b = "wrap_i128 (- coeff_of n v)"
  obtain bp an d where d: "linear_scale ?b p = Some bp" "linear_scale ?a n = Some an" "linear_add bp an = Some d"
    "c = normalized (remove_var v d)" using c by (auto simp: combine_pair_def Let_def bind_eq_Some_conv)
  note P = linear_scale_correct [OF wf(1) d(1)] and N = linear_scale_correct [OF wf(2) d(2)]
  note A = linear_add_correct [OF P(1) N(1) d(3)]
  have rn: "in_i128 (coeff_of n v)" using coeff_i128 lin_wf_coeffs [OF wf(2)] by (simp add: coeff_of_coeff)
  have b: "?b = - coeff_of n v"
  proof (cases "coeff_of n v = i128_min")
    case True
    then have b: "?b = i128_min" by (simp add: wrap_i128_def i128_min_def)
    have "in_i128 (?b * ?a + ?a * coeff_of n v)" using A(4) [of v] P(3) [of v] N(3) [of v] by simp
    then have "i128_min \<le> 2 * (?a * i128_min)" using True b by (simp add: in_i128_def algebra_simps)
    moreover have "?a * i128_min \<le> i128_min" using sgn(1) by (simp add: i128_min_def)
    ultimately show ?thesis by (simp add: i128_min_def)
  next
    case False
    then show ?thesis using rn by (intro wrap_i128_id) (auto simp: i128_defs)
  qed
  have z: "coeff_of d v = 0" using A(3) [of v] P(3) [of v] N(3) [of v] b by simp
  note R = remove_var_correct [OF A(1) z]
  show "lin_wf c" using normalized_facts(2) [OF lin_wf_coeffs [OF A(1)]] d(4) R(1) by simp
  show "lin_vars c \<subseteq> (lin_vars p \<union> lin_vars n) - {v}"
    using normalized_facts(4) [of d] d(4) R A(5) P(5) N(5) by (auto simp: lin_vars_def)
  assume le: "lin_eval x p \<le> 0" "lin_eval x n \<le> 0"
  have "lin_eval x c = ?b * lin_eval x p + ?a * lin_eval x n" using A(2) P(2) N(2) d(4) R(1) normalized_facts(1) by simp
  moreover have "?b * lin_eval x p \<le> 0" using b sgn(2) le(1) by (simp add: mult_nonneg_nonpos mult_nonpos_nonpos mult_le_0_iff)
  moreover have "?a * lin_eval x n \<le> 0" using sgn(1) le(2) by (simp add: mult_le_0_iff)
  ultimately show "lin_eval x c \<le> 0" by simp
qed

lemma contradiction_no_solution: "contradiction c \<Longrightarrow> \<not> lin_eval x c \<le> 0"
  by (simp add: contradiction_def is_constant_eval)

definition elim_ok :: "nat \<Rightarrow> nat set \<Rightarrow> linear list \<Rightarrow> linear list \<Rightarrow> bool" where
  "elim_ok v V cs next \<longleftrightarrow> (\<forall>c\<in>set next. lin_wf c \<and> lin_vars c \<subseteq> V - {v}) \<and> (\<forall>x. solution x cs \<longrightarrow> solution x next)"

lemma eliminate_neg_correct:
  assumes "elim_ok v V cs next" and "p \<in> set cs" "lin_wf p" "coeff_of p v > 0" "lin_vars p \<subseteq> V"
    and "\<forall>n\<in>set ns. n \<in> set cs \<and> lin_wf n \<and> coeff_of n v < 0 \<and> lin_vars n \<subseteq> V"
  shows "case eliminate_neg v p ns next of Inl r \<Rightarrow> r \<or> (\<forall>x. \<not> solution x cs) | Inr next' \<Rightarrow> elim_ok v V cs next'"
  using assms(1,6)
proof (induction ns arbitrary: "next")
  case (Cons n ns)
  show ?case
  proof (cases "combine_pair v p n")
    case (Some c)
    note C = combine_pair_correct [OF assms(3) _ assms(4) _ Some]
    have c: "lin_wf c" "lin_vars c \<subseteq> V - {v}" "\<And>x. solution x cs \<Longrightarrow> lin_eval x c \<le> 0"
      using C Cons.prems(2) assms(2,5) by (auto simp: solution_def)
    show ?thesis
    proof (cases "contradiction c")
      case True
      then show ?thesis using Some c(3) contradiction_no_solution by auto
    next
      case False
      have "elim_ok v V cs (next @ [c])" using Cons.prems(1) c by (auto simp: elim_ok_def solution_def)
      then show ?thesis using Cons.IH [of "next @ [c]"] Cons.prems(2) Some False by auto
    qed
  qed simp
qed simp

lemma eliminate_correct:
  assumes "elim_ok v V cs next" and "\<forall>p\<in>set ps. p \<in> set cs \<and> lin_wf p \<and> coeff_of p v > 0 \<and> lin_vars p \<subseteq> V"
    and "\<forall>n\<in>set ns. n \<in> set cs \<and> lin_wf n \<and> coeff_of n v < 0 \<and> lin_vars n \<subseteq> V"
  shows "case eliminate v ps ns next of Inl r \<Rightarrow> r \<or> (\<forall>x. \<not> solution x cs) | Inr next' \<Rightarrow> elim_ok v V cs next'"
  using assms(1,2)
proof (induction ps arbitrary: "next")
  case (Cons p ps)
  have E: "case eliminate_neg v p ns next of Inl r \<Rightarrow> r \<or> (\<forall>x. \<not> solution x cs) | Inr next' \<Rightarrow> elim_ok v V cs next'"
    using eliminate_neg_correct [OF Cons.prems(1) _ _ _ _ assms(3), of p] Cons.prems(2) by simp
  show ?case
  proof (cases "eliminate_neg v p ns next")
    case (Inr nx)
    then show ?thesis using Cons.IH [of nx] Cons.prems(2) E by simp
  qed (use E in simp)
qed simp

lemma feasible_loop_correct:
  assumes "\<forall>c\<in>set cs. lin_wf c" and "card (\<Union>c\<in>set cs. lin_vars c) < fuel"
  shows "\<exists>r. feasible_loop fuel cs = Some r \<and> (r \<or> (\<forall>x. \<not> solution x cs))"
  using assms
proof (induction fuel arbitrary: cs)
  case (Suc fuel)
  let ?V = "\<Union>c\<in>set cs. lin_vars c"
  have keys: "set (constraint_keys cs) = ?V" by (simp add: constraint_keys_def lin_vars_def keys_def)
  consider (con) "list_ex contradiction cs" | (none) "\<not> list_ex contradiction cs" "constraint_keys cs = []"
    | (var) v vs where "\<not> list_ex contradiction cs" "constraint_keys cs = v # vs" by (cases "constraint_keys cs") auto
  then show ?case
  proof cases
    case con
    then show ?thesis using contradiction_no_solution by (auto simp: list_ex_iff solution_def)
  next
    case none
    then show ?thesis by auto
  next
    case var
    let ?e = "eliminate v (filter (\<lambda>c. coeff_of c v > 0) cs) (filter (\<lambda>c. coeff_of c v < 0) cs) (filter (\<lambda>c. coeff_of c v = 0) cs)"
    have "elim_ok v ?V cs (filter (\<lambda>c. coeff_of c v = 0) cs)"
      using remove_var_correct(2) Suc.prems(1) by (auto simp: elim_ok_def solution_def)
    then have E: "case ?e of Inl r \<Rightarrow> r \<or> (\<forall>x. \<not> solution x cs) | Inr next' \<Rightarrow> elim_ok v ?V cs next'"
      by (rule eliminate_correct) (use Suc.prems(1) in auto)
    show ?thesis
    proof (cases ?e)
      case (Inl r)
      then show ?thesis using E var by simp
    next
      case (Inr nx)
      then have ok: "elim_ok v ?V cs nx" using E by simp
      have "v \<in> ?V" "finite ?V" using keys var(2) by (metis list.set_intros(1), simp add: lin_vars_def)
      then have "card (?V - {v}) < fuel" using Suc.prems(2) card.remove [of ?V v] by linarith
      moreover have "card (\<Union>c\<in>set nx. lin_vars c) \<le> card (?V - {v})"
        using ok \<open>finite ?V\<close> by (intro card_mono) (auto simp: elim_ok_def)
      ultimately obtain r where "feasible_loop fuel nx = Some r" "r \<or> (\<forall>x. \<not> solution x nx)"
        using Suc.IH [of nx] ok by (auto simp: elim_ok_def)
      then show ?thesis using var Inr ok by (auto simp: elim_ok_def)
    qed
  qed
qed simp

lemma feasible_correct:
  assumes "\<forall>c\<in>set cs. lin_wf c"
  shows "\<exists>r. feasible cs = Some r \<and> (r \<or> (\<forall>x. \<not> solution x cs))"
proof -
  have "card (\<Union>c\<in>set cs. lin_vars c) = length (remdups (constraint_keys cs))"
    by (simp add: length_remdups_card_conv constraint_keys_def lin_vars_def keys_def)
  then show ?thesis unfolding feasible_def by (intro feasible_loop_correct [OF assms]) simp
qed


section \<open>Reading expressions over the integers\<close>

text \<open>
  The \<open>linear-no-overflow\<close> assumption, for the nodes below the expressions reasoned about: operands of a comparison or of
  linear arithmetic have equal widths and lie in the non-negative signed range, so does the result, and products do not wrap.
\<close>

definition in_signed :: "expr_ctx \<Rightarrow> env \<Rightarrow> nat \<Rightarrow> bool" where
  "in_signed ctx env e \<longleftrightarrow> expr_val env ctx e < 2 ^ (width ctx e - 1)"

definition quantity_ok :: "expr_ctx \<Rightarrow> env \<Rightarrow> nat \<Rightarrow> bool" where
  "quantity_ok ctx env x \<longleftrightarrow>
     (case node ctx x of
        Bin op a b \<Rightarrow> op \<in> {Add, Sub, Mul} \<longrightarrow>
          width ctx a = width ctx b \<and> in_signed ctx env a \<and> in_signed ctx env b \<and> in_signed ctx env x \<and>
          (op = Mul \<longrightarrow> expr_val env ctx a * expr_val env ctx b < 2 ^ width ctx a)
      | Cmp op a b \<Rightarrow> width ctx a = width ctx b \<and> in_signed ctx env a \<and> in_signed ctx env b
      | _ \<Rightarrow> True)"

definition no_overflow :: "expr_ctx \<Rightarrow> env \<Rightarrow> nat \<Rightarrow> bool" where
  "no_overflow ctx env e \<longleftrightarrow> (\<forall>x. reaches ctx e x \<longrightarrow> quantity_ok ctx env x)"

lemma no_overflow_here: "no_overflow ctx env e \<Longrightarrow> quantity_ok ctx env e"
  by (simp add: no_overflow_def reaches_self)

lemma no_overflow_child: "no_overflow ctx env e \<Longrightarrow> x \<in> set (children (node ctx e)) \<Longrightarrow> no_overflow ctx env x"
  unfolding no_overflow_def by (blast intro: reaches_step)

definition ival :: "expr_ctx \<Rightarrow> env \<Rightarrow> nat \<Rightarrow> int" where
  "ival ctx env e = int (expr_val env ctx e)"

lemma bin_exact:
  assumes wf: "ctx_wf ctx" and e: "e < ctx_len ctx" "node ctx e = Bin op a b" and ok: "quantity_ok ctx env e"
  shows "op = Add \<Longrightarrow> ival ctx env e = ival ctx env a + ival ctx env b"
    and "op = Sub \<Longrightarrow> ival ctx env e = ival ctx env a - ival ctx env b"
    and "op = Mul \<Longrightarrow> ival ctx env e = ival ctx env a * ival ctx env b"
proof -
  let ?w = "width ctx a" and ?x = "expr_val env ctx a" and ?y = "expr_val env ctx b"
  have we: "width ctx e = ?w" using ctx_wf_node_ok [OF wf e(1)] e(2) by simp
  have v: "expr_val env ctx e = bin_den op ?w ?x ?y mod 2 ^ ?w" using expr_val_node [OF wf e(1), of env] e(2) we by simp
  have q: "?x < 2 ^ (?w - 1)" "?y < 2 ^ (?w - 1)" "expr_val env ctx e < 2 ^ (?w - 1)" if "op \<in> {Add, Sub, Mul}"
    using ok that e(2) we by (auto simp: quantity_ok_def in_signed_def)
  have w: "2 ^ ?w = 2 * (2::nat) ^ (?w - 1)" if "0 < ?w" using that by (cases ?w) auto
  show "ival ctx env e = ival ctx env a + ival ctx env b" if "op = Add"
    using v q w that by (cases "?w = 0") (auto simp: ival_def bin_den_simps)
  show "ival ctx env e = ival ctx env a * ival ctx env b" if "op = Mul"
    using v ok e(2) that by (auto simp: ival_def bin_den_simps quantity_ok_def)
  show "ival ctx env e = ival ctx env a - ival ctx env b" if op: "op = Sub"
  proof (cases "?w = 0")
    case True
    then show ?thesis using q op v by (simp add: ival_def)
  next
    case False
    have "?y \<le> ?x"
    proof (rule ccontr)
      assume "\<not> ?y \<le> ?x"
      then have "?x + (2 ^ ?w - ?y) < 2 ^ ?w" "2 ^ (?w - 1) \<le> ?x + (2 ^ ?w - ?y)" using q w False op by auto
      then show False using q(3) op v by (simp add: bin_den_simps)
    qed
    then have s: "?x + (2 ^ ?w - ?y) = (?x - ?y) + 2 ^ ?w" and lt: "?x - ?y < 2 ^ ?w" using q w False op by auto
    have "(?x + (2 ^ ?w - ?y)) mod 2 ^ ?w = ?x - ?y" unfolding s using lt by (simp only: mod_add_self2 mod_less)
    then have "expr_val env ctx e = ?x - ?y" using v op lt by (simp add: bin_den_simps(2))
    then show ?thesis using \<open>?y \<le> ?x\<close> by (simp add: ival_def of_nat_diff)
  qed
qed

lemma const_to_int_val:
  assumes "bv_wf b" and "bv_nat b < 2 ^ (bv_width b - 1)"
  shows "const_to_int b = int (bv_nat b)"
proof -
  have "(2::nat) ^ (bv_width b - 1) \<le> 2 ^ 127" using assms(1) by (intro power_increasing) (auto simp: bv_wf_def)
  then have "int (bv_nat b) < 2 ^ 127" using assms(2) by (metis less_le_trans of_nat_less_iff of_nat_numeral of_nat_power)
  then show ?thesis by (simp add: const_to_int_def bv_nat_def i128_max_def)
qed

lemma linearize_correct:
  assumes wf: "ctx_wf ctx" and "e < ctx_len ctx" and "linearize fuel ctx e = Some l" and "no_overflow ctx env e" and "in_signed ctx env e"
  shows "lin_wf l \<and> lin_eval (ival ctx env) l = ival ctx env e"
  using assms(2-)
proof (induction fuel arbitrary: e l)
  case (Suc fuel)
  show ?case
  proof (cases "node ctx e")
    case (Const bv)
    have "bv_wf bv" "width ctx e = bv_width bv" using ctx_wf_node_ok [OF wf Suc.prems(1)] Const by auto
    moreover have "expr_val env ctx e = bv_nat bv"
      using expr_val_node [OF wf Suc.prems(1), of env] Const calculation bv_nat_less by simp
    ultimately show ?thesis using Suc.prems(2,4) Const const_to_int_val by (auto simp: in_signed_def ival_def)
  next
    case (Bin op a b)
    have ch: "a < ctx_len ctx" "b < ctx_len ctx" "no_overflow ctx env a" "no_overflow ctx env b"
      using ctx_wf_children [OF wf Suc.prems(1)] Suc.prems(1) no_overflow_child [OF Suc.prems(3)] Bin by (auto intro: less_trans)
    obtain la lb where l: "linearize fuel ctx a = Some la" "linearize fuel ctx b = Some lb"
      using Suc.prems(2) Bin by (auto simp: bind_eq_Some_conv)
    note q = no_overflow_here [OF Suc.prems(3)]
    note E = bin_exact [OF wf Suc.prems(1) Bin q]
    show ?thesis
    proof (cases "op \<in> {Add, Sub, Mul}")
      case True
      have A: "lin_wf la" "lin_eval (ival ctx env) la = ival ctx env a" and B: "lin_wf lb" "lin_eval (ival ctx env) lb = ival ctx env b"
        using Suc.IH ch l q True Bin by (auto simp: quantity_ok_def)
      show ?thesis
        using Suc.prems(2) Bin l E True linear_add_correct [OF A(1) B(1)] linear_sub_correct [OF A(1) B(1)]
          linear_scale_correct [OF A(1)] linear_scale_correct [OF B(1)] A B is_constant_eval [of la] is_constant_eval [of lb]
        by (auto split: if_splits)
    next
      case False
      then have "l = linear_atom e" using Suc.prems(2) Bin l by (cases op) auto
      then show ?thesis by simp
    qed
  qed (use Suc.prems(2) in auto)
qed simp

text \<open>A true comparison within the signed range makes its integer constraints hold.\<close>

lemma cmp_constraints_correct:
  assumes wf: "lin_wf la" "lin_wf lb" and x: "lin_eval v la = int x" "x < 2 ^ (w - 1)" and y: "lin_eval v lb = int y" "y < 2 ^ (w - 1)"
    and t: "cmp_den op w x y" and c: "cmp_constraints op la lb = Some cs"
  shows "\<forall>l\<in>set cs. lin_wf l \<and> lin_eval v l \<le> 0"
proof -
  note S = linear_sub_correct [OF wf] linear_sub_correct [OF wf(2,1)]
  have S1: "lin_wf r \<and> lin_eval v r = lin_eval v l - lin_eval v m + 1"
    if "linear_sub l m = Some d" "linear_add_const 1 d = Some r" "lin_wf l" "lin_wf m" for l m d r
    using linear_sub_correct [OF that(3,4,1)] linear_add_const_correct [OF _ that(2)] by auto
  note K = linear_scale_correct(1,2) [OF wf(1)] linear_scale_correct(1,2) [OF wf(2)]
  have sx: "to_signed w x = int x" "to_signed w y = int y" using x y by (simp_all add: to_signed_def)
  show ?thesis
    using t c sx x(1) y(1) S K S1 [OF _ _ wf] S1 [OF _ _ wf(2,1)]
    by (cases op) (auto simp: cmp_constraints_def cmp_den_def bind_eq_Some_conv)
qed

lemma all_constraints_mem:
  assumes "all_constraints f xs = Some cs" and "l \<in> set cs"
  shows "\<exists>x\<in>set xs. \<exists>ds. f x = Some ds \<and> l \<in> set ds"
  using assms by (induction xs arbitrary: cs) (fastforce simp: bind_eq_Some_conv)+

lemma constraints_of_correct:
  assumes wf: "ctx_wf ctx" and "e < ctx_len ctx" and "constraints_of fuel ctx e truth = Some cs" and "no_overflow ctx env e"
    and "(expr_val env ctx e \<noteq> 0) = truth"
  shows "\<forall>l\<in>set cs. lin_wf l \<and> lin_eval (ival ctx env) l \<le> 0"
  using assms(2-)
proof (induction fuel arbitrary: e truth cs)
  case (Suc fuel)
  have ch: "x < ctx_len ctx" "no_overflow ctx env x" if "x \<in> set (children (node ctx e))" for x
    using that ctx_wf_children [OF wf Suc.prems(1)] Suc.prems(1) no_overflow_child [OF Suc.prems(3)] by (auto intro: less_trans)
  have v: "expr_val env ctx e = node_den env (width ctx) (expr_val env ctx) (width ctx e) (node ctx e) mod 2 ^ width ctx e"
    by (rule expr_val_node [OF wf Suc.prems(1)])
  note ok = ctx_wf_node_ok [OF wf Suc.prems(1)]
  show ?case
  proof (cases "node ctx e")
    case (Bool b)
    then show ?thesis using Suc.prems(2,4) v ok by (auto simp: BOOL_WIDTH_def split: if_splits)
  next
    case (Not_node x)
    then show ?thesis using Suc.IH [of x "\<not> truth" cs] ch Suc.prems(2,4) v ok by (auto simp: BOOL_WIDTH_def split: if_splits)
  next
    case (And_node xs)
    have t: "truth" and cs: "all_constraints (\<lambda>x. constraints_of fuel ctx x True) xs = Some cs"
      using Suc.prems(2) And_node by (auto split: if_splits)
    have "\<forall>x\<in>set xs. expr_val env ctx x \<noteq> 0"
      using Suc.prems(4) t v And_node ok by (auto simp: BOOL_WIDTH_def list_all_iff split: if_splits)
    then have "\<And>x ds. x \<in> set xs \<Longrightarrow> constraints_of fuel ctx x True = Some ds \<Longrightarrow> \<forall>l\<in>set ds. lin_wf l \<and> lin_eval (ival ctx env) l \<le> 0"
      using Suc.IH [of _ True] ch And_node by simp blast
    then show ?thesis using all_constraints_mem [OF cs] by blast
  next
    case (Or_node xs)
    have t: "\<not> truth" and cs: "all_constraints (\<lambda>x. constraints_of fuel ctx x False) xs = Some cs"
      using Suc.prems(2) Or_node by (auto split: if_splits)
    have "\<forall>x\<in>set xs. expr_val env ctx x = 0"
      using Suc.prems(4) t v Or_node ok by (auto simp: BOOL_WIDTH_def list_ex_iff split: if_splits)
    then have "\<And>x ds. x \<in> set xs \<Longrightarrow> constraints_of fuel ctx x False = Some ds \<Longrightarrow> \<forall>l\<in>set ds. lin_wf l \<and> lin_eval (ival ctx env) l \<le> 0"
      using Suc.IH [of _ False] ch Or_node by simp blast
    then show ?thesis using all_constraints_mem [OF cs] by blast
  next
    case (Cmp op a b)
    obtain la lb where l: "linearize (Suc a) ctx a = Some la" "linearize (Suc b) ctx b = Some lb"
      "cmp_constraints (if truth then op else cmp_negate op) la lb = Some cs"
      using Suc.prems(2) Cmp by (auto simp: bind_eq_Some_conv)
    have q: "width ctx a = width ctx b" "in_signed ctx env a" "in_signed ctx env b"
      using no_overflow_here [OF Suc.prems(3)] Cmp by (auto simp: quantity_ok_def)
    have A: "lin_wf la" "lin_eval (ival ctx env) la = int (expr_val env ctx a)"
      using linearize_correct [OF wf _ l(1) _ q(2)] ch Cmp by (auto simp: ival_def)
    have B: "lin_wf lb" "lin_eval (ival ctx env) lb = int (expr_val env ctx b)"
      using linearize_correct [OF wf _ l(2) _ q(3)] ch Cmp by (auto simp: ival_def)
    have "cmp_den (if truth then op else cmp_negate op) (width ctx a) (expr_val env ctx a) (expr_val env ctx b)"
      using Suc.prems(4) v Cmp ok by (auto simp: BOOL_WIDTH_def cmp_den_negate split: if_splits)
    then show ?thesis
      using cmp_constraints_correct [OF A(1) B(1) A(2) _ B(2) _ _ l(3), of "width ctx a"] q by (simp add: in_signed_def)
  qed (use Suc.prems(2) in auto)
qed simp


section \<open>The procedure returns, and its proofs are sound\<close>

lemma linearize_wf: "linearize fuel ctx e = Some l \<Longrightarrow> lin_wf l"
proof (induction fuel arbitrary: e l)
  case (Suc fuel)
  show ?case
  proof (cases "node ctx e")
    case (Bin op a b)
    then obtain la lb where l: "linearize fuel ctx a = Some la" "linearize fuel ctx b = Some lb"
      using Suc.prems by (auto simp: bind_eq_Some_conv)
    note W = Suc.IH [OF l(1)] Suc.IH [OF l(2)]
    show ?thesis
      using Suc.prems Bin l W linear_add_correct(1) [OF W] linear_sub_correct(1) [OF W] linear_scale_correct(1)
      by (cases op) (auto split: if_splits)
  qed (use Suc.prems in auto)
qed simp

lemma cmp_constraints_wf:
  assumes "lin_wf la" and "lin_wf lb" and "cmp_constraints op la lb = Some cs"
  shows "\<forall>l\<in>set cs. lin_wf l"
  using assms(3) linear_sub_correct(1) [OF assms(1,2)] linear_sub_correct(1) [OF assms(2,1)]
    linear_scale_correct(1) [OF assms(1)] linear_scale_correct(1) [OF assms(2)] linear_add_const_correct(1)
  by (cases op) (auto simp: cmp_constraints_def bind_eq_Some_conv)

declare constraints_of.simps [simp del] linearize.simps [simp del]

lemma constraints_of_wf: "constraints_of fuel ctx e truth = Some cs \<Longrightarrow> \<forall>l\<in>set cs. lin_wf l"
proof (induction fuel arbitrary: e truth cs)
  case (Suc fuel)
  show ?case
  proof (cases "node ctx e")
    case (Cmp op a b)
    then obtain la lb where "linearize (Suc a) ctx a = Some la" "linearize (Suc b) ctx b = Some lb"
      "cmp_constraints (if truth then op else cmp_negate op) la lb = Some cs"
      using Suc.prems by (auto simp: constraints_of.simps bind_eq_Some_conv)
    then show ?thesis using linearize_wf cmp_constraints_wf by blast
  next
    case (Not_node x)
    then show ?thesis using Suc.prems Suc.IH by (simp add: constraints_of.simps)
  next
    case (And_node xs)
    then have cs: "all_constraints (\<lambda>x. constraints_of fuel ctx x True) xs = Some cs"
      using Suc.prems by (auto simp: constraints_of.simps split: if_splits)
    show ?thesis using all_constraints_mem [OF cs] Suc.IH by blast
  next
    case (Or_node xs)
    then have cs: "all_constraints (\<lambda>x. constraints_of fuel ctx x False) xs = Some cs"
      using Suc.prems by (auto simp: constraints_of.simps split: if_splits)
    show ?thesis using all_constraints_mem [OF cs] Suc.IH by blast
  qed (use Suc.prems in \<open>auto simp: constraints_of.simps split: if_splits\<close>)
qed (simp add: constraints_of.simps)

lemma gather_wf: "\<forall>l\<in>set (gather ctx as). lin_wf l"
proof (induction as)
  case (Cons a as)
  then show ?case using constraints_of_wf [of "Suc a" ctx a True] by (cases "constraints_of (Suc a) ctx a True") auto
qed simp

lemma prove_implies_returns: "prove_implies ctx as goal \<noteq> None"
proof (cases "constraints_of (Suc goal) ctx goal False")
  case (Some cs)
  have "\<forall>l\<in>set (gather ctx as @ cs). lin_wf l" using gather_wf constraints_of_wf [OF Some] by auto
  then show ?thesis using feasible_correct Some by (fastforce simp: prove_implies_def)
qed (simp add: prove_implies_def)

text \<open>The fuel of the two readers is never exhausted in a well-formed arena.\<close>

lemma linearize_fuel:
  assumes "ctx_wf ctx" and "e < ctx_len ctx" and "e < m" and "e < n"
  shows "linearize m ctx e = linearize n ctx e"
  using assms(2-)
proof (induction e arbitrary: m n rule: less_induct)
  case (less e)
  obtain m' n' where mn: "m = Suc m'" "n = Suc n'" using less.prems by (metis less_nat_zero_code not0_implies_Suc)
  have "linearize m' ctx x = linearize n' ctx x" if "x \<in> set (children (node ctx e))" for x
    using less.IH [of x m' n'] ctx_wf_children [OF assms(1) less.prems(1) that] less.prems mn by simp
  then show ?case by (cases "node ctx e") (auto simp: mn linearize.simps)
qed

lemma all_constraints_cong: "(\<And>x. x \<in> set xs \<Longrightarrow> f x = g x) \<Longrightarrow> all_constraints f xs = all_constraints g xs"
  by (induction xs) auto

lemma constraints_of_fuel:
  assumes "ctx_wf ctx" and "e < ctx_len ctx" and "e < m" and "e < n"
  shows "constraints_of m ctx e truth = constraints_of n ctx e truth"
  using assms(2-)
proof (induction e arbitrary: m n truth rule: less_induct)
  case (less e)
  obtain m' n' where mn: "m = Suc m'" "n = Suc n'" using less.prems by (metis less_nat_zero_code not0_implies_Suc)
  have "constraints_of m' ctx x t = constraints_of n' ctx x t" if "x \<in> set (children (node ctx e))" for x t
    using less.IH [of x m' n'] ctx_wf_children [OF assms(1) less.prems(1) that] less.prems mn by simp
  then show ?case
    using all_constraints_cong [of _ "\<lambda>x. constraints_of m' ctx x _" "\<lambda>x. constraints_of n' ctx x _"]
    by (cases "node ctx e") (auto simp: mn constraints_of.simps)
qed

lemma constraints_of_bool:
  assumes "ctx_wf ctx" and "e < ctx_len ctx" and "constraints_of fuel ctx e truth \<noteq> None"
  shows "width ctx e = 1"
  using assms(3) ctx_wf_node_ok [OF assms(1,2)] by (cases fuel; cases "node ctx e") (auto simp: constraints_of.simps BOOL_WIDTH_def)

lemma gather_solution:
  assumes "ctx_wf ctx" and "\<forall>a\<in>set as. a < ctx_len ctx \<and> no_overflow ctx env a \<and> expr_val env ctx a \<noteq> 0"
  shows "solution (ival ctx env) (gather ctx as)"
  using assms(2)
proof (induction as)
  case (Cons a as)
  have "\<forall>l\<in>set (case constraints_of (Suc a) ctx a True of Some cs \<Rightarrow> cs | None \<Rightarrow> []). lin_eval (ival ctx env) l \<le> 0"
    using constraints_of_correct [OF assms(1), of a "Suc a" True _ env] Cons.prems
    by (cases "constraints_of (Suc a) ctx a True") auto
  then show ?case using Cons by (auto simp: solution_def)
qed (simp add: solution_def)

lemma linear_sound:
  assumes wf: "ctx_wf ctx" "\<forall>a\<in>set as. a < ctx_len ctx" "goal < ctx_len ctx"
    and p: "prove_implies ctx as goal = Some True"
    and no: "\<forall>a\<in>set (goal # as). no_overflow ctx env a" and as: "\<forall>a\<in>set as. expr_val env ctx a = 1"
  shows "expr_val env ctx goal = 1"
proof -
  obtain cs where cs: "constraints_of (Suc goal) ctx goal False = Some cs" "feasible (gather ctx as @ cs) = Some False"
    using p by (auto simp: prove_implies_def split: option.splits)
  have "\<forall>x. \<not> solution x (gather ctx as @ cs)"
    using feasible_correct [of "gather ctx as @ cs"] gather_wf constraints_of_wf [OF cs(1)] cs(2) by auto
  moreover have "solution (ival ctx env) (gather ctx as)" using gather_solution [OF wf(1)] wf(2) no as by simp
  ultimately have "\<not> solution (ival ctx env) cs" by (auto simp: solution_def)
  then have "expr_val env ctx goal \<noteq> 0"
    using constraints_of_correct [OF wf(1,3) cs(1), of env] no unfolding solution_def by auto
  moreover have "expr_val env ctx goal < 2"
    using expr_val_less [OF wf(1,3), of env] constraints_of_bool [OF wf(1,3), of "Suc goal" False] cs(1) by simp
  ultimately show ?thesis by linarith
qed

end
