(* ===== verification/Solver_Api.thy ===== *)
theory Solver_Api
  imports Bit_Precise Linear_Arith
begin

text \<open>
  The front door of the solver crate, \<open>crates/solver/src/lib.rs\<close>: the strategy \<open>prove_implies_method\<close> that combines
  the linear and the bit-precise procedures, and the constant-folding simplifier on the small constraint language
  \<open>Term\<close> / \<open>Formula\<close>. \<open>None\<close> is a panic; it is shown not to occur.
\<close>

datatype proof_method = BitPrecise | Linear

definition REFINE_BUDGET :: nat where "REFINE_BUDGET = 3000"
definition FALLBACK_BUDGET :: nat where "FALLBACK_BUDGET = 200000"

definition prove_implies_method :: "'f float_ops \<Rightarrow> (nat \<Rightarrow> bool) \<Rightarrow> (nat \<Rightarrow> bool) \<Rightarrow> expr_ctx \<Rightarrow> nat list \<Rightarrow> nat
    \<Rightarrow> proof_method option option" where
  "prove_implies_method fo clock1 clock2 ctx as goal =
     (case prove_implies ctx as goal of
        None \<Rightarrow> None
      | Some True \<Rightarrow>
          (case prove_implies_budget fo clock1 ctx as goal REFINE_BUDGET of
             None \<Rightarrow> None
           | Some True \<Rightarrow> Some (Some BitPrecise)
           | Some False \<Rightarrow> Some (Some Linear))
      | Some False \<Rightarrow>
          (case prove_implies_budget fo clock2 ctx as goal FALLBACK_BUDGET of
             None \<Rightarrow> None
           | Some True \<Rightarrow> Some (Some BitPrecise)
           | Some False \<Rightarrow> Some None))"

section \<open>Terms and formulas\<close>

datatype tm = TConst bit_vector | TVar string nat | TAdd tm tm | TSub tm tm | TMul tm tm

primrec tm_width :: "tm \<Rightarrow> nat" where
  "tm_width (TConst bv) = bv_width bv"
| "tm_width (TVar name w) = w"
| "tm_width (TAdd a b) = tm_width a"
| "tm_width (TSub a b) = tm_width a"
| "tm_width (TMul a b) = tm_width a"

definition tm_as_const :: "tm \<Rightarrow> bit_vector option" where
  "tm_as_const t = (case t of TConst bv \<Rightarrow> Some bv | _ \<Rightarrow> None)"

datatype formula =
    FBool bool
  | FUlt tm tm
  | FUle tm tm
  | FEq tm tm
  | FAnd "formula list"
  | FOr "formula list"
  | FNot formula

definition fold_tm :: "(bit_vector \<Rightarrow> bit_vector \<Rightarrow> bit_vector option) \<Rightarrow> (tm \<Rightarrow> tm \<Rightarrow> tm) \<Rightarrow> tm option \<Rightarrow> tm option \<Rightarrow> tm option" where
  "fold_tm op rebuild a b =
     Option.bind a (\<lambda>a. Option.bind b (\<lambda>b.
       case (tm_as_const a, tm_as_const b) of
         (Some x, Some y) \<Rightarrow> if bv_width x = bv_width y then map_option TConst (op x y) else Some (rebuild a b)
       | _ \<Rightarrow> Some (rebuild a b)))"

primrec simplify_term :: "tm \<Rightarrow> tm option" where
  "simplify_term (TConst bv) = Some (TConst bv)"
| "simplify_term (TVar name w) = Some (TVar name w)"
| "simplify_term (TAdd a b) = fold_tm bv_wrapping_add TAdd (simplify_term a) (simplify_term b)"
| "simplify_term (TSub a b) = fold_tm bv_wrapping_sub TSub (simplify_term a) (simplify_term b)"
| "simplify_term (TMul a b) =
     fold_tm (\<lambda>x y. bv_new (bv_width x) (bv_unsigned x * bv_unsigned y)) TMul (simplify_term a) (simplify_term b)"

definition cmp_formula :: "(bit_vector \<Rightarrow> bit_vector \<Rightarrow> bool) \<Rightarrow> (tm \<Rightarrow> tm \<Rightarrow> formula) \<Rightarrow> tm \<Rightarrow> tm \<Rightarrow> formula option" where
  "cmp_formula rel rebuild a b =
     Option.bind (simplify_term a) (\<lambda>a. Option.bind (simplify_term b) (\<lambda>b.
       case (tm_as_const a, tm_as_const b) of
         (Some x, Some y) \<Rightarrow> if bv_width x = bv_width y then Some (FBool (rel x y)) else Some (rebuild a b)
       | _ \<Rightarrow> Some (rebuild a b)))"

definition finish_and :: "formula list \<Rightarrow> formula" where
  "finish_and out = (if length out = 0 then FBool True else if length out = 1 then out ! 0 else FAnd out)"

definition finish_or :: "formula list \<Rightarrow> formula" where
  "finish_or out = (if length out = 0 then FBool False else if length out = 1 then out ! 0 else FOr out)"

fun simplify :: "formula \<Rightarrow> formula option"
  and simplify_and :: "formula list \<Rightarrow> formula list \<Rightarrow> formula option"
  and simplify_or :: "formula list \<Rightarrow> formula list \<Rightarrow> formula option" where
  "simplify (FBool b) = Some (FBool b)"
| "simplify (FUlt a b) = cmp_formula (\<lambda>x y. bv_unsigned x < bv_unsigned y) FUlt a b"
| "simplify (FUle a b) = cmp_formula (\<lambda>x y. bv_unsigned x \<le> bv_unsigned y) FUle a b"
| "simplify (FEq a b) = cmp_formula (\<lambda>x y. x = y) FEq a b"
| "simplify (FAnd cs) = simplify_and cs []"
| "simplify (FOr cs) = simplify_or cs []"
| "simplify (FNot c) = map_option (\<lambda>f. case f of FBool b \<Rightarrow> FBool (\<not> b) | other \<Rightarrow> FNot other) (simplify c)"
| "simplify_and [] out = Some (finish_and out)"
| "simplify_and (c # cs) out =
     Option.bind (simplify c) (\<lambda>f.
       if f = FBool True then simplify_and cs out
       else if f = FBool False then Some (FBool False)
       else simplify_and cs (out @ [f]))"
| "simplify_or [] out = Some (finish_or out)"
| "simplify_or (c # cs) out =
     Option.bind (simplify c) (\<lambda>f.
       if f = FBool False then simplify_or cs out
       else if f = FBool True then Some (FBool True)
       else simplify_or cs (out @ [f]))"

section \<open>Meaning\<close>

primrec tm_val :: "env \<Rightarrow> tm \<Rightarrow> nat" where
  "tm_val env (TConst bv) = bv_nat bv"
| "tm_val env (TVar name w) = env name w mod 2 ^ w"
| "tm_val env (TAdd a b) = bin_den Add (tm_width a) (tm_val env a) (tm_val env b)"
| "tm_val env (TSub a b) = bin_den Sub (tm_width a) (tm_val env a) (tm_val env b)"
| "tm_val env (TMul a b) = bin_den Mul (tm_width a) (tm_val env a) (tm_val env b)"

text \<open>Every constant in the term satisfies the \<open>BitVector\<close> invariant.\<close>

primrec tm_ok :: "tm \<Rightarrow> bool" where
  "tm_ok (TConst bv) \<longleftrightarrow> bv_wf bv"
| "tm_ok (TVar name w) \<longleftrightarrow> True"
| "tm_ok (TAdd a b) \<longleftrightarrow> tm_ok a \<and> tm_ok b"
| "tm_ok (TSub a b) \<longleftrightarrow> tm_ok a \<and> tm_ok b"
| "tm_ok (TMul a b) \<longleftrightarrow> tm_ok a \<and> tm_ok b"

fun formula_val :: "env \<Rightarrow> formula \<Rightarrow> bool" where
  "formula_val env (FBool b) \<longleftrightarrow> b"
| "formula_val env (FUlt a b) \<longleftrightarrow> tm_val env a < tm_val env b"
| "formula_val env (FUle a b) \<longleftrightarrow> tm_val env a \<le> tm_val env b"
| "formula_val env (FEq a b) \<longleftrightarrow> tm_width a = tm_width b \<and> tm_val env a = tm_val env b"
| "formula_val env (FAnd cs) \<longleftrightarrow> (\<forall>c\<in>set cs. formula_val env c)"
| "formula_val env (FOr cs) \<longleftrightarrow> (\<exists>c\<in>set cs. formula_val env c)"
| "formula_val env (FNot c) \<longleftrightarrow> \<not> formula_val env c"

fun formula_ok :: "formula \<Rightarrow> bool" where
  "formula_ok (FBool b) \<longleftrightarrow> True"
| "formula_ok (FUlt a b) \<longleftrightarrow> tm_ok a \<and> tm_ok b"
| "formula_ok (FUle a b) \<longleftrightarrow> tm_ok a \<and> tm_ok b"
| "formula_ok (FEq a b) \<longleftrightarrow> tm_ok a \<and> tm_ok b"
| "formula_ok (FAnd cs) \<longleftrightarrow> (\<forall>c\<in>set cs. formula_ok c)"
| "formula_ok (FOr cs) \<longleftrightarrow> (\<forall>c\<in>set cs. formula_ok c)"
| "formula_ok (FNot c) \<longleftrightarrow> formula_ok c"

definition tm_equiv :: "tm \<Rightarrow> tm \<Rightarrow> bool" where
  "tm_equiv t t' \<longleftrightarrow> tm_ok t' \<and> tm_width t' = tm_width t \<and> (\<forall>env. tm_val env t' = tm_val env t)"

text \<open>One lemma for the three operators: folding is exact when the operator on constants agrees with the modular one.\<close>

lemma fold_tm_equiv:
  assumes a: "\<exists>a'. sa = Some a' \<and> tm_equiv a a'" and b: "\<exists>b'. sb = Some b' \<and> tm_equiv b b'"
    and op: "\<And>x y. bv_wf x \<Longrightarrow> bv_wf y \<Longrightarrow> bv_width x = bv_width y \<Longrightarrow>
      \<exists>z. f x y = Some z \<and> bv_wf z \<and> bv_width z = bv_width x \<and> bv_nat z = bin_den bop (bv_width x) (bv_nat x) (bv_nat y)"
    and reb: "\<And>u v. tm_ok (rebuild u v) \<longleftrightarrow> tm_ok u \<and> tm_ok v" "\<And>u v. tm_width (rebuild u v) = tm_width u"
      "\<And>env u v. tm_val env (rebuild u v) = bin_den bop (tm_width u) (tm_val env u) (tm_val env v)"
  shows "\<exists>t'. fold_tm f rebuild sa sb = Some t' \<and> tm_equiv (rebuild a b) t'"
proof -
  obtain a' b' where s: "sa = Some a'" "tm_equiv a a'" "sb = Some b'" "tm_equiv b b'" using a b by blast
  have e: "tm_equiv (rebuild a b) (rebuild a' b')" using s reb by (simp add: tm_equiv_def)
  show ?thesis
  proof (cases "\<exists>x y. a' = TConst x \<and> b' = TConst y \<and> bv_width x = bv_width y")
    case True
    then obtain x y where xy: "a' = TConst x" "b' = TConst y" "bv_width x = bv_width y" by blast
    then obtain z where z: "f x y = Some z" "bv_wf z" "bv_width z = bv_width x" "bv_nat z = bin_den bop (bv_width x) (bv_nat x) (bv_nat y)"
      using op [of x y] s by (auto simp: tm_equiv_def)
    have "tm_equiv (rebuild a b) (TConst z)" using e z xy reb by (simp add: tm_equiv_def)
    then show ?thesis using s xy z(1) by (simp add: fold_tm_def tm_as_const_def)
  next
    case False
    then have "fold_tm f rebuild sa sb = Some (rebuild a' b')"
      using s by (cases a'; cases b') (auto simp: fold_tm_def tm_as_const_def)
    then show ?thesis using e by blast
  qed
qed


lemma const_ops_exact:
  assumes "bv_wf x" and "bv_wf y" and "bv_width x = bv_width y"
  shows "\<exists>z. bv_wrapping_add x y = Some z \<and> bv_wf z \<and> bv_width z = bv_width x \<and> bv_nat z = bin_den Add (bv_width x) (bv_nat x) (bv_nat y)"
    and "\<exists>z. bv_wrapping_sub x y = Some z \<and> bv_wf z \<and> bv_width z = bv_width x \<and> bv_nat z = bin_den Sub (bv_width x) (bv_nat x) (bv_nat y)"
    and "\<exists>z. bv_new (bv_width x) (bv_unsigned x * bv_unsigned y) = Some z \<and> bv_wf z \<and> bv_width z = bv_width x \<and>
      bv_nat z = bin_den Mul (bv_width x) (bv_nat x) (bv_nat y)"
proof -
  have w: "0 < bv_width x" "bv_width x \<le> 128" using assms(1) by (auto simp: bv_wf_def)
  have new: "\<exists>z. bv_new (bv_width x) v = Some z" for v using w by (auto simp: bv_new_def)
  obtain z where z: "bv_wrapping_add x y = Some z" "bv_new (bv_width x) (bv_value x + bv_value y) = Some z"
    using new assms(3) by (auto simp: bv_wrapping_add_def)
  then show "\<exists>z. bv_wrapping_add x y = Some z \<and> bv_wf z \<and> bv_width z = bv_width x \<and> bv_nat z = bin_den Add (bv_width x) (bv_nat x) (bv_nat y)"
    using bv_new_facts [OF z(2)] bv_wrapping_add_nat [OF z(1)] by (auto simp: bin_den_simps)
  obtain z where z: "bv_wrapping_sub x y = Some z" "bv_new (bv_width x) (bv_value x - bv_value y) = Some z"
    using new assms(3) by (auto simp: bv_wrapping_sub_def)
  then show "\<exists>z. bv_wrapping_sub x y = Some z \<and> bv_wf z \<and> bv_width z = bv_width x \<and> bv_nat z = bin_den Sub (bv_width x) (bv_nat x) (bv_nat y)"
    using bv_new_facts [OF z(2)] bv_wrapping_sub_nat [OF z(1) assms(2)] unfolding bin_den_simps by blast
  obtain z where z: "bv_new (bv_width x) (bv_unsigned x * bv_unsigned y) = Some z" using new by blast
  then show "\<exists>z. bv_new (bv_width x) (bv_unsigned x * bv_unsigned y) = Some z \<and> bv_wf z \<and> bv_width z = bv_width x \<and>
      bv_nat z = bin_den Mul (bv_width x) (bv_nat x) (bv_nat y)"
    using bv_new_facts [OF z] w(2) by (simp add: bin_den_simps bv_nat_def unat_word_ariths mod_u128_mod)
qed

lemma simplify_term_equiv: "tm_ok t \<Longrightarrow> \<exists>t'. simplify_term t = Some t' \<and> tm_equiv t t'"
proof (induction t)
  case (TAdd a b)
  then show ?case unfolding simplify_term.simps by (intro fold_tm_equiv [OF _ _ const_ops_exact(1)]) auto
next
  case (TSub a b)
  then show ?case unfolding simplify_term.simps by (intro fold_tm_equiv [OF _ _ const_ops_exact(2)]) auto
next
  case (TMul a b)
  then show ?case unfolding simplify_term.simps by (intro fold_tm_equiv [OF _ _ const_ops_exact(3)]) auto
qed (auto simp: tm_equiv_def)

lemma cmp_formula_equiv:
  assumes ok: "tm_ok a" "tm_ok b"
    and rel: "\<And>env x y. bv_wf x \<Longrightarrow> bv_wf y \<Longrightarrow> bv_width x = bv_width y \<Longrightarrow> rel x y = formula_val env (rebuild (TConst x) (TConst y))"
    and cong: "\<And>env t u. tm_equiv a t \<Longrightarrow> tm_equiv b u \<Longrightarrow> formula_val env (rebuild t u) = formula_val env (rebuild a b)"
  shows "\<exists>f. cmp_formula rel rebuild a b = Some f \<and> (\<forall>env. formula_val env f = formula_val env (rebuild a b))"
proof -
  obtain a' b' where s: "simplify_term a = Some a'" "tm_equiv a a'" "simplify_term b = Some b'" "tm_equiv b b'"
    using simplify_term_equiv ok by metis
  show ?thesis
  proof (cases "\<exists>x y. a' = TConst x \<and> b' = TConst y \<and> bv_width x = bv_width y")
    case True
    then obtain x y where xy: "a' = TConst x" "b' = TConst y" "bv_width x = bv_width y" by blast
    have "rel x y = formula_val env (rebuild a b)" for env
      using rel [of x y env] cong [of "TConst x" "TConst y" env] s xy by (auto simp: tm_equiv_def)
    then show ?thesis using s xy by (simp add: cmp_formula_def tm_as_const_def)
  next
    case False
    then have "cmp_formula rel rebuild a b = Some (rebuild a' b')"
      using s by (cases a'; cases b') (auto simp: cmp_formula_def tm_as_const_def)
    then show ?thesis using cong [OF s(2,4)] by blast
  qed
qed

lemma finish_val:
  "formula_val env (finish_and out) \<longleftrightarrow> (\<forall>c\<in>set out. formula_val env c)"
  "formula_val env (finish_or out) \<longleftrightarrow> (\<exists>c\<in>set out. formula_val env c)"
  by (cases out rule: remdups_adj.cases; simp add: finish_and_def finish_or_def)+

text \<open>The result of \<open>simplify\<close> is logically equivalent to its input, and no step panics.\<close>

lemma simplify_equiv:
  "formula_ok f \<Longrightarrow> \<exists>g. simplify f = Some g \<and> (\<forall>env. formula_val env g = formula_val env f)"
  "\<forall>c\<in>set cs. formula_ok c \<Longrightarrow> \<exists>g. simplify_and cs out = Some g \<and>
     (\<forall>env. formula_val env g = ((\<forall>c\<in>set out. formula_val env c) \<and> (\<forall>c\<in>set cs. formula_val env c)))"
  "\<forall>c\<in>set cs'. formula_ok c \<Longrightarrow> \<exists>g. simplify_or cs' out' = Some g \<and>
     (\<forall>env. formula_val env g = ((\<exists>c\<in>set out'. formula_val env c) \<or> (\<exists>c\<in>set cs'. formula_val env c)))"
proof (induction f and cs out and cs' out' rule: simplify_simplify_and_simplify_or.induct)
  case (2 a b)
  then show ?case unfolding simplify.simps
    by (intro cmp_formula_equiv) (auto simp: tm_equiv_def bv_nat_def word_less_nat_alt)
next
  case (3 a b)
  then show ?case unfolding simplify.simps
    by (intro cmp_formula_equiv) (auto simp: tm_equiv_def bv_nat_def word_le_nat_alt)
next
  case (4 a b)
  then show ?case unfolding simplify.simps
    by (intro cmp_formula_equiv) (auto simp: tm_equiv_def intro: bv_eqI)
next
  case (7 c)
  then obtain g where "simplify c = Some g" "\<forall>env. formula_val env g = formula_val env c" by auto
  then show ?case by (cases g) auto
next
  case (9 c cs out)
  then obtain g where g: "simplify c = Some g" "\<forall>env. formula_val env g = formula_val env c" by auto
  consider "g = FBool True" | "g = FBool False" | "g \<noteq> FBool True" "g \<noteq> FBool False" by blast
  then show ?case using 9(2) [OF g(1)] 9(3) [OF g(1)] 9(4) g by cases auto
next
  case (11 c cs out)
  then obtain g where g: "simplify c = Some g" "\<forall>env. formula_val env g = formula_val env c" by auto
  consider "g = FBool True" | "g = FBool False" | "g \<noteq> FBool True" "g \<noteq> FBool False" by blast
  then show ?case using 11(2) [OF g(1)] 11(3) [OF g(1)] 11(4) g by cases auto
qed (auto simp: finish_val)

section \<open>The combined strategy\<close>

lemma prove_implies_method_returns:
  assumes "ctx_wf ctx" and "\<forall>a\<in>set as. a < ctx_len ctx" and "goal < ctx_len ctx"
  shows "prove_implies_method fo c1 c2 ctx as goal \<noteq> None"
  using prove_implies_returns [of ctx as goal] prove_implies_budget_returns [OF assms, of fo c1 REFINE_BUDGET]
    prove_implies_budget_returns [OF assms, of fo c2 FALLBACK_BUDGET]
  by (auto simp: prove_implies_method_def split: option.splits bool.splits)

lemma prove_implies_method_bits:
  assumes "ctx_wf ctx" and "\<forall>a\<in>set as. a < ctx_len ctx" and "goal < ctx_len ctx"
    and "prove_implies_method fo c1 c2 ctx as goal = Some (Some BitPrecise)"
  shows "implies_all ctx as goal"
  using assms(4) prove_implies_budget_True [OF assms(1-3)]
  by (auto simp: prove_implies_method_def split: option.splits bool.splits)

lemma prove_implies_method_linear:
  assumes "ctx_wf ctx" and "\<forall>a\<in>set as. a < ctx_len ctx" and "goal < ctx_len ctx"
    and "prove_implies_method fo c1 c2 ctx as goal = Some (Some Linear)"
    and "\<forall>e\<in>set (goal # as). no_overflow ctx env e" and "\<forall>a\<in>set as. holds env ctx a"
  shows "holds env ctx goal"
  using assms(4-6) linear_sound [OF assms(1-3)]
  by (auto simp: prove_implies_method_def holds_def split: option.splits bool.splits)

end
