(* ===== verification/Solver_Examples.thy ===== *)
theory Solver_Examples
  imports Solver_Api
begin

text \<open>
  Small concrete queries on which the solver model is evaluated by the simplifier. They show that the hypotheses of
  the solver-wide properties can hold, with the \<open>f64\<close> parameter of the model instantiated by a concrete structure.
\<close>

definition sample_floats :: "nat float_ops" where
  "sample_floats = \<lparr>f_zero = 1, f_one = 1, f_neg_inf = 0, f_add = (+), f_mul = (*), f_gt = (\<lambda>x y. x > y),
     f_inv_decay = 1, f_limit = 1000, f_rescale = 1\<rparr>"

lemma sample_floats_law: "f64_law (\<lambda>x. 0 < x) sample_floats"
  by (simp add: f64_law_def f64_closed_def above_neg_inf_def sample_floats_def)

definition never :: "nat \<Rightarrow> bool" where
  "never n = False"

text \<open>An arena with a single one-bit symbol.\<close>

definition p_ctx :: expr_ctx where
  "p_ctx = snd (symbol ''p'' 1 expr_ctx_new)"

lemma p_ctx_eq: "p_ctx = \<lparr>nodes = [Sym ''p'' 1], widths = [1], intern_map = [Sym ''p'' 1 \<mapsto> 0]\<rparr>"
  by (simp add: p_ctx_def symbol_def intern_def expr_ctx_new_def)

lemma p_ctx_wf: "ctx_wf p_ctx"
  using symbol_builds [OF ctx_wf_new, of "''p''" 1] by (simp add: p_ctx_def builds_def)

lemma p_ctx_len: "ctx_len p_ctx = 1"
  by (simp add: p_ctx_eq ctx_len_def)

lemma p_ctx_width: "width p_ctx 0 = Suc 0"
  by (simp add: p_ctx_eq width_def)

lemmas encode_eval = encode_query_def encode_bool_def try_bind_def blaster_new_def width_def node_def encode_node_def
  push_clause_def MAX_WIDTH_def on_cnf_def new_var_def add_clause_def cnf_default_def

lemma encode_p_implies_p:
  "encode_query p_ctx [0] 0 =
     Some (Some \<lparr>bl_cnf = \<lparr>num_vars = 1, clauses = [[lit_pos 0], [negated (lit_pos 0)]], true_lit = None\<rparr>,
                 memo = [0 \<mapsto> [lit_pos 0]], syms = [(''p'', 1, [lit_pos 0])]\<rparr>)"
  by (simp add: encode_eval p_ctx_eq)

lemma encode_p_valid:
  "encode_query p_ctx [] 0 =
     Some (Some \<lparr>bl_cnf = \<lparr>num_vars = 1, clauses = [[negated (lit_pos 0)]], true_lit = None\<rparr>,
                 memo = [0 \<mapsto> [lit_pos 0]], syms = [(''p'', 1, [lit_pos 0])]\<rparr>)"
  by (simp add: encode_eval p_ctx_eq)

lemma solve_conflicting_units:
  "solve sample_floats never budget (solver_new sample_floats (Suc 0) [[lit_pos 0], [negated (lit_pos 0)]]) = Some Unsat"
  by (simp add: solve_def solver_new_def enqueue_def lit_pos_def Let_def)

lemma solve_loop_done: "pick_branch fo (maybe_restart s) = None \<Longrightarrow> solve_loop fo clock budget s tm = Some (Sat (model_of (maybe_restart s)))"
  by (cases budget) (simp_all add: Let_def)

lemma solve_single_unit:
  "solve sample_floats never budget (solver_new sample_floats (Suc 0) [[negated (lit_pos 0)]]) = Some (Sat [False])"
proof -
  let ?s = "solver_new sample_floats (Suc 0) [[negated (lit_pos 0)]]"
  obtain s1 where e: "enqueue (negated (lit_pos 0)) (Some 0) ?s = (True, s1)" by (simp add: enqueue_def solver_new_def)
  have s1: "s_num_vars s1 = Suc 0" "prop_queue s1 = [0]" "watches s1 = (\<lambda>_. [])" "assign s1 = [0 \<mapsto> False]"
    "conflicts_since_restart s1 = 0" "restart_unit s1 = 50" "luby_v s1 = 1"
    using e by (auto simp: enqueue_def solver_new_def watch_clause_def lit_pos_def RESTART_UNIT_def)
  define s2 where "s2 = s1\<lparr>prop_queue := [], watches := (\<lambda>_. [])\<rparr>"
  have p: "propagate s1 = Some (None, s2)"
    by (simp add: propagate_def s1 propagate_loop.simps Let_def s2_def numeral_3_eq_3 fun_upd_idem)
  have s2: "s_num_vars s2 = Suc 0" "assign s2 = [0 \<mapsto> False]" "maybe_restart s2 = s2"
    by (simp_all add: s2_def s1 maybe_restart_def)
  have "seed_units [0..<length (s_clauses ?s)] ?s = (True, s1)" using e by (simp add: solver_new_def Let_def)
  then show ?thesis
    using p s2 solve_loop_done [of sample_floats s2 never budget "(0, 0)"]
    by (simp add: solve_def pick_branch_def model_of_def)
qed

lemma p_implies_p: "prove_implies_budget sample_floats never p_ctx [0] 0 budget = Some True"
  by (simp add: prove_implies_budget_def encode_p_implies_p MAX_CLAUSES_def solve_conflicting_units)

lemma p_refuted: "find_counterexample sample_floats never p_ctx [] 0 = Some (Some [(''p'', \<lparr>bv_width = 1, bv_words = (0, 0)\<rparr>)])"
  by (simp add: find_counterexample_def encode_p_valid MAX_CLAUSES_def solve_single_unit)
    (simp add: model_bit_def bv_new_def lit_pos_def bv_split_def)

text \<open>Two 200-bit symbols and the comparison \<open>x \<le> y\<close>: too wide for the bit-blaster, so only the linear procedure can prove it.\<close>

definition wide_ctx :: expr_ctx where
  "wide_ctx = (let (x, c) = symbol ''x'' 200 expr_ctx_new; (y, c) = symbol ''y'' 200 c; (le, c) = cmp Sle x y c in c)"

lemma wide_ctx_eq: "wide_ctx = \<lparr>nodes = [Sym ''x'' 200, Sym ''y'' 200, Cmp Sle 0 1], widths = [200, 200, 1],
   intern_map = [Sym ''x'' 200 \<mapsto> 0, Sym ''y'' 200 \<mapsto> 1, Cmp Sle 0 1 \<mapsto> 2]\<rparr>"
  by (simp add: wide_ctx_def symbol_def intern_def expr_ctx_new_def cmp_def as_const_def node_def BOOL_WIDTH_def Let_def numeral_2_eq_2)

lemma wide_ctx_wf: "ctx_wf wide_ctx"
proof -
  let ?c1 = "snd (symbol ''x'' 200 expr_ctx_new)"
  let ?c2 = "snd (symbol ''y'' 200 ?c1)"
  have w: "ctx_wf ?c2" using symbol_builds [OF ctx_wf_new] symbol_builds by (meson builds_def)
  have "builds ?c2 (cmp Sle 0 1 ?c2) 1 (\<lambda>env. of_bool (cmp_den Sle (width ?c2 0) (expr_val env ?c2 0) (expr_val env ?c2 1)))"
    by (rule cmp_builds [OF w])
      (simp_all add: symbol_def intern_def expr_ctx_new_def ctx_len_def width_def)
  moreover have "wide_ctx = snd (cmp Sle 0 1 ?c2)"
    by (simp add: wide_ctx_def symbol_def intern_def expr_ctx_new_def cmp_def as_const_def node_def BOOL_WIDTH_def Let_def)
  ultimately show ?thesis by (simp add: builds_def)
qed

lemma wide_vals:
  "expr_val (\<lambda>_ _. 0) wide_ctx 0 = 0" "expr_val (\<lambda>_ _. 0) wide_ctx 1 = 0" "expr_val (\<lambda>_ _. 0) wide_ctx 2 = 1"
  by (simp_all add: wide_ctx_eq expr_val_def arena_vals_def arena_step_def cmp_den_def)

lemma wide_holds: "holds (\<lambda>_ _. 0) wide_ctx 2"
  by (simp add: holds_def wide_vals)

lemma wide_no_overflow: "no_overflow wide_ctx (\<lambda>_ _. 0) 2"
proof -
  have "quantity_ok wide_ctx (\<lambda>_ _. 0) x" if "x < 3" for x
    using that wide_vals by (auto simp: quantity_ok_def wide_ctx_eq node_def width_def in_signed_def less_Suc_eq numeral_3_eq_3)
  moreover have "x \<le> 2" if "reaches wide_ctx 2 x" for x
    using reaches_le [OF wide_ctx_wf that] by (simp add: wide_ctx_eq ctx_len_def)
  ultimately show ?thesis by (fastforce simp: no_overflow_def)
qed

lemma wide_linear: "prove_implies wide_ctx [2] 2 = Some True"
  by code_simp

lemma wide_not_encoded: "encode_query wide_ctx [2] 2 = Some None"
  by (simp add: encode_eval wide_ctx_eq numeral_2_eq_2 numeral_3_eq_3)

lemma wide_method: "prove_implies_method sample_floats never never wide_ctx [2] 2 = Some (Some Linear)"
  by (simp add: prove_implies_method_def wide_linear prove_implies_budget_def wide_not_encoded)

lemma p_ctx_constraints: "constraints_of (Suc 0) p_ctx 0 truth = None"
  by (simp add: p_ctx_eq node_def constraints_of.simps)

lemma p_method: "prove_implies_method sample_floats never never p_ctx [0] 0 = Some (Some BitPrecise)"
  by (simp add: prove_implies_method_def p_implies_p prove_implies_def p_ctx_constraints)

text \<open>A formula that conflicts after the first decision.\<close>

definition conf_F :: "clause list" where
  "conf_F = [[Lit 0 True, Lit 1 False], [Lit 0 True, Lit 1 True]]"

definition conf_start :: "nat solver" where
  "conf_start = solver_new sample_floats 2 conf_F"

definition conf_state :: "nat solver" where
  "conf_state = decide 0 conf_start"

lemma conf_start_inv: "solver_inv conf_F conf_start" "prop_queue conf_start = []" "decision_level conf_start = 0"
proof -
  have seed: "seed_inv conf_F conf_start"
    unfolding conf_start_def by (rule solver_new_seed) (simp add: conf_F_def)
  have "units_seeded {0..<length conf_F} conf_start"
    by (auto simp: units_seeded_def conf_start_def solver_new_def conf_F_def nth_Cons')
  then show "solver_inv conf_F conf_start" by (rule seeded_search [OF seed])
  show "prop_queue conf_start = []" "decision_level conf_start = 0"
    by (simp_all add: conf_start_def solver_new_def decision_level_def)
qed

lemma conf_state_inv: "solver_inv conf_F conf_state"
  unfolding conf_state_def
  by (rule decide_inv(1) [OF conf_start_inv(1,2)]) (simp_all add: conf_start_def solver_new_def)

lemma conf_run: "case propagate conf_state of Some (Some ci, s) \<Rightarrow> ci = 1 \<and> decision_level s = 1 | _ \<Rightarrow> False"
  by code_simp

lemma conf_propagated:
  obtains s where "propagate conf_state = Some (Some 1, s)" and "decision_level s = 1"
proof (cases "propagate conf_state")
  case None
  then show thesis using conf_run by simp
next
  case (Some r)
  then show thesis using conf_run that by (cases "fst r"; cases r) auto
qed

end
