(* ===== verification/Ir_Types.thy ===== *)
theory Ir_Types
  imports Prelude
begin

unbundle bit_operations_syntax

text \<open>
  MSIR types and the target data layout, \<open>crates/ir/src/ty.rs\<close>. Sizes and alignments are \<open>u64\<close> words; the checked
  operations return \<open>None\<close> on overflow, which the source propagates as an undetermined size.
\<close>

datatype ty =
    TyUnit
  | TyBool
  | TyInt nat
  | TyOpaque u64 u64
  | TyPtr ty
  | TyArray ty u64
  | TyStruct "ty list" bool

record data_layout =
  pointer_size :: u64
  pointer_align :: u64
  max_int_align :: u64

definition LP64 :: data_layout where
  "LP64 = \<lparr>pointer_size = 8, pointer_align = 8, max_int_align = 8\<rparr>"

definition ILP32 :: data_layout where
  "ILP32 = \<lparr>pointer_size = 4, pointer_align = 4, max_int_align = 8\<rparr>"

definition is_ptr :: "ty \<Rightarrow> bool" where
  "is_ptr t = (case t of TyPtr _ \<Rightarrow> True | _ \<Rightarrow> False)"

definition checked_add_u64 :: "u64 \<Rightarrow> u64 \<Rightarrow> u64 option" where
  "checked_add_u64 a b = (if unat a + unat b < 2 ^ 64 then Some (a + b) else None)"

definition checked_mul_u64 :: "u64 \<Rightarrow> u64 \<Rightarrow> u64 option" where
  "checked_mul_u64 a b = (if unat a * unat b < 2 ^ 64 then Some (a * b) else None)"

definition div_ceil_8 :: "nat \<Rightarrow> nat" where
  "div_ceil_8 bits = (bits + 7) div 8"

text \<open>\<open>next_power_of_two\<close>: the doubling search from 1; \<open>n\<close> steps always reach \<open>n\<close>.\<close>

primrec double_until :: "nat \<Rightarrow> nat \<Rightarrow> nat \<Rightarrow> nat" where
  "double_until 0 n p = p"
| "double_until (Suc fuel) n p = (if n \<le> p then p else double_until fuel n (2 * p))"

definition next_power_of_two :: "nat \<Rightarrow> nat" where
  "next_power_of_two n = double_until n n 1"

definition align_up :: "u64 \<Rightarrow> u64 \<Rightarrow> u64 option" where
  "align_up v a = (let m = a - 1 in map_option (\<lambda>s. s AND NOT m) (checked_add_u64 v m))"

fun align_bytes :: "data_layout \<Rightarrow> ty \<Rightarrow> u64 option"
  and align_fields :: "data_layout \<Rightarrow> ty list \<Rightarrow> u64 \<Rightarrow> u64 option" where
  "align_bytes l TyUnit = Some 1"
| "align_bytes l TyBool = Some 1"
| "align_bytes l (TyInt bits) = Some (min (of_nat (next_power_of_two (max (div_ceil_8 bits) 1))) (max_int_align l))"
| "align_bytes l (TyOpaque bytes a) = Some a"
| "align_bytes l (TyPtr t) = Some (pointer_align l)"
| "align_bytes l (TyArray elem n) = align_bytes l elem"
| "align_bytes l (TyStruct ts packed) = (if packed then Some 1 else align_fields l ts 1)"
| "align_fields l [] a = Some a"
| "align_fields l (f # fs) a = Option.bind (align_bytes l f) (\<lambda>b. align_fields l fs (max a b))"

fun size_bytes :: "data_layout \<Rightarrow> ty \<Rightarrow> u64 option"
  and size_fields :: "data_layout \<Rightarrow> bool \<Rightarrow> ty list \<Rightarrow> u64 \<Rightarrow> u64 \<Rightarrow> u64 option" where
  "size_bytes l TyUnit = Some 0"
| "size_bytes l TyBool = Some 1"
| "size_bytes l (TyInt bits) = Some (of_nat (div_ceil_8 bits))"
| "size_bytes l (TyOpaque bytes a) = Some bytes"
| "size_bytes l (TyPtr t) = Some (pointer_size l)"
| "size_bytes l (TyArray elem n) =
     Option.bind (Option.bind (size_bytes l elem) (\<lambda>s. Option.bind (align_bytes l elem) (align_up s)))
       (\<lambda>stride. checked_mul_u64 stride n)"
| "size_bytes l (TyStruct ts packed) = size_fields l packed ts 0 1"
| "size_fields l packed [] offset max_align = align_up offset max_align"
| "size_fields l packed (f # fs) offset max_align =
     Option.bind (if packed then Some 1 else align_bytes l f) (\<lambda>a.
     Option.bind (align_up offset a) (\<lambda>off.
     Option.bind (size_bytes l f) (\<lambda>s.
     Option.bind (checked_add_u64 off s) (\<lambda>off.
       size_fields l packed fs off (max max_align a)))))"

definition stride_bytes :: "data_layout \<Rightarrow> ty \<Rightarrow> u64 option" where
  "stride_bytes l t = Option.bind (size_bytes l t) (\<lambda>s. Option.bind (align_bytes l t) (align_up s))"

lemma size_array_stride: "size_bytes l (TyArray elem n) = Option.bind (stride_bytes l elem) (\<lambda>s. checked_mul_u64 s n)"
  by (simp add: stride_bytes_def)

section \<open>Powers of two and rounding\<close>

definition pow2 :: "u64 \<Rightarrow> bool" where
  "pow2 a \<longleftrightarrow> (\<exists>k < 64. unat a = 2 ^ k)"

lemma pow2_1 [simp]: "pow2 1"
  unfolding pow2_def by (intro exI [of _ 0]) simp

lemma pow2_max: "pow2 a \<Longrightarrow> pow2 b \<Longrightarrow> pow2 (max a b)"
  by (simp add: max_def)

lemma pow2_min: "pow2 a \<Longrightarrow> pow2 b \<Longrightarrow> pow2 (min a b)"
  by (simp add: min_def)

lemma pow2_dvd_max:
  assumes "pow2 a" and "pow2 b"
  shows "unat a dvd unat (max a b)" and "unat b dvd unat (max a b)"
proof -
  obtain i j where "unat a = 2 ^ i" "unat b = 2 ^ j" using assms by (auto simp: pow2_def)
  then show "unat a dvd unat (max a b)" "unat b dvd unat (max a b)"
    by (auto simp: max_def word_le_nat_alt le_imp_power_dvd not_le less_imp_le)
qed

lemma checked_add_u64_Some:
  assumes "checked_add_u64 a b = Some c"
  shows "unat c = unat a + unat b"
proof -
  have "unat a + unat b < 2 ^ 64" "c = a + b" using assms by (auto simp: checked_add_u64_def split: if_splits)
  then show ?thesis by (simp add: unat_word_ariths)
qed

lemma checked_mul_u64_Some:
  assumes "checked_mul_u64 a b = Some c"
  shows "unat c = unat a * unat b"
proof -
  have "unat a * unat b < 2 ^ 64" "c = a * b" using assms by (auto simp: checked_mul_u64_def split: if_splits)
  then show ?thesis by (simp add: unat_word_ariths)
qed

text \<open>\<open>align_up\<close> is the least multiple of the alignment that is not below the value.\<close>

lemma align_up_correct:
  assumes "pow2 a" and "align_up v a = Some r"
  shows "unat a dvd unat r" and "unat v \<le> unat r" and "unat r < unat v + unat a"
proof -
  obtain k where k: "k < 64" "unat a = 2 ^ k" using assms(1) by (auto simp: pow2_def)
  have "a = of_nat (unat a)" by simp
  then have am: "a = 2 ^ k" using k by (metis of_nat_numeral of_nat_power)
  have m: "a - 1 = mask k" unfolding am by (simp add: mask_eq_exp_minus_1)
  obtain s where s: "checked_add_u64 v (a - 1) = Some s" "r = s AND NOT (a - 1)"
    using assms(2) by (auto simp: align_up_def Let_def)
  have un1: "unat (a - 1) = 2 ^ k - 1"
  proof -
    have "unat (mask k :: u64) = mask k" using k by (intro bit_eqI) (auto simp: bit_unsigned_iff bit_mask_iff)
    then show ?thesis using m by (simp add: mask_eq_exp_minus_1)
  qed
  have us: "unat s = unat v + (2 ^ k - 1)" using checked_add_u64_Some [OF s(1)] un1 by simp
  have "unat r = push_bit k (drop_bit k (unat s))"
    unfolding s(2) m by (rule bit_eqI) (use bit_imp_le_length [of s] in \<open>auto simp: bit_unsigned_iff bit_simps\<close>)
  then have ur: "unat r = (unat s div 2 ^ k) * 2 ^ k" by (simp add: push_bit_eq_mult drop_bit_eq_div)
  show "unat a dvd unat r" using ur k by simp
  show "unat v \<le> unat r" "unat r < unat v + unat a" 
  proof -
    have "unat s mod 2 ^ k < 2 ^ k" by simp
    moreover have "unat s + 1 = unat v + 2 ^ k" using us by simp
    ultimately show "unat v \<le> unat r" "unat r < unat v + unat a"
      using ur k(2) div_mult_mod_eq [of "unat s" "2 ^ k"] by linarith+
  qed
qed


lemma double_until_correct:
  assumes "p = 2 ^ j" and "n \<le> p + fuel"
  shows "\<exists>k. double_until fuel n p = 2 ^ k \<and> j \<le> k \<and> n \<le> 2 ^ k \<and> (k = j \<or> 2 ^ (k - 1) < n)"
  using assms
proof (induction fuel arbitrary: p j)
  case (Suc fuel)
  show ?case
  proof (cases "n \<le> p")
    case False
    have "n \<le> 2 * p + fuel" using Suc.prems one_le_power [of "2::nat" j] by linarith
    then obtain k where k: "double_until fuel n (2 * p) = 2 ^ k" "Suc j \<le> k" "n \<le> 2 ^ k" "k = Suc j \<or> 2 ^ (k - 1) < n"
      using Suc.IH [of "2 * p" "Suc j"] Suc.prems(1) by auto
    then show ?thesis using False Suc.prems(1) by (intro exI [of _ k]) auto
  qed (use Suc.prems in auto)
qed auto

text \<open>\<open>next_power_of_two\<close> is the least power of two not below its argument.\<close>

lemma next_power_of_two_correct:
  "\<exists>k. next_power_of_two n = 2 ^ k \<and> n \<le> 2 ^ k \<and> (k = 0 \<or> 2 ^ (k - 1) < n)"
  unfolding next_power_of_two_def using double_until_correct [of 1 0 n n] by auto

section \<open>Well-formed layouts\<close>

definition layout_ok :: "data_layout \<Rightarrow> bool" where
  "layout_ok l \<longleftrightarrow> pow2 (pointer_align l) \<and> pow2 (max_int_align l)"

fun ty_ok :: "ty \<Rightarrow> bool" where
  "ty_ok (TyInt bits) \<longleftrightarrow> bits < 2 ^ 32"
| "ty_ok (TyOpaque bytes a) \<longleftrightarrow> pow2 a"
| "ty_ok (TyPtr t) \<longleftrightarrow> True"
| "ty_ok (TyArray t n) \<longleftrightarrow> ty_ok t"
| "ty_ok (TyStruct ts packed) \<longleftrightarrow> (\<forall>t\<in>set ts. ty_ok t)"
| "ty_ok _ \<longleftrightarrow> True"

lemma pow2_int_align:
  assumes "bits < 2 ^ 32"
  shows "pow2 (of_nat (next_power_of_two (max (div_ceil_8 bits) 1)))"
proof -
  obtain k where k: "next_power_of_two (max (div_ceil_8 bits) 1) = 2 ^ k" "k = 0 \<or> 2 ^ (k - 1) < max (div_ceil_8 bits) 1"
    using next_power_of_two_correct by blast
  have "max (div_ceil_8 bits) 1 \<le> 2 ^ 32" using assms by (simp add: div_ceil_8_def)
  then have "k - 1 < 32" using k(2) by (metis diff_0_eq_0 less_le_trans one_less_numeral_iff power_less_imp_less_exp semiring_norm(76) zero_less_numeral)
  then have "k < 64" by simp
  moreover have "unat (2 ^ k :: u64) = 2 ^ k" using \<open>k < 64\<close>
    by (intro bit_eqI) (auto simp: bit_unsigned_iff bit_exp_iff)
  ultimately show ?thesis using k(1) by (auto simp: pow2_def)
qed

text \<open>Every alignment the model computes is a power of two, so the \<open>debug_assert\<close> of \<open>align_up\<close> cannot fire.\<close>

lemma align_bytes_pow2:
  shows "layout_ok l \<Longrightarrow> ty_ok t \<Longrightarrow> \<exists>a. align_bytes l t = Some a \<and> pow2 a"
    and "layout_ok l \<Longrightarrow> \<forall>t\<in>set ts. ty_ok t \<Longrightarrow> pow2 b \<Longrightarrow> \<exists>a. align_fields l ts b = Some a \<and> pow2 a \<and> unat b dvd unat a \<and>
      (\<forall>t\<in>set ts. \<forall>c. align_bytes l t = Some c \<longrightarrow> unat c dvd unat a)"
proof (induction l t and l ts b rule: align_bytes_align_fields.induct)
  case (3 l bits)
  then have "pow2 (min (of_nat (next_power_of_two (max (div_ceil_8 bits) 1))) (max_int_align l))"
    by (intro pow2_min pow2_int_align) (simp_all add: layout_ok_def)
  then show ?case unfolding align_bytes.simps by blast
next
  case (9 l f fs a)
  obtain b where b: "align_bytes l f = Some b" "pow2 b" using 9 by auto
  then obtain c where "align_fields l fs (max a b) = Some c" "pow2 c" "unat (max a b) dvd unat c"
    "\<forall>t\<in>set fs. \<forall>d. align_bytes l t = Some d \<longrightarrow> unat d dvd unat c"
    using 9(2) [OF b(1)] 9(3-5) pow2_max by auto
  then show ?case using b pow2_dvd_max [OF 9(5) b(2)] by (auto intro: dvd_trans)
qed (auto simp: layout_ok_def)


lemma align_bytes_some: "layout_ok l \<Longrightarrow> ty_ok t \<Longrightarrow> align_bytes l t = Some a \<Longrightarrow> pow2 a"
  using align_bytes_pow2(1) by fastforce

lemma align_up_1: "align_up v 1 = Some v"
  using unsigned_less [of v] by (simp add: align_up_def checked_add_u64_def)

lemma pow2_dvd_align:
  assumes "pow2 a" and "pow2 b" and "unat a dvd unat b" and "align_up v b = Some r"
  shows "unat a dvd unat r"
  using align_up_correct(1) [OF assms(2,4)] assms(3) dvd_trans by blast

text \<open>
  What a C-style layout is, stated over natural numbers and without the code's rounding: a field is a pair of its size and its
  alignment, and every field starts at the least multiple of its alignment that is not below the end of the field before it.
\<close>

fun placed :: "nat \<Rightarrow> (nat \<times> nat) list \<Rightarrow> nat list \<Rightarrow> nat \<Rightarrow> bool" where
  "placed end_off [] [] final \<longleftrightarrow> final = end_off"
| "placed end_off ((sz, al) # fs) (off # offs) final \<longleftrightarrow>
     al dvd off \<and> end_off \<le> off \<and> off < end_off + al \<and> placed (off + sz) fs offs final"
| "placed _ _ _ _ \<longleftrightarrow> False"

text \<open>The size and the alignment a struct gives to a field: a packed struct places its fields at any byte.\<close>

definition field_layout :: "data_layout \<Rightarrow> bool \<Rightarrow> ty \<Rightarrow> nat \<times> nat" where
  "field_layout l packed t = (unat (the (size_bytes l t)), if packed then 1 else unat (the (align_bytes l t)))"

lemma unat_max_u64: "unat (max a b :: u64) = max (unat a) (unat b)"
  by (simp add: max_def word_le_nat_alt)

lemma align_fields_max:
  "align_fields l ts m = Some a \<Longrightarrow> unat a = Max (insert (unat m) ((\<lambda>t. unat (the (align_bytes l t))) ` set ts))"
proof (induction ts arbitrary: m)
  case (Cons f fs)
  obtain b where b: "align_bytes l f = Some b" "align_fields l fs (max m b) = Some a" using Cons.prems by (auto simp: bind_eq_Some_conv)
  let ?A = "(\<lambda>t. unat (the (align_bytes l t))) ` set fs"
  have "unat a = Max (insert (max (unat m) (unat b)) ?A)" using Cons.IH [OF b(2)] by (simp add: unat_max_u64)
  also have "\<dots> = Max (insert (unat m) (insert (unat b) ?A))" by (cases "?A = {}") (auto simp: max.assoc)
  finally show ?case using b(1) by simp
qed simp

text \<open>Laying out the fields from a running offset and alignment.\<close>

lemma size_fields_placed:
  assumes "layout_ok l" and "\<forall>t\<in>set ts. ty_ok t" and "pow2 m" and "size_fields l packed ts off m = Some s"
  shows "\<exists>a offs final. (if packed then a = max m 1 else align_fields l ts m = Some a) \<and> pow2 a \<and>
    (\<forall>t\<in>set ts. size_bytes l t \<noteq> None) \<and> placed (unat off) (map (field_layout l packed) ts) offs final \<and>
    unat a dvd unat s \<and> final \<le> unat s \<and> unat s < final + unat a"
  using assms(2-)
proof (induction ts arbitrary: off m)
  case Nil
  then have "unat m dvd unat s" "unat off \<le> unat s" "unat s < unat off + unat m" using align_up_correct [of m off s] by auto
  moreover have "1 \<le> m" using Nil.prems(2) by (auto simp: pow2_def word_le_nat_alt)
  then have "m = max m 1" by (simp add: max_absorb1)
  ultimately show ?case using Nil.prems by (intro exI [of _ m] exI [of _ "[]"] exI [of _ "unat off"]) auto
next
  case (Cons f fs)
  obtain b o1 sf o2 where st: "(if packed then Some 1 else align_bytes l f) = Some b" "align_up off b = Some o1"
    "size_bytes l f = Some sf" "checked_add_u64 o1 sf = Some o2" "size_fields l packed fs o2 (max m b) = Some s"
    using Cons.prems(3) by (auto simp: bind_eq_Some_conv)
  have pb: "pow2 b" using st(1) align_bytes_some [OF assms(1)] Cons.prems(1) by (auto split: if_splits)
  note U = align_up_correct [OF pb st(2)] and A = checked_add_u64_Some [OF st(4)]
  obtain a offs final where IH: "if packed then a = max (max m b) 1 else align_fields l fs (max m b) = Some a" "pow2 a"
    "\<forall>t\<in>set fs. size_bytes l t \<noteq> None" "placed (unat o2) (map (field_layout l packed) fs) offs final"
    "unat a dvd unat s" "final \<le> unat s" "unat s < final + unat a"
    using Cons.IH [OF _ pow2_max [OF Cons.prems(2) pb] st(5)] Cons.prems(1) by auto
  have m1: "m \<ge> 1" using Cons.prems(2) by (auto simp: pow2_def word_le_nat_alt)
  have "if packed then a = max m 1 else align_fields l (f # fs) m = Some a"
    using IH(1) st(1) m1 by (auto simp: max_def split: if_splits)
  moreover have "field_layout l packed f = (unat sf, unat b)" using st(1,3) by (auto simp: field_layout_def split: if_splits)
  ultimately show ?case
    using IH(2-) U A st(3) by (intro exI [of _ a] exI [of _ "unat o1 # offs"] exI [of _ final]) auto
qed

lemma placed_packed:
  "placed e fs offs final \<Longrightarrow> \<forall>f\<in>set fs. snd f = 1 \<Longrightarrow> final = e + sum_list (map fst fs)"
  by (induction e fs offs final rule: placed.induct) auto

text \<open>
  Property C18. The layout of a struct of well-formed field types is the C layout: each field starts at the least multiple of its
  alignment (of one, when the struct is packed) at or after the end of the field before it; the alignment of the struct is the
  largest one of its fields, and one when it is packed; the size is the least multiple of that alignment that covers the last
  field. So an unpacked struct's size is a multiple of the alignment of every field (an array of such structs keeps every field
  aligned), and a packed struct is exactly the sum of its fields.
\<close>

theorem struct_layout_sound:
  assumes "layout_ok l" and "\<forall>t\<in>set ts. ty_ok t" and "size_bytes l (TyStruct ts packed) = Some s"
  shows "(\<forall>t\<in>set ts. size_bytes l t \<noteq> None) \<and>
    (\<exists>a offs final. align_bytes l (TyStruct ts packed) = Some a \<and>
      unat a = (if packed then 1 else Max (insert 1 ((\<lambda>t. unat (the (align_bytes l t))) ` set ts))) \<and>
      placed 0 (map (field_layout l packed) ts) offs final \<and>
      unat a dvd unat s \<and> final \<le> unat s \<and> unat s < final + unat a) \<and>
    (packed \<longrightarrow> unat s = sum_list (map (\<lambda>t. unat (the (size_bytes l t))) ts)) \<and>
    (\<not> packed \<longrightarrow> (\<forall>t\<in>set ts. \<forall>a. align_bytes l t = Some a \<longrightarrow> unat a dvd unat s))"
proof -
  obtain a offs final where F: "if packed then a = 1 else align_fields l ts 1 = Some a" "\<forall>t\<in>set ts. size_bytes l t \<noteq> None"
    "placed 0 (map (field_layout l packed) ts) offs final" "unat a dvd unat s" "final \<le> unat s" "unat s < final + unat a"
    using size_fields_placed [OF assms(1,2) pow2_1, of packed 0 s] assms(3) unfolding max.idem [of "1::u64"] by auto
  have a: "align_bytes l (TyStruct ts packed) = Some a" using F(1) by (cases packed) auto
  have "unat a = (if packed then 1 else Max (insert 1 ((\<lambda>t. unat (the (align_bytes l t))) ` set ts)))"
    using F(1) align_fields_max [of l ts 1 a] by (cases packed) auto
  moreover have "unat s = sum_list (map (\<lambda>t. unat (the (size_bytes l t))) ts)" if packed
    using placed_packed [OF F(3)] F(1,5,6) that by (auto simp: field_layout_def comp_def)
  moreover have "unat b dvd unat s" if "\<not> packed" "t \<in> set ts" "align_bytes l t = Some b" for t b
  proof -
    have "unat b dvd unat a" using align_bytes_pow2(2) [OF assms(1,2) pow2_1] that F(1) by fastforce
    then show ?thesis using F(4) dvd_trans by blast
  qed
  ultimately show ?thesis using F(2-6) a by blast
qed

lemma align_up_instances:
  "align_up 0 1 = Some 0" "align_up 1 8 = Some 8" "align_up 16 8 = Some 16" "align_up 3 4 = Some 4" "align_up 16 1 = Some 16" "align_up 17 8 = Some 24"
  by (simp_all add: align_up_def checked_add_u64_def)

lemma checked_add_instances: "checked_add_u64 8 8 = Some 16" "checked_add_u64 0 1 = Some 1" "checked_add_u64 16 1 = Some 17"
  by (simp_all add: checked_add_u64_def)

lemma next_power_of_two_instances: "next_power_of_two (Suc 0) = 1" "next_power_of_two 3 = 4"
  by (simp_all add: next_power_of_two_def numeral_3_eq_3)

lemma LP64_fields: "pointer_size LP64 = 8" "pointer_align LP64 = 8" "max_int_align LP64 = 8"
  by (simp_all add: LP64_def)

lemmas layout_instances = align_up_instances checked_add_instances next_power_of_two_instances LP64_fields div_ceil_8_def

lemma LP64_ok: "layout_ok LP64"
  unfolding layout_ok_def LP64_def pow2_def by (auto intro!: exI [of _ 3])

theorem struct_layout_sound_witness:
  "size_bytes LP64 (TyStruct [TyInt 8, TyPtr TyUnit, TyInt 8] False) = Some 24 \<and>
   (\<exists>offs final. placed 0 [(1, 1), (8, 8), (1, 1)] offs final \<and> final \<le> 24 \<and> 24 < final + 8)"
proof -
  let ?t = "TyStruct [TyInt 8, TyPtr TyUnit, TyInt 8] False"
  have s: "size_bytes LP64 ?t = Some 24" by (simp add: layout_instances)
  have a: "align_bytes LP64 ?t = Some 8" by (simp add: layout_instances)
  have "map (field_layout LP64 False) [TyInt 8, TyPtr TyUnit, TyInt 8] = [(1, 1), (8, 8), (1, 1)]"
    by (simp add: field_layout_def layout_instances)
  then show ?thesis using struct_layout_sound [OF LP64_ok _ s] s a by auto
qed

text \<open>
  The stride of an array element type is the least multiple of its alignment that is not below its size, and
  the size of an array is exactly the number of elements times the stride; a size that does not fit in 64 bits is
  reported as undetermined, never truncated.
\<close>

theorem array_layout_exact:
  assumes "layout_ok l" and "ty_ok t" and "size_bytes l t = Some s" and "align_bytes l t = Some a"
    and "stride_bytes l t = Some st"
  shows "unat a dvd unat st \<and> unat s \<le> unat st \<and> unat st < unat s + unat a \<and>
    size_bytes l (TyArray t n) = (if unat st * unat n < 2 ^ 64 then Some (st * n) else None) \<and>
    (\<forall>r. size_bytes l (TyArray t n) = Some r \<longrightarrow> unat r = unat st * unat n)"
proof -
  have up: "align_up s a = Some st" using assms(3-5) by (simp add: stride_bytes_def)
  note U = align_up_correct [OF align_bytes_some [OF assms(1,2,4)] up]
  have sz: "size_bytes l (TyArray t n) = checked_mul_u64 st n" by (simp only: size_array_stride assms(5) bind.simps)
  have "size_bytes l (TyArray t n) = (if unat st * unat n < 2 ^ 64 then Some (st * n) else None)"
    unfolding sz checked_mul_u64_def by (rule refl)
  moreover have "\<forall>r. size_bytes l (TyArray t n) = Some r \<longrightarrow> unat r = unat st * unat n"
    unfolding sz using checked_mul_u64_Some by blast
  ultimately show ?thesis using U by blast
qed

theorem array_layout_exact_witness:
  "size_bytes LP64 (TyArray (TyInt 24) 5) = Some 20"
proof -
  have st: "size_bytes LP64 (TyInt 24) = Some 3" "align_bytes LP64 (TyInt 24) = Some 4" "stride_bytes LP64 (TyInt 24) = Some 4"
    by (simp_all add: layout_instances stride_bytes_def)
  show ?thesis using array_layout_exact [OF LP64_ok _ st, of 5] by simp
qed

end
