(* ===== verification/Ir_Insts.thy ===== *)
theory Ir_Insts
  imports Ir_Types Safety_Properties Verdicts
begin

text \<open>
  MSIR operands, r-values and instructions, \<open>crates/ir/src/ops.rs\<close> and \<open>crates/ir/src/inst.rs\<close>, with the safety
  properties each instruction implies and the register it defines. Function, block and register ids are the \<open>u32\<close>
  newtypes of \<open>id.rs\<close>, read as natural numbers; so are the other \<open>u32\<close> and \<open>u8\<close> fields, which are never computed with.
\<close>

type_synonym func_id = nat
type_synonym block_id = nat
type_synonym reg_id = nat

datatype ir_const =
    CInt bit_vector
  | CNull
  | CUndef
  | CSymbol string
  | CSymbolOffset string int

datatype operand = OpReg reg_id | OpConst ir_const

definition operand_int :: "nat \<Rightarrow> u128 \<Rightarrow> operand option" where
  "operand_int w v = map_option (\<lambda>b. OpConst (CInt b)) (bv_new w v)"

definition as_reg :: "operand \<Rightarrow> reg_id option" where
  "as_reg p = (case p of OpReg r \<Rightarrow> Some r | OpConst _ \<Rightarrow> None)"

datatype bin_op = IAdd | ISub | IMul | IUDiv | ISDiv | IURem | ISRem | IAnd | IOr | IXor | IShl | ILShr | IAShr

record wrap_flags =
  nsw :: bool
  nuw :: bool

datatype icmp_op = IEq | INe | IUlt | IUle | IUgt | IUge | ISlt | ISle | ISgt | ISge

datatype cast_op = Trunc | ZExt | SExt | PtrToInt | IntToPtr | Bitcast

datatype rvalue =
    RUse operand
  | RBin bin_op operand operand wrap_flags
  | RCmp icmp_op operand operand
  | RCast cast_op operand ty
  | RSelect operand operand operand

datatype condition =
    CondTrue
  | CondCmp icmp_op operand operand
  | CondAnd "condition list"
  | CondOr "condition list"
  | CondNot condition

datatype mem_kind = MemCopy | MemMove | MemSet | UserFill | UserDrain

datatype callee = Direct func_id | Symbol_callee string | Indirect operand

record ref_result =
  rr_size :: "u64 option"
  rr_writable :: bool

datatype inst =
    Assign reg_id ty rvalue
  | Load reg_id ty operand nat bool "(int \<times> int) option"
  | Store ty operand operand nat bool
  | Alloc reg_id region_kind ty operand nat
  | Dealloc region_kind operand
  | PtrOffset reg_id operand operand ty
  | FieldPtr reg_id operand nat u64 u64
  | Call "reg_id option" callee "operand list" ty "ref_result option"
  | Asm string "reg_id list"
  | Intrinsic "reg_id option" string "operand list"
  | RefWitness reg_id "u64 option" nat bool bool "operand option"
  | MemIntrinsic mem_kind operand "operand option" operand
  | SafetyCheck safety_property condition string
  | ProvLabel operand nat
  | CapRequire operand nat
  | ProvPropagate operand operand
  | CapRequireIfAliasFields operand u64 u64 nat
  | CapRequireIfAlias operand operand nat
  | TaintSource operand nat
  | TaintCheck operand nat
  | TaintClear operand nat
  | TypestateSet operand nat nat
  | TypestateRequire operand nat nat bool
  | TypestateYield nat nat nat
  | Refcount operand nat bool bool
  | TypestateLeakCheck nat nat "operand option"
  | Barrier nat "operand option"
  | Spawn string
  | Join
  | Cas operand
  | SecretCheck operand nat

text \<open>The obligations of an assignment: the three guarded arms on a binary operation, tried in order.\<close>

definition assign_checks :: "rvalue \<Rightarrow> safety_property list" where
  "assign_checks v =
     (case v of
        RBin op _ _ flags \<Rightarrow>
          if op \<in> {IUDiv, ISDiv, IURem, ISRem} then [NoDivByZero]
          else if op \<in> {IShl, ILShr, IAShr} then [NoShiftOverflow]
          else if op \<in> {IAdd, ISub, IMul} \<and> (nsw flags \<or> nuw flags) then [NoArithOverflow]
          else []
      | _ \<Rightarrow> [])"

fun mem_checks :: "mem_kind \<Rightarrow> safety_property list" where
  "mem_checks MemSet = [NoNullDeref, NoUseAfterFree, InBounds, ValidWrite]"
| "mem_checks UserFill = [NoNullDeref, NoUseAfterFree, InBounds, ValidWrite, DoubleFetch]"
| "mem_checks MemCopy = [NoNullDeref, NoUseAfterFree, InBounds, ValidRead, ValidWrite, NoForbiddenOverlap]"
| "mem_checks MemMove = [NoNullDeref, NoUseAfterFree, InBounds, ValidRead, ValidWrite]"
| "mem_checks UserDrain = [NoNullDeref, NoUseAfterFree, InBounds, ValidRead, NoInfoLeak]"

definition call_checks :: "callee \<Rightarrow> safety_property list" where
  "call_checks c =
     (case c of
        Indirect _ \<Rightarrow> [NoDoubleFree, DataRace, SleepInAtomic, TypestateViolation, ValidIndirectTarget]
      | _ \<Rightarrow> [NoDoubleFree, DataRace, SleepInAtomic, TypestateViolation])"

fun implied_checks :: "inst \<Rightarrow> safety_property list" where
  "implied_checks (Load _ _ _ _ _ _) = [NoNullDeref, NoUseAfterFree, InBounds, Alignment, ValidRead]"
| "implied_checks (Store _ _ _ _ _) = [NoNullDeref, NoUseAfterFree, InBounds, Alignment, ValidWrite]"
| "implied_checks (Dealloc _ _) = [NoDoubleFree]"
| "implied_checks (Alloc _ _ _ _ _) = [NoSizeOverflow]"
| "implied_checks (PtrOffset _ _ _ _) = [ValidPointerArith]"
| "implied_checks (MemIntrinsic kind _ _ _) = mem_checks kind"
| "implied_checks (CapRequire _ _) = [WriteCapability]"
| "implied_checks (CapRequireIfAlias _ _ _) = [WriteCapability]"
| "implied_checks (CapRequireIfAliasFields _ _ _ _) = [WriteCapability]"
| "implied_checks (TaintCheck _ _) = [TaintedSink]"
| "implied_checks (TypestateRequire _ _ _ _) = [TypestateViolation]"
| "implied_checks (Refcount _ _ _ _) = [TypestateViolation]"
| "implied_checks (TypestateLeakCheck _ _ _) = [TypestateViolation]"
| "implied_checks (SecretCheck _ _) = [SecretDependent]"
| "implied_checks (Call _ callee _ _ _) = call_checks callee"
| "implied_checks (Assign _ _ v) = assign_checks v"
| "implied_checks _ = []"

fun defined_reg :: "inst \<Rightarrow> reg_id option" where
  "defined_reg (Assign dst _ _) = Some dst"
| "defined_reg (Load dst _ _ _ _ _) = Some dst"
| "defined_reg (Alloc dst _ _ _ _) = Some dst"
| "defined_reg (PtrOffset dst _ _ _) = Some dst"
| "defined_reg (FieldPtr dst _ _ _ _) = Some dst"
| "defined_reg (RefWitness dst _ _ _ _ _) = Some dst"
| "defined_reg (Call dst _ _ _ _) = dst"
| "defined_reg (Intrinsic dst _ _) = dst"
| "defined_reg _ = None"

end
