(* ===== verification/Ir_Module.thy ===== *)
theory Ir_Module
  imports Ir_Insts
begin

text \<open>
  Blocks, terminators, functions and modules, \<open>crates/ir/src/func.rs\<close>, and the linker that merges several modules into
  one. A \<open>HashMap\<close> is an association list with one entry per key; iterating over it visits the entries in list order, and
  the lemmas hold for every order. Indexing a map with an absent key (\<open>remap[&id]\<close>) panics, which is \<open>None\<close> here.
\<close>

section \<open>Hash maps\<close>

type_synonym ('k, 'v) hash_map = "('k \<times> 'v) list"

text \<open>\<open>insert\<close> replaces, \<open>entry(k).or_insert(v)\<close> keeps the value already present.\<close>

fun hm_insert :: "'k \<Rightarrow> 'v \<Rightarrow> ('k, 'v) hash_map \<Rightarrow> ('k, 'v) hash_map" where
  "hm_insert k v [] = [(k, v)]"
| "hm_insert k v ((k', v') # m) = (if k = k' then (k, v) # m else (k', v') # hm_insert k v m)"

definition hm_or_insert :: "'k \<Rightarrow> 'v \<Rightarrow> ('k, 'v) hash_map \<Rightarrow> ('k, 'v) hash_map" where
  "hm_or_insert k v m = (case map_of m k of Some _ \<Rightarrow> m | None \<Rightarrow> hm_insert k v m)"

lemma map_of_hm_insert [simp]: "map_of (hm_insert k v m) = (map_of m)(k \<mapsto> v)"
  by (induction k v m rule: hm_insert.induct) auto

lemma map_of_hm_or_insert [simp]:
  "map_of (hm_or_insert k v m) = (case map_of m k of Some _ \<Rightarrow> map_of m | None \<Rightarrow> (map_of m)(k \<mapsto> v))"
  by (simp add: hm_or_insert_def split: option.splits)

lemma distinct_hm_insert: "distinct (map fst m) \<Longrightarrow> distinct (map fst (hm_insert k v m))"
proof (induction k v m rule: hm_insert.induct)
  case (2 k v k' v' m)
  have "fst ` set (hm_insert k v m) = insert k (fst ` set m)" by (induction k v m rule: hm_insert.induct) auto
  then show ?case using 2 by auto
qed simp

section \<open>Blocks and functions\<close>

datatype terminator =
    Return "operand option"
  | Br block_id "operand list"
  | CondBr operand block_id "operand list" block_id "operand list"
  | Switch operand "(bit_vector \<times> block_id) list" block_id
  | Unreachable

fun term_successors :: "terminator \<Rightarrow> block_id list" where
  "term_successors (Return _) = []"
| "term_successors Unreachable = []"
| "term_successors (Br target _) = [target]"
| "term_successors (CondBr _ then_blk _ else_blk _) = [then_blk, else_blk]"
| "term_successors (Switch _ cs dflt) = map snd cs @ [dflt]"

record basic_block =
  b_id :: block_id
  b_params :: "(reg_id \<times> ty) list"
  b_insts :: "inst list"
  b_spans :: "string option list"
  b_term :: terminator

definition block_new :: "block_id \<Rightarrow> terminator \<Rightarrow> basic_block" where
  "block_new i t = \<lparr>b_id = i, b_params = [], b_insts = [], b_spans = [], b_term = t\<rparr>"

definition block_successors :: "basic_block \<Rightarrow> block_id list" where
  "block_successors b = term_successors (b_term b)"

record ir_function =
  f_id :: func_id
  f_name :: string
  f_params :: "(reg_id \<times> ty) list"
  f_ret_ty :: ty
  f_blocks :: "basic_block list"
  f_entry :: block_id

definition block_of :: "ir_function \<Rightarrow> block_id \<Rightarrow> basic_block option" where
  "block_of f i =
     (if i < length (f_blocks f) \<and> b_id (f_blocks f ! i) = i then Some (f_blocks f ! i)
      else find (\<lambda>b. b_id b = i) (f_blocks f))"

definition block_count :: "ir_function \<Rightarrow> nat" where
  "block_count f = length (f_blocks f)"

section \<open>Modules\<close>

datatype size_spec =
    SpecBytes u64
  | ParamElements nat u64
  | SpecOpaque
  | NonNull

record ptr_contract =
  pc_size :: size_spec
  pc_align :: nat
  pc_readable :: bool
  pc_writable :: bool
  pc_assumption :: "string option"
  pc_refutable :: bool
  pc_sentinel :: "u64 option"

record mmio_handler =
  mh_region_size :: "u64 option"
  mh_size_param :: nat

record ptr_hint =
  ph_size :: u64
  ph_align :: nat
  ph_tail :: u64
  ph_container_size :: u64
  ph_container_offset :: u64
  ph_access_extent :: u64

definition region_size :: "ptr_hint \<Rightarrow> bool \<Rightarrow> u64" where
  "region_size h struct_tail = (if struct_tail then max (ph_size h) (ph_tail h) else ph_size h)"

text \<open>\<open>trailing_zeros\<close> of a \<open>u64\<close>: 64 for zero.\<close>

definition trailing_zeros :: "u64 \<Rightarrow> nat" where
  "trailing_zeros v = (case find (\<lambda>i. bit v i) [0..<64] of Some i \<Rightarrow> i | None \<Rightarrow> 64)"

definition region_align :: "ptr_hint \<Rightarrow> u64" where
  "region_align h = (if ph_align h > 0 then of_nat (ph_align h) else push_bit (min (trailing_zeros (ph_size h)) 4) 1)"

definition container :: "ptr_hint \<Rightarrow> (u64 \<times> u64) option" where
  "container h = (if ph_container_size h > 0 then Some (ph_container_size h, ph_container_offset h) else None)"

record global_def =
  g_size :: u64
  g_align :: nat
  g_writable :: bool

type_synonym field_evidence = "(string \<times> u64, u64 \<times> nat \<times> string) hash_map"

record ir_module =
  m_name :: string
  m_functions :: "ir_function list"
  m_layout :: data_layout
  m_param_contracts :: "(func_id \<times> nat, ptr_contract) hash_map"
  m_unanalyzed :: "(string \<times> string) list"
  m_internal :: "func_id list"
  m_globals :: "(string, global_def) hash_map"
  m_raw_ptr_hints :: "(func_id \<times> nat, u64 \<times> nat) hash_map"
  m_prov_grants :: "(nat, nat list) hash_map"
  m_global_fn_ptrs :: "(string, (u64 \<times> func_id) list) hash_map"
  m_global_ptr_fields :: "(string, (u64 \<times> string) list) hash_map"
  m_reg_ptr_hints :: "(func_id \<times> reg_id, ptr_hint) hash_map"
  m_field_ptr_evidence :: field_evidence
  m_field_load_sites :: "(func_id \<times> reg_id, string \<times> u64) hash_map"
  m_mmio_handlers :: "(string, mmio_handler) hash_map"

definition module_new :: "string \<Rightarrow> ir_module" where
  "module_new name =
     \<lparr>m_name = name, m_functions = [], m_layout = LP64, m_param_contracts = [], m_unanalyzed = [], m_internal = [],
      m_globals = [], m_raw_ptr_hints = [], m_prov_grants = [], m_global_fn_ptrs = [], m_global_ptr_fields = [],
      m_reg_ptr_hints = [], m_field_ptr_evidence = [], m_field_load_sites = [], m_mmio_handlers = []\<rparr>"

definition contracts_for :: "ir_module \<Rightarrow> ir_function \<Rightarrow> ptr_contract option list" where
  "contracts_for m f = map (\<lambda>i. map_of (m_param_contracts m) (f_id f, i)) [0..<length (f_params f)]"

definition function_of :: "ir_module \<Rightarrow> func_id \<Rightarrow> ir_function option" where
  "function_of m i = find (\<lambda>f. f_id f = i) (m_functions m)"

section \<open>Linking\<close>

text \<open>The plan: fresh sequential ids, and the name of every external definition (the first one wins).\<close>

type_synonym id_plan = "(string, func_id) hash_map \<times> (func_id, func_id) hash_map list \<times> func_id"

primrec plan_functions :: "func_id list \<Rightarrow> ir_function list \<Rightarrow> (string, func_id) hash_map \<Rightarrow> (func_id, func_id) hash_map
    \<Rightarrow> func_id \<Rightarrow> (string, func_id) hash_map \<times> (func_id, func_id) hash_map \<times> func_id" where
  "plan_functions internal [] names remap next = (names, remap, next)"
| "plan_functions internal (f # fs) names remap next =
     plan_functions internal fs
       (if f_id f \<in> set internal then names else hm_or_insert (f_name f) next names)
       (hm_insert (f_id f) next remap) (next + 1)"

primrec plan_modules :: "ir_module list \<Rightarrow> id_plan \<Rightarrow> id_plan" where
  "plan_modules [] p = p"
| "plan_modules (m # ms) p =
     (case p of (names, remaps, next) \<Rightarrow>
        case plan_functions (m_internal m) (m_functions m) names [] next of
          (names, remap, next) \<Rightarrow> plan_modules ms (names, remaps @ [remap], next))"

definition merge_id_plan :: "ir_module list \<Rightarrow> (string, func_id) hash_map \<times> (func_id, func_id) hash_map list" where
  "merge_id_plan mods = (case plan_modules mods ([], [], 0) of (names, remaps, _) \<Rightarrow> (names, remaps))"

definition resolve_callee :: "(string, func_id) hash_map \<Rightarrow> (func_id, func_id) hash_map \<Rightarrow> callee \<Rightarrow> callee option" where
  "resolve_callee names remap c =
     (case c of
        Direct old \<Rightarrow> map_option Direct (map_of remap old)
      | Symbol_callee nm \<Rightarrow> (case map_of names nm of Some i \<Rightarrow> Some (Direct i) | None \<Rightarrow> Some (Symbol_callee nm))
      | Indirect op \<Rightarrow> Some (Indirect op))"

definition resolve_inst :: "(string, func_id) hash_map \<Rightarrow> (func_id, func_id) hash_map \<Rightarrow> inst \<Rightarrow> inst option" where
  "resolve_inst names remap i =
     (case i of
        Call dst c as t r \<Rightarrow> map_option (\<lambda>c. Call dst c as t r) (resolve_callee names remap c)
      | _ \<Rightarrow> Some i)"

primrec map_opt :: "('a \<Rightarrow> 'b option) \<Rightarrow> 'a list \<Rightarrow> 'b list option" where
  "map_opt f [] = Some []"
| "map_opt f (x # xs) = Option.bind (f x) (\<lambda>y. map_option ((#) y) (map_opt f xs))"

definition resolve_block :: "(string, func_id) hash_map \<Rightarrow> (func_id, func_id) hash_map \<Rightarrow> basic_block \<Rightarrow> basic_block option" where
  "resolve_block names remap b = map_option (\<lambda>is. b\<lparr>b_insts := is\<rparr>) (map_opt (resolve_inst names remap) (b_insts b))"

definition resolve_function :: "(string, func_id) hash_map \<Rightarrow> (func_id, func_id) hash_map \<Rightarrow> ir_function \<Rightarrow> ir_function option" where
  "resolve_function names remap f =
     Option.bind (map_of remap (f_id f)) (\<lambda>i.
       map_option (\<lambda>bs. f\<lparr>f_id := i, f_blocks := bs\<rparr>) (map_opt (resolve_block names remap) (f_blocks f)))"

definition merge_field_evidence :: "field_evidence \<Rightarrow> string \<times> u64 \<Rightarrow> u64 \<Rightarrow> nat \<Rightarrow> string \<Rightarrow> field_evidence" where
  "merge_field_evidence m key s a pointee =
     (case map_of m key of
        None \<Rightarrow> hm_insert key (s, a, pointee) m
      | Some (existing, _, ename) \<Rightarrow>
          if existing = 0 then m
          else if existing \<noteq> s \<or> s = 0 then hm_insert key (0, 0, []) m
          else if ename \<noteq> pointee then hm_insert key (s, a, []) m
          else m)"

text \<open>Re-keying a table indexed by function: \<open>remap[&fid]\<close> panics on an unknown id.\<close>

primrec insert_remapped :: "(func_id, func_id) hash_map \<Rightarrow> ((func_id \<times> 'j) \<times> 'v) list \<Rightarrow> (func_id \<times> 'j, 'v) hash_map
    \<Rightarrow> (func_id \<times> 'j, 'v) hash_map option" where
  "insert_remapped remap [] t = Some t"
| "insert_remapped remap (e # es) t =
     (case e of ((fid, j), v) \<Rightarrow>
        Option.bind (map_of remap fid) (\<lambda>i. insert_remapped remap es (hm_insert (i, j) v t)))"

primrec insert_fn_ptrs :: "(func_id, func_id) hash_map \<Rightarrow> (string \<times> (u64 \<times> func_id) list) list
    \<Rightarrow> (string, (u64 \<times> func_id) list) hash_map \<Rightarrow> (string, (u64 \<times> func_id) list) hash_map option" where
  "insert_fn_ptrs remap [] t = Some t"
| "insert_fn_ptrs remap (e # es) t =
     (case e of (k, v) \<Rightarrow>
        case map_of t k of
          Some _ \<Rightarrow> insert_fn_ptrs remap es t
        | None \<Rightarrow>
            Option.bind (map_opt (\<lambda>(off, fid). map_option (Pair off) (map_of remap fid)) v)
              (\<lambda>v. insert_fn_ptrs remap es (hm_insert k v t)))"

definition extend_grants :: "nat \<times> nat list \<Rightarrow> (nat, nat list) hash_map \<Rightarrow> (nat, nat list) hash_map" where
  "extend_grants kv t =
     (case kv of (k, v) \<Rightarrow> hm_insert k (List.union v (case map_of t k of Some w \<Rightarrow> w | None \<Rightarrow> [])) t)"

primrec merge_functions :: "(string, func_id) hash_map \<Rightarrow> (func_id, func_id) hash_map \<Rightarrow> func_id list \<Rightarrow> ir_function list
    \<Rightarrow> ir_module \<Rightarrow> ir_module option" where
  "merge_functions names remap internal [] merged = Some merged"
| "merge_functions names remap internal (f # fs) merged =
     Option.bind (resolve_function names remap f) (\<lambda>nf.
       merge_functions names remap internal fs
         (merged\<lparr>m_internal := (if f_id f \<in> set internal then List.insert (f_id nf) (m_internal merged) else m_internal merged),
                 m_functions := m_functions merged @ [nf]\<rparr>))"

definition merge_one :: "(string, func_id) hash_map \<Rightarrow> (func_id, func_id) hash_map \<Rightarrow> ir_module \<Rightarrow> ir_module \<Rightarrow> ir_module option" where
  "merge_one names remap m merged =
     Option.bind (merge_functions names remap (m_internal m) (m_functions m) merged) (\<lambda>merged.
     Option.bind (insert_remapped remap (m_param_contracts m) (m_param_contracts merged)) (\<lambda>pc.
     Option.bind (insert_remapped remap (m_raw_ptr_hints m) (m_raw_ptr_hints merged)) (\<lambda>rp.
     Option.bind (insert_remapped remap (m_reg_ptr_hints m) (m_reg_ptr_hints merged)) (\<lambda>rg.
     Option.bind (insert_remapped remap (m_field_load_sites m) (m_field_load_sites merged)) (\<lambda>fl.
     Option.bind (insert_fn_ptrs remap (m_global_fn_ptrs m) (m_global_fn_ptrs merged)) (\<lambda>fp.
       Some (merged\<lparr>m_param_contracts := pc, m_raw_ptr_hints := rp, m_reg_ptr_hints := rg, m_field_load_sites := fl,
         m_field_ptr_evidence := fold (\<lambda>(k, s, a, n) t. merge_field_evidence t k s a n) (m_field_ptr_evidence m) (m_field_ptr_evidence merged),
         m_mmio_handlers := fold (\<lambda>(k, v). hm_insert k v) (m_mmio_handlers m) (m_mmio_handlers merged),
         m_globals := fold (\<lambda>(k, v). hm_or_insert k v) (m_globals m) (m_globals merged),
         m_global_fn_ptrs := fp,
         m_global_ptr_fields := fold (\<lambda>(k, v). hm_or_insert k v) (m_global_ptr_fields m) (m_global_ptr_fields merged),
         m_prov_grants := fold extend_grants (m_prov_grants m) (m_prov_grants merged),
         m_unanalyzed := m_unanalyzed merged @ m_unanalyzed m\<rparr>)))))))"

primrec merge_loop :: "(string, func_id) hash_map \<Rightarrow> (ir_module \<times> (func_id, func_id) hash_map) list \<Rightarrow> ir_module \<Rightarrow> ir_module option" where
  "merge_loop names [] merged = Some merged"
| "merge_loop names (mr # mrs) merged = Option.bind (merge_one names (snd mr) (fst mr) merged) (merge_loop names mrs)"

definition merge_modules :: "ir_module list \<Rightarrow> string \<Rightarrow> ir_module option" where
  "merge_modules mods name =
     (let merged = module_new name;
          merged = (case mods of m # _ \<Rightarrow> merged\<lparr>m_layout := m_layout m\<rparr> | [] \<Rightarrow> merged)
      in case merge_id_plan mods of (names, remaps) \<Rightarrow> merge_loop names (zip mods remaps) merged)"

section \<open>The id plan\<close>

lemma fst_hm_insert: "fst ` set (hm_insert k v m) = insert k (fst ` set m)"
  by (induction k v m rule: hm_insert.induct) auto

text \<open>The first external definition of a name among the functions of one module, numbered from \<open>next\<close>.\<close>

primrec first_ext :: "func_id list \<Rightarrow> ir_function list \<Rightarrow> string \<Rightarrow> nat \<Rightarrow> nat option" where
  "first_ext internal [] nm next = None"
| "first_ext internal (f # fs) nm next =
     (if f_id f \<notin> set internal \<and> f_name f = nm then Some next else first_ext internal fs nm (Suc next))"

lemma plan_functions_correct:
  assumes "plan_functions internal fs names remap next = (names', remap', next')"
  shows "next' = next + length fs"
    and "map_of names' nm = (case map_of names nm of Some i \<Rightarrow> Some i | None \<Rightarrow> first_ext internal fs nm next)"
    and "i \<notin> f_id ` set fs \<Longrightarrow> map_of remap' i = map_of remap i"
    and "distinct (map f_id fs) \<Longrightarrow> j < length fs \<Longrightarrow> map_of remap' (f_id (fs ! j)) = Some (next + j)"
    and "fst ` set remap' = fst ` set remap \<union> f_id ` set fs"
proof -
  have "next' = next + length fs \<and>
    (\<forall>nm. map_of names' nm = (case map_of names nm of Some i \<Rightarrow> Some i | None \<Rightarrow> first_ext internal fs nm next)) \<and>
    (\<forall>i. i \<notin> f_id ` set fs \<longrightarrow> map_of remap' i = map_of remap i) \<and>
    (distinct (map f_id fs) \<longrightarrow> (\<forall>j < length fs. map_of remap' (f_id (fs ! j)) = Some (next + j))) \<and>
    fst ` set remap' = fst ` set remap \<union> f_id ` set fs"
    using assms
  proof (induction fs arbitrary: names remap "next")
    case (Cons f fs)
    note IH = Cons.IH [OF Cons.prems [unfolded plan_functions.simps]]
    have "\<forall>nm. map_of names' nm = (case map_of names nm of Some i \<Rightarrow> Some i | None \<Rightarrow> first_ext internal (f # fs) nm next)"
      using IH by (auto split: option.splits if_splits)
    moreover have "map_of remap' (f_id ((f # fs) ! j)) = Some (next + j)"
      if "distinct (map f_id (f # fs))" "j < length (f # fs)" for j
      using IH that by (cases j) auto
    ultimately show ?case using IH by (auto simp: fst_hm_insert)
  qed (auto split: option.splits)
  then show "next' = next + length fs"
    "map_of names' nm = (case map_of names nm of Some i \<Rightarrow> Some i | None \<Rightarrow> first_ext internal fs nm next)"
    "i \<notin> f_id ` set fs \<Longrightarrow> map_of remap' i = map_of remap i"
    "distinct (map f_id fs) \<Longrightarrow> j < length fs \<Longrightarrow> map_of remap' (f_id (fs ! j)) = Some (next + j)"
    "fst ` set remap' = fst ` set remap \<union> f_id ` set fs"
    by blast+
qed

text \<open>\<open>linked_id mods k j\<close> is the position of function \<open>j\<close> of module \<open>k\<close> when all functions are listed one after another.\<close>

definition linked_id :: "ir_module list \<Rightarrow> nat \<Rightarrow> nat \<Rightarrow> nat" where
  "linked_id mods k j = sum_list (map (length \<circ> m_functions) (take k mods)) + j"

definition total_functions :: "ir_module list \<Rightarrow> nat" where
  "total_functions mods = sum_list (map (length \<circ> m_functions) mods)"

primrec first_def :: "ir_module list \<Rightarrow> string \<Rightarrow> nat \<Rightarrow> nat option" where
  "first_def [] nm next = None"
| "first_def (m # ms) nm next =
     (case first_ext (m_internal m) (m_functions m) nm next of
        Some i \<Rightarrow> Some i
      | None \<Rightarrow> first_def ms nm (next + length (m_functions m)))"

lemma plan_modules_correct:
  assumes "plan_modules ms (names, remaps, next) = (names', remaps', next')"
  shows "\<exists>rs. remaps' = remaps @ rs \<and> length rs = length ms \<and>
    (\<forall>k < length ms. fst ` set (rs ! k) = f_id ` set (m_functions (ms ! k)) \<and>
       (distinct (map f_id (m_functions (ms ! k))) \<longrightarrow> (\<forall>j < length (m_functions (ms ! k)).
          map_of (rs ! k) (f_id (m_functions (ms ! k) ! j)) = Some (next + linked_id ms k j)))) \<and>
    (\<forall>nm. map_of names' nm = (case map_of names nm of Some i \<Rightarrow> Some i | None \<Rightarrow> first_def ms nm next))"
  using assms
proof (induction ms arbitrary: names remaps "next")
  case (Cons m ms)
  obtain n1 r1 x1 where p: "plan_functions (m_internal m) (m_functions m) names [] next = (n1, r1, x1)" by (metis prod_cases3)
  note P = plan_functions_correct [OF p]
  have "plan_modules ms (n1, remaps @ [r1], x1) = (names', remaps', next')" using Cons.prems p by simp
  from Cons.IH [OF this] obtain rs where rs: "remaps' = (remaps @ [r1]) @ rs" "length rs = length ms"
    "\<forall>k < length ms. fst ` set (rs ! k) = f_id ` set (m_functions (ms ! k)) \<and>
       (distinct (map f_id (m_functions (ms ! k))) \<longrightarrow> (\<forall>j < length (m_functions (ms ! k)).
          map_of (rs ! k) (f_id (m_functions (ms ! k) ! j)) = Some (x1 + linked_id ms k j)))"
    "\<forall>nm. map_of names' nm = (case map_of n1 nm of Some i \<Rightarrow> Some i | None \<Rightarrow> first_def ms nm x1)"
    by blast
  have "map_of names' nm = (case map_of names nm of Some i \<Rightarrow> Some i | None \<Rightarrow> first_def (m # ms) nm next)" for nm
    using rs(4) P(1) P(2) [of nm] by (auto split: option.splits)
  moreover have "fst ` set ((r1 # rs) ! k) = f_id ` set (m_functions ((m # ms) ! k)) \<and>
       (distinct (map f_id (m_functions ((m # ms) ! k))) \<longrightarrow> (\<forall>j < length (m_functions ((m # ms) ! k)).
          map_of ((r1 # rs) ! k) (f_id (m_functions ((m # ms) ! k) ! j)) = Some (next + linked_id (m # ms) k j)))"
    if "k < length (m # ms)" for k
  proof (cases k)
    case 0
    then show ?thesis using P(4,5) by (simp add: linked_id_def)
  next
    case (Suc k')
    then show ?thesis using rs(3) P(1) that by (simp add: linked_id_def add.assoc)
  qed
  ultimately show ?case using rs(1,2) by (intro exI [of _ "r1 # rs"]) simp
qed (simp split: option.splits)

definition is_external :: "ir_module list \<Rightarrow> string \<Rightarrow> nat \<Rightarrow> nat \<Rightarrow> bool" where
  "is_external mods nm k j \<longleftrightarrow> k < length mods \<and> j < length (m_functions (mods ! k)) \<and>
     f_name (m_functions (mods ! k) ! j) = nm \<and> f_id (m_functions (mods ! k) ! j) \<notin> set (m_internal (mods ! k))"

lemma first_ext_Some:
  "first_ext internal fs nm next = Some i \<longleftrightarrow>
     (\<exists>j < length fs. i = next + j \<and> f_name (fs ! j) = nm \<and> f_id (fs ! j) \<notin> set internal \<and>
        (\<forall>j' < j. \<not> (f_name (fs ! j') = nm \<and> f_id (fs ! j') \<notin> set internal)))"
proof (induction fs arbitrary: "next")
  case (Cons f fs)
  show ?case
  proof (cases "f_id f \<notin> set internal \<and> f_name f = nm")
    case True
    then show ?thesis by (auto simp: nth_Cons' intro!: exI [of _ 0])
  next
    case False
    then have "first_ext internal (f # fs) nm next = first_ext internal fs nm (Suc next)" by auto
    also have "\<dots> = Some i \<longleftrightarrow> (\<exists>j < length fs. i = next + Suc j \<and> f_name (fs ! j) = nm \<and> f_id (fs ! j) \<notin> set internal \<and>
        (\<forall>j' < j. \<not> (f_name (fs ! j') = nm \<and> f_id (fs ! j') \<notin> set internal)))"
      unfolding Cons.IH by simp
    also have "\<dots> \<longleftrightarrow> (\<exists>j < length (f # fs). i = next + j \<and> f_name ((f # fs) ! j) = nm \<and> f_id ((f # fs) ! j) \<notin> set internal \<and>
        (\<forall>j' < j. \<not> (f_name ((f # fs) ! j') = nm \<and> f_id ((f # fs) ! j') \<notin> set internal)))"
      using False by (auto simp: Ex_less_Suc2 All_less_Suc2)
    finally show ?thesis .
  qed
qed simp

lemma first_ext_None:
  "first_ext internal fs nm next = None \<longleftrightarrow> (\<forall>j < length fs. f_name (fs ! j) = nm \<longrightarrow> f_id (fs ! j) \<in> set internal)"
  by (induction fs arbitrary: "next") (auto simp: All_less_Suc2)

lemma linked_id_simps [simp]:
  "linked_id (m # ms) 0 j = j" "linked_id (m # ms) (Suc k) j = length (m_functions m) + linked_id ms k j"
  by (simp_all add: linked_id_def)

lemma is_external_simps [simp]:
  "is_external [] nm k j \<longleftrightarrow> False"
  "is_external (m # ms) nm 0 j \<longleftrightarrow> j < length (m_functions m) \<and> f_name (m_functions m ! j) = nm \<and>
     f_id (m_functions m ! j) \<notin> set (m_internal m)"
  "is_external (m # ms) nm (Suc k) j \<longleftrightarrow> is_external ms nm k j"
  by (simp_all add: is_external_def)

lemma all_nat_cases: "(\<forall>k. P k) \<longleftrightarrow> P 0 \<and> (\<forall>k. P (Suc k))"
  by (metis not0_implies_Suc)

lemma first_def_None: "first_def ms nm next = None \<longleftrightarrow> (\<forall>k j. \<not> is_external ms nm k j)"
proof (induction ms arbitrary: "next")
  case (Cons m ms)
  have e: "first_ext (m_internal m) (m_functions m) nm next = None \<longleftrightarrow> (\<forall>j. \<not> is_external (m # ms) nm 0 j)"
    by (auto simp: first_ext_None)
  have c: "(\<forall>k j. \<not> is_external (m # ms) nm k j) \<longleftrightarrow>
      (\<forall>j. \<not> is_external (m # ms) nm 0 j) \<and> (\<forall>k j. \<not> is_external ms nm k j)"
    by (subst all_nat_cases) (simp only: is_external_simps(3))
  show ?case
  proof (cases "first_ext (m_internal m) (m_functions m) nm next")
    case None
    then show ?thesis unfolding c e [symmetric] by (simp only: first_def.simps option.case Cons.IH) simp
  next
    case (Some i)
    then show ?thesis unfolding c e [symmetric] by simp
  qed
qed simp

lemma first_def_Some:
  assumes "first_def ms nm next = Some i"
  shows "\<exists>k j. is_external ms nm k j \<and> i = next + linked_id ms k j \<and>
    (\<forall>k' j'. is_external ms nm k' j' \<longrightarrow> linked_id ms k j \<le> linked_id ms k' j')"
  using assms
proof (induction ms arbitrary: "next")
  case (Cons m ms)
  show ?case
  proof (cases "first_ext (m_internal m) (m_functions m) nm next")
    case (Some i')
    then obtain j where j: "j < length (m_functions m)" "i = next + j" "f_name (m_functions m ! j) = nm"
        "f_id (m_functions m ! j) \<notin> set (m_internal m)"
        "\<forall>j' < j. \<not> (f_name (m_functions m ! j') = nm \<and> f_id (m_functions m ! j') \<notin> set (m_internal m))"
      using Cons.prems Some [unfolded first_ext_Some] Some by auto
    have "j \<le> linked_id (m # ms) k' j'" if "is_external (m # ms) nm k' j'" for k' j'
      using that j(1,5) by (cases k') (auto simp: not_less)
    then show ?thesis using j by (intro exI [of _ 0] exI [of _ j]) simp
  next
    case None
    then have n: "\<not> is_external (m # ms) nm 0 j" for j by (simp add: first_ext_None)
    obtain k j where k: "is_external ms nm k j" "i = next + length (m_functions m) + linked_id ms k j"
        "\<forall>k' j'. is_external ms nm k' j' \<longrightarrow> linked_id ms k j \<le> linked_id ms k' j'"
      using Cons.IH [of "next + length (m_functions m)"] Cons.prems None by auto
    have "linked_id (m # ms) (Suc k) j \<le> linked_id (m # ms) k' j'" if "is_external (m # ms) nm k' j'" for k' j'
      using that k(3) n by (cases k') (auto simp del: is_external_simps(2))
    then show ?thesis using k by (intro exI [of _ "Suc k"] exI [of _ j]) (simp add: add.assoc)
  qed
qed simp

text \<open>What the plan promises: where each function goes, and which definition a name denotes.\<close>

lemma merge_id_plan_correct:
  assumes "merge_id_plan mods = (names, remaps)"
  shows "length remaps = length mods"
    and "\<And>k. k < length mods \<Longrightarrow> fst ` set (remaps ! k) = f_id ` set (m_functions (mods ! k))"
    and "\<And>k j. k < length mods \<Longrightarrow> distinct (map f_id (m_functions (mods ! k))) \<Longrightarrow> j < length (m_functions (mods ! k)) \<Longrightarrow>
      map_of (remaps ! k) (f_id (m_functions (mods ! k) ! j)) = Some (linked_id mods k j)"
    and "map_of names nm = first_def mods nm 0"
proof -
  obtain x where "plan_modules mods ([], [], 0) = (names, remaps, x)"
    using assms by (auto simp: merge_id_plan_def split: prod.splits)
  from plan_modules_correct [OF this] show "length remaps = length mods"
    "\<And>k. k < length mods \<Longrightarrow> fst ` set (remaps ! k) = f_id ` set (m_functions (mods ! k))"
    "\<And>k j. k < length mods \<Longrightarrow> distinct (map f_id (m_functions (mods ! k))) \<Longrightarrow> j < length (m_functions (mods ! k)) \<Longrightarrow>
      map_of (remaps ! k) (f_id (m_functions (mods ! k) ! j)) = Some (linked_id mods k j)"
    "map_of names nm = first_def mods nm 0"
    by auto
qed

section \<open>Well-formed modules\<close>

definition inst_callee :: "inst \<Rightarrow> callee option" where
  "inst_callee i = (case i of Call _ c _ _ _ \<Rightarrow> Some c | _ \<Rightarrow> None)"

definition function_targets :: "ir_function \<Rightarrow> func_id set" where
  "function_targets f = {t. \<exists>b\<in>set (f_blocks f). \<exists>i\<in>set (b_insts b). inst_callee i = Some (Direct t)}"

definition module_refs :: "ir_module \<Rightarrow> func_id set" where
  "module_refs m = (\<Union>f\<in>set (m_functions m). function_targets f) \<union>
     (fst \<circ> fst) ` set (m_param_contracts m) \<union> (fst \<circ> fst) ` set (m_raw_ptr_hints m) \<union>
     (fst \<circ> fst) ` set (m_reg_ptr_hints m) \<union> (fst \<circ> fst) ` set (m_field_load_sites m) \<union>
     (\<Union>kv\<in>set (m_global_fn_ptrs m). snd ` set (snd kv))"

text \<open>Distinct function ids, and every id mentioned anywhere in the module is one of them.\<close>

definition module_ok :: "ir_module \<Rightarrow> bool" where
  "module_ok m \<longleftrightarrow> distinct (map f_id (m_functions m)) \<and> module_refs m \<subseteq> f_id ` set (m_functions m)"

lemma map_opt_Some_iff:
  "map_opt f xs = Some ys \<longleftrightarrow> length ys = length xs \<and> (\<forall>i < length xs. f (xs ! i) = Some (ys ! i))"
proof (induction xs arbitrary: ys)
  case (Cons x xs)
  show ?case
  proof (cases ys)
    case Nil
    then show ?thesis by (auto simp: bind_eq_Some_conv)
  next
    case (Cons y ys')
    then show ?thesis using Cons.IH [of ys'] by (auto simp: bind_eq_Some_conv All_less_Suc2)
  qed
qed force

lemma map_opt_total: "(\<forall>x\<in>set xs. f x \<noteq> None) \<Longrightarrow> map_opt f xs \<noteq> None"
  by (induction xs) auto

lemma map_opt_append: "map_opt f (xs @ ys) = Option.bind (map_opt f xs) (\<lambda>us. map_option ((@) us) (map_opt f ys))"
  by (induction xs) (auto simp: option.map_comp comp_def map_option_case split: option.splits Option.bind_split)

lemma map_of_dom: "i \<in> fst ` set m \<longleftrightarrow> map_of m i \<noteq> None"
  by (metis dom_map_of_conv_image_fst domIff)

text \<open>Each step of the merge succeeds when the ids it looks up are known.\<close>

lemma resolve_inst_total:
  assumes "\<forall>t. inst_callee i = Some (Direct t) \<longrightarrow> t \<in> fst ` set remap"
  shows "resolve_inst names remap i \<noteq> None"
  using assms
  by (cases i) (auto simp: resolve_inst_def inst_callee_def resolve_callee_def map_of_dom split: callee.splits option.splits)

lemma resolve_function_total:
  assumes "f_id f \<in> fst ` set remap" and "function_targets f \<subseteq> fst ` set remap"
  shows "resolve_function names remap f \<noteq> None"
proof -
  have "resolve_block names remap b \<noteq> None" if "b \<in> set (f_blocks f)" for b
  proof -
    have "resolve_inst names remap i \<noteq> None" if "i \<in> set (b_insts b)" for i
      using assms(2) that \<open>b \<in> set (f_blocks f)\<close>
      by (intro resolve_inst_total) (auto simp: function_targets_def)
    then show ?thesis using map_opt_total [of "b_insts b" "resolve_inst names remap"] by (simp add: resolve_block_def)
  qed
  then show ?thesis
    using assms(1) map_opt_total [of "f_blocks f" "resolve_block names remap"] by (auto simp: resolve_function_def map_of_dom)
qed

lemma insert_remapped_total: "(fst \<circ> fst) ` set es \<subseteq> fst ` set remap \<Longrightarrow> insert_remapped remap es t \<noteq> None"
  by (induction es arbitrary: t) (auto simp: map_of_dom split: prod.splits)

lemma insert_fn_ptrs_total:
  "(\<Union>kv\<in>set es. snd ` set (snd kv)) \<subseteq> fst ` set remap \<Longrightarrow> insert_fn_ptrs remap es t \<noteq> None"
proof (induction es arbitrary: t)
  case (Cons e es)
  obtain k v where e: "e = (k, v)" by (cases e)
  have "map_opt (\<lambda>(off, fid). map_option (Pair off) (map_of remap fid)) v \<noteq> None"
  proof (rule map_opt_total, rule ballI)
    fix p assume "p \<in> set v"
    then have "snd p \<in> fst ` set remap" using Cons.prems e by fastforce
    then show "(case p of (off, fid) \<Rightarrow> map_option (Pair off) (map_of remap fid)) \<noteq> None"
      by (cases p) (auto simp: map_of_dom)
  qed
  then show ?case using Cons e by (auto split: option.splits)
qed simp

lemma merge_functions_eq:
  "merge_functions names remap internal fs merged =
     Option.bind (map_opt (resolve_function names remap) fs) (\<lambda>nfs.
       Some (merged\<lparr>m_internal := fold (\<lambda>(f, nf) ids. if f_id f \<in> set internal then List.insert (f_id nf) ids else ids)
                      (zip fs nfs) (m_internal merged),
                    m_functions := m_functions merged @ nfs\<rparr>))"
proof (induction fs arbitrary: merged)
  case (Cons f fs)
  show ?case
    by (simp add: Cons.IH map_option_case split: option.splits Option.bind_split)
qed simp

text \<open>What each step produces.\<close>

lemma concat_nth:
  "k < length xss \<Longrightarrow> j < length (xss ! k) \<Longrightarrow> concat xss ! (sum_list (map length (take k xss)) + j) = xss ! k ! j"
proof (induction xss arbitrary: k)
  case (Cons xs xss)
  then show ?case by (cases k) (auto simp: nth_append add.assoc)
qed simp

lemma merge_one_functions:
  assumes "merge_one names remap m merged = Some M"
  shows "\<exists>nfs. map_opt (resolve_function names remap) (m_functions m) = Some nfs \<and> m_functions M = m_functions merged @ nfs"
  using assms by (auto simp: merge_one_def merge_functions_eq bind_eq_Some_conv)

lemma merge_loop_functions:
  assumes "merge_loop names mrs merged = Some M"
  shows "\<exists>nfss. length nfss = length mrs \<and>
    (\<forall>k < length mrs. map_opt (resolve_function names (snd (mrs ! k))) (m_functions (fst (mrs ! k))) = Some (nfss ! k)) \<and>
    m_functions M = m_functions merged @ concat nfss"
  using assms
proof (induction mrs arbitrary: merged)
  case (Cons mr mrs)
  obtain M1 where M1: "merge_one names (snd mr) (fst mr) merged = Some M1" "merge_loop names mrs M1 = Some M"
    using Cons.prems by (auto simp: bind_eq_Some_conv)
  obtain nfs where nfs: "map_opt (resolve_function names (snd mr)) (m_functions (fst mr)) = Some nfs"
      "m_functions M1 = m_functions merged @ nfs"
    using merge_one_functions [OF M1(1)] by blast
  obtain nfss where "length nfss = length mrs"
      "\<forall>k < length mrs. map_opt (resolve_function names (snd (mrs ! k))) (m_functions (fst (mrs ! k))) = Some (nfss ! k)"
      "m_functions M = m_functions M1 @ concat nfss"
    using Cons.IH [OF M1(2)] by blast
  then show ?case using nfs by (intro exI [of _ "nfs # nfss"]) (auto simp: All_less_Suc2)
qed simp

lemma merge_modules_loop:
  assumes "merge_modules mods name = Some M" and "merge_id_plan mods = (names, remaps)"
  shows "\<exists>merged. merge_loop names (zip mods remaps) merged = Some M \<and> m_functions merged = [] \<and> module_refs merged = {}"
proof -
  let ?m = "case mods of m # _ \<Rightarrow> (module_new name)\<lparr>m_layout := m_layout m\<rparr> | [] \<Rightarrow> module_new name"
  have "merge_loop names (zip mods remaps) ?m = Some M" using assms by (simp add: merge_modules_def Let_def)
  moreover have "m_functions ?m = []" "module_refs ?m = {}"
    by (cases mods; simp add: module_new_def module_refs_def)+
  ultimately show ?thesis by blast
qed

lemma linked_id_bound:
  assumes "k < length mods" and "j < length (m_functions (mods ! k))"
  shows "linked_id mods k j < total_functions mods"
proof -
  have "total_functions mods = sum_list (map (length \<circ> m_functions) (take k mods @ mods ! k # drop (Suc k) mods))"
    using id_take_nth_drop [OF assms(1)] by (simp add: total_functions_def)
  then show ?thesis using assms(2) by (simp add: linked_id_def)
qed

text \<open>Where every function of the inputs ends up.\<close>

lemma merged_functions:
  assumes M: "merge_modules mods name = Some M" and plan: "merge_id_plan mods = (names, remaps)"
  shows "length (m_functions M) = total_functions mods"
    and "\<And>k j. k < length mods \<Longrightarrow> j < length (m_functions (mods ! k)) \<Longrightarrow>
      linked_id mods k j < total_functions mods \<and>
      resolve_function names (remaps ! k) (m_functions (mods ! k) ! j) = Some (m_functions M ! linked_id mods k j)"
proof -
  obtain merged where l: "merge_loop names (zip mods remaps) merged = Some M" "m_functions merged = []"
    using merge_modules_loop [OF assms] by blast
  have len: "length remaps = length mods" using merge_id_plan_correct(1) [OF plan] .
  obtain nfss where n: "length nfss = length mods" "m_functions M = concat nfss"
    "\<And>k. k < length mods \<Longrightarrow> map_opt (resolve_function names (remaps ! k)) (m_functions (mods ! k)) = Some (nfss ! k)"
    using merge_loop_functions [OF l(1)] l(2) len by auto
  have sub: "length (nfss ! k) = length (m_functions (mods ! k))" if "k < length mods" for k
    using n(3) [OF that] by (simp add: map_opt_Some_iff)
  have eq: "map length nfss = map (length \<circ> m_functions) mods"
    by (rule nth_equalityI) (simp_all add: n(1) sub)
  show "length (m_functions M) = total_functions mods"
    by (simp add: n(2) length_concat eq total_functions_def)
  fix k j assume k: "k < length mods" "j < length (m_functions (mods ! k))"
  have "sum_list (map length (take k nfss)) = sum_list (map (length \<circ> m_functions) (take k mods))"
    by (simp add: eq flip: take_map)
  then have "concat nfss ! linked_id mods k j = nfss ! k ! j"
    using concat_nth [of k nfss j] k n(1) sub by (simp add: linked_id_def)
  moreover have "linked_id mods k j < total_functions mods" by (rule linked_id_bound [OF k])
  ultimately show "linked_id mods k j < total_functions mods \<and>
      resolve_function names (remaps ! k) (m_functions (mods ! k) ! j) = Some (m_functions M ! linked_id mods k j)"
    using n(2) n(3) [OF k(1)] k(2) by (simp add: map_opt_Some_iff)
qed

text \<open>Every position of the linked module comes from one function of one input module.\<close>

lemma linked_id_surj:
  assumes "i < total_functions mods"
  shows "\<exists>k j. k < length mods \<and> j < length (m_functions (mods ! k)) \<and> i = linked_id mods k j"
  using assms
proof (induction mods arbitrary: i)
  case (Cons m mods)
  show ?case
  proof (cases "i < length (m_functions m)")
    case True
    then show ?thesis by (intro exI [of _ 0] exI [of _ i]) simp
  next
    case False
    then have "i - length (m_functions m) < total_functions mods" using Cons.prems by (simp add: total_functions_def less_diff_conv2)
    then obtain k j where "k < length mods" "j < length (m_functions (mods ! k))" "i - length (m_functions m) = linked_id mods k j"
      using Cons.IH by blast
    then show ?thesis using False by (intro exI [of _ "Suc k"] exI [of _ j]) simp
  qed
qed (simp add: total_functions_def)

lemma merge_one_total:
  assumes "f_id ` set (m_functions m) \<subseteq> fst ` set remap" and "module_refs m \<subseteq> fst ` set remap"
  shows "merge_one names remap m merged \<noteq> None"
proof -
  have r: "function_targets f \<subseteq> fst ` set remap" if "f \<in> set (m_functions m)" for f
    using assms(2) that by (auto simp: module_refs_def)
  have "map_opt (resolve_function names remap) (m_functions m) \<noteq> None"
    using assms(1) r by (intro map_opt_total ballI resolve_function_total) auto
  then obtain M0 where M0: "merge_functions names remap (m_internal m) (m_functions m) merged = Some M0"
    by (auto simp: merge_functions_eq)
  have "insert_remapped remap (m_param_contracts m) t \<noteq> None" "insert_remapped remap (m_raw_ptr_hints m) u \<noteq> None"
    "insert_remapped remap (m_reg_ptr_hints m) v \<noteq> None" "insert_remapped remap (m_field_load_sites m) w \<noteq> None"
    "insert_fn_ptrs remap (m_global_fn_ptrs m) x \<noteq> None" for t u v w x
    using assms(2) by (auto simp only: module_refs_def Un_subset_iff intro!: insert_remapped_total insert_fn_ptrs_total)
  then obtain t u v w x where
    "insert_remapped remap (m_param_contracts m) (m_param_contracts M0) = Some t"
    "insert_remapped remap (m_raw_ptr_hints m) (m_raw_ptr_hints M0) = Some u"
    "insert_remapped remap (m_reg_ptr_hints m) (m_reg_ptr_hints M0) = Some v"
    "insert_remapped remap (m_field_load_sites m) (m_field_load_sites M0) = Some w"
    "insert_fn_ptrs remap (m_global_fn_ptrs m) (m_global_fn_ptrs M0) = Some x"
    by (meson not_None_eq)
  then show ?thesis using M0 by (simp add: merge_one_def)
qed

lemma ran_map_of_iff: "map_of m k = Some v \<Longrightarrow> v \<in> ran (map_of m)"
  by (rule ranI)

lemma insert_remapped_keys:
  "insert_remapped remap es t = Some t' \<Longrightarrow> (fst \<circ> fst) ` set t' \<subseteq> (fst \<circ> fst) ` set t \<union> ran (map_of remap)"
proof (induction es arbitrary: t)
  case (Cons e es)
  obtain fid j v where e: "e = ((fid, j), v)" by (metis surj_pair)
  obtain i where i: "map_of remap fid = Some i" "insert_remapped remap es (hm_insert (i, j) v t) = Some t'"
    using Cons.prems e by (auto simp: bind_eq_Some_conv)
  have "(fst \<circ> fst) ` set (hm_insert (i, j) v t) = insert i ((fst \<circ> fst) ` set t)"
    using arg_cong [OF fst_hm_insert [of "(i, j)" v t], of "image fst"] by (simp add: image_comp)
  then show ?case using Cons.IH [OF i(2)] ran_map_of_iff [OF i(1)] by auto
qed simp

lemma fn_ptrs_insert: "(\<Union>kv\<in>set (hm_insert k v t). snd ` set (snd kv)) \<subseteq> (\<Union>kv\<in>set t. snd ` set (snd kv)) \<union> snd ` set v"
  by (induction k v t rule: hm_insert.induct) auto

lemma insert_fn_ptrs_targets:
  "insert_fn_ptrs remap es t = Some t' \<Longrightarrow>
     (\<Union>kv\<in>set t'. snd ` set (snd kv)) \<subseteq> (\<Union>kv\<in>set t. snd ` set (snd kv)) \<union> ran (map_of remap)"
proof (induction es arbitrary: t)
  case (Cons e es)
  obtain k v where e: "e = (k, v)" by (cases e)
  show ?case
  proof (cases "map_of t k")
    case None
    then obtain v' where v': "map_opt (\<lambda>(off, fid). map_option (Pair off) (map_of remap fid)) v = Some v'"
        "insert_fn_ptrs remap es (hm_insert k v' t) = Some t'"
      using Cons.prems e by (auto simp: bind_eq_Some_conv)
    have sub: "snd ` set v' \<subseteq> ran (map_of remap)"
    proof
      fix x assume "x \<in> snd ` set v'"
      then obtain i where i: "i < length v'" "x = snd (v' ! i)" by (auto simp: in_set_conv_nth)
      have "map_option (Pair (fst (v ! i))) (map_of remap (snd (v ! i))) = Some (v' ! i)"
        using v'(1) i(1) by (auto simp: map_opt_Some_iff case_prod_beta)
      then obtain z where "map_of remap (snd (v ! i)) = Some z" "v' ! i = (fst (v ! i), z)" by auto
      then show "x \<in> ran (map_of remap)" using i(2) by (simp add: ran_map_of_iff)
    qed
    note step = order_trans [OF fn_ptrs_insert [of k v' t] Un_mono [OF order_refl sub]]
    show ?thesis by (rule order_trans [OF Cons.IH [OF v'(2)] Un_least [OF step Un_upper2]])
  next
    case (Some w)
    then show ?thesis using Cons.IH [of t] Cons.prems e by simp
  qed
qed simp

lemma resolve_callee_target:
  "resolve_callee names remap c = Some (Direct t) \<Longrightarrow> t \<in> ran (map_of remap) \<union> ran (map_of names)"
  by (auto simp: resolve_callee_def ran_map_of_iff split: callee.splits option.splits)

lemma resolve_inst_callee:
  "resolve_inst names remap i = Some i' \<Longrightarrow>
     (case inst_callee i of None \<Rightarrow> i' = i | Some c \<Rightarrow> \<exists>c'. resolve_callee names remap c = Some c' \<and> inst_callee i' = Some c')"
  by (cases i) (auto simp: resolve_inst_def inst_callee_def)

lemma resolve_function_facts:
  assumes "resolve_function names remap f = Some g"
  shows "map_of remap (f_id f) = Some (f_id g)" and "f_name g = f_name f" and "f_params g = f_params f"
    and "f_ret_ty g = f_ret_ty f" and "f_entry g = f_entry f" and "length (f_blocks g) = length (f_blocks f)"
    and "\<And>b. b < length (f_blocks f) \<Longrightarrow> f_blocks g ! b = (f_blocks f ! b)\<lparr>b_insts := b_insts (f_blocks g ! b)\<rparr> \<and>
      length (b_insts (f_blocks g ! b)) = length (b_insts (f_blocks f ! b)) \<and>
      (\<forall>i < length (b_insts (f_blocks f ! b)).
        resolve_inst names remap (b_insts (f_blocks f ! b) ! i) = Some (b_insts (f_blocks g ! b) ! i))"
proof -
  obtain i bs where g: "map_of remap (f_id f) = Some i" "map_opt (resolve_block names remap) (f_blocks f) = Some bs"
      "g = f\<lparr>f_id := i, f_blocks := bs\<rparr>"
    using assms by (auto simp: resolve_function_def bind_eq_Some_conv)
  then show "map_of remap (f_id f) = Some (f_id g)" "f_name g = f_name f" "f_params g = f_params f"
    "f_ret_ty g = f_ret_ty f" "f_entry g = f_entry f" "length (f_blocks g) = length (f_blocks f)"
    by (simp_all add: map_opt_Some_iff)
  fix b assume b: "b < length (f_blocks f)"
  then have "resolve_block names remap (f_blocks f ! b) = Some (bs ! b)" using g(2) by (simp add: map_opt_Some_iff)
  then obtain ins where ins: "map_opt (resolve_inst names remap) (b_insts (f_blocks f ! b)) = Some ins"
      "bs ! b = (f_blocks f ! b)\<lparr>b_insts := ins\<rparr>"
    by (auto simp: resolve_block_def)
  then show "f_blocks g ! b = (f_blocks f ! b)\<lparr>b_insts := b_insts (f_blocks g ! b)\<rparr> \<and>
      length (b_insts (f_blocks g ! b)) = length (b_insts (f_blocks f ! b)) \<and>
      (\<forall>i < length (b_insts (f_blocks f ! b)).
        resolve_inst names remap (b_insts (f_blocks f ! b) ! i) = Some (b_insts (f_blocks g ! b) ! i))"
    using g(3) by (simp add: map_opt_Some_iff)
qed

lemma resolve_function_targets:
  assumes "resolve_function names remap f = Some g"
  shows "function_targets g \<subseteq> ran (map_of remap) \<union> ran (map_of names)"
proof
  fix t assume "t \<in> function_targets g"
  then obtain b i where b: "b < length (f_blocks g)" "i < length (b_insts (f_blocks g ! b))"
      "inst_callee (b_insts (f_blocks g ! b) ! i) = Some (Direct t)"
    by (auto simp: function_targets_def in_set_conv_nth)
  note F = resolve_function_facts [OF assms]
  have "resolve_inst names remap (b_insts (f_blocks f ! b) ! i) = Some (b_insts (f_blocks g ! b) ! i)"
    using F(6) F(7) [of b] b by simp
  from resolve_inst_callee [OF this] show "t \<in> ran (map_of remap) \<union> ran (map_of names)"
    using b(3) by (auto split: option.splits dest: resolve_callee_target)
qed

lemma union_six:
  assumes "A1 \<subseteq> B1 \<union> (R \<union> S)" and "A2 \<subseteq> B2 \<union> R" and "A3 \<subseteq> B3 \<union> R" and "A4 \<subseteq> B4 \<union> R" and "A5 \<subseteq> B5 \<union> R" and "A6 \<subseteq> B6 \<union> R"
  shows "A1 \<union> A2 \<union> A3 \<union> A4 \<union> A5 \<union> A6 \<subseteq> (B1 \<union> B2 \<union> B3 \<union> B4 \<union> B5 \<union> B6) \<union> R \<union> S"
  using assms by blast

lemma merge_one_refs:
  assumes "merge_one names remap m merged = Some M"
  shows "module_refs M \<subseteq> module_refs merged \<union> ran (map_of remap) \<union> ran (map_of names)"
proof -
  obtain nfs where nfs: "map_opt (resolve_function names remap) (m_functions m) = Some nfs" "m_functions M = m_functions merged @ nfs"
    using merge_one_functions [OF assms] by blast
  have "function_targets g \<subseteq> ran (map_of remap) \<union> ran (map_of names)" if g: "g \<in> set nfs" for g
  proof -
    obtain i where "i < length nfs" "g = nfs ! i" using g by (auto simp: in_set_conv_nth)
    then have "resolve_function names remap (m_functions m ! i) = Some g" using nfs(1) by (simp add: map_opt_Some_iff)
    then show ?thesis by (rule resolve_function_targets)
  qed
  then have fs: "(\<Union>f\<in>set (m_functions M). function_targets f)
      \<subseteq> (\<Union>f\<in>set (m_functions merged). function_targets f) \<union> (ran (map_of remap) \<union> ran (map_of names))"
    using nfs(2) by auto
  have t: "insert_remapped remap (m_param_contracts m) (m_param_contracts merged) = Some (m_param_contracts M)"
    "insert_remapped remap (m_raw_ptr_hints m) (m_raw_ptr_hints merged) = Some (m_raw_ptr_hints M)"
    "insert_remapped remap (m_reg_ptr_hints m) (m_reg_ptr_hints merged) = Some (m_reg_ptr_hints M)"
    "insert_remapped remap (m_field_load_sites m) (m_field_load_sites merged) = Some (m_field_load_sites M)"
    "insert_fn_ptrs remap (m_global_fn_ptrs m) (m_global_fn_ptrs merged) = Some (m_global_fn_ptrs M)"
    using assms by (auto simp: merge_one_def merge_functions_eq bind_eq_Some_conv)
  note T = t(1-4) [THEN insert_remapped_keys] insert_fn_ptrs_targets [OF t(5)]
  show ?thesis unfolding module_refs_def by (rule union_six [OF fs T])
qed

lemma ran_names: "merge_id_plan mods = (names, remaps) \<Longrightarrow> ran (map_of names) \<subseteq> {..<total_functions mods}"
proof
  fix i assume p: "merge_id_plan mods = (names, remaps)" and "i \<in> ran (map_of names)"
  then obtain nm where "first_def mods nm 0 = Some i" using merge_id_plan_correct(4) [OF p] by (auto simp: ran_def)
  then obtain k j where k: "is_external mods nm k j" "i = linked_id mods k j" using first_def_Some by fastforce
  have "linked_id mods k j < total_functions mods"
    using k(1) linked_id_bound by (auto simp: is_external_def)
  then show "i \<in> {..<total_functions mods}" using k(2) by simp
qed

lemma ran_remaps:
  assumes p: "merge_id_plan mods = (names, remaps)" and k: "k < length mods" and d: "distinct (map f_id (m_functions (mods ! k)))"
  shows "ran (map_of (remaps ! k)) \<subseteq> {..<total_functions mods}"
proof
  fix i assume "i \<in> ran (map_of (remaps ! k))"
  then obtain x where x: "map_of (remaps ! k) x = Some i" by (auto simp: ran_def)
  then have "x \<in> f_id ` set (m_functions (mods ! k))"
    using map_of_dom [of x "remaps ! k"] merge_id_plan_correct(2) [OF p k] by simp
  then obtain j where j: "j < length (m_functions (mods ! k))" "x = f_id (m_functions (mods ! k) ! j)"
    by (auto simp: in_set_conv_nth)
  then have "i = linked_id mods k j" using merge_id_plan_correct(3) [OF p k d j(1)] x by simp
  then show "i \<in> {..<total_functions mods}" using linked_id_bound [OF k j(1)] by simp
qed

lemma merge_loop_refs:
  assumes "merge_loop names mrs merged = Some M" and "ran (map_of names) \<subseteq> A" and "\<forall>mr\<in>set mrs. ran (map_of (snd mr)) \<subseteq> A"
    and "module_refs merged \<subseteq> A"
  shows "module_refs M \<subseteq> A"
  using assms
proof (induction mrs arbitrary: merged)
  case (Cons mr mrs)
  obtain M1 where M1: "merge_one names (snd mr) (fst mr) merged = Some M1" "merge_loop names mrs M1 = Some M"
    using Cons.prems(1) by (auto simp: bind_eq_Some_conv)
  have "module_refs M1 \<subseteq> A"
    by (rule order_trans [OF merge_one_refs [OF M1(1)]]) (use Cons.prems in \<open>simp add: Un_least\<close>)
  then show ?case using Cons.IH [OF M1(2)] Cons.prems by simp
qed simp

lemma merge_loop_total:
  assumes "\<forall>mr\<in>set mrs. f_id ` set (m_functions (fst mr)) \<subseteq> fst ` set (snd mr) \<and> module_refs (fst mr) \<subseteq> fst ` set (snd mr)"
  shows "merge_loop names mrs merged \<noteq> None"
  using assms
proof (induction mrs arbitrary: merged)
  case (Cons mr mrs)
  obtain M1 where "merge_one names (snd mr) (fst mr) merged = Some M1"
    using merge_one_total [of "fst mr" "snd mr" names merged] Cons.prems by auto
  then show ?case using Cons by simp
qed simp

section \<open>The linker\<close>

lemma merge_modules_total:
  assumes "\<forall>m\<in>set mods. module_ok m"
  shows "merge_modules mods name \<noteq> None"
proof -
  obtain names remaps where plan: "merge_id_plan mods = (names, remaps)" by fastforce
  note P = merge_id_plan_correct [OF plan]
  have "f_id ` set (m_functions (fst mr)) \<subseteq> fst ` set (snd mr) \<and> module_refs (fst mr) \<subseteq> fst ` set (snd mr)"
    if mr: "mr \<in> set (zip mods remaps)" for mr
  proof -
    obtain k where k: "k < length mods" "fst mr = mods ! k" "snd mr = remaps ! k" using mr P(1) by (auto simp: set_zip)
    then have "fst ` set (snd mr) = f_id ` set (m_functions (fst mr))" using P(2) by simp
    moreover have "module_ok (fst mr)" using assms k by simp
    ultimately show ?thesis by (simp add: module_ok_def)
  qed
  then have tot: "merge_loop names (zip mods remaps) merged \<noteq> None" for merged by (intro merge_loop_total) blast
  show ?thesis unfolding merge_modules_def plan Let_def prod.case by (rule tot)
qed

lemma linked_ids:
  assumes M: "merge_modules mods name = Some M" and ok: "\<forall>m\<in>set mods. module_ok m"
  shows "map f_id (m_functions M) = [0..<total_functions mods]"
proof -
  obtain names remaps where plan: "merge_id_plan mods = (names, remaps)" by fastforce
  note F = merged_functions [OF M plan]
  have "f_id (m_functions M ! i) = i" if i: "i < total_functions mods" for i
  proof -
    obtain k j where k: "k < length mods" "j < length (m_functions (mods ! k))" "i = linked_id mods k j"
      using linked_id_surj [OF i] by blast
    have "distinct (map f_id (m_functions (mods ! k)))" using ok k(1) by (simp add: module_ok_def)
    then show ?thesis
      using resolve_function_facts(1) [of names "remaps ! k" "m_functions (mods ! k) ! j" "m_functions M ! i"] F(2) [OF k(1,2)]
        merge_id_plan_correct(3) [OF plan k(1) _ k(2)] k(3) by simp
  qed
  then show ?thesis using F(1) by (intro nth_equalityI) simp_all
qed

lemma linked_refs:
  assumes M: "merge_modules mods name = Some M" and ok: "\<forall>m\<in>set mods. module_ok m"
  shows "module_refs M \<subseteq> {..<total_functions mods}"
proof -
  obtain names remaps where plan: "merge_id_plan mods = (names, remaps)" by fastforce
  obtain merged where l: "merge_loop names (zip mods remaps) merged = Some M" "module_refs merged = {}"
    using merge_modules_loop [OF M plan] by blast
  have "ran (map_of (snd mr)) \<subseteq> {..<total_functions mods}" if mr: "mr \<in> set (zip mods remaps)" for mr
  proof -
    obtain k where k: "k < length mods" "snd mr = remaps ! k" using mr by (auto simp: set_zip)
    then show ?thesis using ran_remaps [OF plan k(1)] ok by (simp add: module_ok_def)
  qed
  then show ?thesis using merge_loop_refs [OF l(1) ran_names [OF plan]] l(2) by simp
qed

text \<open>
  Property C19. Linking well-formed modules (function ids distinct within each module, every reference closed) succeeds and
  yields a well-formed module: no id look-up panics, the linked functions are numbered 0, 1, 2, ... in input order, and every
  direct call and every side-table entry refers to one of them.
\<close>

theorem linking_well_formed:
  assumes "\<forall>m\<in>set mods. module_ok m"
  shows "\<exists>M. merge_modules mods name = Some M \<and> module_ok M \<and> map f_id (m_functions M) = [0..<total_functions mods]"
proof -
  obtain M where M: "merge_modules mods name = Some M" using merge_modules_total [OF assms, of name] by blast
  note ids = linked_ids [OF M assms]
  have "f_id ` set (m_functions M) = {..<total_functions mods}" using arg_cong [OF ids, of set] by (simp add: lessThan_atLeast0)
  then show ?thesis using M ids linked_refs [OF M assms] by (simp add: module_ok_def)
qed

definition sample_call :: "callee \<Rightarrow> ir_function" where
  "sample_call c = \<lparr>f_id = 7, f_name = ''main'', f_params = [], f_ret_ty = TyUnit,
     f_blocks = [\<lparr>b_id = 0, b_params = [], b_insts = [Call None c [] TyUnit None], b_spans = [], b_term = Return None\<rparr>],
     f_entry = 0\<rparr>"

definition sample_leaf :: ir_function where
  "sample_leaf = \<lparr>f_id = 7, f_name = ''leaf'', f_params = [], f_ret_ty = TyUnit, f_blocks = [block_new 0 (Return None)], f_entry = 0\<rparr>"

definition sample_mods :: "ir_module list" where
  "sample_mods = [(module_new ''a'')\<lparr>m_functions := [sample_call (Symbol_callee ''leaf'')]\<rparr>,
     (module_new ''b'')\<lparr>m_functions := [sample_leaf]\<rparr>]"

lemma sample_mods_ok: "\<forall>m\<in>set sample_mods. module_ok m"
  by (simp add: sample_mods_def sample_call_def sample_leaf_def module_ok_def module_refs_def function_targets_def inst_callee_def
      module_new_def block_new_def)

theorem linking_well_formed_witness:
  "\<exists>M. merge_modules sample_mods ''prog'' = Some M \<and> map f_id (m_functions M) = [0, 1]"
  using linking_well_formed [OF sample_mods_ok, of "''prog''"]
  by (auto simp: total_functions_def sample_mods_def module_new_def)

text \<open>
  Property C20. How the linker resolves calls. The function at position \<open>linked_id mods k j\<close> of the linked module is function \<open>j\<close> of
  module \<open>k\<close>, unchanged except for its id and the targets of its calls. A direct call still targets the same function; a
  call by name targets the first external definition of that name in input order, and stays a call by name exactly when no module defines
  the name externally, so an internal function is never reached by its name.
\<close>

theorem linking_resolves_calls:
  assumes M: "merge_modules mods name = Some M" and d: "distinct (map f_id (m_functions (mods ! k)))"
    and k: "k < length mods" and j: "j < length (m_functions (mods ! k))"
    and b: "b < length (f_blocks (m_functions (mods ! k) ! j))"
    and i: "b_insts (f_blocks (m_functions (mods ! k) ! j) ! b) ! i = Call dst c as t r"
    and ib: "i < length (b_insts (f_blocks (m_functions (mods ! k) ! j) ! b))"
  shows "f_name (m_functions M ! linked_id mods k j) = f_name (m_functions (mods ! k) ! j) \<and>
    (\<exists>c'. b_insts (f_blocks (m_functions M ! linked_id mods k j) ! b) ! i = Call dst c' as t r \<and>
       (case c of
          Direct old \<Rightarrow> \<exists>j' < length (m_functions (mods ! k)). f_id (m_functions (mods ! k) ! j') = old \<and> c' = Direct (linked_id mods k j')
        | Symbol_callee nm \<Rightarrow>
            (c' = Symbol_callee nm \<and> (\<forall>k' j'. \<not> is_external mods nm k' j')) \<or>
            (\<exists>k' j'. is_external mods nm k' j' \<and> c' = Direct (linked_id mods k' j') \<and>
               (\<forall>k'' j''. is_external mods nm k'' j'' \<longrightarrow> linked_id mods k' j' \<le> linked_id mods k'' j''))
        | Indirect op \<Rightarrow> c' = Indirect op))"
proof -
  let ?f = "m_functions (mods ! k) ! j" and ?g = "m_functions M ! linked_id mods k j"
  obtain names remaps where plan: "merge_id_plan mods = (names, remaps)" by fastforce
  note P = merge_id_plan_correct [OF plan]
  note F = resolve_function_facts [OF conjunct2 [OF merged_functions(2) [OF M plan k j]]]
  have "resolve_inst names (remaps ! k) (Call dst c as t r) = Some (b_insts (f_blocks ?g ! b) ! i)"
    using F(7) [OF b] ib i by auto
  then obtain c' where c': "resolve_callee names (remaps ! k) c = Some c'" "b_insts (f_blocks ?g ! b) ! i = Call dst c' as t r"
    by (auto simp: resolve_inst_def)
  show ?thesis
  proof (intro conjI exI [of _ c'] F(2) c'(2))
    show "case c of
          Direct old \<Rightarrow> \<exists>j' < length (m_functions (mods ! k)). f_id (m_functions (mods ! k) ! j') = old \<and> c' = Direct (linked_id mods k j')
        | Symbol_callee nm \<Rightarrow>
            (c' = Symbol_callee nm \<and> (\<forall>k' j'. \<not> is_external mods nm k' j')) \<or>
            (\<exists>k' j'. is_external mods nm k' j' \<and> c' = Direct (linked_id mods k' j') \<and>
               (\<forall>k'' j''. is_external mods nm k'' j'' \<longrightarrow> linked_id mods k' j' \<le> linked_id mods k'' j''))
        | Indirect op \<Rightarrow> c' = Indirect op"
    proof (cases c)
      case (Direct old)
      then obtain n where n: "map_of (remaps ! k) old = Some n" "c' = Direct n" using c'(1) by (auto simp: resolve_callee_def)
      then have "old \<in> f_id ` set (m_functions (mods ! k))" using map_of_dom [of old "remaps ! k"] P(2) [OF k] by simp
      then obtain j' where j': "j' < length (m_functions (mods ! k))" "f_id (m_functions (mods ! k) ! j') = old"
        by (auto simp: in_set_conv_nth)
      then show ?thesis using P(3) [OF k d j'(1)] n Direct by auto
    next
      case (Symbol_callee nm)
      show ?thesis
      proof (cases "first_def mods nm 0")
        case None
        then have "c' = Symbol_callee nm" using c'(1) Symbol_callee P(4) [of nm] by (simp add: resolve_callee_def)
        then show ?thesis using None first_def_None [of mods nm 0] Symbol_callee by simp
      next
        case (Some n)
        then have "c' = Direct n" using c'(1) Symbol_callee P(4) [of nm] by (simp add: resolve_callee_def)
        then show ?thesis using first_def_Some [OF Some] Symbol_callee by auto
      qed
    next
      case (Indirect op)
      then have "c' = Indirect op" using c'(1) by (simp add: resolve_callee_def)
      then show ?thesis using Indirect by simp
    qed
  qed
qed

theorem linking_resolves_calls_witness:
  "\<exists>M. merge_modules sample_mods ''prog'' = Some M \<and>
     b_insts (f_blocks (m_functions M ! 0) ! 0) ! 0 = Call None (Direct 1) [] TyUnit None"
proof -
  obtain M where M: "merge_modules sample_mods ''prog'' = Some M"
    using merge_modules_total [OF sample_mods_ok, of "''prog''"] by blast
  have e: "is_external sample_mods ''leaf'' k j \<longleftrightarrow> k = 1 \<and> j = 0" for k j
    by (cases k; cases "k - 1") (auto simp: sample_mods_def sample_call_def sample_leaf_def module_new_def)
  have l: "linked_id sample_mods 0 0 = 0" "linked_id sample_mods 1 0 = 1"
    by (simp_all add: sample_mods_def module_new_def)
  have sm: "m_functions (sample_mods ! 0) = [sample_call (Symbol_callee ''leaf'')]" "length sample_mods = 2"
    by (simp_all add: sample_mods_def)
  have R: "\<exists>c'. b_insts (f_blocks (m_functions M ! 0) ! 0) ! 0 = Call None c' [] TyUnit None \<and>
      (c' = Symbol_callee ''leaf'' \<and> (\<forall>k' j'. \<not> is_external sample_mods ''leaf'' k' j') \<or>
       (\<exists>k' j'. is_external sample_mods ''leaf'' k' j' \<and> c' = Direct (linked_id sample_mods k' j')))"
    using linking_resolves_calls [OF M, of 0 0 0 0 None "Symbol_callee ''leaf''" "[]" TyUnit None]
    unfolding l sm by (auto simp: sample_call_def)
  then show ?thesis using M unfolding e by (auto simp: l(2) [unfolded One_nat_def])
qed

section \<open>Field-type evidence\<close>

text \<open>The sizes observed for a field.\<close>

definition observed_sizes :: "((string \<times> u64) \<times> u64 \<times> nat \<times> string) list \<Rightarrow> string \<times> u64 \<Rightarrow> u64 set" where
  "observed_sizes obs key = {s. \<exists>a n. (key, s, a, n) \<in> set obs}"

definition evidence_step :: "(u64 \<times> nat \<times> string) option \<Rightarrow> u64 \<Rightarrow> nat \<Rightarrow> string \<Rightarrow> u64 \<times> nat \<times> string" where
  "evidence_step v s a n =
     (case v of
        None \<Rightarrow> (s, a, n)
      | Some (e, ea, en) \<Rightarrow>
          if e = 0 then (e, ea, en) else if e \<noteq> s \<or> s = 0 then (0, 0, []) else if en \<noteq> n then (s, a, []) else (e, ea, en))"

lemma merge_field_evidence_lookup:
  "map_of (merge_field_evidence t k s a n) key = (if k = key then Some (evidence_step (map_of t key) s a n) else map_of t key)"
  by (auto simp: merge_field_evidence_def evidence_step_def split: option.splits)

definition consensus :: "u64 set \<Rightarrow> string set \<Rightarrow> (u64 \<times> nat \<times> string) option \<Rightarrow> bool" where
  "consensus S N v =
     (case v of
        None \<Rightarrow> S = {} \<and> N = {}
      | Some (s, a, n) \<Rightarrow> (if s \<noteq> 0 then S = {s} else S \<noteq> {} \<and> (\<forall>t. t \<noteq> 0 \<longrightarrow> S \<noteq> {t})) \<and> (s \<noteq> 0 \<longrightarrow> n \<noteq> [] \<longrightarrow> N = {n}))"

lemma consensus_step: "consensus S N v \<Longrightarrow> consensus (insert s S) (insert n N) (Some (evidence_step v s a n))"
proof (cases v)
  case None
  then show "consensus S N v \<Longrightarrow> ?thesis" by (simp add: consensus_def evidence_step_def)
next
  case (Some w)
  obtain e ea en where w: "w = (e, ea, en)" by (cases w)
  assume c: "consensus S N v"
  consider "e = 0" | "e \<noteq> 0" "e \<noteq> s \<or> s = 0" | "e \<noteq> 0" "e = s" "en \<noteq> n" | "e \<noteq> 0" "e = s" "en = n" by blast
  then show ?thesis
  proof cases
    case 1
    then show ?thesis using c Some w by (simp add: consensus_def evidence_step_def) blast
  qed (use c Some w in \<open>auto simp: consensus_def evidence_step_def\<close>)
qed

lemma field_evidence_fold:
  "consensus (observed_sizes obs key) {n. \<exists>s a. (key, s, a, n) \<in> set obs}
     (map_of (fold (\<lambda>(k, s, a, n) t. merge_field_evidence t k s a n) obs []) key)"
proof (induction obs rule: rev_induct)
  case Nil
  then show ?case by (simp add: consensus_def observed_sizes_def)
next
  case (snoc x obs)
  obtain k s a n where x: "x = (k, s, a, n)" by (metis surj_pair)
  have o: "observed_sizes (obs @ [x]) key = (if k = key then insert s (observed_sizes obs key) else observed_sizes obs key)"
    "{m. \<exists>s a. (key, s, a, m) \<in> set (obs @ [x])} =
       (if k = key then insert n {m. \<exists>s a. (key, s, a, m) \<in> set obs} else {m. \<exists>s a. (key, s, a, m) \<in> set obs})"
    by (auto simp: observed_sizes_def x)
  show ?case unfolding o using snoc consensus_step by (simp add: x merge_field_evidence_lookup)
qed

text \<open>
  Merging field-type evidence is conservative whatever the order of the observations: a field keeps a non-zero
  size exactly when all observations of it agree on that size, every other observed field ends up poisoned
  (size zero), and a pointee name is kept only when all observations of the field carry that name.
\<close>

theorem field_evidence_consensus:
  "case map_of (fold (\<lambda>(k, s, a, n) t. merge_field_evidence t k s a n) obs []) key of
     None \<Rightarrow> observed_sizes obs key = {}
   | Some (s, a, n) \<Rightarrow>
       (if s \<noteq> 0 then observed_sizes obs key = {s} else observed_sizes obs key \<noteq> {} \<and> (\<forall>t. t \<noteq> 0 \<longrightarrow> observed_sizes obs key \<noteq> {t})) \<and>
       (s \<noteq> 0 \<longrightarrow> n \<noteq> [] \<longrightarrow> (\<forall>(k, _, _, n')\<in>set obs. k = key \<longrightarrow> n' = n))"
proof -
  let ?N = "{n. \<exists>s a. (key, s, a, n) \<in> set obs}"
  have "?N = {n} \<Longrightarrow> \<forall>(k, _, _, n')\<in>set obs. k = key \<longrightarrow> n' = n" for n by blast
  then show ?thesis
    using field_evidence_fold [of obs key] unfolding consensus_def by (auto split: option.splits prod.splits if_splits)
qed

theorem field_evidence_consensus_witness:
  "case map_of (fold (\<lambda>(k, s, a, n) t. merge_field_evidence t k s a n) [((''S'', 8), 16, 8, ''T''), ((''S'', 8), 24, 8, ''U'')] []) (''S'', 8) of
     None \<Rightarrow> False | Some (s, a, n) \<Rightarrow> s = 0"
proof -
  let ?obs = "[((''S'', 8), 16, 8, ''T''), ((''S'', 8), 24, 8, ''U'')]"
  have o: "observed_sizes ?obs (''S'', 8) = {16, 24}" by (auto simp: observed_sizes_def)
  have n: "observed_sizes ?obs (''S'', 8) = {s} \<Longrightarrow> False" for s
  proof -
    assume "observed_sizes ?obs (''S'', 8) = {s}"
    then have "(16 :: u64) = s" "24 = s" using o by auto
    then have "(16 :: u64) = 24" by simp
    then show False by simp
  qed
  have "observed_sizes ?obs (''S'', 8) \<noteq> {}" using o by simp
  then show ?thesis
    using field_evidence_consensus [of ?obs "(''S'', 8)"] by (auto split: option.splits if_splits dest: n simp del: fold_simps)
qed

end
