(* ===== verification/Cfg_Graph.thy ===== *)
theory Cfg_Graph
  imports Ir_Module
begin

text \<open>
  The control-flow graph of \<open>crates/cfg/src/graph.rs\<close>: dense node indices, adjacency lists and the iterative depth-first
  search that yields the postorder. The array of visited flags is a predicate on node indices; the search loop carries
  fuel, and \<open>postorder_correct\<close> shows that the fuel suffices and what order results.
\<close>

record cfg =
  cfg_blocks :: "block_id list"
  cfg_index :: "block_id \<Rightarrow> nat option"
  cfg_succ :: "nat list list"
  cfg_pred :: "nat list list"
  cfg_entry :: nat

definition index_blocks :: "block_id list \<Rightarrow> block_id \<Rightarrow> nat option" where
  "index_blocks bs = fold (\<lambda>(i, b) m. m(b \<mapsto> i)) (enumerate 0 bs) (\<lambda>_. None)"

text \<open>The edges of one block: \<open>succ[i].push(j); pred[j].push(i)\<close> for every successor that exists.\<close>

definition add_edge :: "nat \<Rightarrow> nat \<Rightarrow> nat list list \<times> nat list list \<Rightarrow> nat list list \<times> nat list list" where
  "add_edge i j g = (case g of (succ, pred) \<Rightarrow> (succ[i := succ ! i @ [j]], pred[j := pred ! j @ [i]]))"

definition add_block_edges :: "(block_id \<Rightarrow> nat option) \<Rightarrow> nat \<times> basic_block \<Rightarrow> nat list list \<times> nat list list
    \<Rightarrow> nat list list \<times> nat list list" where
  "add_block_edges index ib g =
     (case ib of (i, b) \<Rightarrow>
        fold (\<lambda>t g. case index t of Some j \<Rightarrow> add_edge i j g | None \<Rightarrow> g) (block_successors b) g)"

definition from_function :: "ir_function \<Rightarrow> cfg" where
  "from_function f =
     (let bs = map b_id (f_blocks f);
          index = index_blocks bs;
          n = length bs;
          (succ, pred) = fold (add_block_edges index) (enumerate 0 (f_blocks f)) (replicate n [], replicate n [])
      in \<lparr>cfg_blocks = bs, cfg_index = index, cfg_succ = succ, cfg_pred = pred,
          cfg_entry = (case index (f_entry f) of Some i \<Rightarrow> i | None \<Rightarrow> 0)\<rparr>)"

definition node_count :: "cfg \<Rightarrow> nat" where
  "node_count g = length (cfg_blocks g)"

definition cfg_successors :: "cfg \<Rightarrow> nat \<Rightarrow> nat list" where
  "cfg_successors g v = cfg_succ g ! v"

definition cfg_predecessors :: "cfg \<Rightarrow> nat \<Rightarrow> nat list" where
  "cfg_predecessors g v = cfg_pred g ! v"

definition cfg_exits :: "cfg \<Rightarrow> nat list" where
  "cfg_exits g = filter (\<lambda>v. cfg_succ g ! v = []) [0..<node_count g]"

text \<open>One step of the loop per unit of fuel; the top of the stack is the head of the list.\<close>

primrec dfs_loop :: "nat \<Rightarrow> nat list list \<Rightarrow> (nat \<times> nat) list \<Rightarrow> (nat \<Rightarrow> bool) \<Rightarrow> nat list \<Rightarrow> nat list option" where
  "dfs_loop 0 succ stack visited order = None"
| "dfs_loop (Suc fuel) succ stack visited order =
     (case stack of
        [] \<Rightarrow> Some order
      | (v, next) # rest \<Rightarrow>
          if next < length (succ ! v)
          then (let s = succ ! v ! next; stack = (v, Suc next) # rest in
                if visited s then dfs_loop fuel succ stack visited order
                else dfs_loop fuel succ ((s, 0) # stack) (visited(s := True)) order)
          else dfs_loop fuel succ rest visited (order @ [v]))"

definition dfs_fuel :: "nat \<Rightarrow> nat list list \<Rightarrow> nat" where
  "dfs_fuel n succ = Suc (n + sum_list (map length succ))"

definition postorder_from :: "nat \<Rightarrow> nat \<Rightarrow> nat list list \<Rightarrow> nat list option" where
  "postorder_from n root succ = dfs_loop (dfs_fuel n succ) succ [(root, 0)] ((\<lambda>_. False)(root := True)) []"

definition cfg_postorder :: "cfg \<Rightarrow> nat list option" where
  "cfg_postorder g = (if node_count g = 0 then Some [] else postorder_from (node_count g) (cfg_entry g) (cfg_succ g))"

definition reverse_postorder :: "cfg \<Rightarrow> nat list option" where
  "reverse_postorder g = map_option rev (cfg_postorder g)"

section \<open>Graphs\<close>

definition graph_ok :: "nat \<Rightarrow> nat list list \<Rightarrow> bool" where
  "graph_ok n succ \<longleftrightarrow> length succ = n \<and> (\<forall>u < n. set (succ ! u) \<subseteq> {..<n})"

definition edge :: "nat list list \<Rightarrow> nat \<Rightarrow> nat \<Rightarrow> bool" where
  "edge succ u v \<longleftrightarrow> u < length succ \<and> v \<in> set (succ ! u)"

inductive reachable :: "nat list list \<Rightarrow> nat \<Rightarrow> nat \<Rightarrow> bool" for succ root where
  reachable_root: "reachable succ root root"
| reachable_step: "reachable succ root u \<Longrightarrow> edge succ u v \<Longrightarrow> reachable succ root v"

inductive_cases reachableE: "reachable succ root v"

lemma graph_ok_edge: "graph_ok n succ \<Longrightarrow> edge succ u v \<Longrightarrow> v < n"
  by (auto simp: graph_ok_def edge_def)

lemma reachable_less: "reachable succ root v \<Longrightarrow> graph_ok n succ \<Longrightarrow> root < n \<Longrightarrow> v < n"
  by (induction rule: reachable.induct) (auto dest: graph_ok_edge)

section \<open>Depth-first search\<close>

text \<open>Every element other than the root has a predecessor further right.\<close>

primrec parented :: "nat list list \<Rightarrow> nat \<Rightarrow> nat list \<Rightarrow> bool" where
  "parented succ root [] \<longleftrightarrow> True"
| "parented succ root (x # xs) \<longleftrightarrow> (x = root \<or> (\<exists>q\<in>set xs. edge succ q x)) \<and> parented succ root xs"

lemma parented_insert:
  "parented succ root (xs @ ys) \<Longrightarrow> q \<in> set ys \<Longrightarrow> edge succ q x \<Longrightarrow> parented succ root (xs @ x # ys)"
  by (induction xs) auto

text \<open>The invariant: what is finished and what is on the stack, in the order they will be finished.\<close>

definition dfs_inv :: "nat \<Rightarrow> nat list list \<Rightarrow> nat \<Rightarrow> (nat \<times> nat) list \<Rightarrow> (nat \<Rightarrow> bool) \<Rightarrow> nat list \<Rightarrow> bool" where
  "dfs_inv n succ root stack visited order \<longleftrightarrow>
     (let L = order @ map fst stack in
      distinct L \<and> L \<noteq> [] \<and> last L = root \<and> parented succ root L \<and> (\<forall>v. visited v \<longleftrightarrow> v \<in> set L) \<and> set L \<subseteq> {..<n} \<and>
      (\<forall>v\<in>set L. reachable succ root v) \<and>
      (\<forall>v\<in>set order. set (succ ! v) \<subseteq> set L) \<and> (\<forall>(v, k)\<in>set stack. set (take k (succ ! v)) \<subseteq> set L))"

definition dfs_work :: "nat \<Rightarrow> nat list list \<Rightarrow> (nat \<times> nat) list \<Rightarrow> (nat \<Rightarrow> bool) \<Rightarrow> nat" where
  "dfs_work n succ stack visited =
     sum_list (map (\<lambda>(v, k). Suc (length (succ ! v) - k)) stack) +
     sum (\<lambda>v. Suc (length (succ ! v))) {v. v < n \<and> \<not> visited v}"

lemma dfs_invD:
  assumes "dfs_inv n succ root stack visited order"
  shows "distinct (order @ map fst stack)" and "last (order @ map fst stack) = root" and "order @ map fst stack \<noteq> []"
    and "parented succ root (order @ map fst stack)" and "\<And>v. visited v \<longleftrightarrow> v \<in> set (order @ map fst stack)"
    and "set (order @ map fst stack) \<subseteq> {..<n}" and "\<And>v. v \<in> set (order @ map fst stack) \<Longrightarrow> reachable succ root v"
    and "\<And>v. v \<in> set order \<Longrightarrow> set (succ ! v) \<subseteq> set (order @ map fst stack)"
    and "\<And>v k. (v, k) \<in> set stack \<Longrightarrow> set (take k (succ ! v)) \<subseteq> set (order @ map fst stack)"
  using assms by (auto simp: dfs_inv_def Let_def)

lemma dfs_pop:
  assumes "dfs_inv n succ root ((v, k) # rest) visited order" and "\<not> k < length (succ ! v)"
  shows "dfs_inv n succ root rest visited (order @ [v])"
  using assms by (auto simp: dfs_inv_def Let_def not_less)

lemma dfs_skip:
  assumes "dfs_inv n succ root ((v, k) # rest) visited order" and "k < length (succ ! v)" and "visited (succ ! v ! k)"
  shows "dfs_inv n succ root ((v, Suc k) # rest) visited order"
  using assms by (auto simp: dfs_inv_def Let_def take_Suc_conv_app_nth)

lemma dfs_push:
  assumes g: "graph_ok n succ" and inv: "dfs_inv n succ root ((v, k) # rest) visited order" and k: "k < length (succ ! v)"
    and s: "\<not> visited (succ ! v ! k)"
  shows "dfs_inv n succ root ((succ ! v ! k, 0) # (v, Suc k) # rest) (visited(succ ! v ! k := True)) order"
proof -
  note D = dfs_invD [OF inv]
  let ?s = "succ ! v ! k"
  have "v < length succ" using D(6) g by (simp add: graph_ok_def)
  then have e: "edge succ v ?s" using k by (simp add: edge_def)
  have "parented succ root (order @ ?s # v # map fst rest)"
    using D(4) by (intro parented_insert [OF _ _ e]) simp_all
  moreover have "reachable succ root ?s" using reachable_step [OF D(7) e] by simp
  moreover have "?s < n" using graph_ok_edge [OF g e] .
  ultimately show ?thesis
    using inv k s by (auto simp: dfs_inv_def Let_def take_Suc_conv_app_nth)
qed

lemma dfs_work_push:
  assumes "\<not> visited s" and "s < n" and "k < length (succ ! v)"
  shows "dfs_work n succ ((s, 0) # (v, Suc k) # rest) (visited(s := True)) < dfs_work n succ ((v, k) # rest) visited"
proof -
  have "{u. u < n \<and> \<not> visited u} = insert s {u. u < n \<and> \<not> (visited(s := True)) u}" using assms by auto
  moreover have "sum (\<lambda>u. Suc (length (succ ! u))) (insert s {u. u < n \<and> \<not> (visited(s := True)) u}) =
      Suc (length (succ ! s)) + sum (\<lambda>u. Suc (length (succ ! u))) {u. u < n \<and> \<not> (visited(s := True)) u}"
    by (rule sum.insert) auto
  ultimately show ?thesis using assms(3) by (simp add: dfs_work_def)
qed

lemma dfs_loop_correct:
  assumes g: "graph_ok n succ" and "dfs_inv n succ root stack visited order" and "dfs_work n succ stack visited < fuel"
  shows "\<exists>order' visited'. dfs_loop fuel succ stack visited order = Some order' \<and> dfs_inv n succ root [] visited' order'"
  using assms(2,3)
proof (induction fuel arbitrary: stack visited order)
  case (Suc fuel)
  show ?case
  proof (cases stack)
    case Nil
    then show ?thesis using Suc.prems(1) by auto
  next
    case (Cons f rest)
    obtain v k where f: "f = (v, k)" by (cases f)
    note inv = Suc.prems(1) [unfolded Cons f] and work = Suc.prems(2) [unfolded Cons f]
    consider "\<not> k < length (succ ! v)" | "k < length (succ ! v)" "visited (succ ! v ! k)" | "k < length (succ ! v)" "\<not> visited (succ ! v ! k)"
      by blast
    then show ?thesis
    proof cases
      case 1
      have "dfs_work n succ rest visited < fuel" using work by (simp add: dfs_work_def)
      from Suc.IH [OF dfs_pop [OF inv 1] this] show ?thesis using 1 Cons f by simp
    next
      case 2
      have "dfs_work n succ ((v, Suc k) # rest) visited < fuel" using work 2(1) by (simp add: dfs_work_def)
      from Suc.IH [OF dfs_skip [OF inv 2] this] show ?thesis using 2 Cons f by simp
    next
      case 3
      have "succ ! v ! k < n" using dfs_invD(6) [OF dfs_push [OF g inv 3]] by simp
      then have "dfs_work n succ ((succ ! v ! k, 0) # (v, Suc k) # rest) (visited(succ ! v ! k := True)) < fuel"
        using dfs_work_push [of visited "succ ! v ! k" n k succ v rest] 3 work by simp
      from Suc.IH [OF dfs_push [OF g inv 3] this] show ?thesis using 3 Cons f by (simp add: Let_def fun_upd_def)
    qed
  qed
qed simp

text \<open>What a postorder is: the reachable nodes, once each, the root last, every other node before one of its predecessors.\<close>

definition is_postorder :: "nat list list \<Rightarrow> nat \<Rightarrow> nat list \<Rightarrow> bool" where
  "is_postorder succ root order \<longleftrightarrow> distinct order \<and> order \<noteq> [] \<and> last order = root \<and> parented succ root order \<and>
     (\<forall>v. v \<in> set order \<longleftrightarrow> reachable succ root v)"

lemma postorder_from_correct:
  assumes g: "graph_ok n succ" and r: "root < n"
  shows "\<exists>order. postorder_from n root succ = Some order \<and> is_postorder succ root order"
proof -
  let ?visited = "(\<lambda>_. False)(root := True)"
  have inv: "dfs_inv n succ root [(root, 0)] ?visited []"
    using r by (auto simp: dfs_inv_def Let_def intro: reachable_root)
  have "{v. v < n \<and> \<not> ?visited v} = {..<n} - {root}" by auto
  moreover have "sum (\<lambda>v. Suc (length (succ ! v))) {..<n} = n + sum_list (map length succ)"
    using g sum.distrib [of "\<lambda>_. 1" "\<lambda>v. length (succ ! v)" "{..<n}"]
    by (simp add: graph_ok_def sum_list_sum_nth atLeast0LessThan)
  moreover have "sum (\<lambda>v. Suc (length (succ ! v))) {..<n} = Suc (length (succ ! root)) + sum (\<lambda>v. Suc (length (succ ! v))) ({..<n} - {root})"
    using r by (intro sum.remove) auto
  ultimately have "dfs_work n succ [(root, 0)] ?visited < dfs_fuel n succ"
    by (simp add: dfs_work_def dfs_fuel_def)
  then obtain order visited where o: "postorder_from n root succ = Some order" and inv': "dfs_inv n succ root [] visited order"
    using dfs_loop_correct [OF g inv] unfolding postorder_from_def by blast
  note D = dfs_invD [OF inv', simplified]
  have "v \<in> set order" if "reachable succ root v" for v
    using that
  proof (induction rule: reachable.induct)
    case reachable_root
    then show ?case using D(2,3) last_in_set by metis
  next
    case (reachable_step u v)
    then show ?case using D(8) [of u] by (auto simp: edge_def)
  qed
  then show ?thesis using o D(1-4,7) by (auto simp: is_postorder_def)
qed

section \<open>The graph of a function\<close>

definition dual :: "nat \<Rightarrow> nat list list \<times> nat list list \<Rightarrow> bool" where
  "dual n g \<longleftrightarrow> (case g of (succ, pred) \<Rightarrow> graph_ok n succ \<and> graph_ok n pred \<and>
     (\<forall>u < n. \<forall>v < n. v \<in> set (succ ! u) \<longleftrightarrow> u \<in> set (pred ! v)))"

lemma add_edge_dual:
  assumes "dual n g" and "i < n" and "j < n"
  shows "dual n (add_edge i j g)"
  using assms by (auto simp: dual_def add_edge_def graph_ok_def nth_list_update split: prod.splits if_splits)

lemma fold_invariant_set: "P s \<Longrightarrow> (\<And>x s. x \<in> set xs \<Longrightarrow> P s \<Longrightarrow> P (f x s)) \<Longrightarrow> P (fold f xs s)"
  by (induction xs arbitrary: s) auto

lemma index_blocks_nth: "index_blocks bs b = Some i \<Longrightarrow> i < length bs \<and> bs ! i = b"
proof (induction bs arbitrary: i rule: rev_induct)
  case (snoc x bs)
  have "index_blocks (bs @ [x]) = (index_blocks bs)(x \<mapsto> length bs)"
    by (simp add: index_blocks_def enumerate_append_eq)
  then show ?case using snoc by (fastforce simp: nth_append split: if_splits)
qed (simp add: index_blocks_def)

lemma index_blocks_None: "index_blocks bs b = None \<longleftrightarrow> b \<notin> set bs"
proof (induction bs rule: rev_induct)
  case (snoc x bs)
  have "index_blocks (bs @ [x]) = (index_blocks bs)(x \<mapsto> length bs)"
    by (simp add: index_blocks_def enumerate_append_eq)
  then show ?case using snoc by simp
qed (simp add: index_blocks_def)

lemma add_block_edges_dual:
  assumes "dual n g" and "i < n" and "\<And>t j. index t = Some j \<Longrightarrow> j < n"
  shows "dual n (add_block_edges index (i, b) g)"
  unfolding add_block_edges_def prod.case
  by (rule fold_invariant_set [of "dual n"]) (use assms in \<open>auto intro: add_edge_dual split: option.splits\<close>)

lemma add_block_edges_succ:
  assumes "i < length (fst g)"
  shows "fst (add_block_edges index (i, b) g) = (fst g)[i := fst g ! i @ List.map_filter index (block_successors b)]"
proof -
  have "fst (fold (\<lambda>t g. case index t of Some j \<Rightarrow> add_edge i j g | None \<Rightarrow> g) ts g) =
      (fst g)[i := fst g ! i @ List.map_filter index ts]" if "i < length (fst g)" for ts g
    using that
  proof (induction ts arbitrary: g)
    case (Cons t ts)
    then show ?case
      by (cases "index t"; cases g) (simp_all add: add_edge_def map_filter_simps)
  qed (simp add: map_filter_simps)
  then show ?thesis using assms by (simp add: add_block_edges_def)
qed

lemma all_edges:
  assumes "\<And>t j. index t = Some j \<Longrightarrow> j < n" and "length bs \<le> n"
  shows "dual n (fold (add_block_edges index) (enumerate 0 bs) (replicate n [], replicate n [])) \<and>
    fst (fold (add_block_edges index) (enumerate 0 bs) (replicate n [], replicate n [])) =
      map (\<lambda>b. List.map_filter index (block_successors b)) bs @ replicate (n - length bs) []"
  using assms(2)
proof (induction bs rule: rev_induct)
  case Nil
  then show ?case by (simp add: dual_def graph_ok_def)
next
  case (snoc b bs)
  let ?g = "fold (add_block_edges index) (enumerate 0 bs) (replicate n [], replicate n [])"
  have IH: "dual n ?g" "fst ?g = map (\<lambda>b. List.map_filter index (block_successors b)) bs @ replicate (n - length bs) []"
    using snoc by auto
  have f: "fold (add_block_edges index) (enumerate 0 (bs @ [b])) (replicate n [], replicate n []) = add_block_edges index (length bs, b) ?g"
    by (simp add: enumerate_append_eq)
  obtain m where m: "n - length bs = Suc m" "n - length (bs @ [b]) = m" using snoc.prems by (cases "n - length bs") auto
  have "fst (add_block_edges index (length bs, b) ?g) =
      map (\<lambda>b. List.map_filter index (block_successors b)) (bs @ [b]) @ replicate (n - length (bs @ [b])) []"
    unfolding m using m(1) by (subst add_block_edges_succ) (simp_all add: IH(2) nth_append list_update_append)
  then show ?case unfolding f using add_block_edges_dual [OF IH(1) _ assms(1)] snoc.prems by simp
qed

text \<open>The graph built from a function is well formed, and its lists are exactly the resolved terminator targets.\<close>

definition cfg_ok :: "cfg \<Rightarrow> bool" where
  "cfg_ok g \<longleftrightarrow> dual (node_count g) (cfg_succ g, cfg_pred g) \<and> (node_count g > 0 \<longrightarrow> cfg_entry g < node_count g)"

lemma from_function_correct:
  shows "cfg_ok (from_function f)" and "node_count (from_function f) = length (f_blocks f)"
    and "cfg_succ (from_function f) =
      map (\<lambda>b. List.map_filter (index_blocks (map b_id (f_blocks f))) (block_successors b)) (f_blocks f)"
proof -
  let ?index = "index_blocks (map b_id (f_blocks f))" and ?n = "length (f_blocks f)"
  have i: "\<And>t j. ?index t = Some j \<Longrightarrow> j < ?n" using index_blocks_nth [of "map b_id (f_blocks f)"] by simp
  define E where "E = fold (add_block_edges ?index) (enumerate 0 (f_blocks f)) (replicate ?n [], replicate ?n [])"
  have A: "dual ?n E" "fst E = map (\<lambda>b. List.map_filter ?index (block_successors b)) (f_blocks f)"
    using all_edges [of ?index ?n "f_blocks f"] i unfolding E_def by auto
  have g: "cfg_succ (from_function f) = fst E" "cfg_pred (from_function f) = snd E"
    "cfg_entry (from_function f) = (case ?index (f_entry f) of Some i \<Rightarrow> i | None \<Rightarrow> 0)"
    by (simp_all add: from_function_def E_def Let_def split: prod.splits)
  show n: "node_count (from_function f) = ?n"
    by (simp add: from_function_def node_count_def Let_def split: prod.splits)
  show "cfg_ok (from_function f)" unfolding cfg_ok_def n g using A(1) i by (auto split: option.splits)
  show "cfg_succ (from_function f) = map (\<lambda>b. List.map_filter ?index (block_successors b)) (f_blocks f)"
    unfolding g by (rule A(2))
qed

lemma parented_nth:
  "parented succ root xs \<Longrightarrow> i < length xs \<Longrightarrow> xs ! i \<noteq> root \<Longrightarrow> \<exists>j. i < j \<and> j < length xs \<and> edge succ (xs ! j) (xs ! i)"
proof (induction xs arbitrary: i)
  case (Cons x xs)
  show ?case
  proof (cases i)
    case 0
    then obtain q where "q \<in> set xs" "edge succ q x" using Cons.prems by auto
    then obtain j where "j < length xs" "edge succ (xs ! j) x" by (auto simp: in_set_conv_nth)
    then show ?thesis using 0 by (intro exI [of _ "Suc j"]) simp
  next
    case (Suc i')
    then obtain j where "i' < j" "j < length xs" "edge succ (xs ! j) (xs ! i')" using Cons by auto
    then show ?thesis using Suc by (intro exI [of _ "Suc j"]) simp
  qed
qed simp

lemma in_map_filter: "v \<in> set (List.map_filter f xs) \<longleftrightarrow> (\<exists>x\<in>set xs. f x = Some v)"
  by (induction xs) (auto simp: List.map_filter_simps split: option.splits)

lemma from_function_graph: "graph_ok (length (f_blocks f)) (cfg_succ (from_function f))"
  using from_function_correct(1,2) [of f] by (simp add: cfg_ok_def dual_def)

text \<open>
  The control-flow graph of a function has an edge exactly for each terminator target that names an existing
  block (targets that do not exist are dropped, nothing is out of range), and the predecessor lists are the exact reverse of the
  successor lists.
\<close>

theorem cfg_edges_exact:
  assumes "u < length (f_blocks f)"
  shows "(v \<in> set (cfg_successors (from_function f) u) \<longleftrightarrow>
      (\<exists>t\<in>set (block_successors (f_blocks f ! u)). index_blocks (map b_id (f_blocks f)) t = Some v)) \<and>
    (\<forall>w < length (f_blocks f). w \<in> set (cfg_successors (from_function f) u) \<longleftrightarrow> u \<in> set (cfg_predecessors (from_function f) w)) \<and>
    set (cfg_successors (from_function f) u) \<subseteq> {..<length (f_blocks f)}"
  using assms from_function_correct [of f] from_function_graph [of f]
  by (auto simp: cfg_successors_def cfg_predecessors_def cfg_ok_def dual_def graph_ok_def in_map_filter)

text \<open>
  Property C21. The iterative depth-first search returns for every function with at least one block, and yields a reverse postorder of the
  reachable nodes: the entry comes first, each reachable node appears exactly once, and every other node appears after one
  of its predecessors.
\<close>

theorem reverse_postorder_correct:
  assumes "f_blocks f \<noteq> []"
  shows "\<exists>order. reverse_postorder (from_function f) = Some order \<and> distinct order \<and> hd order = cfg_entry (from_function f) \<and>
    set order = {v. reachable (cfg_succ (from_function f)) (cfg_entry (from_function f)) v} \<and>
    (\<forall>i < length order. 0 < i \<longrightarrow> (\<exists>j < i. edge (cfg_succ (from_function f)) (order ! j) (order ! i)))"
proof -
  let ?g = "from_function f"
  have n: "node_count ?g = length (f_blocks f)" "cfg_entry ?g < node_count ?g"
    using from_function_correct(1,2) [of f] assms by (auto simp: cfg_ok_def)
  obtain po where po: "cfg_postorder ?g = Some po" "is_postorder (cfg_succ ?g) (cfg_entry ?g) po"
    using postorder_from_correct [OF from_function_graph, of "cfg_entry ?g" f] n assms by (auto simp: cfg_postorder_def)
  have P: "distinct po" "po \<noteq> []" "last po = cfg_entry ?g" "parented (cfg_succ ?g) (cfg_entry ?g) po"
    "\<And>v. v \<in> set po \<longleftrightarrow> reachable (cfg_succ ?g) (cfg_entry ?g) v"
    using po(2) by (auto simp: is_postorder_def)
  have "\<exists>j < i. edge (cfg_succ ?g) (rev po ! j) (rev po ! i)" if i: "i < length po" "0 < i" for i
  proof -
    let ?k = "length po - Suc i"
    have k: "?k < length po" using i by simp
    have "po ! ?k \<noteq> last po" using i P(1,2) by (simp add: last_conv_nth nth_eq_iff_index_eq)
    then obtain j where "?k < j" "j < length po" "edge (cfg_succ ?g) (po ! j) (po ! ?k)"
      using parented_nth [OF P(4) k] P(3) by auto
    then show ?thesis using i by (intro exI [of _ "length po - Suc j"]) (auto simp: rev_nth)
  qed
  then show ?thesis using po(1) P by (simp add: reverse_postorder_def hd_rev set_eq_iff)
qed

definition sample_function :: ir_function where
  "sample_function = \<lparr>f_id = 0, f_name = ''f'', f_params = [], f_ret_ty = TyUnit,
     f_blocks = [block_new 10 (CondBr (OpReg 0) 11 [] 12 []), block_new 11 (Br 10 []), block_new 12 (Return None)], f_entry = 10\<rparr>"

lemma sample_function_length: "length (f_blocks sample_function) = 3"
  by (simp add: sample_function_def)

theorem cfg_edges_exact_witness: "set (cfg_successors (from_function sample_function) 0) \<subseteq> {..<3}"
  using cfg_edges_exact [of 0 sample_function] by (simp add: sample_function_length)

theorem reverse_postorder_correct_witness:
  "\<exists>order. reverse_postorder (from_function sample_function) = Some order \<and> hd order = cfg_entry (from_function sample_function)"
  using reverse_postorder_correct [of sample_function] by (auto simp: sample_function_def)

end
