(* ===== verification/Cfg_Dominators.thy ===== *)
theory Cfg_Dominators
  imports Cfg_Graph
begin

text \<open>
  Dominator and post-dominator trees, \<open>crates/cfg/src/dominators.rs\<close> (Cooper, Harvey and Kennedy). The vector of immediate
  dominators is a partial map on node indices. The loops of the source carry fuel; a result \<open>None\<close> would be an
  exhausted loop or one of the two \<open>expect\<close>s of \<open>intersect\<close>, and the lemmas of the locale \<open>flow_graph\<close> show that it never arises.
\<close>

section \<open>The algorithm\<close>

type_synonym idom = "nat \<Rightarrow> nat option"

definition USIZE_MAX :: nat where
  "USIZE_MAX = 2 ^ 64 - 1"

definition post_num :: "nat list \<Rightarrow> nat \<Rightarrow> nat" where
  "post_num post = fold (\<lambda>(i, node) m. m(node := i)) (enumerate 0 post) (\<lambda>_. USIZE_MAX)"

primrec climb :: "nat \<Rightarrow> idom \<Rightarrow> (nat \<Rightarrow> nat) \<Rightarrow> nat \<Rightarrow> nat \<Rightarrow> nat option" where
  "climb 0 idom pn a bound = None"
| "climb (Suc fuel) idom pn a bound =
     (if pn a < bound then (case idom a of None \<Rightarrow> None | Some i \<Rightarrow> climb fuel idom pn i bound) else Some a)"

primrec intersect_loop :: "nat \<Rightarrow> nat \<Rightarrow> idom \<Rightarrow> (nat \<Rightarrow> nat) \<Rightarrow> nat \<Rightarrow> nat \<Rightarrow> nat option" where
  "intersect_loop 0 n idom pn a b = None"
| "intersect_loop (Suc fuel) n idom pn a b =
     (if a = b then Some a
      else case climb (Suc n) idom pn a (pn b) of
        None \<Rightarrow> None
      | Some a' \<Rightarrow> (case climb (Suc n) idom pn b (pn a') of
          None \<Rightarrow> None
        | Some b' \<Rightarrow> intersect_loop fuel n idom pn a' b'))"

definition intersect :: "nat \<Rightarrow> idom \<Rightarrow> (nat \<Rightarrow> nat) \<Rightarrow> nat \<Rightarrow> nat \<Rightarrow> nat option" where
  "intersect n idom pn a b = intersect_loop (Suc (n + n)) n idom pn a b"

primrec merge_preds :: "nat \<Rightarrow> idom \<Rightarrow> (nat \<Rightarrow> nat) \<Rightarrow> nat list \<Rightarrow> nat option \<Rightarrow> nat option option" where
  "merge_preds n idom pn [] new = Some new"
| "merge_preds n idom pn (p # ps) new =
     (if idom p \<noteq> None
      then (case new of
          None \<Rightarrow> merge_preds n idom pn ps (Some p)
        | Some cur \<Rightarrow> (case intersect n idom pn p cur of
            None \<Rightarrow> None
          | Some i \<Rightarrow> merge_preds n idom pn ps (Some i)))
      else merge_preds n idom pn ps new)"

primrec dom_pass :: "nat \<Rightarrow> nat \<Rightarrow> nat list list \<Rightarrow> (nat \<Rightarrow> nat) \<Rightarrow> nat list \<Rightarrow> idom \<Rightarrow> bool \<Rightarrow> (idom \<times> bool) option" where
  "dom_pass n root pred pn [] idom changed = Some (idom, changed)"
| "dom_pass n root pred pn (b # bs) idom changed =
     (if b = root then dom_pass n root pred pn bs idom changed
      else case merge_preds n idom pn (pred ! b) None of
        None \<Rightarrow> None
      | Some None \<Rightarrow> dom_pass n root pred pn bs idom changed
      | Some (Some ni) \<Rightarrow>
          (if idom b \<noteq> Some ni then dom_pass n root pred pn bs (idom(b \<mapsto> ni)) True
           else dom_pass n root pred pn bs idom changed))"

primrec dom_iter :: "nat \<Rightarrow> nat \<Rightarrow> nat \<Rightarrow> nat list list \<Rightarrow> (nat \<Rightarrow> nat) \<Rightarrow> nat list \<Rightarrow> idom \<Rightarrow> idom option" where
  "dom_iter 0 n root pred pn rpo idom = None"
| "dom_iter (Suc fuel) n root pred pn rpo idom =
     (case dom_pass n root pred pn rpo idom False of
        None \<Rightarrow> None
      | Some (idom', changed) \<Rightarrow> (if changed then dom_iter fuel n root pred pn rpo idom' else Some idom'))"

definition dom_build :: "nat \<Rightarrow> nat \<Rightarrow> nat list list \<Rightarrow> nat list list \<Rightarrow> idom option" where
  "dom_build n root succ pred =
     (if n = 0 then Some (\<lambda>_. None)
      else case postorder_from n root succ of
        None \<Rightarrow> None
      | Some post \<Rightarrow> dom_iter (Suc (Suc (n * n))) n root pred (post_num post) (rev post) ((\<lambda>_. None)(root \<mapsto> root)))"

primrec dom_walk :: "nat \<Rightarrow> idom \<Rightarrow> nat \<Rightarrow> nat \<Rightarrow> bool option" where
  "dom_walk 0 idom a x = None"
| "dom_walk (Suc fuel) idom a x =
     (if x = a then Some True
      else case idom x of
        Some i \<Rightarrow> (if i \<noteq> x then dom_walk fuel idom a i else Some False)
      | None \<Rightarrow> Some False)"

definition tree_dominates :: "nat \<Rightarrow> idom \<Rightarrow> nat \<Rightarrow> nat \<Rightarrow> bool option" where
  "tree_dominates n idom a b = (if idom b = None then Some False else dom_walk (Suc n) idom a b)"

section \<open>Dominance\<close>

inductive avoiding :: "nat list list \<Rightarrow> nat \<Rightarrow> nat \<Rightarrow> nat \<Rightarrow> bool" for succ root a where
  avoiding_root: "root \<noteq> a \<Longrightarrow> avoiding succ root a root"
| avoiding_step: "avoiding succ root a u \<Longrightarrow> edge succ u v \<Longrightarrow> v \<noteq> a \<Longrightarrow> avoiding succ root a v"

text \<open>The reference: every path from the root to \<open>b\<close> goes through \<open>a\<close>, and there is one.\<close>

definition dominator :: "nat list list \<Rightarrow> nat \<Rightarrow> nat \<Rightarrow> nat \<Rightarrow> bool" where
  "dominator succ root a b \<longleftrightarrow> reachable succ root b \<and> \<not> avoiding succ root a b"

text \<open>The nodes on the chain of immediate dominators of a node.\<close>

definition chain :: "idom \<Rightarrow> nat \<Rightarrow> nat set" where
  "chain idom x = {y. (\<lambda>u v. idom u = Some v)\<^sup>*\<^sup>* x y}"

lemma chain_refl: "x \<in> chain idom x"
  by (simp add: chain_def)

lemma chain_step: "idom x = Some i \<Longrightarrow> chain idom x = insert x (chain idom i)"
  unfolding chain_def by (auto intro: converse_rtranclp_into_rtranclp elim: converse_rtranclpE)

lemma chain_none: "idom x = None \<Longrightarrow> chain idom x = {x}"
  unfolding chain_def by (auto elim: converse_rtranclpE)

lemma chain_loop: "idom x = Some x \<Longrightarrow> chain idom x = {x}"
proof -
  assume i: "idom x = Some x"
  have "y = x" if "(\<lambda>u v. idom u = Some v)\<^sup>*\<^sup>* x y" for y using that by induction (use i in auto)
  then show ?thesis by (auto simp: chain_def)
qed

lemma chain_trans: "y \<in> chain idom x \<Longrightarrow> chain idom y \<subseteq> chain idom x"
  by (auto simp: chain_def)

section \<open>Ranked trees\<close>

text \<open>
  The laws of a postorder numbering the finger walk relies on: nodes have distinct numbers and the root has the greatest.
\<close>

definition tree_ok :: "nat set \<Rightarrow> (nat \<Rightarrow> nat) \<Rightarrow> nat \<Rightarrow> idom \<Rightarrow> bool" where
  "tree_ok R pn root idom \<longleftrightarrow> idom root = Some root \<and>
     (\<forall>x i. idom x = Some i \<longrightarrow> x \<noteq> root \<longrightarrow> x \<in> R \<and> idom i \<noteq> None \<and> pn x < pn i)"

locale ranking =
  fixes R :: "nat set" and pn :: "nat \<Rightarrow> nat" and root :: nat
  assumes pn_inj: "inj_on pn R" and root_in: "root \<in> R" and pn_top: "x \<in> R \<Longrightarrow> pn x \<le> pn root"
begin

lemma tree_root: "tree_ok R pn root idom \<Longrightarrow> idom root = Some root"
  by (simp add: tree_ok_def)

lemma tree_parent: "tree_ok R pn root idom \<Longrightarrow> idom x = Some i \<Longrightarrow> x \<noteq> root \<Longrightarrow> x \<in> R \<and> i \<in> R \<and> idom i \<noteq> None \<and> pn x < pn i"
  using root_in by (cases "i = root") (auto simp: tree_ok_def)

lemma tree_in: "tree_ok R pn root idom \<Longrightarrow> idom x \<noteq> None \<Longrightarrow> x \<in> R"
  using root_in tree_parent by (cases "x = root") auto

lemma tree_induct [consumes 2, case_names root step]:
  assumes t: "tree_ok R pn root idom" and d: "idom x \<noteq> None"
    and r: "P root" and s: "\<And>x i. idom x = Some i \<Longrightarrow> x \<noteq> root \<Longrightarrow> x \<in> R \<Longrightarrow> i \<in> R \<Longrightarrow> idom i \<noteq> None \<Longrightarrow> pn x < pn i \<Longrightarrow> P i \<Longrightarrow> P x"
  shows "P x"
  using d
proof (induction "pn root - pn x" arbitrary: x rule: less_induct)
  case less
  show ?case
  proof (cases "x = root")
    case False
    obtain i where i: "idom x = Some i" using less.prems by auto
    note p = tree_parent [OF t i False]
    have "P i" using less.hyps [of i] p pn_top [of i] by fastforce
    then show ?thesis using s [OF i False] p by blast
  qed (simp add: r)
qed

lemma chain_root: "tree_ok R pn root idom \<Longrightarrow> chain idom root = {root}"
  by (simp add: tree_root chain_loop)

lemma chain_above:
  assumes "tree_ok R pn root idom" and "idom x \<noteq> None"
  shows "\<forall>y\<in>chain idom x. y \<in> R \<and> idom y \<noteq> None \<and> pn x \<le> pn y"
  using assms
proof (induction rule: tree_induct)
  case root
  then show ?case using assms(1) by (simp add: chain_root root_in tree_root)
next
  case (step x i)
  then show ?case by (fastforce simp: chain_step)
qed

lemma chain_same: "tree_ok R pn root idom \<Longrightarrow> idom x \<noteq> None \<Longrightarrow> y \<in> chain idom x \<Longrightarrow> pn y \<le> pn x \<Longrightarrow> y = x"
  using chain_above tree_in pn_inj by (metis inj_onD le_antisym)

lemma chain_inj:
  assumes t: "tree_ok R pn root idom" and "idom x \<noteq> None" "idom y \<noteq> None" "chain idom x = chain idom y"
  shows "x = y"
  using chain_above [OF t assms(2)] chain_above [OF t assms(3)] chain_same [OF t assms(2), of y] chain_refl [of x idom] chain_refl [of y idom] assms(4)
  by blast

lemma tree_update:
  assumes t: "tree_ok R pn root idom" and "z \<in> R" "z \<noteq> root" "idom r \<noteq> None" "pn z < pn r"
  shows "tree_ok R pn root (idom(z \<mapsto> r))"
  using assms by (auto simp: tree_ok_def)

text \<open>What redirecting one node does to the chain of every node: what lies above it is replaced.\<close>

lemma chain_update:
  assumes t: "tree_ok R pn root idom" and z: "z \<in> R" "z \<noteq> root" and r: "idom r \<noteq> None" "pn z < pn r"
    and x: "(idom(z \<mapsto> r)) x \<noteq> None"
  shows "chain (idom(z \<mapsto> r)) x = (if z \<in> chain idom x then {y \<in> chain idom x. pn y \<le> pn z} \<union> chain idom r else chain idom x)"
  using tree_update [OF t z r] x
proof (induction rule: tree_induct)
  case root
  then show ?case using chain_root [OF t] z(2) tree_root [OF t] by (simp add: chain_loop)
next
  case (step x i)
  have c: "chain (idom(z \<mapsto> r)) x = insert x (chain (idom(z \<mapsto> r)) i)"
    by (rule chain_step) (rule step.hyps(1))
  have zr: "z \<notin> chain idom r" using chain_above [OF t r(1)] r(2) by fastforce
  show ?case
  proof (cases "x = z")
    case True
    then have i: "i = r" using step by simp
    have "{y \<in> chain idom z. pn y \<le> pn z} = {z}"
    proof (cases "idom z")
      case None
      then show ?thesis by (auto simp: chain_none)
    next
      case (Some j)
      then show ?thesis using chain_same [OF t, of z] chain_refl [of z idom] by auto
    qed
    then show ?thesis using True i step.IH zr c by (simp add: chain_refl fun_upd_def)
  next
    case False
    then have i: "idom x = Some i" using step by simp
    have "pn x \<le> pn z" if "z \<in> chain idom x" using chain_above [OF t, of x] i that by auto
    then show ?thesis using False step.IH c chain_step [where idom = idom, OF i] by (auto simp: fun_upd_def)
  qed
qed

lemma climb_correct:
  assumes t: "tree_ok R pn root idom" and "idom a \<noteq> None" "bound \<le> pn root" "pn root - pn a < fuel"
  shows "\<exists>a'. climb fuel idom pn a bound = Some a' \<and> idom a' \<noteq> None \<and> bound \<le> pn a' \<and> pn a \<le> pn a' \<and>
    chain idom a' = {y \<in> chain idom a. bound \<le> pn y} \<and> (pn a < bound \<longrightarrow> pn a < pn a')"
  using assms(2-)
proof (induction fuel arbitrary: a)
  case (Suc fuel)
  show ?case
  proof (cases "pn a < bound")
    case True
    then have "a \<noteq> root" using Suc.prems by auto
    moreover obtain i where i: "idom a = Some i" using Suc.prems by auto
    ultimately have p: "i \<in> R" "idom i \<noteq> None" "pn a < pn i" using tree_parent [OF t] by blast+
    then have "pn root - pn i < fuel" using pn_top [OF p(1)] Suc.prems(3) by linarith
    from Suc.IH [OF p(2) Suc.prems(2) this] obtain a' where
      "climb fuel idom pn i bound = Some a'" "idom a' \<noteq> None" "bound \<le> pn a'" "pn i \<le> pn a'"
      "chain idom a' = {y \<in> chain idom i. bound \<le> pn y}" by blast
    moreover have "{y \<in> chain idom a. bound \<le> pn y} = {y \<in> chain idom i. bound \<le> pn y}"
      using True unfolding chain_step [where idom = idom, OF i] by auto
    moreover have "climb (Suc fuel) idom pn a bound = climb fuel idom pn i bound" using True i by simp
    ultimately show ?thesis using p(3) by (intro exI [of _ a']) simp
  next
    case False
    have "chain idom a = {y \<in> chain idom a. bound \<le> pn y}" using chain_above [OF t Suc.prems(1)] False by fastforce
    then show ?thesis using False Suc.prems by auto
  qed
qed simp

lemma intersect_loop_correct:
  assumes t: "tree_ok R pn root idom" and n: "pn root \<le> n"
    and "idom a \<noteq> None" "idom b \<noteq> None" "(pn root - pn a) + (pn root - pn b) < fuel"
  shows "\<exists>r. intersect_loop fuel n idom pn a b = Some r \<and> idom r \<noteq> None \<and> chain idom r = chain idom a \<inter> chain idom b"
  using assms(3-)
proof (induction fuel arbitrary: a b)
  case (Suc fuel)
  show ?case
  proof (cases "a = b")
    case False
    have enough: "pn root - pn x < Suc n" for x using n by simp
    have R: "a \<in> R" "b \<in> R" using tree_in [OF t] Suc.prems by auto
    then have ne: "pn a \<noteq> pn b" using False pn_inj by (auto dest: inj_onD)
    obtain a' where a': "climb (Suc n) idom pn a (pn b) = Some a'" "idom a' \<noteq> None" "pn b \<le> pn a'" "pn a \<le> pn a'"
        "chain idom a' = {y \<in> chain idom a. pn b \<le> pn y}" "pn a < pn b \<longrightarrow> pn a < pn a'"
      using climb_correct [OF t Suc.prems(1) pn_top [OF R(2)] enough] by blast
    have R': "a' \<in> R" using tree_in [OF t a'(2)] .
    obtain b' where b': "climb (Suc n) idom pn b (pn a') = Some b'" "idom b' \<noteq> None" "pn a' \<le> pn b'" "pn b \<le> pn b'"
        "chain idom b' = {y \<in> chain idom b. pn a' \<le> pn y}" "pn b < pn a' \<longrightarrow> pn b < pn b'"
      using climb_correct [OF t Suc.prems(2) pn_top [OF R'] enough] by blast
    have "b' \<in> R" using tree_in [OF t b'(2)] .
    then have "(pn root - pn a') + (pn root - pn b') < fuel"
      using Suc.prems(3) ne a'(4,6) b'(3,4,6) pn_top [OF R'] pn_top [of b'] by linarith
    from Suc.IH [OF a'(2) b'(2) this] obtain r where r: "intersect_loop fuel n idom pn a' b' = Some r" "idom r \<noteq> None"
      "chain idom r = chain idom a' \<inter> chain idom b'" by blast
    have "chain idom a' \<inter> chain idom b' = chain idom a \<inter> chain idom b"
      using a'(5) b'(5) chain_above [OF t a'(2)] chain_above [OF t Suc.prems(2)] by fastforce
    then show ?thesis using False a'(1) b'(1) r by (simp del: climb.simps)
  qed (use Suc.prems in simp)
qed simp

lemma intersect_correct:
  assumes t: "tree_ok R pn root idom" and n: "pn root < n" and "idom a \<noteq> None" "idom b \<noteq> None"
  shows "\<exists>r. intersect n idom pn a b = Some r \<and> idom r \<noteq> None \<and> chain idom r = chain idom a \<inter> chain idom b"
  unfolding intersect_def using n by (intro intersect_loop_correct [OF t _ assms(3,4)]) auto

lemma merge_preds_correct:
  assumes t: "tree_ok R pn root idom" and n: "pn root < n" and "\<And>c. new = Some c \<Longrightarrow> idom c \<noteq> None"
  shows "\<exists>new'. merge_preds n idom pn ps new = Some new' \<and> (new' = None \<longleftrightarrow> new = None \<and> (\<forall>p\<in>set ps. idom p = None)) \<and>
    (\<forall>r. new' = Some r \<longrightarrow> idom r \<noteq> None \<and>
       chain idom r = (\<Inter>p\<in>{p \<in> set ps. idom p \<noteq> None}. chain idom p) \<inter> (case new of None \<Rightarrow> UNIV | Some c \<Rightarrow> chain idom c))"
  using assms(3)
proof (induction ps arbitrary: new)
  case (Cons p ps)
  show ?case
  proof (cases "idom p")
    case None
    then have "{q \<in> set (p # ps). idom q \<noteq> None} = {q \<in> set ps. idom q \<noteq> None}" by auto
    then show ?thesis using None Cons.IH [OF Cons.prems] by simp
  next
    case (Some j)
    then have p: "idom p \<noteq> None" and e: "{q \<in> set (p # ps). idom q \<noteq> None} = insert p {q \<in> set ps. idom q \<noteq> None}" by auto
    show ?thesis
    proof (cases new)
      case None
      then show ?thesis using Cons.IH [of "Some p"] p unfolding e by (auto simp: Int_ac)
    next
      case (Some c)
      obtain i where i: "intersect n idom pn p c = Some i" "idom i \<noteq> None" "chain idom i = chain idom p \<inter> chain idom c"
        using intersect_correct [OF t n p] Cons.prems Some by blast
      then show ?thesis using Cons.IH [of "Some i"] p Some unfolding e by (auto simp: Int_ac)
    qed
  qed
qed (auto split: option.splits)

lemma dom_walk_correct:
  assumes t: "tree_ok R pn root idom" and "idom x \<noteq> None"
  shows "pn root - pn x < fuel \<Longrightarrow> dom_walk fuel idom a x = Some (a \<in> chain idom x)"
  using assms
proof (induction arbitrary: fuel rule: tree_induct)
  case root
  then show ?case using t by (cases fuel) (auto simp: tree_root chain_root)
next
  case (step x i)
  obtain f where f: "fuel = Suc f" using step.prems by (cases fuel) auto
  have "pn root - pn i < f" using step f pn_top [of i] by linarith
  then have "dom_walk f idom a i = Some (a \<in> chain idom i)" by (rule step.IH)
  moreover have "i \<noteq> x" using step by auto
  ultimately show ?case using step.hyps(1) unfolding f chain_step [where idom = idom, OF step.hyps(1)] by simp
qed

lemma tree_dominates_correct:
  assumes "tree_ok R pn root idom" and "pn root < n"
  shows "tree_dominates n idom a b = Some (idom b \<noteq> None \<and> a \<in> chain idom b)"
  using dom_walk_correct [OF assms(1), of b "Suc n" a] assms(2) by (simp add: tree_dominates_def del: dom_walk.simps)

end

section \<open>The fixpoint iteration\<close>

lemma avoiding_ne: "avoiding succ root a v \<Longrightarrow> v \<noteq> a"
  by (induction rule: avoiding.induct) auto

lemma dominator_pred: "dominator succ root a x \<Longrightarrow> reachable succ root q \<Longrightarrow> edge succ q x \<Longrightarrow> a = x \<or> dominator succ root a q"
  by (auto simp: dominator_def intro: avoiding_step)

text \<open>
  The invariant of a pass in which the nodes numbered \<open>c\<close> and above have been visited. The two inclusions between chains are
  what makes every update move up the old chain; the last two keep every true dominator.
\<close>

definition dom_inv :: "nat set \<Rightarrow> (nat \<Rightarrow> nat) \<Rightarrow> nat \<Rightarrow> nat list list \<Rightarrow> (nat \<Rightarrow> nat \<Rightarrow> bool) \<Rightarrow> idom \<Rightarrow> nat \<Rightarrow> bool" where
  "dom_inv R pn root pred dm idom c \<longleftrightarrow> tree_ok R pn root idom \<and>
     (\<forall>x y. idom x \<noteq> None \<longrightarrow> y \<in> R \<longrightarrow> pn x \<le> pn y \<longrightarrow> idom y \<noteq> None) \<and> (\<forall>x\<in>R. c \<le> pn x \<longrightarrow> idom x \<noteq> None) \<and>
     (\<forall>b i. b \<noteq> root \<longrightarrow> idom b = Some i \<longrightarrow> (\<Inter>p\<in>{p \<in> set (pred ! b). idom p \<noteq> None}. chain idom p) \<subseteq> chain idom i) \<and>
     (\<forall>b i q. b \<noteq> root \<longrightarrow> idom b = Some i \<longrightarrow> q \<in> set (pred ! b) \<longrightarrow> q \<in> R \<longrightarrow> pn b < pn q \<longrightarrow>
        {x \<in> chain idom i. c \<le> pn b \<or> pn x < c} \<subseteq> chain idom q) \<and>
     (\<forall>x w a. idom x \<noteq> None \<longrightarrow> w \<in> chain idom x \<longrightarrow> dm a x \<longrightarrow> pn w < pn a \<longrightarrow> dm a w) \<and>
     (\<forall>x a. idom x \<noteq> None \<longrightarrow> dm a x \<longrightarrow> a \<in> chain idom x)"

lemma dom_invD:
  assumes "dom_inv R pn root pred dm idom c"
  shows "tree_ok R pn root idom"
    and "\<And>x y. idom x \<noteq> None \<Longrightarrow> y \<in> R \<Longrightarrow> pn x \<le> pn y \<Longrightarrow> idom y \<noteq> None"
    and "\<And>x. x \<in> R \<Longrightarrow> c \<le> pn x \<Longrightarrow> idom x \<noteq> None"
    and "\<And>b i. b \<noteq> root \<Longrightarrow> idom b = Some i \<Longrightarrow> (\<Inter>p\<in>{p \<in> set (pred ! b). idom p \<noteq> None}. chain idom p) \<subseteq> chain idom i"
    and "\<And>b i q x. b \<noteq> root \<Longrightarrow> idom b = Some i \<Longrightarrow> q \<in> set (pred ! b) \<Longrightarrow> q \<in> R \<Longrightarrow> pn b < pn q \<Longrightarrow> x \<in> chain idom i \<Longrightarrow>
      c \<le> pn b \<or> pn x < c \<Longrightarrow> x \<in> chain idom q"
    and "\<And>x w a. idom x \<noteq> None \<Longrightarrow> w \<in> chain idom x \<Longrightarrow> dm a x \<Longrightarrow> pn w < pn a \<Longrightarrow> dm a w"
    and "\<And>x a. idom x \<noteq> None \<Longrightarrow> dm a x \<Longrightarrow> a \<in> chain idom x"
proof -
  note inv = assms [unfolded dom_inv_def]
  show "tree_ok R pn root idom" using inv by blast
  show "idom y \<noteq> None" if "idom x \<noteq> None" "y \<in> R" "pn x \<le> pn y" for x y using inv that by blast
  show "idom x \<noteq> None" if "x \<in> R" "c \<le> pn x" for x using inv that by blast
  show "(\<Inter>p\<in>{p \<in> set (pred ! b). idom p \<noteq> None}. chain idom p) \<subseteq> chain idom i" if "b \<noteq> root" "idom b = Some i" for b i
    using inv that by blast
  show "x \<in> chain idom q" if "b \<noteq> root" "idom b = Some i" "q \<in> set (pred ! b)" "q \<in> R" "pn b < pn q" "x \<in> chain idom i"
    "c \<le> pn b \<or> pn x < c" for b i q x using inv that by blast
  show "dm a w" if "idom x \<noteq> None" "w \<in> chain idom x" "dm a x" "pn w < pn a" for x w a using inv that by blast
  show "a \<in> chain idom x" if "idom x \<noteq> None" "dm a x" for x a using inv that by blast
qed

text \<open>
  The laws of a numbered flow graph: every node but the root has a predecessor with a greater number, and dominators are
  inherited from predecessors.
\<close>

locale ranked_flow = ranking R pn root for R pn root +
  fixes pred :: "nat list list" and dm :: "nat \<Rightarrow> nat \<Rightarrow> bool"
  assumes earlier_pred: "x \<in> R \<Longrightarrow> x \<noteq> root \<Longrightarrow> \<exists>q\<in>set (pred ! x). q \<in> R \<and> pn x < pn q"
    and dm_pred: "x \<in> R \<Longrightarrow> q \<in> R \<Longrightarrow> q \<in> set (pred ! x) \<Longrightarrow> dm a x \<Longrightarrow> a = x \<or> dm a q"
    and dm_root: "dm a root \<Longrightarrow> a = root"
begin

abbreviation "pass_inv \<equiv> dom_inv R pn root pred dm"

text \<open>What is known when node \<open>z\<close> is visited and \<open>r\<close> is the intersection over its predecessors.\<close>

definition visit :: "idom \<Rightarrow> nat \<Rightarrow> nat \<Rightarrow> bool" where
  "visit idom z r \<longleftrightarrow> pass_inv idom (Suc (pn z)) \<and> z \<in> R \<and> z \<noteq> root \<and> idom r \<noteq> None \<and>
     chain idom r = (\<Inter>p\<in>{p \<in> set (pred ! z). idom p \<noteq> None}. chain idom p)"

lemma visitD:
  assumes "visit idom z r"
  shows "pass_inv idom (Suc (pn z))" "tree_ok R pn root idom" "z \<in> R" "z \<noteq> root" "idom r \<noteq> None"
    "chain idom r = (\<Inter>p\<in>{p \<in> set (pred ! z). idom p \<noteq> None}. chain idom p)"
  using assms dom_invD(1) by (auto simp: visit_def)

lemma visit_pred:
  assumes v: "visit idom z r" and "q \<in> set (pred ! z)" "q \<in> R" "pn z < pn q"
  shows "idom q \<noteq> None" and "chain idom r \<subseteq> chain idom q"
proof -
  show q: "idom q \<noteq> None" using dom_invD(3) [OF visitD(1) [OF v]] assms by simp
  then show "chain idom r \<subseteq> chain idom q" using visitD(6) [OF v] assms by blast
qed

lemma visit_rank: assumes "visit idom z r" shows "pn z < pn r"
proof -
  note v = visitD [OF assms]
  obtain q where q: "q \<in> set (pred ! z)" "q \<in> R" "pn z < pn q" using earlier_pred [OF v(3,4)] by blast
  have "r \<in> chain idom q" using visit_pred(2) [OF assms q] chain_refl [of r idom] by blast
  then have "pn q \<le> pn r" using chain_above [OF v(2) visit_pred(1) [OF assms q]] by blast
  then show ?thesis using q(3) by simp
qed

lemma visit_moves_up: "visit idom z r \<Longrightarrow> idom z = Some i \<Longrightarrow> chain idom r \<subseteq> chain idom i"
  unfolding visitD(6) by (rule dom_invD(4) [OF visitD(1)]) (auto dest: visitD)

lemma visit_chain:
  assumes "visit idom z r" and "(idom(z \<mapsto> r)) x \<noteq> None"
  shows "chain (idom(z \<mapsto> r)) x = (if z \<in> chain idom x then {y \<in> chain idom x. pn y \<le> pn z} \<union> chain idom r else chain idom x)"
  using visitD [OF assms(1)] visit_rank [OF assms(1)] assms(2) by (intro chain_update) auto

lemma visit_tree: "visit idom z r \<Longrightarrow> tree_ok R pn root (idom(z \<mapsto> r))"
  using visitD visit_rank by (intro tree_update) blast+

lemma visit_shrinks:
  assumes v: "visit idom z r" and x: "idom x \<noteq> None"
  shows "chain (idom(z \<mapsto> r)) x \<subseteq> chain idom x"
proof (cases "z \<in> chain idom x")
  case True
  then obtain i where i: "idom z = Some i" using chain_above [OF visitD(2) [OF v] x] by blast
  have "chain idom r \<subseteq> chain idom x"
    using visit_moves_up [OF v i] chain_step [where idom = idom, OF i] chain_trans [OF True] by blast
  then show ?thesis using visit_chain [OF v, of x] x True by auto
qed (use visit_chain [OF v, of x] x in auto)

lemma visit_low:
  assumes v: "visit idom z r" and x: "(idom(z \<mapsto> r)) x \<noteq> None" and y: "pn y \<le> pn z"
  shows "y \<in> chain (idom(z \<mapsto> r)) x \<longleftrightarrow> y \<in> chain idom x"
proof -
  have "y \<notin> chain idom r" using chain_above [OF visitD(2,5) [OF v]] visit_rank [OF v] y by fastforce
  then show ?thesis using visit_chain [OF v x] y by auto
qed

lemma visit_high:
  assumes v: "visit idom z r" and x: "idom x \<noteq> None" "pn z < pn x"
  shows "chain (idom(z \<mapsto> r)) x = chain idom x"
proof -
  have "z \<notin> chain idom x" using chain_above [OF visitD(2) [OF v] x(1)] x(2) by fastforce
  then show ?thesis using visit_chain [OF v, of x] x by auto
qed

lemma visit_at: "visit idom z r \<Longrightarrow> chain (idom(z \<mapsto> r)) z = insert z (chain idom r)"
  using chain_step [of "idom(z \<mapsto> r)" z r] visit_high [of idom z r r] visit_rank [of idom z r] visitD(5) [of idom z r] by simp

lemma inv_pred:
  assumes "pass_inv idom c" and "b \<noteq> root" "idom b \<noteq> None"
  obtains q where "q \<in> set (pred ! b)" "q \<in> R" "pn b < pn q" "idom q \<noteq> None"
proof -
  have "b \<in> R" using tree_in [OF dom_invD(1) [OF assms(1)] assms(3)] .
  then obtain q where q: "q \<in> set (pred ! b)" "q \<in> R" "pn b < pn q" using earlier_pred assms(2) by blast
  then have "idom q \<noteq> None" using dom_invD(2) [OF assms(1,3)] by simp
  then show thesis using that q by blast
qed

lemma visit_joins:
  assumes v: "visit idom z r" and b: "b \<noteq> root" "(idom(z \<mapsto> r)) b = Some i"
  shows "(\<Inter>p\<in>{p \<in> set (pred ! b). (idom(z \<mapsto> r)) p \<noteq> None}. chain (idom(z \<mapsto> r)) p) \<subseteq> chain (idom(z \<mapsto> r)) i"
proof
  let ?d = "idom(z \<mapsto> r)"
  note V = visitD [OF v] and I = dom_invD [OF visitD(1) [OF v]]
  fix y assume y: "y \<in> (\<Inter>p\<in>{p \<in> set (pred ! b). ?d p \<noteq> None}. chain ?d p)"
  then have yd: "y \<in> chain ?d p" if "p \<in> set (pred ! b)" "idom p \<noteq> None" for p using that by (auto split: if_splits)
  then have old: "y \<in> chain idom p" if "p \<in> set (pred ! b)" "idom p \<noteq> None" for p using visit_shrinks [OF v, of p] that by blast
  show "y \<in> chain ?d i"
  proof (cases "b = z")
    case True
    then show ?thesis using old b(2) V(6) visit_high [OF v V(5) visit_rank [OF v]] by simp
  next
    case False
    then have i: "idom b = Some i" using b by simp
    then have di: "?d i \<noteq> None" using tree_parent [OF V(2) i b(1)] by simp
    have yi: "y \<in> chain idom i" using I(4) [OF b(1) i] old by blast
    consider "z \<notin> chain idom i" | "pn y \<le> pn z" | "z \<in> chain idom i" "pn z < pn y" by linarith
    then show ?thesis
    proof cases
      case 3
      obtain q where q: "q \<in> set (pred ! b)" "q \<in> R" "pn b < pn q" "idom q \<noteq> None" using inv_pred [OF V(1) b(1)] i by auto
      have "z \<in> chain idom q" using I(5) [OF b(1) i q(1-3) 3(1)] by simp
      then have "y \<in> chain idom r" using yd [OF q(1,4)] visit_chain [OF v, of q] q(4) 3(2) by (auto split: if_splits)
      then show ?thesis using visit_chain [OF v di] 3(1) by auto
    qed (use yi visit_chain [OF v di] visit_low [OF v di] in auto)
  qed
qed

lemma visit_forward:
  assumes v: "visit idom z r" and b: "b \<noteq> root" "(idom(z \<mapsto> r)) b = Some i"
    and q: "q \<in> set (pred ! b)" "q \<in> R" "pn b < pn q" and x: "x \<in> chain (idom(z \<mapsto> r)) i" "pn z \<le> pn b \<or> pn x < pn z"
  shows "x \<in> chain (idom(z \<mapsto> r)) q"
proof (cases "b = z")
  case True
  then show ?thesis
    using b(2) x visit_pred [OF v] visit_high [OF v] visit_rank [OF v] visitD(5) [OF v] q by fastforce
next
  case False
  let ?d = "idom(z \<mapsto> r)"
  note V = visitD [OF v] and I = dom_invD [OF visitD(1) [OF v]]
  have i: "idom b = Some i" using False b by simp
  have P: "b \<in> R" "idom i \<noteq> None" using tree_parent [OF V(2) i b(1)] by blast+
  have iq: "idom q \<noteq> None" using I(2) [of b q] i q by simp
  show ?thesis
  proof (cases "pn z \<le> pn b")
    case True
    then have "pn z < pn b" using False P(1) V(3) pn_inj by (metis inj_onD le_neq_implies_less)
    moreover have "x \<in> chain idom i" using visit_shrinks [OF v P(2)] x(1) by blast
    ultimately show ?thesis using I(5) [OF b(1) i q] visit_high [OF v iq] q(3) by auto
  next
    case zb: False
    then have "pn x < pn z" using x(2) by simp
    then show ?thesis using visit_low [OF v, of i x] visit_low [OF v, of q x] P(2) iq I(5) [OF b(1) i q, of x] x(1) by auto
  qed
qed

lemma visit_inherits:
  assumes v: "visit idom z r" and x: "(idom(z \<mapsto> r)) x \<noteq> None" "w \<in> chain (idom(z \<mapsto> r)) x" "dm a x" "pn w < pn a"
  shows "dm a w"
proof (cases "idom x")
  case None
  note V = visitD [OF v] and I = dom_invD [OF visitD(1) [OF v]]
  have z: "x = z" using x(1) None by (auto split: if_splits)
  obtain q where q: "q \<in> set (pred ! z)" "q \<in> R" "pn z < pn q" using earlier_pred [OF V(3,4)] by blast
  note p = visit_pred [OF v q]
  show ?thesis
  proof (cases "w = z")
    case False
    then have w: "w \<in> chain idom q" using x(2) z visit_at [OF v] p(2) by auto
    then have "pn q \<le> pn w" using chain_above [OF V(2) p(1)] by blast
    then have "a \<noteq> z" using x(4) q(3) by auto
    then have "dm a q" using dm_pred [OF V(3) q(2,1)] x(3) z by blast
    then show ?thesis using I(6) [OF p(1) w] x(4) by blast
  qed (use x z in simp)
next
  case (Some j)
  then show ?thesis using dom_invD(6) [OF visitD(1) [OF v], of x w a] visit_shrinks [OF v, of x] x by auto
qed

lemma visit_complete:
  assumes v: "visit idom z r" and x: "(idom(z \<mapsto> r)) x \<noteq> None" "dm a x"
  shows "a \<in> chain (idom(z \<mapsto> r)) x"
proof -
  note V = visitD [OF v] and I = dom_invD [OF visitD(1) [OF v]]
  have at: "a = z \<or> a \<in> chain idom r" if "dm a z"
  proof -
    have "a \<in> chain idom p" if "p \<in> set (pred ! z)" "idom p \<noteq> None" "a \<noteq> z" for p
      using dm_pred [OF V(3) tree_in [OF V(2) that(2)] that(1) \<open>dm a z\<close>] that(3) I(7) [OF that(2)] by blast
    then show ?thesis unfolding V(6) by blast
  qed
  show ?thesis
  proof (cases "x = z")
    case True
    then show ?thesis using at x(2) visit_at [OF v] by simp
  next
    case False
    then have ix: "idom x \<noteq> None" using x(1) by simp
    have ax: "a \<in> chain idom x" using I(7) [OF ix x(2)] .
    consider "z \<notin> chain idom x" | "pn a \<le> pn z" | "z \<in> chain idom x" "pn z < pn a" by linarith
    then show ?thesis
    proof cases
      case 3
      then have "a \<in> chain idom r" using at I(6) [OF ix 3(1) x(2) 3(2)] by auto
      then show ?thesis using visit_chain [OF v x(1)] 3(1) by simp
    qed (use ax visit_chain [OF v x(1)] visit_low [OF v x(1)] in auto)
  qed
qed

lemma visit_keeps:
  assumes v: "visit idom z r"
  shows "pass_inv (idom(z \<mapsto> r)) (pn z)"
proof -
  let ?d = "idom(z \<mapsto> r)"
  note V = visitD [OF v] and I = dom_invD [OF visitD(1) [OF v]]
  have above: "?d y \<noteq> None" if "y \<in> R" "pn z \<le> pn y" for y
    using I(3) [OF that(1)] that V(3) pn_inj by (cases "y = z") (auto simp: Suc_le_eq dest: inj_onD le_neq_implies_less)
  have "?d y \<noteq> None" if "?d x \<noteq> None" "y \<in> R" "pn x \<le> pn y" for x y
    using I(2) [of x y] above [of y] that by (cases "x = z") auto
  then show ?thesis
    unfolding dom_inv_def using visit_tree [OF v] above visit_joins [OF v] visit_forward [OF v] visit_inherits [OF v] visit_complete [OF v]
    by (intro conjI allI impI ballI subsetI) blast+
qed

lemma pass_over_root:
  assumes "pass_inv idom (Suc (pn root))"
  shows "pass_inv idom (pn root)"
proof -
  note I = dom_invD [OF assms]
  have r: "b = root" if "b \<in> R" "pn root \<le> pn b" for b using that pn_top pn_inj root_in by (metis inj_onD le_antisym)
  have "idom x \<noteq> None" if "x \<in> R" "pn root \<le> pn x" for x using r [OF that] tree_root [OF I(1)] by simp
  moreover have "x \<in> chain idom q" if "b \<noteq> root" "idom b = Some i" "q \<in> set (pred ! b)" "q \<in> R" "pn b < pn q"
    "x \<in> chain idom i" "pn root \<le> pn b \<or> pn x < pn root" for b i q x
    using I(5) [OF that(1-6)] that r tree_in [OF I(1), of b] by auto
  ultimately show ?thesis
    unfolding dom_inv_def using I by (intro conjI allI impI ballI subsetI) blast+
qed

lemma next_pass:
  assumes "pass_inv idom 0"
  shows "pass_inv idom (Suc (pn root))"
  using dom_invD [OF assms] unfolding dom_inv_def by (intro conjI allI impI ballI subsetI) blast+

end

section \<open>Termination and the fixpoint\<close>

text \<open>Every update moves an immediate dominator up, so this number grows; it is bounded by the square of the node count.\<close>

definition dom_height :: "nat set \<Rightarrow> (nat \<Rightarrow> nat) \<Rightarrow> idom \<Rightarrow> nat" where
  "dom_height R pn idom = (\<Sum>x\<in>R. case idom x of None \<Rightarrow> 0 | Some i \<Rightarrow> Suc (pn i))"

definition dom_stable :: "nat \<Rightarrow> nat \<Rightarrow> nat list list \<Rightarrow> (nat \<Rightarrow> nat) \<Rightarrow> nat set \<Rightarrow> idom \<Rightarrow> bool" where
  "dom_stable n root pred pn B idom \<longleftrightarrow>
     (\<forall>b\<in>B. b \<noteq> root \<longrightarrow> merge_preds n idom pn (pred ! b) None \<in> {Some None, Some (idom b)})"

lemma dom_pass_stable:
  "dom_pass n root pred pn bs idom ch = Some (idom', False) \<Longrightarrow> idom' = idom \<and> \<not> ch \<and> dom_stable n root pred pn (set bs) idom"
proof (induction bs arbitrary: idom ch)
  case (Cons b bs)
  show ?case
  proof (cases "b = root")
    case False
    then obtain new where new: "merge_preds n idom pn (pred ! b) None = Some new" using Cons.prems by (auto split: option.splits)
    show ?thesis
    proof (cases "new = None \<or> new = idom b")
      case True
      then have "dom_pass n root pred pn bs idom ch = Some (idom', False)"
        using Cons.prems False new by (auto split: option.splits if_splits)
      then show ?thesis using Cons.IH [of idom ch] new True by (auto simp: dom_stable_def)
    next
      case False
      then obtain ni where "new = Some ni" "idom b \<noteq> Some ni" by (cases new) auto
      then have "dom_pass n root pred pn bs (idom(b \<mapsto> ni)) True = Some (idom', False)"
        using Cons.prems \<open>b \<noteq> root\<close> new by (auto split: if_splits)
      then show ?thesis using Cons.IH by blast
    qed
  qed (use Cons in \<open>auto simp: dom_stable_def\<close>)
qed (simp add: dom_stable_def)

locale numbered_flow = ranked_flow R pn root pred dm for R pn root pred dm +
  fixes post :: "nat list"
  assumes post_nodes: "set post = R" and pn_nth: "i < length post \<Longrightarrow> pn (post ! i) = i" and post_length: "length post = Suc (pn root)"
begin

lemma finite_nodes: "finite R"
  using post_nodes by (metis List.finite_set)

lemma card_nodes: "card R \<le> Suc (pn root)"
  using post_nodes post_length by (metis card_length)

lemma height_bound: "tree_ok R pn root idom \<Longrightarrow> dom_height R pn idom \<le> Suc (pn root) * Suc (pn root)"
proof -
  assume t: "tree_ok R pn root idom"
  have "(case idom x of None \<Rightarrow> 0 | Some i \<Rightarrow> Suc (pn i)) \<le> Suc (pn root)" if "x \<in> R" for x
    using tree_parent [OF t, of x] tree_root [OF t] pn_top by (cases "x = root") (auto split: option.splits)
  then have "dom_height R pn idom \<le> card R * Suc (pn root)"
    unfolding dom_height_def by (metis (no_types, lifting) of_nat_id sum_bounded_above)
  also have "\<dots> \<le> Suc (pn root) * Suc (pn root)" using card_nodes by (rule mult_le_mono1)
  finally show ?thesis .
qed

lemma visit_height:
  assumes v: "visit idom z r" and "idom z \<noteq> Some r"
  shows "dom_height R pn idom < dom_height R pn (idom(z \<mapsto> r))"
proof -
  note V = visitD [OF v]
  let ?h = "\<lambda>d x. case d x of None \<Rightarrow> 0 | Some i \<Rightarrow> Suc (pn i)"
  have "?h idom z < Suc (pn r)"
  proof (cases "idom z")
    case (Some i)
    then have i: "idom i \<noteq> None" using tree_parent [OF V(2) Some V(4)] by blast
    moreover have "r \<in> chain idom i" using visit_moves_up [OF v Some] chain_refl [of r idom] by blast
    ultimately have "pn i < pn r" using chain_same [OF V(2) i, of r] Some assms(2) by force
    then show ?thesis using Some by simp
  qed simp
  moreover have "dom_height R pn d = ?h d z + sum (?h d) (R - {z})" for d
    unfolding dom_height_def using finite_nodes V(3) by (rule sum.remove)
  moreover have "sum (?h idom) (R - {z}) = sum (?h (idom(z \<mapsto> r))) (R - {z})" by (rule sum.cong) auto
  ultimately show ?thesis by simp
qed

lemma visit_intersection:
  assumes i: "pass_inv idom (Suc (pn z))" and z: "z \<in> R" "z \<noteq> root" and n: "pn root < n"
  shows "\<exists>r. merge_preds n idom pn (pred ! z) None = Some (Some r) \<and> visit idom z r"
proof -
  note I = dom_invD [OF i]
  obtain q where "q \<in> set (pred ! z)" "q \<in> R" "pn z < pn q" using earlier_pred [OF z] by blast
  then have q: "q \<in> set (pred ! z)" "idom q \<noteq> None" using I(3) [of q] by auto
  obtain new where "merge_preds n idom pn (pred ! z) None = Some new" "new = None \<longleftrightarrow> (\<forall>p\<in>set (pred ! z). idom p = None)"
    "\<forall>r. new = Some r \<longrightarrow> idom r \<noteq> None \<and> chain idom r = (\<Inter>p\<in>{p \<in> set (pred ! z). idom p \<noteq> None}. chain idom p)"
    using merge_preds_correct [OF I(1) n, of None "pred ! z"] by auto
  then show ?thesis using q i z unfolding visit_def by (cases new) auto
qed

lemma dom_pass_correct:
  assumes n: "pn root < n" and "c \<le> length post" "pass_inv idom c"
  shows "\<exists>idom' ch'. dom_pass n root pred pn (rev (take c post)) idom ch = Some (idom', ch') \<and> pass_inv idom' 0 \<and>
    dom_height R pn idom \<le> dom_height R pn idom' \<and> (ch' \<longrightarrow> ch \<or> dom_height R pn idom < dom_height R pn idom')"
  using assms(2,3)
proof (induction c arbitrary: idom ch)
  case (Suc c)
  let ?z = "post ! c"
  have z: "?z \<in> R" "pn ?z = c" using Suc.prems(1) post_nodes pn_nth by auto
  have l: "rev (take (Suc c) post) = ?z # rev (take c post)" using Suc.prems(1) by (simp add: take_Suc_conv_app_nth)
  have c: "c \<le> length post" using Suc.prems(1) by simp
  show ?case
  proof (cases "?z = root")
    case True
    have "pass_inv idom c" using pass_over_root Suc.prems(2) z(2) True by simp
    from Suc.IH [OF c this] show ?thesis unfolding l using True by simp
  next
    case False
    obtain r where r: "merge_preds n idom pn (pred ! ?z) None = Some (Some r)" "visit idom ?z r"
      using visit_intersection [OF _ z(1) False n] Suc.prems(2) z(2) by auto
    have k: "pass_inv (idom(?z \<mapsto> r)) c" using visit_keeps [OF r(2)] z(2) by simp
    show ?thesis
    proof (cases "idom ?z = Some r")
      case True
      then have "idom(?z \<mapsto> r) = idom" by auto
      then show ?thesis unfolding l using Suc.IH [OF c, of idom ch] k True False r(1) by simp
    next
      case upd: False
      let ?d = "idom(?z \<mapsto> r)"
      have h: "dom_height R pn idom < dom_height R pn ?d" by (rule visit_height [OF r(2) upd])
      obtain d ch' where d: "dom_pass n root pred pn (rev (take c post)) ?d True = Some (d, ch')" "pass_inv d 0"
        "dom_height R pn ?d \<le> dom_height R pn d" using Suc.IH [OF c k, of True] by blast
      have "dom_pass n root pred pn (rev (take (Suc c) post)) idom ch = dom_pass n root pred pn (rev (take c post)) ?d True"
        unfolding l using upd False r(1) by simp
      then show ?thesis using d h by (intro exI [of _ d] exI [of _ ch']) simp
    qed
  qed
qed auto

lemma dom_iter_correct:
  assumes n: "pn root < n" and "pass_inv idom (Suc (pn root))" "n * n - dom_height R pn idom < fuel"
  shows "\<exists>idom'. dom_iter fuel n root pred pn (rev post) idom = Some idom' \<and> pass_inv idom' 0 \<and> dom_stable n root pred pn R idom'"
  using assms(2,3)
proof (induction fuel arbitrary: idom)
  case (Suc fuel)
  obtain d ch where p: "dom_pass n root pred pn (rev post) idom False = Some (d, ch)" "pass_inv d 0"
    "ch \<longrightarrow> dom_height R pn idom < dom_height R pn d"
    using dom_pass_correct [OF n le_refl, of idom False] Suc.prems(1) post_length by auto
  show ?case
  proof (cases ch)
    case True
    have "dom_height R pn d \<le> n * n"
      using height_bound [OF dom_invD(1) [OF p(2)]] mult_le_mono [of "Suc (pn root)" n "Suc (pn root)" n] n by linarith
    then have "n * n - dom_height R pn d < fuel" using p(3) True Suc.prems(2) by linarith
    from Suc.IH [OF next_pass [OF p(2)] this] show ?thesis using p(1) True by simp
  next
    case False
    then show ?thesis using p dom_pass_stable [of n root pred pn "rev post" idom False d] post_nodes by simp
  qed
qed simp

lemma first_pass: "pass_inv ((\<lambda>_. None)(root \<mapsto> root)) (Suc (pn root))"
proof -
  have "y = root" if "y \<in> R" "pn root \<le> pn y" for y using that pn_top pn_inj root_in by (metis inj_onD le_antisym)
  moreover have "chain ((\<lambda>_. None)(root \<mapsto> root)) root = {root}" by (simp add: chain_loop)
  ultimately show ?thesis using pn_top dm_root by (auto simp: dom_inv_def tree_ok_def split: if_splits)
qed

lemma stable_chain:
  assumes "pass_inv idom 0" and "dom_stable n root pred pn R idom" "pn root < n" and x: "x \<in> R" "x \<noteq> root"
  shows "\<exists>i. idom x = Some i \<and> chain idom i = (\<Inter>p\<in>{p \<in> set (pred ! x). p \<in> R}. chain idom p)"
proof -
  note I = dom_invD [OF assms(1)]
  have R: "{p \<in> set (pred ! x). idom p \<noteq> None} = {p \<in> set (pred ! x). p \<in> R}" using I(3) tree_in [OF I(1)] by auto
  obtain q where q: "q \<in> set (pred ! x)" "idom q \<noteq> None" using inv_pred [OF assms(1) x(2)] I(3) [OF x(1)] by auto
  obtain new where new: "merge_preds n idom pn (pred ! x) None = Some new" "new = None \<longleftrightarrow> (\<forall>p\<in>set (pred ! x). idom p = None)"
    "\<forall>r. new = Some r \<longrightarrow> chain idom r = (\<Inter>p\<in>{p \<in> set (pred ! x). p \<in> R}. chain idom p)"
    using merge_preds_correct [OF I(1) assms(3), of None "pred ! x"] unfolding R by auto
  then have "new = idom x" using assms(2) x q by (auto simp: dom_stable_def)
  then show ?thesis using new q by (cases new) auto
qed

end

section \<open>Flow graphs\<close>

text \<open>The interface of the dominator construction: adjacency lists in both directions and a root.\<close>

definition flow_post :: "nat \<Rightarrow> nat \<Rightarrow> nat list list \<Rightarrow> nat list" where
  "flow_post n root succ = (if n = 0 then [root] else the (postorder_from n root succ))"

lemma post_num_append: "post_num (xs @ [x]) = (post_num xs)(x := length xs)"
  by (simp add: post_num_def enumerate_append_eq)

lemma post_num_nth: "distinct post \<Longrightarrow> i < length post \<Longrightarrow> post_num post (post ! i) = i"
  by (induction post rule: rev_induct) (auto simp: post_num_append nth_append less_Suc_eq)

locale flow_graph =
  fixes n root :: nat and succ pred :: "nat list list"
  assumes dual: "dual n (succ, pred)" and root_less: "0 < n \<Longrightarrow> root < n"
begin

lemma graph: "graph_ok n succ"
  using dual by (simp add: dual_def)

lemma postorder_returns: "0 < n \<Longrightarrow> postorder_from n root succ = Some (flow_post n root succ)"
  using postorder_from_correct [OF graph root_less] by (auto simp: flow_post_def)

lemma flow_postorder: "is_postorder succ root (flow_post n root succ)"
proof (cases "n = 0")
  case True
  then have "\<not> edge succ u v" for u v using graph by (simp add: graph_ok_def edge_def)
  then have "reachable succ root v \<longleftrightarrow> v = root" for v by (auto elim: reachableE intro: reachable_root)
  then show ?thesis using True by (simp add: flow_post_def is_postorder_def)
next
  case False
  then show ?thesis using postorder_from_correct [OF graph root_less] by (auto simp: flow_post_def)
qed

lemma empty_graph: "n = 0 \<Longrightarrow> reachable succ root v \<longleftrightarrow> v = root"
proof -
  assume "n = 0"
  then have "\<not> edge succ u v" for u v using graph by (simp add: graph_ok_def edge_def)
  then show ?thesis by (auto elim: reachableE intro: reachable_root)
qed

lemma edge_pred: "x < n \<Longrightarrow> edge succ q x \<longleftrightarrow> q \<in> set (pred ! x)"
proof -
  assume x: "x < n"
  have d: "\<forall>u < n. \<forall>v < n. v \<in> set (succ ! u) \<longleftrightarrow> u \<in> set (pred ! v)" "length succ = n" "set (pred ! x) \<subseteq> {..<n}"
    using dual x by (simp_all add: dual_def graph_ok_def)
  show ?thesis
  proof (cases "q < n")
    case True
    then show ?thesis using d(1) [rule_format, OF True x] d(2) by (simp add: edge_def)
  next
    case False
    then show ?thesis using d(2,3) by (auto simp: edge_def)
  qed
qed

lemma reachable_bound: "0 < n \<Longrightarrow> reachable succ root x \<Longrightarrow> x < n"
  using reachable_less [OF _ graph] root_less by blast

end

sublocale flow_graph \<subseteq> numbered_flow "{x. reachable succ root x}" "post_num (flow_post n root succ)" root pred
  "dominator succ root" "flow_post n root succ"
proof
  let ?post = "flow_post n root succ" and ?R = "{x. reachable succ root x}"
  let ?pn = "post_num ?post"
  note P = flow_postorder [unfolded is_postorder_def]
  have nodes: "set ?post = ?R" and d: "distinct ?post" using P by auto
  then show "set ?post = ?R" by simp
  show nth: "?pn (?post ! i) = i" if "i < length ?post" for i using post_num_nth [OF d that] .
  have root: "?pn root = length ?post - 1" using nth [of "length ?post - 1"] P last_conv_nth [of ?post] by auto
  then show "length ?post = Suc (?pn root)" using P by (cases ?post) auto
  show "root \<in> ?R" by (simp add: reachable_root)
  show "inj_on ?pn ?R" unfolding nodes [symmetric] by (rule inj_onI) (metis in_set_conv_nth nth)
  show "?pn x \<le> ?pn root" if "x \<in> ?R" for x
    using that nth unfolding nodes [symmetric] root by (metis One_nat_def Suc_pred in_set_conv_nth length_pos_if_in_set less_Suc_eq_le)
  show "\<exists>q\<in>set (pred ! x). q \<in> ?R \<and> ?pn x < ?pn q" if x: "x \<in> ?R" "x \<noteq> root" for x
  proof -
    have n: "0 < n" using x empty_graph by (cases n) auto
    obtain i where i: "i < length ?post" "x = ?post ! i" using x(1) unfolding nodes [symmetric] by (auto simp: in_set_conv_nth)
    obtain j where j: "i < j" "j < length ?post" "edge succ (?post ! j) x" using parented_nth [of succ root ?post i] P i x(2) by blast
    then have "?post ! j \<in> set (pred ! x)" using edge_pred reachable_bound [OF n] x(1) by simp
    then show ?thesis using i j nth nodes by (intro bexI [of _ "?post ! j"]) (auto dest: nth_mem)
  qed
  show root_only: "a = root" if "dominator succ root a root" for a using that avoiding_root [of root a succ] by (auto simp: dominator_def)
  show "a = x \<or> dominator succ root a q" if "x \<in> ?R" "q \<in> ?R" "q \<in> set (pred ! x)" "dominator succ root a x" for x q a
  proof (cases "n = 0")
    case True
    then show ?thesis using that root_only empty_graph by simp
  next
    case False
    then show ?thesis using that dominator_pred [of succ root a x q] edge_pred reachable_bound by simp
  qed
qed

context flow_graph
begin

lemma chain_sound:
  assumes inv: "pass_inv idom 0" and st: "dom_stable n root pred (post_num (flow_post n root succ)) {x. reachable succ root x} idom"
    and n: "post_num (flow_post n root succ) root < n" and "avoiding succ root a b"
  shows "reachable succ root b \<and> a \<notin> chain idom b"
  using assms(4)
proof (induction rule: avoiding.induct)
  case avoiding_root
  then show ?case using chain_root [OF dom_invD(1) [OF inv]] reachable_root by auto
next
  case (avoiding_step u v)
  then have u: "reachable succ root u" "a \<notin> chain idom u" by auto
  then have v: "reachable succ root v" using avoiding_step.hyps(2) reachable_step by blast
  have "a \<notin> chain idom v"
  proof (cases "v = root")
    case True
    then show ?thesis using chain_root [OF dom_invD(1) [OF inv]] avoiding_step.hyps(3) by simp
  next
    case False
    obtain i where i: "idom v = Some i" "chain idom i = (\<Inter>p\<in>{p \<in> set (pred ! v). p \<in> {x. reachable succ root x}}. chain idom p)"
      using stable_chain [OF inv st n _ False] v by auto
    have "u \<in> set (pred ! v)" using edge_pred [of v u] reachable_bound [OF _ v] avoiding_step.hyps(2) n by simp
    then have "a \<notin> chain idom i" using i(2) u by auto
    then show ?thesis using chain_step [where idom = idom, OF i(1)] avoiding_step.hyps(3) by simp
  qed
  then show ?case using v by simp
qed

text \<open>The iteration returns the exact dominator tree.\<close>

lemma dom_build_exact:
  assumes n: "0 < n"
  shows "\<exists>idom. dom_build n root succ pred = Some idom \<and> (\<forall>x. idom x \<noteq> None \<longleftrightarrow> reachable succ root x) \<and>
    idom root = Some root \<and> (\<forall>a b. tree_dominates n idom a b = Some (dominator succ root a b)) \<and>
    (\<forall>x i. x \<noteq> root \<longrightarrow> idom x = Some i \<longrightarrow> x \<noteq> i \<and> dominator succ root i x \<and>
       (\<forall>a. dominator succ root a x \<longrightarrow> a = x \<or> dominator succ root a i))"
proof -
  let ?post = "flow_post n root succ" and ?R = "{x. reachable succ root x}"
  let ?pn = "post_num ?post"
  have "length ?post \<le> n"
    using flow_postorder reachable_bound [OF n] card_mono [of "{..<n}" "set ?post"] distinct_card [of ?post]
    by (fastforce simp: is_postorder_def)
  then have top: "?pn root < n" using post_length by simp
  have "dom_build n root succ pred = dom_iter (Suc (Suc (n * n))) n root pred ?pn (rev ?post) ((\<lambda>_. None)(root \<mapsto> root))"
    using postorder_returns [OF n] n by (simp add: dom_build_def del: dom_iter.simps)
  moreover have "n * n - dom_height ?R ?pn ((\<lambda>_. None)(root \<mapsto> root)) < Suc (Suc (n * n))" by simp
  ultimately obtain idom where b: "dom_build n root succ pred = Some idom" and inv: "pass_inv idom 0"
    and st: "dom_stable n root pred ?pn ?R idom"
    using dom_iter_correct [OF top first_pass] by metis
  note I = dom_invD [OF inv]
  have def: "idom x \<noteq> None \<longleftrightarrow> reachable succ root x" for x using I(3) [of x] tree_in [OF I(1), of x] by auto
  have ch: "a \<in> chain idom x \<longleftrightarrow> dominator succ root a x" if "idom x \<noteq> None" for a x
    using I(7) [OF that, of a] chain_sound [OF inv st top, of a x] def [of x] that by (auto simp: dominator_def)
  have walk: "tree_dominates n idom a b = Some (dominator succ root a b)" for a b
    using tree_dominates_correct [OF I(1) top, of a b] ch [of b a] def [of b] by (auto simp: dominator_def)
  have "x \<noteq> i \<and> dominator succ root i x \<and> (\<forall>a. dominator succ root a x \<longrightarrow> a = x \<or> dominator succ root a i)"
    if x: "x \<noteq> root" "idom x = Some i" for x i
  proof -
    have p: "x \<noteq> i" "idom i \<noteq> None" using tree_parent [OF I(1) x(2,1)] by auto
    have e: "dominator succ root a x \<longleftrightarrow> a = x \<or> dominator succ root a i" for a
      using ch [of x a] ch [OF p(2), of a] x(2) chain_step [where idom = idom, OF x(2)] by auto
    have "dominator succ root i i" using ch [OF p(2), of i] chain_refl by auto
    then show ?thesis using p e by blast
  qed
  then show ?thesis using b def tree_root [OF I(1)] walk by blast
qed

end

end
