(* ===== verification/Cfg_Domtree.thy ===== *)
theory Cfg_Domtree
  imports Cfg_Dominators
begin

text \<open>
  The two clients of the dominator construction in \<open>crates/cfg/src/dominators.rs\<close>: \<open>Dominators\<close>, rooted at the entry, and
  \<open>PostDominators\<close>, on the reversed graph with a synthetic exit. The locale \<open>flow_graph\<close> is interpreted on both graphs.
\<close>

section \<open>Dominators\<close>

definition dominators_new :: "cfg \<Rightarrow> idom option" where
  "dominators_new g =
     (let n = node_count g in
      dom_build n (cfg_entry g) (map (cfg_successors g) [0..<n]) (map (cfg_predecessors g) [0..<n]))"

definition immediate_dominator :: "idom \<Rightarrow> nat \<Rightarrow> nat option" where
  "immediate_dominator tree node = tree node"

definition dominates :: "cfg \<Rightarrow> idom \<Rightarrow> nat \<Rightarrow> nat \<Rightarrow> bool option" where
  "dominates g tree a b = tree_dominates (node_count g) tree a b"

definition strictly_dominates :: "cfg \<Rightarrow> idom \<Rightarrow> nat \<Rightarrow> nat \<Rightarrow> bool option" where
  "strictly_dominates g tree a b = (if a \<noteq> b then dominates g tree a b else Some False)"

section \<open>Post-dominators\<close>

definition reverse_edges :: "cfg \<Rightarrow> nat list list \<times> nat list list" where
  "reverse_edges g =
     (let n = node_count g; m = n + 1; x = n;
          E = fold (\<lambda>a E. fold (\<lambda>b E. add_edge b a E) (cfg_successors g a) E) [0..<n] (replicate m [], replicate m [])
      in fold (\<lambda>e E. add_edge x e E) (cfg_exits g) E)"

definition post_dominators_new :: "cfg \<Rightarrow> (idom \<times> nat) option" where
  "post_dominators_new g =
     (let n = node_count g; (rev_succ, rev_pred) = reverse_edges g in
      map_option (\<lambda>tree. (tree, n)) (dom_build (n + 1) n rev_succ rev_pred))"

definition immediate_post_dominator :: "idom \<times> nat \<Rightarrow> nat \<Rightarrow> nat option" where
  "immediate_post_dominator pd node =
     (case fst pd node of
        Some i \<Rightarrow> (if i = snd pd then None else Some i)
      | None \<Rightarrow> None)"

definition post_dominates :: "idom \<times> nat \<Rightarrow> nat \<Rightarrow> nat \<Rightarrow> bool option" where
  "post_dominates pd a b = tree_dominates (Suc (snd pd)) (fst pd) a b"

section \<open>The reversed graph\<close>

text \<open>The reference: a path from a node to an exit that avoids a set of nodes.\<close>

inductive exit_path :: "cfg \<Rightarrow> nat set \<Rightarrow> nat \<Rightarrow> bool" for g A where
  exit_here: "v < node_count g \<Longrightarrow> cfg_succ g ! v = [] \<Longrightarrow> v \<notin> A \<Longrightarrow> exit_path g A v"
| exit_step: "exit_path g A v \<Longrightarrow> edge (cfg_succ g) u v \<Longrightarrow> u \<notin> A \<Longrightarrow> exit_path g A u"

lemma add_edges:
  assumes "dual m E" and "set es \<subseteq> {..<m} \<times> {..<m}"
  shows "dual m (fold (\<lambda>(i, j). add_edge i j) es E) \<and>
    (\<forall>u v. edge (fst (fold (\<lambda>(i, j). add_edge i j) es E)) u v \<longleftrightarrow> edge (fst E) u v \<or> (u, v) \<in> set es)"
  using assms
proof (induction es arbitrary: E)
  case (Cons e es)
  obtain i j where e: "e = (i, j)" "i < m" "j < m" using Cons.prems(2) by (cases e) auto
  have d: "dual m (add_edge i j E)" using add_edge_dual [OF Cons.prems(1) e(2,3)] .
  have l: "length (fst E) = m" using Cons.prems(1) by (cases E) (simp add: dual_def graph_ok_def)
  have "edge (fst (add_edge i j E)) u v \<longleftrightarrow> edge (fst E) u v \<or> (u, v) = (i, j)" for u v
    using e(2) l by (cases E) (auto simp: edge_def add_edge_def nth_list_update)
  then show ?case using Cons.IH [OF d] Cons.prems(2) e by auto
qed simp

lemma nested_edges:
  "fold (\<lambda>a E. fold (\<lambda>b E. add_edge b a E) (S a) E) as E = fold (\<lambda>(i, j). add_edge i j) (concat (map (\<lambda>a. map (\<lambda>b. (b, a)) (S a)) as)) E"
proof (induction as arbitrary: E)
  case (Cons a as)
  have "fold (\<lambda>b E. add_edge b a E) bs E = fold (\<lambda>(i, j). add_edge i j) (map (\<lambda>b. (b, a)) bs) E" for bs E
    by (induction bs arbitrary: E) simp_all
  then show ?case using Cons by simp
qed simp

lemma exit_edges: "fold (\<lambda>e E. add_edge x e E) es E = fold (\<lambda>(i, j). add_edge i j) (map (Pair x) es) E"
  by (induction es arbitrary: E) simp_all

lemma reverse_edges_exact:
  assumes "cfg_ok g"
  shows "dual (Suc (node_count g)) (reverse_edges g)"
    and "edge (fst (reverse_edges g)) u v \<longleftrightarrow> edge (cfg_succ g) v u \<or> u = node_count g \<and> v < node_count g \<and> cfg_succ g ! v = []"
proof -
  let ?n = "node_count g"
  let ?es = "concat (map (\<lambda>a. map (\<lambda>b. (b, a)) (cfg_successors g a)) [0..<?n]) @ map (Pair ?n) (cfg_exits g)"
  have g: "length (cfg_succ g) = ?n" "\<And>u. u < ?n \<Longrightarrow> set (cfg_succ g ! u) \<subseteq> {..<?n}"
    using assms by (auto simp: cfg_ok_def dual_def graph_ok_def)
  have r: "reverse_edges g = fold (\<lambda>(i, j). add_edge i j) ?es (replicate (Suc ?n) [], replicate (Suc ?n) [])"
    unfolding reverse_edges_def Let_def nested_edges exit_edges by simp
  have s: "set ?es \<subseteq> {..<Suc ?n} \<times> {..<Suc ?n}"
    using g(2) by (fastforce simp: cfg_successors_def cfg_exits_def less_Suc_eq)
  have d: "dual (Suc ?n) (replicate (Suc ?n) [], replicate (Suc ?n) [])" by (simp add: dual_def graph_ok_def del: replicate_Suc)
  have e: "(u, v) \<in> set ?es \<longleftrightarrow> edge (cfg_succ g) v u \<or> u = ?n \<and> v < ?n \<and> cfg_succ g ! v = []"
    using g(1) by (auto simp: cfg_successors_def cfg_exits_def edge_def)
  show "dual (Suc ?n) (reverse_edges g)" using add_edges [OF d s] unfolding r by blast
  have "\<not> edge (replicate (Suc ?n) []) u v" by (simp add: edge_def del: replicate_Suc)
  then show "edge (fst (reverse_edges g)) u v \<longleftrightarrow> edge (cfg_succ g) v u \<or> u = ?n \<and> v < ?n \<and> cfg_succ g ! v = []"
    using add_edges [OF d s] unfolding r e [symmetric] by (simp del: replicate_Suc)
qed

lemma reverse_paths:
  assumes ok: "cfg_ok g"
  shows "reachable (fst (reverse_edges g)) (node_count g) v \<longleftrightarrow> v = node_count g \<or> exit_path g {} v"
    and "a \<noteq> node_count g \<Longrightarrow> avoiding (fst (reverse_edges g)) (node_count g) a v \<longleftrightarrow> v = node_count g \<or> exit_path g {a} v"
proof -
  let ?n = "node_count g" and ?r = "fst (reverse_edges g)"
  note E = reverse_edges_exact(2) [OF ok]
  have g: "\<not> edge (cfg_succ g) u ?n" for u using ok graph_ok_edge [of ?n "cfg_succ g" u ?n] by (auto simp: cfg_ok_def dual_def)
  have "v = ?n \<or> exit_path g {} v" if "reachable ?r ?n v" for v
    using that
  proof (induction rule: reachable.induct)
    case (reachable_step u v)
    then show ?case using g by (auto simp: E intro: exit_path.intros)
  qed simp
  moreover have "reachable ?r ?n v" if "exit_path g {} v" for v
    using that
  proof (induction rule: exit_path.induct)
    case (exit_here v)
    then show ?case using reachable_step [OF reachable_root, of ?r ?n v] by (simp add: E)
  next
    case (exit_step v u)
    then show ?case using reachable_step [of ?r ?n v u] by (simp add: E)
  qed
  ultimately show "reachable ?r ?n v \<longleftrightarrow> v = ?n \<or> exit_path g {} v" by (auto intro: reachable_root)
  assume a: "a \<noteq> ?n"
  have "v = ?n \<or> exit_path g {a} v" if "avoiding ?r ?n a v" for v
    using that
  proof (induction rule: avoiding.induct)
    case (avoiding_step u v)
    then show ?case using g by (auto simp: E intro: exit_path.intros)
  qed simp
  moreover have "avoiding ?r ?n a v" if "exit_path g {a} v" for v
    using that
  proof (induction rule: exit_path.induct)
    case (exit_here v)
    then show ?case using a avoiding_step [OF avoiding_root, of ?n a ?r v] by (simp add: E)
  next
    case (exit_step v u)
    then show ?case using avoiding_step [of ?r ?n a v u] by (simp add: E)
  qed
  ultimately show "avoiding ?r ?n a v \<longleftrightarrow> v = ?n \<or> exit_path g {a} v" using a by (auto intro: avoiding_root)
qed

section \<open>The two interpretations\<close>

interpretation forward: flow_graph "node_count (from_function f)" "cfg_entry (from_function f)"
  "cfg_succ (from_function f)" "cfg_pred (from_function f)" for f
  using from_function_correct(1) [of f] by unfold_locales (simp_all add: cfg_ok_def)

interpretation backward: flow_graph "Suc (node_count (from_function f))" "node_count (from_function f)"
  "fst (reverse_edges (from_function f))" "snd (reverse_edges (from_function f))" for f
  using reverse_edges_exact(1) [OF from_function_correct(1) [of f]] by unfold_locales simp_all

lemma dominators_new_build:
  assumes "cfg_ok g"
  shows "dominators_new g = dom_build (node_count g) (cfg_entry g) (cfg_succ g) (cfg_pred g)"
proof -
  have "length (cfg_succ g) = node_count g" "length (cfg_pred g) = node_count g"
    using assms by (simp_all add: cfg_ok_def dual_def graph_ok_def)
  then have "map (cfg_successors g) [0..<node_count g] = cfg_succ g" "map (cfg_predecessors g) [0..<node_count g] = cfg_pred g"
    using map_nth [of "cfg_succ g"] map_nth [of "cfg_pred g"] by (simp_all add: cfg_successors_def [abs_def] cfg_predecessors_def [abs_def])
  then show ?thesis by (simp add: dominators_new_def Let_def)
qed

lemma dominators_total:
  assumes "f_blocks f \<noteq> []"
  shows "\<exists>tree. dominators_new (from_function f) = Some tree \<and>
    (\<forall>a b. dominates (from_function f) tree a b = Some (dominator (cfg_succ (from_function f)) (cfg_entry (from_function f)) a b))"
proof -
  have "0 < node_count (from_function f)" using assms by (simp add: from_function_correct)
  from forward.dom_build_exact [OF this] show ?thesis
    unfolding dominators_new_build [OF from_function_correct(1)] dominates_def by blast
qed

text \<open>
  Property C22. For every function with a block the dominator construction returns, and its tree is exact: \<open>a\<close> is reported to dominate \<open>b\<close>
  precisely when \<open>b\<close> is reachable from the entry and every path to it goes through \<open>a\<close>; the immediate dominator is a strict
  dominator that every other strict dominator dominates; unreachable nodes have none.
\<close>

theorem dominators_exact:
  assumes "f_blocks f \<noteq> []"
  shows "\<exists>tree. dominators_new (from_function f) = Some tree \<and>
    (\<forall>a b. dominates (from_function f) tree a b = Some (dominator (cfg_succ (from_function f)) (cfg_entry (from_function f)) a b)) \<and>
    (\<forall>b. immediate_dominator tree b = None \<longleftrightarrow> \<not> reachable (cfg_succ (from_function f)) (cfg_entry (from_function f)) b) \<and>
    (\<forall>b i. b \<noteq> cfg_entry (from_function f) \<longrightarrow> immediate_dominator tree b = Some i \<longrightarrow>
       strictly_dominates (from_function f) tree i b = Some True \<and>
       (\<forall>a. strictly_dominates (from_function f) tree a b = Some True \<longrightarrow> dominates (from_function f) tree a i = Some True))"
proof -
  let ?dom = "dominator (cfg_succ (from_function f)) (cfg_entry (from_function f))"
  have "0 < node_count (from_function f)" using assms by (simp add: from_function_correct)
  from forward.dom_build_exact [OF this] obtain tree where t:
    "dom_build (node_count (from_function f)) (cfg_entry (from_function f)) (cfg_succ (from_function f)) (cfg_pred (from_function f)) = Some tree"
    "\<And>x. tree x \<noteq> None \<longleftrightarrow> reachable (cfg_succ (from_function f)) (cfg_entry (from_function f)) x"
    "\<And>a b. tree_dominates (node_count (from_function f)) tree a b = Some (?dom a b)"
    "\<And>x i. x \<noteq> cfg_entry (from_function f) \<Longrightarrow> tree x = Some i \<Longrightarrow> x \<noteq> i \<and> ?dom i x \<and> (\<forall>a. ?dom a x \<longrightarrow> a = x \<or> ?dom a i)"
    by blast
  note defs = dominators_new_build [OF from_function_correct(1)] dominates_def strictly_dominates_def immediate_dominator_def
  have "tree b = None \<longleftrightarrow> \<not> reachable (cfg_succ (from_function f)) (cfg_entry (from_function f)) b" for b using t(2) [of b] by blast
  moreover have "(if i \<noteq> b then Some (?dom i b) else Some False) = Some True \<and>
      (\<forall>a. (if a \<noteq> b then Some (?dom a b) else Some False) = Some True \<longrightarrow> Some (?dom a i) = Some True)"
    if "b \<noteq> cfg_entry (from_function f)" "tree b = Some i" for b i
    using t(4) [OF that] by auto
  ultimately show ?thesis unfolding defs t(1) by (intro exI [of _ tree] conjI refl allI impI) (simp_all only: t(3) simp_thms)
qed

text \<open>
  Property C23. Post-dominance is exact as well: for nodes of the function, \<open>a\<close> is reported to post-dominate \<open>b\<close> precisely when some path
  leads from \<open>b\<close> to an exit and no such path avoids \<open>a\<close>.
\<close>

theorem post_dominators_exact:
  "\<exists>pd. post_dominators_new (from_function f) = Some pd \<and> snd pd = node_count (from_function f) \<and>
    (\<forall>a b. a \<noteq> snd pd \<and> b \<noteq> snd pd \<longrightarrow>
       post_dominates pd a b = Some (exit_path (from_function f) {} b \<and> \<not> exit_path (from_function f) {a} b)) \<and>
    (\<forall>b i. b \<noteq> snd pd \<and> immediate_post_dominator pd b = Some i \<longrightarrow> i \<noteq> b \<and> post_dominates pd i b = Some True)"
proof -
  let ?g = "from_function f"
  let ?dom = "dominator (fst (reverse_edges ?g)) (node_count ?g)"
  obtain tree where t: "dom_build (Suc (node_count ?g)) (node_count ?g) (fst (reverse_edges ?g)) (snd (reverse_edges ?g)) = Some tree"
    "\<And>a b. tree_dominates (Suc (node_count ?g)) tree a b = Some (?dom a b)"
    "\<And>x i. x \<noteq> node_count ?g \<Longrightarrow> tree x = Some i \<Longrightarrow> x \<noteq> i \<and> ?dom i x"
    using backward.dom_build_exact [of f] by blast
  note P = reverse_paths [OF from_function_correct(1) [of f]]
  have "post_dominators_new ?g = Some (tree, node_count ?g)"
    using t(1) by (cases "reverse_edges ?g") (simp add: post_dominators_new_def)
  moreover have "i \<noteq> b \<and> post_dominates (tree, node_count ?g) i b = Some True"
    if "b \<noteq> node_count ?g" "immediate_post_dominator (tree, node_count ?g) b = Some i" for b i
    using that t(3) [OF that(1), of i] by (auto simp: immediate_post_dominator_def post_dominates_def t(2) split: option.splits if_splits)
  ultimately show ?thesis using P by (auto simp: post_dominates_def t(2) dominator_def)
qed

theorem dominators_exact_witness:
  "\<exists>tree. dominators_new (from_function sample_function) = Some tree \<and>
     dominates (from_function sample_function) tree 0 0 = Some (dominator (cfg_succ (from_function sample_function)) 0 0 0)"
proof -
  have "f_blocks sample_function \<noteq> []" "cfg_entry (from_function sample_function) = 0"
    by (simp_all add: sample_function_def block_new_def from_function_def index_blocks_def Let_def split: prod.splits)
  with dominators_exact [OF this(1)] show ?thesis by auto
qed

theorem post_dominators_exact_witness:
  "\<exists>pd. post_dominators_new (from_function sample_function) = Some pd \<and> snd pd = 3 \<and>
     post_dominates pd 2 0 = Some (exit_path (from_function sample_function) {} 0 \<and> \<not> exit_path (from_function sample_function) {2} 0)"
  using post_dominators_exact [of sample_function] by (auto simp: from_function_correct(2) sample_function_length)

end
