(* ===== verification/Cfg_Loops.thy ===== *)
theory Cfg_Loops
  imports Cfg_Domtree
begin

text \<open>
  Natural loops, \<open>crates/cfg/src/loops.rs\<close>. A \<open>BTreeSet\<close> is a set, the \<open>BTreeMap\<close> from headers to latches an association list
  in key order (the order in which the source iterates over it). A result \<open>None\<close> stands for a loop that ran out of fuel;
  the lemmas show that it does not arise.
\<close>

record natural_loop =
  l_header :: nat
  l_latches :: "nat list"
  l_body :: "nat set"

definition contains :: "natural_loop \<Rightarrow> nat \<Rightarrow> bool" where
  "contains l node \<longleftrightarrow> node \<in> l_body l"

fun push_latch :: "nat \<Rightarrow> nat \<Rightarrow> (nat \<times> nat list) list \<Rightarrow> (nat \<times> nat list) list" where
  "push_latch h n [] = [(h, [n])]"
| "push_latch h n ((k, ls) # m) =
     (if h = k then (k, ls @ [n]) # m else if h < k then (h, [n]) # (k, ls) # m else (k, ls) # push_latch h n m)"

primrec collect_successors :: "cfg \<Rightarrow> idom \<Rightarrow> nat \<Rightarrow> nat list \<Rightarrow> (nat \<times> nat list) list \<Rightarrow> (nat \<times> nat list) list option" where
  "collect_successors g tree n [] m = Some m"
| "collect_successors g tree n (h # hs) m =
     (case dominates g tree h n of
        None \<Rightarrow> None
      | Some d \<Rightarrow> collect_successors g tree n hs (if d then push_latch h n m else m))"

primrec collect_back_edges :: "cfg \<Rightarrow> idom \<Rightarrow> nat list \<Rightarrow> (nat \<times> nat list) list \<Rightarrow> (nat \<times> nat list) list option" where
  "collect_back_edges g tree [] m = Some m"
| "collect_back_edges g tree (n # ns) m =
     (case collect_successors g tree n (cfg_successors g n) m of
        None \<Rightarrow> None
      | Some m' \<Rightarrow> collect_back_edges g tree ns m')"

definition push_new :: "nat \<Rightarrow> nat set \<times> nat list \<Rightarrow> nat set \<times> nat list" where
  "push_new p s = (case s of (body, stack) \<Rightarrow> if p \<in> body then (body, stack) else (insert p body, p # stack))"

primrec body_loop :: "nat \<Rightarrow> cfg \<Rightarrow> nat set \<times> nat list \<Rightarrow> nat set option" where
  "body_loop 0 g s = None"
| "body_loop (Suc fuel) g s =
     (case s of (body, stack) \<Rightarrow>
        (case stack of
           [] \<Rightarrow> Some body
         | m # rest \<Rightarrow> body_loop fuel g (fold push_new (cfg_predecessors g m) (body, rest))))"

definition natural_loop_body :: "cfg \<Rightarrow> nat \<Rightarrow> nat list \<Rightarrow> nat set option" where
  "natural_loop_body g header latches = body_loop (Suc (node_count g)) g (fold push_new latches ({header}, []))"

primrec build_loops :: "cfg \<Rightarrow> (nat \<times> nat list) list \<Rightarrow> natural_loop list option" where
  "build_loops g [] = Some []"
| "build_loops g (hl # m) =
     (case hl of (header, latches) \<Rightarrow>
        (case natural_loop_body g header latches of
           None \<Rightarrow> None
         | Some body \<Rightarrow>
             (case build_loops g m of
                None \<Rightarrow> None
              | Some loops \<Rightarrow> Some (\<lparr>l_header = header, l_latches = latches, l_body = body\<rparr> # loops))))"

definition detect :: "cfg \<Rightarrow> idom \<Rightarrow> natural_loop list option" where
  "detect g tree =
     (case collect_back_edges g tree [0..<node_count g] [] of
        None \<Rightarrow> None
      | Some m \<Rightarrow> build_loops g m)"

definition is_header :: "natural_loop list \<Rightarrow> nat \<Rightarrow> bool" where
  "is_header loops node \<longleftrightarrow> list_ex (\<lambda>l. l_header l = node) loops"

definition headers :: "natural_loop list \<Rightarrow> nat set" where
  "headers loops = set (map l_header loops)"

definition loop_with_header :: "natural_loop list \<Rightarrow> nat \<Rightarrow> natural_loop option" where
  "loop_with_header loops node = find (\<lambda>l. l_header l = node) loops"

section \<open>The body of a loop\<close>

text \<open>The reference: the nodes from which a latch is reached without passing the header.\<close>

inductive reaches_latch :: "cfg \<Rightarrow> nat \<Rightarrow> nat set \<Rightarrow> nat \<Rightarrow> bool" for g h L where
  at_latch: "l \<in> L \<Longrightarrow> l \<noteq> h \<Longrightarrow> reaches_latch g h L l"
| before_latch: "reaches_latch g h L v \<Longrightarrow> edge (cfg_succ g) u v \<Longrightarrow> u \<noteq> h \<Longrightarrow> reaches_latch g h L u"

definition body_inv :: "cfg \<Rightarrow> nat \<Rightarrow> nat set \<Rightarrow> nat set \<times> nat list \<Rightarrow> bool" where
  "body_inv g h L s \<longleftrightarrow> (case s of (body, stack) \<Rightarrow>
     h \<in> body \<and> body \<subseteq> {..<node_count g} \<and> distinct stack \<and> set stack \<subseteq> body - {h} \<and>
     (\<forall>v\<in>body. v \<noteq> h \<longrightarrow> reaches_latch g h L v) \<and> L \<subseteq> body \<and>
     (\<forall>v\<in>body - set stack. v \<noteq> h \<longrightarrow> set (cfg_predecessors g v) \<subseteq> body))"

lemma cfg_edge_pred:
  assumes "cfg_ok g" and "v < node_count g"
  shows "set (cfg_predecessors g v) \<subseteq> {..<node_count g}" and "edge (cfg_succ g) u v \<longleftrightarrow> u \<in> set (cfg_predecessors g v)"
proof -
  have d: "dual (node_count g) (cfg_succ g, cfg_pred g)" using assms(1) by (simp add: cfg_ok_def)
  then show "set (cfg_predecessors g v) \<subseteq> {..<node_count g}" using assms(2) by (simp add: dual_def graph_ok_def cfg_predecessors_def)
  have "flow_graph (node_count g) (cfg_entry g) (cfg_succ g) (cfg_pred g)"
    using assms(1) by unfold_locales (simp_all add: cfg_ok_def)
  from flow_graph.edge_pred [OF this assms(2)] show "edge (cfg_succ g) u v \<longleftrightarrow> u \<in> set (cfg_predecessors g v)"
    by (simp add: cfg_predecessors_def)
qed

lemma fold_push_new:
  "set ps \<subseteq> {..<n} \<Longrightarrow> body \<subseteq> {..<n} \<Longrightarrow> distinct stack \<Longrightarrow> set stack \<subseteq> body \<Longrightarrow>
   case fold push_new ps (body, stack) of (body', stack') \<Rightarrow>
     body' = body \<union> set ps \<and> distinct stack' \<and> set stack' = set stack \<union> (set ps - body) \<and>
     n - card body' + length stack' \<le> n - card body + length stack"
proof (induction ps arbitrary: body stack)
  case (Cons p ps)
  show ?case
  proof (cases "p \<in> body")
    case True
    then show ?thesis using Cons.IH [of body stack] Cons.prems by (auto simp: push_new_def split: prod.splits)
  next
    case False
    have f: "finite body" using Cons.prems(2) finite_subset by blast
    have "card (insert p body) \<le> n" using Cons.prems card_mono [of "{..<n}" "insert p body"] by simp
    then have c: "n - card (insert p body) + length (p # stack) \<le> n - card body + length stack" using False f by simp
    have "case fold push_new ps (insert p body, p # stack) of (body', stack') \<Rightarrow>
       body' = insert p body \<union> set ps \<and> distinct stack' \<and> set stack' = set (p # stack) \<union> (set ps - insert p body) \<and>
       n - card body' + length stack' \<le> n - card (insert p body) + length (p # stack)"
      using Cons.prems False by (intro Cons.IH) auto
    moreover have "fold push_new (p # ps) (body, stack) = fold push_new ps (insert p body, p # stack)" using False by (simp add: push_new_def)
    moreover have "insert p body \<union> set ps = body \<union> set (p # ps)"
      "set (p # stack) \<union> (set ps - insert p body) = set stack \<union> (set (p # ps) - body)" using False by auto
    ultimately show ?thesis using c by (cases "fold push_new ps (insert p body, p # stack)") (simp del: fold_simps, elim conjE, linarith)
  qed
qed simp

lemma body_step:
  assumes ok: "cfg_ok g" and i: "body_inv g h L (body, m # rest)"
  shows "body_inv g h L (fold push_new (cfg_predecessors g m) (body, rest))"
    and "node_count g - card (fst (fold push_new (cfg_predecessors g m) (body, rest))) + length (snd (fold push_new (cfg_predecessors g m) (body, rest)))
      < node_count g - card body + length (m # rest)"
proof -
  obtain body' stack' where f: "fold push_new (cfg_predecessors g m) (body, rest) = (body', stack')" by fastforce
  have I: "h \<in> body" "body \<subseteq> {..<node_count g}" "distinct (m # rest)" "set (m # rest) \<subseteq> body - {h}" "L \<subseteq> body"
    "\<And>v. v \<in> body \<Longrightarrow> v \<noteq> h \<Longrightarrow> reaches_latch g h L v"
    "\<And>v. v \<in> body - set (m # rest) \<Longrightarrow> v \<noteq> h \<Longrightarrow> set (cfg_predecessors g v) \<subseteq> body"
    using i by (auto simp: body_inv_def)
  have m: "m < node_count g" "m \<in> body" "m \<noteq> h" using I(2,4) by auto
  have p: "set (cfg_predecessors g m) \<subseteq> {..<node_count g}"
    and e: "\<And>q. q \<in> set (cfg_predecessors g m) \<Longrightarrow> edge (cfg_succ g) q m"
    using cfg_edge_pred [OF ok m(1)] by blast+
  have F: "body' = body \<union> set (cfg_predecessors g m)" "distinct stack'" "set stack' = set rest \<union> (set (cfg_predecessors g m) - body)"
    "node_count g - card body' + length stack' \<le> node_count g - card body + length rest"
    using fold_push_new [OF p I(2), of rest] I(3,4) unfolding f by auto
  have "reaches_latch g h L v" if "v \<in> body'" "v \<noteq> h" for v
    using that I(6) F(1) before_latch [OF I(6) [OF m(2,3)] e] by auto
  moreover have "set (cfg_predecessors g v) \<subseteq> body'" if "v \<in> body' - set stack'" "v \<noteq> h" for v
    using that I(7) [of v] F(1,3) by (cases "v = m") auto
  ultimately show "body_inv g h L (fold push_new (cfg_predecessors g m) (body, rest))"
    unfolding f body_inv_def prod.case using F(1-3) I p by auto
  show "node_count g - card (fst (fold push_new (cfg_predecessors g m) (body, rest))) + length (snd (fold push_new (cfg_predecessors g m) (body, rest)))
      < node_count g - card body + length (m # rest)"
    unfolding f using F(4) by simp
qed

lemma body_loop_correct:
  assumes ok: "cfg_ok g" and "body_inv g h L s" "node_count g - card (fst s) + length (snd s) < fuel"
  shows "\<exists>body. body_loop fuel g s = Some body \<and> body_inv g h L (body, [])"
  using assms(2,3)
proof (induction fuel arbitrary: s)
  case (Suc fuel)
  obtain body stack where s: "s = (body, stack)" by fastforce
  show ?case
  proof (cases stack)
    case Nil
    then show ?thesis using Suc.prems s by simp
  next
    case (Cons m rest)
    note b = body_step [OF ok Suc.prems(1) [unfolded s Cons]]
    have "node_count g - card (fst (fold push_new (cfg_predecessors g m) (body, rest))) + length (snd (fold push_new (cfg_predecessors g m) (body, rest))) < fuel"
      using b(2) Suc.prems(2) s Cons by simp
    from Suc.IH [OF b(1) this] show ?thesis using s Cons by simp
  qed
qed simp

lemma natural_loop_body_exact:
  assumes ok: "cfg_ok g" and h: "h < node_count g" and l: "set ls \<subseteq> {..<node_count g}"
  shows "natural_loop_body g h ls = Some (insert h {v. reaches_latch g h (set ls) v})"
proof -
  obtain body stack where f: "fold push_new ls ({h}, []) = (body, stack)" by fastforce
  have F: "body = insert h (set ls)" "distinct stack" "set stack = set ls - {h}"
    "node_count g - card body + length stack \<le> node_count g - card {h}"
    using fold_push_new [OF l, of "{h}" "[]"] h unfolding f by auto
  have i: "body_inv g h (set ls) (body, stack)" using F h l by (auto simp: body_inv_def intro: at_latch)
  have "node_count g - card (fst (body, stack)) + length (snd (body, stack)) < Suc (node_count g)" using F(4) by simp
  from body_loop_correct [OF ok i this] obtain b where b: "natural_loop_body g h ls = Some b" "body_inv g h (set ls) (b, [])"
    unfolding natural_loop_body_def f by blast
  have B: "h \<in> b" "b \<subseteq> {..<node_count g}" "set ls \<subseteq> b" "\<And>v. v \<in> b \<Longrightarrow> v \<noteq> h \<Longrightarrow> reaches_latch g h (set ls) v"
    "\<And>v. v \<in> b \<Longrightarrow> v \<noteq> h \<Longrightarrow> set (cfg_predecessors g v) \<subseteq> b"
    using b(2) by (auto simp: body_inv_def)
  have "v \<in> b \<and> v \<noteq> h" if "reaches_latch g h (set ls) v" for v
    using that
  proof (induction rule: reaches_latch.induct)
    case (before_latch v u)
    then have "v < node_count g" using B(2) by auto
    then have "u \<in> set (cfg_predecessors g v)" using cfg_edge_pred(2) [OF ok] before_latch.hyps(2) by blast
    then show ?case using B(5) [of v] before_latch by auto
  qed (use B(3) in auto)
  then have "b = insert h {v. reaches_latch g h (set ls) v}" using B(1,4) by auto
  then show ?thesis using b(1) by simp
qed

section \<open>Back edges\<close>

definition latches_of :: "(nat \<times> nat list) list \<Rightarrow> nat \<Rightarrow> nat set" where
  "latches_of m h = (case map_of m h of None \<Rightarrow> {} | Some ls \<Rightarrow> set ls)"

definition latch_table :: "(nat \<times> nat list) list \<Rightarrow> bool" where
  "latch_table m \<longleftrightarrow> sorted_wrt (<) (map fst m) \<and> (\<forall>(h, ls)\<in>set m. ls \<noteq> [])"

lemma push_latch_keys: "fst ` set (push_latch h n m) = insert h (fst ` set m)"
  by (induction h n m rule: push_latch.induct) auto

lemma push_latch_table: "latch_table m \<Longrightarrow> latch_table (push_latch h n m)"
proof (induction h n m rule: push_latch.induct)
  case (2 h n k ls m)
  have "\<forall>x\<in>fst ` set (push_latch h n m). k < x" if "k < h" "\<forall>x\<in>fst ` set m. k < x" using that push_latch_keys by auto
  then show ?case using 2 by (auto simp: latch_table_def)
qed (simp add: latch_table_def)

lemma push_latch_lookup:
  "sorted_wrt (<) (map fst m) \<Longrightarrow>
   map_of (push_latch h n m) k = (if k = h then Some ((case map_of m h of None \<Rightarrow> [] | Some ls \<Rightarrow> ls) @ [n]) else map_of m k)"
proof (induction h n m rule: push_latch.induct)
  case (2 h n k' ls m)
  have "map_of m h = None" if "h < k'" using 2(2) that by (fastforce simp: map_of_eq_None_iff)
  then show ?case using 2 by (cases "h < k'") auto
qed simp

lemma latches_push: "latch_table m \<Longrightarrow> latches_of (push_latch h n m) k = latches_of m k \<union> (if k = h then {n} else {})"
  by (auto simp: latch_table_def latches_of_def push_latch_lookup split: option.splits)

lemma latch_table_keys:
  assumes "latch_table m"
  shows "h \<in> fst ` set m \<longleftrightarrow> latches_of m h \<noteq> {}"
proof (cases "map_of m h")
  case None
  then have "h \<notin> fst ` set m" by (simp add: map_of_eq_None_iff)
  then show ?thesis using None by (simp add: latches_of_def)
next
  case (Some ls)
  have "(h, ls) \<in> set m" using Some by (rule map_of_SomeD)
  then have "h \<in> fst ` set m" "ls \<noteq> []" using assms by (auto simp: latch_table_def rev_image_eqI)
  then show ?thesis using Some by (simp add: latches_of_def)
qed

lemma latch_table_entry:
  assumes "latch_table m" and "(h, ls) \<in> set m"
  shows "latches_of m h = set ls"
proof -
  have "distinct (map fst m)" using assms(1) by (simp add: latch_table_def strict_sorted_iff)
  then show ?thesis using assms(2) by (simp add: latches_of_def)
qed

lemma collect_successors_correct:
  assumes "\<And>a b. dominates g tree a b = Some (D a b)" and "latch_table m"
  shows "\<exists>m'. collect_successors g tree n hs m = Some m' \<and> latch_table m' \<and>
    (\<forall>h. latches_of m' h = latches_of m h \<union> {v. v = n \<and> h \<in> set hs \<and> D h n})"
  using assms(2)
proof (induction hs arbitrary: m)
  case (Cons h hs)
  let ?m = "if D h n then push_latch h n m else m"
  have t: "latch_table ?m" using Cons.prems push_latch_table by simp
  have "latches_of ?m k = latches_of m k \<union> {v. v = n \<and> k = h \<and> D h n}" for k using latches_push [OF Cons.prems] by auto
  then show ?case using Cons.IH [OF t] assms(1) by fastforce
qed simp

lemma collect_back_edges_correct:
  assumes "\<And>a b. dominates g tree a b = Some (D a b)" and "latch_table m"
  shows "\<exists>m'. collect_back_edges g tree ns m = Some m' \<and> latch_table m' \<and>
    (\<forall>h. latches_of m' h = latches_of m h \<union> {v \<in> set ns. h \<in> set (cfg_successors g v) \<and> D h v})"
  using assms(2)
proof (induction ns arbitrary: m)
  case (Cons n ns)
  obtain m1 where m1: "collect_successors g tree n (cfg_successors g n) m = Some m1" "latch_table m1"
    "\<And>h. latches_of m1 h = latches_of m h \<union> {v. v = n \<and> h \<in> set (cfg_successors g n) \<and> D h n}"
    using collect_successors_correct [OF assms(1) Cons.prems] by blast
  obtain m2 where m2: "collect_back_edges g tree ns m1 = Some m2" "latch_table m2"
    "\<And>h. latches_of m2 h = latches_of m1 h \<union> {v \<in> set ns. h \<in> set (cfg_successors g v) \<and> D h v}"
    using Cons.IH [OF m1(2)] by blast
  have "latches_of m2 h = latches_of m h \<union> {v \<in> set (n # ns). h \<in> set (cfg_successors g v) \<and> D h v}" for h
    unfolding m2(3) m1(3) by auto
  then show ?case using m1(1) m2(1,2) by simp
qed simp

lemma build_loops_correct:
  assumes ok: "cfg_ok g" and "\<forall>(h, ls)\<in>set m. h < node_count g \<and> set ls \<subseteq> {..<node_count g}"
  shows "build_loops g m = Some (map (\<lambda>(h, ls). \<lparr>l_header = h, l_latches = ls, l_body = insert h {v. reaches_latch g h (set ls) v}\<rparr>) m)"
  using assms(2) by (induction m) (auto simp: natural_loop_body_exact [OF ok])

lemma body_dominated:
  assumes "reaches_latch g h L v" and "\<And>l. l \<in> L \<Longrightarrow> dominator (cfg_succ g) root h l" and "reachable (cfg_succ g) root v"
  shows "dominator (cfg_succ g) root h v"
proof -
  have "\<not> avoiding (cfg_succ g) root h v"
    using assms(1)
  proof (induction rule: reaches_latch.induct)
    case (at_latch l)
    then show ?case using assms(2) by (simp add: dominator_def)
  next
    case (before_latch v u)
    have "v \<noteq> h" using before_latch.hyps(1) by cases auto
    then show ?case using before_latch avoiding_step [of "cfg_succ g" root h u v] by blast
  qed
  then show ?thesis using assms(3) by (simp add: dominator_def)
qed

lemma detect_exact:
  assumes ok: "cfg_ok g" and dom: "\<And>a b. dominates g tree a b = Some (D a b)"
  shows "\<exists>loops. detect g tree = Some loops \<and> sorted_wrt (<) (map l_header loops) \<and>
    (\<forall>h. h \<in> set (map l_header loops) \<longleftrightarrow> (\<exists>n. edge (cfg_succ g) n h \<and> D h n)) \<and>
    (\<forall>l\<in>set loops. set (l_latches l) = {n. edge (cfg_succ g) n (l_header l) \<and> D (l_header l) n} \<and>
       l_body l = insert (l_header l) {v. reaches_latch g (l_header l) (set (l_latches l)) v})"
proof -
  let ?f = "\<lambda>(h, ls). \<lparr>l_header = h, l_latches = ls, l_body = insert h {v. reaches_latch g h (set ls) v}\<rparr>"
  obtain m where m: "collect_back_edges g tree [0..<node_count g] [] = Some m" "latch_table m"
    "\<And>h. latches_of m h = {v \<in> {..<node_count g}. h \<in> set (cfg_successors g v) \<and> D h v}"
    using collect_back_edges_correct [OF dom, of "[]" "[0..<node_count g]"] by (auto simp: latch_table_def latches_of_def atLeast0LessThan)
  have len: "length (cfg_succ g) = node_count g" and gr: "graph_ok (node_count g) (cfg_succ g)"
    using ok by (simp_all add: cfg_ok_def dual_def graph_ok_def)
  have L: "latches_of m h = {v. edge (cfg_succ g) v h \<and> D h v}" for h
    unfolding m(3) by (auto simp: edge_def cfg_successors_def len)
  have "\<forall>(h, ls)\<in>set m. h < node_count g \<and> set ls \<subseteq> {..<node_count g}"
  proof clarify
    fix h ls assume e: "(h, ls) \<in> set m"
    have "set ls = {v. edge (cfg_succ g) v h \<and> D h v}" "ls \<noteq> []"
      using latch_table_entry [OF m(2) e] L e m(2) by (auto simp: latch_table_def)
    moreover from this obtain v where "v \<in> set ls" by (cases ls) auto
    ultimately show "h < node_count g \<and> set ls \<subseteq> {..<node_count g}"
      using graph_ok_edge [OF gr] by (auto simp: edge_def len)
  qed
  from build_loops_correct [OF ok this] have d: "detect g tree = Some (map ?f m)" using m(1) by (simp add: detect_def)
  have hs: "map l_header (map ?f m) = map fst m" by (simp add: comp_def split_beta)
  have "h \<in> set (map fst m) \<longleftrightarrow> (\<exists>n. edge (cfg_succ g) n h \<and> D h n)" for h using latch_table_keys [OF m(2), of h] L by auto
  moreover have "set (l_latches l) = {n. edge (cfg_succ g) n (l_header l) \<and> D (l_header l) n} \<and>
       l_body l = insert (l_header l) {v. reaches_latch g (l_header l) (set (l_latches l)) v}" if l: "l \<in> set (map ?f m)" for l
  proof -
    obtain h ls where e: "(h, ls) \<in> set m" "l = ?f (h, ls)" using l by auto
    then show ?thesis using latch_table_entry [OF m(2) e(1)] unfolding L by simp
  qed
  ultimately show ?thesis
    using d m(2) unfolding latch_table_def hs [symmetric] by blast
qed

text \<open>
  Property C24. Loop detection returns for every function with a block, and its result is exact: the loops are listed by ascending header, the
  headers are precisely the nodes with an incoming back edge (an edge whose source they dominate), the latches are all its
  sources, and the body is the header with every node that reaches a latch without passing the header. Every body node that is
  reachable is dominated by the header.
\<close>

theorem natural_loops_exact:
  assumes "f_blocks f \<noteq> []"
  shows "\<exists>tree loops. dominators_new (from_function f) = Some tree \<and> detect (from_function f) tree = Some loops \<and>
    sorted_wrt (<) (map l_header loops) \<and>
    (\<forall>h. is_header loops h \<longleftrightarrow> (\<exists>n. edge (cfg_succ (from_function f)) n h \<and>
       dominator (cfg_succ (from_function f)) (cfg_entry (from_function f)) h n)) \<and>
    (\<forall>l\<in>set loops.
       set (l_latches l) = {n. edge (cfg_succ (from_function f)) n (l_header l) \<and>
         dominator (cfg_succ (from_function f)) (cfg_entry (from_function f)) (l_header l) n} \<and>
       l_body l = insert (l_header l) {v. reaches_latch (from_function f) (l_header l) (set (l_latches l)) v} \<and>
       (\<forall>v. contains l v \<and> reachable (cfg_succ (from_function f)) (cfg_entry (from_function f)) v \<longrightarrow>
          dominator (cfg_succ (from_function f)) (cfg_entry (from_function f)) (l_header l) v))"
proof -
  let ?g = "from_function f"
  let ?dom = "dominator (cfg_succ ?g) (cfg_entry ?g)"
  obtain tree where t: "dominators_new ?g = Some tree" "\<And>a b. dominates ?g tree a b = Some (?dom a b)"
    using dominators_total [OF assms] by blast
  obtain loops where l: "detect ?g tree = Some loops" "sorted_wrt (<) (map l_header loops)"
    "\<And>h. h \<in> set (map l_header loops) \<longleftrightarrow> (\<exists>n. edge (cfg_succ ?g) n h \<and> ?dom h n)"
    "\<And>l. l \<in> set loops \<Longrightarrow> set (l_latches l) = {n. edge (cfg_succ ?g) n (l_header l) \<and> ?dom (l_header l) n}"
    "\<And>l. l \<in> set loops \<Longrightarrow> l_body l = insert (l_header l) {v. reaches_latch ?g (l_header l) (set (l_latches l)) v}"
    using detect_exact [OF from_function_correct(1) t(2)] by blast
  have h: "is_header loops h \<longleftrightarrow> h \<in> set (map l_header loops)" for h by (auto simp: is_header_def list_ex_iff)
  have "?dom (l_header l) v" if "l \<in> set loops" "contains l v" "reachable (cfg_succ ?g) (cfg_entry ?g) v" for l v
  proof (cases "v = l_header l")
    case True
    then show ?thesis using that(3) avoiding_ne by (auto simp: dominator_def)
  next
    case False
    then have "reaches_latch ?g (l_header l) (set (l_latches l)) v" using that(2) l(5) [OF that(1)] by (simp add: contains_def)
    then show ?thesis using body_dominated l(4) [OF that(1)] that(3) by blast
  qed
  then show ?thesis using l(2,3) unfolding h [symmetric]
    by (intro exI [of _ tree] exI [of _ loops] conjI t(1) l(1) ballI l(4,5)) blast+
qed

text \<open>A loop, \<open>0 \<rightarrow> 1 \<rightleftharpoons> 2\<close>, that unreachable code (node 3) enters in the middle.\<close>

definition sneaky_function :: ir_function where
  "sneaky_function = \<lparr>f_id = 0, f_name = ''g'', f_params = [], f_ret_ty = TyUnit,
     f_blocks = [block_new 0 (Br 1 []), block_new 1 (Br 2 []), block_new 2 (Br 1 []), block_new 3 (Br 2 [])], f_entry = 0\<rparr>"

lemma sneaky_graph: "cfg_succ (from_function sneaky_function) = [[1], [2], [1], [2]]" "cfg_entry (from_function sneaky_function) = 0"
proof -
  have "index_blocks (map b_id (f_blocks sneaky_function)) = [0 \<mapsto> 0, 1 \<mapsto> 1, 2 \<mapsto> 2, 3 \<mapsto> 3]"
    by (simp add: sneaky_function_def block_new_def index_blocks_def numeral_eq_Suc)
  then show "cfg_succ (from_function sneaky_function) = [[1], [2], [1], [2]]"
    unfolding from_function_correct(3) by (simp add: sneaky_function_def block_new_def block_successors_def List.map_filter_simps)
  show "cfg_entry (from_function sneaky_function) = 0"
    by (simp add: sneaky_function_def block_new_def from_function_def index_blocks_def Let_def split: prod.splits)
qed

lemma sneaky_dominator:
  shows "dominator (cfg_succ (from_function sneaky_function)) 0 1 2" and "\<not> dominator (cfg_succ (from_function sneaky_function)) 0 1 3"
proof -
  let ?s = "cfg_succ (from_function sneaky_function)"
  have e: "edge ?s u v \<longleftrightarrow> (u, v) \<in> {(0, 1), (1, 2), (2, 1), (3, 2)}" for u v
    by (auto simp: sneaky_graph edge_def less_Suc_eq numeral_eq_Suc)
  have "v = 0" if "avoiding ?s 0 1 v" for v using that by induction (auto simp: e)
  moreover have "reachable ?s 0 2" by (rule reachable_step [of _ _ 1], rule reachable_step [OF reachable_root]) (simp_all add: e)
  ultimately show "dominator ?s 0 1 2" unfolding dominator_def by fastforce
  have "v \<noteq> 3" if "reachable ?s 0 v" for v using that by induction (auto simp: e)
  then show "\<not> dominator ?s 0 1 3" by (auto simp: dominator_def)
qed

theorem natural_loops_exact_witness:
  "\<exists>tree loops. dominators_new (from_function sneaky_function) = Some tree \<and>
     detect (from_function sneaky_function) tree = Some loops \<and> sorted_wrt (<) (map l_header loops)"
proof -
  have "f_blocks sneaky_function \<noteq> []" by (simp add: sneaky_function_def)
  from natural_loops_exact [OF this] show ?thesis by blast
qed

text \<open>
  The header does not dominate the whole body when unreachable code branches into the loop: in this function node 3 belongs
  to the body of the loop headed by 1, which does not dominate it.
\<close>

theorem loop_body_may_hold_unreachable_nodes:
  "\<exists>tree loops l. dominators_new (from_function sneaky_function) = Some tree \<and> detect (from_function sneaky_function) tree = Some loops \<and>
     l \<in> set loops \<and> l_header l = 1 \<and> contains l 3 \<and> dominates (from_function sneaky_function) tree 1 3 = Some False"
proof -
  let ?g = "from_function sneaky_function"
  obtain tree where t: "dominators_new ?g = Some tree" "\<And>a b. dominates ?g tree a b = Some (dominator (cfg_succ ?g) 0 a b)"
    using dominators_total [of sneaky_function] sneaky_graph(2) by (auto simp: sneaky_function_def)
  obtain loops where l: "detect ?g tree = Some loops"
    "\<And>h. h \<in> set (map l_header loops) \<longleftrightarrow> (\<exists>n. edge (cfg_succ ?g) n h \<and> dominator (cfg_succ ?g) 0 h n)"
    "\<And>l. l \<in> set loops \<Longrightarrow> set (l_latches l) = {n. edge (cfg_succ ?g) n (l_header l) \<and> dominator (cfg_succ ?g) 0 (l_header l) n}"
    "\<And>l. l \<in> set loops \<Longrightarrow> l_body l = insert (l_header l) {v. reaches_latch ?g (l_header l) (set (l_latches l)) v}"
    using detect_exact [OF from_function_correct(1) t(2)] by blast
  have e: "edge (cfg_succ ?g) 2 1" "edge (cfg_succ ?g) 3 2" by (simp_all add: sneaky_graph edge_def)
  have "1 \<in> set (map l_header loops)" using l(2) e(1) sneaky_dominator(1) by blast
  then obtain k where k: "k \<in> set loops" "l_header k = 1" by auto
  then have "2 \<in> set (l_latches k)" using l(3) e(1) sneaky_dominator(1) by auto
  then have "reaches_latch ?g 1 (set (l_latches k)) 3" using before_latch [OF at_latch e(2)] by simp
  then have "contains k 3" using l(4) [OF k(1)] k(2) by (simp add: contains_def)
  then show ?thesis using k sneaky_dominator(2) by (intro exI [of _ tree] exI [of _ loops] exI [of _ k] conjI t(1) l(1)) (simp_all add: t(2))
qed

end
