(* ===== verification/Absint_Interval.thy ===== *)
theory Absint_Interval
  imports Cfg_Loops
begin

text \<open>
  The interval lattice, \<open>crates/absint/src/interval.rs\<close>, and the contract of an abstract domain, \<open>crates/absint/src/domain.rs\<close>, as the
  locale \<open>abstract_domain\<close>. Finite endpoints are \<open>i128\<close> values, here integers with the saturation of the source written out.
\<close>

section \<open>Endpoints\<close>

datatype bound = NegInf | Fin int | PosInf

fun bound_min :: "bound \<Rightarrow> bound \<Rightarrow> bound" where
  "bound_min NegInf _ = NegInf"
| "bound_min _ NegInf = NegInf"
| "bound_min PosInf x = x"
| "bound_min x PosInf = x"
| "bound_min (Fin x) (Fin y) = Fin (min x y)"

fun bound_max :: "bound \<Rightarrow> bound \<Rightarrow> bound" where
  "bound_max PosInf _ = PosInf"
| "bound_max _ PosInf = PosInf"
| "bound_max NegInf x = x"
| "bound_max x NegInf = x"
| "bound_max (Fin x) (Fin y) = Fin (max x y)"

fun ble :: "bound \<Rightarrow> bound \<Rightarrow> bool" where
  "ble NegInf _ \<longleftrightarrow> True"
| "ble _ PosInf \<longleftrightarrow> True"
| "ble _ NegInf \<longleftrightarrow> False"
| "ble PosInf _ \<longleftrightarrow> False"
| "ble (Fin x) (Fin y) \<longleftrightarrow> x \<le> y"

fun bound_add :: "bound \<Rightarrow> bound \<Rightarrow> bound" where
  "bound_add NegInf PosInf = Fin 0"
| "bound_add PosInf NegInf = Fin 0"
| "bound_add NegInf _ = NegInf"
| "bound_add _ NegInf = NegInf"
| "bound_add PosInf _ = PosInf"
| "bound_add _ PosInf = PosInf"
| "bound_add (Fin x) (Fin y) =
     (case checked_i128 (x + y) of Some v \<Rightarrow> Fin v | None \<Rightarrow> if x > 0 then PosInf else NegInf)"

fun bound_neg :: "bound \<Rightarrow> bound" where
  "bound_neg NegInf = PosInf"
| "bound_neg PosInf = NegInf"
| "bound_neg (Fin x) = Fin (sat_i128 (- x))"

definition bound_scale :: "bool \<Rightarrow> int \<Rightarrow> bound" where
  "bound_scale pos k = (if k > 0 then if pos then PosInf else NegInf else if pos then NegInf else PosInf)"

definition bound_mul :: "bound \<Rightarrow> bound \<Rightarrow> bound" where
  "bound_mul a b =
     (if a = Fin 0 \<or> b = Fin 0 then Fin 0
      else case (a, b) of
        (Fin x, Fin y) \<Rightarrow>
          (case checked_i128 (x * y) of Some v \<Rightarrow> Fin v | None \<Rightarrow> if (x > 0) = (y > 0) then PosInf else NegInf)
      | (Fin k, e) \<Rightarrow> bound_scale (e = PosInf) k
      | (e, Fin k) \<Rightarrow> bound_scale (e = PosInf) k
      | (x, y) \<Rightarrow> if x = y then PosInf else NegInf)"

section \<open>Intervals\<close>

datatype interval = Bottom | Range bound bound

definition i_top :: interval where
  "i_top = Range NegInf PosInf"

definition singleton :: "int \<Rightarrow> interval" where
  "singleton n = Range (Fin n) (Fin n)"

definition i_range :: "int \<Rightarrow> int \<Rightarrow> interval" where
  "i_range lo hi = (if lo \<le> hi then Range (Fin lo) (Fin hi) else Bottom)"

fun i_meet :: "interval \<Rightarrow> interval \<Rightarrow> interval" where
  "i_meet Bottom _ = Bottom"
| "i_meet _ Bottom = Bottom"
| "i_meet (Range a b) (Range c d) =
     (let lo = bound_max a c; hi = bound_min b d in if ble lo hi then Range lo hi else Bottom)"

fun lower :: "interval \<Rightarrow> bound option" where
  "lower (Range lo _) = Some lo"
| "lower Bottom = None"

fun upper :: "interval \<Rightarrow> bound option" where
  "upper (Range _ hi) = Some hi"
| "upper Bottom = None"

definition as_upper_constraint :: "bool \<Rightarrow> interval \<Rightarrow> interval" where
  "as_upper_constraint strict i =
     (case upper i of
        Some hi \<Rightarrow> Range NegInf (if strict then bound_add hi (Fin (-1)) else hi)
      | None \<Rightarrow> Bottom)"

definition as_lower_constraint :: "bool \<Rightarrow> interval \<Rightarrow> interval" where
  "as_lower_constraint strict i =
     (case lower i of
        Some lo \<Rightarrow> Range (if strict then bound_add lo (Fin 1) else lo) PosInf
      | None \<Rightarrow> Bottom)"

definition is_bottom :: "interval \<Rightarrow> bool" where
  "is_bottom i \<longleftrightarrow> i = Bottom"

fun is_strictly_below :: "int \<Rightarrow> interval \<Rightarrow> bool" where
  "is_strictly_below n Bottom \<longleftrightarrow> True"
| "is_strictly_below n (Range _ hi) \<longleftrightarrow> ble hi (Fin (sat_i128 (n - 1)))"

fun is_at_least :: "int \<Rightarrow> interval \<Rightarrow> bool" where
  "is_at_least n Bottom \<longleftrightarrow> True"
| "is_at_least n (Range lo _) \<longleftrightarrow> ble (Fin n) lo"

fun i_add :: "interval \<Rightarrow> interval \<Rightarrow> interval" where
  "i_add Bottom _ = Bottom"
| "i_add _ Bottom = Bottom"
| "i_add (Range a b) (Range c d) = Range (bound_add a c) (bound_add b d)"

fun i_neg :: "interval \<Rightarrow> interval" where
  "i_neg Bottom = Bottom"
| "i_neg (Range a b) = Range (bound_neg b) (bound_neg a)"

definition i_sub :: "interval \<Rightarrow> interval \<Rightarrow> interval" where
  "i_sub i j = i_add i (i_neg j)"

fun i_mul :: "interval \<Rightarrow> interval \<Rightarrow> interval" where
  "i_mul Bottom _ = Bottom"
| "i_mul _ Bottom = Bottom"
| "i_mul (Range a b) (Range c d) =
     (let p = bound_mul a c; q = bound_mul a d; r = bound_mul b c; s = bound_mul b d
      in Range (bound_min (bound_min (bound_min p q) r) s) (bound_max (bound_max (bound_max p q) r) s))"

fun i_join :: "interval \<Rightarrow> interval \<Rightarrow> interval" where
  "i_join Bottom x = x"
| "i_join x Bottom = x"
| "i_join (Range a b) (Range c d) = Range (bound_min a c) (bound_max b d)"

fun i_widen :: "interval \<Rightarrow> interval \<Rightarrow> interval" where
  "i_widen Bottom x = x"
| "i_widen x Bottom = x"
| "i_widen (Range a b) (Range c d) = Range (if ble a c then a else NegInf) (if ble d b then b else PosInf)"

fun i_narrow :: "interval \<Rightarrow> interval \<Rightarrow> interval" where
  "i_narrow Bottom _ = Bottom"
| "i_narrow _ Bottom = Bottom"
| "i_narrow (Range a b) (Range c d) = Range (if a = NegInf then c else a) (if b = PosInf then d else b)"

fun i_leq :: "interval \<Rightarrow> interval \<Rightarrow> bool" where
  "i_leq Bottom _ \<longleftrightarrow> True"
| "i_leq _ Bottom \<longleftrightarrow> False"
| "i_leq (Range a b) (Range c d) \<longleftrightarrow> ble c a \<and> ble b d"

section \<open>The order of the endpoints\<close>

lemma ble_refl [simp]: "ble a a"
  by (cases a) auto

lemma ble_top [simp]: "ble a PosInf"
  by (cases a) auto

lemma ble_trans: "ble a b \<Longrightarrow> ble b c \<Longrightarrow> ble a c"
  by (cases a; cases b; cases c) auto

lemma ble_antisym: "ble a b \<Longrightarrow> ble b a \<Longrightarrow> a = b"
  by (cases a; cases b) auto

lemma ble_linear: "ble a b \<or> ble b a"
  by (cases a; cases b) auto

lemma bound_min_le: "ble (bound_min a b) c \<longleftrightarrow> ble a c \<or> ble b c"
  by (cases a; cases b; cases c) auto

lemma bound_min_ge: "ble c (bound_min a b) \<longleftrightarrow> ble c a \<and> ble c b"
  by (cases a; cases b; cases c) auto

lemma bound_max_le: "ble (bound_max a b) c \<longleftrightarrow> ble a c \<and> ble b c"
  by (cases a; cases b; cases c) auto

lemma bound_max_ge: "ble c (bound_max a b) \<longleftrightarrow> ble c a \<or> ble c b"
  by (cases a; cases b; cases c) auto

lemmas bound_order = bound_min_le bound_min_ge bound_max_le bound_max_ge

lemma bound_min_assoc: "bound_min (bound_min a b) c = bound_min a (bound_min b c)"
  by (cases a; cases b; cases c) (auto simp: min.assoc)

lemma bound_max_assoc: "bound_max (bound_max a b) c = bound_max a (bound_max b c)"
  by (cases a; cases b; cases c) (auto simp: max.assoc)

lemma bound_min_comm: "bound_min a b = bound_min b a"
  by (cases a; cases b) (auto simp: min.commute)

lemma bound_max_comm: "bound_max a b = bound_max b a"
  by (cases a; cases b) (auto simp: max.commute)

lemma bound_min_idem [simp]: "bound_min a a = a"
  by (cases a) auto

lemma bound_max_idem [simp]: "bound_max a a = a"
  by (cases a) auto

section \<open>The contract of an abstract domain\<close>

text \<open>
  The laws documented on the trait \<open>AbstractDomain\<close>: \<open>join\<close> is a least upper bound with \<open>bottom\<close> as identity, \<open>leq\<close> a partial
  order, \<open>widen\<close> extensive, and no chain accelerated by \<open>widen\<close> ascends for ever. They hold on the elements \<open>ok\<close> that the
  operations produce.
\<close>

locale abstract_domain =
  fixes ok :: "'d \<Rightarrow> bool" and bottom :: 'd and join widen :: "'d \<Rightarrow> 'd \<Rightarrow> 'd" and leq :: "'d \<Rightarrow> 'd \<Rightarrow> bool"
  assumes bottom_ok: "ok bottom" and join_ok: "ok a \<Longrightarrow> ok b \<Longrightarrow> ok (join a b)" and widen_ok: "ok a \<Longrightarrow> ok b \<Longrightarrow> ok (widen a b)"
    and leq_refl: "ok a \<Longrightarrow> leq a a" and leq_trans: "ok a \<Longrightarrow> ok b \<Longrightarrow> ok c \<Longrightarrow> leq a b \<Longrightarrow> leq b c \<Longrightarrow> leq a c"
    and leq_antisym: "ok a \<Longrightarrow> ok b \<Longrightarrow> leq a b \<Longrightarrow> leq b a \<Longrightarrow> a = b"
    and bottom_least: "ok a \<Longrightarrow> leq bottom a"
    and join_ub: "ok a \<Longrightarrow> ok b \<Longrightarrow> leq a (join a b) \<and> leq b (join a b)"
    and join_least: "ok a \<Longrightarrow> ok b \<Longrightarrow> ok c \<Longrightarrow> leq a c \<Longrightarrow> leq b c \<Longrightarrow> leq (join a b) c"
    and widen_ub: "ok a \<Longrightarrow> ok b \<Longrightarrow> leq a (widen a b) \<and> leq b (widen a b)"
    and widen_wf: "wf {(widen a b, a) | a b. ok a \<and> ok b \<and> widen a b \<noteq> a}"
begin

lemma join_comm: "ok a \<Longrightarrow> ok b \<Longrightarrow> join a b = join b a"
  by (rule leq_antisym) (use join_ok join_ub join_least in blast)+

lemma join_idem: "ok a \<Longrightarrow> join a a = a"
  by (rule leq_antisym) (use join_ok join_ub join_least leq_refl in blast)+

lemma join_assoc:
  assumes "ok a" "ok b" "ok c"
  shows "join (join a b) c = join a (join b c)"
proof (rule leq_antisym)
  note k = join_ok [OF assms(1,2)] join_ok [OF assms(2,3)]
  let ?l = "join (join a b) c" and ?r = "join a (join b c)"
  have ok: "ok ?l" "ok ?r" using k assms join_ok by auto
  then show "ok ?l" "ok ?r" .
  have "leq a (join a b)" "leq b (join a b)" "leq (join a b) ?l" "leq c ?l" using join_ub assms k by auto
  then have l: "leq a ?l" "leq b ?l" "leq c ?l" using leq_trans [OF assms(1) k(1) ok(1)] leq_trans [OF assms(2) k(1) ok(1)] by auto
  have "leq b (join b c)" "leq c (join b c)" "leq a ?r" "leq (join b c) ?r" using join_ub assms k by auto
  then have r: "leq a ?r" "leq b ?r" "leq c ?r" using leq_trans [OF assms(2) k(2) ok(2)] leq_trans [OF assms(3) k(2) ok(2)] by auto
  show "leq ?l ?r" using join_least assms k ok r by metis
  show "leq ?r ?l" using join_least assms k ok l by metis
qed

lemma bottom_join: "ok a \<Longrightarrow> join bottom a = a"
  by (rule leq_antisym) (use join_ok join_ub join_least leq_refl bottom_least bottom_ok in blast)+

text \<open>A chain that keeps widening becomes constant.\<close>

lemma widening_stabilises:
  assumes "\<And>i. ok (y i)" and "ok (x 0)" and "\<And>i. x (Suc i) = widen (x i) (y i)"
  shows "\<exists>i. x (Suc i) = x i"
proof (rule ccontr)
  assume "\<nexists>i. x (Suc i) = x i"
  moreover have "ok (x i)" for i by (induction i) (use assms widen_ok in auto)
  ultimately have "(x (Suc i), x i) \<in> {(widen a b, a) | a b. ok a \<and> ok b \<and> widen a b \<noteq> a}" for i
    unfolding assms(3) using assms(1) [of i] assms(3) [of i] by auto
  then show False using widen_wf unfolding wf_iff_no_infinite_down_chain by blast
qed

end

text \<open>Each widening step that changes an interval sends an endpoint to infinity.\<close>

fun i_rank :: "interval \<Rightarrow> nat" where
  "i_rank Bottom = 3"
| "i_rank (Range a b) = (if a = NegInf then 0 else 1) + (if b = PosInf then 0 else 1)"

lemma i_widen_rank: "i_widen a b \<noteq> a \<Longrightarrow> i_rank (i_widen a b) < i_rank a"
  by (cases a; cases b) (auto split: if_splits)

lemma i_leq_refl: "i_leq a a"
  by (cases a) auto

lemma i_leq_trans: "i_leq a b \<Longrightarrow> i_leq b c \<Longrightarrow> i_leq a c"
  by (cases a; cases b; cases c) (auto intro: ble_trans)

lemma i_leq_antisym: "i_leq a b \<Longrightarrow> i_leq b a \<Longrightarrow> a = b"
  by (cases a; cases b) (auto intro: ble_antisym)

lemma i_join_least: "i_leq a c \<Longrightarrow> i_leq b c \<Longrightarrow> i_leq (i_join a b) c"
  by (cases a; cases b; cases c) (auto simp: bound_order)

lemma i_join_ub: "i_leq a (i_join a b)" "i_leq b (i_join a b)"
proof -
  show "i_leq a (i_join a b)" by (cases a; cases b) (simp_all add: bound_order)
  show "i_leq b (i_join a b)" by (cases a; cases b) (simp_all add: bound_order)
qed

lemma i_widen_ub: "i_leq a (i_widen a b)" "i_leq b (i_widen a b)"
  by (cases a; cases b; simp; metis ble.simps(1,2) ble_linear ble_refl bound.exhaust)+

interpretation intervals: abstract_domain "\<lambda>_. True" Bottom i_join i_widen i_leq
proof
  have "{(i_widen a b, a) | a b. True \<and> True \<and> i_widen a b \<noteq> a} \<subseteq> measure i_rank" using i_widen_rank by auto
  then show "wf {(i_widen a b, a) | a b. True \<and> True \<and> i_widen a b \<noteq> a}" using wf_subset wf_measure by blast
qed (auto simp: i_leq_refl i_leq_antisym i_join_least i_join_ub i_widen_ub intro: i_leq_trans)

section \<open>The integers an interval stands for\<close>

fun i_gamma :: "interval \<Rightarrow> int set" where
  "i_gamma Bottom = {}"
| "i_gamma (Range lo hi) = {x. ble lo (Fin x) \<and> ble (Fin x) hi}"

text \<open>Finite endpoints are \<open>i128\<close> values.\<close>

fun bound_ok :: "bound \<Rightarrow> bool" where
  "bound_ok (Fin x) \<longleftrightarrow> in_i128 x"
| "bound_ok _ \<longleftrightarrow> True"

fun interval_ok :: "interval \<Rightarrow> bool" where
  "interval_ok Bottom \<longleftrightarrow> True"
| "interval_ok (Range lo hi) \<longleftrightarrow> bound_ok lo \<and> bound_ok hi"

lemma i_gamma_mono: "i_leq a b \<Longrightarrow> i_gamma a \<subseteq> i_gamma b"
  by (cases a; cases b) (auto intro: ble_trans)

lemma i_gamma_top [simp]: "i_gamma i_top = UNIV"
  by (simp add: i_top_def)

lemma i_gamma_singleton [simp]: "i_gamma (singleton n) = {n}"
  by (auto simp: singleton_def)

lemma i_gamma_range [simp]: "i_gamma (i_range lo hi) = {lo..hi}"
  by (auto simp: i_range_def)

lemma i_gamma_meet: "i_gamma (i_meet a b) = i_gamma a \<inter> i_gamma b"
proof -
  have "\<not> (ble lo (Fin x) \<and> ble (Fin x) hi)" if "\<not> ble lo hi" for lo hi x using that ble_trans by blast
  then show ?thesis by (cases a; cases b) (auto simp: Let_def bound_order)
qed

lemma bound_ok_min: "bound_ok a \<Longrightarrow> bound_ok b \<Longrightarrow> bound_ok (bound_min a b)"
  by (cases a; cases b) (auto simp: min_def)

lemma bound_ok_max: "bound_ok a \<Longrightarrow> bound_ok b \<Longrightarrow> bound_ok (bound_max a b)"
  by (cases a; cases b) (auto simp: max_def)

lemma bound_ok_add: "bound_ok (bound_add a b)"
  by (cases "(a, b)" rule: bound_add.cases) (auto simp: machine_simps i128_defs split: option.splits)

lemma bound_ok_neg: "bound_ok (bound_neg a)"
  by (cases a) (auto simp: sat_i128_range)

lemma bound_ok_mul: "bound_ok (bound_mul a b)"
proof -
  have "bound_ok (bound_scale p k)" for p k by (simp add: bound_scale_def)
  then show ?thesis by (auto simp: bound_mul_def machine_simps i128_defs split: bound.splits option.splits)
qed

lemma interval_ok_ops:
  shows "interval_ok i_top" "in_i128 n \<Longrightarrow> interval_ok (singleton n)" "in_i128 lo \<Longrightarrow> in_i128 hi \<Longrightarrow> interval_ok (i_range lo hi)"
    and "interval_ok (i_add a b)" "interval_ok (i_neg a)" "interval_ok (i_sub a b)" "interval_ok (i_mul a b)"
    and "interval_ok a \<Longrightarrow> interval_ok b \<Longrightarrow> interval_ok (i_meet a b)" "interval_ok a \<Longrightarrow> interval_ok b \<Longrightarrow> interval_ok (i_join a b)"
    and "interval_ok a \<Longrightarrow> interval_ok b \<Longrightarrow> interval_ok (i_widen a b)" "interval_ok a \<Longrightarrow> interval_ok b \<Longrightarrow> interval_ok (i_narrow a b)"
    and "interval_ok a \<Longrightarrow> interval_ok (as_upper_constraint st a)" "interval_ok a \<Longrightarrow> interval_ok (as_lower_constraint st a)"
proof -
  show add: "interval_ok (i_add a b)" for a b by (cases a; cases b) (auto simp: bound_ok_add)
  show "interval_ok (i_neg a)" by (cases a) (auto simp: bound_ok_neg)
  show "interval_ok (i_sub a b)" by (simp add: i_sub_def add)
  show "interval_ok (i_mul a b)" by (cases a; cases b) (simp_all add: Let_def bound_ok_mul bound_ok_min bound_ok_max)
  show "interval_ok a \<Longrightarrow> interval_ok b \<Longrightarrow> interval_ok (i_meet a b)" by (cases a; cases b) (auto simp: Let_def bound_ok_min bound_ok_max)
  show "interval_ok a \<Longrightarrow> interval_ok b \<Longrightarrow> interval_ok (i_join a b)" by (cases a; cases b) (auto simp: bound_ok_min bound_ok_max)
  show "interval_ok a \<Longrightarrow> interval_ok b \<Longrightarrow> interval_ok (i_widen a b)" by (cases a; cases b) auto
  show "interval_ok a \<Longrightarrow> interval_ok b \<Longrightarrow> interval_ok (i_narrow a b)" by (cases a; cases b) auto
  show "interval_ok a \<Longrightarrow> interval_ok (as_upper_constraint st a)" by (cases a) (auto simp: as_upper_constraint_def bound_ok_add)
  show "interval_ok a \<Longrightarrow> interval_ok (as_lower_constraint st a)" by (cases a) (auto simp: as_lower_constraint_def bound_ok_add)
qed (auto simp: i_top_def singleton_def i_range_def)

section \<open>Soundness of the arithmetic\<close>

lemma bound_add_lower:
  "ble a (Fin x) \<Longrightarrow> ble c (Fin y) \<Longrightarrow> bound_ok a \<Longrightarrow> bound_ok c \<Longrightarrow> in_i128 (x + y) \<Longrightarrow> ble (bound_add a c) (Fin (x + y))"
  by (cases a; cases c) (auto simp: checked_i128_def i128_defs)

lemma bound_add_upper:
  "ble (Fin x) b \<Longrightarrow> ble (Fin y) d \<Longrightarrow> bound_ok b \<Longrightarrow> bound_ok d \<Longrightarrow> in_i128 (x + y) \<Longrightarrow> ble (Fin (x + y)) (bound_add b d)"
  by (cases b; cases d) (auto simp: checked_i128_def i128_defs)

lemma i_add_sound:
  "x \<in> i_gamma a \<Longrightarrow> y \<in> i_gamma b \<Longrightarrow> interval_ok a \<Longrightarrow> interval_ok b \<Longrightarrow> in_i128 (x + y) \<Longrightarrow> x + y \<in> i_gamma (i_add a b)"
  by (cases a; cases b) (auto intro: bound_add_lower bound_add_upper)

lemma i_neg_sound: "x \<in> i_gamma a \<Longrightarrow> in_i128 (- x) \<Longrightarrow> - x \<in> i_gamma (i_neg a)"
proof (cases a)
  case (Range lo hi)
  assume "x \<in> i_gamma a" "in_i128 (- x)"
  then show ?thesis unfolding Range by (cases lo; cases hi) (auto simp: sat_i128_def i128_defs)
qed simp

lemma i_sub_sound:
  "x \<in> i_gamma a \<Longrightarrow> y \<in> i_gamma b \<Longrightarrow> interval_ok a \<Longrightarrow> in_i128 (- y) \<Longrightarrow> in_i128 (x - y) \<Longrightarrow> x - y \<in> i_gamma (i_sub a b)"
  using i_add_sound [of x a "- y" "i_neg b"] i_neg_sound [of y b] interval_ok_ops(5) [of b] by (simp add: i_sub_def)

text \<open>Exact products, clipped to the infinite endpoints.\<close>

definition clip :: "int \<Rightarrow> bound" where
  "clip t = (if t > i128_max then PosInf else if t < i128_min then NegInf else Fin t)"

lemma clip_mono: "s \<le> t \<Longrightarrow> ble (clip s) (clip t)"
  by (auto simp: clip_def i128_defs)

lemma clip_id: "in_i128 t \<Longrightarrow> clip t = Fin t"
  by (auto simp: clip_def i128_defs)

lemma bound_mul_fin: "bound_mul (Fin x) (Fin y) = clip (x * y)"
proof (cases "in_i128 (x * y)")
  case True
  then show ?thesis by (auto simp: bound_mul_def checked_i128_def clip_id)
next
  case False
  then have nz: "x \<noteq> 0" "y \<noteq> 0" by (auto simp: i128_defs)
  have "x * y > 0 \<longleftrightarrow> (x > 0) = (y > 0)" using nz by (auto simp: zero_less_mult_iff)
  moreover have "x * y > i128_max \<or> x * y < i128_min" "i128_max > 0" "i128_min < 0" using False by (auto simp: i128_defs)
  ultimately show ?thesis using False nz by (auto simp: bound_mul_def checked_i128_def clip_def)
qed

lemma bound_mul_comm: "bound_mul a b = bound_mul b a"
  by (cases a; cases b) (auto simp: bound_mul_def mult.commute)

lemma mul_between:
  fixes k c d y :: int
  assumes "c \<le> y" "y \<le> d"
  shows "k * c \<le> k * y \<and> k * y \<le> k * d \<or> k * d \<le> k * y \<and> k * y \<le> k * c"
  using assms by (cases "0 \<le> k") (auto intro: mult_left_mono mult_left_mono_neg)

lemma bound_mul_between:
  assumes "ble c (Fin y)" and "ble (Fin y) d"
  shows "ble (bound_min (bound_mul a c) (bound_mul a d)) (bound_mul a (Fin y))"
    and "ble (bound_mul a (Fin y)) (bound_max (bound_mul a c) (bound_mul a d))"
proof -
  have "ble (bound_min (bound_mul a c) (bound_mul a d)) (bound_mul a (Fin y)) \<and> ble (bound_mul a (Fin y)) (bound_max (bound_mul a c) (bound_mul a d))"
  proof (cases "\<exists>k e f. a = Fin k \<and> c = Fin e \<and> d = Fin f")
    case True
    then obtain k e f where *: "a = Fin k" "c = Fin e" "d = Fin f" by blast
    then show ?thesis using mul_between [of e y f k] assms clip_mono by (auto simp: bound_mul_fin bound_order)
  next
    case False
    then show ?thesis
    proof (cases a)
      case (Fin k)
      show ?thesis
      proof (cases "k = 0")
        case True
        then show ?thesis using Fin by (simp add: bound_mul_def)
      next
        case k: False
        have inf: "bound_mul (Fin k) PosInf = bound_scale True k" "bound_mul (Fin k) NegInf = bound_scale False k" using k by (auto simp: bound_mul_def)
        have fin: "bound_mul (Fin k) (Fin e) = clip (k * e)" for e by (simp add: bound_mul_fin)
        have le: "e \<le> f \<Longrightarrow> (if 0 < k then ble (clip (k * e)) (clip (k * f)) else ble (clip (k * f)) (clip (k * e)))" for e f
          using clip_mono mult_left_mono [of e f k] mult_left_mono_neg [of e f k] by auto
        show ?thesis
          using False Fin assms le by (cases c; cases d; cases "0 < k") (auto simp: inf fin bound_order bound_scale_def)
      qed
    qed (use assms in \<open>cases c; cases d; auto simp: bound_mul_def bound_scale_def bound_order split: if_splits\<close>)+
  qed
  then show "ble (bound_min (bound_mul a c) (bound_mul a d)) (bound_mul a (Fin y))"
    and "ble (bound_mul a (Fin y)) (bound_max (bound_mul a c) (bound_mul a d))" by auto
qed

lemma i_mul_sound:
  assumes "x \<in> i_gamma a" and "y \<in> i_gamma b" and "in_i128 (x * y)"
  shows "x * y \<in> i_gamma (i_mul a b)"
proof -
  obtain lo hi c d where ab: "a = Range lo hi" "b = Range c d" using assms by (cases a; cases b) auto
  have xy: "bound_mul (Fin x) (Fin y) = Fin (x * y)" using assms(3) by (simp add: bound_mul_fin clip_id)
  have x: "ble lo (Fin x)" "ble (Fin x) hi" and y: "ble c (Fin y)" "ble (Fin y) d" using assms ab by auto
  note m = bound_mul_between [OF x, of "Fin y"] and lo = bound_mul_between [OF y, of lo] and hi = bound_mul_between [OF y, of hi]
  have "ble (bound_min (bound_mul lo (Fin y)) (bound_mul hi (Fin y))) (Fin (x * y))"
    "ble (Fin (x * y)) (bound_max (bound_mul lo (Fin y)) (bound_mul hi (Fin y)))"
    using m xy by (simp_all add: bound_mul_comm)
  then have "ble (bound_mul lo (Fin y)) (Fin (x * y)) \<or> ble (bound_mul hi (Fin y)) (Fin (x * y))"
    "ble (Fin (x * y)) (bound_mul lo (Fin y)) \<or> ble (Fin (x * y)) (bound_mul hi (Fin y))" by (simp_all add: bound_order)
  then have "ble (bound_min (bound_mul lo c) (bound_mul lo d)) (Fin (x * y)) \<or> ble (bound_min (bound_mul hi c) (bound_mul hi d)) (Fin (x * y))"
    "ble (Fin (x * y)) (bound_max (bound_mul lo c) (bound_mul lo d)) \<or> ble (Fin (x * y)) (bound_max (bound_mul hi c) (bound_mul hi d))"
    using lo hi ble_trans by blast+
  then show ?thesis unfolding ab by (auto simp: Let_def bound_order)
qed

section \<open>Properties\<close>

text \<open>
  Property C28. The interval lattice keeps every law its trait documents: \<open>join\<close> is associative, commutative and idempotent with \<open>Bottom\<close> as
  identity and is the least upper bound of a partial order, \<open>widen\<close> is an upper bound, and every chain accelerated by \<open>widen\<close>
  becomes stationary.
\<close>

theorem interval_domain_laws:
  "i_join (i_join a b) c = i_join a (i_join b c) \<and> i_join a b = i_join b a \<and> i_join a a = a \<and> i_join Bottom a = a \<and>
   (i_leq (i_join a b) c \<longleftrightarrow> i_leq a c \<and> i_leq b c) \<and> (i_leq a b \<and> i_leq b a \<longleftrightarrow> a = b) \<and>
   i_leq a (i_widen a b) \<and> i_leq b (i_widen a b) \<and> (\<exists>k. rec_nat a (\<lambda>i x. i_widen x (ys i)) (Suc k) = rec_nat a (\<lambda>i x. i_widen x (ys i)) k)"
proof -
  have "i_leq (i_join a b) c \<longleftrightarrow> i_leq a c \<and> i_leq b c" using i_join_least i_join_ub i_leq_trans by blast
  moreover have "\<exists>k. rec_nat a (\<lambda>i x. i_widen x (ys i)) (Suc k) = rec_nat a (\<lambda>i x. i_widen x (ys i)) k"
    using intervals.widening_stabilises [where y = ys and x = "rec_nat a (\<lambda>i x. i_widen x (ys i))"] by simp
  ultimately show ?thesis
    using intervals.join_assoc intervals.join_comm intervals.join_idem intervals.bottom_join i_leq_antisym i_leq_refl i_widen_ub by blast
qed

text \<open>
  Interval arithmetic is sound on the \<open>i128\<close> range: sums, differences and products of members lie in the computed interval
  whenever the exact result (and, for a difference, the negated operand) fits, and the finite endpoints stay \<open>i128\<close> values.
\<close>

theorem interval_arithmetic_sound:
  assumes "x \<in> i_gamma a" and "y \<in> i_gamma b" and "interval_ok a" and "interval_ok b"
  shows "(in_i128 (x + y) \<longrightarrow> x + y \<in> i_gamma (i_add a b)) \<and>
    (in_i128 (- y) \<and> in_i128 (x - y) \<longrightarrow> x - y \<in> i_gamma (i_sub a b)) \<and>
    (in_i128 (x * y) \<longrightarrow> x * y \<in> i_gamma (i_mul a b)) \<and>
    interval_ok (i_add a b) \<and> interval_ok (i_sub a b) \<and> interval_ok (i_mul a b)"
  using assms i_add_sound i_sub_sound i_mul_sound interval_ok_ops(4,6,7) by blast

theorem interval_arithmetic_sound_witness: "6 \<in> i_gamma (i_mul (i_range 1 2) (i_range (-1) 3))"
proof -
  have "2 \<in> i_gamma (i_range 1 2)" "3 \<in> i_gamma (i_range (-1) 3)" by simp_all
  moreover have "interval_ok (i_range 1 2)" "interval_ok (i_range (-1) 3)" "in_i128 (2 * 3)" by (simp_all add: i_range_def i128_defs)
  ultimately show ?thesis using interval_arithmetic_sound [of 2 "i_range 1 2" 3 "i_range (-1) 3"] by simp
qed

text \<open>
  At \<open>i128::MIN\<close> the negation of the source saturates instead of widening, and the difference \<open>-1 - MIN\<close>, which fits, is not a member of
  the computed interval.
\<close>

theorem interval_sub_unsound_at_min:
  "in_i128 (-1 - i128_min) \<and> -1 - i128_min \<notin> i_gamma (i_sub (singleton (-1)) (singleton i128_min))"
  by (simp add: i_sub_def singleton_def sat_i128_def checked_i128_def i128_defs)

text \<open>The empty bound below \<open>i128::MIN\<close> saturates as well: \<open>MIN\<close> is reported to be strictly below \<open>MIN\<close>.\<close>

theorem is_strictly_below_wrong_at_min: "is_strictly_below i128_min (singleton i128_min)"
  by (simp add: singleton_def sat_i128_def i128_defs)

text \<open>Away from that point the two bound queries are exact.\<close>

lemma bound_queries_exact:
  assumes "i_gamma i \<noteq> {}" and "i128_min < n" "in_i128 n"
  shows "is_strictly_below n i \<longleftrightarrow> (\<forall>x\<in>i_gamma i. x < n) " and "is_at_least n i \<longleftrightarrow> (\<forall>x\<in>i_gamma i. n \<le> x)"
proof -
  obtain lo hi where i: "i = Range lo hi" using assms(1) by (cases i) auto
  obtain w where w: "ble lo (Fin w)" "ble (Fin w) hi" using assms(1) i by auto
  have s: "sat_i128 (n - 1) = n - 1" using assms by (auto simp: sat_i128_def i128_defs)
  show "is_strictly_below n i \<longleftrightarrow> (\<forall>x\<in>i_gamma i. x < n)"
  proof (cases hi)
    case PosInf
    have "max w n \<in> i_gamma i" using i w PosInf by (cases lo) auto
    then have "\<exists>x\<in>i_gamma i. \<not> x < n" by (rule bexI [rotated]) simp
    then show ?thesis using i PosInf by (auto simp: not_less)
  next
    case (Fin h)
    have "h \<in> i_gamma i" using i w Fin ble_trans by (cases lo) auto
    then show ?thesis using i Fin s by fastforce
  qed (use w in simp)
  show "is_at_least n i \<longleftrightarrow> (\<forall>x\<in>i_gamma i. n \<le> x)"
  proof (cases lo)
    case NegInf
    have "min w (n - 1) \<in> i_gamma i" using i w NegInf by (cases hi) auto
    then have "\<exists>x\<in>i_gamma i. \<not> n \<le> x" by (rule bexI [rotated]) simp
    then show ?thesis using i NegInf by (auto simp: not_le)
  next
    case (Fin l)
    have "l \<in> i_gamma i" using i w Fin ble_trans by (cases hi) auto
    then show ?thesis using i Fin by fastforce
  qed (use w in simp)
qed

end
