(* ===== verification/Absint_Env.thy ===== *)
theory Absint_Env
  imports Absint_Interval "HOL-Library.Finite_Map"
begin

text \<open>
  The per-register interval environment, \<open>crates/absint/src/env.rs\<close>. A \<open>BTreeMap\<close> is a finite map; absent registers are
  unconstrained, and \<open>top\<close> is never stored, which makes the equality of the source decide the equality of meanings.
\<close>

datatype interval_state = UnreachableState | Reachable "(reg_id, interval) fmap"

definition state_top :: interval_state where
  "state_top = Reachable fmempty"

definition is_reachable :: "interval_state \<Rightarrow> bool" where
  "is_reachable s \<longleftrightarrow> (case s of Reachable _ \<Rightarrow> True | UnreachableState \<Rightarrow> False)"

definition m_get :: "(reg_id, interval) fmap \<Rightarrow> reg_id \<Rightarrow> interval" where
  "m_get m r = (case fmlookup m r of Some v \<Rightarrow> v | None \<Rightarrow> i_top)"

fun state_get :: "interval_state \<Rightarrow> reg_id \<Rightarrow> interval" where
  "state_get UnreachableState r = Bottom"
| "state_get (Reachable m) r = m_get m r"

fun state_set :: "reg_id \<Rightarrow> interval \<Rightarrow> interval_state \<Rightarrow> interval_state" where
  "state_set r v UnreachableState = UnreachableState"
| "state_set r v (Reachable m) = Reachable (if v = i_top then fmdrop r m else fmupd r v m)"

definition keys_union :: "(reg_id, interval) fmap \<Rightarrow> (reg_id, interval) fmap \<Rightarrow> reg_id list" where
  "keys_union a b = sorted_list_of_fset (fmdom a |\<union>| fmdom b)"

definition pointwise :: "(interval \<Rightarrow> interval \<Rightarrow> interval) \<Rightarrow> (reg_id, interval) fmap \<Rightarrow> (reg_id, interval) fmap \<Rightarrow> (reg_id, interval) fmap" where
  "pointwise f a b =
     fold (\<lambda>r out. let v = f (m_get a r) (m_get b r) in if v \<noteq> i_top then fmupd r v out else out) (keys_union a b) fmempty"

fun s_join :: "interval_state \<Rightarrow> interval_state \<Rightarrow> interval_state" where
  "s_join UnreachableState x = x"
| "s_join x UnreachableState = x"
| "s_join (Reachable a) (Reachable b) = Reachable (pointwise i_join a b)"

fun s_meet :: "interval_state \<Rightarrow> interval_state \<Rightarrow> interval_state" where
  "s_meet UnreachableState _ = UnreachableState"
| "s_meet _ UnreachableState = UnreachableState"
| "s_meet (Reachable a) (Reachable b) = Reachable (pointwise i_meet a b)"

fun s_widen :: "interval_state \<Rightarrow> interval_state \<Rightarrow> interval_state" where
  "s_widen UnreachableState x = x"
| "s_widen x UnreachableState = x"
| "s_widen (Reachable a) (Reachable b) = Reachable (pointwise i_widen a b)"

fun s_narrow :: "interval_state \<Rightarrow> interval_state \<Rightarrow> interval_state" where
  "s_narrow UnreachableState _ = UnreachableState"
| "s_narrow _ UnreachableState = UnreachableState"
| "s_narrow (Reachable a) (Reachable b) = Reachable (pointwise i_narrow a b)"

fun s_leq :: "interval_state \<Rightarrow> interval_state \<Rightarrow> bool" where
  "s_leq UnreachableState _ \<longleftrightarrow> True"
| "s_leq _ UnreachableState \<longleftrightarrow> False"
| "s_leq (Reachable a) (Reachable b) \<longleftrightarrow> list_all (\<lambda>r. i_leq (m_get a r) (m_get b r)) (keys_union a b)"

section \<open>Meaning of the operations\<close>

definition map_ok :: "(reg_id, interval) fmap \<Rightarrow> bool" where
  "map_ok m \<longleftrightarrow> (\<forall>r v. fmlookup m r = Some v \<longrightarrow> v \<noteq> i_top \<and> interval_ok v)"

fun state_ok :: "interval_state \<Rightarrow> bool" where
  "state_ok UnreachableState \<longleftrightarrow> True"
| "state_ok (Reachable m) \<longleftrightarrow> map_ok m"

lemma set_keys_union: "set (keys_union a b) = fmdom' a \<union> fmdom' b"
  by (simp add: keys_union_def fmdom'_alt_def)

lemma m_get_absent: "r \<notin> fmdom' m \<Longrightarrow> m_get m r = i_top"
  by (simp add: m_get_def fmdom'_notD)

lemma m_get_present: "m_get m r \<noteq> i_top \<Longrightarrow> r \<in> fmdom' m"
  using m_get_absent by blast

lemma pointwise_fold:
  "fmlookup (fold (\<lambda>r out. let v = g r in if v \<noteq> i_top then fmupd r v out else out) rs out) r =
     (if r \<in> set rs \<and> g r \<noteq> i_top then Some (g r) else fmlookup out r)"
  by (induction rs arbitrary: out) (auto simp: Let_def)

lemma pointwise_lookup:
  assumes "f i_top i_top = i_top"
  shows "fmlookup (pointwise f a b) r = (let v = f (m_get a r) (m_get b r) in if v \<noteq> i_top then Some v else None)"
proof -
  have "r \<in> set (keys_union a b)" if "f (m_get a r) (m_get b r) \<noteq> i_top"
    using that assms m_get_present [of a r] m_get_present [of b r] by (cases "m_get a r = i_top"; cases "m_get b r = i_top") (auto simp: set_keys_union)
  then show ?thesis unfolding pointwise_def pointwise_fold by (simp add: Let_def)
qed

lemma m_get_pointwise: "f i_top i_top = i_top \<Longrightarrow> m_get (pointwise f a b) r = f (m_get a r) (m_get b r)"
  by (simp add: m_get_def [of "pointwise f a b"] pointwise_lookup Let_def)

lemma m_get_ok: "map_ok m \<Longrightarrow> interval_ok (m_get m r)"
  by (auto simp: map_ok_def m_get_def interval_ok_ops(1) split: option.splits)

lemma pointwise_ok:
  "map_ok a \<Longrightarrow> map_ok b \<Longrightarrow> f i_top i_top = i_top \<Longrightarrow> (\<And>x y. interval_ok x \<Longrightarrow> interval_ok y \<Longrightarrow> interval_ok (f x y)) \<Longrightarrow> map_ok (pointwise f a b)"
  unfolding map_ok_def [of "pointwise f a b"] by (auto simp: pointwise_lookup Let_def m_get_ok split: if_splits)

text \<open>Extensionality: canonical maps with the same reads are equal.\<close>

lemma map_ext:
  assumes "map_ok a" "map_ok b" and "\<And>r. m_get a r = m_get b r"
  shows "a = b"
proof (rule fmap_ext)
  fix r
  show "fmlookup a r = fmlookup b r"
    using assms(1,2) assms(3) [of r] by (cases "fmlookup a r"; cases "fmlookup b r") (auto simp: map_ok_def m_get_def)
qed

lemma top_ops [simp]:
  "i_join i_top i_top = i_top" "i_meet i_top i_top = i_top" "i_widen i_top x = i_top" "i_narrow i_top i_top = i_top"
  by (simp_all add: i_top_def) (cases x; simp)

lemma s_leq_reads: "s_leq (Reachable a) (Reachable b) \<longleftrightarrow> (\<forall>r. i_leq (m_get a r) (m_get b r))"
  using m_get_absent i_leq_refl by (fastforce simp: list_all_iff set_keys_union)

section \<open>The domain laws\<close>

text \<open>The weight of an environment, which every effective widening lowers.\<close>

definition reg_rank :: "(reg_id, interval) fmap \<Rightarrow> nat" where
  "reg_rank m = (\<Sum>r\<in>fmdom' m. i_rank (m_get m r))"

lemma rank_top [simp]: "i_rank i_top = 0"
  by (simp add: i_top_def)

lemma reg_rank_superset: "finite A \<Longrightarrow> fmdom' m \<subseteq> A \<Longrightarrow> reg_rank m = (\<Sum>r\<in>A. i_rank (m_get m r))"
  unfolding reg_rank_def by (rule sum.mono_neutral_left) (auto simp: m_get_absent)

lemma i_widen_rank_le: "i_rank (i_widen a b) \<le> i_rank a"
  using i_widen_rank [of a b] by (cases "i_widen a b = a") auto

lemma widen_rank:
  assumes "map_ok a" "map_ok b" "pointwise i_widen a b \<noteq> a"
  shows "reg_rank (pointwise i_widen a b) < reg_rank a"
proof -
  let ?w = "pointwise i_widen a b" and ?A = "fmdom' a \<union> fmdom' (pointwise i_widen a b)"
  have g: "m_get ?w r = i_widen (m_get a r) (m_get b r)" for r by (simp add: m_get_pointwise)
  have w: "map_ok ?w" using assms by (intro pointwise_ok) (auto simp: interval_ok_ops)
  obtain r where r: "m_get ?w r \<noteq> m_get a r" using map_ext [OF w assms(1)] assms(3) by blast
  then have "r \<in> ?A" using m_get_present [of a r] m_get_present [of ?w r] by (cases "m_get a r = i_top") auto
  have f: "finite ?A" by simp
  have "(\<Sum>r\<in>?A. i_rank (m_get ?w r)) < (\<Sum>r\<in>?A. i_rank (m_get a r))"
    using \<open>r \<in> ?A\<close> r i_widen_rank unfolding g by (intro sum_strict_mono_ex1 f ballI i_widen_rank_le) auto
  then show ?thesis using reg_rank_superset [OF f, of ?w] reg_rank_superset [OF f, of a] by simp
qed

lemma pointwise_ok_ops:
  assumes "map_ok a" "map_ok b"
  shows "map_ok (pointwise i_join a b)" "map_ok (pointwise i_meet a b)" "map_ok (pointwise i_widen a b)" "map_ok (pointwise i_narrow a b)"
  using assms by (simp_all add: pointwise_ok interval_ok_ops)

lemma s_ok_ops:
  "state_ok a \<Longrightarrow> state_ok b \<Longrightarrow> state_ok (s_join a b)" "state_ok a \<Longrightarrow> state_ok b \<Longrightarrow> state_ok (s_widen a b)"
  "state_ok a \<Longrightarrow> state_ok b \<Longrightarrow> state_ok (s_meet a b)" "state_ok a \<Longrightarrow> state_ok b \<Longrightarrow> state_ok (s_narrow a b)"
  by (cases a; cases b; simp add: pointwise_ok_ops)+

lemma state_ok_top: "state_ok state_top"
  by (simp add: state_top_def map_ok_def)

lemma state_ok_set: "state_ok a \<Longrightarrow> interval_ok v \<Longrightarrow> state_ok (state_set r v a)"
  by (cases a) (auto simp: map_ok_def)

interpretation states: abstract_domain state_ok UnreachableState s_join s_widen s_leq
proof
  let ?W = "{(s_widen a b, a) | a b. state_ok a \<and> state_ok b \<and> s_widen a b \<noteq> a}"
  let ?m = "\<lambda>s. case s of UnreachableState \<Rightarrow> (1 :: nat, 0) | Reachable m \<Rightarrow> (0, reg_rank m)"
  have "?W \<subseteq> inv_image (less_than <*lex*> less_than) ?m"
  proof clarify
    fix a b assume h: "state_ok a" "state_ok b" "s_widen a b \<noteq> a"
    then show "(s_widen a b, a) \<in> inv_image (less_than <*lex*> less_than) ?m"
      by (cases a; cases b) (auto simp: widen_rank)
  qed
  then show "wf ?W" by (rule wf_subset [OF wf_inv_image [OF wf_lex_prod [OF wf_less_than wf_less_than]]])
  show "s_leq a a" for a by (cases a) (simp_all add: s_leq_reads i_leq_refl del: s_leq.simps(3))
  show "s_leq a b \<Longrightarrow> s_leq b c \<Longrightarrow> s_leq a c" for a b c
    by (cases a; cases b; cases c) (auto simp: s_leq_reads simp del: s_leq.simps(3) intro: i_leq_trans)
  show "state_ok a \<Longrightarrow> state_ok b \<Longrightarrow> s_leq a b \<Longrightarrow> s_leq b a \<Longrightarrow> a = b" for a b
    by (cases a; cases b) (auto simp: s_leq_reads simp del: s_leq.simps(3) intro: map_ext i_leq_antisym)
  show "s_leq a (s_join a b) \<and> s_leq b (s_join a b)" for a b
    by (cases a; cases b) (auto simp: s_leq_reads m_get_pointwise i_join_ub i_leq_refl simp del: s_leq.simps(3))
  show "s_leq a c \<Longrightarrow> s_leq b c \<Longrightarrow> s_leq (s_join a b) c" for a b c
    by (cases a; cases b; cases c) (auto simp: s_leq_reads m_get_pointwise i_join_least simp del: s_leq.simps(3))
  show "s_leq a (s_widen a b) \<and> s_leq b (s_widen a b)" for a b
    by (cases a; cases b) (auto simp: s_leq_reads m_get_pointwise i_widen_ub i_leq_refl simp del: s_leq.simps(3))
qed (auto simp: s_ok_ops)

section \<open>The environments a state stands for\<close>

definition s_gamma :: "interval_state \<Rightarrow> (reg_id \<Rightarrow> int) set" where
  "s_gamma s = {env. is_reachable s \<and> (\<forall>r. env r \<in> i_gamma (state_get s r))}"

lemma s_gamma_Unreachable [simp]: "s_gamma UnreachableState = {}"
  by (simp add: s_gamma_def is_reachable_def)

lemma s_gamma_Reachable: "env \<in> s_gamma (Reachable m) \<longleftrightarrow> (\<forall>r. env r \<in> i_gamma (m_get m r))"
  by (simp add: s_gamma_def is_reachable_def)

lemma s_gamma_get: "env \<in> s_gamma s \<Longrightarrow> env r \<in> i_gamma (state_get s r)"
  by (simp add: s_gamma_def)

lemma s_gamma_top [simp]: "s_gamma state_top = UNIV"
  by (auto simp: state_top_def s_gamma_Reachable m_get_def)

lemma s_gamma_mono: "s_leq a b \<Longrightarrow> s_gamma a \<subseteq> s_gamma b"
  using i_gamma_mono by (cases a; cases b) (fastforce simp: s_leq_reads s_gamma_Reachable simp del: s_leq.simps(3))+

lemma state_get_set: "is_reachable s \<Longrightarrow> state_get (state_set r v s) q = (if q = r then v else state_get s q)"
  by (cases s) (auto simp: is_reachable_def m_get_def)

lemma is_reachable_set [simp]: "is_reachable (state_set r v s) \<longleftrightarrow> is_reachable s"
  by (cases s) (auto simp: is_reachable_def)

lemma s_gamma_set: "env \<in> s_gamma s \<Longrightarrow> x \<in> i_gamma v \<Longrightarrow> env(r := x) \<in> s_gamma (state_set r v s)"
  by (auto simp: s_gamma_def state_get_set)

lemma s_gamma_refine: "env \<in> s_gamma s \<Longrightarrow> env r \<in> i_gamma v \<Longrightarrow> env \<in> s_gamma (state_set r v s)"
  using s_gamma_set [of env s "env r" v r] by simp

end
