(* ===== verification/Absint_Engine.thy ===== *)
theory Absint_Engine
  imports Absint_Env "HOL-Library.Multiset"
begin

text \<open>
  The worklist solver of \<open>crates/absint/src/engine.rs\<close>, generic in the abstract domain: its operations and the two transfer
  callbacks are arguments, as in the source. Vectors are maps from node indices; the front of the queue is the head of a list.
  The loop is a partial function, so that a run that does not end is \<open>None\<close>; the locale \<open>dataflow\<close> shows that it always ends.
\<close>

record 'd dataflow_solution =
  in_states :: "nat \<Rightarrow> 'd"
  out_states :: "nat \<Rightarrow> 'd"

definition entry_of :: "'d dataflow_solution \<Rightarrow> nat \<Rightarrow> 'd" where
  "entry_of s node = in_states s node"

definition exit_of :: "'d dataflow_solution \<Rightarrow> nat \<Rightarrow> 'd" where
  "exit_of s node = out_states s node"

record 'd engine = "'d dataflow_solution" +
  eng_updates :: "nat \<Rightarrow> nat"
  eng_worklist :: "nat list"
  eng_in_worklist :: "nat \<Rightarrow> bool"

definition FORCE_WIDEN_AFTER :: nat where
  "FORCE_WIDEN_AFTER = 64"

text \<open>\<open>u32::saturating_add(1)\<close>.\<close>

definition sat_inc :: "nat \<Rightarrow> nat" where
  "sat_inc k = (if k < 2 ^ 32 - 1 then Suc k else k)"

definition enqueue_node :: "nat \<Rightarrow> nat list \<times> (nat \<Rightarrow> bool) \<Rightarrow> nat list \<times> (nat \<Rightarrow> bool)" where
  "enqueue_node s w = (case w of (worklist, queued) \<Rightarrow> if queued s then (worklist, queued) else (worklist @ [s], queued(s := True)))"

definition joined_state ::
  "('d \<Rightarrow> 'd \<Rightarrow> 'd) \<Rightarrow> 'd \<Rightarrow> cfg \<Rightarrow> 'd \<Rightarrow> (nat \<Rightarrow> nat \<Rightarrow> 'd \<Rightarrow> 'd) \<Rightarrow> (nat \<Rightarrow> 'd) \<Rightarrow> nat \<Rightarrow> 'd" where
  "joined_state join bottom g entry_state flow out u =
     fold (\<lambda>p joined. join joined (flow p u (out p))) (cfg_predecessors g u) (if u = cfg_entry g then entry_state else bottom)"

definition engine_step ::
  "'d \<Rightarrow> ('d \<Rightarrow> 'd \<Rightarrow> 'd) \<Rightarrow> ('d \<Rightarrow> 'd \<Rightarrow> 'd) \<Rightarrow> cfg \<Rightarrow> nat set \<Rightarrow> 'd \<Rightarrow> (nat \<Rightarrow> 'd \<Rightarrow> 'd) \<Rightarrow> (nat \<Rightarrow> nat \<Rightarrow> 'd \<Rightarrow> 'd) \<Rightarrow> 'd engine \<Rightarrow> 'd engine" where
  "engine_step bottom join widen g hdrs entry_state transfer flow st =
     (case eng_worklist st of
        [] \<Rightarrow> st
      | u # rest \<Rightarrow>
          (let queued = (eng_in_worklist st)(u := False);
               st = st\<lparr>eng_worklist := rest, eng_in_worklist := queued\<rparr>;
               joined = joined_state join bottom g entry_state flow (out_states st) u;
               new_in = (if u \<in> hdrs \<or> FORCE_WIDEN_AFTER \<le> eng_updates st u then widen (in_states st u) joined else joined)
           in if new_in \<noteq> in_states st u
              then (let st = st\<lparr>eng_updates := (eng_updates st)(u := sat_inc (eng_updates st u)), in_states := (in_states st)(u := new_in)\<rparr>;
                        new_out = transfer u new_in
                    in if new_out \<noteq> out_states st u
                       then (case fold enqueue_node (cfg_successors g u) (rest, queued) of
                               (worklist, queued) \<Rightarrow>
                                 st\<lparr>out_states := (out_states st)(u := new_out), eng_worklist := worklist, eng_in_worklist := queued\<rparr>)
                       else st)
              else st))"

partial_function (option) engine_loop :: "('d engine \<Rightarrow> 'd engine) \<Rightarrow> 'd engine \<Rightarrow> 'd engine option" where
  "engine_loop step st = (if eng_worklist st = [] then Some st else engine_loop step (step st))"

definition solve_dataflow ::
  "'d \<Rightarrow> ('d \<Rightarrow> 'd \<Rightarrow> 'd) \<Rightarrow> ('d \<Rightarrow> 'd \<Rightarrow> 'd) \<Rightarrow> cfg \<Rightarrow> natural_loop list \<Rightarrow> 'd \<Rightarrow> (nat \<Rightarrow> 'd \<Rightarrow> 'd) \<Rightarrow> (nat \<Rightarrow> nat \<Rightarrow> 'd \<Rightarrow> 'd) \<Rightarrow> 'd dataflow_solution option" where
  "solve_dataflow bottom join widen g loops entry_state transfer flow =
     (if node_count g = 0 then Some \<lparr>in_states = (\<lambda>_. bottom), out_states = (\<lambda>_. bottom)\<rparr>
      else case reverse_postorder g of
        None \<Rightarrow> None
      | Some order \<Rightarrow>
          map_option (\<lambda>st. \<lparr>in_states = in_states st, out_states = out_states st\<rparr>)
            (engine_loop (engine_step bottom join widen g (headers loops) entry_state transfer flow)
              \<lparr>in_states = (\<lambda>_. bottom), out_states = (\<lambda>_. bottom), eng_updates = (\<lambda>_. 0), eng_worklist = order,
               eng_in_worklist = (\<lambda>v. v \<in> set order)\<rparr>))"

section \<open>Loops that end\<close>

lemma engine_loop_total:
  assumes "wf r" and "\<And>st. P st \<Longrightarrow> eng_worklist st \<noteq> [] \<Longrightarrow> P (step st) \<and> (step st, st) \<in> r"
  shows "P st \<Longrightarrow> \<exists>st'. engine_loop step st = Some st' \<and> P st' \<and> eng_worklist st' = []"
  using assms(1)
proof (induction st rule: wf_induct_rule)
  case (less st)
  then show ?case
    using assms(2) [of st] by (cases "eng_worklist st = []") (auto simp: engine_loop.simps [of step st])
qed

lemma fold_enqueue:
  assumes "\<And>v. queued v \<longleftrightarrow> v \<in> set wl" and "distinct wl"
  shows "case fold enqueue_node ss (wl, queued) of (wl', queued') \<Rightarrow>
    set wl' = set wl \<union> set ss \<and> (\<forall>v. queued' v \<longleftrightarrow> v \<in> set wl') \<and> distinct wl'"
  using assms
proof (induction ss arbitrary: wl queued)
  case (Cons s ss)
  show ?case
  proof (cases "queued s")
    case True
    then have "s \<in> set wl" using Cons.prems by simp
    then show ?thesis using True Cons.IH [OF Cons.prems] by (auto simp: enqueue_node_def split: prod.splits)
  next
    case False
    have q: "\<And>v. (queued(s := True)) v \<longleftrightarrow> v \<in> set (wl @ [s])" and d: "distinct (wl @ [s])" using Cons.prems False by auto
    have "fold enqueue_node (s # ss) (wl, queued) = fold enqueue_node ss (wl @ [s], queued(s := True))" using False by (simp add: enqueue_node_def)
    moreover have "set wl \<union> set (s # ss) = set (wl @ [s]) \<union> set ss" by simp
    ultimately show ?thesis using Cons.IH [OF q d] by (simp only:)
  qed
qed simp

section \<open>Post-fixpoints\<close>

text \<open>What a client supplies: a domain with the laws of the trait and transfer functions that keep its elements and are strict.\<close>

locale dataflow = abstract_domain ok bottom join widen leq
  for ok :: "'d \<Rightarrow> bool" and bottom join widen leq +
  fixes g :: cfg and hdrs :: "nat set" and entry_state :: 'd and transfer :: "nat \<Rightarrow> 'd \<Rightarrow> 'd" and flow :: "nat \<Rightarrow> nat \<Rightarrow> 'd \<Rightarrow> 'd"
  assumes graph: "cfg_ok g" and entry_ok: "ok entry_state" and transfer_ok: "ok d \<Longrightarrow> ok (transfer u d)"
    and flow_ok: "ok d \<Longrightarrow> ok (flow p u d)" and transfer_bottom: "transfer u bottom = bottom"
begin

abbreviation "joined \<equiv> joined_state join bottom g entry_state flow"
abbreviation "step \<equiv> engine_step bottom join widen g hdrs entry_state transfer flow"
abbreviation "R \<equiv> {v. v < node_count g \<and> reachable (cfg_succ g) (cfg_entry g) v}"

lemma joined_fold:
  assumes "\<And>p. ok (out p)" and "ok a"
  shows "ok (fold (\<lambda>p j. join j (flow p u (out p))) ps a) \<and> leq a (fold (\<lambda>p j. join j (flow p u (out p))) ps a) \<and>
    (\<forall>p\<in>set ps. leq (flow p u (out p)) (fold (\<lambda>p j. join j (flow p u (out p))) ps a))"
  using assms(2)
proof (induction ps arbitrary: a)
  case (Cons p ps)
  let ?a = "join a (flow p u (out p))"
  have k: "ok ?a" "ok (flow p u (out p))" using Cons.prems join_ok flow_ok assms(1) by auto
  note IH = Cons.IH [OF k(1)]
  have "leq a ?a" "leq (flow p u (out p)) ?a" using join_ub [OF Cons.prems k(2)] by auto
  then show ?case using IH leq_trans [OF Cons.prems k(1)] leq_trans [OF k(2,1)] by auto
qed (simp add: leq_refl)

lemma joined_ok: "(\<And>p. ok (out p)) \<Longrightarrow> ok (joined out u)"
  unfolding joined_state_def using joined_fold [of out "if u = cfg_entry g then entry_state else bottom" u] entry_ok bottom_ok by auto

lemma joined_entry: "(\<And>p. ok (out p)) \<Longrightarrow> leq entry_state (joined out (cfg_entry g))"
  unfolding joined_state_def using joined_fold [of out entry_state "cfg_entry g"] entry_ok by auto

lemma joined_pred:
  assumes "\<And>p. ok (out p)" and "edge (cfg_succ g) p u" "u < node_count g"
  shows "leq (flow p u (out p)) (joined out u)"
  unfolding joined_state_def using joined_fold [of out "if u = cfg_entry g then entry_state else bottom" u] cfg_edge_pred(2) [OF graph assms(3)] assms entry_ok bottom_ok
  by auto

lemma joined_cong: "(\<And>p. p \<in> set (cfg_predecessors g u) \<Longrightarrow> out p = out' p) \<Longrightarrow> joined out u = joined out' u"
  unfolding joined_state_def by (rule fold_cong) simp_all

lemma reachable_nodes: "u \<in> R \<Longrightarrow> u < node_count g"
  by simp

lemma edge_bound: "edge (cfg_succ g) u v \<Longrightarrow> v < node_count g"
  using graph graph_ok_edge by (auto simp: cfg_ok_def dual_def)

definition engine_inv :: "'d engine \<Rightarrow> bool" where
  "engine_inv st \<longleftrightarrow> (\<forall>u. ok (in_states st u)) \<and> (\<forall>u. out_states st u = transfer u (in_states st u)) \<and>
     (\<forall>v. eng_in_worklist st v \<longleftrightarrow> v \<in> set (eng_worklist st)) \<and> set (eng_worklist st) \<subseteq> R \<and> distinct (eng_worklist st) \<and>
     (\<forall>u. u \<in> R \<longrightarrow> u \<notin> set (eng_worklist st) \<longrightarrow> leq (joined (out_states st) u) (in_states st u)) \<and>
     (\<forall>u. u \<notin> R \<longrightarrow> in_states st u = bottom)"

lemma engine_invD:
  assumes "engine_inv st"
  shows "\<And>u. ok (in_states st u)" "\<And>u. out_states st u = transfer u (in_states st u)" "\<And>u. ok (out_states st u)"
    "\<And>v. eng_in_worklist st v \<longleftrightarrow> v \<in> set (eng_worklist st)" "set (eng_worklist st) \<subseteq> R"
    "\<And>u. u \<in> R \<Longrightarrow> u \<notin> set (eng_worklist st) \<Longrightarrow> leq (joined (out_states st) u) (in_states st u)"
    "\<And>u. u \<notin> R \<Longrightarrow> in_states st u = bottom" "distinct (eng_worklist st)"
  using assms transfer_ok unfolding engine_inv_def by auto

text \<open>The new entry state of the node at the front of the queue.\<close>

definition new_entry :: "'d engine \<Rightarrow> nat \<Rightarrow> 'd" where
  "new_entry st u = (let j = joined (out_states st) u in if u \<in> hdrs \<or> FORCE_WIDEN_AFTER \<le> eng_updates st u then widen (in_states st u) j else j)"

lemma new_entry_ok: "engine_inv st \<Longrightarrow> ok (new_entry st u) \<and> leq (joined (out_states st) u) (new_entry st u)"
  using engine_invD(1,3) [of st] joined_ok [of "out_states st" u] widen_ok widen_ub leq_refl by (auto simp: new_entry_def Let_def)

text \<open>The three outcomes of a step.\<close>

lemma step_eq:
  assumes "eng_worklist st = u # rest"
  shows "step st =
    (let queued = (eng_in_worklist st)(u := False); st' = st\<lparr>eng_worklist := rest, eng_in_worklist := queued\<rparr> in
     if new_entry st u = in_states st u then st'
     else (let st'' = st'\<lparr>eng_updates := (eng_updates st)(u := sat_inc (eng_updates st u)), in_states := (in_states st)(u := new_entry st u)\<rparr> in
       if transfer u (new_entry st u) = out_states st u then st''
       else st''\<lparr>out_states := (out_states st)(u := transfer u (new_entry st u)),
         eng_worklist := fst (fold enqueue_node (cfg_successors g u) (rest, queued)),
         eng_in_worklist := snd (fold enqueue_node (cfg_successors g u) (rest, queued))\<rparr>))"
  using assms by (simp add: engine_step_def new_entry_def Let_def split_beta)

lemma step_inv:
  assumes i: "engine_inv st" and w: "eng_worklist st = u # rest"
  shows "engine_inv (step st)"
proof -
  note I = engine_invD [OF i] and N = new_entry_ok [OF i, of u]
  let ?q = "(eng_in_worklist st)(u := False)"
  have u: "u \<in> R" "u \<notin> set rest" "set rest \<subseteq> R" "distinct rest" using I(5,8) w by auto
  have q: "?q v \<longleftrightarrow> v \<in> set rest" for v using I(4) [of v] u(2) w by auto
  have old: "leq (joined (out_states st) v) (in_states st v)" if "v \<in> R" "v \<notin> set rest" "v \<noteq> u" for v using I(6) [of v] that w by auto
  consider "new_entry st u = in_states st u" | "new_entry st u \<noteq> in_states st u" "transfer u (new_entry st u) = out_states st u"
    | "new_entry st u \<noteq> in_states st u" "transfer u (new_entry st u) \<noteq> out_states st u" by blast
  then show ?thesis
  proof cases
    case 1
    then have "leq (joined (out_states st) v) (in_states st v)" if "v \<in> R" "v \<notin> set rest" for v using old that N by (cases "v = u") auto
    then show ?thesis using 1 I u q by (simp add: step_eq [OF w] Let_def engine_inv_def)
  next
    case 2
    have "leq (joined (out_states st) v) (((in_states st)(u := new_entry st u)) v)" if "v \<in> R" "v \<notin> set rest" for v
      using old that N by (cases "v = u") auto
    then show ?thesis using 2 I u q N by (auto simp: step_eq [OF w] Let_def engine_inv_def)
  next
    case 3
    let ?Q = "fold enqueue_node (cfg_successors g u) (rest, ?q)" and ?out = "(out_states st)(u := transfer u (new_entry st u))"
    have Q: "set (fst ?Q) = set rest \<union> set (cfg_successors g u)" "\<And>v. snd ?Q v \<longleftrightarrow> v \<in> set (fst ?Q)" "distinct (fst ?Q)"
      using fold_enqueue [of ?q rest "cfg_successors g u"] q u(4) by (auto split: prod.splits)
    have len: "u < length (cfg_succ g)" using reachable_nodes u(1) graph by (auto simp: cfg_ok_def dual_def graph_ok_def)
    have e: "edge (cfg_succ g) u v \<longleftrightarrow> v \<in> set (cfg_successors g u)" for v using len by (simp add: edge_def cfg_successors_def)
    have "leq (joined ?out v) (((in_states st)(u := new_entry st u)) v)" if v: "v \<in> R" "v \<notin> set (fst ?Q)" for v
    proof -
      have "u \<notin> set (cfg_predecessors g v)" using v(2) Q(1) e [of v] cfg_edge_pred(2) [OF graph reachable_nodes [OF v(1)]] by blast
      then have "joined ?out v = joined (out_states st) v" by (intro joined_cong) auto
      then show ?thesis using old [of v] v Q(1) N by (cases "v = u") auto
    qed
    moreover have "v \<in> R" if "v \<in> set (cfg_successors g u)" for v
      using that e [of v] edge_bound [of u v] reachable_step [of "cfg_succ g" "cfg_entry g" u v] u(1) by simp
    then have "set (fst ?Q) \<subseteq> R" using Q(1) u(3) by blast
    moreover have "ok (((in_states st)(u := new_entry st u)) v)" "?out v = transfer v (((in_states st)(u := new_entry st u)) v)" for v
      using I(1,2) N by auto
    moreover have "((in_states st)(u := new_entry st u)) v = bottom" if "v \<notin> R" for v using I(7) [OF that] u(1) that by auto
    moreover have "step st = st\<lparr>eng_worklist := fst ?Q, eng_in_worklist := snd ?Q, eng_updates := (eng_updates st)(u := sat_inc (eng_updates st u)),
        in_states := (in_states st)(u := new_entry st u), out_states := ?out\<rparr>"
      using 3 by (simp add: step_eq [OF w] Let_def)
    ultimately show ?thesis using Q(2,3) unfolding engine_inv_def by simp
  qed
qed

section \<open>Termination\<close>

text \<open>
  Either a node comes closer to the forced widening, or a node past it climbs in the well-founded widening order, or the queue shrinks.
\<close>

definition calm :: "'d engine \<Rightarrow> nat" where
  "calm st = (\<Sum>u<node_count g. FORCE_WIDEN_AFTER - eng_updates st u)"

definition forced :: "'d engine \<Rightarrow> 'd multiset" where
  "forced st = image_mset (in_states st) (mset_set {u. u < node_count g \<and> FORCE_WIDEN_AFTER \<le> eng_updates st u})"

definition engine_order :: "('d engine \<times> 'd engine) set" where
  "engine_order = inv_image (less_than <*lex*> mult1 {(widen a b, a) | a b. ok a \<and> ok b \<and> widen a b \<noteq> a} <*lex*> less_than)
     (\<lambda>st. (calm st, forced st, length (eng_worklist st)))"

lemma engine_order_wf: "wf engine_order"
  unfolding engine_order_def by (intro wf_inv_image wf_lex_prod wf_less_than wf_mult1 widen_wf)

lemma sat_inc_calm: "k < FORCE_WIDEN_AFTER \<Longrightarrow> sat_inc k = Suc k"
  by (simp add: sat_inc_def FORCE_WIDEN_AFTER_def)

lemma sat_inc_forced: "FORCE_WIDEN_AFTER \<le> k \<Longrightarrow> FORCE_WIDEN_AFTER \<le> sat_inc k"
  by (simp add: sat_inc_def)

lemma calm_update:
  assumes "u < node_count g" and "eng_updates st' = (eng_updates st)(u := sat_inc (eng_updates st u))"
  shows "calm st' = calm st - (if eng_updates st u < FORCE_WIDEN_AFTER then 1 else 0)" and "eng_updates st u < FORCE_WIDEN_AFTER \<Longrightarrow> calm st' < calm st"
proof -
  let ?f = "\<lambda>st u. FORCE_WIDEN_AFTER - eng_updates st u" and ?A = "{..<node_count g} - {u}"
  have r: "calm s = ?f s u + sum (?f s) ?A" for s unfolding calm_def using assms(1) by (intro sum.remove) auto
  have e: "sum (?f st') ?A = sum (?f st) ?A" using assms(2) by (intro sum.cong) auto
  have "?f st' u = ?f st u - (if eng_updates st u < FORCE_WIDEN_AFTER then 1 else 0)"
    using sat_inc_calm [of "eng_updates st u"] sat_inc_forced [of "eng_updates st u"] assms(2) by auto
  then show "calm st' = calm st - (if eng_updates st u < FORCE_WIDEN_AFTER then 1 else 0)" "eng_updates st u < FORCE_WIDEN_AFTER \<Longrightarrow> calm st' < calm st"
    unfolding r [of st'] r [of st] e by auto
qed

lemma forced_update:
  assumes "u < node_count g" and "FORCE_WIDEN_AFTER \<le> eng_updates st u" and "in_states st' = (in_states st)(u := widen (in_states st u) b)"
    and "eng_updates st' = (eng_updates st)(u := sat_inc (eng_updates st u))" and "ok (in_states st u)" "ok b" "widen (in_states st u) b \<noteq> in_states st u"
  shows "(forced st', forced st) \<in> mult1 {(widen a b, a) | a b. ok a \<and> ok b \<and> widen a b \<noteq> a}"
proof -
  let ?N = "\<lambda>st. {v. v < node_count g \<and> FORCE_WIDEN_AFTER \<le> eng_updates st v}"
  have n: "?N st' = ?N st" using assms(2,4) sat_inc_forced by auto
  have f: "finite (?N st)" and u: "u \<in> ?N st" using assms by auto
  have m: "mset_set (?N st) = add_mset u (mset_set (?N st - {u}))" using f u by (simp add: mset_set.remove)
  have c: "image_mset (in_states st') (mset_set (?N st - {u})) = image_mset (in_states st) (mset_set (?N st - {u}))"
    using f assms(3) by (intro image_mset_cong) auto
  have "forced st' = add_mset (widen (in_states st u) b) (image_mset (in_states st) (mset_set (?N st - {u})))"
    unfolding forced_def n m using c assms(3) by simp
  moreover have "forced st = add_mset (in_states st u) (image_mset (in_states st) (mset_set (?N st - {u})))"
    unfolding forced_def m by simp
  ultimately show ?thesis using assms(5-7) unfolding mult1_def by force
qed

lemma step_decreases:
  assumes i: "engine_inv st" and w: "eng_worklist st = u # rest"
  shows "(step st, st) \<in> engine_order"
proof (cases "new_entry st u = in_states st u")
  case True
  then show ?thesis by (simp add: step_eq [OF w] Let_def engine_order_def calm_def forced_def w)
next
  case False
  note I = engine_invD [OF i]
  have u: "u < node_count g" using I(5) w by auto
  have s: "in_states (step st) = (in_states st)(u := new_entry st u)" "eng_updates (step st) = (eng_updates st)(u := sat_inc (eng_updates st u))"
    using False by (simp_all add: step_eq [OF w] Let_def)
  show ?thesis
  proof (cases "eng_updates st u < FORCE_WIDEN_AFTER")
    case True
    then show ?thesis using calm_update(2) [OF u s(2)] by (simp add: engine_order_def)
  next
    case forced: False
    let ?j = "joined (out_states st) u"
    have n: "new_entry st u = widen (in_states st u) ?j" using forced by (simp add: new_entry_def)
    have "(forced (step st), forced st) \<in> mult1 {(widen a b, a) | a b. ok a \<and> ok b \<and> widen a b \<noteq> a}"
      using forced False s I(1) joined_ok I(3) unfolding n by (intro forced_update [OF u, where b = ?j]) auto
    moreover have "calm (step st) = calm st" using calm_update(1) [OF u s(2)] forced by simp
    ultimately show ?thesis by (simp add: engine_order_def)
  qed
qed

text \<open>The solver returns a post-fixpoint.\<close>

lemma dataflow_solved:
  assumes hdrs: "hdrs = headers loops"
  shows "\<exists>sol. solve_dataflow bottom join widen g loops entry_state transfer flow = Some sol \<and>
    (\<forall>u. ok (in_states sol u)) \<and> (\<forall>u. out_states sol u = transfer u (in_states sol u)) \<and>
    (0 < node_count g \<longrightarrow> leq entry_state (in_states sol (cfg_entry g))) \<and>
    (\<forall>p u. reachable (cfg_succ g) (cfg_entry g) p \<longrightarrow> edge (cfg_succ g) p u \<longrightarrow> leq (flow p u (out_states sol p)) (in_states sol u)) \<and>
    (\<forall>u. \<not> reachable (cfg_succ g) (cfg_entry g) u \<longrightarrow> in_states sol u = bottom)"
proof (cases "node_count g = 0")
  case True
  then have "\<not> edge (cfg_succ g) p u" for p u using edge_bound by fastforce
  then show ?thesis using True bottom_ok transfer_bottom by (simp add: solve_dataflow_def)
next
  case False
  have entry: "cfg_entry g < node_count g" and gok: "graph_ok (node_count g) (cfg_succ g)" using graph False by (auto simp: cfg_ok_def dual_def)
  obtain po where po: "postorder_from (node_count g) (cfg_entry g) (cfg_succ g) = Some po" "is_postorder (cfg_succ g) (cfg_entry g) po"
    using postorder_from_correct [OF gok entry] by blast
  have R: "set po = R" using po(2) reachable_less [OF _ gok entry] by (auto simp: is_postorder_def)
  let ?st = "\<lparr>in_states = (\<lambda>_. bottom), out_states = (\<lambda>_. bottom), eng_updates = (\<lambda>_. 0), eng_worklist = rev po,
    eng_in_worklist = (\<lambda>v. v \<in> set (rev po))\<rparr>"
  have "engine_inv ?st" using R po(2) by (auto simp: engine_inv_def bottom_ok transfer_bottom is_postorder_def)
  then obtain st where st: "engine_loop step ?st = Some st" "engine_inv st" "eng_worklist st = []"
    using engine_loop_total [OF engine_order_wf, of engine_inv step ?st] step_inv step_decreases by (metis list.exhaust)
  note I = engine_invD [OF st(2)]
  have solve: "solve_dataflow bottom join widen g loops entry_state transfer flow = Some \<lparr>in_states = in_states st, out_states = out_states st\<rparr>"
    using False po(1) st(1) by (simp add: solve_dataflow_def reverse_postorder_def cfg_postorder_def hdrs)
  have post: "leq (joined (out_states st) u) (in_states st u)" if "u \<in> R" for u using I(6) that st(3) by simp
  have "leq entry_state (in_states st (cfg_entry g))"
    using leq_trans [OF entry_ok joined_ok I(1) joined_entry post] I(3) entry reachable_root by auto
  moreover have "leq (flow p u (out_states st p)) (in_states st u)" if "reachable (cfg_succ g) (cfg_entry g) p" "edge (cfg_succ g) p u" for p u
  proof -
    have u: "u \<in> R" using edge_bound reachable_step that by blast
    then show ?thesis using leq_trans [OF flow_ok joined_ok I(1) joined_pred post] I(3) that(2) by auto
  qed
  ultimately show ?thesis using solve I by auto
qed

end

end
