(* ===== verification/Absint_Analysis.thy ===== *)
theory Absint_Analysis
  imports Absint_Engine
begin

text \<open>
  The interval analysis of \<open>crates/absint/src/analysis.rs\<close> and \<open>crates/absint/src/cond.rs\<close>: the transfer functions, the refinement of
  branch edges, the evaluation of conditions, and the analysis of a function with the worklist solver. The two callbacks look
  up blocks with \<open>expect\<close>; the branch for a missing block is never taken on the nodes of the graph (\<open>node_block\<close>).
\<close>

section \<open>Evaluation\<close>

datatype trivalent = TriTrue | TriFalse | TriUnknown

fun tri_negate :: "trivalent \<Rightarrow> trivalent" where
  "tri_negate TriTrue = TriFalse"
| "tri_negate TriFalse = TriTrue"
| "tri_negate TriUnknown = TriUnknown"

fun eval_operand :: "operand \<Rightarrow> interval_state \<Rightarrow> interval" where
  "eval_operand (OpReg r) s = state_get s r"
| "eval_operand (OpConst (CInt bv)) s = singleton (bv_signed bv)"
| "eval_operand (OpConst CNull) s = singleton 0"
| "eval_operand (OpConst _) s = i_top"

fun eval_rvalue :: "rvalue \<Rightarrow> interval_state \<Rightarrow> interval" where
  "eval_rvalue (RUse p) s = eval_operand p s"
| "eval_rvalue (RBin op l r _) s =
     (let a = eval_operand l s; b = eval_operand r s in
      case op of
        IAdd \<Rightarrow> i_add a b
      | ISub \<Rightarrow> i_sub a b
      | IMul \<Rightarrow> i_mul a b
      | _ \<Rightarrow> i_top)"
| "eval_rvalue (RCmp _ _ _) s = i_range 0 1"
| "eval_rvalue (RCast op p _) s =
     (let v = eval_operand p s in
      case op of
        ZExt \<Rightarrow> v
      | SExt \<Rightarrow> v
      | _ \<Rightarrow> i_top)"
| "eval_rvalue (RSelect _ _ _) s = i_top"

fun apply_inst :: "inst \<Rightarrow> interval_state \<Rightarrow> interval_state" where
  "apply_inst (Assign dst _ v) s = state_set dst (eval_rvalue v s) s"
| "apply_inst (Load dst _ _ _ _ _) s = state_set dst i_top s"
| "apply_inst (Alloc dst _ _ _ _) s = state_set dst i_top s"
| "apply_inst (PtrOffset dst _ _ _) s = state_set dst i_top s"
| "apply_inst (FieldPtr dst _ _ _ _) s = state_set dst i_top s"
| "apply_inst (RefWitness dst _ _ _ _ _) s = state_set dst i_top s"
| "apply_inst (Call (Some d) _ _ _ _) s = state_set d i_top s"
| "apply_inst (Intrinsic (Some d) _ _) s = state_set d i_top s"
| "apply_inst _ s = s"

section \<open>Conditions\<close>

definition blt :: "bound \<Rightarrow> bound \<Rightarrow> bool" where
  "blt x y \<longleftrightarrow> ble x y \<and> \<not> ble y x"

definition compare_bounds :: "icmp_op \<Rightarrow> bound \<Rightarrow> bound \<Rightarrow> bound \<Rightarrow> bound \<Rightarrow> trivalent" where
  "compare_bounds op alo ahi blo bhi =
     (let lt = (if blt ahi blo then TriTrue else if ble bhi alo then TriFalse else TriUnknown);
          le = (if ble ahi blo then TriTrue else if blt bhi alo then TriFalse else TriUnknown);
          gt = (if blt bhi alo then TriTrue else if ble ahi blo then TriFalse else TriUnknown);
          ge = (if ble bhi alo then TriTrue else if blt ahi blo then TriFalse else TriUnknown);
          eq = (if blt ahi blo \<or> blt bhi alo then TriFalse
                else if alo = ahi \<and> blo = bhi \<and> alo = blo then TriTrue else TriUnknown)
      in case op of
        IUlt \<Rightarrow> lt | ISlt \<Rightarrow> lt
      | IUle \<Rightarrow> le | ISle \<Rightarrow> le
      | IUgt \<Rightarrow> gt | ISgt \<Rightarrow> gt
      | IUge \<Rightarrow> ge | ISge \<Rightarrow> ge
      | IEq \<Rightarrow> eq
      | INe \<Rightarrow> tri_negate eq)"

definition compare_intervals :: "icmp_op \<Rightarrow> interval \<Rightarrow> interval \<Rightarrow> trivalent" where
  "compare_intervals op a b =
     (case (lower a, upper a, lower b, upper b) of
        (Some alo, Some ahi, Some blo, Some bhi) \<Rightarrow> compare_bounds op alo ahi blo bhi
      | _ \<Rightarrow> TriUnknown)"

fun eval_condition_in :: "condition \<Rightarrow> interval_state \<Rightarrow> trivalent"
and eval_all :: "condition list \<Rightarrow> interval_state \<Rightarrow> bool \<Rightarrow> trivalent"
and eval_any :: "condition list \<Rightarrow> interval_state \<Rightarrow> bool \<Rightarrow> trivalent" where
  "eval_condition_in CondTrue s = TriTrue"
| "eval_condition_in (CondCmp op l r) s = compare_intervals op (eval_operand l s) (eval_operand r s)"
| "eval_condition_in (CondAnd cs) s = eval_all cs s True"
| "eval_condition_in (CondOr cs) s = eval_any cs s True"
| "eval_condition_in (CondNot c) s = tri_negate (eval_condition_in c s)"
| "eval_all [] s all_true = (if all_true then TriTrue else TriUnknown)"
| "eval_all (c # cs) s all_true =
     (case eval_condition_in c s of
        TriFalse \<Rightarrow> TriFalse
      | TriUnknown \<Rightarrow> eval_all cs s False
      | TriTrue \<Rightarrow> eval_all cs s all_true)"
| "eval_any [] s all_false = (if all_false then TriFalse else TriUnknown)"
| "eval_any (c # cs) s all_false =
     (case eval_condition_in c s of
        TriTrue \<Rightarrow> TriTrue
      | TriUnknown \<Rightarrow> eval_any cs s False
      | TriFalse \<Rightarrow> eval_any cs s all_false)"

section \<open>Edges\<close>

type_synonym cmps = "reg_id \<Rightarrow> (icmp_op \<times> operand \<times> operand) option"
type_synonym copies = "reg_id \<Rightarrow> reg_id option"

definition collect_cmps :: "ir_function \<Rightarrow> cmps" where
  "collect_cmps f =
     fold (\<lambda>b m. fold (\<lambda>i m. case i of Assign dst _ (RCmp op l r) \<Rightarrow> m(dst \<mapsto> (op, l, r)) | _ \<Rightarrow> m) (b_insts b) m)
       (f_blocks f) (\<lambda>_. None)"

definition collect_copies :: "ir_function \<Rightarrow> copies" where
  "collect_copies f =
     fold (\<lambda>b m. fold (\<lambda>i m. case i of Assign dst _ (RUse (OpReg src)) \<Rightarrow> m(dst \<mapsto> src) | _ \<Rightarrow> m) (b_insts b) m)
       (f_blocks f) (\<lambda>_. None)"

fun negate_cmp :: "icmp_op \<Rightarrow> icmp_op" where
  "negate_cmp ISlt = ISge" | "negate_cmp ISle = ISgt" | "negate_cmp ISgt = ISle" | "negate_cmp ISge = ISlt"
| "negate_cmp IUlt = IUge" | "negate_cmp IUle = IUgt" | "negate_cmp IUgt = IUle" | "negate_cmp IUge = IUlt"
| "negate_cmp IEq = INe" | "negate_cmp INe = IEq"

primrec refine_reg_loop :: "nat \<Rightarrow> interval_state \<Rightarrow> reg_id \<Rightarrow> interval \<Rightarrow> copies \<Rightarrow> interval_state" where
  "refine_reg_loop 0 s reg iv copies = s"
| "refine_reg_loop (Suc k) s reg iv copies =
     (let s' = state_set reg (i_meet (state_get s reg) iv) s in
      case copies reg of
        Some src \<Rightarrow> (if src \<noteq> reg then refine_reg_loop k s' src iv copies else s')
      | None \<Rightarrow> s')"

definition refine_reg :: "interval_state \<Rightarrow> reg_id \<Rightarrow> interval \<Rightarrow> copies \<Rightarrow> interval_state" where
  "refine_reg s reg iv copies = refine_reg_loop 64 s reg iv copies"

definition guard_constraints :: "icmp_op \<Rightarrow> interval \<Rightarrow> interval \<Rightarrow> (interval \<times> interval) option" where
  "guard_constraints op li ri =
     (case op of
        ISlt \<Rightarrow> Some (as_upper_constraint True ri, as_lower_constraint True li)
      | ISle \<Rightarrow> Some (as_upper_constraint False ri, as_lower_constraint False li)
      | ISgt \<Rightarrow> Some (as_lower_constraint True ri, as_upper_constraint True li)
      | ISge \<Rightarrow> Some (as_lower_constraint False ri, as_upper_constraint False li)
      | IEq \<Rightarrow> Some (ri, li)
      | _ \<Rightarrow> None)"

definition refine_by_cmp :: "interval_state \<Rightarrow> icmp_op \<Rightarrow> operand \<Rightarrow> operand \<Rightarrow> bool \<Rightarrow> copies \<Rightarrow> interval_state" where
  "refine_by_cmp s op l r neg copies =
     (let op = (if neg then negate_cmp op else op); li = eval_operand l s; ri = eval_operand r s in
      case guard_constraints op li ri of
        None \<Rightarrow> s
      | Some (nl, nr) \<Rightarrow>
          (let s1 = (case l of OpReg q \<Rightarrow> refine_reg s q (i_meet li nl) copies | _ \<Rightarrow> s) in
           case r of OpReg q \<Rightarrow> refine_reg s1 q (i_meet ri nr) copies | _ \<Rightarrow> s1))"

fun matching_args :: "terminator \<Rightarrow> block_id \<Rightarrow> operand list list" where
  "matching_args (Br target args) to_id = (if target = to_id then [args] else [])"
| "matching_args (CondBr _ t targs e eargs) to_id = (if t = to_id then [targs] else []) @ (if e = to_id then [eargs] else [])"
| "matching_args _ to_id = []"

definition bind_params :: "(reg_id \<times> ty) list \<Rightarrow> operand list \<Rightarrow> interval_state \<Rightarrow> interval_state" where
  "bind_params params args from_exit =
     fold (\<lambda>(i, param, _) candidate. state_set param (if i < length args then eval_operand (args ! i) from_exit else i_top) candidate)
       (enumerate 0 params) from_exit"

definition guarded_exit :: "terminator \<Rightarrow> block_id \<Rightarrow> interval_state \<Rightarrow> cmps \<Rightarrow> copies \<Rightarrow> interval_state" where
  "guarded_exit term to_id from_exit cmps copies =
     (case term of
        CondBr (OpReg c) t _ e _ \<Rightarrow>
          (case cmps c of
             Some (op, l, r) \<Rightarrow>
               (let is_then = (t = to_id); is_else = (e = to_id) in
                if is_then \<noteq> is_else then refine_by_cmp from_exit op l r is_else copies else from_exit)
           | None \<Rightarrow> from_exit)
      | _ \<Rightarrow> from_exit)"

definition transfer_block :: "ir_function \<Rightarrow> cfg \<Rightarrow> nat \<Rightarrow> interval_state \<Rightarrow> interval_state" where
  "transfer_block f g node s =
     (if \<not> is_reachable s then UnreachableState
      else case block_of f (cfg_blocks g ! node) of
        Some b \<Rightarrow> fold apply_inst (b_insts b) s
      | None \<Rightarrow> UnreachableState)"

definition transfer_edge :: "ir_function \<Rightarrow> cfg \<Rightarrow> cmps \<Rightarrow> copies \<Rightarrow> nat \<Rightarrow> nat \<Rightarrow> interval_state \<Rightarrow> interval_state" where
  "transfer_edge f g cmps copies from to from_exit =
     (if \<not> is_reachable from_exit then UnreachableState
      else case (block_of f (cfg_blocks g ! from), block_of f (cfg_blocks g ! to)) of
        (Some from_block, Some to_block) \<Rightarrow>
          (let to_id = cfg_blocks g ! to;
               from_exit = guarded_exit (b_term from_block) to_id from_exit cmps copies;
               arg_lists = matching_args (b_term from_block) to_id
           in if arg_lists = [] then from_exit
              else fold (\<lambda>args result. s_join result (bind_params (b_params to_block) args from_exit)) arg_lists UnreachableState)
      | _ \<Rightarrow> UnreachableState)"

section \<open>The analysis\<close>

record interval_analysis =
  ia_solution :: "interval_state dataflow_solution"
  ia_cfg :: cfg

definition analyze_intervals :: "ir_function \<Rightarrow> interval_analysis option" where
  "analyze_intervals f =
     (let g = from_function f in
      case dominators_new g of
        None \<Rightarrow> None
      | Some dominators \<Rightarrow>
          (case detect g dominators of
             None \<Rightarrow> None
           | Some loops \<Rightarrow>
               map_option (\<lambda>sol. \<lparr>ia_solution = sol, ia_cfg = g\<rparr>)
                 (solve_dataflow UnreachableState s_join s_widen g loops state_top (transfer_block f g)
                   (transfer_edge f g (collect_cmps f) (collect_copies f)))))"

definition entry_interval :: "interval_analysis \<Rightarrow> block_id \<Rightarrow> reg_id \<Rightarrow> interval" where
  "entry_interval a block reg =
     (case cfg_index (ia_cfg a) block of
        Some node \<Rightarrow> state_get (in_states (ia_solution a) node) reg
      | None \<Rightarrow> i_top)"

definition state_before :: "ir_function \<Rightarrow> block_id \<Rightarrow> nat \<Rightarrow> interval_state \<Rightarrow> interval_state" where
  "state_before f block inst_index entry =
     (case block_of f block of
        Some b \<Rightarrow> fold apply_inst (take inst_index (b_insts b)) entry
      | None \<Rightarrow> entry)"

definition interval_at :: "interval_analysis \<Rightarrow> ir_function \<Rightarrow> block_id \<Rightarrow> nat \<Rightarrow> reg_id \<Rightarrow> interval" where
  "interval_at a f block inst_index reg =
     (case cfg_index (ia_cfg a) block of
        None \<Rightarrow> i_top
      | Some node \<Rightarrow>
          (let entry = in_states (ia_solution a) node in
           if \<not> is_reachable entry then i_top else state_get (state_before f block inst_index entry) reg))"

definition eval_condition :: "interval_analysis \<Rightarrow> ir_function \<Rightarrow> block_id \<Rightarrow> nat \<Rightarrow> condition \<Rightarrow> trivalent" where
  "eval_condition a f block inst_index cond =
     (case cfg_index (ia_cfg a) block of
        None \<Rightarrow> TriUnknown
      | Some node \<Rightarrow>
          (let entry = in_states (ia_solution a) node in
           if \<not> is_reachable entry then TriTrue else eval_condition_in cond (state_before f block inst_index entry)))"

end
