(* ===== verification/Absint_Sound.thy ===== *)
theory Absint_Sound
  imports Absint_Analysis
begin

text \<open>
  Soundness of the interval analysis. The reference is an execution model in which registers hold integers of the \<open>i128\<close> range
  (values read as signed numbers, as the analysis does): additions, subtractions and multiplications are exact, extensions keep
  the value, every other operation may yield anything. Executions that wrap at a narrower width are outside the model;
  what the analysis says of them is the subject of the last section.
\<close>

section \<open>Executions\<close>

type_synonym reg_env = "reg_id \<Rightarrow> int"

fun operand_vals :: "reg_env \<Rightarrow> operand \<Rightarrow> int set" where
  "operand_vals env (OpReg r) = {env r}"
| "operand_vals env (OpConst (CInt bv)) = {bv_signed bv}"
| "operand_vals env (OpConst CNull) = {0}"
| "operand_vals env (OpConst _) = {x. in_i128 x}"

text \<open>Comparison of two values of one width, given by their signed readings: for the unsigned orders a negative reading is the larger.\<close>

fun icmp_sem :: "icmp_op \<Rightarrow> int \<Rightarrow> int \<Rightarrow> bool" where
  "icmp_sem IEq x y \<longleftrightarrow> x = y"
| "icmp_sem INe x y \<longleftrightarrow> x \<noteq> y"
| "icmp_sem ISlt x y \<longleftrightarrow> x < y"
| "icmp_sem ISle x y \<longleftrightarrow> x \<le> y"
| "icmp_sem ISgt x y \<longleftrightarrow> x > y"
| "icmp_sem ISge x y \<longleftrightarrow> x \<ge> y"
| "icmp_sem IUlt x y \<longleftrightarrow> (if (0 \<le> x) = (0 \<le> y) then x < y else 0 \<le> x)"
| "icmp_sem IUle x y \<longleftrightarrow> (if (0 \<le> x) = (0 \<le> y) then x \<le> y else 0 \<le> x)"
| "icmp_sem IUgt x y \<longleftrightarrow> (if (0 \<le> x) = (0 \<le> y) then x > y else 0 \<le> y)"
| "icmp_sem IUge x y \<longleftrightarrow> (if (0 \<le> x) = (0 \<le> y) then x \<ge> y else 0 \<le> y)"

definition bin_vals :: "bin_op \<Rightarrow> int \<Rightarrow> int \<Rightarrow> int set" where
  "bin_vals op x y =
     (case op of
        IAdd \<Rightarrow> {x + y}
      | ISub \<Rightarrow> (if in_i128 (- y) then {x - y} else {})
      | IMul \<Rightarrow> {x * y}
      | _ \<Rightarrow> UNIV)"

fun rvalue_vals :: "reg_env \<Rightarrow> rvalue \<Rightarrow> int set" where
  "rvalue_vals env (RUse p) = operand_vals env p"
| "rvalue_vals env (RBin op l r _) = (\<Union>x\<in>operand_vals env l. \<Union>y\<in>operand_vals env r. bin_vals op x y)"
| "rvalue_vals env (RCmp op l r) = {if icmp_sem op x y then 1 else 0 | x y. x \<in> operand_vals env l \<and> y \<in> operand_vals env r}"
| "rvalue_vals env (RCast op p _) = (case op of ZExt \<Rightarrow> operand_vals env p | SExt \<Rightarrow> operand_vals env p | _ \<Rightarrow> UNIV)"
| "rvalue_vals env (RSelect c a b) = operand_vals env a \<union> operand_vals env b"

text \<open>An instruction changes at most the register it defines.\<close>

definition inst_step :: "inst \<Rightarrow> reg_env \<Rightarrow> reg_env \<Rightarrow> bool" where
  "inst_step i env env' \<longleftrightarrow>
     (case defined_reg i of
        None \<Rightarrow> env' = env
      | Some d \<Rightarrow> \<exists>v. in_i128 v \<and> env' = env(d := v) \<and> (case i of Assign _ _ rv \<Rightarrow> v \<in> rvalue_vals env rv | _ \<Rightarrow> True))"

primrec insts_step :: "inst list \<Rightarrow> reg_env \<Rightarrow> reg_env \<Rightarrow> bool" where
  "insts_step [] env env' \<longleftrightarrow> env' = env"
| "insts_step (i # is) env env' \<longleftrightarrow> (\<exists>e. inst_step i env e \<and> insts_step is e env')"

text \<open>The branch a terminator takes to a block, with the arguments it passes (none for a switch).\<close>

inductive branch :: "terminator \<Rightarrow> block_id \<Rightarrow> reg_env \<Rightarrow> operand list option \<Rightarrow> bool" where
  branch_br: "branch (Br t args) t env (Some args)"
| branch_then: "x \<in> operand_vals env c \<Longrightarrow> x \<noteq> 0 \<Longrightarrow> branch (CondBr c t targs e eargs) t env (Some targs)"
| branch_else: "0 \<in> operand_vals env c \<Longrightarrow> branch (CondBr c t targs e eargs) e env (Some eargs)"
| branch_switch: "t \<in> set (map snd cs @ [d]) \<Longrightarrow> branch (Switch v cs d) t env None"

inductive_cases branch_condE: "branch (CondBr c t targs e eargs) to env args"
inductive_cases branchE: "branch term to env args"

definition bind_step :: "(reg_id \<times> ty) list \<Rightarrow> operand list option \<Rightarrow> reg_env \<Rightarrow> reg_env \<Rightarrow> bool" where
  "bind_step params args env env' \<longleftrightarrow>
     (case args of
        None \<Rightarrow> env' = env
      | Some as \<Rightarrow> \<exists>vals. length vals = length params \<and> (\<forall>v\<in>set vals. in_i128 v) \<and>
          (\<forall>i < length params. i < length as \<longrightarrow> vals ! i \<in> operand_vals env (as ! i)) \<and>
          env' = fold (\<lambda>(p, v) e. e(p := v)) (zip (map fst params) vals) env)"

text \<open>
  What static single assignment gives at a branch on a comparison: the condition still tells the result of the comparison on the
  current values, and the copies behind its operands are still equal.
\<close>

definition copies_agree :: "copies \<Rightarrow> reg_env \<Rightarrow> reg_id \<Rightarrow> bool" where
  "copies_agree copies env r \<longleftrightarrow> (\<forall>d s. (\<lambda>a b. copies a = Some b)\<^sup>*\<^sup>* r d \<longrightarrow> copies d = Some s \<longrightarrow> env d = env s)"

definition guard_faithful :: "ir_function \<Rightarrow> terminator \<Rightarrow> reg_env \<Rightarrow> bool" where
  "guard_faithful f term env \<longleftrightarrow>
     (\<forall>c t targs e eargs op l r. term = CondBr (OpReg c) t targs e eargs \<longrightarrow> collect_cmps f c = Some (op, l, r) \<longrightarrow>
        (\<exists>x\<in>operand_vals env l. \<exists>y\<in>operand_vals env r. env c \<noteq> 0 \<longleftrightarrow> icmp_sem op x y) \<and>
        (\<forall>q. l = OpReg q \<or> r = OpReg q \<longrightarrow> copies_agree (collect_copies f) env q))"

inductive runs_to :: "ir_function \<Rightarrow> nat \<Rightarrow> reg_env \<Rightarrow> bool" for f where
  run_start: "(\<And>r. in_i128 (env r)) \<Longrightarrow> f_blocks f \<noteq> [] \<Longrightarrow> runs_to f (cfg_entry (from_function f)) env"
| run_step: "runs_to f u env \<Longrightarrow> insts_step (b_insts (f_blocks f ! u)) env e \<Longrightarrow> guard_faithful f (b_term (f_blocks f ! u)) e \<Longrightarrow>
    branch (b_term (f_blocks f ! u)) to e args \<Longrightarrow> cfg_index (from_function f) to = Some v \<Longrightarrow>
    bind_step (b_params (f_blocks f ! v)) args e env' \<Longrightarrow> runs_to f v env'"

section \<open>Instructions\<close>

definition values_ok :: "reg_env \<Rightarrow> bool" where
  "values_ok env \<longleftrightarrow> (\<forall>r. in_i128 (env r))"

lemma signed_in_i128: "in_i128 (bv_signed b)"
  using sint_range_size [of "signed_drop_bit (128 - bv_width b) (push_bit (128 - bv_width b) (bv_value b))"]
  by (auto simp: bv_signed_def Let_def i128_defs word_size)

lemma zero_in_i128: "in_i128 0"
  by (simp add: i128_defs)

lemma operand_vals_ok: "values_ok env \<Longrightarrow> x \<in> operand_vals env p \<Longrightarrow> in_i128 x"
  by (cases "(env, p)" rule: operand_vals.cases) (auto simp: values_ok_def signed_in_i128 zero_in_i128)

lemma eval_operand_sound: "env \<in> s_gamma s \<Longrightarrow> x \<in> operand_vals env p \<Longrightarrow> x \<in> i_gamma (eval_operand p s)"
  by (cases "(p, s)" rule: eval_operand.cases) (auto dest: s_gamma_get)

lemma state_get_ok: "state_ok s \<Longrightarrow> interval_ok (state_get s r)"
  by (cases s) (auto simp: m_get_ok)

lemma eval_operand_ok: "state_ok s \<Longrightarrow> interval_ok (eval_operand p s)"
  by (cases "(p, s)" rule: eval_operand.cases)
    (auto simp: state_get_ok interval_ok_ops signed_in_i128 zero_in_i128)

lemma eval_rvalue_ok: "state_ok s \<Longrightarrow> interval_ok (eval_rvalue v s)"
proof -
  assume "state_ok s"
  moreover have "interval_ok (i_range 0 1)" by (simp add: i_range_def i128_defs)
  ultimately show ?thesis
    by (cases "(v, s)" rule: eval_rvalue.cases)
      (auto simp: Let_def eval_operand_ok interval_ok_ops split: bin_op.splits cast_op.splits)
qed

lemma eval_rvalue_sound:
  assumes "env \<in> s_gamma s" and "state_ok s" and "z \<in> rvalue_vals env v" and "in_i128 z"
  shows "z \<in> i_gamma (eval_rvalue v s)"
proof (cases v)
  case (RBin op l r fl)
  then obtain x y where xy: "x \<in> operand_vals env l" "y \<in> operand_vals env r" "z \<in> bin_vals op x y" using assms(3) by auto
  note g = eval_operand_sound [OF assms(1) xy(1)] eval_operand_sound [OF assms(1) xy(2)]
  show ?thesis
    using RBin xy(3) assms(4) i_add_sound [OF g eval_operand_ok eval_operand_ok] i_sub_sound [OF g eval_operand_ok] i_mul_sound [OF g] assms(2)
    by (cases op) (auto simp: bin_vals_def Let_def split: if_splits)
qed (use assms eval_operand_sound in \<open>auto simp: Let_def split: cast_op.splits\<close>)

lemma apply_inst_ok: "state_ok s \<Longrightarrow> state_ok (apply_inst i s)"
  by (cases "(i, s)" rule: apply_inst.cases) (auto simp: state_ok_set eval_rvalue_ok interval_ok_ops)

lemma apply_inst_reachable [simp]: "is_reachable (apply_inst i s) \<longleftrightarrow> is_reachable s"
  by (cases "(i, s)" rule: apply_inst.cases) auto

lemma apply_inst_sound:
  assumes "env \<in> s_gamma s" "state_ok s" "inst_step i env env'"
  shows "env' \<in> s_gamma (apply_inst i s)"
  using assms(3)
proof (cases "(i, s)" rule: apply_inst.cases)
  case (1 dst t v s')
  then show ?thesis using assms eval_rvalue_sound by (auto simp: inst_step_def intro!: s_gamma_set)
qed (use assms in \<open>auto simp: inst_step_def intro!: s_gamma_set\<close>)

lemma inst_step_values: "values_ok env \<Longrightarrow> inst_step i env env' \<Longrightarrow> values_ok env'"
  by (auto simp: inst_step_def values_ok_def split: option.splits)

lemma apply_insts_sound:
  assumes "env \<in> s_gamma s" "state_ok s" "values_ok env" "insts_step is env env'"
  shows "env' \<in> s_gamma (fold apply_inst is s) \<and> state_ok (fold apply_inst is s) \<and> values_ok env'"
  using assms
proof (induction "is" arbitrary: s env)
  case (Cons i "is")
  then show ?case using apply_inst_sound apply_inst_ok inst_step_values by fastforce
qed auto

lemma apply_insts_ok: "state_ok s \<Longrightarrow> state_ok (fold apply_inst is s)"
  by (induction "is" arbitrary: s) (auto simp: apply_inst_ok)

section \<open>Branch refinement\<close>

lemma icmp_negate: "icmp_sem (negate_cmp op) x y \<longleftrightarrow> \<not> icmp_sem op x y"
  by (cases op) auto

lemma upper_constraint_sound:
  assumes "y \<in> i_gamma i" "interval_ok i" "in_i128 x"
  shows "x < y \<Longrightarrow> x \<in> i_gamma (as_upper_constraint True i)" and "x \<le> y \<Longrightarrow> x \<in> i_gamma (as_upper_constraint False i)"
proof -
  obtain lo hi where i: "i = Range lo hi" "ble (Fin y) hi" "bound_ok hi" using assms by (cases i) auto
  show "x \<le> y \<Longrightarrow> x \<in> i_gamma (as_upper_constraint False i)" using i ble_trans [of "Fin x" "Fin y" hi] by (simp add: as_upper_constraint_def)
  assume xy: "x < y"
  show "x \<in> i_gamma (as_upper_constraint True i)"
  proof (cases "in_i128 (y - 1)")
    case True
    have "ble (Fin (y + -1)) (bound_add hi (Fin (-1)))" using i True by (intro bound_add_upper) (auto simp: i128_defs)
    then show ?thesis using i xy ble_trans [of "Fin x" "Fin (y - 1)"] by (simp add: as_upper_constraint_def)
  next
    case False
    have "y > i128_max" using False xy assms(3) by (auto simp: i128_defs)
    then have "hi = PosInf" using i by (cases hi) (auto simp: i128_defs)
    then show ?thesis using i by (simp add: as_upper_constraint_def)
  qed
qed

lemma lower_constraint_sound:
  assumes "y \<in> i_gamma i" "interval_ok i" "in_i128 x"
  shows "y < x \<Longrightarrow> x \<in> i_gamma (as_lower_constraint True i)" and "y \<le> x \<Longrightarrow> x \<in> i_gamma (as_lower_constraint False i)"
proof -
  obtain lo hi where i: "i = Range lo hi" "ble lo (Fin y)" "bound_ok lo" using assms by (cases i) auto
  show "y \<le> x \<Longrightarrow> x \<in> i_gamma (as_lower_constraint False i)" using i ble_trans [of lo "Fin y" "Fin x"] by (simp add: as_lower_constraint_def)
  assume xy: "y < x"
  show "x \<in> i_gamma (as_lower_constraint True i)"
  proof (cases "in_i128 (y + 1)")
    case True
    have "ble (bound_add lo (Fin 1)) (Fin (y + 1))" using i True by (intro bound_add_lower) (auto simp: i128_defs)
    then show ?thesis using i xy ble_trans [of _ "Fin (y + 1)" "Fin x"] by (simp add: as_lower_constraint_def)
  next
    case False
    have "y < i128_min" using False xy assms(3) by (auto simp: i128_defs)
    then have "lo = NegInf" using i by (cases lo) (auto simp: i128_defs)
    then show ?thesis using i by (simp add: as_lower_constraint_def)
  qed
qed

lemma guard_constraints_sound:
  assumes "guard_constraints op li ri = Some (nl, nr)" and "x \<in> i_gamma li" "y \<in> i_gamma ri" and "icmp_sem op x y"
    and "interval_ok li" "interval_ok ri" "in_i128 x" "in_i128 y"
  shows "x \<in> i_gamma nl \<and> y \<in> i_gamma nr"
  using assms upper_constraint_sound [of y ri x] upper_constraint_sound [of x li y] lower_constraint_sound [of y ri x] lower_constraint_sound [of x li y]
  by (cases op) (auto simp: guard_constraints_def)

lemma refine_reg_sound:
  assumes "env \<in> s_gamma s" "env reg \<in> i_gamma iv" "copies_agree copies env reg"
  shows "env \<in> s_gamma (refine_reg_loop k s reg iv copies)"
  using assms
proof (induction k arbitrary: s reg)
  case (Suc k)
  let ?s = "state_set reg (i_meet (state_get s reg) iv) s"
  have s: "env \<in> s_gamma ?s" using Suc.prems(1,2) s_gamma_get [OF Suc.prems(1), of reg] by (intro s_gamma_refine) (auto simp: i_gamma_meet)
  show ?case
  proof (cases "copies reg")
    case (Some src)
    have e: "env src = env reg" using Suc.prems(3) Some by (auto simp: copies_agree_def)
    have "copies_agree copies env src"
      using Suc.prems(3) Some unfolding copies_agree_def by (meson converse_rtranclp_into_rtranclp)
    then show ?thesis using Suc.IH [OF s, of src] Some s e Suc.prems(2) by (simp add: Let_def)
  qed (use s in \<open>simp add: Let_def\<close>)
qed simp

lemma refine_reg_ok: "state_ok s \<Longrightarrow> interval_ok iv \<Longrightarrow> state_ok (refine_reg_loop k s reg iv copies)"
  by (induction k arbitrary: s reg) (auto simp: Let_def state_ok_set interval_ok_ops state_get_ok split: option.splits)

lemma guard_constraints_ok: "guard_constraints op li ri = Some (nl, nr) \<Longrightarrow> interval_ok li \<Longrightarrow> interval_ok ri \<Longrightarrow> interval_ok nl \<and> interval_ok nr"
  by (cases op) (auto simp: guard_constraints_def interval_ok_ops)

lemma refine_side_ok:
  "state_ok s \<Longrightarrow> interval_ok iv \<Longrightarrow> state_ok (case p of OpReg q \<Rightarrow> refine_reg s q iv copies | OpConst x \<Rightarrow> s)"
  by (cases p) (simp_all add: refine_reg_def refine_reg_ok)

lemma refine_by_cmp_ok: assumes "state_ok s" shows "state_ok (refine_by_cmp s op l r neg copies)"
proof (cases "guard_constraints (if neg then negate_cmp op else op) (eval_operand l s) (eval_operand r s)")
  case None
  then show ?thesis using assms by (simp add: refine_by_cmp_def Let_def)
next
  case (Some n)
  obtain nl nr where n: "n = (nl, nr)" by (cases n)
  have "interval_ok nl \<and> interval_ok nr" using guard_constraints_ok [OF Some [unfolded n]] eval_operand_ok [OF assms] by blast
  then have "interval_ok (i_meet (eval_operand l s) nl)" "interval_ok (i_meet (eval_operand r s) nr)"
    using eval_operand_ok [OF assms] interval_ok_ops(8) by blast+
  then show ?thesis using Some n refine_side_ok assms by (simp add: refine_by_cmp_def Let_def)
qed

lemma refine_by_cmp_sound:
  assumes g: "env \<in> s_gamma s" and ok: "state_ok s" "values_ok env" and x: "x \<in> operand_vals env l" and y: "y \<in> operand_vals env r"
    and c: "icmp_sem (if neg then negate_cmp op else op) x y"
    and copies: "\<And>q. l = OpReg q \<or> r = OpReg q \<Longrightarrow> copies_agree copies env q"
  shows "env \<in> s_gamma (refine_by_cmp s op l r neg copies)"
proof (cases "guard_constraints (if neg then negate_cmp op else op) (eval_operand l s) (eval_operand r s)")
  case None
  then show ?thesis using g by (simp add: refine_by_cmp_def Let_def)
next
  case (Some n)
  obtain nl nr where n: "n = (nl, nr)" by (cases n)
  note ev = eval_operand_sound [OF g x] eval_operand_sound [OF g y]
  have m: "x \<in> i_gamma (i_meet (eval_operand l s) nl)" "y \<in> i_gamma (i_meet (eval_operand r s) nr)"
    using guard_constraints_sound [OF Some [unfolded n] ev c eval_operand_ok [OF ok(1)] eval_operand_ok [OF ok(1)]] ev operand_vals_ok [OF ok(2)] x y
    by (auto simp: i_gamma_meet)
  let ?s = "case l of OpReg q \<Rightarrow> refine_reg s q (i_meet (eval_operand l s) nl) copies | _ \<Rightarrow> s"
  have s: "env \<in> s_gamma ?s"
    using g m(1) x copies unfolding refine_reg_def by (cases l) (auto intro!: refine_reg_sound)
  have "env \<in> s_gamma (case r of OpReg q \<Rightarrow> refine_reg ?s q (i_meet (eval_operand r s) nr) copies | _ \<Rightarrow> ?s)"
    using s m(2) y copies unfolding refine_reg_def by (cases r) (auto intro!: refine_reg_sound)
  then show ?thesis using Some n by (simp add: refine_by_cmp_def Let_def)
qed

section \<open>Edges\<close>

lemma bind_fold_sound:
  assumes "e \<in> s_gamma cand" and "length vals = length params"
    and "\<And>j. j < length params \<Longrightarrow> k + j < length args \<Longrightarrow> vals ! j \<in> i_gamma (eval_operand (args ! (k + j)) s)"
  shows "fold (\<lambda>(p, v) e. e(p := v)) (zip (map fst params) vals) e \<in> s_gamma
    (fold (\<lambda>(i, param, _) c. state_set param (if i < length args then eval_operand (args ! i) s else i_top) c) (enumerate k params) cand)"
  using assms
proof (induction params arbitrary: vals k e cand)
  case (Cons q params)
  obtain v vs where v: "vals = v # vs" using Cons.prems(2) by (cases vals) auto
  obtain p t where q: "q = (p, t)" by (cases q)
  let ?iv = "if k < length args then eval_operand (args ! k) s else i_top"
  have "v \<in> i_gamma ?iv" using Cons.prems(3) [of 0] v by auto
  then have e: "e(p := v) \<in> s_gamma (state_set p ?iv cand)" by (rule s_gamma_set [OF Cons.prems(1)])
  have l: "length vs = length params" using Cons.prems(2) v by simp
  have "vs ! j \<in> i_gamma (eval_operand (args ! (Suc k + j)) s)" if "j < length params" "Suc k + j < length args" for j
    using Cons.prems(3) [of "Suc j"] that v by simp
  from Cons.IH [OF e l this] show ?case
    by (simp only: v q list.map fst_conv zip_Cons_Cons fold_simps enumerate_simps prod.case)
qed simp

lemma bind_params_sound:
  assumes "env \<in> s_gamma s" and "bind_step params (Some args) env env'"
  shows "env' \<in> s_gamma (bind_params params args s)"
proof -
  obtain vals where v: "length vals = length params" "\<And>i. i < length params \<Longrightarrow> i < length args \<Longrightarrow> vals ! i \<in> operand_vals env (args ! i)"
    "env' = fold (\<lambda>(p, v) e. e(p := v)) (zip (map fst params) vals) env"
    using assms(2) by (auto simp: bind_step_def)
  show ?thesis unfolding v(3) bind_params_def using eval_operand_sound [OF assms(1) v(2)] by (intro bind_fold_sound assms(1) v(1)) auto
qed

lemma bind_params_ok: "state_ok s \<Longrightarrow> state_ok (bind_params params args s)"
  unfolding bind_params_def
  by (rule fold_invariant_set [of state_ok]) (auto simp: state_ok_set eval_operand_ok interval_ok_ops split: prod.splits)

lemma fold_upd_values:
  "values_ok e \<Longrightarrow> \<forall>v\<in>set vals. in_i128 v \<Longrightarrow> values_ok (fold (\<lambda>(p, v) e. e(p := v)) (zip ps vals) e)"
  by (induction ps arbitrary: vals e) (auto simp: zip_Cons1 values_ok_def split: list.splits)

lemma bind_step_values: "values_ok env \<Longrightarrow> bind_step params args env env' \<Longrightarrow> values_ok env'"
  using fold_upd_values by (auto simp: bind_step_def split: option.splits)

lemma guarded_exit_ok: "state_ok s \<Longrightarrow> state_ok (guarded_exit term to s cmps copies)"
  by (auto simp: guarded_exit_def Let_def refine_by_cmp_ok split: terminator.splits operand.splits option.splits)

lemma guarded_exit_sound:
  assumes g: "env \<in> s_gamma s" "state_ok s" "values_ok env" and f: "guard_faithful f term env" and b: "branch term to env args"
  shows "env \<in> s_gamma (guarded_exit term to s (collect_cmps f) (collect_copies f))"
proof (cases "\<exists>c t targs e eargs op l r. term = CondBr (OpReg c) t targs e eargs \<and> collect_cmps f c = Some (op, l, r) \<and> (t = to) \<noteq> (e = to)")
  case True
  then obtain c t targs e eargs op l r where t: "term = CondBr (OpReg c) t targs e eargs" "collect_cmps f c = Some (op, l, r)" "(t = to) \<noteq> (e = to)" by blast
  obtain x y where xy: "x \<in> operand_vals env l" "y \<in> operand_vals env r" "env c \<noteq> 0 \<longleftrightarrow> icmp_sem op x y"
    "\<And>q. l = OpReg q \<or> r = OpReg q \<Longrightarrow> copies_agree (collect_copies f) env q"
    using f [unfolded guard_faithful_def, rule_format, OF t(1,2)] by blast
  have "(e = to) \<longleftrightarrow> env c = 0" using b t(3) unfolding t(1) by (auto elim: branch_condE)
  then have "icmp_sem (if e = to then negate_cmp op else op) x y" using xy(3) icmp_negate by auto
  then have "env \<in> s_gamma (refine_by_cmp s op l r (e = to) (collect_copies f))" by (rule refine_by_cmp_sound [OF g xy(1,2) _ xy(4)])
  then show ?thesis using t by (simp add: guarded_exit_def Let_def)
next
  case False
  then have "guarded_exit term to s (collect_cmps f) (collect_copies f) = s"
    by (auto simp: guarded_exit_def Let_def split: terminator.splits operand.splits option.splits)
  then show ?thesis using g(1) by simp
qed

lemma join_list_ok: "state_ok r \<Longrightarrow> (\<And>x. x \<in> set xs \<Longrightarrow> state_ok (h x)) \<Longrightarrow> state_ok (fold (\<lambda>x r. s_join r (h x)) xs r)"
  by (rule fold_invariant_set [of state_ok]) (auto simp: s_ok_ops)

lemma join_list_gamma:
  assumes "state_ok r" "\<And>x. x \<in> set xs \<Longrightarrow> state_ok (h x)" "env \<in> s_gamma r \<or> (\<exists>x\<in>set xs. env \<in> s_gamma (h x))"
  shows "env \<in> s_gamma (fold (\<lambda>x r. s_join r (h x)) xs r)"
  using assms
proof (induction xs arbitrary: r)
  case (Cons x xs)
  have k: "state_ok (h x)" "state_ok (s_join r (h x))" using Cons.prems s_ok_ops by auto
  have "s_gamma r \<subseteq> s_gamma (s_join r (h x))" "s_gamma (h x) \<subseteq> s_gamma (s_join r (h x))"
    using states.join_ub [OF Cons.prems(1) k(1)] s_gamma_mono by blast+
  then show ?case using Cons.IH [OF k(2)] Cons.prems by auto
qed simp

lemma branch_args:
  assumes "branch term to env args"
  shows "case args of Some as \<Rightarrow> as \<in> set (matching_args term to) | None \<Rightarrow> matching_args term to = []"
  using assms by (cases rule: branch.cases) auto

section \<open>The analysis\<close>

text \<open>The fast path of the block lookup agrees with the search when block ids are distinct.\<close>

lemma block_of_nth:
  assumes "distinct (map b_id (f_blocks f))" and "u < length (f_blocks f)"
  shows "block_of f (b_id (f_blocks f ! u)) = Some (f_blocks f ! u)"
proof -
  let ?P = "\<lambda>b. b_id b = b_id (f_blocks f ! u)"
  have one: "v = u" if "v < length (f_blocks f)" "?P (f_blocks f ! v)" for v
    using nth_eq_iff_index_eq [OF assms(1), of v u] that assms(2) by simp
  have "find ?P (f_blocks f) = Some (f_blocks f ! u)"
    unfolding find_Some_iff
  proof (intro exI [of _ u] conjI refl assms(2) allI impI notI)
    fix j assume "j < u" "b_id (f_blocks f ! j) = b_id (f_blocks f ! u)"
    then show False using one [of j] assms(2) by simp
  qed
  then show ?thesis using one [of "b_id (f_blocks f ! u)"] by (auto simp: block_of_def)
qed

lemma cfg_blocks_from: "cfg_blocks (from_function f) = map b_id (f_blocks f)" "cfg_index (from_function f) = index_blocks (map b_id (f_blocks f))"
  by (simp_all add: from_function_def Let_def split: prod.splits)

lemma node_block:
  assumes "node < node_count (from_function f)"
  shows "block_of f (cfg_blocks (from_function f) ! node) \<noteq> None"
proof -
  have n: "node < length (f_blocks f)" using assms by (simp add: from_function_correct(2))
  then have "find (\<lambda>b. b_id b = b_id (f_blocks f ! node)) (f_blocks f) \<noteq> None" using nth_mem [OF n] unfolding find_None_iff by blast
  then show ?thesis using n by (auto simp: block_of_def cfg_blocks_from)
qed

lemma transfer_block_ok: "state_ok s \<Longrightarrow> state_ok (transfer_block f g u s)"
  by (auto simp: transfer_block_def apply_insts_ok split: option.splits)

lemma transfer_edge_ok: "state_ok s \<Longrightarrow> state_ok (transfer_edge f g cmps copies p u s)"
  by (auto simp: transfer_edge_def Let_def guarded_exit_ok bind_params_ok intro!: join_list_ok split: option.splits)

interpretation interval_flow: dataflow state_ok UnreachableState s_join s_widen s_leq "from_function f" hdrs state_top
  "transfer_block f (from_function f)" "transfer_edge f (from_function f) (collect_cmps f) (collect_copies f)" for f hdrs
  by unfold_locales
    (rule from_function_correct(1) state_ok_top transfer_block_ok transfer_edge_ok | assumption | simp add: transfer_block_def is_reachable_def)+

lemma transfer_block_sound:
  assumes "distinct (map b_id (f_blocks f))" "u < length (f_blocks f)" and "env \<in> s_gamma s" "state_ok s" "values_ok env"
    and "insts_step (b_insts (f_blocks f ! u)) env e"
  shows "e \<in> s_gamma (transfer_block f (from_function f) u s) \<and> values_ok e"
proof -
  have "is_reachable s" using assms(3) by (simp add: s_gamma_def)
  then have "transfer_block f (from_function f) u s = fold apply_inst (b_insts (f_blocks f ! u)) s"
    using block_of_nth [OF assms(1,2)] assms(2) by (simp add: transfer_block_def cfg_blocks_from)
  then show ?thesis using apply_insts_sound [OF assms(3-6)] by simp
qed

lemma transfer_edge_sound:
  assumes d: "distinct (map b_id (f_blocks f))" "u < length (f_blocks f)" and g: "e \<in> s_gamma s" "state_ok s" "values_ok e"
    and f: "guard_faithful f (b_term (f_blocks f ! u)) e" and b: "branch (b_term (f_blocks f ! u)) to e args"
    and v: "cfg_index (from_function f) to = Some v" and p: "bind_step (b_params (f_blocks f ! v)) args e env'"
  shows "env' \<in> s_gamma (transfer_edge f (from_function f) (collect_cmps f) (collect_copies f) u v s)"
proof -
  let ?t = "b_term (f_blocks f ! u)"
  let ?s = "guarded_exit ?t to s (collect_cmps f) (collect_copies f)"
  have V: "v < length (f_blocks f)" "b_id (f_blocks f ! v) = to" using v index_blocks_nth [of "map b_id (f_blocks f)" to v] by (auto simp: cfg_blocks_from)
  have e: "e \<in> s_gamma ?s" by (rule guarded_exit_sound [OF g f b])
  have T: "transfer_edge f (from_function f) (collect_cmps f) (collect_copies f) u v s =
    (if matching_args ?t to = [] then ?s
     else fold (\<lambda>as r. s_join r (bind_params (b_params (f_blocks f ! v)) as ?s)) (matching_args ?t to) UnreachableState)"
    using g(1) block_of_nth [OF d] block_of_nth [OF d(1) V(1)] V d(2)
    by (simp add: transfer_edge_def cfg_blocks_from Let_def s_gamma_def)
  show ?thesis
  proof (cases args)
    case None
    then show ?thesis using T e p branch_args [OF b] by (simp add: bind_step_def)
  next
    case (Some as)
    have a: "as \<in> set (matching_args ?t to)" using branch_args [OF b] Some by simp
    have "env' \<in> s_gamma (bind_params (b_params (f_blocks f ! v)) as ?s)" using bind_params_sound [OF e] p Some by simp
    then have "env' \<in> s_gamma (fold (\<lambda>as r. s_join r (bind_params (b_params (f_blocks f ! v)) as ?s)) (matching_args ?t to) UnreachableState)"
      using a guarded_exit_ok [OF g(2)] by (intro join_list_gamma) (auto simp: bind_params_ok)
    then show ?thesis using T a by auto
  qed
qed

lemma branch_edge:
  assumes "branch (b_term (f_blocks f ! u)) to e args" "cfg_index (from_function f) to = Some v" "u < length (f_blocks f)"
  shows "edge (cfg_succ (from_function f)) u v"
proof -
  have "to \<in> set (block_successors (f_blocks f ! u))" using assms(1) by (cases rule: branch.cases) (auto simp: block_successors_def)
  then have "v \<in> set (cfg_succ (from_function f) ! u)"
    using assms(2,3) unfolding from_function_correct(3) by (auto simp: in_map_filter cfg_blocks_from)
  then show ?thesis using assms(3) by (simp add: edge_def from_function_correct(3))
qed

lemma analyze_intervals_returns:
  assumes "f_blocks f \<noteq> []"
  shows "\<exists>a. analyze_intervals f = Some a \<and> ia_cfg a = from_function f \<and> (\<forall>u. state_ok (in_states (ia_solution a) u)) \<and>
    (\<forall>u. out_states (ia_solution a) u = transfer_block f (from_function f) u (in_states (ia_solution a) u)) \<and>
    s_leq state_top (in_states (ia_solution a) (cfg_entry (from_function f))) \<and>
    (\<forall>p u. reachable (cfg_succ (from_function f)) (cfg_entry (from_function f)) p \<longrightarrow> edge (cfg_succ (from_function f)) p u \<longrightarrow>
       s_leq (transfer_edge f (from_function f) (collect_cmps f) (collect_copies f) p u (out_states (ia_solution a) p)) (in_states (ia_solution a) u))"
proof -
  obtain tree where t: "dominators_new (from_function f) = Some tree" "\<And>a b. dominates (from_function f) tree a b =
      Some (dominator (cfg_succ (from_function f)) (cfg_entry (from_function f)) a b)"
    using dominators_total [OF assms] by blast
  obtain loops where l: "detect (from_function f) tree = Some loops" using detect_exact [OF from_function_correct(1) t(2)] by blast
  show ?thesis
    using interval_flow.dataflow_solved [of "headers loops" loops f] t(1) l assms by (auto simp: analyze_intervals_def from_function_correct(2))
qed

lemma analysis_covers:
  assumes d: "distinct (map b_id (f_blocks f))" and a: "analyze_intervals f = Some a" and r: "runs_to f u env"
  shows "u < length (f_blocks f) \<and> reachable (cfg_succ (from_function f)) (cfg_entry (from_function f)) u \<and> values_ok env \<and>
    env \<in> s_gamma (in_states (ia_solution a) u)"
  using r
proof (induction rule: runs_to.induct)
  case (run_start env)
  have "cfg_entry (from_function f) < length (f_blocks f)" using from_function_correct(1,2) [of f] run_start by (auto simp: cfg_ok_def)
  moreover have "s_gamma state_top \<subseteq> s_gamma (in_states (ia_solution a) (cfg_entry (from_function f)))"
    by (rule s_gamma_mono) (use analyze_intervals_returns [OF run_start(2)] a in auto)
  ultimately show ?case using run_start reachable_root by (auto simp: values_ok_def)
next
  case (run_step u env e to args v env')
  have ne: "f_blocks f \<noteq> []" using run_step.IH by auto
  have A: "\<And>u. state_ok (in_states (ia_solution a) u)"
    "\<And>u. out_states (ia_solution a) u = transfer_block f (from_function f) u (in_states (ia_solution a) u)"
    "\<And>p u. reachable (cfg_succ (from_function f)) (cfg_entry (from_function f)) p \<Longrightarrow> edge (cfg_succ (from_function f)) p u \<Longrightarrow>
       s_leq (transfer_edge f (from_function f) (collect_cmps f) (collect_copies f) p u (out_states (ia_solution a) p)) (in_states (ia_solution a) u)"
    using analyze_intervals_returns [OF ne] a by auto
  have u: "u < length (f_blocks f)" and ru: "reachable (cfg_succ (from_function f)) (cfg_entry (from_function f)) u" using run_step.IH by auto
  have e: "e \<in> s_gamma (out_states (ia_solution a) u)" "values_ok e"
    using transfer_block_sound [OF d u _ A(1) _ run_step.hyps(2)] run_step.IH A(2) by auto
  have o: "state_ok (out_states (ia_solution a) u)" unfolding A(2) by (rule transfer_block_ok [OF A(1)])
  have "env' \<in> s_gamma (transfer_edge f (from_function f) (collect_cmps f) (collect_copies f) u v (out_states (ia_solution a) u))"
    by (rule transfer_edge_sound [OF d u e(1) o e(2) run_step.hyps(3,4,5,6)])
  moreover have E: "edge (cfg_succ (from_function f)) u v" by (rule branch_edge [OF run_step.hyps(4,5) u])
  ultimately have "env' \<in> s_gamma (in_states (ia_solution a) v)" using s_gamma_mono [OF A(3) [OF ru E]] by blast
  moreover have "v < length (f_blocks f)" using run_step.hyps(5) index_blocks_nth [of "map b_id (f_blocks f)" to v] by (auto simp: cfg_blocks_from)
  ultimately show ?case using reachable_step [OF ru E] bind_step_values [OF e(2) run_step.hyps(6)] by blast
qed

section \<open>Conditions\<close>

text \<open>The truth values a condition can take (undefined operands may make it take both).\<close>

fun cond_vals :: "reg_env \<Rightarrow> condition \<Rightarrow> bool set"
and all_vals :: "reg_env \<Rightarrow> condition list \<Rightarrow> bool set"
and any_vals :: "reg_env \<Rightarrow> condition list \<Rightarrow> bool set" where
  "cond_vals env CondTrue = {True}"
| "cond_vals env (CondCmp op l r) = {icmp_sem op x y | x y. x \<in> operand_vals env l \<and> y \<in> operand_vals env r}"
| "cond_vals env (CondAnd cs) = all_vals env cs"
| "cond_vals env (CondOr cs) = any_vals env cs"
| "cond_vals env (CondNot c) = Not ` cond_vals env c"
| "all_vals env [] = {True}"
| "all_vals env (c # cs) = {a \<and> b | a b. a \<in> cond_vals env c \<and> b \<in> all_vals env cs}"
| "any_vals env [] = {False}"
| "any_vals env (c # cs) = {a \<or> b | a b. a \<in> cond_vals env c \<and> b \<in> any_vals env cs}"

text \<open>Every unsigned comparison in the condition is on operands the analysis knows to be non-negative.\<close>

fun unsigned_safe :: "interval_state \<Rightarrow> condition \<Rightarrow> bool" where
  "unsigned_safe s CondTrue \<longleftrightarrow> True"
| "unsigned_safe s (CondCmp op l r) \<longleftrightarrow>
     (if op \<in> {IUlt, IUle, IUgt, IUge} then is_at_least 0 (eval_operand l s) \<and> is_at_least 0 (eval_operand r s) else True)"
| "unsigned_safe s (CondAnd cs) \<longleftrightarrow> (\<forall>c\<in>set cs. unsigned_safe s c)"
| "unsigned_safe s (CondOr cs) \<longleftrightarrow> (\<forall>c\<in>set cs. unsigned_safe s c)"
| "unsigned_safe s (CondNot c) \<longleftrightarrow> unsigned_safe s c"

lemma is_at_least_sound: "is_at_least n i \<Longrightarrow> x \<in> i_gamma i \<Longrightarrow> n \<le> x"
  by (cases i) (auto dest: ble_trans [of "Fin n" _ "Fin x"])

lemma blt_not: "blt a b \<longleftrightarrow> \<not> ble b a"
  using ble_linear [of a b] by (auto simp: blt_def)

lemma compare_intervals_sound:
  assumes x: "x \<in> i_gamma a" and y: "y \<in> i_gamma b" and u: "op \<in> {IUlt, IUle, IUgt, IUge} \<Longrightarrow> 0 \<le> x \<and> 0 \<le> y"
  shows "(compare_intervals op a b = TriTrue \<longrightarrow> icmp_sem op x y) \<and> (compare_intervals op a b = TriFalse \<longrightarrow> \<not> icmp_sem op x y)"
proof -
  obtain alo ahi blo bhi where ab: "a = Range alo ahi" "b = Range blo bhi" using x y by (cases a; cases b) auto
  have r: "ble alo (Fin x)" "ble (Fin x) ahi" "ble blo (Fin y)" "ble (Fin y) bhi" using x y ab by auto
  have 1: "ble ahi blo \<Longrightarrow> x \<le> y" using ble_trans [OF r(2)] ble_trans [OF _ r(3)] by fastforce
  have 2: "ble bhi alo \<Longrightarrow> y \<le> x" using ble_trans [OF r(4)] ble_trans [OF _ r(1)] by fastforce
  have 3: "\<not> ble blo ahi \<Longrightarrow> x < y" using ble_trans [OF r(3), of "Fin x"] ble_trans [OF _ r(2), of blo] by (cases "x < y") auto
  have 4: "\<not> ble alo bhi \<Longrightarrow> y < x" using ble_trans [OF r(1), of "Fin y"] ble_trans [OF _ r(4), of alo] by (cases "y < x") auto
  have 5: "alo = ahi \<Longrightarrow> blo = bhi \<Longrightarrow> alo = blo \<Longrightarrow> x = y" using 1 2 by force
  show ?thesis
    unfolding compare_intervals_def compare_bounds_def ab using u 1 2 3 4 5
    by (cases op) (auto simp: Let_def blt_not split: if_splits)
qed

lemma eval_condition_in_sound:
  shows "env \<in> s_gamma s \<Longrightarrow> unsigned_safe s c \<Longrightarrow>
      (eval_condition_in c s = TriTrue \<longrightarrow> cond_vals env c \<subseteq> {True}) \<and> (eval_condition_in c s = TriFalse \<longrightarrow> cond_vals env c \<subseteq> {False})"
    and "env \<in> s_gamma s \<Longrightarrow> \<forall>c\<in>set cs. unsigned_safe s c \<Longrightarrow>
      (eval_all cs s t = TriTrue \<longrightarrow> t \<and> all_vals env cs \<subseteq> {True}) \<and> (eval_all cs s t = TriFalse \<longrightarrow> all_vals env cs \<subseteq> {False})"
    and "env \<in> s_gamma s \<Longrightarrow> \<forall>c\<in>set cs. unsigned_safe s c \<Longrightarrow>
      (eval_any cs s t = TriFalse \<longrightarrow> t \<and> any_vals env cs \<subseteq> {False}) \<and> (eval_any cs s t = TriTrue \<longrightarrow> any_vals env cs \<subseteq> {True})"
proof (induction c s and cs s t and cs s t rule: eval_condition_in_eval_all_eval_any.induct)
  case (2 op l r s)
  have c: "(compare_intervals op (eval_operand l s) (eval_operand r s) = TriTrue \<longrightarrow> icmp_sem op x y) \<and>
      (compare_intervals op (eval_operand l s) (eval_operand r s) = TriFalse \<longrightarrow> \<not> icmp_sem op x y)"
    if xy: "x \<in> operand_vals env l" "y \<in> operand_vals env r" for x y
  proof -
    note g = eval_operand_sound [OF 2(1) xy(1)] eval_operand_sound [OF 2(1) xy(2)]
    have "0 \<le> x \<and> 0 \<le> y" if "op \<in> {IUlt, IUle, IUgt, IUge}" using is_at_least_sound g 2(2) that by auto
    then show ?thesis using compare_intervals_sound [OF g] by blast
  qed
  show ?case unfolding eval_condition_in.simps cond_vals.simps using c by blast
next
  case (5 c s)
  then show ?case by (cases "eval_condition_in c s") auto
next
  case (7 c cs s t)
  then show ?case by (cases "eval_condition_in c s") auto
next
  case (9 c cs s t)
  then show ?case by (cases "eval_condition_in c s") auto
qed auto

end
