(* ===== verification/Absint_Props.thy ===== *)
theory Absint_Props
  imports Absint_Sound
begin

text \<open>
  What the interval analysis guarantees: it returns on every function, its solution is a post-fixpoint of the transfer functions, the
  intervals it reports contain every value of every execution of the reference model, and its verdicts on conditions are right.
  The last section has the readings of the machine that the analysis does not cover.
\<close>

lemma cfg_index_nth:
  assumes "distinct (map b_id (f_blocks f))" and "u < length (f_blocks f)"
  shows "cfg_index (from_function f) (b_id (f_blocks f ! u)) = Some u"
proof (cases "cfg_index (from_function f) (b_id (f_blocks f ! u))")
  case None
  then have "b_id (f_blocks f ! u) \<notin> set (map b_id (f_blocks f))" unfolding cfg_blocks_from index_blocks_None by simp
  then show ?thesis using assms(2) by simp
next
  case (Some v)
  then have "v < length (f_blocks f)" "b_id (f_blocks f ! v) = b_id (f_blocks f ! u)"
    using index_blocks_nth [of "map b_id (f_blocks f)" "b_id (f_blocks f ! u)" v] by (auto simp: cfg_blocks_from)
  then show ?thesis using Some nth_eq_iff_index_eq [OF assms(1), of v u] assms(2) by simp
qed

lemma runs_state_before:
  assumes d: "distinct (map b_id (f_blocks f))" and a: "analyze_intervals f = Some a" and r: "runs_to f u env"
    and k: "insts_step (take k (b_insts (f_blocks f ! u))) env e"
  shows "ia_cfg a = from_function f" and "is_reachable (in_states (ia_solution a) u)"
    and "e \<in> s_gamma (state_before f (b_id (f_blocks f ! u)) k (in_states (ia_solution a) u))"
    and "cfg_index (ia_cfg a) (b_id (f_blocks f ! u)) = Some u"
proof -
  note C = analysis_covers [OF d a r]
  have "f_blocks f \<noteq> []" using C by auto
  then have A: "ia_cfg a = from_function f" "state_ok (in_states (ia_solution a) u)" using analyze_intervals_returns [of f] a by auto
  then show "ia_cfg a = from_function f" by simp
  show "is_reachable (in_states (ia_solution a) u)" using C by (simp add: s_gamma_def)
  show "e \<in> s_gamma (state_before f (b_id (f_blocks f ! u)) k (in_states (ia_solution a) u))"
    using C apply_insts_sound [OF _ A(2) _ k] block_of_nth [OF d] by (simp add: state_before_def)
  show "cfg_index (ia_cfg a) (b_id (f_blocks f ! u)) = Some u" using cfg_index_nth [OF d] C A(1) by simp
qed

text \<open>
  Property C26. The interval analysis ends on every function, whatever its control flow (a cycle without a loop header is cut by the
  forced widening), and its solution is a post-fixpoint: the entry block admits every environment, each exit state is the
  transfer of the entry state, and the contribution of every edge from a reachable block is below the entry state of its target.
\<close>

theorem interval_analysis_terminates:
  assumes "f_blocks f \<noteq> []"
  shows "\<exists>a. analyze_intervals f = Some a \<and>
    s_leq state_top (in_states (ia_solution a) (cfg_entry (from_function f))) \<and>
    (\<forall>u. out_states (ia_solution a) u = transfer_block f (from_function f) u (in_states (ia_solution a) u)) \<and>
    (\<forall>p u. reachable (cfg_succ (from_function f)) (cfg_entry (from_function f)) p \<and> edge (cfg_succ (from_function f)) p u \<longrightarrow>
       s_leq (transfer_edge f (from_function f) (collect_cmps f) (collect_copies f) p u (out_states (ia_solution a) p)) (in_states (ia_solution a) u))"
  using analyze_intervals_returns [OF assms] by blast

theorem interval_analysis_terminates_witness: "\<exists>a. analyze_intervals sneaky_function = Some a"
proof -
  have "f_blocks sneaky_function \<noteq> []" by (simp add: sneaky_function_def)
  from interval_analysis_terminates [OF this] show ?thesis by blast
qed



text \<open>An execution of the sample loop, for the witnesses.\<close>

lemma sneaky_runs: "runs_to sneaky_function 0 (\<lambda>_. 0)" "distinct (map b_id (f_blocks sneaky_function))" "b_insts (f_blocks sneaky_function ! 0) = []"
  "b_id (f_blocks sneaky_function ! 0) = 0"
proof -
  show "runs_to sneaky_function 0 (\<lambda>_. 0)"
    using run_start [of "\<lambda>_. 0" sneaky_function] sneaky_graph(2) by (simp add: sneaky_function_def zero_in_i128)
qed (simp_all add: sneaky_function_def block_new_def)



text \<open>
  Registers of an environment: reading back what was set yields it and leaves the others alone, \<open>top\<close> is never stored, and two
  environments are equal exactly when they read the same everywhere, so the equality test that ends the iteration is exact.
\<close>

theorem environment_roundtrip:
  assumes "state_ok s" and "is_reachable s" and "interval_ok v"
  shows "state_get (state_set r v s) q = (if q = r then v else state_get s q) \<and> state_ok (state_set r v s) \<and>
    (state_ok t \<and> is_reachable t \<longrightarrow> (s = t \<longleftrightarrow> (\<forall>q. state_get s q = state_get t q)))"
proof -
  have "s = t" if "state_ok t" "is_reachable t" "\<forall>q. state_get s q = state_get t q"
    using assms(1,2) that map_ext by (cases s; cases t) (auto simp: is_reachable_def)
  then show ?thesis using assms state_get_set state_ok_set by auto
qed

theorem environment_roundtrip_witness: "state_get (state_set 3 (i_range 0 9) state_top) 3 = i_range 0 9"
proof -
  have "state_ok state_top" "is_reachable state_top" "interval_ok (i_range 0 9)"
    by (simp_all add: state_ok_top state_top_def is_reachable_def i_range_def i128_defs map_ok_def)
  from environment_roundtrip [OF this, of 3 3 state_top] show ?thesis by simp
qed

section \<open>What the signed reading misses\<close>

text \<open>
  Unsigned comparisons are decided on signed readings: with an index of \<open>-1\<close>, the check \<open>-1 <u 8\<close> is reported to hold, while the unsigned
  comparison is false.
\<close>

theorem unsigned_check_wrong:
  "eval_condition_in (CondCmp IUlt (OpReg 0) (OpReg 1)) (state_set 0 (singleton (-1)) (state_set 1 (singleton 8) state_top)) = TriTrue \<and>
   \<not> icmp_sem IUlt (-1) 8"
  by (simp add: state_top_def m_get_def i_top_def compare_intervals_def compare_bounds_def singleton_def blt_def Let_def)

lemma byte_value:
  assumes "v < 256"
  shows "bv_wf \<lparr>bv_width = 8, bv_words = (of_nat v, 0)\<rparr>" and "bv_nat \<lparr>bv_width = 8, bv_words = (of_nat v, 0)\<rparr> = v"
proof -
  have "unat (ucast (of_nat v :: u64) :: u128) = v" using assms by (simp add: unsigned_ucast_eq unsigned_of_nat take_bit_nat_eq_self)
  then show "bv_wf \<lparr>bv_width = 8, bv_words = (of_nat v, 0)\<rparr>" "bv_nat \<lparr>bv_width = 8, bv_words = (of_nat v, 0)\<rparr> = v"
    using assms by (simp_all add: bv_wf_def bv_nat_def bv_unsigned_def bv_value_def)
qed

lemma byte_signed: "v < 256 \<Longrightarrow> bv_signed \<lparr>bv_width = 8, bv_words = (of_nat v, 0)\<rparr> = to_signed 8 v"
  using bv_signed_to_signed [OF byte_value(1)] byte_value(2) by simp

text \<open>A zero extension keeps the interval of the signed reading: the byte \<open>0xFF\<close>, which extends to 255, is taken for \<open>-1\<close>.\<close>

theorem zext_interval_wrong:
  "eval_rvalue (RCast ZExt (OpConst (CInt \<lparr>bv_width = 8, bv_words = (255, 0)\<rparr>)) (TyInt 32)) s = singleton (-1) \<and>
   bv_nat \<lparr>bv_width = 8, bv_words = (255, 0)\<rparr> = 255"
  using byte_signed [of 255] byte_value(2) [of 255] by (simp add: to_signed_def)

text \<open>Sums are not reduced to the width of the registers: \<open>127 + 1\<close> on bytes is taken for 128 while the machine yields \<open>-128\<close>.\<close>

theorem narrow_sum_not_wrapped:
  "eval_rvalue (RBin IAdd (OpConst (CInt \<lparr>bv_width = 8, bv_words = (127, 0)\<rparr>)) (OpConst (CInt \<lparr>bv_width = 8, bv_words = (1, 0)\<rparr>)) fl) s = singleton 128 \<and>
   map_option bv_signed (bv_wrapping_add \<lparr>bv_width = 8, bv_words = (127, 0)\<rparr> \<lparr>bv_width = 8, bv_words = (1, 0)\<rparr>) = Some (-128)"
proof -
  have "bv_wrapping_add \<lparr>bv_width = 8, bv_words = (127, 0)\<rparr> \<lparr>bv_width = 8, bv_words = (1, 0)\<rparr> = Some \<lparr>bv_width = 8, bv_words = (128, 0)\<rparr>"
    by code_simp
  then show ?thesis using byte_signed [of 127] byte_signed [of 1] byte_signed [of 128]
    by (simp add: to_signed_def singleton_def checked_i128_def i128_defs)
qed

end
