(* ===== verification/Conc_Events.thy ===== *)
theory Conc_Events
  imports Prelude "HOL-Library.List_Lexorder" "HOL-Library.Char_ord"
begin

text \<open>
  The event traces of \<open>crates/verifier/src/interleave.rs\<close>: events, threads, the search budget of the bounded checks, and the
  reference semantics the checks are compared with: schedules that interleave the traces in program order under the
  mutual exclusion of locks. Class names are strings; \<open>usize\<close> lengths are natural numbers and the saturating \<open>u64\<close> arithmetic of
  the budget is written out.
\<close>

section \<open>Events and threads\<close>

datatype event =
    Acquire string
  | Release string
  | Read string
  | DepRead string
  | Write string
  | Rmw string
  | Fence
  | WFence
  | RFence
  | Spawn string
  | Join
  | Free string
  | Cas string
  | RefGet string
  | RefPut string
  | Typestate string

record thread =
  t_name :: string
  t_events :: "event list"

fun decode_event :: "nat \<times> string \<Rightarrow> event" where
  "decode_event (k, c) =
     (if k = 0 then Acquire c
      else if k = 1 then Release c
      else if k = 2 then Read c
      else if k = 4 then Fence
      else if k = 5 then WFence
      else if k = 6 then RFence
      else if k = 7 then Spawn c
      else if k = 8 then Join
      else if k = 9 then DepRead c
      else if k = 10 then Free c
      else if k = 11 then Cas c
      else if k = 12 then RefGet c
      else if k = 13 then RefPut c
      else if k = 14 then Typestate c
      else if k = 15 then Rmw c
      else Write c)"

definition trace_to_thread :: "string \<Rightarrow> (nat \<times> string) list \<Rightarrow> thread" where
  "trace_to_thread name trace = \<lparr>t_name = name, t_events = map decode_event trace\<rparr>"

fun writes_to :: "event \<Rightarrow> string option" where
  "writes_to (Write x) = Some x"
| "writes_to (Rmw x) = Some x"
| "writes_to _ = None"

fun reads_from :: "event \<Rightarrow> string option" where
  "reads_from (Read x) = Some x"
| "reads_from (DepRead x) = Some x"
| "reads_from _ = None"

definition written :: "thread \<Rightarrow> string set" where
  "written t = set (List.map_filter writes_to (t_events t))"

definition touched :: "thread \<Rightarrow> string set" where
  "touched t = set (List.map_filter (\<lambda>e. case reads_from e of Some x \<Rightarrow> Some x | None \<Rightarrow> writes_to e) (t_events t))"

fun spawn_name :: "event \<Rightarrow> string option" where
  "spawn_name (Spawn n) = Some n"
| "spawn_name _ = None"

definition spawned_names :: "thread list \<Rightarrow> string set" where
  "spawned_names threads = set (List.map_filter spawn_name (concat (map t_events threads)))"

section \<open>Budgets\<close>

definition U64_MAX :: nat where
  "U64_MAX = 2 ^ 64 - 1"

definition sat_u64 :: "nat \<Rightarrow> nat" where
  "sat_u64 n = min n U64_MAX"

definition SEARCH_CEILING :: nat where
  "SEARCH_CEILING = 500000"

definition search_estimate :: "nat list \<Rightarrow> nat" where
  "search_estimate es =
     sat_u64 (fold (\<lambda>e product. sat_u64 (product * (e + 1))) es 1 * sat_u64 (4 ^ length es))"

definition search_budget :: "nat list \<Rightarrow> nat" where
  "search_budget es = min (search_estimate es) SEARCH_CEILING"

definition product_fits :: "nat list \<Rightarrow> bool" where
  "product_fits es \<longleftrightarrow> search_estimate es \<le> SEARCH_CEILING"

text \<open>Below the ceiling nothing has saturated: the estimate is the product it stands for.\<close>

lemma sat_u64_fold_le: "sat_u64 (a * b) \<le> U64_MAX" and sat_u64_eq: "n \<le> U64_MAX \<Longrightarrow> sat_u64 n = n"
  by (simp_all add: sat_u64_def)

lemma fold_sat_product:
  assumes "a \<le> U64_MAX"
  shows "fold (\<lambda>e product. sat_u64 (product * (e + 1))) es a = sat_u64 (a * prod_list (map Suc es))"
  using assms
proof (induction es arbitrary: a)
  case (Cons e es)
  have pos: "0 < prod_list (map Suc es)" by (induction es) simp_all
  have "fold (\<lambda>e product. sat_u64 (product * (e + 1))) (e # es) a = sat_u64 (sat_u64 (a * (e + 1)) * prod_list (map Suc es))"
    using Cons.IH [OF sat_u64_fold_le, of a "e + 1"] by (simp only: fold_simps)
  also have "\<dots> = sat_u64 (a * (e + 1) * prod_list (map Suc es))"
  proof (cases "a * (e + 1) \<le> U64_MAX")
    case False
    then have "U64_MAX \<le> U64_MAX * prod_list (map Suc es)" "U64_MAX \<le> a * (e + 1) * prod_list (map Suc es)"
      using pos by (auto intro: order_trans [of _ "a * (e + 1)"])
    then show ?thesis using False by (simp add: sat_u64_def min_absorb2)
  qed (simp add: sat_u64_eq)
  finally show ?case by (simp add: algebra_simps)
qed (simp add: sat_u64_eq)

lemma sat_u64_mult: "sat_u64 (sat_u64 a * sat_u64 b) = sat_u64 (a * b)"
proof (cases "a \<le> U64_MAX \<and> b \<le> U64_MAX \<or> a = 0 \<or> b = 0")
  case False
  then have "U64_MAX \<le> a * b" by (metis Suc_leI gr0I le_trans mult_le_mono1 mult_le_mono2 mult_1 mult_1_right nat_le_linear One_nat_def)
  moreover have "U64_MAX \<le> sat_u64 a * sat_u64 b" using False by (auto simp: sat_u64_def min_def U64_MAX_def)
  ultimately show ?thesis by (simp add: sat_u64_def [of "_ * _"] min_absorb2)
qed (auto simp: sat_u64_def)

lemma search_estimate_eq: "search_estimate es = sat_u64 (prod_list (map Suc es) * 4 ^ length es)"
  using fold_sat_product [of 1 es] by (simp add: search_estimate_def sat_u64_mult U64_MAX_def)

lemma search_budget_eq: "search_budget es = min (prod_list (map Suc es) * 4 ^ length es) SEARCH_CEILING"
  unfolding search_budget_def search_estimate_eq sat_u64_def by (simp add: SEARCH_CEILING_def U64_MAX_def min_def)

section \<open>Reports without repetition\<close>

text \<open>
  The body shared by the whole-program searches: a candidate that passes its test is reported unless its key was reported before
  (\<open>cond && seen.insert(key)\<close> followed by \<open>out.push(..)\<close>); nested loops are the list of their index tuples.
\<close>

definition report_new :: "('c \<Rightarrow> bool) \<Rightarrow> ('c \<Rightarrow> 'k) \<Rightarrow> ('c \<Rightarrow> 'w) \<Rightarrow> 'c \<Rightarrow> 'w list \<times> 'k set \<Rightarrow> 'w list \<times> 'k set" where
  "report_new test key mk c acc =
     (case acc of (out, seen) \<Rightarrow> if test c \<and> key c \<notin> seen then (out @ [mk c], insert (key c) seen) else (out, seen))"

lemma report_new_exact:
  assumes "\<And>c. wkey (mk c) = key c"
  shows "let out = fst (fold (report_new test key mk) cs ([], {})) in
    distinct (map wkey out) \<and> wkey ` set out = key ` {c \<in> set cs. test c} \<and> set out \<subseteq> mk ` {c \<in> set cs. test c}"
proof -
  let ?I = "\<lambda>cs acc. snd acc = wkey ` set (fst acc) \<and> distinct (map wkey (fst acc)) \<and>
    wkey ` set (fst acc) = key ` {c \<in> set cs. test c} \<and> set (fst acc) \<subseteq> mk ` {c \<in> set cs. test c}"
  have "?I cs (fold (report_new test key mk) cs ([], {}))"
  proof (induction cs rule: rev_induct)
    case (snoc c cs)
    obtain out seen where a: "fold (report_new test key mk) cs ([], {}) = (out, seen)" by fastforce
    have I: "seen = wkey ` set out" "distinct (map wkey out)" "wkey ` set out = key ` {c \<in> set cs. test c}" "set out \<subseteq> mk ` {c \<in> set cs. test c}"
      using snoc unfolding a by auto
    show ?case
    proof (cases "test c \<and> key c \<notin> seen")
      case True
      then have "fold (report_new test key mk) (cs @ [c]) ([], {}) = (out @ [mk c], insert (key c) seen)" using a by (simp add: report_new_def)
      moreover have "{d \<in> set (cs @ [c]). test d} = insert c {d \<in> set cs. test d}" using True by auto
      ultimately show ?thesis using I True assms by (auto simp: image_iff)
    next
      case False
      then have "fold (report_new test key mk) (cs @ [c]) ([], {}) = (out, seen)" using a by (auto simp: report_new_def)
      moreover have "key ` {d \<in> set (cs @ [c]). test d} = key ` {d \<in> set cs. test d}" using False I(1,3) by auto
      ultimately show ?thesis using I by auto
    qed
  qed simp
  then show ?thesis by (simp add: Let_def)
qed

text \<open>The index pairs of the loops over two different threads, and over single threads.\<close>

lemma set_off_diagonal:
  "x \<in> set (concat [if i = j then [] else f i j. i \<leftarrow> [0..<n], j \<leftarrow> [0..<n]]) \<longleftrightarrow> (\<exists>i j. i < n \<and> j < n \<and> i \<noteq> j \<and> x \<in> set (f i j))"
    (is "?L \<longleftrightarrow> ?R")
proof
  assume ?L
  then obtain i j where "i < n" "j < n" "x \<in> set (if i = j then [] else f i j)"
    by (auto simp del: if_image_distrib)
  then show ?R by (cases "i = j") auto
next
  assume ?R
  then obtain i j where ij: "i < n" "j < n" "x \<in> set (if i = j then [] else f i j)" by auto
  have "(if i = j then [] else f i j) \<in> set (map (\<lambda>j. if i = j then [] else f i j) [0..<n])" using ij(2) unfolding set_map by (intro imageI) simp
  then have "(if i = j then [] else f i j) \<in> set [if i = j then [] else f i j. i \<leftarrow> [0..<n], j \<leftarrow> [0..<n]]"
    using ij(1) unfolding set_concat set_map [of _ "[0..<n]"] by (intro UN_I imageI) (auto simp del: if_image_distrib)
  then show ?L using ij(3) unfolding set_concat [of "concat _"] by (rule UN_I)
qed

lemma set_diagonal: "x \<in> set (concat [if P i then f i else []. i \<leftarrow> [0..<n]]) \<longleftrightarrow> (\<exists>i<n. P i \<and> x \<in> set (f i))"
  by (auto split: if_splits)

section \<open>Schedules\<close>

text \<open>
  A schedule is a sequence of steps, each the event of one thread. Its projections follow the traces, and a lock is acquired only
  while no other thread holds it. \<open>Release\<close> gives up every acquisition of the lock, as the checker does.
\<close>

type_synonym schedule = "(nat \<times> event) list"

definition proj :: "nat \<Rightarrow> schedule \<Rightarrow> event list" where
  "proj t \<sigma> = map snd (filter (\<lambda>s. fst s = t) \<sigma>)"

fun lock_effect :: "event \<Rightarrow> string set \<Rightarrow> string set" where
  "lock_effect (Acquire l) ls = insert l ls"
| "lock_effect (Release l) ls = ls - {l}"
| "lock_effect _ ls = ls"

definition locks_of :: "event list \<Rightarrow> string set" where
  "locks_of es = fold lock_effect es {}"

definition may_step :: "event list list \<Rightarrow> schedule \<Rightarrow> nat \<Rightarrow> event \<Rightarrow> bool" where
  "may_step traces \<sigma> t e \<longleftrightarrow>
     t < length traces \<and> length (proj t \<sigma>) < length (traces ! t) \<and> e = traces ! t ! length (proj t \<sigma>) \<and>
     (\<forall>l u. e = Acquire l \<longrightarrow> u < length traces \<longrightarrow> u \<noteq> t \<longrightarrow> l \<notin> locks_of (proj u \<sigma>))"

inductive valid_schedule :: "event list list \<Rightarrow> schedule \<Rightarrow> bool" for traces where
  valid_Nil: "valid_schedule traces []"
| valid_snoc: "valid_schedule traces \<sigma> \<Longrightarrow> may_step traces \<sigma> t e \<Longrightarrow> valid_schedule traces (\<sigma> @ [(t, e)])"

inductive_cases valid_snocE: "valid_schedule traces (\<sigma> @ [(t, e)])"

lemma proj_simps [simp]:
  "proj t [] = []" "proj t (\<sigma> @ [(u, e)]) = (if u = t then proj t \<sigma> @ [e] else proj t \<sigma>)"
  by (simp_all add: proj_def)

lemma locks_of_simps [simp]: "locks_of [] = {}" "locks_of (es @ [e]) = lock_effect e (locks_of es)"
  by (simp_all add: locks_of_def)

lemma valid_snoc_iff: "valid_schedule traces (\<sigma> @ [(t, e)]) \<longleftrightarrow> valid_schedule traces \<sigma> \<and> may_step traces \<sigma> t e"
  by (auto elim: valid_schedule.cases intro: valid_snoc)

lemma valid_prefix: "valid_schedule traces (\<sigma> @ \<tau>) \<Longrightarrow> valid_schedule traces \<sigma>"
proof (induction \<tau> rule: rev_induct)
  case (snoc s \<tau>)
  then show ?case using valid_snoc_iff [of traces "\<sigma> @ \<tau>" "fst s" "snd s"] by simp
qed simp

text \<open>Checking a concrete schedule.\<close>

primrec runs_from :: "event list list \<Rightarrow> schedule \<Rightarrow> schedule \<Rightarrow> bool" where
  "runs_from traces \<sigma> [] \<longleftrightarrow> True"
| "runs_from traces \<sigma> (s # \<tau>) \<longleftrightarrow> may_step traces \<sigma> (fst s) (snd s) \<and> runs_from traces (\<sigma> @ [s]) \<tau>"

lemma runs_from_valid: "runs_from traces \<sigma> \<tau> \<Longrightarrow> valid_schedule traces \<sigma> \<Longrightarrow> valid_schedule traces (\<sigma> @ \<tau>)"
proof (induction \<tau> arbitrary: \<sigma>)
  case (Cons s \<tau>)
  then show ?case using Cons.IH [of "\<sigma> @ [(fst s, snd s)]"] by (simp add: valid_snoc_iff del: prod.collapse) simp
qed simp

lemma valid_proj:
  assumes "valid_schedule traces \<sigma>"
  shows "proj t \<sigma> = take (length (proj t \<sigma>)) (traces ! t)" and "t < length traces \<Longrightarrow> length (proj t \<sigma>) \<le> length (traces ! t)"
    and "s \<in> set \<sigma> \<Longrightarrow> fst s < length traces"
  using assms by (induction rule: valid_schedule.induct) (auto simp: may_step_def take_Suc_conv_app_nth)

lemma valid_nth:
  assumes "valid_schedule traces \<sigma>" and "j < length \<sigma>"
  shows "may_step traces (take j \<sigma>) (fst (\<sigma> ! j)) (snd (\<sigma> ! j))"
proof -
  have "valid_schedule traces (take j \<sigma> @ [\<sigma> ! j])"
    using valid_prefix [of traces "take j \<sigma> @ [\<sigma> ! j]" "drop (Suc j) \<sigma>"] id_take_nth_drop [OF assms(2)] assms(1) by simp
  then show ?thesis using valid_snoc_iff [of traces "take j \<sigma>" "fst (\<sigma> ! j)" "snd (\<sigma> ! j)"] by simp
qed

lemma lock_effect_cases: "l \<in> lock_effect e ls \<Longrightarrow> e = Acquire l \<or> l \<in> ls"
  by (cases e) auto

text \<open>Mutual exclusion: no two threads ever hold the same lock.\<close>

lemma locks_exclusive:
  assumes "valid_schedule traces \<sigma>" and "t < length traces" "u < length traces" "t \<noteq> u"
  shows "locks_of (proj t \<sigma>) \<inter> locks_of (proj u \<sigma>) = {}"
  using assms
proof (induction rule: valid_schedule.induct)
  case (valid_snoc \<sigma> v e)
  have "l \<notin> locks_of (proj w \<sigma>)" if "e = Acquire l" "w < length traces" "w \<noteq> v" for l w
    using valid_snoc.hyps(2) that by (simp add: may_step_def)
  then show ?case using valid_snoc.IH valid_snoc.prems lock_effect_cases by (auto simp: disjoint_iff; blast)
qed simp

end
