(* ===== verification/Conc_Atomicity.thy ===== *)
theory Conc_Atomicity
  imports Conc_Events
begin

text \<open>
  The lost-update search of \<open>crates/verifier/src/interleave/atomicity.rs\<close>: the depth-first exploration of the interleavings of two
  traces, the whole-program search over pairs of threads, and the store-buffer litmus. The search is compared with the
  schedules of \<open>Conc_Events\<close>: a witness is a real schedule with a lost update, and a search that ends with budget left has seen
  every schedule.
\<close>

section \<open>The search\<close>

record atomicity_witness =
  w_location :: string
  w_schedule :: "(string \<times> event) list"

record search_state =
  ip :: "nat \<Rightarrow> nat"
  held :: "nat \<Rightarrow> string list"
  pending :: "nat \<Rightarrow> string list"
  interrupted :: "nat \<Rightarrow> string list"

definition search_start :: search_state where
  "search_start = \<lparr>ip = (\<lambda>_. 0), held = (\<lambda>_. []), pending = (\<lambda>_. []), interrupted = (\<lambda>_. [])\<rparr>"

text \<open>A write closes the writer's window on the location and cuts an open window of the other thread.\<close>

definition write_window :: "nat \<Rightarrow> string \<Rightarrow> search_state \<Rightarrow> search_state" where
  "write_window t x st =
     (let other = 1 - t;
          st = (if x \<in> set (pending st other) \<and> x \<notin> set (interrupted st other)
                then st\<lparr>interrupted := (interrupted st)(other := interrupted st other @ [x])\<rparr> else st)
      in st\<lparr>pending := (pending st)(t := filter (\<lambda>p. p \<noteq> x) (pending st t)),
            interrupted := (interrupted st)(t := filter (\<lambda>p. p \<noteq> x) (interrupted st t))\<rparr>)"

fun apply_event :: "nat \<Rightarrow> event \<Rightarrow> search_state \<Rightarrow> search_state" where
  "apply_event t (Acquire l) st = st\<lparr>held := (held st)(t := held st t @ [l])\<rparr>"
| "apply_event t (Release l) st = st\<lparr>held := (held st)(t := filter (\<lambda>h. h \<noteq> l) (held st t))\<rparr>"
| "apply_event t (Read x) st = (if x \<in> set (pending st t) then st else st\<lparr>pending := (pending st)(t := pending st t @ [x])\<rparr>)"
| "apply_event t (DepRead x) st = (if x \<in> set (pending st t) then st else st\<lparr>pending := (pending st)(t := pending st t @ [x])\<rparr>)"
| "apply_event t (Rmw x) st = write_window t x st"
| "apply_event t (Write x) st = write_window t x st"
| "apply_event t _ st = st"

fun realises_loss :: "nat \<Rightarrow> event \<Rightarrow> search_state \<Rightarrow> string option" where
  "realises_loss t (Rmw x) st = (if x \<in> set (interrupted st t) then Some x else None)"
| "realises_loss t _ st = None"

fun lock_blocked :: "nat \<Rightarrow> event \<Rightarrow> search_state \<Rightarrow> bool" where
  "lock_blocked t (Acquire l) st \<longleftrightarrow> l \<in> set (held st (1 - t))"
| "lock_blocked t _ st \<longleftrightarrow> False"

definition next_event :: "event list list \<Rightarrow> search_state \<Rightarrow> nat \<Rightarrow> event option" where
  "next_event traces st t = (if t < length traces \<and> ip st t < length (traces ! t) then Some (traces ! t ! ip st t) else None)"

definition step_thread :: "nat \<Rightarrow> event \<Rightarrow> search_state \<Rightarrow> search_state" where
  "step_thread t e st = apply_event t e (st\<lparr>ip := (ip st)(t := Suc (ip st t))\<rparr>)"

definition witness_of :: "string list \<Rightarrow> string \<Rightarrow> schedule \<Rightarrow> atomicity_witness" where
  "witness_of names x \<sigma> = \<lparr>w_location = x, w_schedule = map (\<lambda>(t, e). (names ! t, e)) \<sigma>\<rparr>"

definition events_left :: "event list list \<Rightarrow> search_state \<Rightarrow> nat" where
  "events_left traces st = (\<Sum>t<length traces. length (traces ! t) - ip st t)"

lemma ip_apply_event [simp]: "ip (apply_event t e st) = ip st"
  by (cases e) (simp_all add: write_window_def Let_def)

lemma events_left_step:
  assumes "next_event traces st t = Some e"
  shows "events_left traces (step_thread t e st) < events_left traces st"
proof -
  have t: "t < length traces" "ip st t < length (traces ! t)" using assms by (auto simp: next_event_def split: if_splits)
  have "(\<Sum>u<length traces. length (traces ! u) - ((ip st)(t := Suc (ip st t))) u) < (\<Sum>u<length traces. length (traces ! u) - ip st u)"
    using t by (intro sum_strict_mono_ex1) auto
  then show ?thesis by (simp add: events_left_def step_thread_def)
qed

function (sequential) dfs :: "event list list \<Rightarrow> string list \<Rightarrow> search_state \<Rightarrow> schedule \<Rightarrow> nat \<Rightarrow> atomicity_witness option \<times> nat"
and dfs_threads :: "event list list \<Rightarrow> string list \<Rightarrow> search_state \<Rightarrow> schedule \<Rightarrow> nat list \<Rightarrow> nat \<Rightarrow> atomicity_witness option \<times> nat" where
  "dfs traces names st \<sigma> budget =
     (if budget = 0 then (None, 0) else dfs_threads traces names st \<sigma> [0, 1] (budget - 1))"
| "dfs_threads traces names st \<sigma> [] budget = (None, budget)"
| "dfs_threads traces names st \<sigma> (t # ts) budget =
     (case next_event traces st t of
        None \<Rightarrow> dfs_threads traces names st \<sigma> ts budget
      | Some e \<Rightarrow>
          if lock_blocked t e st then dfs_threads traces names st \<sigma> ts budget
          else case realises_loss t e st of
            Some x \<Rightarrow> (Some (witness_of names x (\<sigma> @ [(t, e)])), budget)
          | None \<Rightarrow>
              (case dfs traces names (step_thread t e st) (\<sigma> @ [(t, e)]) budget of
                 (Some w, b) \<Rightarrow> (Some w, b)
               | (None, b) \<Rightarrow> dfs_threads traces names st \<sigma> ts b))"
  by pat_completeness auto
termination
  by (relation "measures [\<lambda>x. case x of Inl (tr, _, st, _, _) \<Rightarrow> events_left tr st | Inr (tr, _, st, _, _, _) \<Rightarrow> events_left tr st,
      \<lambda>x. case x of Inl _ \<Rightarrow> 3 | Inr (_, _, _, _, ts, _) \<Rightarrow> length ts]")
    (auto simp: events_left_step)

declare dfs.simps [simp del] dfs_threads.simps [simp del]

definition atomicity_violation :: "thread \<Rightarrow> thread \<Rightarrow> atomicity_witness option" where
  "atomicity_violation a b =
     fst (dfs [t_events a, t_events b] [t_name a, t_name b] search_start []
            (search_budget [length (t_events a), length (t_events b)]))"

text \<open>The whole-program search: every pair of threads that shares a written location, in both orders, and spawned threads against a copy.\<close>

type_synonym atomicity_acc = "atomicity_witness list \<times> string set"

fun record_witness :: "atomicity_witness option \<Rightarrow> atomicity_acc \<Rightarrow> atomicity_acc" where
  "record_witness None acc = acc"
| "record_witness (Some w) (out, seen) = (if w_location w \<in> seen then (out, seen) else (out @ [w], insert (w_location w) seen))"

definition shares_write :: "thread \<Rightarrow> thread \<Rightarrow> bool" where
  "shares_write a b \<longleftrightarrow> (\<exists>w\<in>written a. w \<in> touched b) \<or> (\<exists>w\<in>written b. w \<in> touched a)"

definition second_instance :: "thread \<Rightarrow> thread" where
  "second_instance t = t\<lparr>t_name := t_name t @ ''#2''\<rparr>"

definition check_pair :: "thread list \<Rightarrow> nat \<Rightarrow> nat \<Rightarrow> atomicity_acc \<Rightarrow> atomicity_acc" where
  "check_pair threads i j acc =
     (if shares_write (threads ! i) (threads ! j)
      then record_witness (atomicity_violation (threads ! j) (threads ! i))
             (record_witness (atomicity_violation (threads ! i) (threads ! j)) acc)
      else acc)"

definition check_thread :: "thread list \<Rightarrow> nat \<Rightarrow> atomicity_acc \<Rightarrow> atomicity_acc" where
  "check_thread threads i acc =
     (let ti = threads ! i in
      if written ti = {} \<and> touched ti = {} then acc
      else let acc = (if written ti \<noteq> {} \<and> t_name ti \<in> spawned_names threads
                      then record_witness (atomicity_violation ti (second_instance ti)) acc else acc)
           in fold (check_pair threads i) [Suc i..<length threads] acc)"

definition find_atomicity_violations :: "thread list \<Rightarrow> atomicity_witness list" where
  "find_atomicity_violations threads =
     sort_key w_location (fst (fold (check_thread threads) [0..<length threads] ([], {})))"

section \<open>Lost updates\<close>

definition reads_at :: "schedule \<Rightarrow> nat \<Rightarrow> nat \<Rightarrow> string \<Rightarrow> bool" where
  "reads_at \<sigma> i t x \<longleftrightarrow> i < length \<sigma> \<and> fst (\<sigma> ! i) = t \<and> reads_from (snd (\<sigma> ! i)) = Some x"

definition writes_at :: "schedule \<Rightarrow> nat \<Rightarrow> nat \<Rightarrow> string \<Rightarrow> bool" where
  "writes_at \<sigma> i t x \<longleftrightarrow> i < length \<sigma> \<and> fst (\<sigma> ! i) = t \<and> writes_to (snd (\<sigma> ! i)) = Some x"

text \<open>
  A thread reads a location, the other thread writes it, and the first thread closes the same read-modify-write with a store
  computed from its read.
\<close>

definition lost_update :: "schedule \<Rightarrow> nat \<Rightarrow> string \<Rightarrow> bool" where
  "lost_update \<sigma> t x \<longleftrightarrow>
     (\<exists>i j k. i < j \<and> j < k \<and> k < length \<sigma> \<and> reads_at \<sigma> i t x \<and> writes_at \<sigma> j (1 - t) x \<and> \<sigma> ! k = (t, Rmw x) \<and>
        (\<forall>m. i < m \<longrightarrow> m < k \<longrightarrow> \<not> writes_at \<sigma> m t x))"

definition open_window :: "schedule \<Rightarrow> nat \<Rightarrow> string \<Rightarrow> bool" where
  "open_window \<sigma> t x \<longleftrightarrow> (\<exists>i. reads_at \<sigma> i t x \<and> (\<forall>m>i. \<not> writes_at \<sigma> m t x))"

definition cut_window :: "schedule \<Rightarrow> nat \<Rightarrow> string \<Rightarrow> bool" where
  "cut_window \<sigma> t x \<longleftrightarrow> (\<exists>i j. i < j \<and> reads_at \<sigma> i t x \<and> writes_at \<sigma> j (1 - t) x \<and> (\<forall>m>i. \<not> writes_at \<sigma> m t x))"

lemma reads_at_snoc: "reads_at (\<sigma> @ [s]) i t x \<longleftrightarrow> reads_at \<sigma> i t x \<or> i = length \<sigma> \<and> fst s = t \<and> reads_from (snd s) = Some x"
  by (auto simp: reads_at_def nth_append)

lemma writes_at_snoc: "writes_at (\<sigma> @ [s]) i t x \<longleftrightarrow> writes_at \<sigma> i t x \<or> i = length \<sigma> \<and> fst s = t \<and> writes_to (snd s) = Some x"
  by (auto simp: writes_at_def nth_append)

lemma at_less: "reads_at \<sigma> i t x \<Longrightarrow> i < length \<sigma>" "writes_at \<sigma> i t x \<Longrightarrow> i < length \<sigma>"
  by (simp_all add: reads_at_def writes_at_def)

lemma reads_not_writes: "reads_from e = Some x \<Longrightarrow> writes_to e = None" "writes_to e = Some x \<Longrightarrow> reads_from e = None"
  by (cases e; simp)+

lemma open_window_snoc:
  "open_window (\<sigma> @ [(u, e)]) t x \<longleftrightarrow>
     (if u = t \<and> reads_from e = Some x then True else if u = t \<and> writes_to e = Some x then False else open_window \<sigma> t x)"
proof -
  have r: "open_window (\<sigma> @ [(u, e)]) t x" if "u = t" "reads_from e = Some x"
    unfolding open_window_def using that by (intro exI [of _ "length \<sigma>"]) (auto simp: reads_at_snoc writes_at_snoc dest: at_less)
  have w: "\<not> open_window (\<sigma> @ [(u, e)]) t x" if "u = t" "writes_to e = Some x"
    using that reads_not_writes(2) at_less(1) by (fastforce simp: open_window_def reads_at_snoc writes_at_snoc)
  have o: "open_window (\<sigma> @ [(u, e)]) t x \<longleftrightarrow> open_window \<sigma> t x" if "\<not> (u = t \<and> reads_from e = Some x)" "\<not> (u = t \<and> writes_to e = Some x)"
    using that by (auto simp: open_window_def reads_at_snoc writes_at_snoc)
  show ?thesis using r w o by auto
qed

lemma cut_window_snoc:
  assumes "t < 2" "u < 2"
  shows "cut_window (\<sigma> @ [(u, e)]) t x \<longleftrightarrow>
     (if u = t \<and> writes_to e = Some x then False
      else cut_window \<sigma> t x \<or> u = 1 - t \<and> writes_to e = Some x \<and> open_window \<sigma> t x)"
proof -
  have w: "\<not> cut_window (\<sigma> @ [(u, e)]) t x" if "u = t" "writes_to e = Some x"
    using that reads_not_writes(2) at_less(1) by (fastforce simp: cut_window_def reads_at_snoc writes_at_snoc)
  have o: "cut_window (\<sigma> @ [(u, e)]) t x \<longleftrightarrow> cut_window \<sigma> t x \<or> u = 1 - t \<and> writes_to e = Some x \<and> open_window \<sigma> t x"
    if n: "\<not> (u = t \<and> writes_to e = Some x)"
  proof
    assume "cut_window (\<sigma> @ [(u, e)]) t x"
    then obtain i j where *: "i < j" "reads_at (\<sigma> @ [(u, e)]) i t x" "writes_at (\<sigma> @ [(u, e)]) j (1 - t) x" "\<forall>m>i. \<not> writes_at (\<sigma> @ [(u, e)]) m t x"
      by (auto simp: cut_window_def)
    have "j < Suc (length \<sigma>)" using at_less(2) [OF *(3)] by simp
    then have i: "reads_at \<sigma> i t x" "\<forall>m>i. \<not> writes_at \<sigma> m t x" using * by (auto simp: reads_at_snoc writes_at_snoc)
    then show "cut_window \<sigma> t x \<or> u = 1 - t \<and> writes_to e = Some x \<and> open_window \<sigma> t x"
      using *(1,3) unfolding writes_at_snoc cut_window_def open_window_def by auto
  next
    assume "cut_window \<sigma> t x \<or> u = 1 - t \<and> writes_to e = Some x \<and> open_window \<sigma> t x"
    then show "cut_window (\<sigma> @ [(u, e)]) t x"
    proof
      assume "cut_window \<sigma> t x"
      then show ?thesis using n unfolding cut_window_def by (auto simp: reads_at_snoc writes_at_snoc)
    next
      assume *: "u = 1 - t \<and> writes_to e = Some x \<and> open_window \<sigma> t x"
      then obtain i where i: "reads_at \<sigma> i t x" "\<forall>m>i. \<not> writes_at \<sigma> m t x" by (auto simp: open_window_def)
      then show ?thesis unfolding cut_window_def using * n at_less(1) [OF i(1)]
        by (intro exI [of _ i] exI [of _ "length \<sigma>"]) (auto simp: reads_at_snoc writes_at_snoc)
    qed
  qed
  show ?thesis using w o by auto
qed

lemma lost_update_snoc: "lost_update (\<sigma> @ [s]) t x \<longleftrightarrow> lost_update \<sigma> t x \<or> s = (t, Rmw x) \<and> cut_window \<sigma> t x"
proof
  assume "lost_update (\<sigma> @ [s]) t x"
  then obtain i j k where *: "i < j" "j < k" "k < Suc (length \<sigma>)" "reads_at (\<sigma> @ [s]) i t x" "writes_at (\<sigma> @ [s]) j (1 - t) x"
    "(\<sigma> @ [s]) ! k = (t, Rmw x)" "\<And>m. i < m \<Longrightarrow> m < k \<Longrightarrow> \<not> writes_at (\<sigma> @ [s]) m t x"
    by (auto simp: lost_update_def)
  have ij: "reads_at \<sigma> i t x" "writes_at \<sigma> j (1 - t) x" using * by (auto simp: reads_at_snoc writes_at_snoc)
  have no: "\<not> writes_at \<sigma> m t x" if "i < m" "m < k" for m using *(7) [OF that] by (simp add: writes_at_snoc)
  show "lost_update \<sigma> t x \<or> s = (t, Rmw x) \<and> cut_window \<sigma> t x"
  proof (cases "k = length \<sigma>")
    case True
    then have "\<forall>m>i. \<not> writes_at \<sigma> m t x" using no at_less(2) by blast
    then have "cut_window \<sigma> t x" using *(1) ij unfolding cut_window_def by blast
    then show ?thesis using *(6) True by simp
  next
    case False
    then have "k < length \<sigma>" "\<sigma> ! k = (t, Rmw x)" using *(3,6) by (auto simp: nth_append)
    then show ?thesis using *(1,2) ij no unfolding lost_update_def by blast
  qed
next
  assume "lost_update \<sigma> t x \<or> s = (t, Rmw x) \<and> cut_window \<sigma> t x"
  then show "lost_update (\<sigma> @ [s]) t x"
  proof
    assume "lost_update \<sigma> t x"
    then obtain i j k where "i < j" "j < k" "k < length \<sigma>" "reads_at \<sigma> i t x" "writes_at \<sigma> j (1 - t) x" "\<sigma> ! k = (t, Rmw x)"
      "\<forall>m. i < m \<longrightarrow> m < k \<longrightarrow> \<not> writes_at \<sigma> m t x" by (auto simp: lost_update_def)
    then show ?thesis unfolding lost_update_def
      by (intro exI [of _ i] exI [of _ j] exI [of _ k]) (auto simp: nth_append reads_at_snoc writes_at_snoc)
  next
    assume s: "s = (t, Rmw x) \<and> cut_window \<sigma> t x"
    then obtain i j where "i < j" "reads_at \<sigma> i t x" "writes_at \<sigma> j (1 - t) x" "\<forall>m>i. \<not> writes_at \<sigma> m t x" by (auto simp: cut_window_def)
    then show ?thesis using s at_less(2) unfolding lost_update_def
      by (intro exI [of _ i] exI [of _ j] exI [of _ "length \<sigma>"]) (auto simp: reads_at_snoc writes_at_snoc)
  qed
qed

section \<open>The search explores schedules\<close>

definition tracks :: "search_state \<Rightarrow> schedule \<Rightarrow> bool" where
  "tracks st \<sigma> \<longleftrightarrow> (\<forall>t. ip st t = length (proj t \<sigma>)) \<and>
     (\<forall>t<2. set (held st t) = locks_of (proj t \<sigma>) \<and> (\<forall>x. x \<in> set (pending st t) \<longleftrightarrow> open_window \<sigma> t x) \<and>
       (\<forall>x. x \<in> set (interrupted st t) \<longleftrightarrow> cut_window \<sigma> t x))"

lemma tracksD:
  assumes "tracks st \<sigma>"
  shows "ip st t = length (proj t \<sigma>)" and "t < 2 \<Longrightarrow> set (held st t) = locks_of (proj t \<sigma>)"
    and "t < 2 \<Longrightarrow> x \<in> set (pending st t) \<longleftrightarrow> open_window \<sigma> t x" and "t < 2 \<Longrightarrow> x \<in> set (interrupted st t) \<longleftrightarrow> cut_window \<sigma> t x"
  using assms by (auto simp: tracks_def)

lemma tracks_start: "tracks search_start []"
  by (simp add: tracks_def search_start_def open_window_def cut_window_def reads_at_def)

lemma two_cases: "(t::nat) < 2 \<longleftrightarrow> t = 0 \<or> t = 1"
  by auto

lemma held_step:
  "set (held (step_thread t e st) u) = (if u = t then lock_effect e (set (held st t)) else set (held st u))"
  by (cases e) (auto simp: step_thread_def write_window_def Let_def)

lemma pending_step:
  "x \<in> set (pending (step_thread t e st) u) \<longleftrightarrow>
     (if t = u \<and> reads_from e = Some x then True else if t = u \<and> writes_to e = Some x then False else x \<in> set (pending st u))"
  by (cases e) (auto simp: step_thread_def write_window_def Let_def)

lemma interrupted_step:
  assumes "t < 2" "u < 2"
  shows "x \<in> set (interrupted (step_thread t e st) u) \<longleftrightarrow>
     (if t = u \<and> writes_to e = Some x then False
      else x \<in> set (interrupted st u) \<or> t = 1 - u \<and> writes_to e = Some x \<and> x \<in> set (pending st u))"
  using assms by (cases e) (auto simp: step_thread_def write_window_def Let_def two_cases)

lemma tracks_step:
  assumes "tracks st \<sigma>" and "t < 2"
  shows "tracks (step_thread t e st) (\<sigma> @ [(t, e)])"
proof -
  have "ip (step_thread t e st) u = length (proj u (\<sigma> @ [(t, e)]))" for u
    using tracksD(1) [OF assms(1)] by (simp add: step_thread_def)
  moreover have "set (held (step_thread t e st) u) = locks_of (proj u (\<sigma> @ [(t, e)]))" if "u < 2" for u
    using tracksD(2) [OF assms(1)] that by (simp add: held_step)
  moreover have "x \<in> set (pending (step_thread t e st) u) \<longleftrightarrow> open_window (\<sigma> @ [(t, e)]) u x" if "u < 2" for u x
    unfolding pending_step open_window_snoc using tracksD(3) [OF assms(1) that] by simp
  moreover have "x \<in> set (interrupted (step_thread t e st) u) \<longleftrightarrow> cut_window (\<sigma> @ [(t, e)]) u x" if "u < 2" for u x
    unfolding interrupted_step [OF assms(2) that] cut_window_snoc [OF that assms(2)]
    using tracksD(3,4) [OF assms(1) that] by simp
  ultimately show ?thesis by (simp add: tracks_def)
qed

lemma may_step_search:
  assumes "tracks st \<sigma>" and "length traces = 2" and "t < 2"
  shows "may_step traces \<sigma> t e \<longleftrightarrow> next_event traces st t = Some e \<and> \<not> lock_blocked t e st"
proof -
  have "lock_blocked t e st \<longleftrightarrow> (\<exists>l. e = Acquire l \<and> l \<in> locks_of (proj (1 - t) \<sigma>))"
    using tracksD(2) [OF assms(1), of "1 - t"] assms(3) by (cases e) auto
  moreover have "(\<forall>l u. e = Acquire l \<longrightarrow> u < 2 \<longrightarrow> u \<noteq> t \<longrightarrow> l \<notin> locks_of (proj u \<sigma>)) \<longleftrightarrow> (\<forall>l. e = Acquire l \<longrightarrow> l \<notin> locks_of (proj (1 - t) \<sigma>))"
    using assms(3) by (auto simp: two_cases)
  ultimately show ?thesis using assms tracksD(1) [OF assms(1), of t] by (auto simp: may_step_def next_event_def)
qed

lemma realises_loss_iff:
  assumes "tracks st \<sigma>" and "t < 2" and "\<And>u y. \<not> lost_update \<sigma> u y"
  shows "realises_loss t e st = Some x \<longleftrightarrow> lost_update (\<sigma> @ [(t, e)]) t x"
    and "realises_loss t e st = None \<Longrightarrow> \<not> lost_update (\<sigma> @ [(t, e)]) u y"
proof -
  have "realises_loss t e st = Some x \<longleftrightarrow> e = Rmw x \<and> cut_window \<sigma> t x" for x
    using tracksD(4) [OF assms(1,2), of x] by (cases e) auto
  then show "realises_loss t e st = Some x \<longleftrightarrow> lost_update (\<sigma> @ [(t, e)]) t x"
    "realises_loss t e st = None \<Longrightarrow> \<not> lost_update (\<sigma> @ [(t, e)]) u y"
    using assms(3) by (auto simp: lost_update_snoc)
qed

text \<open>A schedule whose last event closes a lost update, and in which no update was lost before that event.\<close>

definition ends_in_loss :: "schedule \<Rightarrow> nat \<Rightarrow> string \<Rightarrow> bool" where
  "ends_in_loss \<sigma> t x \<longleftrightarrow>
     lost_update \<sigma> t x \<and> \<sigma> \<noteq> [] \<and> last \<sigma> = (t, Rmw x) \<and> (\<forall>u y. \<not> lost_update (butlast \<sigma>) u y)"

definition real_witness :: "event list list \<Rightarrow> string list \<Rightarrow> schedule \<Rightarrow> atomicity_witness \<Rightarrow> bool" where
  "real_witness traces names \<sigma> w \<longleftrightarrow>
     (\<exists>\<tau> t. valid_schedule traces (\<sigma> @ \<tau>) \<and> ends_in_loss (\<sigma> @ \<tau>) t (w_location w) \<and> w = witness_of names (w_location w) (\<sigma> @ \<tau>))"

lemma real_witness_prefix: "real_witness traces names (\<sigma> @ [s]) w \<Longrightarrow> real_witness traces names \<sigma> w"
  unfolding real_witness_def by (metis append.assoc)

definition safe_from :: "event list list \<Rightarrow> schedule \<Rightarrow> bool" where
  "safe_from traces \<sigma> \<longleftrightarrow> (\<forall>\<tau> t x. valid_schedule traces (\<sigma> @ \<tau>) \<longrightarrow> \<not> lost_update (\<sigma> @ \<tau>) t x)"

lemma safe_fromI:
  assumes "length traces = 2" and "\<And>t x. \<not> lost_update \<sigma> t x" and "\<And>t e. t < 2 \<Longrightarrow> may_step traces \<sigma> t e \<Longrightarrow> safe_from traces (\<sigma> @ [(t, e)])"
  shows "safe_from traces \<sigma>"
  unfolding safe_from_def
proof (intro allI impI)
  fix \<tau> t x
  assume v: "valid_schedule traces (\<sigma> @ \<tau>)"
  show "\<not> lost_update (\<sigma> @ \<tau>) t x"
  proof (cases \<tau>)
    case Nil
    then show ?thesis using assms(2) by simp
  next
    case (Cons s \<tau>')
    then have "valid_schedule traces (\<sigma> @ [(fst s, snd s)])" using v valid_prefix [of traces "\<sigma> @ [s]" \<tau>'] by simp
    then have m: "may_step traces \<sigma> (fst s) (snd s)" by (simp only: valid_snoc_iff)
    then have "fst s < 2" using assms(1) by (simp add: may_step_def)
    then have "safe_from traces (\<sigma> @ [s])" using assms(3) [OF _ m] by simp
    then show ?thesis using v Cons unfolding safe_from_def by (metis append.assoc append_Cons append_Nil)
  qed
qed

lemma dfs_correct:
  "length traces = 2 \<Longrightarrow> valid_schedule traces \<sigma> \<Longrightarrow> tracks st \<sigma> \<Longrightarrow> \<forall>t x. \<not> lost_update \<sigma> t x \<Longrightarrow>
     (case dfs traces names st \<sigma> b of (Some w, b') \<Rightarrow> real_witness traces names \<sigma> w | (None, b') \<Rightarrow> b' \<le> b \<and> (0 < b' \<longrightarrow> safe_from traces \<sigma>))"
  "length traces = 2 \<Longrightarrow> valid_schedule traces \<sigma> \<Longrightarrow> tracks st \<sigma> \<Longrightarrow> \<forall>t x. \<not> lost_update \<sigma> t x \<Longrightarrow> set ts \<subseteq> {0, 1} \<Longrightarrow>
     (case dfs_threads traces names st \<sigma> ts b of (Some w, b') \<Rightarrow> real_witness traces names \<sigma> w
      | (None, b') \<Rightarrow> b' \<le> b \<and> (0 < b' \<longrightarrow> (\<forall>t e. t \<in> set ts \<longrightarrow> may_step traces \<sigma> t e \<longrightarrow> safe_from traces (\<sigma> @ [(t, e)]))))"
proof (induction traces names st \<sigma> b and traces names st \<sigma> ts b rule: dfs_dfs_threads.induct)
  case (1 traces names st \<sigma> b)
  show ?case
  proof (cases "b = 0")
    case False
    then have "dfs traces names st \<sigma> b = dfs_threads traces names st \<sigma> [0, 1] (b - 1)" by (simp add: dfs.simps)
    moreover have "t \<in> set [0, 1]" if "t < 2" for t :: nat using that by auto
    then have "safe_from traces \<sigma>" if "\<forall>t e. t \<in> set [0, 1] \<longrightarrow> may_step traces \<sigma> t e \<longrightarrow> safe_from traces (\<sigma> @ [(t, e)])"
      using safe_fromI [of traces \<sigma>] "1.prems" that by blast
    ultimately show ?thesis using "1.IH" [OF False "1.prems"] by (auto split: prod.splits option.splits)
  qed (simp add: dfs.simps)
next
  case (3 traces names st \<sigma> t ts b)
  have t: "t < 2" using "3.prems"(5) by auto
  show ?case
  proof (cases "\<exists>e. may_step traces \<sigma> t e")
    case False
    then have "dfs_threads traces names st \<sigma> (t # ts) b = dfs_threads traces names st \<sigma> ts b"
      and "next_event traces st t = None \<or> (\<exists>e. next_event traces st t = Some e \<and> lock_blocked t e st)"
      unfolding may_step_search [OF "3.prems"(3,1) t] by (auto simp: dfs_threads.simps split: option.splits)
    then show ?thesis using "3.IH"(1,2) "3.prems" False by (auto split: prod.splits option.splits)
  next
    case True
    then obtain e where m: "may_step traces \<sigma> t e" by blast
    then have e: "next_event traces st t = Some e" "\<not> lock_blocked t e st" using may_step_search [OF "3.prems"(3,1) t] by auto
    have v: "valid_schedule traces (\<sigma> @ [(t, e)])" using "3.prems"(2) m by (simp add: valid_snoc_iff)
    have only: "e' = e" if "may_step traces \<sigma> t e'" for e' using that m by (simp add: may_step_def)
    note L = realises_loss_iff [OF "3.prems"(3) t, of e] and T = tracks_step [OF "3.prems"(3) t, of e]
    show ?thesis
    proof (cases "realises_loss t e st")
      case (Some x)
      then have "real_witness traces names \<sigma> (witness_of names x (\<sigma> @ [(t, e)]))"
        using v L(1) [of x] "3.prems"(4) Some unfolding real_witness_def witness_of_def
        by (intro exI [of _ "[(t, e)]"]) (cases e; auto simp: ends_in_loss_def split: if_splits)
      then show ?thesis using e Some by (simp add: dfs_threads.simps)
    next
      case None
      then have no: "\<forall>u y. \<not> lost_update (\<sigma> @ [(t, e)]) u y" using L(2) "3.prems"(4) by blast
      note IH = "3.IH"(3) [OF e None "3.prems"(1) v T no]
      show ?thesis
      proof (cases "dfs traces names (step_thread t e st) (\<sigma> @ [(t, e)]) b")
        case (Pair r b')
        show ?thesis
        proof (cases r)
          case (Some w)
          then show ?thesis using IH Pair e None real_witness_prefix by (simp add: dfs_threads.simps)
        next
          case r: None
          have ts: "set ts \<subseteq> {0, 1}" using "3.prems"(5) by simp
          have "dfs_threads traces names st \<sigma> (t # ts) b = dfs_threads traces names st \<sigma> ts b'"
            using Pair r e None by (simp add: dfs_threads.simps)
          then show ?thesis
            using "3.IH"(4) [OF e None Pair [symmetric] r "3.prems"(1-4) ts] IH Pair r only
            by (auto split: prod.splits option.splits)
        qed
      qed
    qed
  qed
qed (simp_all add: dfs_threads.simps)

section \<open>The size of the search\<close>

definition search_cost :: "nat \<Rightarrow> nat \<Rightarrow> nat" where
  "search_cost a b = (a + b + 2 choose Suc a) - 1"

lemma search_cost_edge [simp]: "search_cost 0 b = Suc b" "search_cost a 0 = Suc a"
  using binomial_Suc_n [of "Suc a"] by (simp_all add: search_cost_def del: binomial_Suc_Suc)

lemma search_cost_rec:
  "search_cost a b = 1 + (if a = 0 then 0 else search_cost (a - 1) b) + (if b = 0 then 0 else search_cost a (b - 1))"
proof (cases a; cases b)
  fix a' b' assume "a = Suc a'" "b = Suc b'"
  moreover have "1 \<le> (Suc (Suc (Suc (a' + b'))) choose Suc a')" "1 \<le> (Suc (Suc (Suc (a' + b'))) choose Suc (Suc a'))"
    by (simp_all add: Suc_le_eq zero_less_binomial)
  ultimately show ?thesis by (simp add: search_cost_def numeral_2_eq_2)
qed auto

definition left :: "event list list \<Rightarrow> search_state \<Rightarrow> nat \<Rightarrow> nat" where
  "left traces st t = (if t < length traces then length (traces ! t) - ip st t else 0)"

definition branch_cost :: "event list list \<Rightarrow> search_state \<Rightarrow> nat \<Rightarrow> nat" where
  "branch_cost traces st t =
     (if left traces st t = 0 then 0
      else if t = 0 then search_cost (left traces st 0 - 1) (left traces st 1)
      else search_cost (left traces st 0) (left traces st 1 - 1))"

lemma left_step: "next_event traces st t = Some e \<Longrightarrow>
    left traces (step_thread t e st) u = (if u = t then left traces st t - 1 else left traces st u) \<and> 0 < left traces st t"
  by (auto simp: next_event_def left_def step_thread_def split: if_splits)

lemma dfs_cost:
  "dfs traces names st \<sigma> b = (None, b') \<Longrightarrow> b \<le> b' + search_cost (left traces st 0) (left traces st 1)"
  "dfs_threads traces names st \<sigma> ts b = (None, b') \<Longrightarrow> set ts \<subseteq> {0, 1} \<Longrightarrow> b \<le> b' + sum_list (map (branch_cost traces st) ts)"
proof (induction traces names st \<sigma> b and traces names st \<sigma> ts b arbitrary: b' and b' rule: dfs_dfs_threads.induct)
  case (1 traces names st \<sigma> b)
  show ?case
  proof (cases "b = 0")
    case False
    then have "b - 1 \<le> b' + (branch_cost traces st 0 + branch_cost traces st 1)"
      using "1.IH" [of b'] "1.prems" by (simp add: dfs.simps)
    then show ?thesis
      using search_cost_rec [of "left traces st 0" "left traces st 1"] False by (simp add: branch_cost_def split: if_splits)
  qed simp
next
  case (3 traces names st \<sigma> t ts b)
  have ts: "set ts \<subseteq> {0, 1}" and t: "t = 0 \<or> t = 1" using "3.prems"(2) by auto
  show ?case
  proof (cases "next_event traces st t")
    case None
    then show ?thesis using "3.IH"(1) [OF None _ ts] "3.prems"(1) by (simp add: dfs_threads.simps)
  next
    case (Some e)
    show ?thesis
    proof (cases "lock_blocked t e st")
      case True
      then show ?thesis using "3.IH"(2) [OF Some True _ ts] "3.prems"(1) Some by (simp add: dfs_threads.simps)
    next
      case False
      have n: "realises_loss t e st = None" using "3.prems"(1) Some False by (cases "realises_loss t e st") (simp_all add: dfs_threads.simps)
      obtain r c where d: "dfs traces names (step_thread t e st) (\<sigma> @ [(t, e)]) b = (r, c)" by fastforce
      have r: "r = None" and rest: "dfs_threads traces names st \<sigma> ts c = (None, b')"
        using "3.prems"(1) Some False n d by (cases r; simp add: dfs_threads.simps)+
      have "b \<le> c + search_cost (left traces (step_thread t e st) 0) (left traces (step_thread t e st) 1)"
        using "3.IH"(3) [OF Some False n] d r by simp
      also have "search_cost (left traces (step_thread t e st) 0) (left traces (step_thread t e st) 1) = branch_cost traces st t"
        using left_step [OF Some] t by (auto simp: branch_cost_def)
      finally show ?thesis using "3.IH"(4) [OF Some False n d [symmetric] r rest ts] by simp
    qed
  qed
qed (simp add: dfs_threads.simps)

section \<open>Witnesses and completeness\<close>

text \<open>
  Property C29. The lost-update search of two threads is exact whenever its budget covers the number of prefixes of interleavings,
  the binomial bound: it then returns a witness exactly when some schedule that respects program order and lock exclusion has a
  lost update, and a witness is always such a schedule, printed with the thread names.
\<close>

theorem atomicity_violation_exact:
  assumes "(length (t_events a) + length (t_events b) + 2 choose Suc (length (t_events a)))
     \<le> search_budget [length (t_events a), length (t_events b)]"
  shows "case atomicity_violation a b of
      Some w \<Rightarrow> \<exists>\<sigma> t. valid_schedule [t_events a, t_events b] \<sigma> \<and> lost_update \<sigma> t (w_location w) \<and>
        w_schedule w = map (\<lambda>(t, e). ([t_name a, t_name b] ! t, e)) \<sigma>
    | None \<Rightarrow> \<nexists>\<sigma> t x. valid_schedule [t_events a, t_events b] \<sigma> \<and> lost_update \<sigma> t x"
proof -
  let ?tr = "[t_events a, t_events b]" and ?b = "search_budget [length (t_events a), length (t_events b)]"
  obtain r b' where d: "dfs ?tr [t_name a, t_name b] search_start [] ?b = (r, b')" by fastforce
  have "\<forall>t x. \<not> lost_update [] t x" by (simp add: lost_update_def)
  note C = dfs_correct(1) [OF _ valid_Nil tracks_start this, where traces = ?tr and names = "[t_name a, t_name b]" and b = ?b, unfolded d]
  have v: "atomicity_violation a b = r" using d by (simp add: atomicity_violation_def)
  show ?thesis
  proof (cases r)
    case (Some w)
    then obtain \<sigma> t where *: "valid_schedule ?tr \<sigma>" "lost_update \<sigma> t (w_location w)" "w = witness_of [t_name a, t_name b] (w_location w) \<sigma>"
      using C by (auto simp: real_witness_def ends_in_loss_def)
    have "w_schedule w = map (\<lambda>(t, e). ([t_name a, t_name b] ! t, e)) \<sigma>"
      using arg_cong [OF *(3), of w_schedule] by (simp add: witness_of_def)
    then show ?thesis using * v Some by auto
  next
    case None
    have l: "left ?tr search_start 0 = length (t_events a)" "left ?tr search_start 1 = length (t_events b)" by (simp_all add: left_def search_start_def)
    have "1 \<le> (length (t_events a) + length (t_events b) + 2 choose Suc (length (t_events a)))" by (simp add: Suc_le_eq zero_less_binomial)
    then have "0 < b'" using dfs_cost(1) [of ?tr "[t_name a, t_name b]" search_start "[]" ?b b'] d None assms l by (simp add: search_cost_def)
    then show ?thesis using C v None by (auto simp: safe_from_def)
  qed
qed


text \<open>The example of the module documentation: every access is locked, but the update is split over two critical sections.\<close>

definition split_update :: "thread" where
  "split_update = \<lparr>t_name = ''A'', t_events = [Acquire ''L'', Read ''x'', Release ''L'', Acquire ''L'', Rmw ''x'', Release ''L'']\<rparr>"

definition locked_write :: "thread" where
  "locked_write = \<lparr>t_name = ''B'', t_events = [Acquire ''L'', Write ''x'', Release ''L'']\<rparr>"

lemma split_update_lost:
  "\<exists>\<sigma>. valid_schedule [t_events split_update, t_events locked_write] \<sigma> \<and> lost_update \<sigma> 0 ''x''"
proof -
  let ?\<sigma> = "[(0, Acquire ''L''), (0, Read ''x''), (0, Release ''L''), (1, Acquire ''L''), (1, Write ''x''), (1, Release ''L''), (0, Acquire ''L''), (0, Rmw ''x'')]"
  have "runs_from [t_events split_update, t_events locked_write] [] ?\<sigma>"
    by (simp add: split_update_def locked_write_def may_step_def proj_def locks_of_def less_Suc_eq numeral_2_eq_2)
  moreover have "lost_update ?\<sigma> 0 ''x''"
    unfolding lost_update_def
    by (intro exI [of _ 1] exI [of _ 4] exI [of _ 7]) (auto simp: reads_at_def writes_at_def less_Suc_eq numeral_eq_Suc nth_Cons')
  ultimately show ?thesis using runs_from_valid [OF _ valid_Nil] by fastforce
qed

theorem atomicity_violation_exact_witness:
  "atomicity_violation split_update locked_write \<noteq> None"
proof -
  have "(11 choose 7) = (330::nat)" by (simp add: numeral_eq_Suc)
  then have "(length (t_events split_update) + length (t_events locked_write) + 2 choose Suc (length (t_events split_update)))
     \<le> search_budget [length (t_events split_update), length (t_events locked_write)]"
    by (simp add: split_update_def locked_write_def search_budget_eq SEARCH_CEILING_def)
  from atomicity_violation_exact [OF this] split_update_lost show ?thesis
    by (cases "atomicity_violation split_update locked_write") auto
qed

section \<open>The whole program\<close>

lemma atomicity_violation_sound:
  assumes "atomicity_violation a b = Some w"
  shows "real_witness [t_events a, t_events b] [t_name a, t_name b] [] w"
proof -
  have "\<forall>t x. \<not> lost_update [] t x" by (simp add: lost_update_def)
  then show ?thesis
    using dfs_correct(1) [OF _ valid_Nil tracks_start, where traces = "[t_events a, t_events b]" and names = "[t_name a, t_name b]"
        and b = "search_budget [length (t_events a), length (t_events b)]"] assms
    by (auto simp: atomicity_violation_def split: prod.splits option.splits)
qed

text \<open>The pairs the program search looks at, and what it has collected.\<close>

definition candidate_pair :: "thread list \<Rightarrow> thread \<Rightarrow> thread \<Rightarrow> bool" where
  "candidate_pair threads a b \<longleftrightarrow>
     (\<exists>i j. i < length threads \<and> j < length threads \<and> i \<noteq> j \<and> a = threads ! i \<and> b = threads ! j \<and> shares_write a b) \<or>
     (a \<in> set threads \<and> b = second_instance a \<and> written a \<noteq> {} \<and> t_name a \<in> spawned_names threads)"

definition collected :: "(thread \<Rightarrow> thread \<Rightarrow> bool) \<Rightarrow> atomicity_acc \<Rightarrow> bool" where
  "collected P acc \<longleftrightarrow> distinct (map w_location (fst acc)) \<and> snd acc = set (map w_location (fst acc)) \<and>
     (\<forall>w\<in>set (fst acc). \<exists>a b. P a b \<and> atomicity_violation a b = Some w)"

lemma record_collected:
  "collected P acc \<Longrightarrow> P a b \<Longrightarrow> collected P (record_witness (atomicity_violation a b) acc)"
  "snd acc \<subseteq> snd (record_witness v acc)"
  "atomicity_violation a b = Some w \<Longrightarrow> w_location w \<in> snd (record_witness (atomicity_violation a b) acc)"
  by (cases "(v, acc)" rule: record_witness.cases; cases "(atomicity_violation a b, acc)" rule: record_witness.cases;
      auto simp: collected_def)+

lemma shares_write_sym: "shares_write a b \<longleftrightarrow> shares_write b a"
  by (auto simp: shares_write_def)

lemma check_pair_collected:
  assumes "collected (candidate_pair threads) acc" and "i < length threads" "j < length threads" "i \<noteq> j"
  shows "collected (candidate_pair threads) (check_pair threads i j acc)"
proof (cases "shares_write (threads ! i) (threads ! j)")
  case True
  then have "candidate_pair threads (threads ! i) (threads ! j)" "candidate_pair threads (threads ! j) (threads ! i)"
    using assms(2-4) shares_write_sym unfolding candidate_pair_def by blast+
  then show ?thesis using True assms(1) by (simp add: check_pair_def record_collected(1))
qed (use assms in \<open>simp add: check_pair_def\<close>)

lemma check_thread_collected:
  assumes "collected (candidate_pair threads) acc" and "i < length threads"
  shows "collected (candidate_pair threads) (check_thread threads i acc)"
proof -
  have pairs: "collected (candidate_pair threads) (fold (check_pair threads i) [Suc i..<length threads] acc)"
    if "collected (candidate_pair threads) acc" for acc
    by (rule fold_invariant [where Q = "\<lambda>j. i < j \<and> j < length threads"]) (use that assms(2) check_pair_collected in auto)
  have self: "candidate_pair threads (threads ! i) (second_instance (threads ! i))"
    if "written (threads ! i) \<noteq> {}" "t_name (threads ! i) \<in> spawned_names threads"
    using that assms(2) by (auto simp: candidate_pair_def)
  then show ?thesis using assms(1) by (auto simp: check_thread_def Let_def intro!: pairs record_collected(1))
qed


section \<open>The budget of the search\<close>

text \<open>
  The search keeps no set of visited states, so its cost is the binomial number of schedule prefixes, not the product the budget is
  derived from. Without locks the cost is reached exactly.
\<close>

definition lock_free :: "event list list \<Rightarrow> bool" where
  "lock_free traces \<longleftrightarrow> (\<forall>es\<in>set traces. \<forall>l. Acquire l \<notin> set es)"

lemma lock_free_blocked: "lock_free traces \<Longrightarrow> next_event traces st t = Some e \<Longrightarrow> \<not> lock_blocked t e st"
  by (cases e) (auto simp: lock_free_def next_event_def split: if_splits dest!: nth_mem)

lemma branch_cost_none: "length traces = 2 \<Longrightarrow> t = 0 \<or> t = 1 \<Longrightarrow> next_event traces st t = None \<Longrightarrow> branch_cost traces st t = 0"
  by (auto simp: branch_cost_def left_def next_event_def split: if_splits)

lemma dfs_spends:
  "lock_free traces \<Longrightarrow> length traces = 2 \<Longrightarrow> dfs traces names st \<sigma> b = (None, b') \<Longrightarrow>
     b' = b - search_cost (left traces st 0) (left traces st 1)"
  "lock_free traces \<Longrightarrow> length traces = 2 \<Longrightarrow> dfs_threads traces names st \<sigma> ts b = (None, b') \<Longrightarrow> set ts \<subseteq> {0, 1} \<Longrightarrow>
     b' = b - sum_list (map (branch_cost traces st) ts)"
proof (induction traces names st \<sigma> b and traces names st \<sigma> ts b arbitrary: b' and b' rule: dfs_dfs_threads.induct)
  case (1 traces names st \<sigma> b)
  show ?case
  proof (cases "b = 0")
    case False
    then have "b' = b - 1 - (branch_cost traces st 0 + branch_cost traces st 1)"
      using "1.IH" [of b'] "1.prems" by (simp add: dfs.simps)
    then show ?thesis
      using search_cost_rec [of "left traces st 0" "left traces st 1"] False by (simp add: branch_cost_def split: if_splits)
  qed (use 1 in \<open>simp add: dfs.simps\<close>)
next
  case (3 traces names st \<sigma> t ts b)
  have ts: "set ts \<subseteq> {0, 1}" and t: "t = 0 \<or> t = 1" using "3.prems"(4) by auto
  show ?case
  proof (cases "next_event traces st t")
    case None
    then show ?thesis
      using "3.IH"(1) [OF None "3.prems"(1,2) _ ts] "3.prems"(3) branch_cost_none [OF "3.prems"(2) t None] by (simp add: dfs_threads.simps)
  next
    case (Some e)
    note nb = lock_free_blocked [OF "3.prems"(1) Some]
    have n: "realises_loss t e st = None" using "3.prems"(3) Some nb by (cases "realises_loss t e st") (simp_all add: dfs_threads.simps)
    obtain r c where d: "dfs traces names (step_thread t e st) (\<sigma> @ [(t, e)]) b = (r, c)" by fastforce
    have r: "r = None" and rest: "dfs_threads traces names st \<sigma> ts c = (None, b')"
      using "3.prems"(3) Some nb n d by (cases r; simp add: dfs_threads.simps)+
    have "c = b - search_cost (left traces (step_thread t e st) 0) (left traces (step_thread t e st) 1)"
      using "3.IH"(3) [OF Some nb n "3.prems"(1,2)] d r by simp
    also have "search_cost (left traces (step_thread t e st) 0) (left traces (step_thread t e st) 1) = branch_cost traces st t"
      using left_step [OF Some] t by (auto simp: branch_cost_def)
    finally show ?thesis using "3.IH"(4) [OF Some nb n d [symmetric] r "3.prems"(1,2) rest ts] by simp
  qed
qed (simp add: dfs_threads.simps)

definition early_writer :: thread where
  "early_writer = \<lparr>t_name = ''A'', t_events = Write ''x'' # replicate 5 Fence\<rparr>"

definition slow_updater :: thread where
  "slow_updater = \<lparr>t_name = ''B'', t_events = [Read ''x'', Fence, Fence, Fence, Fence, Rmw ''x'']\<rparr>"

lemma early_write_safe:
  assumes "valid_schedule [t_events early_writer, t_events slow_updater] ((0, Write ''x'') # \<tau>)"
  shows "\<not> lost_update ((0, Write ''x'') # \<tau>) t x"
proof
  let ?tr = "[t_events early_writer, t_events slow_updater]" and ?\<sigma> = "(0, Write ''x'') # \<tau>"
  assume "lost_update ?\<sigma> t x"
  then obtain i j where ij: "i < j" "reads_at ?\<sigma> i t x" "writes_at ?\<sigma> j (1 - t) x" by (auto simp: lost_update_def)
  have len: "i < length ?\<sigma>" "j < length ?\<sigma>" using at_less ij by blast+
  have m: "may_step ?tr (take k ?\<sigma>) (fst (?\<sigma> ! k)) (snd (?\<sigma> ! k))" if "k < length ?\<sigma>" for k using valid_nth [OF assms that] .
  have fences: "\<not> (n < 6 \<and> 0 < n \<and> (writes_to ((Write ''x'' # replicate 5 Fence) ! n) = Some y \<or> reads_from ((Write ''x'' # replicate 5 Fence) ! n) = Some y))" for n y
    by (cases n) auto
  have pos: "0 < length (proj 0 (take k ?\<sigma>))" if "0 < k" for k using that by (cases k) (auto simp: proj_def)
  have "t \<noteq> 0"
  proof
    assume t: "t = 0"
    have n: "length (proj 0 (take i ?\<sigma>)) < 6" "snd (?\<sigma> ! i) = (Write ''x'' # replicate 5 Fence) ! length (proj 0 (take i ?\<sigma>))"
      using m [OF len(1)] ij(2) t by (auto simp: may_step_def reads_at_def early_writer_def)
    then show False
      using ij(2) fences [of "length (proj 0 (take i ?\<sigma>))" x] pos [of i] by (cases "i = 0") (auto simp: reads_at_def)
  qed
  moreover have "fst (?\<sigma> ! i) < 2" using m [OF len(1)] by (simp add: may_step_def)
  ultimately have t: "1 - t = 0" using ij(2) by (auto simp: reads_at_def)
  have "length (proj 0 (take j ?\<sigma>)) < 6" "snd (?\<sigma> ! j) = (Write ''x'' # replicate 5 Fence) ! length (proj 0 (take j ?\<sigma>))"
    using m [OF len(2)] ij(3) t by (auto simp: may_step_def writes_at_def early_writer_def)
  then show False using ij(1,3) fences [of "length (proj 0 (take j ?\<sigma>))" x] pos [of j] by (auto simp: writes_at_def)
qed

lemma budget_gives_up:
  "atomicity_violation early_writer slow_updater = None"
  "\<exists>\<sigma>. valid_schedule [t_events early_writer, t_events slow_updater] \<sigma> \<and> lost_update \<sigma> 1 ''x''"
proof -
  let ?tr = "[t_events early_writer, t_events slow_updater]" and ?n = "[t_name early_writer, t_name slow_updater]"
  let ?st = "step_thread 0 (Write ''x'') search_start"
  have free: "lock_free ?tr" "length ?tr = 2" by (auto simp: lock_free_def early_writer_def slow_updater_def)
  have e: "next_event ?tr search_start 0 = Some (Write ''x'')" by (simp add: next_event_def search_start_def early_writer_def)
  have v: "valid_schedule ?tr [(0, Write ''x'')]"
    using may_step_search [OF tracks_start free(2), of 0 "Write ''x''"] e valid_snoc [OF valid_Nil] by fastforce
  have no: "\<forall>t x. \<not> lost_update [(0, Write ''x'')] t x" using early_write_safe [of "[]"] v by simp
  have T: "tracks ?st [(0, Write ''x'')]" using tracks_step [OF tracks_start, of 0] by simp
  have bud: "search_budget [length (t_events early_writer), length (t_events slow_updater)] = 784"
    by (simp add: search_budget_eq SEARCH_CEILING_def early_writer_def slow_updater_def)
  obtain r b' where d: "dfs ?tr ?n ?st [(0, Write ''x'')] 783 = (r, b')" by fastforce
  have r: "r = None"
  proof (rule ccontr)
    assume "r \<noteq> None"
    then obtain w where "r = Some w" by blast
    then have "real_witness ?tr ?n [(0, Write ''x'')] w" using dfs_correct(1) [OF free(2) v T no, where names = ?n and b = 783] d by simp
    then show False using early_write_safe unfolding real_witness_def ends_in_loss_def by auto
  qed
  have c: "left ?tr ?st 0 = 5" "left ?tr ?st 1 = 6" by (simp_all add: left_def step_thread_def write_window_def Let_def search_start_def early_writer_def slow_updater_def)
  have "search_cost 5 6 = 1715" by (simp add: search_cost_def numeral_eq_Suc)
  then have b': "b' = 0" using dfs_spends(1) [OF free d [unfolded r]] c by simp
  have zero: "dfs_threads ?tr ?n search_start [] [1] 0 = (None, 0)"
    by (simp add: dfs_threads.simps dfs.simps next_event_def search_start_def slow_updater_def)
  have "dfs_threads ?tr ?n search_start [] [0, 1] 783 = (None, 0)"
    using e d r b' zero by (simp add: dfs_threads.simps(2) [of _ _ _ _ 0])
  then show "atomicity_violation early_writer slow_updater = None"
    unfolding atomicity_violation_def bud by (simp add: dfs.simps)
  let ?\<sigma> = "[(1, Read ''x''), (0, Write ''x''), (1, Fence), (1, Fence), (1, Fence), (1, Fence), (1, Rmw ''x'')]"
  have "runs_from ?tr [] ?\<sigma>"
    by (simp add: early_writer_def slow_updater_def may_step_def proj_def locks_of_def less_Suc_eq numeral_2_eq_2)
  moreover have "lost_update ?\<sigma> 1 ''x''"
    unfolding lost_update_def
    by (intro exI [of _ 0] exI [of _ 1] exI [of _ 6]) (auto simp: reads_at_def writes_at_def less_Suc_eq numeral_eq_Suc nth_Cons')
  ultimately show "\<exists>\<sigma>. valid_schedule ?tr \<sigma> \<and> lost_update \<sigma> 1 ''x''" using runs_from_valid [OF _ valid_Nil] by fastforce
qed

end
