(* ===== verification/Conc_Litmus.thy ===== *)
theory Conc_Litmus
  imports Conc_Events "HOL-Library.Product_Lexorder"
begin

text \<open>
  The syntactic store-buffer litmus of \<open>crates/verifier/src/interleave/atomicity.rs\<close>: two threads that each write one location and
  then read the other's with no barrier in between.
\<close>

record store_buffer_witness =
  sb_threads :: "string \<times> string"
  sb_locations :: "string \<times> string"

fun full_barrier :: "event \<Rightarrow> bool" where
  "full_barrier Fence \<longleftrightarrow> True"
| "full_barrier (Acquire _) \<longleftrightarrow> True"
| "full_barrier (Release _) \<longleftrightarrow> True"
| "full_barrier (Spawn _) \<longleftrightarrow> True"
| "full_barrier Join \<longleftrightarrow> True"
| "full_barrier _ \<longleftrightarrow> False"

primrec window_reads :: "string \<Rightarrow> event list \<Rightarrow> (string \<times> string) list" where
  "window_reads x [] = []"
| "window_reads x (e # es) =
     (if full_barrier e then []
      else (case reads_from e of Some y \<Rightarrow> if y \<noteq> x then [(x, y)] else [] | None \<Rightarrow> []) @ window_reads x es)"

primrec write_read_pairs :: "event list \<Rightarrow> (string \<times> string) list" where
  "write_read_pairs [] = []"
| "write_read_pairs (e # es) = (case writes_to e of Some x \<Rightarrow> window_reads x es | None \<Rightarrow> []) @ write_read_pairs es"

text \<open>The \<open>BTreeSet\<close> of pairs as a sorted list.\<close>

definition buffered_write_read_pairs :: "thread \<Rightarrow> (string \<times> string) list" where
  "buffered_write_read_pairs t = sort (remdups (write_read_pairs (t_events t)))"

definition sb_key :: "string \<times> string \<Rightarrow> string \<times> string" where
  "sb_key ab = (if fst ab \<le> snd ab then ab else (snd ab, fst ab))"

definition store_buffer_violations :: "thread list \<Rightarrow> store_buffer_witness list" where
  "store_buffer_violations threads =
     sort_key sb_locations (fst
       (fold (report_new (\<lambda>(i, j, ab). (snd ab, fst ab) \<in> set (buffered_write_read_pairs (threads ! j)))
               (\<lambda>(i, j, ab). sb_key ab)
               (\<lambda>(i, j, ab). \<lparr>sb_threads = (t_name (threads ! i), t_name (threads ! j)), sb_locations = ab\<rparr>))
          [(i, j, ab). i \<leftarrow> [0..<length threads], j \<leftarrow> [Suc i..<length threads], ab \<leftarrow> buffered_write_read_pairs (threads ! i)]
          ([], {})))"

section \<open>Exactness\<close>

text \<open>A write and a later read of another location with no barrier between them.\<close>

definition unfenced_pair :: "event list \<Rightarrow> string \<Rightarrow> string \<Rightarrow> bool" where
  "unfenced_pair es x y \<longleftrightarrow> x \<noteq> y \<and>
     (\<exists>i j. i < j \<and> j < length es \<and> writes_to (es ! i) = Some x \<and> reads_from (es ! j) = Some y \<and>
        (\<forall>k. i < k \<longrightarrow> k < j \<longrightarrow> \<not> full_barrier (es ! k)))"

lemma reads_no_barrier: "reads_from e = Some y \<Longrightarrow> \<not> full_barrier e"
  by (cases e) auto

lemma window_reads_iff:
  "(a, y) \<in> set (window_reads x es) \<longleftrightarrow>
     a = x \<and> y \<noteq> x \<and> (\<exists>j<length es. reads_from (es ! j) = Some y \<and> (\<forall>k<j. \<not> full_barrier (es ! k)))"
proof (induction es)
  case (Cons e es)
  have split: "(\<exists>j<length (e # es). reads_from ((e # es) ! j) = Some y \<and> (\<forall>k<j. \<not> full_barrier ((e # es) ! k))) \<longleftrightarrow>
      reads_from e = Some y \<or> \<not> full_barrier e \<and> (\<exists>j<length es. reads_from (es ! j) = Some y \<and> (\<forall>k<j. \<not> full_barrier (es ! k)))"
    by (simp add: Ex_less_Suc2 All_less_Suc2 del: ex_simps) auto
  show ?case using Cons.IH reads_no_barrier [of e y] unfolding split by (auto split: option.splits)
qed simp

lemma unfenced_pair_Cons:
  "unfenced_pair (e # es) x y \<longleftrightarrow> unfenced_pair es x y \<or>
     x \<noteq> y \<and> writes_to e = Some x \<and> (\<exists>j<length es. reads_from (es ! j) = Some y \<and> (\<forall>k<j. \<not> full_barrier (es ! k)))"
    (is "?L \<longleftrightarrow> ?R")
proof
  assume ?L
  then obtain i j where *: "x \<noteq> y" "i < j" "j < Suc (length es)" "writes_to ((e # es) ! i) = Some x" "reads_from ((e # es) ! j) = Some y"
    "\<And>k. i < k \<Longrightarrow> k < j \<Longrightarrow> \<not> full_barrier ((e # es) ! k)" by (auto simp: unfenced_pair_def)
  obtain j' where j: "j = Suc j'" using *(2) by (cases j) auto
  show ?R
  proof (cases i)
    case 0
    then show ?thesis using * j *(6) [of "Suc _"] by auto
  next
    case (Suc i')
    then show ?thesis using * j *(6) [of "Suc _"] unfolding unfenced_pair_def by auto
  qed
next
  assume ?R
  then show ?L
  proof
    assume "unfenced_pair es x y"
    then obtain i j where *: "x \<noteq> y" "i < j" "j < length es" "writes_to (es ! i) = Some x" "reads_from (es ! j) = Some y"
      "\<And>k. i < k \<Longrightarrow> k < j \<Longrightarrow> \<not> full_barrier (es ! k)" by (auto simp: unfenced_pair_def)
    have "\<not> full_barrier ((e # es) ! k)" if "Suc i < k" "k < Suc j" for k using that *(6) [of "k - 1"] by (cases k) auto
    then show ?thesis unfolding unfenced_pair_def using * by (intro conjI exI [of _ "Suc i"] exI [of _ "Suc j"]) auto
  next
    assume R: "x \<noteq> y \<and> writes_to e = Some x \<and> (\<exists>j<length es. reads_from (es ! j) = Some y \<and> (\<forall>k<j. \<not> full_barrier (es ! k)))"
    then obtain j where *: "j < length es" "reads_from (es ! j) = Some y" "\<forall>k<j. \<not> full_barrier (es ! k)" by blast
    have "\<not> full_barrier ((e # es) ! k)" if "0 < k" "k < Suc j" for k using that *(3) by (cases k) auto
    then show ?thesis unfolding unfenced_pair_def using R * by (intro conjI exI [of _ 0] exI [of _ "Suc j"]) auto
  qed
qed

lemma write_read_pairs_iff: "(x, y) \<in> set (write_read_pairs es) \<longleftrightarrow> unfenced_pair es x y"
proof (induction es)
  case (Cons e es)
  then show ?case unfolding unfenced_pair_Cons by (auto simp: window_reads_iff split: option.splits)
qed (simp add: unfenced_pair_def)

definition litmus :: "thread list \<Rightarrow> nat \<Rightarrow> nat \<Rightarrow> string \<Rightarrow> string \<Rightarrow> bool" where
  "litmus threads i j a b \<longleftrightarrow> i < j \<and> j < length threads \<and>
     unfenced_pair (t_events (threads ! i)) a b \<and> unfenced_pair (t_events (threads ! j)) b a"

text \<open>
  The store-buffer report is exact: up to the order of the two locations, a pair is reported, once, exactly when two threads form the
  litmus on it.
\<close>

lemma store_buffer_exact:
  "distinct (map (sb_key \<circ> sb_locations) (store_buffer_violations threads)) \<and>
   (sb_key \<circ> sb_locations) ` set (store_buffer_violations threads) = {sb_key (a, b) | i j a b. litmus threads i j a b}"
proof -
  let ?test = "\<lambda>(i, j, ab). (snd ab, fst ab) \<in> set (buffered_write_read_pairs (threads ! j))"
  let ?cs = "[(i, j, ab). i \<leftarrow> [0..<length threads], j \<leftarrow> [Suc i..<length threads], ab \<leftarrow> buffered_write_read_pairs (threads ! i)]"
  have "(i, j, ab) \<in> set ?cs \<longleftrightarrow> i < j \<and> j < length threads \<and> ab \<in> set (buffered_write_read_pairs (threads ! i))" for i j ab
    by force
  then have S: "{c \<in> set ?cs. ?test c} = {(i, j, a, b). litmus threads i j a b}"
    by (auto simp: litmus_def buffered_write_read_pairs_def write_read_pairs_iff simp del: set_concat set_map)
  have K: "(\<lambda>(i, j, ab). sb_key ab) ` {(i, j, a, b). litmus threads i j a b} = {sb_key (a, b) | i j a b. litmus threads i j a b}"
    by (auto simp: image_iff) blast
  have "sb_key (sb_locations ((\<lambda>(i, j, ab). \<lparr>sb_threads = (t_name (threads ! i), t_name (threads ! j)), sb_locations = ab\<rparr>) c)) = (\<lambda>(i, j, ab). sb_key ab) c" for c
    by (simp add: split_beta)
  from report_new_exact [where wkey = "\<lambda>w. sb_key (sb_locations w)" and test = ?test and cs = ?cs and key = "\<lambda>(i, j, ab). sb_key ab"
      and mk = "\<lambda>(i, j, ab). \<lparr>sb_threads = (t_name (threads ! i), t_name (threads ! j)), sb_locations = ab\<rparr>", OF this, unfolded S K Let_def]
  show ?thesis unfolding store_buffer_violations_def by (simp add: distinct_map comp_def)
qed

end
