(* ===== verification/Conc_Lockset.thy ===== *)
theory Conc_Lockset
  imports Conc_Events
begin

text \<open>
  The lockset checks of \<open>crates/verifier/src/interleave/uaf.rs\<close> and \<open>aba.rs\<close>: use-after-free and double-free across threads, the ABA
  problem and reference-count races. Each collects the events of interest with the locks held and the threads joined so far, and
  reports pairs from two threads with disjoint locksets that no join orders.
\<close>

section \<open>Collecting events\<close>

type_synonym class_lockset = "string \<times> string set \<times> string set"
type_synonym class_locksets = "class_lockset list"

record lifetime_tracker =
  lt_held :: "string set"
  lt_spawned :: "string set"
  lt_joined :: "string set"

definition tracker_new :: lifetime_tracker where
  "tracker_new = \<lparr>lt_held = {}, lt_spawned = {}, lt_joined = {}\<rparr>"

fun tracker_step :: "event \<Rightarrow> lifetime_tracker \<Rightarrow> bool \<times> lifetime_tracker" where
  "tracker_step (Acquire l) lt = (True, lt\<lparr>lt_held := insert l (lt_held lt)\<rparr>)"
| "tracker_step (Release l) lt = (True, lt\<lparr>lt_held := lt_held lt - {l}\<rparr>)"
| "tracker_step (Spawn n) lt = (True, lt\<lparr>lt_spawned := insert n (lt_spawned lt)\<rparr>)"
| "tracker_step Join lt = (True, lt\<lparr>lt_joined := lt_joined lt \<union> lt_spawned lt, lt_spawned := {}\<rparr>)"
| "tracker_step _ lt = (False, lt)"

definition snap :: "lifetime_tracker \<Rightarrow> string \<Rightarrow> class_lockset" where
  "snap lt class = (class, lt_held lt, lt_joined lt)"

definition lifetime_ordered :: "class_lockset \<Rightarrow> string \<Rightarrow> class_lockset \<Rightarrow> string \<Rightarrow> bool" where
  "lifetime_ordered a an b bn \<longleftrightarrow> bn \<in> snd (snd a) \<or> an \<in> snd (snd b)"

text \<open>The loop over a trace with its two kinds of events of interest.\<close>

type_synonym collect_state = "lifetime_tracker \<times> class_locksets \<times> class_locksets"

definition collect_event :: "(event \<Rightarrow> string option) \<Rightarrow> (event \<Rightarrow> string option) \<Rightarrow> event \<Rightarrow> collect_state \<Rightarrow> collect_state" where
  "collect_event first second e s =
     (case s of (lt, as, bs) \<Rightarrow>
        let (consumed, lt) = tracker_step e lt in
        if consumed then (lt, as, bs)
        else case first e of
          Some x \<Rightarrow> (lt, as @ [snap lt x], bs)
        | None \<Rightarrow> (case second e of Some x \<Rightarrow> (lt, as, bs @ [snap lt x]) | None \<Rightarrow> (lt, as, bs)))"

definition collect_locksets :: "(event \<Rightarrow> string option) \<Rightarrow> (event \<Rightarrow> string option) \<Rightarrow> thread \<Rightarrow> class_locksets \<times> class_locksets" where
  "collect_locksets first second t = snd (fold (collect_event first second) (t_events t) (tracker_new, [], []))"

fun freed :: "event \<Rightarrow> string option" where
  "freed (Free x) = Some x"
| "freed _ = None"

definition accessed :: "event \<Rightarrow> string option" where
  "accessed e = (case reads_from e of Some x \<Rightarrow> Some x | None \<Rightarrow> writes_to e)"

fun swapped :: "event \<Rightarrow> string option" where
  "swapped (Cas x) = Some x"
| "swapped _ = None"

definition modified :: "event \<Rightarrow> string option" where
  "modified e = (case writes_to e of Some x \<Rightarrow> Some x | None \<Rightarrow> freed e)"

fun ref_got :: "event \<Rightarrow> string option" where
  "ref_got (RefGet x) = Some x"
| "ref_got _ = None"

fun ref_put :: "event \<Rightarrow> string option" where
  "ref_put (RefPut x) = Some x"
| "ref_put _ = None"

definition free_and_access_locksets :: "thread \<Rightarrow> class_locksets \<times> class_locksets" where
  "free_and_access_locksets = collect_locksets freed accessed"

definition cas_and_mod_locksets :: "thread \<Rightarrow> class_locksets \<times> class_locksets" where
  "cas_and_mod_locksets = collect_locksets swapped modified"

definition get_and_put_locksets :: "thread \<Rightarrow> class_locksets \<times> class_locksets" where
  "get_and_put_locksets = collect_locksets ref_got ref_put"

section \<open>Pairing\<close>

text \<open>The test of the three \<open>check\<close> closures.\<close>

definition concurrent_pair :: "class_lockset \<Rightarrow> string \<Rightarrow> class_lockset \<Rightarrow> string \<Rightarrow> bool" where
  "concurrent_pair f na a nb \<longleftrightarrow> fst f = fst a \<and> fst (snd f) \<inter> fst (snd a) = {} \<and> \<not> lifetime_ordered f na a nb"

definition self2 :: "string \<Rightarrow> string" where
  "self2 name = name @ ''#2''"

record free_use_witness =
  fu_location :: string
  fu_threads :: "string \<times> string"
  fu_double_free :: bool

type_synonym uaf_candidate = "string \<times> string \<times> class_lockset \<times> class_lockset \<times> bool"

definition uaf_check :: "class_locksets \<times> class_locksets \<Rightarrow> string \<Rightarrow> class_locksets \<times> class_locksets \<Rightarrow> string \<Rightarrow> bool \<Rightarrow> uaf_candidate list" where
  "uaf_check pa na pb nb do_double_free =
     concat (map (\<lambda>f. map (\<lambda>a. (na, nb, f, a, False)) (snd pb) @
                       (if do_double_free then map (\<lambda>g. (na, nb, f, g, True)) (fst pb) else [])) (fst pa))"

definition uaf_candidates :: "thread list \<Rightarrow> uaf_candidate list" where
  "uaf_candidates threads =
     (let per = map free_and_access_locksets threads; names = map t_name threads; n = length threads in
      concat [if i = j then [] else uaf_check (per ! i) (names ! i) (per ! j) (names ! j) (i < j). i \<leftarrow> [0..<n], j \<leftarrow> [0..<n]] @
      concat [if fst (per ! i) \<noteq> [] \<and> names ! i \<in> spawned_names threads
              then uaf_check (per ! i) (names ! i) (per ! i) (self2 (names ! i)) True else []. i \<leftarrow> [0..<n]])"

definition find_cross_thread_uaf :: "thread list \<Rightarrow> free_use_witness list" where
  "find_cross_thread_uaf threads =
     sort_key fu_location (fst (fold
       (report_new (\<lambda>(na, nb, f, a, d). concurrent_pair f na a nb) (\<lambda>(na, nb, f, a, d). (fst f, d))
          (\<lambda>(na, nb, f, a, d). \<lparr>fu_location = fst f, fu_threads = (na, nb), fu_double_free = d\<rparr>))
       (uaf_candidates threads) ([], {})))"

text \<open>The ABA and reference-count searches pair the first kind of one thread with the second kind of another.\<close>

type_synonym pair_candidate = "string \<times> string \<times> class_lockset \<times> class_lockset"

definition pair_check :: "class_locksets \<times> class_locksets \<Rightarrow> string \<Rightarrow> class_locksets \<times> class_locksets \<Rightarrow> string \<Rightarrow> pair_candidate list" where
  "pair_check pa na pb nb = [(na, nb, c, m). c \<leftarrow> fst pa, m \<leftarrow> snd pb]"

definition pair_candidates :: "(thread \<Rightarrow> class_locksets \<times> class_locksets) \<Rightarrow> thread list \<Rightarrow> pair_candidate list" where
  "pair_candidates collect threads =
     (let per = map collect threads; names = map t_name threads; n = length threads in
      concat [if i = j then [] else pair_check (per ! i) (names ! i) (per ! j) (names ! j). i \<leftarrow> [0..<n], j \<leftarrow> [0..<n]] @
      concat [if fst (per ! i) \<noteq> [] \<and> names ! i \<in> spawned_names threads
              then pair_check (per ! i) (names ! i) (per ! i) (self2 (names ! i)) else []. i \<leftarrow> [0..<n]])"

record pair_witness =
  pw_location :: string
  pw_threads :: "string \<times> string"

definition report_pairs :: "pair_candidate list \<Rightarrow> pair_witness list" where
  "report_pairs cs =
     sort_key pw_location (fst (fold
       (report_new (\<lambda>(na, nb, c, m). concurrent_pair c na m nb) (\<lambda>(na, nb, c, m). fst c)
          (\<lambda>(na, nb, c, m). \<lparr>pw_location = fst c, pw_threads = (na, nb)\<rparr>))
       cs ([], {})))"

definition find_aba :: "thread list \<Rightarrow> pair_witness list" where
  "find_aba threads = report_pairs (pair_candidates cas_and_mod_locksets threads)"

definition find_refcount_races :: "thread list \<Rightarrow> pair_witness list" where
  "find_refcount_races threads = report_pairs (pair_candidates get_and_put_locksets threads)"

section \<open>What a snapshot records\<close>

definition joined_of :: "event list \<Rightarrow> string set" where
  "joined_of es = {n. \<exists>i j. i < j \<and> j < length es \<and> es ! i = Spawn n \<and> es ! j = Join}"

definition tracker_of :: "event list \<Rightarrow> lifetime_tracker" where
  "tracker_of es = fold (\<lambda>e lt. snd (tracker_step e lt)) es tracker_new"

definition snapshot_at :: "event list \<Rightarrow> (event \<Rightarrow> string option) \<Rightarrow> nat \<Rightarrow> class_lockset \<Rightarrow> bool" where
  "snapshot_at es sel p r \<longleftrightarrow> p < length es \<and>
     (\<exists>x. sel (es ! p) = Some x \<and> r = (x, locks_of (take p es), joined_of (take p es)))"

lemma joined_of_snoc: "joined_of (es @ [e]) = joined_of es \<union> (if e = Join then {n. Spawn n \<in> set es} else {})"
proof (intro equalityI subsetI)
  fix n assume "n \<in> joined_of (es @ [e])"
  then obtain i j where "i < j" "j < Suc (length es)" "(es @ [e]) ! i = Spawn n" "(es @ [e]) ! j = Join" by (auto simp: joined_of_def)
  then have "j < length es \<and> es ! i = Spawn n \<and> es ! j = Join \<or> e = Join \<and> es ! i = Spawn n \<and> i < length es" "i < j"
    by (auto simp: nth_append less_Suc_eq)
  then show "n \<in> joined_of es \<union> (if e = Join then {n. Spawn n \<in> set es} else {})"
  proof (elim disjE)
    assume "j < length es \<and> es ! i = Spawn n \<and> es ! j = Join"
    then show ?thesis using \<open>i < j\<close> by (auto simp: joined_of_def)
  next
    assume "e = Join \<and> es ! i = Spawn n \<and> i < length es"
    then show ?thesis by (auto simp: in_set_conv_nth)
  qed
next
  fix n assume "n \<in> joined_of es \<union> (if e = Join then {n. Spawn n \<in> set es} else {})"
  then consider i j where "i < j" "j < length es" "es ! i = Spawn n" "es ! j = Join" | i where "e = Join" "i < length es" "es ! i = Spawn n"
    by (auto simp: joined_of_def in_set_conv_nth split: if_splits)
  then show "n \<in> joined_of (es @ [e])"
  proof cases
    case 1
    then show ?thesis unfolding joined_of_def by (intro CollectI exI [of _ i] exI [of _ j]) (simp add: nth_append)
  next
    case 2
    then show ?thesis unfolding joined_of_def by (intro CollectI exI [of _ i] exI [of _ "length es"]) (simp add: nth_append)
  qed
qed

lemma tracker_of_snoc [simp]: "tracker_of [] = tracker_new" "tracker_of (es @ [e]) = snd (tracker_step e (tracker_of es))"
  by (simp_all add: tracker_of_def)

lemma tracker_held: "lt_held (tracker_of es) = locks_of es"
proof (induction es rule: rev_induct)
  case (snoc e es)
  then show ?case by (cases e) simp_all
qed (simp add: tracker_new_def)

lemma tracker_spawned: "lt_joined (tracker_of es) \<union> lt_spawned (tracker_of es) = {n. Spawn n \<in> set es}"
proof (induction es rule: rev_induct)
  case (snoc e es)
  then show ?case by (cases e) auto
qed (simp add: tracker_new_def)

lemma tracker_joined: "lt_joined (tracker_of es) = joined_of es"
proof (induction es rule: rev_induct)
  case (snoc e es)
  then show ?case using tracker_spawned [of es] by (cases e) (auto simp: joined_of_snoc)
qed (simp add: tracker_new_def joined_of_def)

lemma sync_not_selected:
  "fst (tracker_step e lt) \<Longrightarrow> freed e = None \<and> accessed e = None \<and> swapped e = None \<and> modified e = None \<and> ref_got e = None \<and> ref_put e = None"
  by (cases e) (simp_all add: accessed_def modified_def)

lemma snapshot_at_snoc:
  "snapshot_at (es @ [e]) sel p r \<longleftrightarrow>
     snapshot_at es sel p r \<or> p = length es \<and> (\<exists>x. sel e = Some x \<and> r = (x, locks_of es, joined_of es))"
  by (auto simp: snapshot_at_def nth_append less_Suc_eq)

lemma collect_locksets_fold:
  assumes "\<And>e lt. fst (tracker_step e lt) \<Longrightarrow> first e = None \<and> second e = None" and "\<And>e. first e = None \<or> second e = None"
  shows "case fold (collect_event first second) es (tracker_new, [], []) of (lt, as, bs) \<Rightarrow>
    lt = tracker_of es \<and> (\<forall>r. r \<in> set as \<longleftrightarrow> (\<exists>p. snapshot_at es first p r)) \<and> (\<forall>r. r \<in> set bs \<longleftrightarrow> (\<exists>p. snapshot_at es second p r))"
proof (induction es rule: rev_induct)
  case (snoc e es)
  obtain lt as bs where f: "fold (collect_event first second) es (tracker_new, [], []) = (lt, as, bs)" by (metis prod_cases3)
  have I: "lt = tracker_of es" "\<And>r. r \<in> set as \<longleftrightarrow> (\<exists>p. snapshot_at es first p r)" "\<And>r. r \<in> set bs \<longleftrightarrow> (\<exists>p. snapshot_at es second p r)"
    using snoc unfolding f by auto
  have step: "fold (collect_event first second) (es @ [e]) (tracker_new, [], []) = collect_event first second e (lt, as, bs)" using f by simp
  have plain: "snd (tracker_step e lt) = lt" if "\<not> fst (tracker_step e lt)" using that by (cases e) auto
  have sn: "snap lt x = (x, locks_of es, joined_of es)" for x by (simp add: snap_def I(1) tracker_held tracker_joined)
  have snoc: "(\<exists>p. snapshot_at (es @ [e]) sel p r) \<longleftrightarrow> (\<exists>p. snapshot_at es sel p r) \<or> (\<exists>x. sel e = Some x \<and> r = (x, locks_of es, joined_of es))" for sel r
    unfolding snapshot_at_snoc by blast
  show ?case
  proof (cases "fst (tracker_step e lt)")
    case True
    then show ?thesis using assms(1) [OF True] I unfolding step snoc by (simp add: collect_event_def split_beta)
  next
    case False
    then show ?thesis using assms(2) [of e] I plain [OF False] sn unfolding step snoc by (auto simp: collect_event_def split_beta split: option.splits)
  qed
qed (simp add: snapshot_at_def)

lemma selections_disjoint:
  "freed e = None \<or> accessed e = None" "swapped e = None \<or> modified e = None" "ref_got e = None \<or> ref_put e = None"
  by (cases e; simp add: accessed_def modified_def)+

lemma collect_locksets_iff:
  assumes "\<And>e lt. fst (tracker_step e lt) \<Longrightarrow> first e = None \<and> second e = None" and "\<And>e. first e = None \<or> second e = None"
  shows "r \<in> set (fst (collect_locksets first second t)) \<longleftrightarrow> (\<exists>p. snapshot_at (t_events t) first p r)"
    and "r \<in> set (snd (collect_locksets first second t)) \<longleftrightarrow> (\<exists>p. snapshot_at (t_events t) second p r)"
proof -
  obtain lt as bs where f: "fold (collect_event first second) (t_events t) (tracker_new, [], []) = (lt, as, bs)" by (metis prod_cases3)
  then show "r \<in> set (fst (collect_locksets first second t)) \<longleftrightarrow> (\<exists>p. snapshot_at (t_events t) first p r)"
    "r \<in> set (snd (collect_locksets first second t)) \<longleftrightarrow> (\<exists>p. snapshot_at (t_events t) second p r)"
    using collect_locksets_fold [of first second "t_events t", OF assms] by (simp_all only: collect_locksets_def f split snd_conv fst_conv)
qed

lemma collect_locksets_exact:
  "r \<in> set (fst (free_and_access_locksets t)) \<longleftrightarrow> (\<exists>p. snapshot_at (t_events t) freed p r)"
  "r \<in> set (snd (free_and_access_locksets t)) \<longleftrightarrow> (\<exists>p. snapshot_at (t_events t) accessed p r)"
  "r \<in> set (fst (cas_and_mod_locksets t)) \<longleftrightarrow> (\<exists>p. snapshot_at (t_events t) swapped p r)"
  "r \<in> set (snd (cas_and_mod_locksets t)) \<longleftrightarrow> (\<exists>p. snapshot_at (t_events t) modified p r)"
  "r \<in> set (fst (get_and_put_locksets t)) \<longleftrightarrow> (\<exists>p. snapshot_at (t_events t) ref_got p r)"
  "r \<in> set (snd (get_and_put_locksets t)) \<longleftrightarrow> (\<exists>p. snapshot_at (t_events t) ref_put p r)"
proof -
  note c = collect_locksets_iff [of freed accessed r t] collect_locksets_iff [of swapped modified r t] collect_locksets_iff [of ref_got ref_put r t]
  show "r \<in> set (fst (free_and_access_locksets t)) \<longleftrightarrow> (\<exists>p. snapshot_at (t_events t) freed p r)"
    "r \<in> set (snd (free_and_access_locksets t)) \<longleftrightarrow> (\<exists>p. snapshot_at (t_events t) accessed p r)"
    unfolding free_and_access_locksets_def using c(1,2) sync_not_selected selections_disjoint(1) by blast+
  show "r \<in> set (fst (cas_and_mod_locksets t)) \<longleftrightarrow> (\<exists>p. snapshot_at (t_events t) swapped p r)"
    "r \<in> set (snd (cas_and_mod_locksets t)) \<longleftrightarrow> (\<exists>p. snapshot_at (t_events t) modified p r)"
    unfolding cas_and_mod_locksets_def using c(3,4) sync_not_selected selections_disjoint(2) by blast+
  show "r \<in> set (fst (get_and_put_locksets t)) \<longleftrightarrow> (\<exists>p. snapshot_at (t_events t) ref_got p r)"
    "r \<in> set (snd (get_and_put_locksets t)) \<longleftrightarrow> (\<exists>p. snapshot_at (t_events t) ref_put p r)"
    unfolding get_and_put_locksets_def using c(5,6) sync_not_selected selections_disjoint(3) by blast+
qed

section \<open>What is reported\<close>

text \<open>Two threads of the program, or a spawned thread and a second instance of it.\<close>

definition thread_pair :: "thread list \<Rightarrow> thread \<Rightarrow> string \<Rightarrow> thread \<Rightarrow> string \<Rightarrow> bool" where
  "thread_pair threads a na b nb \<longleftrightarrow>
     (\<exists>i j. i < length threads \<and> j < length threads \<and> i \<noteq> j \<and> a = threads ! i \<and> b = threads ! j \<and> na = t_name a \<and> nb = t_name b) \<or>
     (a \<in> set threads \<and> b = a \<and> na = t_name a \<and> nb = self2 na \<and> na \<in> spawned_names threads)"

definition recorded_race :: "thread list \<Rightarrow> (event \<Rightarrow> string option) \<Rightarrow> (event \<Rightarrow> string option) \<Rightarrow> string \<Rightarrow> bool" where
  "recorded_race threads sel sel' x \<longleftrightarrow>
     (\<exists>a na b nb p q f g. thread_pair threads a na b nb \<and> snapshot_at (t_events a) sel p f \<and> snapshot_at (t_events b) sel' q g \<and>
        fst f = x \<and> concurrent_pair f na g nb)"

lemma pair_candidates_iff:
  "(na, nb, c, m) \<in> set (pair_candidates collect threads) \<longleftrightarrow>
     (\<exists>a b. thread_pair threads a na b nb \<and> c \<in> set (fst (collect a)) \<and> m \<in> set (snd (collect b)))"
proof -
  have p: "(na, nb, c, m) \<in> set (pair_check pa na' pb nb') \<longleftrightarrow> na = na' \<and> nb = nb' \<and> c \<in> set (fst pa) \<and> m \<in> set (snd pb)" for pa na' pb nb'
    by (auto simp: pair_check_def)
  have c: "(na, nb, c, m) \<in> set (pair_candidates collect threads) \<longleftrightarrow>
      (\<exists>i j. i < length threads \<and> j < length threads \<and> i \<noteq> j \<and> na = map t_name threads ! i \<and> nb = map t_name threads ! j \<and>
        c \<in> set (fst (map collect threads ! i)) \<and> m \<in> set (snd (map collect threads ! j))) \<or>
      (\<exists>i<length threads. (fst (map collect threads ! i) \<noteq> [] \<and> map t_name threads ! i \<in> spawned_names threads) \<and> na = map t_name threads ! i \<and>
        nb = self2 (map t_name threads ! i) \<and> c \<in> set (fst (map collect threads ! i)) \<and> m \<in> set (snd (map collect threads ! i)))"
    unfolding pair_candidates_def Let_def set_append Un_iff set_off_diagonal set_diagonal p ..
  show ?thesis unfolding c thread_pair_def in_set_conv_nth [of _ threads] by (fastforce simp: nth_map)
qed

lemma report_pairs_exact:
  "distinct (map pw_location (report_pairs cs)) \<and> sorted (map pw_location (report_pairs cs)) \<and>
   pw_location ` set (report_pairs cs) = {fst c | na nb c m. (na, nb, c, m) \<in> set cs \<and> concurrent_pair c na m nb}"
proof -
  let ?test = "\<lambda>(na, nb, c, m). concurrent_pair c na m nb"
  have k: "pw_location ((\<lambda>(na, nb, c, m). \<lparr>pw_location = fst c, pw_threads = (na, nb)\<rparr>) c) = (\<lambda>(na, nb, c, m). fst c) c" for c :: pair_candidate
    by (simp add: split_beta)
  have K: "(\<lambda>(na, nb, c, m). fst c) ` {c \<in> set cs. ?test c} = {fst c | na nb c m. (na, nb, c, m) \<in> set cs \<and> concurrent_pair c na m nb}"
    by (auto simp: image_iff; force)
  from report_new_exact [where wkey = pw_location and test = ?test and cs = cs and key = "\<lambda>(na, nb, c, m). fst c"
      and mk = "\<lambda>(na, nb, c, m). \<lparr>pw_location = fst c, pw_threads = (na, nb)\<rparr>", OF k, unfolded Let_def K]
  show ?thesis unfolding report_pairs_def by (simp add: distinct_map)
qed

lemma concurrent_pair_sym: "concurrent_pair f na g nb \<longleftrightarrow> concurrent_pair g nb f na"
  by (auto simp: concurrent_pair_def lifetime_ordered_def)

lemma uaf_check_iff:
  "(na, nb, f, g, d) \<in> set (uaf_check pa na' pb nb' dd) \<longleftrightarrow>
     na = na' \<and> nb = nb' \<and> f \<in> set (fst pa) \<and> (if d then dd \<and> g \<in> set (fst pb) else g \<in> set (snd pb))"
  by (auto simp: uaf_check_def)

lemma uaf_candidates_iff:
  "(na, nb, f, g, d) \<in> set (uaf_candidates threads) \<longleftrightarrow>
     (\<exists>i j. i < length threads \<and> j < length threads \<and> i \<noteq> j \<and> na = t_name (threads ! i) \<and> nb = t_name (threads ! j) \<and>
        f \<in> set (fst (free_and_access_locksets (threads ! i))) \<and>
        (if d then i < j \<and> g \<in> set (fst (free_and_access_locksets (threads ! j))) else g \<in> set (snd (free_and_access_locksets (threads ! j))))) \<or>
     (\<exists>i<length threads. t_name (threads ! i) \<in> spawned_names threads \<and> na = t_name (threads ! i) \<and> nb = self2 na \<and>
        f \<in> set (fst (free_and_access_locksets (threads ! i))) \<and>
        (if d then g \<in> set (fst (free_and_access_locksets (threads ! i))) else g \<in> set (snd (free_and_access_locksets (threads ! i)))))"
proof -
  let ?m = "map free_and_access_locksets threads" and ?n = "map t_name threads" and ?len = "length threads"
  have "(na, nb, f, g, d) \<in> set (uaf_candidates threads) \<longleftrightarrow>
      (\<exists>i j. i < ?len \<and> j < ?len \<and> i \<noteq> j \<and> na = ?n ! i \<and> nb = ?n ! j \<and> f \<in> set (fst (?m ! i)) \<and>
         (if d then i < j \<and> g \<in> set (fst (?m ! j)) else g \<in> set (snd (?m ! j)))) \<or>
      (\<exists>i<?len. (fst (?m ! i) \<noteq> [] \<and> ?n ! i \<in> spawned_names threads) \<and> na = ?n ! i \<and> nb = self2 (?n ! i) \<and> f \<in> set (fst (?m ! i)) \<and>
         (if d then True \<and> g \<in> set (fst (?m ! i)) else g \<in> set (snd (?m ! i))))"
    unfolding uaf_candidates_def Let_def set_append Un_iff set_off_diagonal set_diagonal uaf_check_iff ..
  then show ?thesis by fastforce
qed

lemma uaf_racing:
  "(\<exists>na nb f g. (na, nb, f, g, d) \<in> set (uaf_candidates threads) \<and> concurrent_pair f na g nb \<and> fst f = x) \<longleftrightarrow>
     recorded_race threads freed (if d then freed else accessed) x" (is "?L \<longleftrightarrow> ?R")
proof
  assume ?L
  then obtain na nb f g where c: "(na, nb, f, g, d) \<in> set (uaf_candidates threads)" "concurrent_pair f na g nb" "fst f = x" by blast
  let ?S = "\<lambda>j. if d then g \<in> set (fst (free_and_access_locksets (threads ! j))) else g \<in> set (snd (free_and_access_locksets (threads ! j)))"
  have "\<exists>i j. thread_pair threads (threads ! i) na (threads ! j) nb \<and> f \<in> set (fst (free_and_access_locksets (threads ! i))) \<and> ?S j"
    using c(1) unfolding uaf_candidates_iff
  proof (elim disjE exE conjE)
    fix i j assume *: "i < length threads" "j < length threads" "i \<noteq> j" "na = t_name (threads ! i)" "nb = t_name (threads ! j)"
      "f \<in> set (fst (free_and_access_locksets (threads ! i)))"
      "if d then i < j \<and> g \<in> set (fst (free_and_access_locksets (threads ! j))) else g \<in> set (snd (free_and_access_locksets (threads ! j)))"
    have "thread_pair threads (threads ! i) na (threads ! j) nb" unfolding thread_pair_def using *(1-5) by blast
    then show ?thesis using *(6,7) by (cases d) auto
  next
    fix i assume *: "i < length threads" "t_name (threads ! i) \<in> spawned_names threads" "na = t_name (threads ! i)" "nb = self2 na"
      "f \<in> set (fst (free_and_access_locksets (threads ! i)))" "?S i"
    have "thread_pair threads (threads ! i) na (threads ! i) nb" unfolding thread_pair_def using *(1-4) by simp
    then show ?thesis using *(5,6) by blast
  qed
  then obtain i j where ij: "thread_pair threads (threads ! i) na (threads ! j) nb" "f \<in> set (fst (free_and_access_locksets (threads ! i)))" "?S j" by blast
  obtain p q where "snapshot_at (t_events (threads ! i)) freed p f" "snapshot_at (t_events (threads ! j)) (if d then freed else accessed) q g"
    using ij(2,3) by (auto simp: collect_locksets_exact split: if_splits)
  then show ?R unfolding recorded_race_def using ij(1) c(2,3) by blast
next
  assume ?R
  then obtain a na b nb p q f g where r: "thread_pair threads a na b nb" "snapshot_at (t_events a) freed p f"
      "snapshot_at (t_events b) (if d then freed else accessed) q g" "fst f = x" "concurrent_pair f na g nb"
    unfolding recorded_race_def by blast
  have F: "f \<in> set (fst (free_and_access_locksets a))"
      "if d then g \<in> set (fst (free_and_access_locksets b)) else g \<in> set (snd (free_and_access_locksets b))"
    using r(2,3) by (auto simp: collect_locksets_exact)
  have x: "fst g = x" using r(4,5) by (simp add: concurrent_pair_def)
  from r(1) consider i j where "i < length threads" "j < length threads" "i \<noteq> j" "a = threads ! i" "b = threads ! j" "na = t_name a" "nb = t_name b"
    | i where "i < length threads" "a = threads ! i" "b = a" "na = t_name a" "nb = self2 na" "na \<in> spawned_names threads"
    unfolding thread_pair_def by (metis in_set_conv_nth)
  then show ?L
  proof cases
    case 1
    show ?thesis
    proof (cases "d \<and> j < i")
      case True
      then have "(nb, na, g, f, d) \<in> set (uaf_candidates threads)" using 1 F unfolding uaf_candidates_iff
        by (intro disjI1 exI [of _ j] exI [of _ i]) auto
      then show ?thesis using r(5) x concurrent_pair_sym by blast
    next
      case False
      then have "(na, nb, f, g, d) \<in> set (uaf_candidates threads)" using 1 F unfolding uaf_candidates_iff
        by (intro disjI1 exI [of _ i] exI [of _ j]) (auto simp: not_less)
      then show ?thesis using r(4,5) by blast
    qed
  next
    case 2
    then have "(na, nb, f, g, d) \<in> set (uaf_candidates threads)" using F unfolding uaf_candidates_iff by (intro disjI2 exI [of _ i]) auto
    then show ?thesis using r(4,5) by blast
  qed
qed

lemma uaf_reports:
  "distinct (map (\<lambda>w. (fu_location w, fu_double_free w)) (find_cross_thread_uaf threads)) \<and> sorted (map fu_location (find_cross_thread_uaf threads)) \<and>
   (\<lambda>w. (fu_location w, fu_double_free w)) ` set (find_cross_thread_uaf threads) = {(x, d). recorded_race threads freed (if d then freed else accessed) x}"
proof -
  let ?test = "\<lambda>(na, nb, f, a, d). concurrent_pair f na a nb" and ?mk = "\<lambda>(na, nb, f, a, d). \<lparr>fu_location = fst f, fu_threads = (na, nb), fu_double_free = d\<rparr>"
  have k: "(\<lambda>w. (fu_location w, fu_double_free w)) (?mk c) = (\<lambda>(na, nb, f, a, d). (fst f, d)) c" for c :: uaf_candidate by (simp add: split_beta)
  have K: "(\<lambda>(na, nb, f, a, d). (fst f, d)) ` {c \<in> set (uaf_candidates threads). ?test c} = {(x, d). recorded_race threads freed (if d then freed else accessed) x}"
    unfolding uaf_racing [symmetric] by (auto simp: image_iff; force)
  from report_new_exact [where wkey = "\<lambda>w. (fu_location w, fu_double_free w)" and test = ?test and cs = "uaf_candidates threads"
      and key = "\<lambda>(na, nb, f, a, d). (fst f, d)" and mk = ?mk, OF k, unfolded Let_def K]
  show ?thesis unfolding find_cross_thread_uaf_def by (simp add: distinct_map)
qed

lemma pair_racing:
  assumes "\<And>r t. r \<in> set (fst (collect t)) \<longleftrightarrow> (\<exists>p. snapshot_at (t_events t) sel p r)"
    and "\<And>r t. r \<in> set (snd (collect t)) \<longleftrightarrow> (\<exists>p. snapshot_at (t_events t) sel' p r)"
  shows "{fst c | na nb c m. (na, nb, c, m) \<in> set (pair_candidates collect threads) \<and> concurrent_pair c na m nb} = {x. recorded_race threads sel sel' x}"
  unfolding pair_candidates_iff recorded_race_def assms by blast

text \<open>
  A race stated on the traces alone. A lock is held at a position when it was acquired before and not released since; a thread is
  joined at a position when it was spawned before and some later join, still before the position, waited for it.
\<close>

definition holds_at :: "event list \<Rightarrow> nat \<Rightarrow> string \<Rightarrow> bool" where
  "holds_at es p l \<longleftrightarrow> (\<exists>k<p. es ! k = Acquire l \<and> (\<forall>m. k < m \<longrightarrow> m < p \<longrightarrow> es ! m \<noteq> Release l))"

definition joined_at :: "event list \<Rightarrow> nat \<Rightarrow> string \<Rightarrow> bool" where
  "joined_at es p n \<longleftrightarrow> (\<exists>i j. i < j \<and> j < p \<and> es ! i = Spawn n \<and> es ! j = Join)"

text \<open>Two running threads: two of the program, or a thread some trace spawns and a second instance of it.\<close>

definition two_threads :: "thread list \<Rightarrow> thread \<Rightarrow> string \<Rightarrow> thread \<Rightarrow> string \<Rightarrow> bool" where
  "two_threads threads a na b nb \<longleftrightarrow>
     (\<exists>i j. i < length threads \<and> j < length threads \<and> i \<noteq> j \<and> a = threads ! i \<and> b = threads ! j \<and> na = t_name a \<and> nb = t_name b) \<or>
     (a \<in> set threads \<and> b = a \<and> na = t_name a \<and> nb = na @ ''#2'' \<and> (\<exists>t\<in>set threads. Spawn na \<in> set (t_events t)))"

definition racing :: "thread list \<Rightarrow> event set \<Rightarrow> event set \<Rightarrow> bool" where
  "racing threads E F \<longleftrightarrow>
     (\<exists>a na b nb p q. two_threads threads a na b nb \<and>
        p < length (t_events a) \<and> t_events a ! p \<in> E \<and> q < length (t_events b) \<and> t_events b ! q \<in> F \<and>
        (\<nexists>l. holds_at (t_events a) p l \<and> holds_at (t_events b) q l) \<and>
        \<not> joined_at (t_events a) p nb \<and> \<not> joined_at (t_events b) q na)"

lemma holds_at_locks: "p \<le> length es \<Longrightarrow> l \<in> locks_of (take p es) \<longleftrightarrow> holds_at es p l"
proof (induction p)
  case (Suc p)
  have "l \<in> locks_of (take (Suc p) es) \<longleftrightarrow> es ! p = Acquire l \<or> l \<in> locks_of (take p es) \<and> es ! p \<noteq> Release l"
    using Suc.prems by (cases "es ! p") (auto simp: take_Suc_conv_app_nth)
  moreover have "holds_at es (Suc p) l \<longleftrightarrow> es ! p = Acquire l \<or> holds_at es p l \<and> es ! p \<noteq> Release l"
    by (auto simp: holds_at_def less_Suc_eq)
  ultimately show ?case using Suc by simp
qed (simp add: holds_at_def)

lemma joined_at_joined: "p \<le> length es \<Longrightarrow> n \<in> joined_of (take p es) \<longleftrightarrow> joined_at es p n"
proof -
  assume p: "p \<le> length es"
  have "i < j \<Longrightarrow> j < length (take p es) \<and> take p es ! i = Spawn n \<and> take p es ! j = Join \<longleftrightarrow> j < p \<and> es ! i = Spawn n \<and> es ! j = Join" for i j
    using p by auto
  then show ?thesis unfolding joined_of_def joined_at_def by blast
qed

lemma two_threads_iff: "two_threads threads a na b nb \<longleftrightarrow> thread_pair threads a na b nb"
proof -
  have "n \<in> spawned_names threads \<longleftrightarrow> (\<exists>t\<in>set threads. Spawn n \<in> set (t_events t))" for n
  proof -
    have "spawn_name e = Some n \<longleftrightarrow> e = Spawn n" for e by (cases e) auto
    then show ?thesis unfolding spawned_names_def by (auto simp: List.map_filter_def; force)
  qed
  then show ?thesis by (simp add: two_threads_def thread_pair_def self2_def)
qed

lemma racing_iff:
  assumes "\<And>e. sel e = Some x \<longleftrightarrow> e \<in> E" and "\<And>e. sel' e = Some x \<longleftrightarrow> e \<in> F"
  shows "recorded_race threads sel sel' x \<longleftrightarrow> racing threads E F"
proof -
  have pos: "(\<exists>f g. snapshot_at es sel p f \<and> snapshot_at fs sel' q g \<and> fst f = x \<and> concurrent_pair f na g nb) \<longleftrightarrow>
      p < length es \<and> es ! p \<in> E \<and> q < length fs \<and> fs ! q \<in> F \<and> (\<nexists>l. holds_at es p l \<and> holds_at fs q l) \<and>
      \<not> joined_at es p nb \<and> \<not> joined_at fs q na" for es fs p q na nb
    using holds_at_locks [of p es] holds_at_locks [of q fs] joined_at_joined [of p es] joined_at_joined [of q fs] assms
    by (auto simp: snapshot_at_def concurrent_pair_def lifetime_ordered_def)
  have "recorded_race threads sel sel' x \<longleftrightarrow> (\<exists>a na b nb p q. thread_pair threads a na b nb \<and>
      (\<exists>f g. snapshot_at (t_events a) sel p f \<and> snapshot_at (t_events b) sel' q g \<and> fst f = x \<and> concurrent_pair f na g nb))"
    unfolding recorded_race_def by blast
  then show ?thesis unfolding pos racing_def two_threads_iff .
qed

lemma selected_events:
  "freed e = Some x \<longleftrightarrow> e \<in> {Free x}" "accessed e = Some x \<longleftrightarrow> e \<in> {Read x, DepRead x, Write x, Rmw x}"
  "swapped e = Some x \<longleftrightarrow> e \<in> {Cas x}" "modified e = Some x \<longleftrightarrow> e \<in> {Write x, Rmw x, Free x}"
  "ref_got e = Some x \<longleftrightarrow> e \<in> {RefGet x}" "ref_put e = Some x \<longleftrightarrow> e \<in> {RefPut x}"
  by (cases e; auto simp: accessed_def modified_def)+

text \<open>
  Property C31. The three lockset searches report exactly the races of their kind: a location is reported as a use-after-free (a
  free and an access), a double free (two frees), an ABA (a compare-and-swap and a write or free) or a reference-count race (a get
  and a put), once, if and only if two threads of the program, or a spawned thread and a second instance of it, have such events
  at positions where they hold no lock in common and neither has joined the other.
\<close>

theorem lockset_reports_exact:
  "(\<lambda>w. (fu_location w, fu_double_free w)) ` set (find_cross_thread_uaf threads) =
     {(x, d). racing threads {Free x} (if d then {Free x} else {Read x, DepRead x, Write x, Rmw x})} \<and>
   pw_location ` set (find_aba threads) = {x. racing threads {Cas x} {Write x, Rmw x, Free x}} \<and>
   pw_location ` set (find_refcount_races threads) = {x. racing threads {RefGet x} {RefPut x}} \<and>
   distinct (map (\<lambda>w. (fu_location w, fu_double_free w)) (find_cross_thread_uaf threads)) \<and>
   distinct (map pw_location (find_aba threads)) \<and> distinct (map pw_location (find_refcount_races threads))"
proof -
  note R = racing_iff [OF selected_events(1) selected_events(2), of threads] racing_iff [OF selected_events(1) selected_events(1), of threads]
    racing_iff [OF selected_events(3) selected_events(4), of threads] racing_iff [OF selected_events(5) selected_events(6), of threads]
  have d: "recorded_race threads freed (if d then freed else accessed) x \<longleftrightarrow>
      racing threads {Free x} (if d then {Free x} else {Read x, DepRead x, Write x, Rmw x})" for x d
    using R(1,2) [of x] by (cases d) simp_all
  have "(\<lambda>w. (fu_location w, fu_double_free w)) ` set (find_cross_thread_uaf threads) =
      {(x, d). racing threads {Free x} (if d then {Free x} else {Read x, DepRead x, Write x, Rmw x})}"
    using uaf_reports [of threads] unfolding d by blast
  moreover have "pw_location ` set (find_aba threads) = {x. racing threads {Cas x} {Write x, Rmw x, Free x}}"
    using report_pairs_exact [of "pair_candidates cas_and_mod_locksets threads"] pair_racing [of cas_and_mod_locksets swapped modified threads]
    unfolding find_aba_def R [symmetric] by (simp add: collect_locksets_exact)
  moreover have "pw_location ` set (find_refcount_races threads) = {x. racing threads {RefGet x} {RefPut x}}"
    using report_pairs_exact [of "pair_candidates get_and_put_locksets threads"] pair_racing [of get_and_put_locksets ref_got ref_put threads]
    unfolding find_refcount_races_def R [symmetric] by (simp add: collect_locksets_exact)
  ultimately show ?thesis
    using uaf_reports [of threads] report_pairs_exact [of "pair_candidates cas_and_mod_locksets threads"]
      report_pairs_exact [of "pair_candidates get_and_put_locksets threads"]
    by (simp add: find_aba_def find_refcount_races_def)
qed

section \<open>Locksets and interleavings\<close>

text \<open>
  Two events that some schedule makes concurrent have disjoint locksets.
\<close>

lemma concurrent_locksets_disjoint:
  assumes "valid_schedule (map t_events threads) \<sigma>" and "t < length threads" "u < length threads" "t \<noteq> u"
  shows "locks_of (take (length (proj t \<sigma>)) (t_events (threads ! t))) \<inter> locks_of (take (length (proj u \<sigma>)) (t_events (threads ! u))) = {}"
  using locks_exclusive [OF assms(1), of t u] valid_proj(1) [OF assms(1), of t] valid_proj(1) [OF assms(1), of u] assms(2-4) by simp

text \<open>
  Property C32. No concurrent conflict is missed: whenever some schedule that respects program order and lock exclusion brings one
  thread to a free of an object and another to an access of it, with neither thread having joined the other, the use-after-free
  search reports the object.
\<close>

theorem concurrent_use_after_free_reported:
  assumes "valid_schedule (map t_events threads) \<sigma>" and "t < length threads" "u < length threads" "t \<noteq> u"
    and "length (proj t \<sigma>) < length (t_events (threads ! t))" "freed (t_events (threads ! t) ! length (proj t \<sigma>)) = Some x"
    and "length (proj u \<sigma>) < length (t_events (threads ! u))" "accessed (t_events (threads ! u) ! length (proj u \<sigma>)) = Some x"
    and "t_name (threads ! u) \<notin> joined_of (proj t \<sigma>)" "t_name (threads ! t) \<notin> joined_of (proj u \<sigma>)"
  shows "\<exists>w\<in>set (find_cross_thread_uaf threads). fu_location w = x \<and> \<not> fu_double_free w"
proof -
  let ?p = "length (proj t \<sigma>)" and ?q = "length (proj u \<sigma>)" and ?es = "t_events (threads ! t)" and ?fs = "t_events (threads ! u)"
  have proj: "proj t \<sigma> = take ?p ?es" "proj u \<sigma> = take ?q ?fs"
    using valid_proj(1) [OF assms(1), of t] valid_proj(1) [OF assms(1), of u] assms(2,3) by simp_all
  let ?f = "(x, locks_of (take ?p ?es), joined_of (take ?p ?es))" and ?g = "(x, locks_of (take ?q ?fs), joined_of (take ?q ?fs))"
  have "snapshot_at ?es freed ?p ?f" "snapshot_at ?fs accessed ?q ?g" using assms(5-8) by (auto simp: snapshot_at_def)
  moreover have "concurrent_pair ?f (t_name (threads ! t)) ?g (t_name (threads ! u))"
    using concurrent_locksets_disjoint [OF assms(1-4)] assms(9,10) proj by (simp add: concurrent_pair_def lifetime_ordered_def)
  moreover have "thread_pair threads (threads ! t) (t_name (threads ! t)) (threads ! u) (t_name (threads ! u))"
    using assms(2-4) by (auto simp: thread_pair_def)
  ultimately have "recorded_race threads freed accessed x" unfolding recorded_race_def by (metis fst_conv)
  then have "(x, False) \<in> (\<lambda>w. (fu_location w, fu_double_free w)) ` set (find_cross_thread_uaf threads)" using uaf_reports [of threads] by simp
  then show ?thesis by auto
qed

theorem concurrent_use_after_free_reported_witness:
  "\<exists>w\<in>set (find_cross_thread_uaf [\<lparr>t_name = ''A'', t_events = [Free ''x'']\<rparr>, \<lparr>t_name = ''B'', t_events = [Acquire ''L'', Read ''x'']\<rparr>]).
     fu_location w = ''x'' \<and> \<not> fu_double_free w"
proof -
  let ?ts = "[\<lparr>t_name = ''A'', t_events = [Free ''x'']\<rparr>, \<lparr>t_name = ''B'', t_events = [Acquire ''L'', Read ''x'']\<rparr>]"
  have "runs_from (map t_events ?ts) [] [(1, Acquire ''L'')]" by (simp add: may_step_def)
  then have "valid_schedule (map t_events ?ts) [(1, Acquire ''L'')]" using runs_from_valid [OF _ valid_Nil] by fastforce
  then show ?thesis
    by (rule concurrent_use_after_free_reported [of ?ts "[(1, Acquire ''L'')]" 0 1 "''x''"]) (simp_all add: proj_def joined_of_def accessed_def)
qed

text \<open>
  The converse fails: disjoint locksets do not mean that two events can be made concurrent, because the locks taken on the way may
  order them. Here the two writes hold different locks, and no schedule reaches both.
\<close>

definition nested_left :: "event list" where
  "nested_left = [Acquire ''A'', Acquire ''B'', Release ''B'', Write ''x'']"

definition nested_right :: "event list" where
  "nested_right = [Acquire ''B'', Acquire ''A'', Release ''A'', Write ''x'']"

lemma nested_never_concurrent:
  assumes "valid_schedule [nested_left, nested_right] \<sigma>"
  shows "\<not> (length (proj 0 \<sigma>) = 3 \<and> length (proj 1 \<sigma>) = 3)" and "locks_of (take 3 nested_left) \<inter> locks_of (take 3 nested_right) = {}"
proof -
  let ?I = "\<lambda>a b. (1 \<le> a \<longrightarrow> b \<noteq> 2) \<and> (a = 2 \<longrightarrow> b = 0) \<and> \<not> (3 \<le> a \<and> 3 \<le> (b::nat))"
  have "?I (length (proj 0 \<sigma>)) (length (proj 1 \<sigma>))"
    using assms
  proof (induction rule: valid_schedule.induct)
    case (valid_snoc \<sigma> t e)
    let ?a = "length (proj 0 \<sigma>)" and ?b = "length (proj 1 \<sigma>)"
    have P: "proj 0 \<sigma> = take ?a nested_left" "proj 1 \<sigma> = take ?b nested_right" "?a \<le> 4" "?b \<le> 4"
      using valid_proj(1,2) [OF valid_snoc.hyps(1), of 0] valid_proj(1,2) [OF valid_snoc.hyps(1), of 1] by (simp_all add: nested_left_def nested_right_def)
    have locks: "locks_of (take n nested_left) = (if n = 0 then {} else if n = 2 then {''A'', ''B''} else {''A''})"
      "locks_of (take n nested_right) = (if n = 0 then {} else if n = 2 then {''A'', ''B''} else {''B''})" if "n \<le> 4" for n
      using that by (auto simp: le_Suc_eq numeral_eq_Suc nested_left_def nested_right_def locks_of_def)
    have m: "t < 2" "t = 0 \<Longrightarrow> ?a < 4 \<and> (\<forall>l. nested_left ! ?a = Acquire l \<longrightarrow> l \<notin> locks_of (take ?b nested_right))"
      "t = 1 \<Longrightarrow> ?b < 4 \<and> (\<forall>l. nested_right ! ?b = Acquire l \<longrightarrow> l \<notin> locks_of (take ?a nested_left))"
      using valid_snoc.hyps(2) P(1,2) by (auto simp: may_step_def nested_left_def nested_right_def)
    consider "t = 0" | "t = 1" using m(1) by linarith
    then show ?case
    proof cases
      case 1
      then show ?thesis using m(2) valid_snoc.IH P(3,4) unfolding locks(2) [OF P(4)]
        by (cases "?a = 0"; cases "?a = 1"; cases "?a = 2"; cases "?b = 0"; cases "?b = 2") (auto simp: nested_left_def)
    next
      case 2
      then show ?thesis using m(3) valid_snoc.IH P(3,4) unfolding locks(1) [OF P(3)]
        by (cases "?b = 0"; cases "?b = 1"; cases "?b = 2"; cases "?a = 0"; cases "?a = 2") (auto simp: nested_right_def)
    qed
  qed simp
  then show "\<not> (length (proj 0 \<sigma>) = 3 \<and> length (proj 1 \<sigma>) = 3)" by auto
  show "locks_of (take 3 nested_left) \<inter> locks_of (take 3 nested_right) = {}" by (simp add: nested_left_def nested_right_def locks_of_def numeral_3_eq_3)
qed

end
