(* ===== verification/Conc_Crossentry.thy ===== *)
theory Conc_Crossentry
  imports Conc_Events
begin

text \<open>
  The sequential checks across syscall entries of \<open>crates/verifier/src/interleave/crossentry.rs\<close>: the lifetime machine of a
  global-rooted object, the use-after-free and double-free search over pairs of entries, and the typestate search with the parser
  of its event payloads.
\<close>

section \<open>Global roots\<close>

text \<open>\<open>str::strip_prefix\<close>.\<close>

fun strip_prefix :: "string \<Rightarrow> string \<Rightarrow> string option" where
  "strip_prefix [] s = Some s"
| "strip_prefix (c # cs) (d # ds) = (if c = d then strip_prefix cs ds else None)"
| "strip_prefix (c # cs) [] = None"

lemma strip_prefix_Some: "strip_prefix p s = Some r \<longleftrightarrow> s = p @ r"
  by (induction p s rule: strip_prefix.induct) auto

function strip_derefs :: "string \<Rightarrow> string" where
  "strip_derefs core = (case strip_prefix ''deref:'' core of Some rest \<Rightarrow> strip_derefs rest | None \<Rightarrow> core)"
  by pat_completeness auto
termination by (relation "measure length") (auto simp: strip_prefix_Some)

declare strip_derefs.simps [simp del]

definition is_global_rooted :: "string \<Rightarrow> bool" where
  "is_global_rooted class \<longleftrightarrow> strip_prefix ''g:'' (strip_derefs class) \<noteq> None"

definition root_slot :: "string \<Rightarrow> string" where
  "root_slot class = (case strip_prefix ''deref:'' class of Some s \<Rightarrow> s | None \<Rightarrow> class)"

section \<open>The lifetime machine\<close>

datatype root_life = RootLive | RootDangling

datatype root_eff = EffFree | EffClear | EffUse

definition root_effect :: "event \<Rightarrow> string \<Rightarrow> root_eff option" where
  "root_effect e root =
     (let slot = root_slot root in
      case e of
        Free x \<Rightarrow> if x = root then Some EffFree else None
      | RefPut x \<Rightarrow> if x = root then Some EffFree else None
      | Write x \<Rightarrow> if x = slot then Some EffClear else if x = root then Some EffUse else None
      | Rmw x \<Rightarrow> if x = slot then Some EffClear else if x = root then Some EffUse else None
      | Read x \<Rightarrow> if x = root then Some EffUse else None
      | DepRead x \<Rightarrow> if x = root then Some EffUse else None
      | RefGet x \<Rightarrow> if x = root then Some EffUse else None
      | _ \<Rightarrow> None)"

type_synonym root_sim = "root_life \<times> bool \<times> bool"

definition root_step :: "string \<Rightarrow> event \<Rightarrow> root_sim \<Rightarrow> root_sim" where
  "root_step root e s =
     (case s of (st, uaf, double_free) \<Rightarrow>
        case root_effect e root of
          Some EffFree \<Rightarrow> (RootDangling, uaf, double_free \<or> st = RootDangling)
        | Some EffClear \<Rightarrow> (RootLive, uaf, double_free)
        | Some EffUse \<Rightarrow> (st, uaf \<or> st = RootDangling, double_free)
        | None \<Rightarrow> (st, uaf, double_free))"

definition simulate_root :: "event list \<Rightarrow> string \<Rightarrow> root_life \<Rightarrow> root_sim" where
  "simulate_root events root start = fold (root_step root) events (start, False, False)"

section \<open>The search over entries\<close>

record cross_entry_witness =
  ce_location :: string
  ce_entries :: "string \<times> string"
  ce_double_free :: bool

fun root_class :: "event \<Rightarrow> string option" where
  "root_class (Free x) = Some x"
| "root_class (RefPut x) = Some x"
| "root_class (Read x) = Some x"
| "root_class (DepRead x) = Some x"
| "root_class (RefGet x) = Some x"
| "root_class (Write x) = Some x"
| "root_class (Rmw x) = Some x"
| "root_class _ = None"

definition global_roots :: "thread list \<Rightarrow> string list" where
  "global_roots entries = sort (remdups (filter is_global_rooted (List.map_filter root_class (concat (map t_events entries)))))"

definition leaves_dangling :: "string \<Rightarrow> thread \<Rightarrow> bool" where
  "leaves_dangling root t \<longleftrightarrow> fst (simulate_root (t_events t) root RootLive) = RootDangling"

definition freers :: "thread list \<Rightarrow> string \<Rightarrow> nat list" where
  "freers entries root = filter (\<lambda>i. leaves_dangling root (entries ! i)) [0..<length entries]"

text \<open>One candidate for each entry that a different entry precedes, first for the use, then for the second free.\<close>

type_synonym ce_candidate = "string \<times> nat \<times> nat \<times> bool"

definition ce_candidates :: "thread list \<Rightarrow> ce_candidate list" where
  "ce_candidates entries =
     concat [(case find (\<lambda>f. f \<noteq> j) (freers entries root) of
                None \<Rightarrow> []
              | Some i \<Rightarrow> [(root, i, j, False), (root, i, j, True)]). root \<leftarrow> global_roots entries, j \<leftarrow> [0..<length entries]]"

definition ce_test :: "thread list \<Rightarrow> ce_candidate \<Rightarrow> bool" where
  "ce_test entries c =
     (case c of (root, i, j, d) \<Rightarrow>
        case simulate_root (t_events (entries ! j)) root RootDangling of (_, uaf, double_free) \<Rightarrow> if d then double_free else uaf)"

definition find_cross_entry_uaf :: "thread list \<Rightarrow> cross_entry_witness list" where
  "find_cross_entry_uaf entries =
     sort_key ce_location (fst (fold
       (report_new (ce_test entries) (\<lambda>(root, i, j, d). (root, d))
          (\<lambda>(root, i, j, d). \<lparr>ce_location = root, ce_entries = (t_name (entries ! i), t_name (entries ! j)), ce_double_free = d\<rparr>))
       (ce_candidates entries) ([], {})))"

section \<open>Sequences of entries\<close>

text \<open>
  The reference: running entries one after the other, an object is used (or freed) while it dangles. An entry list is a sequence of
  syscalls; the object is live at the start.
\<close>

definition after_entries :: "string \<Rightarrow> thread list \<Rightarrow> root_life" where
  "after_entries root ts = fst (simulate_root (concat (map t_events ts)) root RootLive)"

lemma root_step_flags:
  "root_step root e (st, uaf, df) = (fst (root_step root e (st, False, False)), uaf \<or> fst (snd (root_step root e (st, False, False))),
     df \<or> snd (snd (root_step root e (st, False, False))))"
  by (auto simp: root_step_def split: option.splits root_eff.splits)

lemma fold_root_step:
  "fold (root_step root) es (st, uaf, df) = (fst (simulate_root es root st), uaf \<or> fst (snd (simulate_root es root st)), df \<or> snd (snd (simulate_root es root st)))"
proof (induction es arbitrary: st uaf df)
  case (Cons e es)
  obtain st' u d where e: "root_step root e (st, False, False) = (st', u, d)" by (metis prod_cases3)
  have "root_step root e (st, uaf, df) = (st', uaf \<or> u, df \<or> d)" using e by (subst root_step_flags) simp
  moreover have "simulate_root (e # es) root st = fold (root_step root) es (st', u, d)" using e by (simp add: simulate_root_def)
  ultimately show ?case using Cons.IH [of st' "uaf \<or> u" "df \<or> d"] Cons.IH [of st' u d] by auto
qed (simp add: simulate_root_def)

lemma simulate_root_append:
  "simulate_root (es @ fs) root st =
     (let s = simulate_root es root st; t = simulate_root fs root (fst s) in (fst t, fst (snd s) \<or> fst (snd t), snd (snd s) \<or> snd (snd t)))"
  by (simp only: simulate_root_def [of "es @ fs"] fold_append o_apply fold_root_step Let_def) simp

lemma after_entries_snoc:
  "after_entries root [] = RootLive" "after_entries root (ts @ [t]) = fst (simulate_root (t_events t) root (after_entries root ts))"
  by (simp_all add: after_entries_def simulate_root_append Let_def) (simp add: simulate_root_def)

lemma dangling_has_freer: "after_entries root ts = RootDangling \<Longrightarrow> \<exists>t\<in>set ts. leaves_dangling root t"
proof (induction ts rule: rev_induct)
  case (snoc t ts)
  then show ?case by (cases "after_entries root ts") (auto simp: after_entries_snoc leaves_dangling_def)
qed (simp add: after_entries_snoc)

lemma effect_class: "root_effect e root = Some eff \<Longrightarrow> eff = EffFree \<or> eff = EffUse \<Longrightarrow> root_class e = Some root"
  by (cases e) (auto simp: root_effect_def Let_def split: if_splits)

lemma flagged_touches:
  "fst (snd (simulate_root es root st)) \<or> snd (snd (simulate_root es root st)) \<Longrightarrow> \<exists>e\<in>set es. root_class e = Some root"
proof (induction es rule: rev_induct)
  case (snoc e es)
  have "fst (snd (simulate_root [e] root st')) \<or> snd (snd (simulate_root [e] root st')) \<Longrightarrow> root_class e = Some root" for st'
    using effect_class [of e root] by (auto simp: simulate_root_def root_step_def split: option.splits root_eff.splits)
  then show ?case using snoc by (auto simp: simulate_root_append Let_def)
qed (simp add: simulate_root_def)

lemma global_roots_iff: "root \<in> set (global_roots entries) \<longleftrightarrow> is_global_rooted root \<and> (\<exists>t\<in>set entries. \<exists>e\<in>set (t_events t). root_class e = Some root)"
  by (auto simp: global_roots_def List.map_filter_def; force)

text \<open>What entry \<open>j\<close> does to an object that dangles when it starts: a use (\<open>d\<close> false) or a free.\<close>

definition misuses :: "string \<Rightarrow> bool \<Rightarrow> thread \<Rightarrow> bool" where
  "misuses root d t \<longleftrightarrow> (if d then snd (snd (simulate_root (t_events t) root RootDangling)) else fst (snd (simulate_root (t_events t) root RootDangling)))"

lemma ce_candidates_iff:
  "(\<exists>c\<in>set (ce_candidates entries). ce_test entries c \<and> (\<lambda>(root, i, j, d). (root, d)) c = (root, d)) \<longleftrightarrow>
     root \<in> set (global_roots entries) \<and>
     (\<exists>i j. i < length entries \<and> j < length entries \<and> i \<noteq> j \<and> leaves_dangling root (entries ! i) \<and> misuses root d (entries ! j))"
    (is "?L \<longleftrightarrow> ?R")
proof
  assume ?L
  then obtain i j where c: "(root, i, j, d) \<in> set (ce_candidates entries)" "ce_test entries (root, i, j, d)" by auto
  then have "root \<in> set (global_roots entries)" "j < length entries" "find (\<lambda>f. f \<noteq> j) (freers entries root) = Some i"
    by (auto simp: ce_candidates_def split: option.splits)
  moreover from this(3) have "i \<in> set (freers entries root)" "i \<noteq> j" by (auto simp: find_Some_iff)
  moreover have "misuses root d (entries ! j)"
    using c(2) by (cases "simulate_root (t_events (entries ! j)) root RootDangling") (simp add: ce_test_def misuses_def)
  ultimately show ?R by (auto simp: freers_def)
next
  assume ?R
  then obtain i j where r: "root \<in> set (global_roots entries)" "i < length entries" "j < length entries" "i \<noteq> j" "leaves_dangling root (entries ! i)" "misuses root d (entries ! j)"
    by blast
  have "find (\<lambda>f. f \<noteq> j) (freers entries root) \<noteq> None" using r by (auto simp: find_None_iff freers_def)
  then obtain k where k: "find (\<lambda>f. f \<noteq> j) (freers entries root) = Some k" by blast
  have "[(root, k, j, False), (root, k, j, True)] \<in> set [(case find (\<lambda>f. f \<noteq> j) (freers entries root) of
                None \<Rightarrow> []
              | Some i \<Rightarrow> [(root, i, j, False), (root, i, j, True)]). root \<leftarrow> global_roots entries, j \<leftarrow> [0..<length entries]]"
    using r(1,3) k by (auto intro!: bexI [of _ root] image_eqI [of _ _ j])
  then have "(root, k, j, d) \<in> set (ce_candidates entries)" unfolding ce_candidates_def set_concat [of "concat _"]
    by (rule UN_I) (cases d; simp)
  moreover have "ce_test entries (root, k, j, d)" using r(6) by (simp add: ce_test_def misuses_def split_beta)
  ultimately show ?L by (intro bexI [of _ "(root, k, j, d)"]) auto
qed

text \<open>
  The reference, stated on event sequences alone. A global-rooted name is a global behind any number of dereferences. An event
  reassigns the object when it stores to the slot that holds it (the name without its outermost dereference, or the name itself
  when there is none); it uses the object when it reads it, takes a reference or stores through it. The object dangles at a
  position when it was freed before and its slot was not reassigned since.
\<close>

definition global_name :: "string \<Rightarrow> bool" where
  "global_name x \<longleftrightarrow> (\<exists>n s. x = concat (replicate n ''deref:'') @ ''g:'' @ s)"

definition frees_object :: "string \<Rightarrow> event set" where
  "frees_object x = {Free x, RefPut x}"

definition reassigns_object :: "string \<Rightarrow> event set" where
  "reassigns_object x = {e. \<exists>s. (e = Write s \<or> e = Rmw s) \<and> (x = ''deref:'' @ s \<or> s = x \<and> (\<nexists>r. x = ''deref:'' @ r))}"

definition uses_object :: "string \<Rightarrow> event set" where
  "uses_object x = {Read x, DepRead x, RefGet x} \<union> ({Write x, Rmw x} - reassigns_object x)"

definition dangling_at :: "string \<Rightarrow> event list \<Rightarrow> nat \<Rightarrow> bool" where
  "dangling_at x es p \<longleftrightarrow> (\<exists>k<p. es ! k \<in> frees_object x \<and> (\<forall>m. k < m \<longrightarrow> m < p \<longrightarrow> es ! m \<notin> reassigns_object x))"

text \<open>
  An entry misuses an object after other entries: these leave it dangling, and at some position of the entry, where it
  dangles, the entry uses it (frees it, for a double free).
\<close>

definition misused_after :: "string \<Rightarrow> bool \<Rightarrow> event list \<Rightarrow> event list \<Rightarrow> bool" where
  "misused_after x d es fs \<longleftrightarrow> dangling_at x es (length es) \<and>
     (\<exists>p<length fs. dangling_at x (es @ fs) (length es + p) \<and> fs ! p \<in> (if d then frees_object x else uses_object x))"

lemma strip_derefs_replicate: "strip_derefs (concat (replicate n ''deref:'') @ s) = strip_derefs s"
  by (induction n) (simp_all add: strip_derefs.simps [of "''deref:'' @ _", simplified])

lemma strip_derefs_split: "\<exists>n. x = concat (replicate n ''deref:'') @ strip_derefs x"
proof (induction x rule: strip_derefs.induct)
  case (1 core)
  show ?case
  proof (cases "strip_prefix ''deref:'' core")
    case None
    then show ?thesis by (intro exI [of _ 0]) (simp add: strip_derefs.simps [of core])
  next
    case (Some rest)
    then obtain n where "rest = concat (replicate n ''deref:'') @ strip_derefs rest" using 1 by blast
    moreover have "strip_derefs core = strip_derefs rest" using Some by (simp add: strip_derefs.simps [of core])
    moreover have "core = ''deref:'' @ rest" using Some by (simp only: strip_prefix_Some)
    ultimately have "core = concat (replicate (Suc n) ''deref:'') @ strip_derefs core" by (metis append.assoc concat.simps(2) replicate_Suc)
    then show ?thesis by blast
  qed
qed

lemma global_name_iff: "is_global_rooted x \<longleftrightarrow> global_name x"
proof
  assume "is_global_rooted x"
  then obtain s where "strip_derefs x = ''g:'' @ s" by (auto simp: is_global_rooted_def strip_prefix_Some)
  then show "global_name x" using strip_derefs_split [of x] unfolding global_name_def by metis
next
  assume "global_name x"
  then obtain n s where x: "x = concat (replicate n ''deref:'') @ ''g:'' @ s" by (auto simp: global_name_def)
  have "strip_derefs (''g:'' @ s) = ''g:'' @ s" by (simp add: strip_derefs.simps [of "''g:'' @ _", simplified])
  then show "is_global_rooted x" unfolding is_global_rooted_def x strip_derefs_replicate by simp
qed

lemma root_slot_cases: "s = root_slot x \<longleftrightarrow> x = ''deref:'' @ s \<or> s = x \<and> (\<nexists>r. x = ''deref:'' @ r)"
  by (cases "strip_prefix ''deref:'' x") (auto simp: root_slot_def strip_prefix_Some simp flip: not_None_eq)

lemma root_effect_iff:
  "root_effect e x = Some EffFree \<longleftrightarrow> e \<in> frees_object x" "root_effect e x = Some EffClear \<longleftrightarrow> e \<in> reassigns_object x"
  "root_effect e x = Some EffUse \<longleftrightarrow> e \<in> uses_object x"
  unfolding uses_object_def reassigns_object_def root_slot_cases [symmetric] frees_object_def root_effect_def Let_def
  by (cases e; auto)+

lemma dangling_at_take: "p \<le> length es \<Longrightarrow> dangling_at x (es @ fs) p \<longleftrightarrow> dangling_at x es p"
  by (auto simp: dangling_at_def nth_append)

lemma dangling_at_0: "\<not> dangling_at x es 0"
  by (simp add: dangling_at_def)

lemma dangling_at_snoc:
  "dangling_at x (es @ [e]) (Suc (length es)) \<longleftrightarrow> e \<in> frees_object x \<or> dangling_at x es (length es) \<and> e \<notin> reassigns_object x"
proof
  assume "dangling_at x (es @ [e]) (Suc (length es))"
  then obtain k where k: "k < Suc (length es)" "(es @ [e]) ! k \<in> frees_object x"
    "\<forall>m. k < m \<longrightarrow> m < Suc (length es) \<longrightarrow> (es @ [e]) ! m \<notin> reassigns_object x" by (auto simp: dangling_at_def)
  show "e \<in> frees_object x \<or> dangling_at x es (length es) \<and> e \<notin> reassigns_object x"
  proof (cases "k = length es")
    case False
    then have "dangling_at x (es @ [e]) (length es)" using k unfolding dangling_at_def by (intro exI [of _ k]) auto
    moreover have "e \<notin> reassigns_object x" using k(3) [rule_format, of "length es"] k(1) False by simp
    ultimately show ?thesis by (simp add: dangling_at_take)
  qed (use k(2) in simp)
next
  assume "e \<in> frees_object x \<or> dangling_at x es (length es) \<and> e \<notin> reassigns_object x"
  then show "dangling_at x (es @ [e]) (Suc (length es))"
  proof
    assume "e \<in> frees_object x"
    then show ?thesis unfolding dangling_at_def by (intro exI [of _ "length es"]) simp
  next
    assume a: "dangling_at x es (length es) \<and> e \<notin> reassigns_object x"
    then obtain k where "k < length es" "es ! k \<in> frees_object x" "\<forall>m. k < m \<longrightarrow> m < length es \<longrightarrow> es ! m \<notin> reassigns_object x"
      by (auto simp: dangling_at_def)
    then show ?thesis unfolding dangling_at_def using a by (intro exI [of _ k]) (auto simp: nth_append less_Suc_eq)
  qed
qed

lemma effects_exclusive: "e \<in> frees_object x \<Longrightarrow> e \<notin> reassigns_object x"
  by (auto simp: frees_object_def reassigns_object_def)

text \<open>The machine of the code tracks whether the object dangles, and raises its flags exactly at the misuses.\<close>

lemma simulate_dangling: "fst (simulate_root es x RootLive) = RootDangling \<longleftrightarrow> dangling_at x es (length es)"
proof (induction es rule: rev_induct)
  case (snoc e es)
  have "fst (simulate_root [e] x st) = RootDangling \<longleftrightarrow> e \<in> frees_object x \<or> st = RootDangling \<and> e \<notin> reassigns_object x" for st
    unfolding root_effect_iff [symmetric] by (auto simp: simulate_root_def root_step_def split: option.splits root_eff.splits)
  then show ?case using snoc by (simp add: simulate_root_append Let_def dangling_at_snoc)
qed (simp add: simulate_root_def dangling_at_0)

lemma simulate_flags:
  assumes "dangling_at x es (length es)"
  shows "(if d then snd (snd (simulate_root fs x RootDangling)) else fst (snd (simulate_root fs x RootDangling))) \<longleftrightarrow>
    (\<exists>p<length fs. dangling_at x (es @ fs) (length es + p) \<and> fs ! p \<in> (if d then frees_object x else uses_object x))"
proof (induction fs rule: rev_induct)
  case (snoc e fs)
  have live: "fst (simulate_root es x RootLive) = RootDangling" using assms by (simp only: simulate_dangling)
  have st: "fst (simulate_root fs x RootDangling) = RootDangling \<longleftrightarrow> dangling_at x (es @ fs) (length es + length fs)"
    using simulate_dangling [of "es @ fs" x] live by (simp add: simulate_root_append Let_def)
  have one: "(if d then snd (snd (simulate_root [e] x st)) else fst (snd (simulate_root [e] x st))) \<longleftrightarrow>
      st = RootDangling \<and> e \<in> (if d then frees_object x else uses_object x)" for st
    unfolding root_effect_iff [symmetric] by (cases st) (auto simp: simulate_root_def root_step_def root_effect_iff [symmetric] split: option.splits root_eff.splits)
  have "(\<exists>p<length (fs @ [e]). dangling_at x (es @ fs @ [e]) (length es + p) \<and> (fs @ [e]) ! p \<in> E) \<longleftrightarrow>
      (\<exists>p<length fs. dangling_at x (es @ fs) (length es + p) \<and> fs ! p \<in> E) \<or> dangling_at x (es @ fs) (length es + length fs) \<and> e \<in> E" for E
    using dangling_at_take [of "length es + _" "es @ fs" x "[e]"] by (fastforce simp: less_Suc_eq nth_append)
  then show ?case using snoc.IH one [of "fst (simulate_root fs x RootDangling)"] st by (cases d) (simp_all add: simulate_root_append Let_def)
qed (simp add: simulate_root_def)

lemma misused_after_iff:
  "misused_after x d (concat (map t_events ts)) (t_events t) \<longleftrightarrow> after_entries x ts = RootDangling \<and> misuses x d t"
  using simulate_flags [of x "concat (map t_events ts)" d "t_events t"] simulate_dangling [of "concat (map t_events ts)" x]
  unfolding misused_after_def after_entries_def misuses_def by blast

text \<open>The search in terms of the machine it runs.\<close>

lemma cross_entry_machine:
  "distinct (map (\<lambda>w. (ce_location w, ce_double_free w)) (find_cross_entry_uaf entries)) \<and>
   (\<lambda>w. (ce_location w, ce_double_free w)) ` set (find_cross_entry_uaf entries) =
     {(root, d). is_global_rooted root \<and>
        (\<exists>j is. j < length entries \<and> set is \<subseteq> {..<length entries} - {j} \<and>
           after_entries root (map ((!) entries) is) = RootDangling \<and> misuses root d (entries ! j))}"
proof -
  let ?mk = "\<lambda>(root, i, j, d). \<lparr>ce_location = root, ce_entries = (t_name (entries ! i), t_name (entries ! j)), ce_double_free = d\<rparr>"
  have k: "(\<lambda>w. (ce_location w, ce_double_free w)) (?mk c) = (\<lambda>(root, i, j, d). (root, d)) c" for c :: ce_candidate by (simp add: split_beta)
  have seq: "(\<exists>i j. i < length entries \<and> j < length entries \<and> i \<noteq> j \<and> leaves_dangling root (entries ! i) \<and> misuses root d (entries ! j)) \<longleftrightarrow>
      (\<exists>j is. j < length entries \<and> set is \<subseteq> {..<length entries} - {j} \<and> after_entries root (map ((!) entries) is) = RootDangling \<and> misuses root d (entries ! j))"
    (is "?A \<longleftrightarrow> ?B") for root d
  proof
    assume ?A
    then obtain i j where *: "i < length entries" "j < length entries" "i \<noteq> j" "leaves_dangling root (entries ! i)" "misuses root d (entries ! j)" by blast
    then show ?B using after_entries_snoc(2) [of root "[]" "entries ! i"] unfolding leaves_dangling_def
      by (intro exI [of _ j] exI [of _ "[i]"]) (simp add: after_entries_snoc(1))
  next
    assume ?B
    then show ?A using dangling_has_freer by fastforce
  qed
  have touch: "root \<in> set (global_roots entries) \<longleftrightarrow> is_global_rooted root" if "misuses root d (entries ! j)" "j < length entries" for root d j
    using that flagged_touches [of "t_events (entries ! j)" root RootDangling] unfolding global_roots_iff misuses_def by (auto split: if_splits)
  have K: "(\<lambda>(root, i, j, d). (root, d)) ` {c \<in> set (ce_candidates entries). ce_test entries c} =
     {(root, d). is_global_rooted root \<and> (\<exists>j is. j < length entries \<and> set is \<subseteq> {..<length entries} - {j} \<and>
        after_entries root (map ((!) entries) is) = RootDangling \<and> misuses root d (entries ! j))}"
  proof (intro set_eqI)
    fix x :: "string \<times> bool"
    obtain root d where x: "x = (root, d)" by fastforce
    have "x \<in> (\<lambda>(root, i, j, d). (root, d)) ` {c \<in> set (ce_candidates entries). ce_test entries c} \<longleftrightarrow>
        (\<exists>c\<in>set (ce_candidates entries). ce_test entries c \<and> (\<lambda>(root, i, j, d). (root, d)) c = (root, d))" unfolding x by (force simp: image_iff)
    also have "\<dots> \<longleftrightarrow> is_global_rooted root \<and> (\<exists>i j. i < length entries \<and> j < length entries \<and> i \<noteq> j \<and> leaves_dangling root (entries ! i) \<and> misuses root d (entries ! j))"
      unfolding ce_candidates_iff using touch by blast
    finally show "x \<in> (\<lambda>(root, i, j, d). (root, d)) ` {c \<in> set (ce_candidates entries). ce_test entries c} \<longleftrightarrow> x \<in> {(root, d). is_global_rooted root \<and> (\<exists>j is. j < length entries \<and> set is \<subseteq> {..<length entries} - {j} \<and>
        after_entries root (map ((!) entries) is) = RootDangling \<and> misuses root d (entries ! j))}"
      unfolding seq x by simp
  qed
  from report_new_exact [where wkey = "\<lambda>w. (ce_location w, ce_double_free w)" and test = "ce_test entries" and cs = "ce_candidates entries"
      and key = "\<lambda>(root, i, j, d). (root, d)" and mk = ?mk, OF k, unfolded Let_def K]
  show ?thesis unfolding find_cross_entry_uaf_def by (simp add: distinct_map)
qed

text \<open>
  Property C33. The cross-entry search is exact for sequences of other entries: an object is reported (once for uses, once for
  frees) exactly when it is rooted at a global and some sequence of entries, none of them the one that follows, leaves it dangling
  before an entry that uses it (or frees it again) at a position where it dangles, through the earlier free or one of its own.
  An entry that follows itself is not considered.
\<close>

theorem cross_entry_exact:
  "distinct (map (\<lambda>w. (ce_location w, ce_double_free w)) (find_cross_entry_uaf entries)) \<and>
   (\<lambda>w. (ce_location w, ce_double_free w)) ` set (find_cross_entry_uaf entries) =
     {(root, d). global_name root \<and>
        (\<exists>j is. j < length entries \<and> set is \<subseteq> {..<length entries} - {j} \<and>
           misused_after root d (concat (map (\<lambda>i. t_events (entries ! i)) is)) (t_events (entries ! j)))}"
proof -
  have "misused_after root d (concat (map (\<lambda>i. t_events (entries ! i)) is)) (t_events t) \<longleftrightarrow>
      after_entries root (map ((!) entries) is) = RootDangling \<and> misuses root d t" for root d "is" t
    using misused_after_iff [of root d "map ((!) entries) is" t] by (simp add: comp_def)
  then show ?thesis using cross_entry_machine [of entries] by (simp add: global_name_iff)
qed

text \<open>
  One entry alone is never reported, although running it twice may free the same object twice: the double free by calling the
  same entry twice, which the documentation of the search names, is left out.
\<close>

lemma same_entry_twice_unreported:
  "find_cross_entry_uaf [\<lparr>t_name = ''close'', t_events = [Free ''deref:g:fd'']\<rparr>] = []"
  "misused_after ''deref:g:fd'' True [Free ''deref:g:fd''] [Free ''deref:g:fd'']"
proof -
  let ?t = "\<lparr>t_name = ''close'', t_events = [Free ''deref:g:fd'']\<rparr>"
  have freers: "freers [?t] root = [] \<or> freers [?t] root = [0]" for root by (simp add: freers_def)
  have "find (\<lambda>f. f \<noteq> 0) (freers [?t] root) = None" for root using freers [of root] by (rule disjE) simp_all
  then have "ce_candidates [?t] = []" by (simp add: ce_candidates_def)
  then show "find_cross_entry_uaf [?t] = []" by (simp add: find_cross_entry_uaf_def)
  show "misused_after ''deref:g:fd'' True [Free ''deref:g:fd''] [Free ''deref:g:fd'']"
    by (simp add: misused_after_def dangling_at_def frees_object_def)
qed

end
