(* ===== verification/Conc_Races.thy ===== *)
theory Conc_Races
  imports Prelude "HOL-Library.List_Lexorder" "HOL-Library.Char_ord" "HOL-Library.Product_Lexorder"
begin

text \<open>
  The lockset race detection of \<open>crates/verifier/src/datarace.rs\<close>. The hash map of locations is a map with the list of its keys; the
  order of the keys does not matter because the report is sorted by a total order.
\<close>

section \<open>The detector\<close>

record data_race =
  dr_location :: string
  dr_functions :: "string list"
  dr_irq_unsafe :: bool

definition IRQOFF :: string where
  "IRQOFF = ''@irqoff''"

record tagged_access =
  a_function :: string
  a_location :: string
  a_write :: bool
  a_lockset :: "string list"

record race_loc =
  rl_candidate :: "string set option"
  rl_has_write :: bool
  rl_any_locked :: bool
  rl_irq_in_union :: bool
  rl_functions :: "string set"

definition race_loc_new :: race_loc where
  "race_loc_new = \<lparr>rl_candidate = None, rl_has_write = False, rl_any_locked = False, rl_irq_in_union = False, rl_functions = {}\<rparr>"

definition fold_access :: "tagged_access \<Rightarrow> race_loc \<Rightarrow> race_loc" where
  "fold_access a loc =
     (let ls = set (a_lockset a) in
      \<lparr>rl_candidate = Some (case rl_candidate loc of None \<Rightarrow> ls | Some cur \<Rightarrow> cur \<inter> ls),
       rl_has_write = (rl_has_write loc \<or> a_write a),
       rl_any_locked = (rl_any_locked loc \<or> ls \<noteq> {}),
       rl_irq_in_union = (rl_irq_in_union loc \<or> IRQOFF \<in> ls),
       rl_functions = insert (a_function a) (rl_functions loc)\<rparr>)"

definition participates :: "string set option \<Rightarrow> tagged_access \<Rightarrow> bool" where
  "participates concurrent a \<longleftrightarrow> (case concurrent of Some fns \<Rightarrow> a_function a \<in> fns | None \<Rightarrow> True)"

definition add_access :: "string set option \<Rightarrow> tagged_access \<Rightarrow> (string \<rightharpoonup> race_loc) \<Rightarrow> string \<rightharpoonup> race_loc" where
  "add_access concurrent a locs =
     (if \<not> participates concurrent a then locs
      else locs(a_location a \<mapsto> fold_access a (case locs (a_location a) of Some l \<Rightarrow> l | None \<Rightarrow> race_loc_new)))"

definition race_of :: "string set option \<Rightarrow> string \<Rightarrow> race_loc \<Rightarrow> data_race option" where
  "race_of concurrent location loc =
     (let candidate = (case rl_candidate loc of Some c \<Rightarrow> c | None \<Rightarrow> {});
          eraser = (candidate = {} \<and> rl_any_locked loc);
          irq_unsafe = (rl_irq_in_union loc \<and> IRQOFF \<notin> candidate);
          min_fns = (if concurrent \<noteq> None then 1 else 2);
          is_race = ((eraser \<or> irq_unsafe) \<and> rl_has_write loc \<and> min_fns \<le> card (rl_functions loc))
      in if is_race
         then Some \<lparr>dr_location = location, dr_functions = sorted_list_of_set (rl_functions loc), dr_irq_unsafe = (irq_unsafe \<and> \<not> eraser)\<rparr>
         else None)"

definition race_key :: "data_race \<Rightarrow> int \<times> string" where
  "race_key r = (- int (length (dr_functions r)), dr_location r)"

definition detect_races :: "tagged_access list \<Rightarrow> string set option \<Rightarrow> data_race list" where
  "detect_races accesses concurrent =
     (let locs = fold (add_access concurrent) accesses (\<lambda>_. None);
          keys = remdups (map a_location (filter (participates concurrent) accesses))
      in sort_key race_key (List.map_filter (\<lambda>l. case locs l of Some loc \<Rightarrow> race_of concurrent l loc | None \<Rightarrow> None) keys))"

section \<open>What is reported\<close>

text \<open>The accesses of a location that can run concurrently.\<close>

definition accesses_of :: "tagged_access list \<Rightarrow> string set option \<Rightarrow> string \<Rightarrow> tagged_access set" where
  "accesses_of accesses concurrent x = {a \<in> set accesses. participates concurrent a \<and> a_location a = x}"

definition common_locks :: "tagged_access set \<Rightarrow> string set" where
  "common_locks A = (if A = {} then {} else \<Inter>a\<in>A. set (a_lockset a))"

definition summary_of :: "tagged_access set \<Rightarrow> race_loc" where
  "summary_of A = \<lparr>rl_candidate = Some (common_locks A), rl_has_write = (\<exists>a\<in>A. a_write a), rl_any_locked = (\<exists>a\<in>A. a_lockset a \<noteq> []),
     rl_irq_in_union = (\<exists>a\<in>A. IRQOFF \<in> set (a_lockset a)), rl_functions = a_function ` A\<rparr>"

lemma fold_access_first: "fold_access a race_loc_new = summary_of {a}"
  by (auto simp: fold_access_def race_loc_new_def summary_of_def common_locks_def Let_def)

lemma fold_access_insert: "A \<noteq> {} \<Longrightarrow> fold_access a (summary_of A) = summary_of (insert a A)"
  by (auto simp: fold_access_def summary_of_def common_locks_def Let_def)

lemma accesses_of_snoc:
  "accesses_of (as @ [a]) concurrent x = (if participates concurrent a \<and> a_location a = x then insert a (accesses_of as concurrent x) else accesses_of as concurrent x)"
  by (auto simp: accesses_of_def)

lemma locs_summary:
  "fold (add_access concurrent) accesses (\<lambda>_. None) x =
     (let A = accesses_of accesses concurrent x in if A = {} then None else Some (summary_of A))"
proof (induction accesses rule: rev_induct)
  case (snoc a as)
  then show ?case by (auto simp: add_access_def accesses_of_snoc Let_def fold_access_first fold_access_insert)
qed (simp add: accesses_of_def)

definition racy :: "tagged_access set \<Rightarrow> string set option \<Rightarrow> bool" where
  "racy A concurrent \<longleftrightarrow>
     (common_locks A = {} \<and> (\<exists>a\<in>A. a_lockset a \<noteq> []) \<or> (\<exists>a\<in>A. IRQOFF \<in> set (a_lockset a)) \<and> IRQOFF \<notin> common_locks A) \<and>
     (\<exists>a\<in>A. a_write a) \<and> (if concurrent = None then 2 else 1) \<le> card (a_function ` A)"

lemma race_of_summary:
  "race_of concurrent x (summary_of A) =
     (if racy A concurrent
      then Some \<lparr>dr_location = x, dr_functions = sorted_list_of_set (a_function ` A), dr_irq_unsafe = (common_locks A \<noteq> {})\<rparr> else None)"
proof -
  have "IRQOFF \<in> set (a_lockset a) \<Longrightarrow> a_lockset a \<noteq> []" for a by auto
  then show ?thesis by (auto simp: race_of_def summary_of_def racy_def Let_def)
qed

text \<open>
  Property C35. The data-race report is the Eraser relation: a location is reported, once, exactly when its concurrent accesses have no
  lock in common (or are protected against interrupts only in part), one of them writes, some access is locked, and enough
  functions touch it; the report names exactly those functions. The races with the most functions come first, and those with
  equally many are in the order of their locations.
\<close>

theorem detect_races_exact:
  "distinct (map dr_location (detect_races accesses concurrent)) \<and>
   sorted_wrt (\<lambda>a b. length (dr_functions b) < length (dr_functions a) \<or>
     length (dr_functions a) = length (dr_functions b) \<and> dr_location a \<le> dr_location b) (detect_races accesses concurrent) \<and>
   set (detect_races accesses concurrent) =
     {\<lparr>dr_location = x, dr_functions = sorted_list_of_set (a_function ` accesses_of accesses concurrent x),
       dr_irq_unsafe = (common_locks (accesses_of accesses concurrent x) \<noteq> {})\<rparr> | x. racy (accesses_of accesses concurrent x) concurrent}"
proof -
  let ?A = "accesses_of accesses concurrent" and ?keys = "remdups (map a_location (filter (participates concurrent) accesses))"
  let ?f = "\<lambda>l. case fold (add_access concurrent) accesses (\<lambda>_. None) l of Some loc \<Rightarrow> race_of concurrent l loc | None \<Rightarrow> None"
  let ?r = "\<lambda>x. \<lparr>dr_location = x, dr_functions = sorted_list_of_set (a_function ` ?A x), dr_irq_unsafe = (common_locks (?A x) \<noteq> {})\<rparr>"
  have f: "?f x = (if racy (?A x) concurrent then Some (?r x) else None)" for x
    by (auto simp: locs_summary Let_def race_of_summary) (simp add: racy_def)
  have k: "x \<in> set ?keys" if "racy (?A x) concurrent" for x using that by (auto simp: racy_def accesses_of_def)
  have loc: "map dr_location (List.map_filter ?f xs) = filter (\<lambda>x. racy (?A x) concurrent) xs" for xs
    unfolding f by (induction xs) (simp_all add: List.map_filter_simps)
  have "set (List.map_filter ?f ?keys) = {?r x | x. racy (?A x) concurrent}" unfolding f using k by (auto simp: List.map_filter_def; force)
  moreover have "distinct (map dr_location (List.map_filter ?f ?keys))" unfolding loc by simp
  moreover have "sorted_wrt (\<lambda>a b. length (dr_functions b) < length (dr_functions a) \<or>
      length (dr_functions a) = length (dr_functions b) \<and> dr_location a \<le> dr_location b) (sort_key race_key rs)" for rs
    by (rule sorted_wrt_mono_rel [OF _ sorted_sort_key [of race_key rs, unfolded sorted_map]]) (auto simp: race_key_def)
  ultimately show ?thesis unfolding detect_races_def Let_def by (simp add: distinct_map)
qed

end
