(* ===== verification/Conc_Typestate.thy ===== *)
theory Conc_Typestate
  imports Conc_Events
begin

text \<open>
  The typestate events of \<open>crates/verifier/src/interleave/crossentry.rs\<close>: the payload that the executor streams
  (\<open>crates/symbolic/src/exec/effects.rs\<close>), its parser, and the search for entries that use an object in a state another entry set.
  Rust's \<open>Display\<close> and \<open>FromStr\<close> of the unsigned integers are written out.
\<close>

section \<open>Decimal numbers\<close>

definition digit_char :: "nat \<Rightarrow> char" where
  "digit_char d = char_of (48 + d)"

definition digit_val :: "char \<Rightarrow> nat option" where
  "digit_val c = (let n = of_char c in if 48 \<le> n \<and> n \<le> 57 then Some (n - 48) else None)"

fun show_nat :: "nat \<Rightarrow> string" where
  "show_nat n = (if n < 10 then [digit_char n] else show_nat (n div 10) @ [digit_char (n mod 10)])"

declare show_nat.simps [simp del]

definition push_digit :: "nat \<Rightarrow> char \<Rightarrow> nat option \<Rightarrow> nat option" where
  "push_digit limit c acc = Option.bind acc (\<lambda>n. Option.bind (digit_val c) (\<lambda>d. if n * 10 + d \<le> limit then Some (n * 10 + d) else None))"

text \<open>An empty string and a lone sign are errors, a leading plus is accepted, and a value above the maximum is an error.\<close>

definition parse_uint :: "nat \<Rightarrow> string \<Rightarrow> nat option" where
  "parse_uint limit s =
     (let digits = (case s of c # cs \<Rightarrow> if c = CHR ''+'' then cs else s | [] \<Rightarrow> []) in
      if digits = [] then None else fold (push_digit limit) digits (Some 0))"

section \<open>Payloads\<close>

definition unit_sep :: char where
  "unit_sep = CHR 0x1F"

primrec split_on :: "char \<Rightarrow> string \<Rightarrow> string list" where
  "split_on c [] = [[]]"
| "split_on c (x # xs) = (if x = c then [] # split_on c xs else (case split_on c xs of [] \<Rightarrow> [[x]] | p # ps \<Rightarrow> (x # p) # ps))"

definition typestate_payload :: "nat \<Rightarrow> string \<Rightarrow> nat \<Rightarrow> nat \<Rightarrow> string" where
  "typestate_payload k class protocol st =
     show_nat k @ unit_sep # class @ unit_sep # show_nat protocol @ unit_sep # show_nat st"

definition parse_typestate :: "string \<Rightarrow> (nat \<times> string \<times> nat \<times> nat) option" where
  "parse_typestate payload =
     (case split_on unit_sep payload of
        k # class # proto # state # _ \<Rightarrow>
          Option.bind (parse_uint (2 ^ 8 - 1) k) (\<lambda>k.
          Option.bind (parse_uint (2 ^ 32 - 1) proto) (\<lambda>proto.
          Option.bind (parse_uint (2 ^ 32 - 1) state) (\<lambda>state. Some (k, class, proto, state))))
      | _ \<Rightarrow> None)"

section \<open>The search\<close>

type_synonym triple = "string \<times> nat \<times> nat"

record typestate_witness =
  ts_location :: string
  ts_protocol :: nat
  ts_state :: nat
  ts_entries :: "string \<times> string"

fun typestate_op :: "nat \<Rightarrow> event \<Rightarrow> triple option" where
  "typestate_op kind (Typestate p) =
     (case parse_typestate p of Some (k, class, proto, state) \<Rightarrow> if k = kind then Some (class, proto, state) else None | None \<Rightarrow> None)"
| "typestate_op kind _ = None"

definition sets_of :: "thread \<Rightarrow> triple list" where
  "sets_of t = List.map_filter (typestate_op 0) (t_events t)"

definition reqnots_of :: "thread \<Rightarrow> triple list" where
  "reqnots_of t = List.map_filter (typestate_op 2) (t_events t)"

definition find_cross_entry_typestate :: "thread list \<Rightarrow> typestate_witness list" where
  "find_cross_entry_typestate entries =
     sort_key ts_location (fst (fold
       (report_new (\<lambda>(i, j, s). s \<in> set (reqnots_of (entries ! j))) (\<lambda>(i, j, s). s)
          (\<lambda>(i, j, s). \<lparr>ts_location = fst s, ts_protocol = fst (snd s), ts_state = snd (snd s), ts_entries = (t_name (entries ! i), t_name (entries ! j))\<rparr>))
       (concat [if i = j then [] else [(i, j, s). s \<leftarrow> sets_of (entries ! i)]. i \<leftarrow> [0..<length entries], j \<leftarrow> [0..<length entries]])
       ([], {})))"

section \<open>Round trip\<close>

lemma digit_val_char: "d < 10 \<Longrightarrow> digit_val (digit_char d) = Some d"
  by (simp add: digit_val_def digit_char_def Let_def)

lemma digit_char_plain: "d < 10 \<Longrightarrow> digit_char d \<noteq> CHR ''+'' \<and> digit_char d \<noteq> unit_sep"
proof -
  assume "d < 10"
  then have "of_char (digit_char d) = 48 + d" by (simp add: digit_char_def)
  moreover have "of_char CHR ''+'' = (43::nat)" "of_char unit_sep = (31::nat)" by (simp_all add: unit_sep_def)
  ultimately show ?thesis by auto
qed

lemma show_nat_chars: "set (show_nat n) \<subseteq> digit_char ` {..<10} \<and> show_nat n \<noteq> []"
proof (induction n rule: show_nat.induct)
  case (1 n)
  then show ?case by (cases "n < 10") (auto simp: show_nat.simps [of n])
qed

lemma show_nat_sep: "unit_sep \<notin> set (show_nat n)"
  using show_nat_chars [of n] digit_char_plain by fastforce

lemma fold_show_nat: "n \<le> limit \<Longrightarrow> fold (push_digit limit) (show_nat n) (Some 0) = Some n"
proof (induction n rule: show_nat.induct)
  case (1 n)
  show ?case
  proof (cases "n < 10")
    case True
    then show ?thesis using 1(2) by (simp add: show_nat.simps [of n] push_digit_def digit_val_char)
  next
    case False
    have "n div 10 \<le> limit" using 1(2) div_le_dividend le_trans by blast
    moreover have "n div 10 * 10 + n mod 10 = n" by simp
    ultimately show ?thesis using False 1 by (simp add: show_nat.simps [of n] push_digit_def digit_val_char)
  qed
qed

lemma parse_show: "n \<le> limit \<Longrightarrow> parse_uint limit (show_nat n) = Some n"
proof -
  assume n: "n \<le> limit"
  obtain c cs where s: "show_nat n = c # cs" using show_nat_chars [of n] by (cases "show_nat n") auto
  then have "c \<noteq> CHR ''+''" using show_nat_chars [of n] digit_char_plain by auto
  then show ?thesis using s fold_show_nat [OF n] by (simp add: parse_uint_def)
qed

lemma split_on_plain: "c \<notin> set xs \<Longrightarrow> split_on c xs = [xs]"
  by (induction xs) auto

lemma split_on_append: "c \<notin> set xs \<Longrightarrow> split_on c (xs @ c # ys) = xs # split_on c ys"
  by (induction xs) (auto split: list.splits)

text \<open>
  Property C34. The typestate payload survives the trip from the executor to the checker: parsing what was formatted gives back the
  kind, the class and both interned ids, for every class without the separator and ids of the width the parser reads.
\<close>

theorem typestate_roundtrip:
  assumes "k < 2 ^ 8" and "protocol < 2 ^ 32" and "st < 2 ^ 32" and "unit_sep \<notin> set class"
  shows "parse_typestate (typestate_payload k class protocol st) = Some (k, class, protocol, st)"
proof -
  have "split_on unit_sep (typestate_payload k class protocol st) = [show_nat k, class, show_nat protocol, show_nat st]"
    unfolding typestate_payload_def by (simp add: split_on_append split_on_plain show_nat_sep assms(4))
  moreover have "parse_uint (2 ^ 8 - 1) (show_nat k) = Some k" "parse_uint (2 ^ 32 - 1) (show_nat protocol) = Some protocol"
    "parse_uint (2 ^ 32 - 1) (show_nat st) = Some st" by (rule parse_show; use assms in linarith)+
  ultimately show ?thesis by (simp add: parse_typestate_def)
qed

theorem typestate_roundtrip_witness:
  "parse_typestate (typestate_payload 2 ''g:dev@0'' 17 305) = Some (2, ''g:dev@0'', 17, 305)"
  by (rule typestate_roundtrip) (simp_all add: unit_sep_def)

text \<open>The search reports a triple exactly when one entry sets the state and a different one forbids it.\<close>

lemma typestate_exact:
  "distinct (map (\<lambda>w. (ts_location w, ts_protocol w, ts_state w)) (find_cross_entry_typestate entries)) \<and>
   (\<lambda>w. (ts_location w, ts_protocol w, ts_state w)) ` set (find_cross_entry_typestate entries) =
     {s. \<exists>i j. i < length entries \<and> j < length entries \<and> i \<noteq> j \<and> s \<in> set (sets_of (entries ! i)) \<and> s \<in> set (reqnots_of (entries ! j))}"
proof -
  let ?cs = "concat [if i = j then [] else [(i, j, s). s \<leftarrow> sets_of (entries ! i)]. i \<leftarrow> [0..<length entries], j \<leftarrow> [0..<length entries]]"
  let ?test = "\<lambda>(i, j, s). s \<in> set (reqnots_of (entries ! j))"
  let ?mk = "\<lambda>(i, j, s). \<lparr>ts_location = fst s, ts_protocol = fst (snd s), ts_state = snd (snd s), ts_entries = (t_name (entries ! i), t_name (entries ! j))\<rparr>"
  have k: "(\<lambda>w. (ts_location w, ts_protocol w, ts_state w)) (?mk c) = (\<lambda>(i, j, s). s) c" for c :: "nat \<times> nat \<times> triple" by (simp add: split_beta)
  have "(i, j, s) \<in> set ?cs \<longleftrightarrow> i < length entries \<and> j < length entries \<and> i \<noteq> j \<and> s \<in> set (sets_of (entries ! i))" for i j s
    unfolding set_off_diagonal by auto
  then have S: "{c \<in> set ?cs. ?test c} = {(i, j, s). i < length entries \<and> j < length entries \<and> i \<noteq> j \<and> s \<in> set (sets_of (entries ! i)) \<and> s \<in> set (reqnots_of (entries ! j))}"
    by (auto simp del: set_concat set_map)
  have K: "(\<lambda>(i, j, s). s) ` {c \<in> set ?cs. ?test c} =
      {s. \<exists>i j. i < length entries \<and> j < length entries \<and> i \<noteq> j \<and> s \<in> set (sets_of (entries ! i)) \<and> s \<in> set (reqnots_of (entries ! j))}"
    unfolding S by (auto simp: image_iff; blast)
  from report_new_exact [where wkey = "\<lambda>w. (ts_location w, ts_protocol w, ts_state w)" and test = ?test and cs = ?cs and key = "\<lambda>(i, j, s). s" and mk = ?mk,
      OF k, unfolded Let_def K]
  show ?thesis unfolding find_cross_entry_typestate_def by (simp add: distinct_map)
qed

end
