(* ===== verification/Conc_Weakmem.thy ===== *)
theory Conc_Weakmem
  imports Conc_Typestate
begin

text \<open>
  The operational weak-memory model of \<open>crates/verifier/src/interleave/weakmem.rs\<close>: store buffers per thread and location, writes that
  reach the views of the other threads one at a time, reordered reads, barriers, locks, spawn and join, and the bounded exploration
  of the reachable read observations. \<open>BTreeMap\<close>s are association lists sorted by key; value tags and read ids (\<open>u32\<close>) are natural
  numbers; the step texts of a schedule are kept.
\<close>

section \<open>Sorted maps\<close>

fun bt_insert :: "'k::linorder \<Rightarrow> 'v \<Rightarrow> ('k \<times> 'v) list \<Rightarrow> ('k \<times> 'v) list" where
  "bt_insert k v [] = [(k, v)]"
| "bt_insert k v ((k', v') # m) =
     (if k < k' then (k, v) # (k', v') # m else if k = k' then (k, v) # m else (k', v') # bt_insert k v m)"

definition bt_get :: "('k \<times> 'v) list \<Rightarrow> 'k \<Rightarrow> 'v option" where
  "bt_get m k = map_of m k"

lemma bt_get_simps [simp]: "bt_get [] k = None" "bt_get ((k', v) # m) k = (if k' = k then Some v else bt_get m k)"
  by (simp_all add: bt_get_def)

lemma bt_get_insert [simp]: "bt_get (bt_insert k v m) k' = (if k' = k then Some v else bt_get m k')"
  by (induction k v m rule: bt_insert.induct) auto

lemma bt_insert_set: "set (bt_insert k v m) \<subseteq> insert (k, v) (set m)"
  by (induction k v m rule: bt_insert.induct) auto

section \<open>Program and state\<close>

record pending_write =
  pd_writer :: nat
  pd_loc :: string
  pd_tag :: nat
  pd_delivered :: "bool list"

record op_state =
  consumed :: "bool list list"
  bufs :: "(string \<times> nat list) list list"
  views :: "(string \<times> nat) list list"
  in_flight :: "pending_write list"
  locks :: "string list list"
  started :: "bool list"
  obs :: "(nat \<times> nat) list"

record op_program =
  op_threads :: "thread list"
  write_tag :: "nat list list"
  read_id :: "nat list list"
  parent_of :: "nat option list"
  spawn_target :: "nat option list list"

definition U32_MAX :: nat where
  "U32_MAX = 2 ^ 32 - 1"

fun thread_index :: "thread list \<Rightarrow> string \<Rightarrow> nat option" where
  "thread_index [] n = None"
| "thread_index (t # ts) n = (if t_name t = n then Some 0 else map_option Suc (thread_index ts n))"

text \<open>The counters, the rows under construction and the parents while the events of a thread are numbered.\<close>

record numbering =
  nu_tag :: nat
  nu_read :: nat
  nu_wt :: "nat list"
  nu_rd :: "nat list"
  nu_sp :: "nat option list"
  nu_parents :: "nat option list"

definition number_event :: "thread list \<Rightarrow> nat \<Rightarrow> event \<Rightarrow> numbering \<Rightarrow> numbering" where
  "number_event threads ti e s =
     (let child = (case e of Spawn name \<Rightarrow> (case thread_index threads name of Some c \<Rightarrow> if c \<noteq> ti then Some c else None | None \<Rightarrow> None) | _ \<Rightarrow> None) in
      \<lparr>nu_tag = (if writes_to e \<noteq> None then nu_tag s + 1 else nu_tag s),
       nu_read = (if reads_from e \<noteq> None then nu_read s + 1 else nu_read s),
       nu_wt = nu_wt s @ [if writes_to e \<noteq> None then nu_tag s else 0],
       nu_rd = nu_rd s @ [if reads_from e \<noteq> None then nu_read s else U32_MAX],
       nu_sp = nu_sp s @ [child],
       nu_parents = (case child of Some c \<Rightarrow> (nu_parents s)[c := Some ti] | None \<Rightarrow> nu_parents s)\<rparr>)"

definition number_thread :: "thread list \<Rightarrow> nat \<Rightarrow> numbering \<times> op_program \<Rightarrow> numbering \<times> op_program" where
  "number_thread threads ti acc =
     (case acc of (s, p) \<Rightarrow>
        let s = fold (number_event threads ti) (t_events (threads ! ti)) (s\<lparr>nu_wt := [], nu_rd := [], nu_sp := []\<rparr>) in
        (s, p\<lparr>write_tag := write_tag p @ [nu_wt s], read_id := read_id p @ [nu_rd s], spawn_target := spawn_target p @ [nu_sp s],
              parent_of := nu_parents s\<rparr>))"

definition op_program_new :: "thread list \<Rightarrow> op_program" where
  "op_program_new threads =
     snd (fold (number_thread threads) [0..<length threads]
       (\<lparr>nu_tag = 1, nu_read = 0, nu_wt = [], nu_rd = [], nu_sp = [], nu_parents = replicate (length threads) None\<rparr>,
        \<lparr>op_threads = threads, write_tag = [], read_id = [], parent_of = replicate (length threads) None, spawn_target = []\<rparr>))"

definition op_init :: "op_program \<Rightarrow> op_state" where
  "op_init prog =
     (let n = length (op_threads prog) in
      \<lparr>consumed = map (\<lambda>t. replicate (length (t_events t)) False) (op_threads prog), bufs = replicate n [], views = replicate n [],
       in_flight = [], locks = replicate n [], started = map (\<lambda>t. parent_of prog ! t = None) [0..<n], obs = []\<rparr>)"

section \<open>Steps\<close>

fun plain_read :: "event \<Rightarrow> bool" where
  "plain_read (Read _) = True"
| "plain_read _ = False"

definition takeable :: "event list \<Rightarrow> bool list \<Rightarrow> nat \<Rightarrow> bool \<Rightarrow> bool" where
  "takeable events done i reorder \<longleftrightarrow>
     \<not> done ! i \<and> (\<forall>j<i. done ! j \<or> reads_from (events ! j) \<noteq> None \<and> reorder \<and> plain_read (events ! i))"

definition op_read :: "op_state \<Rightarrow> nat \<Rightarrow> string \<Rightarrow> nat" where
  "op_read st t x =
     (case bt_get (bufs st ! t) x of
        Some (b # bs) \<Rightarrow> last (b # bs)
      | _ \<Rightarrow> (case bt_get (views st ! t) x of Some v \<Rightarrow> v | None \<Rightarrow> 0))"

definition bufs_empty :: "op_state \<Rightarrow> nat \<Rightarrow> bool" where
  "bufs_empty st t \<longleftrightarrow> list_all (\<lambda>(_, b). b = []) (bufs st ! t)"

definition no_pending_from :: "op_state \<Rightarrow> nat \<Rightarrow> bool" where
  "no_pending_from st t \<longleftrightarrow> list_all (\<lambda>p. pd_writer p \<noteq> t) (in_flight st)"

definition no_pending_to :: "op_state \<Rightarrow> nat \<Rightarrow> bool" where
  "no_pending_to st t \<longleftrightarrow> list_all (\<lambda>p. pd_delivered p ! t) (in_flight st)"

type_synonym op_label = "nat \<times> string"

definition flush_step :: "nat \<Rightarrow> op_state \<Rightarrow> nat \<Rightarrow> string \<times> nat list \<Rightarrow> (op_state \<times> op_label) list" where
  "flush_step n st t entry =
     (case entry of
        (x, v # rest) \<Rightarrow>
          [(st\<lparr>bufs := (bufs st)[t := bt_insert x rest (bufs st ! t)], views := (views st)[t := bt_insert x v (views st ! t)],
               in_flight := in_flight st @ [\<lparr>pd_writer = t, pd_loc = x, pd_tag = v, pd_delivered = (replicate n False)[t := True]\<rparr>]\<rparr>,
            (t, ''flush '' @ x))]
      | (x, []) \<Rightarrow> [])"

definition flushes :: "nat \<Rightarrow> op_state \<Rightarrow> (op_state \<times> op_label) list" where
  "flushes n st = concat [flush_step n st t entry. t \<leftarrow> [0..<n], entry \<leftarrow> bufs st ! t]"

definition remove_nth :: "nat \<Rightarrow> 'a list \<Rightarrow> 'a list" where
  "remove_nth i xs = take i xs @ drop (Suc i) xs"

definition deliver_step :: "op_state \<Rightarrow> nat \<Rightarrow> nat \<Rightarrow> (op_state \<times> op_label) list" where
  "deliver_step st pi u =
     (let p = in_flight st ! pi in
      if pd_delivered p ! u then []
      else if list_ex (\<lambda>q. pd_writer q = pd_writer p \<and> pd_loc q = pd_loc p \<and> \<not> pd_delivered q ! u) (take pi (in_flight st)) then []
      else let p = p\<lparr>pd_delivered := (pd_delivered p)[u := True]\<rparr>;
               flight = (if list_all id (pd_delivered p) then remove_nth pi (in_flight st) else (in_flight st)[pi := p])
           in [(st\<lparr>views := (views st)[u := bt_insert (pd_loc p) (pd_tag p) (views st ! u)], in_flight := flight\<rparr>, (u, ''observe '' @ pd_loc p))])"

definition deliveries :: "nat \<Rightarrow> op_state \<Rightarrow> (op_state \<times> op_label) list" where
  "deliveries n st = concat [deliver_step st pi u. pi \<leftarrow> [0..<length (in_flight st)], u \<leftarrow> [0..<n]]"

text \<open>The effect of an event of a thread, or \<open>None\<close> while it is blocked.\<close>

definition drained :: "op_state \<Rightarrow> nat \<Rightarrow> bool" where
  "drained st t \<longleftrightarrow> bufs_empty st t \<and> no_pending_from st t"

definition write_effect :: "op_program \<Rightarrow> bool \<Rightarrow> op_state \<Rightarrow> nat \<Rightarrow> nat \<Rightarrow> string \<Rightarrow> op_state" where
  "write_effect prog weak st t i x =
     (let tag = write_tag prog ! t ! i in
      if weak then st\<lparr>bufs := (bufs st)[t := bt_insert x ((case bt_get (bufs st ! t) x of Some b \<Rightarrow> b | None \<Rightarrow> []) @ [tag]) (bufs st ! t)]\<rparr>
      else st\<lparr>views := map (bt_insert x tag) (views st)\<rparr>)"

definition read_effect :: "op_program \<Rightarrow> op_state \<Rightarrow> nat \<Rightarrow> nat \<Rightarrow> string \<Rightarrow> op_state \<times> string" where
  "read_effect prog st t i x =
     (let v = op_read st t x in (st\<lparr>obs := bt_insert (read_id prog ! t ! i) v (obs st)\<rparr>, ''read '' @ x @ '' -> '' @ show_nat v))"

definition event_effect :: "op_program \<Rightarrow> bool \<Rightarrow> op_state \<Rightarrow> nat \<Rightarrow> nat \<Rightarrow> event \<Rightarrow> (op_state \<times> string) option" where
  "event_effect prog weak st t i e =
     (let n = length (op_threads prog) in
      case e of
        Write x \<Rightarrow> Some (write_effect prog weak st t i x, ''write '' @ x)
      | Rmw x \<Rightarrow> Some (write_effect prog weak st t i x, ''write '' @ x)
      | Read x \<Rightarrow> Some (read_effect prog st t i x)
      | DepRead x \<Rightarrow> Some (read_effect prog st t i x)
      | Fence \<Rightarrow> if drained st t \<and> no_pending_to st t then Some (st, ''barrier'') else None
      | WFence \<Rightarrow> if drained st t then Some (st, ''barrier'') else None
      | RFence \<Rightarrow> Some (st, ''read-barrier'')
      | Free x \<Rightarrow> Some (st, ''free '' @ x)
      | Cas x \<Rightarrow> Some (st, ''cas '' @ x)
      | RefGet x \<Rightarrow> Some (st, ''ref-get '' @ x)
      | RefPut x \<Rightarrow> Some (st, ''ref-put '' @ x)
      | Typestate _ \<Rightarrow> Some (st, ''typestate'')
      | Spawn name \<Rightarrow>
          if drained st t
          then Some (case spawn_target prog ! t ! i of Some c \<Rightarrow> st\<lparr>started := (started st)[c := True]\<rparr> | None \<Rightarrow> st, ''spawn '' @ name)
          else None
      | Join \<Rightarrow>
          if list_all (\<lambda>c. list_all id (consumed st ! c) \<and> drained st c) (filter (\<lambda>c. parent_of prog ! c = Some t) [0..<n]) \<and> drained st t
          then Some (st, ''join'') else None
      | Acquire l \<Rightarrow>
          if list_ex (\<lambda>u. u \<noteq> t \<and> l \<in> set (locks st ! u)) [0..<n] \<or> \<not> drained st t then None
          else Some (st\<lparr>locks := (locks st)[t := locks st ! t @ [l]]\<rparr>, ''acquire '' @ l)
      | Release l \<Rightarrow>
          if drained st t then Some (st\<lparr>locks := (locks st)[t := filter (\<lambda>h. h \<noteq> l) (locks st ! t)]\<rparr>, ''release '' @ l) else None)"

definition thread_step :: "op_program \<Rightarrow> bool \<Rightarrow> op_state \<Rightarrow> nat \<Rightarrow> nat \<Rightarrow> (op_state \<times> op_label) list" where
  "thread_step prog weak st t i =
     (if \<not> takeable (t_events (op_threads prog ! t)) (consumed st ! t) i weak then []
      else case event_effect prog weak st t i (t_events (op_threads prog ! t) ! i) of
        None \<Rightarrow> []
      | Some (ns, step) \<Rightarrow> [(ns\<lparr>consumed := (consumed ns)[t := (consumed ns ! t)[i := True]]\<rparr>, (t, step))])"

definition thread_steps :: "op_program \<Rightarrow> bool \<Rightarrow> op_state \<Rightarrow> (op_state \<times> op_label) list" where
  "thread_steps prog weak st =
     concat [thread_step prog weak st t i. t \<leftarrow> filter (\<lambda>t. started st ! t) [0..<length (op_threads prog)],
       i \<leftarrow> [0..<length (t_events (op_threads prog ! t))]]"

definition op_succs :: "op_program \<Rightarrow> bool \<Rightarrow> op_state \<Rightarrow> (op_state \<times> op_label) list" where
  "op_succs prog weak st =
     (let n = length (op_threads prog) in
      (if weak then flushes n st @ deliveries n st else []) @ thread_steps prog weak st)"

definition op_done :: "op_program \<Rightarrow> op_state \<Rightarrow> bool" where
  "op_done prog st \<longleftrightarrow>
     list_all (\<lambda>t. list_all id (consumed st ! t) \<and> bufs_empty st t) [0..<length (op_threads prog)] \<and> in_flight st = []"

section \<open>Exploration\<close>

text \<open>
  The loop over the stack of states with their schedules, generic in the successor function. The result is the list of terminal
  observations, each with the first schedule that reached it, and the stack that was left when the budget ran out.
\<close>

primrec explore ::
  "('s \<Rightarrow> ('s \<times> 'l) list) \<Rightarrow> ('s \<Rightarrow> bool) \<Rightarrow> ('s \<Rightarrow> 'o) \<Rightarrow> nat \<Rightarrow> ('s \<times> 'l list) list \<Rightarrow> 's set \<Rightarrow> ('o \<times> 'l list) list \<Rightarrow>
     ('o \<times> 'l list) list \<times> ('s \<times> 'l list) list" where
  "explore succs final ob 0 stack visited out = (out, stack)"
| "explore succs final ob (Suc budget) stack visited out =
     (case stack of
        [] \<Rightarrow> (out, [])
      | (st, sched) # rest \<Rightarrow>
          if st \<in> visited then explore succs final ob budget rest visited out
          else if final st
          then explore succs final ob budget rest (insert st visited)
                 (if ob st \<in> fst ` set out then out else out @ [(ob st, sched)])
          else explore succs final ob budget (rev (map (\<lambda>(s, l). (s, sched @ [l])) (succs st)) @ rest) (insert st visited) out)"

definition op_search :: "op_program \<Rightarrow> bool \<Rightarrow> ((nat \<times> nat) list \<times> op_label list) list \<times> (op_state \<times> op_label list) list" where
  "op_search prog weak =
     explore (op_succs prog weak) (op_done prog) obs (search_budget (map (\<lambda>t. length (t_events t)) (op_threads prog)))
       [(op_init prog, [])] {} []"

definition op_reachable :: "op_program \<Rightarrow> bool \<Rightarrow> ((nat \<times> nat) list \<times> op_label list) list" where
  "op_reachable prog weak = fst (op_search prog weak)"

section \<open>What the exploration computes\<close>

inductive runs :: "('s \<Rightarrow> ('s \<times> 'l) list) \<Rightarrow> ('s \<Rightarrow> bool) \<Rightarrow> 's \<Rightarrow> 'l list \<Rightarrow> 's \<Rightarrow> bool" for succs final s where
  runs_Nil: "runs succs final s [] s"
| runs_snoc: "runs succs final s ls s' \<Longrightarrow> \<not> final s' \<Longrightarrow> (s'', l) \<in> set (succs s') \<Longrightarrow> runs succs final s (ls @ [l]) s''"

definition explore_inv ::
  "('s \<Rightarrow> ('s \<times> 'l) list) \<Rightarrow> ('s \<Rightarrow> bool) \<Rightarrow> ('s \<Rightarrow> 'o) \<Rightarrow> 's \<Rightarrow> ('s \<times> 'l list) list \<Rightarrow> 's set \<Rightarrow> ('o \<times> 'l list) list \<Rightarrow> bool" where
  "explore_inv succs final ob start stack visited out \<longleftrightarrow>
     (\<forall>(s, ls)\<in>set stack. runs succs final start ls s) \<and>
     (\<forall>(o', ls)\<in>set out. \<exists>s. runs succs final start ls s \<and> final s \<and> ob s = o') \<and>
     (\<forall>s\<in>visited. if final s then ob s \<in> fst ` set out else fst ` set (succs s) \<subseteq> visited \<union> fst ` set stack) \<and>
     start \<in> visited \<union> fst ` set stack \<and> distinct (map fst out)"

lemma explore_invD:
  assumes "explore_inv succs final ob start stack visited out"
  shows "s \<in> visited \<Longrightarrow> final s \<Longrightarrow> ob s \<in> fst ` set out"
    and "s \<in> visited \<Longrightarrow> \<not> final s \<Longrightarrow> fst ` set (succs s) \<subseteq> visited \<union> fst ` set stack"
  using assms unfolding explore_inv_def by metis+

lemma explore_inv_pop:
  assumes "explore_inv succs final ob start ((st, sched) # rest) visited out" and "st \<in> visited"
  shows "explore_inv succs final ob start rest visited out"
proof -
  have eq: "visited \<union> fst ` set ((st, sched) # rest) = visited \<union> fst ` set rest" using assms(2) by auto
  show ?thesis using assms(1) unfolding explore_inv_def eq by simp
qed

lemma explore_inv_final:
  assumes "explore_inv succs final ob start ((st, sched) # rest) visited out" and "final st"
  shows "explore_inv succs final ob start rest (insert st visited) (if ob st \<in> fst ` set out then out else out @ [(ob st, sched)])"
proof -
  have eq: "visited \<union> fst ` set ((st, sched) # rest) = insert st visited \<union> fst ` set rest" by auto
  let ?out = "if ob st \<in> fst ` set out then out else out @ [(ob st, sched)]"
  note I = assms(1) [unfolded explore_inv_def eq]
  have "fst ` set ?out = insert (ob st) (fst ` set out)" by auto
  then have "if final s then ob s \<in> fst ` set ?out else fst ` set (succs s) \<subseteq> insert st visited \<union> fst ` set rest" if "s \<in> insert st visited" for s
    using explore_invD [OF assms(1), unfolded eq, of s] assms(2) that by (cases "s = st") auto
  moreover have "\<forall>(o', ls)\<in>set ?out. \<exists>s. runs succs final start ls s \<and> final s \<and> ob s = o'" using I assms(2) by auto
  moreover have "distinct (map fst ?out)" using I by simp
  moreover have "start \<in> insert st visited \<union> fst ` set rest" "\<forall>(s, ls)\<in>set rest. runs succs final start ls s" using I by simp_all
  ultimately show ?thesis unfolding explore_inv_def by blast
qed

lemma explore_inv_expand:
  assumes "explore_inv succs final ob start ((st, sched) # rest) visited out" and "\<not> final st"
  shows "explore_inv succs final ob start (rev (map (\<lambda>(s, l). (s, sched @ [l])) (succs st)) @ rest) (insert st visited) out"
proof -
  have st: "runs succs final start sched st" using assms(1) by (simp add: explore_inv_def)
  have new: "fst ` set (rev (map (\<lambda>(s, l). (s, sched @ [l])) (succs st)) @ rest) = fst ` set (succs st) \<union> fst ` set rest" by force
  have "\<forall>(s, ls)\<in>set (rev (map (\<lambda>(s, l). (s, sched @ [l])) (succs st)) @ rest). runs succs final start ls s"
    using assms(1) runs_snoc [OF st assms(2)] unfolding explore_inv_def by auto
  moreover have "if final s then ob s \<in> fst ` set out else fst ` set (succs s) \<subseteq> insert st visited \<union> (fst ` set (succs st) \<union> fst ` set rest)"
    if "s \<in> insert st visited" for s using explore_invD [OF assms(1), of s] assms(2) that by (cases "s = st") auto
  moreover have "start \<in> insert st visited \<union> (fst ` set (succs st) \<union> fst ` set rest)" "distinct (map fst out)"
    "\<forall>(o', ls)\<in>set out. \<exists>s. runs succs final start ls s \<and> final s \<and> ob s = o'"
    using assms(1) unfolding explore_inv_def by auto
  ultimately show ?thesis unfolding explore_inv_def new by blast
qed

lemma explore_correct:
  assumes "explore_inv succs final ob start stack visited out" and "explore succs final ob budget stack visited out = (out', stack')"
  shows "\<exists>visited'. explore_inv succs final ob start stack' visited' out'"
  using assms
proof (induction budget arbitrary: stack visited out)
  case (Suc budget)
  show ?case
  proof (cases stack)
    case (Cons top rest)
    obtain st sched where top: "top = (st, sched)" by fastforce
    note I = Suc.prems(1) [unfolded Cons top]
    consider "st \<in> visited" | "st \<notin> visited" "final st" | "st \<notin> visited" "\<not> final st" by blast
    then show ?thesis
    proof cases
      case 1
      then show ?thesis using Suc.IH [OF explore_inv_pop [OF I 1]] Suc.prems(2) by (simp add: Cons top)
    next
      case 2
      then show ?thesis using Suc.IH [OF explore_inv_final [OF I 2(2)]] Suc.prems(2) by (simp add: Cons top)
    next
      case 3
      then show ?thesis using Suc.IH [OF explore_inv_expand [OF I 3(2)]] Suc.prems(2) by (simp add: Cons top)
    qed
  qed (use Suc.prems in auto)
qed auto

lemma explore_complete:
  assumes "explore_inv succs final ob start [] visited out" and "runs succs final start ls s"
  shows "s \<in> visited"
  using assms(2)
proof (induction rule: runs.induct)
  case runs_Nil
  then show ?case using assms(1) by (simp add: explore_inv_def)
next
  case (runs_snoc ls s' s'' l)
  then have "fst ` set (succs s') \<subseteq> visited" using explore_invD(2) [OF assms(1), of s'] by auto
  then show ?case using runs_snoc.hyps(3) by force
qed

lemma explore_result:
  assumes "explore succs final ob budget [(start, [])] {} [] = (out, stack)"
  shows "(o', ls) \<in> set out \<Longrightarrow> \<exists>s. runs succs final start ls s \<and> final s \<and> ob s = o'"
    and "stack = [] \<Longrightarrow> fst ` set out = {ob s | ls s. runs succs final start ls s \<and> final s}"
    and "distinct (map fst out)"
proof -
  have "explore_inv succs final ob start [(start, [])] {} []" by (simp add: explore_inv_def runs_Nil)
  from explore_correct [OF this assms] obtain visited where I: "explore_inv succs final ob start stack visited out" by blast
  show sound: "(o', ls) \<in> set out \<Longrightarrow> \<exists>s. runs succs final start ls s \<and> final s \<and> ob s = o'" for o' ls
    using I unfolding explore_inv_def by auto
  show "distinct (map fst out)" using I by (simp add: explore_inv_def)
  show "fst ` set out = {ob s | ls s. runs succs final start ls s \<and> final s}" if "stack = []"
  proof (intro equalityI subsetI)
    fix o' assume "o' \<in> fst ` set out"
    then show "o' \<in> {ob s | ls s. runs succs final start ls s \<and> final s}" using sound by force
  next
    fix o' assume "o' \<in> {ob s | ls s. runs succs final start ls s \<and> final s}"
    then obtain ls s where s: "o' = ob s" "runs succs final start ls s" "final s" by blast
    have "s \<in> visited" using explore_complete [OF I [unfolded that] s(2)] .
    then show "o' \<in> fst ` set out" using explore_invD(1) [OF I] s(1,3) by blast
  qed
qed

text \<open>The observations a program can make, under sequential consistency and under the weak model.\<close>

definition op_runs :: "op_program \<Rightarrow> bool \<Rightarrow> op_label list \<Rightarrow> op_state \<Rightarrow> bool" where
  "op_runs prog weak ls s \<longleftrightarrow> runs (op_succs prog weak) (op_done prog) (op_init prog) ls s"

definition observable :: "op_program \<Rightarrow> bool \<Rightarrow> (nat \<times> nat) list set" where
  "observable prog weak = {obs s | ls s. op_runs prog weak ls s \<and> op_done prog s}"

definition search_finished :: "op_program \<Rightarrow> bool \<Rightarrow> bool" where
  "search_finished prog weak \<longleftrightarrow> snd (op_search prog weak) = []"

lemma op_reachable_sound:
  "(o', ls) \<in> set (op_reachable prog weak) \<Longrightarrow> \<exists>s. op_runs prog weak ls s \<and> op_done prog s \<and> obs s = o'"
  using explore_result(1) [OF op_search_def [symmetric, THEN trans, OF surjective_pairing]] unfolding op_reachable_def op_runs_def .

lemma op_reachable_complete: "search_finished prog weak \<Longrightarrow> fst ` set (op_reachable prog weak) = observable prog weak"
  using explore_result(2) [OF op_search_def [symmetric, THEN trans, OF surjective_pairing]]
  unfolding op_reachable_def op_runs_def search_finished_def observable_def .

end
