(* ===== verification/Conc_Robust.thy ===== *)
theory Conc_Robust
  imports Conc_Weakmem
begin

text \<open>
  The two modes of the operational model compared: every observation of a sequentially consistent run is an observation of the weak
  model. A consistent write is simulated by buffering it, flushing it and delivering it to every other thread at once.
\<close>

section \<open>Simulation\<close>

text \<open>A weak state with nothing in flight and drained buffers, in which every thread sees what the consistent state shows.\<close>

definition empty_bufs :: "nat \<Rightarrow> (string \<times> nat list) list list \<Rightarrow> bool" where
  "empty_bufs n bs \<longleftrightarrow> length bs = n \<and> (\<forall>b\<in>set bs. \<forall>e\<in>set b. snd e = [])"

definition settled :: "nat \<Rightarrow> op_state \<Rightarrow> bool" where
  "settled n s \<longleftrightarrow> empty_bufs n (bufs s) \<and> in_flight s = [] \<and> length (views s) = n"

definition simulates :: "nat \<Rightarrow> op_state \<Rightarrow> op_state \<Rightarrow> bool" where
  "simulates n s w \<longleftrightarrow> settled n s \<and> settled n w \<and> w = s\<lparr>bufs := bufs w\<rparr>"

lemma simulatesD:
  assumes "simulates n s w"
  shows "in_flight s = []" "in_flight w = []" "views w = views s" "consumed w = consumed s" "locks w = locks s" "started w = started s" "obs w = obs s"
proof -
  have w: "w = s\<lparr>bufs := bufs w\<rparr>" using assms by (simp add: simulates_def)
  show "in_flight s = []" "in_flight w = []" using assms by (simp_all add: simulates_def settled_def)
  show "views w = views s" "consumed w = consumed s" "locks w = locks s" "started w = started s" "obs w = obs s"
    by (subst w, simp)+
qed

lemma settled_bufs_empty: "settled n s \<Longrightarrow> t < n \<Longrightarrow> bufs_empty s t"
  unfolding settled_def empty_bufs_def bufs_empty_def list_all_iff by fastforce

lemma settled_drained: "settled n s \<Longrightarrow> t < n \<Longrightarrow> drained s t"
  by (simp add: drained_def settled_bufs_empty) (simp add: settled_def no_pending_from_def)

lemma empty_buf_get:
  assumes "empty_bufs n bs" and "t < n"
  shows "bt_get (bs ! t) x = None \<or> bt_get (bs ! t) x = Some []"
proof (cases "bt_get (bs ! t) x")
  case (Some b)
  then have "(x, b) \<in> set (bs ! t)" by (simp add: bt_get_def map_of_SomeD)
  moreover have "bs ! t \<in> set bs" using assms by (simp add: empty_bufs_def)
  ultimately have "b = []" using assms(1) unfolding empty_bufs_def by fastforce
  with Some show ?thesis by simp
qed simp

lemma settled_read:
  assumes "settled n s" and "t < n"
  shows "op_read s t x = (case bt_get (views s ! t) x of Some v \<Rightarrow> v | None \<Rightarrow> 0)"
  using empty_buf_get [of n "bufs s" t x] assms unfolding op_read_def settled_def by auto

lemma simulates_read: "simulates n s w \<Longrightarrow> t < n \<Longrightarrow> op_read w t x = op_read s t x"
  using settled_read [of n s t x] settled_read [of n w t x] simulatesD(3) [of n s w] unfolding simulates_def by metis

lemma empty_bufs_update:
  assumes "empty_bufs n bs" and "t < n"
  shows "empty_bufs n (bs[t := bt_insert x [] (bs ! t)])"
proof -
  have "snd e = []" if "e \<in> set (bt_insert x [] (bs ! t))" for e
    using that bt_insert_set [of x "[]" "bs ! t"] assms unfolding empty_bufs_def by fastforce
  then show ?thesis using assms set_update_subset_insert [of bs t] unfolding empty_bufs_def by fastforce
qed

lemma settled_done: "settled n s \<Longrightarrow> n = length (op_threads prog) \<Longrightarrow> op_done prog s \<longleftrightarrow> (\<forall>t<n. list_all id (consumed s ! t))"
  using settled_bufs_empty [of n s] unfolding op_done_def list_all_iff [of _ "[0..<_]"] by (auto simp: settled_def)

lemma simulates_done: "simulates n s w \<Longrightarrow> n = length (op_threads prog) \<Longrightarrow> op_done prog w = op_done prog s"
  using settled_done [of n s prog] settled_done [of n w prog] simulatesD(4) [of n s w] unfolding simulates_def by metis

section \<open>Steps other than writes\<close>

lemma takeable_weak: "takeable es d i False \<Longrightarrow> takeable es d i True"
  unfolding takeable_def by blast

lemma effect_simulated:
  assumes sim: "simulates n s w" and n: "n = length (op_threads prog)" and t: "t < n" and e: "writes_to e = None"
    and eff: "event_effect prog False s t i e = Some (s', l)"
  shows "event_effect prog True w t i e = Some (s'\<lparr>bufs := bufs w\<rparr>, l)" and "bufs s' = bufs s" "in_flight s' = in_flight s" "views s' = views s"
proof -
  have s: "settled n s" "settled n w" and w: "w = s\<lparr>bufs := bufs w\<rparr>" using sim by (simp_all add: simulates_def)
  have d: "drained s u" "drained w u" if "u < n" for u using settled_drained s that by blast+
  have p: "no_pending_to s u" "no_pending_to w u" for u using simulatesD(1,2) [OF sim] by (simp_all add: no_pending_to_def)
  have "in_flight w = in_flight s" using simulatesD(1,2) [OF sim] by simp
  note eqs = this simulatesD(3-7) [OF sim]
  show "bufs s' = bufs s" "in_flight s' = in_flight s" "views s' = views s"
    using eff e t unfolding event_effect_def Let_def by (cases e; auto simp: read_effect_def Let_def split: if_splits option.splits)+
  have w2: "s\<lparr>bufs := bufs w\<rparr> = w" using w by simp
  show "event_effect prog True w t i e = Some (s'\<lparr>bufs := bufs w\<rparr>, l)"
  proof (cases e)
    case (Read x)
    then show ?thesis using eff simulates_read [OF sim t, of x] eqs
      by (auto simp: event_effect_def read_effect_def Let_def intro!: op_state.equality)
  next
    case (DepRead x)
    then show ?thesis using eff simulates_read [OF sim t, of x] eqs
      by (auto simp: event_effect_def read_effect_def Let_def intro!: op_state.equality)
  next
    case (Join)
    then show ?thesis using eff d t n eqs w2 by (auto simp: event_effect_def Let_def list_all_iff split: if_splits)
  next
    case (Acquire l)
    then show ?thesis using eff d [OF t] eqs n by (auto simp: event_effect_def Let_def split: if_splits intro!: op_state.equality)
  next
    case (Release l)
    then show ?thesis using eff d [OF t] eqs by (auto simp: event_effect_def Let_def intro!: op_state.equality)
  next
    case (Spawn c)
    then show ?thesis using eff d [OF t] eqs w2 by (auto simp: event_effect_def Let_def split: option.splits intro!: op_state.equality)
  qed (use eff d [OF t] p [of t] e w2 in \<open>auto simp: event_effect_def Let_def\<close>)
qed

section \<open>Writes\<close>

text \<open>
  After a flush of the only pending write of thread \<open>t\<close>: the threads below \<open>k\<close> and \<open>t\<close> itself have seen it.
\<close>

definition delivered_upto :: "nat \<Rightarrow> nat \<Rightarrow> nat \<Rightarrow> bool list" where
  "delivered_upto n t k = map (\<lambda>u. u < k \<or> u = t) [0..<n]"

definition spreading :: "nat \<Rightarrow> op_state \<Rightarrow> nat \<Rightarrow> string \<Rightarrow> nat \<Rightarrow> nat \<Rightarrow> op_state" where
  "spreading n w t x v k =
     w\<lparr>views := map (\<lambda>u. if u < k \<or> u = t then bt_insert x v (views w ! u) else views w ! u) [0..<n],
       in_flight := (if list_all id (delivered_upto n t k) then []
                     else [\<lparr>pd_writer = t, pd_loc = x, pd_tag = v, pd_delivered = delivered_upto n t k\<rparr>])\<rparr>"

lemma delivered_upto_nth [simp]: "u < n \<Longrightarrow> delivered_upto n t k ! u \<longleftrightarrow> u < k \<or> u = t"
  by (simp add: delivered_upto_def)

lemma delivered_upto_Suc: "k < n \<Longrightarrow> (delivered_upto n t k)[k := True] = delivered_upto n t (Suc k)"
  by (rule nth_equalityI) (auto simp: delivered_upto_def nth_list_update)

lemma not_all_delivered: "k < n \<Longrightarrow> k \<noteq> t \<Longrightarrow> \<not> list_all id (delivered_upto n t k)"
  unfolding list_all_length by (intro notI) (auto dest!: spec [of _ k] simp: delivered_upto_def)

lemma spreading_deliver:
  assumes "k < n" and "k \<noteq> t"
  shows "(spreading n w t x v (Suc k), (k, ''observe '' @ x)) \<in> set (deliveries n (spreading n w t x v k))"
proof -
  let ?s = "spreading n w t x v k"
  have fl: "in_flight ?s = [\<lparr>pd_writer = t, pd_loc = x, pd_tag = v, pd_delivered = delivered_upto n t k\<rparr>]"
    using not_all_delivered [OF assms] by (simp add: spreading_def)
  have vs: "(views ?s)[k := bt_insert x v (views ?s ! k)] = views (spreading n w t x v (Suc k))"
    using assms by (intro nth_equalityI) (auto simp: spreading_def nth_list_update less_Suc_eq)
  have "deliver_step ?s 0 k = [(spreading n w t x v (Suc k), (k, ''observe '' @ x))]"
    using assms vs by (simp add: deliver_step_def fl Let_def delivered_upto_Suc remove_nth_def) (auto simp: spreading_def)
  then show ?thesis using assms(1) by (auto simp: deliveries_def fl intro!: bexI [of _ k])
qed

lemma spreading_skip: "spreading n w t x v (Suc t) = spreading n w t x v t"
proof -
  have "delivered_upto n t (Suc t) = delivered_upto n t t" by (auto simp: delivered_upto_def)
  moreover have "(u < Suc t \<or> u = t) = (u < t \<or> u = t)" for u by auto
  ultimately show ?thesis unfolding spreading_def by simp
qed

lemma runs_weak_step:
  assumes "op_runs prog True ls w" and "\<not> op_done prog w" and "(w', l) \<in> set (op_succs prog True w)"
  shows "op_runs prog True (ls @ [l]) w'"
  using assms unfolding op_runs_def by (rule runs_snoc)

lemma spreading_runs:
  assumes "op_runs prog True ls (spreading n w t x v 0)" and "n = length (op_threads prog)" and "k \<le> n"
  shows "\<exists>ls. op_runs prog True ls (spreading n w t x v k)"
  using assms(3)
proof (induction k)
  case (Suc k)
  then obtain ls where ls: "op_runs prog True ls (spreading n w t x v k)" by auto
  show ?case
  proof (cases "k = t")
    case True
    then show ?thesis using ls spreading_skip [of n w t x v] by auto
  next
    case False
    have "\<not> op_done prog (spreading n w t x v k)"
      using not_all_delivered [of k n t] Suc.prems False by (simp add: op_done_def spreading_def)
    moreover have "(spreading n w t x v (Suc k), (k, ''observe '' @ x)) \<in> set (op_succs prog True (spreading n w t x v k))"
      using spreading_deliver [of k n t w x v] Suc.prems False assms(2) by (auto simp: op_succs_def Let_def)
    ultimately show ?thesis using runs_weak_step [OF ls] by blast
  qed
qed (use assms(1) in auto)

lemma spreading_all:
  "length (views w) = n \<Longrightarrow> in_flight w = [] \<Longrightarrow> spreading n w t x v n = w\<lparr>views := map (bt_insert x v) (views w)\<rparr>"
  by (auto simp: spreading_def delivered_upto_def list_all_iff intro!: op_state.equality nth_equalityI)

lemma bt_insert_mem: "(k, v) \<in> set (bt_insert k v m)"
  by (induction k v m rule: bt_insert.induct) auto

lemma bt_insert_twice: "bt_insert k v (bt_insert k v' m) = bt_insert k v m"
  by (induction k v' m rule: bt_insert.induct) auto

lemma flush_spreads:
  assumes "2 \<le> n" and "t < n" and "length (bufs w) = n" and "length (views w) = n" and "in_flight w = []"
  shows "(spreading n (w\<lparr>bufs := (bufs w)[t := bt_insert x [] (bufs w ! t)]\<rparr>) t x v 0, (t, ''flush '' @ x))
    \<in> set (flushes n (w\<lparr>bufs := (bufs w)[t := bt_insert x [v] (bufs w ! t)]\<rparr>))"
proof -
  let ?w = "w\<lparr>bufs := (bufs w)[t := bt_insert x [v] (bufs w ! t)]\<rparr>"
  obtain u where u: "u < n" "u \<noteq> t" using assms(1) by (metis One_nat_def Suc_1 Suc_le_lessD less_le_trans nat_neq_iff zero_less_Suc)
  have nall: "\<not> list_all id (delivered_upto n t 0)"
    unfolding list_all_length using u by (intro notI) (auto dest!: spec [of _ u] simp: delivered_upto_def)
  have del: "(replicate n False)[t := True] = delivered_upto n t 0"
    using assms(2) by (intro nth_equalityI) (auto simp: delivered_upto_def nth_list_update)
  have vs: "(views w)[t := bt_insert x v (views w ! t)] = map (\<lambda>u. if u < 0 \<or> u = t then bt_insert x v (views w ! u) else views w ! u) [0..<n]"
    using assms(4) by (intro nth_equalityI) (auto simp: nth_list_update)
  have "flush_step n ?w t (x, [v]) = [(spreading n (w\<lparr>bufs := (bufs w)[t := bt_insert x [] (bufs w ! t)]\<rparr>) t x v 0, (t, ''flush '' @ x))]"
    using assms nall vs by (simp add: flush_step_def spreading_def bt_insert_twice del)
  moreover have "(x, [v]) \<in> set (bufs ?w ! t)" using assms(2,3) bt_insert_mem [of x "[v]" "bufs w ! t"] by simp
  ultimately show ?thesis using assms(2) by (auto simp: flushes_def intro!: bexI [of _ t] bexI [of _ "(x, [v])"])
qed

section \<open>Every consistent run is a weak run\<close>

definition mark_consumed :: "nat \<Rightarrow> nat \<Rightarrow> op_state \<Rightarrow> op_state" where
  "mark_consumed t i s = s\<lparr>consumed := (consumed s)[t := (consumed s ! t)[i := True]]\<rparr>"

lemma thread_steps_iff:
  "(s', t', step) \<in> set (thread_steps prog weak s) \<longleftrightarrow>
     (\<exists>i ns. t' < length (op_threads prog) \<and> started s ! t' \<and> i < length (t_events (op_threads prog ! t')) \<and>
        takeable (t_events (op_threads prog ! t')) (consumed s ! t') i weak \<and>
        event_effect prog weak s t' i (t_events (op_threads prog ! t') ! i) = Some (ns, step) \<and> s' = mark_consumed t' i ns)"
proof -
  have one: "(s', t', step) \<in> set (thread_step prog weak s t i) \<longleftrightarrow> t' = t \<and> takeable (t_events (op_threads prog ! t)) (consumed s ! t) i weak \<and>
      (\<exists>ns. event_effect prog weak s t i (t_events (op_threads prog ! t) ! i) = Some (ns, step) \<and> s' = mark_consumed t i ns)" for t i
    unfolding thread_step_def mark_consumed_def by (cases "event_effect prog weak s t i (t_events (op_threads prog ! t) ! i)") auto
  have "(s', t', step) \<in> set (thread_steps prog weak s) \<longleftrightarrow>
      (\<exists>t<length (op_threads prog). started s ! t \<and> (\<exists>i<length (t_events (op_threads prog ! t)). (s', t', step) \<in> set (thread_step prog weak s t i)))"
    unfolding thread_steps_def by (simp del: if_image_distrib add: Bex_def conj_assoc)
  then show ?thesis unfolding one by blast
qed

lemma write_simulated:
  assumes sim: "simulates n s w" and n: "n = length (op_threads prog)" "2 \<le> n" and runs: "op_runs prog True ls w" and t: "t < n" "started s ! t"
    and i: "i < length (t_events (op_threads prog ! t))" "takeable (t_events (op_threads prog ! t)) (consumed s ! t) i False"
    and x: "writes_to (t_events (op_threads prog ! t) ! i) = Some x" and nd: "\<not> op_done prog s"
  shows "\<exists>ls' w'. op_runs prog True ls' w' \<and> simulates n (mark_consumed t i (write_effect prog False s t i x)) w'"
proof -
  let ?v = "write_tag prog ! t ! i"
  let ?w = "mark_consumed t i w"
  let ?buf = "\<lambda>b. ?w\<lparr>bufs := (bufs ?w)[t := bt_insert x b (bufs ?w ! t)]\<rparr>"
  have sw: "settled n w" "settled n s" using sim by (simp_all add: simulates_def)
  note eqs = simulatesD [OF sim]
  have ev: "event_effect prog True w t i (t_events (op_threads prog ! t) ! i) = Some (write_effect prog True w t i x, ''write '' @ x)"
    using x by (cases "t_events (op_threads prog ! t) ! i") (simp_all add: event_effect_def)
  have wr: "mark_consumed t i (write_effect prog True w t i x) = ?buf [?v]"
    using empty_buf_get [of n "bufs w" t x] sw(1) t(1) by (auto simp: settled_def write_effect_def mark_consumed_def Let_def)
  have "(?buf [?v], t, ''write '' @ x) \<in> set (thread_steps prog True w)"
    unfolding thread_steps_iff using t i takeable_weak [OF i(2)] ev wr n(1) eqs by (intro exI [of _ i] exI [of _ "write_effect prog True w t i x"]) simp
  then have "(?buf [?v], t, ''write '' @ x) \<in> set (op_succs prog True w)" by (simp add: op_succs_def Let_def)
  from runs_weak_step [OF runs _ this] have r1: "op_runs prog True (ls @ [(t, ''write '' @ x)]) (?buf [?v])"
    using nd simulates_done [OF sim n(1)] by simp
  have len: "length (bufs ?w) = n" "length (views ?w) = n" "in_flight ?w = []" using sw(1) by (simp_all add: settled_def empty_bufs_def mark_consumed_def)
  have "(x, [?v]) \<in> set (bufs (?buf [?v]) ! t)" using len t bt_insert_mem by simp
  then have "\<not> bufs_empty (?buf [?v]) t" unfolding bufs_empty_def list_all_iff by blast
  then have "\<not> op_done prog (?buf [?v])" using t(1) n(1) unfolding op_done_def list_all_iff [of _ "[0..<_]"] by auto
  moreover have "set (flushes n (?buf [?v])) \<subseteq> set (op_succs prog True (?buf [?v]))" by (simp add: op_succs_def n(1) Let_def)
  ultimately have "\<exists>ls. op_runs prog True ls (spreading n (?buf []) t x ?v 0)"
    using runs_weak_step [OF r1] flush_spreads [OF n(2) t(1) len, of x ?v] by blast
  then obtain ls' where "op_runs prog True ls' (spreading n (?buf []) t x ?v n)" using spreading_runs [OF _ n(1) order_refl] by blast
  then have r2: "op_runs prog True ls' (?buf []\<lparr>views := map (bt_insert x ?v) (views ?w)\<rparr>)"
    using spreading_all [of "?buf []" n t x ?v] len by simp
  moreover have "simulates n (mark_consumed t i (write_effect prog False s t i x)) (?buf []\<lparr>views := map (bt_insert x ?v) (views ?w)\<rparr>)"
    using sw empty_bufs_update [of n "bufs w" t x] t(1) eqs
    by (auto simp: simulates_def settled_def mark_consumed_def write_effect_def Let_def intro!: op_state.equality)
  ultimately show ?thesis by blast
qed

lemma step_simulated:
  assumes sim: "simulates n s w" and n: "n = length (op_threads prog)" "2 \<le> n" and runs: "op_runs prog True ls w"
    and step: "(s', l) \<in> set (op_succs prog False s)" and nd: "\<not> op_done prog s"
  shows "\<exists>ls' w'. op_runs prog True ls' w' \<and> simulates n s' w'"
proof -
  obtain t descr where l: "l = (t, descr)" by fastforce
  let ?es = "t_events (op_threads prog ! t)"
  have "(s', t, descr) \<in> set (thread_steps prog False s)" using step l by (simp add: op_succs_def Let_def)
  then obtain i ns where t: "t < n" "started s ! t" and i: "i < length ?es" "takeable ?es (consumed s ! t) i False"
    and eff: "event_effect prog False s t i (?es ! i) = Some (ns, descr)" and s': "s' = mark_consumed t i ns"
    unfolding thread_steps_iff using n(1) by blast
  show ?thesis
  proof (cases "writes_to (?es ! i)")
    case (Some x)
    then have "ns = write_effect prog False s t i x" using eff by (cases "?es ! i") (auto simp: event_effect_def)
    then show ?thesis using write_simulated [OF sim n runs t i Some nd] s' by simp
  next
    case None
    note e = effect_simulated [OF sim n(1) t(1) None eff]
    let ?w = "mark_consumed t i (ns\<lparr>bufs := bufs w\<rparr>)"
    have "(?w, t, descr) \<in> set (thread_steps prog True w)"
      unfolding thread_steps_iff using t i takeable_weak [OF i(2)] e(1) n(1) simulatesD [OF sim] by auto
    then have "(?w, l) \<in> set (op_succs prog True w)" by (simp add: op_succs_def Let_def l)
    then have "op_runs prog True (ls @ [l]) ?w" using runs_weak_step [OF runs] nd simulates_done [OF sim n(1)] by blast
    moreover have "simulates n s' ?w" using sim e(2-4) by (auto simp: s' simulates_def settled_def mark_consumed_def)
    ultimately show ?thesis by blast
  qed
qed

lemma run_simulated:
  assumes "runs (op_succs prog False) (op_done prog) (op_init prog) ls s" and n: "n = length (op_threads prog)" "2 \<le> n"
  shows "\<exists>ls' w. op_runs prog True ls' w \<and> simulates n s w"
  using assms(1)
proof (induction rule: runs.induct)
  case runs_Nil
  have "op_runs prog True [] (op_init prog)" unfolding op_runs_def by (rule runs.runs_Nil)
  moreover have "simulates n (op_init prog) (op_init prog)" by (auto simp: simulates_def settled_def empty_bufs_def op_init_def Let_def n(1))
  ultimately show ?case by blast
next
  case (runs_snoc ls s' s'' l)
  then show ?case using step_simulated [OF _ n] by blast
qed

lemma consistent_observable_weak:
  assumes "2 \<le> length (op_threads prog)"
  shows "observable prog False \<subseteq> observable prog True"
proof
  fix ob assume "ob \<in> observable prog False"
  then obtain ls s where s: "ob = obs s" "op_runs prog False ls s" "op_done prog s" unfolding observable_def by blast
  obtain ls' w where w: "op_runs prog True ls' w" "simulates (length (op_threads prog)) s w"
    using run_simulated [OF s(2) [unfolded op_runs_def] refl assms] by blast
  have "op_done prog w" "obs w = ob" using simulates_done [OF w(2) refl] simulatesD(7) [OF w(2)] s by simp_all
  then show "ob \<in> observable prog True" unfolding observable_def using w(1) by blast
qed

end
