(* ===== verification/Conc_Weakcheck.thy ===== *)
theory Conc_Weakcheck
  imports Conc_Robust Conc_Atomicity
begin

text \<open>
  The weak-memory check of \<open>crates/verifier/src/interleave/weakmem_check.rs\<close>: the comparison of the weak and the consistent
  observations of a set of threads, the reorder windows, the union-find over threads that share a written location, and the
  whole-program search. The iteration order of the \<open>HashMap\<close> of weak observations is the parameter \<open>iter\<close>. Exhausted loops of the
  union-find would be \<open>None\<close>; they always end.
\<close>

section \<open>Comparison of the two models\<close>

record weak_memory_witness =
  wm_threads :: "string list"
  wm_description :: string
  wm_schedule :: "(string \<times> string) list"

definition weak_description :: string where
  "weak_description = ''a read observes a value no sequentially-consistent execution allows (missing memory barrier)''"

type_synonym op_outcome = "(nat \<times> nat) list \<times> op_label list"

definition weak_memory_nonrobustness :: "(op_outcome list \<Rightarrow> op_outcome list) \<Rightarrow> thread list \<Rightarrow> weak_memory_witness option" where
  "weak_memory_nonrobustness iter threads =
     (if length threads < 2 then None
      else let prog = op_program_new threads;
               sc = op_reachable prog False;
               weak = op_reachable prog True;
               names = map t_name threads
           in case List.find (\<lambda>(o', _). o' \<notin> fst ` set sc) (iter weak) of
                None \<Rightarrow> None
              | Some (_, sched) \<Rightarrow>
                  Some \<lparr>wm_threads = names, wm_description = weak_description, wm_schedule = map (\<lambda>(t, s). (names ! t, s)) sched\<rparr>)"

section \<open>Reorder windows\<close>

primrec scan_back :: "(event \<Rightarrow> bool) \<Rightarrow> (event \<Rightarrow> bool) \<Rightarrow> event list \<Rightarrow> bool" where
  "scan_back stop hit [] = False"
| "scan_back stop hit (e # es) = (if stop e then False else if hit e then True else scan_back stop hit es)"

fun is_full :: "event \<Rightarrow> bool" where
  "is_full Fence = True"
| "is_full (Acquire _) = True"
| "is_full (Release _) = True"
| "is_full Join = True"
| "is_full (Spawn _) = True"
| "is_full _ = False"

definition writes_other :: "string \<Rightarrow> event \<Rightarrow> bool" where
  "writes_other y e \<longleftrightarrow> (case writes_to e of Some x \<Rightarrow> x \<noteq> y | None \<Rightarrow> False)"

definition reads_other :: "string \<Rightarrow> event \<Rightarrow> bool" where
  "reads_other y e \<longleftrightarrow> (case reads_from e of Some x \<Rightarrow> x \<noteq> y | None \<Rightarrow> False)"

definition window_at :: "event list \<Rightarrow> nat \<Rightarrow> bool" where
  "window_at ev q =
     (let before = rev (take q ev) in
      case writes_to (ev ! q) of
        Some y \<Rightarrow> scan_back (\<lambda>e. is_full e \<or> e = WFence) (writes_other y) before
      | None \<Rightarrow>
          (case reads_from (ev ! q) of
             Some y \<Rightarrow> scan_back is_full (writes_other y) before \<or>
                       plain_read (ev ! q) \<and> scan_back (\<lambda>e. is_full e \<or> e = RFence) (reads_other y) before
           | None \<Rightarrow> False))"

definition has_reorder_window :: "thread \<Rightarrow> bool" where
  "has_reorder_window t = list_ex (window_at (t_events t)) [0..<length (t_events t)]"

section \<open>Groups of threads\<close>

partial_function (option) find_root :: "nat list \<Rightarrow> nat \<Rightarrow> nat option" where
  "find_root parent r = (if parent ! r = r then Some r else find_root parent (parent ! r))"

partial_function (option) compress :: "nat list \<Rightarrow> nat \<Rightarrow> nat \<Rightarrow> nat list option" where
  "compress parent r c = (if parent ! c = r then Some parent else compress (parent[c := r]) r (parent ! c))"

declare find_root.simps [code] compress.simps [code]

definition uf_find :: "nat list \<Rightarrow> nat \<Rightarrow> (nat \<times> nat list) option" where
  "uf_find parent x =
     Option.bind (find_root parent x) (\<lambda>r. Option.bind (compress parent r x) (\<lambda>parent. Some (r, parent)))"

definition uf_union :: "nat \<Rightarrow> nat \<Rightarrow> nat list \<Rightarrow> nat list option" where
  "uf_union i j parent =
     Option.bind (uf_find parent i) (\<lambda>(ri, parent).
     Option.bind (uf_find parent j) (\<lambda>(rj, parent).
     Some (if ri \<noteq> rj then parent[ri := rj] else parent)))"

primrec fold_option :: "('a \<Rightarrow> 's \<Rightarrow> 's option) \<Rightarrow> 'a list \<Rightarrow> 's \<Rightarrow> 's option" where
  "fold_option f [] s = Some s"
| "fold_option f (x # xs) s = Option.bind (f x s) (fold_option f xs)"

definition union_shared :: "thread list \<Rightarrow> nat list option" where
  "union_shared threads =
     (let n = length threads in
      fold_option (\<lambda>(i, j) parent. if shares_write (threads ! i) (threads ! j) then uf_union i j parent else Some parent)
        (concat (map (\<lambda>i. map (Pair i) [Suc i..<n]) [0..<n])) [0..<n])"

type_synonym group_table = "(nat \<times> nat list) list"

definition add_member :: "nat \<Rightarrow> nat list \<times> group_table \<Rightarrow> (nat list \<times> group_table) option" where
  "add_member i acc =
     (case acc of (parent, groups) \<Rightarrow>
        Option.bind (uf_find parent i) (\<lambda>(r, parent).
          Some (parent, bt_insert r ((case bt_get groups r of Some g \<Rightarrow> g | None \<Rightarrow> []) @ [i]) groups)))"

definition thread_groups :: "thread list \<Rightarrow> nat list list option" where
  "thread_groups threads =
     Option.bind (union_shared threads) (\<lambda>parent.
     Option.bind (fold_option add_member [0..<length threads] (parent, [])) (\<lambda>(_, groups). Some (map snd groups)))"

section \<open>Whole-program search\<close>

definition shared_two :: "thread \<Rightarrow> thread \<Rightarrow> bool" where
  "shared_two a b \<longleftrightarrow> card (touched a \<inter> touched b) \<ge> 2"

primrec first_some :: "('a \<Rightarrow> 'b option) \<Rightarrow> 'a list \<Rightarrow> 'b list" where
  "first_some f [] = []"
| "first_some f (x # xs) = (case f x of Some y \<Rightarrow> [y] | None \<Rightarrow> first_some f xs)"

definition self_check :: "(op_outcome list \<Rightarrow> op_outcome list) \<Rightarrow> thread list \<Rightarrow> thread \<Rightarrow> weak_memory_witness list" where
  "self_check iter threads t =
     (if written t \<noteq> {} \<and> has_reorder_window t \<and> shared_two t t \<and> t_name t \<in> spawned_names threads
      then (case weak_memory_nonrobustness iter [t, second_instance t] of Some w \<Rightarrow> [w] | None \<Rightarrow> []) else [])"

definition weak_pair_check :: "(op_outcome list \<Rightarrow> op_outcome list) \<Rightarrow> thread \<Rightarrow> thread \<Rightarrow> weak_memory_witness option" where
  "weak_pair_check iter a b =
     (if \<not> (has_reorder_window a \<or> has_reorder_window b) \<or> \<not> shares_write a b \<or> \<not> shared_two a b then None
      else weak_memory_nonrobustness iter [a, b])"

definition group_check :: "(op_outcome list \<Rightarrow> op_outcome list) \<Rightarrow> thread list \<Rightarrow> weak_memory_witness list" where
  "group_check iter ts =
     (if length ts < 2 \<or> \<not> list_ex has_reorder_window ts then []
      else if \<not> list_ex (\<lambda>x. list_ex (shared_two (ts ! x)) (drop (Suc x) ts)) [0..<length ts] then []
      else if product_fits (map (\<lambda>t. length (t_events t)) ts)
      then (case weak_memory_nonrobustness iter ts of Some w \<Rightarrow> [w] | None \<Rightarrow> [])
      else concat (map (\<lambda>a. first_some (weak_pair_check iter (ts ! a)) (drop (Suc a) ts)) [0..<length ts]))"

definition find_weak_memory_bugs :: "(op_outcome list \<Rightarrow> op_outcome list) \<Rightarrow> thread list \<Rightarrow> weak_memory_witness list option" where
  "find_weak_memory_bugs iter threads =
     Option.bind (thread_groups threads) (\<lambda>groups.
       Some (concat (map (self_check iter threads) threads) @
             concat (map (\<lambda>group. group_check iter (map ((!) threads) group)) groups)))"

section \<open>The union-find\<close>

text \<open>\<open>root_in p k x r\<close>: climbing \<open>k\<close> links from \<open>x\<close> ends at the root \<open>r\<close>.\<close>

primrec root_in :: "nat list \<Rightarrow> nat \<Rightarrow> nat \<Rightarrow> nat \<Rightarrow> bool" where
  "root_in p 0 x r \<longleftrightarrow> x = r \<and> p ! r = r"
| "root_in p (Suc k) x r \<longleftrightarrow> p ! x \<noteq> x \<and> root_in p k (p ! x) r"

lemma root_in_root: "root_in p k x r \<Longrightarrow> p ! r = r"
  by (induction k arbitrary: x) auto

lemma root_in_unique: "root_in p k x r \<Longrightarrow> root_in p k' x r' \<Longrightarrow> r' = r"
proof (induction k arbitrary: x k')
  case 0
  then show ?case by (cases k') auto
next
  case (Suc k)
  then show ?case by (cases k') auto
qed

lemma find_root_in: "root_in p k x r \<Longrightarrow> find_root p x = Some r"
  by (induction k arbitrary: x) (subst find_root.simps, simp)+

lemma root_in_shortcut:
  assumes "root_in p k x s" and "root_in p m c r" and "p ! c \<noteq> c" and "c < length p"
  shows "\<exists>k'\<le>k. root_in (p[c := r]) k' x s"
  using assms(1)
proof (induction k arbitrary: x)
  case 0
  moreover have "c \<noteq> x" using 0 assms(3) by auto
  ultimately show ?case by (intro exI [of _ 0]) simp
next
  case (Suc k)
  have r: "p ! r = r" "r \<noteq> c" using root_in_root [OF assms(2)] assms(3) by auto
  show ?case
  proof (cases "x = c")
    case True
    then have "s = r" using root_in_unique [OF assms(2)] Suc.prems by blast
    then show ?thesis using True r assms(4) by (intro exI [of _ 1]) auto
  next
    case False
    from Suc.IH [of "p ! x"] Suc.prems obtain k' where "k' \<le> k" "root_in (p[c := r]) k' (p ! x) s" by auto
    then show ?thesis using False Suc.prems by (intro exI [of _ "Suc k'"]) simp
  qed
qed

lemma root_in_link:
  assumes "root_in p k x s" and "p ! a = a" and "p ! b = b" and "a \<noteq> b" and "a < length p"
  shows "\<exists>k. root_in (p[a := b]) k x (if s = a then b else s)"
  using assms(1)
proof (induction k arbitrary: x)
  case 0
  then show ?case using assms(2-5) by (intro exI [of _ "if x = a then 1 else 0"]) auto
next
  case (Suc k)
  then have "x \<noteq> a" using assms(2) by auto
  from Suc.IH [of "p ! x"] Suc.prems obtain k' where "root_in (p[a := b]) k' (p ! x) (if s = a then b else s)" by auto
  then show ?case using \<open>x \<noteq> a\<close> Suc.prems by (intro exI [of _ "Suc k'"]) simp
qed

text \<open>A union-find table over \<open>n\<close> nodes with representatives \<open>f\<close>.\<close>

definition uf_table :: "nat \<Rightarrow> nat list \<Rightarrow> (nat \<Rightarrow> nat) \<Rightarrow> bool" where
  "uf_table n p f \<longleftrightarrow> length p = n \<and> (\<forall>x<n. p ! x < n \<and> f x < n \<and> (\<exists>k. root_in p k x (f x)))"

lemma uf_bound:
  assumes "uf_table n p f" and "r < n" and "x < n"
  shows "p[c := r] ! x < n"
proof -
  have "p ! x < n" using assms(1,3) unfolding uf_table_def by blast
  then show ?thesis using assms(2) by (cases "c < length p") (simp_all add: nth_list_update list_update_beyond)
qed

lemma uf_table_shortcut:
  assumes "uf_table n p f" and "root_in p m c r" and "p ! c \<noteq> c" and "c < n" and "r < n"
  shows "uf_table n (p[c := r]) f"
proof -
  have len: "c < length p" using assms by (simp add: uf_table_def)
  have "\<exists>k. root_in (p[c := r]) k x (f x)" if "x < n" for x
    using root_in_shortcut [OF _ assms(2,3) len] assms(1) that unfolding uf_table_def by blast
  moreover have "p[c := r] ! x < n" if "x < n" for x by (rule uf_bound [OF assms(1,5) that])
  ultimately show ?thesis using assms(1) unfolding uf_table_def by simp
qed

lemma compress_keeps:
  assumes "uf_table n p f" and "root_in p k c r" and "c < n"
  shows "\<exists>p'. compress p r c = Some p' \<and> uf_table n p' f"
  using assms
proof (induction k arbitrary: p c rule: less_induct)
  case (less k)
  show ?case
  proof (cases "p ! c = r")
    case True
    then show ?thesis using less.prems(1) by (subst compress.simps) simp
  next
    case False
    then obtain k1 where k: "k = Suc k1" "p ! c \<noteq> c" "root_in p k1 (p ! c) r" using less.prems(2) by (cases k) auto
    have r: "r < n" using less.prems root_in_unique [OF less.prems(2)] unfolding uf_table_def by metis
    have c: "c < length p" "p ! c < n" using less.prems by (auto simp: uf_table_def)
    obtain k' where k': "k' \<le> k1" "root_in (p[c := r]) k' (p ! c) r"
      using root_in_shortcut [OF k(3) less.prems(2) k(2) c(1)] by blast
    have "uf_table n (p[c := r]) f" using uf_table_shortcut [OF less.prems(1,2) k(2) less.prems(3) r] .
    from less.IH [OF _ this k'(2) c(2)] k'(1) k(1) show ?thesis using False by (subst compress.simps) simp
  qed
qed

lemma uf_find_exact:
  assumes "uf_table n p f" and "x < n"
  shows "\<exists>p'. uf_find p x = Some (f x, p') \<and> uf_table n p' f"
proof -
  obtain k where k: "root_in p k x (f x)" using assms by (auto simp: uf_table_def)
  show ?thesis using compress_keeps [OF assms(1) k assms(2)] by (auto simp: uf_find_def find_root_in [OF k])
qed

lemma uf_table_link:
  assumes "uf_table n p f" and "i < n" and "j < n" and "f i \<noteq> f j"
  shows "uf_table n (p[f i := f j]) (\<lambda>x. if f x = f i then f j else f x)"
proof -
  have roots: "p ! f i = f i" "p ! f j = f j" "f i < length p" "f j < n" using assms root_in_root unfolding uf_table_def by blast+
  have "\<exists>k. root_in (p[f i := f j]) k x (if f x = f i then f j else f x)" if "x < n" for x
    using root_in_link [OF _ roots(1,2) assms(4) roots(3)] assms(1) that unfolding uf_table_def by blast
  moreover have "p[f i := f j] ! x < n" if "x < n" for x by (rule uf_bound [OF assms(1) roots(4) that])
  ultimately show ?thesis using assms(1) roots(4) unfolding uf_table_def by simp
qed

lemma uf_union_exact:
  assumes "uf_table n p f" and "i < n" and "j < n"
  shows "\<exists>p'. uf_union i j p = Some p' \<and> uf_table n p' (\<lambda>x. if f x = f i then f j else f x)"
proof -
  obtain p1 where p1: "uf_find p i = Some (f i, p1)" "uf_table n p1 f" using uf_find_exact [OF assms(1,2)] by blast
  obtain p2 where p2: "uf_find p1 j = Some (f j, p2)" "uf_table n p2 f" using uf_find_exact [OF p1(2) assms(3)] by blast
  have same: "(\<lambda>x. if f x = f i then f j else f x) = f" if "f i = f j" using that by auto
  show ?thesis using p1(1) p2 uf_table_link [OF p2(2) assms(2,3)] same by (cases "f i = f j") (auto simp: uf_union_def)
qed

section \<open>Groups are the connected components\<close>

definition sharing :: "thread list \<Rightarrow> (nat \<times> nat) set" where
  "sharing threads = {(i, j). i < length threads \<and> j < length threads \<and> shares_write (threads ! i) (threads ! j)}"

definition components_of :: "nat \<Rightarrow> (nat \<Rightarrow> nat) \<Rightarrow> (nat \<times> nat) set \<Rightarrow> bool" where
  "components_of n f E \<longleftrightarrow> (\<forall>x<n. \<forall>y<n. f x = f y \<longleftrightarrow> (x, y) \<in> (E \<union> E\<inverse>)\<^sup>*)"

lemma sym_closure: "(x, y) \<in> (E \<union> E\<inverse>)\<^sup>* \<Longrightarrow> (y, x) \<in> (E \<union> E\<inverse>)\<^sup>*"
  by (metis Un_commute converse_Un converse_converse rtrancl_converseI)

lemma closure_diagonal: "D \<subseteq> Id \<Longrightarrow> (E \<union> D)\<^sup>* = E\<^sup>*"
  by (rule rtrancl_subset) auto

lemma closure_insert:
  "(x, y) \<in> (insert (i, j) E \<union> (insert (i, j) E)\<inverse>)\<^sup>* \<longleftrightarrow>
     (x, y) \<in> (E \<union> E\<inverse>)\<^sup>* \<or> (x, i) \<in> (E \<union> E\<inverse>)\<^sup>* \<and> (j, y) \<in> (E \<union> E\<inverse>)\<^sup>* \<or> (x, j) \<in> (E \<union> E\<inverse>)\<^sup>* \<and> (i, y) \<in> (E \<union> E\<inverse>)\<^sup>*"
    (is "(x, y) \<in> ?R\<^sup>* \<longleftrightarrow> ?rhs y")
proof
  assume "(x, y) \<in> ?R\<^sup>*"
  then show "?rhs y"
  proof (induction rule: rtrancl_induct)
    case (step y z)
    from step.hyps(2) consider "(y, z) \<in> E \<union> E\<inverse>" | "y = i" "z = j" | "y = j" "z = i" by blast
    then show ?case
    proof cases
      case 1
      then show ?thesis using step.IH by (meson rtrancl.rtrancl_into_rtrancl)
    next
      case 2
      then show ?thesis using step.IH sym_closure by (metis rtrancl.rtrancl_refl rtrancl_trans)
    next
      case 3
      then show ?thesis using step.IH sym_closure by (metis rtrancl.rtrancl_refl rtrancl_trans)
    qed
  qed simp
next
  have sub: "(E \<union> E\<inverse>)\<^sup>* \<subseteq> ?R\<^sup>*" by (rule rtrancl_mono) auto
  have "(i, j) \<in> ?R\<^sup>*" "(j, i) \<in> ?R\<^sup>*" by auto
  then show "?rhs y \<Longrightarrow> (x, y) \<in> ?R\<^sup>*" using sub by (meson rtrancl_trans subsetD)
qed

lemma components_union:
  assumes "components_of n f E" and "i < n" and "j < n"
  shows "components_of n (\<lambda>x. if f x = f i then f j else f x) (insert (i, j) E)"
proof -
  let ?c = "\<lambda>x y. (x, y) \<in> (E \<union> E\<inverse>)\<^sup>*"
  have eq: "f x = f y \<longleftrightarrow> ?c x y" if "x < n" "y < n" for x y using assms(1) that unfolding components_of_def by blast
  have "(if f x = f i then f j else f x) = (if f y = f i then f j else f y) \<longleftrightarrow> ?c x y \<or> ?c x i \<and> ?c j y \<or> ?c x j \<and> ?c i y"
    if "x < n" "y < n" for x y
    unfolding eq [OF that, symmetric] eq [OF that(1) assms(2), symmetric] eq [OF that(1) assms(3), symmetric]
      eq [OF assms(2) that(2), symmetric] eq [OF assms(3) that(2), symmetric] by auto
  then show ?thesis unfolding components_of_def closure_insert by blast
qed

lemma union_fold:
  assumes "uf_table n p f" and "components_of n f E" and "\<forall>(i, j)\<in>set ps. i < n \<and> j < n"
  shows "\<exists>p' f'. fold_option (\<lambda>(i, j) p. if R i j then uf_union i j p else Some p) ps p = Some p' \<and> uf_table n p' f' \<and>
    components_of n f' (E \<union> {(i, j) \<in> set ps. R i j})"
  using assms
proof (induction ps arbitrary: p f E)
  case (Cons e ps)
  obtain i j where e: "e = (i, j)" by fastforce
  have ij: "i < n" "j < n" and ps: "\<forall>(i, j)\<in>set ps. i < n \<and> j < n" using Cons.prems(3) e by auto
  show ?case
  proof (cases "R i j")
    case True
    obtain p1 where p1: "uf_union i j p = Some p1" "uf_table n p1 (\<lambda>x. if f x = f i then f j else f x)"
      using uf_union_exact [OF Cons.prems(1) ij] by blast
    have "insert (i, j) E \<union> {(i, j) \<in> set ps. R i j} = E \<union> {(i, j) \<in> set (e # ps). R i j}" using True e by auto
    then show ?thesis using Cons.IH [OF p1(2) components_union [OF Cons.prems(2) ij] ps] True p1(1) e by auto
  next
    case False
    have "E \<union> {(i, j) \<in> set ps. R i j} = E \<union> {(i, j) \<in> set (e # ps). R i j}" using False e by auto
    then show ?thesis using Cons.IH [OF Cons.prems(1,2) ps] False e by auto
  qed
qed auto

lemma union_shared_exact:
  "\<exists>p f. union_shared threads = Some p \<and> uf_table (length threads) p f \<and> components_of (length threads) f (sharing threads)"
proof -
  let ?n = "length threads"
  let ?ps = "concat (map (\<lambda>i. map (Pair i) [Suc i..<?n]) [0..<?n])"
  let ?E = "{(i, j) \<in> set ?ps. shares_write (threads ! i) (threads ! j)}"
  have t: "uf_table ?n [0..<?n] id" unfolding uf_table_def by (auto intro!: exI [of _ 0])
  have c: "components_of ?n id {}" by (simp add: components_of_def)
  have "\<forall>(i, j)\<in>set ?ps. i < ?n \<and> j < ?n" by auto
  from union_fold [OF t c this, of "\<lambda>i j. shares_write (threads ! i) (threads ! j)"] obtain p f where
    pf: "union_shared threads = Some p" "uf_table ?n p f" "components_of ?n f ?E" unfolding union_shared_def Let_def by auto
  have "set ?ps = {(i, j). i < j \<and> j < ?n}" by (auto simp: image_iff)
  then have E: "(i, j) \<in> ?E \<longleftrightarrow> i < j \<and> j < ?n \<and> shares_write (threads ! i) (threads ! j)" for i j by auto
  have "(?E \<union> ?E\<inverse>) \<union> {(i, i) | i. i < ?n \<and> shares_write (threads ! i) (threads ! i)} = sharing threads \<union> (sharing threads)\<inverse>"
  proof (intro set_eqI, clarify)
    fix i j
    show "(i, j) \<in> (?E \<union> ?E\<inverse>) \<union> {(i, i) | i. i < ?n \<and> shares_write (threads ! i) (threads ! i)} \<longleftrightarrow> (i, j) \<in> sharing threads \<union> (sharing threads)\<inverse>"
      unfolding Un_iff converse_iff E sharing_def using shares_write_sym [of "threads ! i" "threads ! j"] by (cases i j rule: linorder_cases) auto
  qed
  moreover have "(?E \<union> ?E\<inverse> \<union> {(i, i) | i. i < ?n \<and> shares_write (threads ! i) (threads ! i)})\<^sup>* = (?E \<union> ?E\<inverse>)\<^sup>*"
    by (rule closure_diagonal) auto
  ultimately have "components_of ?n f (sharing threads)" using pf(3) unfolding components_of_def by simp
  then show ?thesis using pf by blast
qed

lemma bt_insert_keys: "fst ` set (bt_insert k v m) = insert k (fst ` set m)"
  by (induction k v m rule: bt_insert.induct) auto

lemma bt_insert_sorted: "sorted_wrt (<) (map fst m) \<Longrightarrow> sorted_wrt (<) (map fst (bt_insert k v m))"
proof (induction k v m rule: bt_insert.induct)
  case (2 k v k' v' m)
  then show ?case using bt_insert_keys [of k v m] by (auto dest: order.strict_trans)
qed simp

lemma bt_get_mem: "sorted_wrt (<) (map fst m) \<Longrightarrow> bt_get m (k :: 'k :: linorder) = Some v \<longleftrightarrow> (k, v) \<in> set m"
  unfolding bt_get_def by (rule map_of_eq_Some_iff) (simp add: strict_sorted_iff)

text \<open>The table of groups after the first \<open>i\<close> threads.\<close>

definition group_entry :: "(nat \<Rightarrow> nat) \<Rightarrow> nat \<Rightarrow> nat \<Rightarrow> nat list option" where
  "group_entry f i r = (let g = filter (\<lambda>x. f x = r) [0..<i] in if g = [] then None else Some g)"

lemma group_entry_Suc: "group_entry f (Suc i) r =
    (if r = f i then Some ((case group_entry f i r of Some g \<Rightarrow> g | None \<Rightarrow> []) @ [i]) else group_entry f i r)"
  by (auto simp: group_entry_def Let_def)

lemma fold_option_append: "fold_option g (xs @ ys) s = Option.bind (fold_option g xs s) (fold_option g ys)"
proof (induction xs arbitrary: s)
  case (Cons x xs)
  then show ?case by (cases "g x s") auto
qed simp

lemma add_members:
  assumes "uf_table n p f" and "i \<le> n"
  shows "\<exists>p' m. fold_option add_member [0..<i] (p, []) = Some (p', m) \<and> uf_table n p' f \<and> sorted_wrt (<) (map fst m) \<and> bt_get m = group_entry f i"
  using assms(2)
proof (induction i)
  case 0
  then show ?case using assms(1) by (auto simp: group_entry_def)
next
  case (Suc i)
  then obtain p1 m where m: "fold_option add_member [0..<i] (p, []) = Some (p1, m)" "uf_table n p1 f" "sorted_wrt (<) (map fst m)" "bt_get m = group_entry f i" by auto
  obtain p2 where p2: "uf_find p1 i = Some (f i, p2)" "uf_table n p2 f" using uf_find_exact [OF m(2), of i] Suc.prems by auto
  let ?m = "bt_insert (f i) ((case bt_get m (f i) of Some g \<Rightarrow> g | None \<Rightarrow> []) @ [i]) m"
  have "fold_option add_member [0..<Suc i] (p, []) = Some (p2, ?m)" using m(1) p2(1) by (simp add: fold_option_append add_member_def)
  moreover have "bt_get ?m = group_entry f (Suc i)" using m(4) by (auto simp: fun_eq_iff group_entry_Suc)
  ultimately show ?case using p2(2) bt_insert_sorted [OF m(3)] by blast
qed

lemma distinct_fibres: "distinct ks \<Longrightarrow> distinct xs \<Longrightarrow> distinct (concat (map (\<lambda>r. filter (\<lambda>x. f x = r) xs) ks))"
  by (induction ks) auto

lemma thread_groups_table:
  "\<exists>f ks. thread_groups threads = Some (map (\<lambda>r. filter (\<lambda>x. f x = r) [0..<length threads]) ks) \<and> distinct ks \<and>
     set ks = f ` {..<length threads} \<and> components_of (length threads) f (sharing threads)"
proof -
  let ?n = "length threads"
  obtain p f where p: "union_shared threads = Some p" "uf_table ?n p f" "components_of ?n f (sharing threads)" using union_shared_exact by blast
  obtain p' m where m: "fold_option add_member [0..<?n] (p, []) = Some (p', m)" "sorted_wrt (<) (map fst m)" "bt_get m = group_entry f ?n"
    using add_members [OF p(2) order_refl] by blast
  have mem: "(r, g) \<in> set m \<longleftrightarrow> g = filter (\<lambda>x. f x = r) [0..<?n] \<and> g \<noteq> []" for r g
    using bt_get_mem [OF m(2), of r g] m(3) by (auto simp: group_entry_def Let_def split: if_splits)
  have "map snd m = map (\<lambda>r. filter (\<lambda>x. f x = r) [0..<?n]) (map fst m)" unfolding map_map by (rule map_cong) (auto simp: mem)
  moreover have "distinct (map fst m)" using m(2) by (simp add: strict_sorted_iff)
  moreover have "set (map fst m) = f ` {..<?n}"
  proof (intro set_eqI)
    fix r
    have "r \<in> set (map fst m) \<longleftrightarrow> (\<exists>g. (r, g) \<in> set m)" by force
    also have "\<dots> \<longleftrightarrow> r \<in> f ` {..<?n}" unfolding mem by (auto simp: filter_empty_conv)
    finally show "r \<in> set (map fst m) \<longleftrightarrow> r \<in> f ` {..<?n}" .
  qed
  moreover have "thread_groups threads = Some (map snd m)" using p(1) m(1) by (simp add: thread_groups_def)
  ultimately show ?thesis using p(3) by metis
qed

lemma sharing_closure: "(sharing threads \<union> (sharing threads)\<inverse>)\<^sup>* = (sharing threads)\<^sup>*"
proof -
  have "(sharing threads)\<inverse> = sharing threads" using shares_write_sym by (auto simp: sharing_def)
  then show ?thesis by simp
qed

text \<open>
  Property C38. The grouping of threads ends and computes the connected components of the relation that two threads share a location
  which one of them writes: the groups are non-empty, no thread is listed twice, members are listed in order, and two threads are in
  one group exactly when a chain of sharing threads connects them.
\<close>

theorem thread_groups_exact:
  "\<exists>gs. thread_groups threads = Some gs \<and> distinct (concat gs) \<and> list_all (\<lambda>g. g \<noteq> [] \<and> sorted g) gs \<and>
     {(x, y). \<exists>g\<in>set gs. x \<in> set g \<and> y \<in> set g} = {(x, y). x < length threads \<and> y < length threads \<and> (x, y) \<in> (sharing threads)\<^sup>*}"
proof -
  let ?n = "length threads"
  obtain f ks where g: "thread_groups threads = Some (map (\<lambda>r. filter (\<lambda>x. f x = r) [0..<?n]) ks)" "distinct ks" "set ks = f ` {..<?n}"
    "components_of ?n f (sharing threads)" using thread_groups_table by blast
  let ?gs = "map (\<lambda>r. filter (\<lambda>x. f x = r) [0..<?n]) ks"
  have "g \<noteq> [] \<and> sorted g" if "g \<in> set ?gs" for g
  proof -
    obtain x where "x < ?n" "g = filter (\<lambda>y. f y = f x) [0..<?n]" using \<open>g \<in> set ?gs\<close> g(3) by auto
    then show ?thesis by (auto simp: filter_empty_conv intro: sorted_wrt_filter)
  qed
  then have "list_all (\<lambda>g. g \<noteq> [] \<and> sorted g) ?gs" unfolding list_all_iff by blast
  moreover have "(\<exists>g\<in>set ?gs. x \<in> set g \<and> y \<in> set g) \<longleftrightarrow> x < ?n \<and> y < ?n \<and> f x = f y" for x y using g(3) by auto
  moreover have "f x = f y \<longleftrightarrow> (x, y) \<in> (sharing threads)\<^sup>*" if "x < ?n" "y < ?n" for x y
    using g(4) that unfolding components_of_def sharing_closure by blast
  moreover have "distinct (concat ?gs)" using g(2) by (simp add: distinct_fibres)
  ultimately show ?thesis using g(1) by (intro exI [of _ ?gs]) auto
qed

section \<open>What a report means\<close>

lemma op_program_new_threads [simp]: "op_threads (op_program_new threads) = threads"
proof -
  have "op_threads (snd (fold (number_thread threads) idx acc)) = op_threads (snd acc)" for idx acc
    by (induction idx arbitrary: acc) (auto simp: number_thread_def Let_def split: prod.splits)
  then show ?thesis by (simp add: op_program_new_def)
qed

definition weak_only :: "thread list \<Rightarrow> weak_memory_witness \<Rightarrow> bool" where
  "weak_only ts w \<longleftrightarrow>
     (let prog = op_program_new ts in
      \<exists>ls s. wm_threads w = map t_name ts \<and> wm_schedule w = map (\<lambda>(t, x). (map t_name ts ! t, x)) ls \<and> op_runs prog True ls s \<and> op_done prog s \<and>
        obs s \<notin> (if search_finished prog False then observable prog False else fst ` set (op_reachable prog False)))"

lemma find_SomeD: "List.find P xs = Some x \<Longrightarrow> P x \<and> x \<in> set xs"
  by (induction xs) (auto split: if_splits)

lemma nonrobustness_found:
  assumes "\<And>xs. set (iter xs) = set xs" and "weak_memory_nonrobustness iter threads = Some w"
  shows "weak_only threads w"
proof -
  let ?p = "op_program_new threads"
  obtain ob sched where f: "List.find (\<lambda>(o', _). o' \<notin> fst ` set (op_reachable ?p False)) (iter (op_reachable ?p True)) = Some (ob, sched)"
    and w: "w = \<lparr>wm_threads = map t_name threads, wm_description = weak_description, wm_schedule = map (\<lambda>(t, s). (map t_name threads ! t, s)) sched\<rparr>"
    using assms(2) unfolding weak_memory_nonrobustness_def Let_def by (auto split: if_splits option.splits)
  have new: "ob \<notin> fst ` set (op_reachable ?p False)" and "(ob, sched) \<in> set (iter (op_reachable ?p True))"
    using find_SomeD [OF f] by simp_all
  then have "(ob, sched) \<in> set (op_reachable ?p True)" using assms(1) by simp
  then obtain s where s: "op_runs ?p True sched s" "op_done ?p s" "obs s = ob" using op_reachable_sound by blast
  have "ob \<notin> (if search_finished ?p False then observable ?p False else fst ` set (op_reachable ?p False))"
    using new op_reachable_complete [of ?p False] by auto
  then show ?thesis unfolding weak_only_def Let_def w using s by (intro exI [of _ sched] exI [of _ s]) simp
qed

lemma nonrobustness_none:
  assumes "\<And>xs. set (iter xs) = set xs" and "2 \<le> length threads"
  shows "weak_memory_nonrobustness iter threads = None \<longleftrightarrow>
    fst ` set (op_reachable (op_program_new threads) True) \<subseteq> fst ` set (op_reachable (op_program_new threads) False)"
proof -
  let ?p = "op_program_new threads"
  have "weak_memory_nonrobustness iter threads = None \<longleftrightarrow>
      List.find (\<lambda>(o', _). o' \<notin> fst ` set (op_reachable ?p False)) (iter (op_reachable ?p True)) = None"
    using assms(2) unfolding weak_memory_nonrobustness_def Let_def by (auto split: option.splits)
  also have "\<dots> \<longleftrightarrow> (\<forall>x\<in>set (op_reachable ?p True). fst x \<in> fst ` set (op_reachable ?p False))"
    unfolding find_None_iff assms(1) split_def by blast
  finally show ?thesis by (simp add: image_subset_iff)
qed

text \<open>
  Property C36. The robustness check is exact: when both explorations finish within their budget, \<open>weak_memory_nonrobustness\<close> reports nothing
  exactly if the weak model observes the same as sequential consistency, whatever the iteration order of the hash map. (Consistent
  observations are always weak observations, so the comparison of the sets in one direction suffices.)
\<close>

theorem robustness_check_exact:
  assumes "\<And>xs. set (iter xs) = set xs" and "2 \<le> length threads"
    and "search_finished (op_program_new threads) False" and "search_finished (op_program_new threads) True"
  shows "weak_memory_nonrobustness iter threads = None \<longleftrightarrow>
    observable (op_program_new threads) True = observable (op_program_new threads) False"
proof -
  have "observable (op_program_new threads) False \<subseteq> observable (op_program_new threads) True"
    using consistent_observable_weak [of "op_program_new threads"] assms(2) by simp
  then show ?thesis
    using nonrobustness_none [OF assms(1,2)] op_reachable_complete [OF assms(3)] op_reachable_complete [OF assms(4)] by auto
qed

text \<open>The store-buffering litmus: each thread writes one location and reads the other.\<close>

definition sb_left :: thread where
  "sb_left = \<lparr>t_name = ''left'', t_events = [Write ''x'', Read ''y'']\<rparr>"

definition sb_right :: thread where
  "sb_right = \<lparr>t_name = ''right'', t_events = [Write ''y'', Read ''x'']\<rparr>"

definition sb_program :: "nat \<Rightarrow> op_program" where
  "sb_program m = \<lparr>op_threads = [sb_left, sb_right], write_tag = [[1, 0], [2, 0]], read_id = [[m, 0], [m, 1]], parent_of = [None, None],
     spawn_target = [[None, None], [None, None]]\<rparr>"

lemma sb_program_new: "op_program_new [sb_left, sb_right] = sb_program U32_MAX"
  by (simp add: op_program_new_def number_thread_def number_event_def sb_left_def sb_right_def sb_program_def)

lemma sb_search: "op_search (sb_program m) weak =
    explore (op_succs (sb_program m) weak) (op_done (sb_program m)) obs 144 [(op_init (sb_program m), [])] {} []"
  by (simp add: op_search_def sb_program_def sb_left_def sb_right_def search_budget_eq SEARCH_CEILING_def)

lemma sb_consistent: "case explore (op_succs (sb_program m) False) (op_done (sb_program m)) obs 144 [(op_init (sb_program m), [])] {} [] of
    (out, stack) \<Rightarrow> stack = [] \<and> [(0, 0), (1, 0)] \<notin> fst ` set out"
  by code_simp

lemma sb_weak: "case explore (op_succs (sb_program m) True) (op_done (sb_program m)) obs 144 [(op_init (sb_program m), [])] {} [] of
    (out, stack) \<Rightarrow> stack = [] \<and> [(0, 0), (1, 0)] \<in> fst ` set out"
  by code_simp

theorem robustness_check_exact_witness:
  "search_finished (op_program_new [sb_left, sb_right]) False \<and> search_finished (op_program_new [sb_left, sb_right]) True \<and>
   weak_memory_nonrobustness id [sb_left, sb_right] \<noteq> None \<and>
   observable (op_program_new [sb_left, sb_right]) True \<noteq> observable (op_program_new [sb_left, sb_right]) False"
proof -
  let ?ts = "[sb_left, sb_right]"
  have fin: "search_finished (op_program_new ?ts) False" "search_finished (op_program_new ?ts) True"
    using sb_consistent [of U32_MAX] sb_weak [of U32_MAX] by (simp_all add: search_finished_def sb_program_new sb_search split_def)
  have "[(0, 0), (1, 0)] \<notin> fst ` set (op_reachable (op_program_new ?ts) False)" "[(0, 0), (1, 0)] \<in> fst ` set (op_reachable (op_program_new ?ts) True)"
    using sb_consistent [of U32_MAX] sb_weak [of U32_MAX] by (simp_all add: op_reachable_def sb_program_new sb_search split_def)
  then have "weak_memory_nonrobustness id ?ts \<noteq> None" using nonrobustness_none [of id ?ts] by auto
  then show ?thesis using robustness_check_exact [of id ?ts] fin by simp
qed

definition examined :: "thread list \<Rightarrow> thread list \<Rightarrow> bool" where
  "examined threads ts \<longleftrightarrow>
     (\<exists>t\<in>set threads. t_name t \<in> spawned_names threads \<and> ts = [t, second_instance t]) \<or>
     (\<exists>idx. sorted_wrt (<) idx \<and> set idx \<subseteq> {..<length threads} \<and> set idx \<times> set idx \<subseteq> (sharing threads)\<^sup>* \<and> ts = map ((!) threads) idx)"

lemma first_some_mem: "y \<in> set (first_some f xs) \<Longrightarrow> \<exists>x\<in>set xs. f x = Some y"
  by (induction xs) (auto split: option.splits)

lemma nths_one: "b < length xs \<Longrightarrow> nths xs {b} = [xs ! b]"
proof (induction xs arbitrary: b)
  case (Cons x xs)
  have "{j. Suc j \<in> {b}} = (case b of 0 \<Rightarrow> {} | Suc b \<Rightarrow> {b})" by (auto split: nat.splits)
  then show ?case using Cons by (cases b) (auto simp: nths_Cons)
qed simp

lemma nths_pair: "a < b \<Longrightarrow> b < length xs \<Longrightarrow> nths xs {a, b} = [xs ! a, xs ! b]"
proof (induction xs arbitrary: a b)
  case (Cons x xs)
  obtain b' where b: "b = Suc b'" using Cons.prems(1) by (cases b) auto
  have "{j. Suc j \<in> {a, b}} = (case a of 0 \<Rightarrow> {b'} | Suc a \<Rightarrow> {a, b'})" by (auto simp: b split: nat.splits)
  then show ?case using Cons nths_one [of b' xs] by (cases a) (auto simp: nths_Cons b)
qed simp

lemma group_check_mem:
  assumes "w \<in> set (group_check iter ts)"
  shows "\<exists>sub. weak_memory_nonrobustness iter (nths ts sub) = Some w"
proof (cases "product_fits (map (\<lambda>t. length (t_events t)) ts)")
  case True
  moreover have "nths ts UNIV = ts" by (rule nths_all) simp
  ultimately have "weak_memory_nonrobustness iter (nths ts UNIV) = Some w" using assms unfolding group_check_def by (auto split: if_splits option.splits)
  then show ?thesis by blast
next
  case False
  then obtain a b where ab: "a < length ts" "b \<in> set (drop (Suc a) ts)" "weak_pair_check iter (ts ! a) b = Some w"
    using assms unfolding group_check_def by (auto split: if_splits dest!: first_some_mem)
  obtain k where k: "k < length ts - Suc a" "b = ts ! (Suc a + k)" using ab(2) unfolding in_set_conv_nth by auto
  have "nths ts {a, Suc a + k} = [ts ! a, b]" using nths_pair [of a "Suc a + k" ts] ab(1) k by simp
  then show ?thesis using ab(3) unfolding weak_pair_check_def by (metis option.distinct(1))
qed

lemma guarded_option_mem: "w \<in> set (if a \<and> b \<and> c \<and> d then (case x of Some w \<Rightarrow> [w] | None \<Rightarrow> []) else []) \<Longrightarrow> x = Some w \<and> d"
  by (cases x; cases "a \<and> b \<and> c \<and> d") simp_all

lemma self_check_mem:
  "w \<in> set (self_check iter threads t) \<Longrightarrow> weak_memory_nonrobustness iter [t, second_instance t] = Some w \<and> t_name t \<in> spawned_names threads"
  unfolding self_check_def by (rule guarded_option_mem)

lemma group_members_examined:
  assumes "g = filter (\<lambda>x. f x = r) [0..<length threads]" and "components_of (length threads) f (sharing threads)"
  shows "examined threads (nths (map ((!) threads) g) sub)"
proof -
  let ?idx = "nths g sub"
  have "set ?idx \<subseteq> set g" by (rule set_nths_subset)
  then have sub: "x < length threads \<and> f x = r" if "x \<in> set ?idx" for x using that assms(1) by auto
  have "sorted ?idx" "distinct ?idx" using assms(1) by (auto intro!: sorted_nths distinct_nthsI sorted_wrt_filter)
  then have "sorted_wrt (<) ?idx" by (simp add: strict_sorted_iff)
  moreover have "set ?idx \<times> set ?idx \<subseteq> (sharing threads)\<^sup>*"
    using sub assms(2) unfolding components_of_def sharing_closure by blast
  moreover have "set ?idx \<subseteq> {..<length threads}" using sub by blast
  ultimately show ?thesis unfolding examined_def by (intro disjI2 exI [of _ ?idx]) (simp add: nths_map)
qed

text \<open>
  Property C37. The whole-program weak-memory search returns, and every report is real: it names threads of one sharing group (or a
  spawned thread and a second instance of itself), and its schedule is a complete run of the weak model of these threads whose
  observation the consistent exploration did not find, hence one that no consistent run makes if that exploration finished.
\<close>

theorem weak_reports_real:
  assumes "\<And>xs. set (iter xs) = set xs"
  shows "\<exists>out. find_weak_memory_bugs iter threads = Some out \<and> set out \<subseteq> {w. \<exists>ts. examined threads ts \<and> weak_only ts w}"
proof -
  obtain f ks where g: "thread_groups threads = Some (map (\<lambda>r. filter (\<lambda>x. f x = r) [0..<length threads]) ks)"
    "components_of (length threads) f (sharing threads)" using thread_groups_table by blast
  let ?gs = "map (\<lambda>r. filter (\<lambda>x. f x = r) [0..<length threads]) ks"
  have "\<exists>ts. examined threads ts \<and> weak_only ts w" if w: "t \<in> set threads" "w \<in> set (self_check iter threads t)" for t w
  proof -
    have "weak_memory_nonrobustness iter [t, second_instance t] = Some w \<and> t_name t \<in> spawned_names threads"
      using self_check_mem [OF w(2)] .
    moreover have "examined threads [t, second_instance t]" using w(1) calculation unfolding examined_def by blast
    ultimately show ?thesis using nonrobustness_found [OF assms, of "[t, second_instance t]" w] by blast
  qed
  moreover have "\<exists>ts. examined threads ts \<and> weak_only ts w" if w: "gr \<in> set ?gs" "w \<in> set (group_check iter (map ((!) threads) gr))" for gr w
  proof -
    obtain r where r: "gr = filter (\<lambda>x. f x = r) [0..<length threads]" using w(1) by auto
    obtain sub where "weak_memory_nonrobustness iter (nths (map ((!) threads) gr) sub) = Some w" using group_check_mem [OF w(2)] by blast
    from nonrobustness_found [OF assms this] group_members_examined [OF r g(2), of sub] show ?thesis by blast
  qed
  ultimately have "set (concat (map (self_check iter threads) threads) @ concat (map (\<lambda>group. group_check iter (map ((!) threads) group)) ?gs))
      \<subseteq> {w. \<exists>ts. examined threads ts \<and> weak_only ts w}" unfolding set_append set_concat set_map by blast
  then show ?thesis using g(1) by (simp add: find_weak_memory_bugs_def)
qed

theorem weak_reports_real_witness:
  "\<exists>out. find_weak_memory_bugs rev [sb_left, sb_right] = Some out \<and> set out \<subseteq> {w. \<exists>ts. examined [sb_left, sb_right] ts \<and> weak_only ts w}"
  using weak_reports_real [of rev "[sb_left, sb_right]"] by simp

section \<open>What the pruning loses\<close>

text \<open>
  Store buffering around a ring of three threads. Each thread has a reorder window and the threads form one group, but no two of them
  share two locations, so the group is skipped without any exploration.
\<close>

definition ring :: "thread list" where
  "ring = [\<lparr>t_name = ''a'', t_events = [Write ''x'', Read ''y'']\<rparr>, \<lparr>t_name = ''b'', t_events = [Write ''y'', Read ''z'']\<rparr>,
           \<lparr>t_name = ''c'', t_events = [Write ''z'', Read ''x'']\<rparr>]"

definition ring_program :: "nat \<Rightarrow> op_program" where
  "ring_program m = \<lparr>op_threads = ring, write_tag = [[1, 0], [2, 0], [3, 0]], read_id = [[m, 0], [m, 1], [m, 2]], parent_of = [None, None, None],
     spawn_target = [[None, None], [None, None], [None, None]]\<rparr>"

lemma ring_program_new: "op_program_new ring = ring_program U32_MAX"
  by (simp add: op_program_new_def number_thread_def number_event_def ring_def ring_program_def numeral_3_eq_3)

primrec replay :: "op_program \<Rightarrow> bool \<Rightarrow> op_label list \<Rightarrow> op_state \<Rightarrow> op_state option" where
  "replay prog weak [] s = Some s"
| "replay prog weak (l # ls) s =
     (if op_done prog s then None
      else case List.find (\<lambda>(_, l'). l' = l) (op_succs prog weak s) of None \<Rightarrow> None | Some (s', _) \<Rightarrow> replay prog weak ls s')"

lemma replay_runs: "op_runs prog weak ls0 s \<Longrightarrow> replay prog weak ls s = Some s' \<Longrightarrow> op_runs prog weak (ls0 @ ls) s'"
proof (induction ls arbitrary: ls0 s)
  case (Cons l ls)
  then obtain s1 l1 where f: "\<not> op_done prog s" "List.find (\<lambda>(_, l'). l' = l) (op_succs prog weak s) = Some (s1, l1)" "replay prog weak ls s1 = Some s'"
    by (auto split: if_splits option.splits)
  have "(s1, l) \<in> set (op_succs prog weak s)" using find_SomeD [OF f(2)] by auto
  then have "op_runs prog weak (ls0 @ [l]) s1" using Cons.prems(1) f(1) unfolding op_runs_def by (intro runs_snoc)
  then show ?case using Cons.IH f(3) by fastforce
qed simp

definition ring_schedule :: "op_label list" where
  "ring_schedule =
     [(0, ''write x''), (1, ''write y''), (2, ''write z''), (0, ''read y -> 0''), (1, ''read z -> 0''), (2, ''read x -> 0''),
      (0, ''flush x''), (1, ''observe x''), (2, ''observe x''), (1, ''flush y''), (0, ''observe y''), (2, ''observe y''),
      (2, ''flush z''), (0, ''observe z''), (1, ''observe z'')]"

lemma ring_replay: "case replay (ring_program m) True ring_schedule (op_init (ring_program m)) of
    None \<Rightarrow> False | Some s \<Rightarrow> op_done (ring_program m) s \<and> obs s = [(0, 0), (1, 0), (2, 0)]"
  by code_simp

lemma ring_consistent: "case explore (op_succs (ring_program m) False) (op_done (ring_program m)) obs 1728 [(op_init (ring_program m), [])] {} [] of
    (out, stack) \<Rightarrow> stack = [] \<and> [(0, 0), (1, 0), (2, 0)] \<notin> fst ` set out"
  by code_simp

lemma ring_groups: "thread_groups ring = Some [[0, 1, 2]]"
  by code_simp

lemma ring_pruned: "\<not> list_ex (\<lambda>x. list_ex (shared_two (ring ! x)) (drop (Suc x) ring)) [0..<length ring]"
  by code_simp

lemma ring_skipped: "find_weak_memory_bugs iter ring = Some []"
proof -
  have "map ((!) ring) [0, 1, 2] = ring" by (simp add: ring_def)
  moreover have "group_check iter ring = []" using ring_pruned by (simp add: group_check_def)
  moreover have "self_check iter ring t = []" for t
  proof -
    have "spawned_names ring = {}" by code_simp
    then show ?thesis by (simp add: self_check_def)
  qed
  ultimately show ?thesis by (simp add: find_weak_memory_bugs_def ring_groups)
qed

lemma pruning_loses_witness:
  "find_weak_memory_bugs iter ring = Some [] \<and> list_all has_reorder_window ring \<and>
   [(0, 0), (1, 0), (2, 0)] \<in> observable (op_program_new ring) True \<and> [(0, 0), (1, 0), (2, 0)] \<notin> observable (op_program_new ring) False"
proof -
  let ?p = "op_program_new ring" and ?o = "[(0, 0), (1, 0), (2, 0)] :: (nat \<times> nat) list"
  have search: "op_search (ring_program m) False =
      explore (op_succs (ring_program m) False) (op_done (ring_program m)) obs 1728 [(op_init (ring_program m), [])] {} []" for m
    by (simp add: op_search_def ring_program_def ring_def search_budget_eq SEARCH_CEILING_def)
  have "search_finished ?p False" "?o \<notin> fst ` set (op_reachable ?p False)"
    using ring_consistent [of U32_MAX] by (simp_all add: search_finished_def op_reachable_def ring_program_new search split_def)
  then have "?o \<notin> observable ?p False" using op_reachable_complete by blast
  moreover obtain s where s: "replay ?p True ring_schedule (op_init ?p) = Some s" "op_done ?p s" "obs s = ?o"
    using ring_replay [of U32_MAX] by (auto simp: ring_program_new split: option.splits)
  have "op_runs ?p True ring_schedule s"
    using replay_runs [OF _ s(1), of "[]"] runs_Nil unfolding op_runs_def by fastforce
  then have "?o \<in> observable ?p True" using s(2) unfolding observable_def s(3) [symmetric] by blast
  moreover have "list_all has_reorder_window ring" by code_simp
  ultimately show ?thesis using ring_skipped by blast
qed

end
