(* ===== verification/Conc_Tarjan.thy ===== *)
theory Conc_Tarjan
  imports Prelude
begin

text \<open>
  The strongly connected components of \<open>tarjan_scc\<close> in \<open>crates/verifier/src/lockorder.rs\<close>: the iterative form of Tarjan's algorithm with an
  explicit work stack of nodes and neighbour cursors. The sentinel \<open>usize::MAX\<close> of an unvisited node is \<open>None\<close>; stacks are lists with the
  top first.
\<close>

section \<open>The algorithm\<close>

record tarjan_state =
  tj_index :: "nat option list"
  tj_low :: "nat list"
  tj_on_stack :: "bool list"
  tj_stack :: "nat list"
  tj_next :: nat
  tj_out :: "nat list list"
  tj_work :: "(nat \<times> nat) list"

definition tarjan_init :: "nat \<Rightarrow> tarjan_state" where
  "tarjan_init n = \<lparr>tj_index = replicate n None, tj_low = replicate n 0, tj_on_stack = replicate n False, tj_stack = [], tj_next = 0, tj_out = [], tj_work = []\<rparr>"

definition tj_visit :: "nat \<Rightarrow> tarjan_state \<Rightarrow> tarjan_state" where
  "tj_visit v st =
     st\<lparr>tj_index := (tj_index st)[v := Some (tj_next st)], tj_low := (tj_low st)[v := tj_next st], tj_next := tj_next st + 1,
        tj_stack := v # tj_stack st, tj_on_stack := (tj_on_stack st)[v := True]\<rparr>"

definition tj_enter :: "tarjan_state \<Rightarrow> tarjan_state" where
  "tj_enter st = (case tj_work st of (v, 0) # _ \<Rightarrow> tj_visit v st | _ \<Rightarrow> st)"

fun pop_scc :: "nat \<Rightarrow> nat list \<Rightarrow> nat list \<times> nat list" where
  "pop_scc v [] = ([], [])"
| "pop_scc v (w # ws) = (if w = v then ([w], ws) else let (comp, rest) = pop_scc v ws in (w # comp, rest))"

definition tj_pop :: "nat \<Rightarrow> tarjan_state \<Rightarrow> tarjan_state" where
  "tj_pop v st =
     (if tj_index st ! v = Some (tj_low st ! v)
      then let (comp, rest) = pop_scc v (tj_stack st) in
           st\<lparr>tj_on_stack := fold (\<lambda>w on. on[w := False]) comp (tj_on_stack st), tj_stack := rest, tj_out := tj_out st @ [comp]\<rparr>
      else st)"

definition tj_leave :: "nat \<Rightarrow> (nat \<times> nat) list \<Rightarrow> tarjan_state \<Rightarrow> tarjan_state" where
  "tj_leave v rest st =
     (let st = (tj_pop v st)\<lparr>tj_work := rest\<rparr> in
      case rest of [] \<Rightarrow> st | (parent, _) # _ \<Rightarrow> st\<lparr>tj_low := (tj_low st)[parent := min (tj_low st ! parent) (tj_low st ! v)]\<rparr>)"

definition tj_process :: "nat list list \<Rightarrow> tarjan_state \<Rightarrow> tarjan_state" where
  "tj_process adj st =
     (case tj_work st of
        [] \<Rightarrow> st
      | (v, pi) # rest \<Rightarrow>
          if pi < length (adj ! v)
          then let w = adj ! v ! pi; st = st\<lparr>tj_work := (v, pi + 1) # rest\<rparr> in
               case tj_index st ! w of
                 None \<Rightarrow> st\<lparr>tj_work := (w, 0) # tj_work st\<rparr>
               | Some i \<Rightarrow> if tj_on_stack st ! w then st\<lparr>tj_low := (tj_low st)[v := min (tj_low st ! v) i]\<rparr> else st
          else tj_leave v rest st)"

partial_function (option) tarjan_loop :: "nat list list \<Rightarrow> tarjan_state \<Rightarrow> tarjan_state option" where
  "tarjan_loop adj st = (if tj_work st = [] then Some st else tarjan_loop adj (tj_process adj (tj_enter st)))"

declare tarjan_loop.simps [code]

primrec tarjan_starts :: "nat list list \<Rightarrow> nat list \<Rightarrow> tarjan_state \<Rightarrow> tarjan_state option" where
  "tarjan_starts adj [] st = Some st"
| "tarjan_starts adj (start # starts) st =
     (if tj_index st ! start \<noteq> None then tarjan_starts adj starts st
      else Option.bind (tarjan_loop adj (st\<lparr>tj_work := [(start, 0)]\<rparr>)) (tarjan_starts adj starts))"

definition tarjan_scc :: "nat list list \<Rightarrow> nat list list option" where
  "tarjan_scc adj = map_option tj_out (tarjan_starts adj [0..<length adj] (tarjan_init (length adj)))"

lemma tarjan_example: "tarjan_scc [[1], [2], [0, 3], [4], [3], []] = Some [[4, 3], [2, 1, 0], [5]]"
  by code_simp

section \<open>Invariant\<close>

definition tj_num :: "tarjan_state \<Rightarrow> nat \<Rightarrow> nat" where
  "tj_num st v = the (tj_index st ! v)"

definition tj_visited :: "tarjan_state \<Rightarrow> nat set" where
  "tj_visited st = {v. v < length (tj_index st) \<and> tj_index st ! v \<noteq> None}"

definition tj_grays :: "tarjan_state \<Rightarrow> nat list" where
  "tj_grays st = map fst (tj_work st)"

lemma pop_scc_split: "v \<in> set s \<Longrightarrow> \<exists>a b. s = a @ v # b \<and> v \<notin> set a \<and> pop_scc v s = (a @ [v], b)"
proof (induction s)
  case (Cons w s)
  show ?case
  proof (cases "w = v")
    case False
    then obtain a b where "s = a @ v # b" "v \<notin> set a" "pop_scc v s = (a @ [v], b)" using Cons by auto
    then show ?thesis using False by (intro exI [of _ "w # a"] exI [of _ b]) simp
  qed (intro exI [of _ "[]"] exI [of _ s], simp)
qed simp

lemma fold_clear: "length (fold (\<lambda>w on. on[w := False]) cs on) = length on \<and>
    (u < length on \<longrightarrow> (fold (\<lambda>w on. on[w := False]) cs on ! u \<longleftrightarrow> u \<notin> set cs \<and> on ! u))"
proof (induction cs arbitrary: on)
  case (Cons w cs)
  have "u < length on \<Longrightarrow> on[w := False] ! u \<longleftrightarrow> u \<noteq> w \<and> on ! u" by (cases "w = u") auto
  then show ?case using Cons [of "on[w := False]"] by auto
qed simp

locale tarjan_graph =
  fixes adj :: "nat list list"
  assumes closed: "v < length adj \<Longrightarrow> w \<in> set (adj ! v) \<Longrightarrow> w < length adj"
begin

definition edges :: "(nat \<times> nat) set" where
  "edges = {(u, w). u < length adj \<and> w \<in> set (adj ! u)}"

definition component :: "nat \<Rightarrow> nat set" where
  "component v = {w. (v, w) \<in> edges\<^sup>* \<and> (w, v) \<in> edges\<^sup>*}"

text \<open>The neighbours a visited node has looked at: all of them once it has left the work stack.\<close>

definition looked :: "tarjan_state \<Rightarrow> nat \<Rightarrow> nat set" where
  "looked st v = (case map_of (tj_work st) v of Some pi \<Rightarrow> set (take pi (adj ! v)) | None \<Rightarrow> set (adj ! v))"

text \<open>The part of the stack above the gray node \<open>g\<close> and below the next one.\<close>

definition segment :: "tarjan_state \<Rightarrow> nat \<Rightarrow> nat set" where
  "segment st g = {x \<in> set (tj_stack st). tj_num st g \<le> tj_num st x \<and> (\<forall>h\<in>set (tj_grays st). tj_num st g < tj_num st h \<longrightarrow> tj_num st x < tj_num st h)}"

definition shape :: "tarjan_state \<Rightarrow> bool" where
  "shape st \<longleftrightarrow>
     length (tj_index st) = length adj \<and> length (tj_low st) = length adj \<and> length (tj_on_stack st) = length adj \<and>
     (\<forall>v\<in>tj_visited st. tj_num st v < tj_next st) \<and> inj_on (tj_num st) (tj_visited st) \<and>
     set (tj_stack st) \<subseteq> tj_visited st \<and> sorted_wrt (\<lambda>x y. tj_num st y < tj_num st x) (tj_stack st) \<and>
     (\<forall>v<length adj. tj_on_stack st ! v \<longleftrightarrow> v \<in> set (tj_stack st)) \<and>
     set (tj_grays st) \<subseteq> set (tj_stack st) \<and> sorted_wrt (\<lambda>x y. tj_num st y < tj_num st x) (tj_grays st)"

definition finished :: "tarjan_state \<Rightarrow> nat set" where
  "finished st = tj_visited st - set (tj_stack st)"

definition explored :: "tarjan_state \<Rightarrow> nat set \<Rightarrow> bool" where
  "explored st X \<longleftrightarrow>
     edges `` finished st \<subseteq> finished st \<and> (\<forall>v\<in>tj_visited st. looked st v \<subseteq> X) \<and>
     (\<forall>g\<in>set (tj_grays st). \<forall>x\<in>set (tj_stack st). tj_num st g \<le> tj_num st x \<longrightarrow> (g, x) \<in> edges\<^sup>*) \<and>
     (\<forall>x\<in>set (tj_stack st). \<exists>g\<in>set (tj_grays st). tj_num st g \<le> tj_num st x \<and> (x, g) \<in> edges\<^sup>*)"

definition lows :: "tarjan_state \<Rightarrow> bool" where
  "lows st \<longleftrightarrow>
     (\<forall>g\<in>set (tj_grays st). tj_low st ! g \<le> tj_num st g \<and> (\<exists>y\<in>set (tj_stack st). tj_num st y = tj_low st ! g \<and> (g, y) \<in> edges\<^sup>*)) \<and>
     (\<forall>g\<in>set (tj_grays st). \<forall>x\<in>segment st g. \<forall>w\<in>looked st x \<inter> set (tj_stack st). tj_low st ! g \<le> tj_num st w)"

definition outputs :: "tarjan_state \<Rightarrow> bool" where
  "outputs st \<longleftrightarrow>
     distinct (concat (tj_out st)) \<and> set (concat (tj_out st)) = finished st \<and>
     (\<forall>comp\<in>set (tj_out st). \<exists>v<length adj. set comp = component v)"

definition tarjan_inv :: "tarjan_state \<Rightarrow> nat set \<Rightarrow> bool" where
  "tarjan_inv st X \<longleftrightarrow> shape st \<and> explored st X \<and> lows st \<and> outputs st"

section \<open>Preservation\<close>

lemma shapeD:
  assumes "shape st"
  shows "length (tj_index st) = length adj" "length (tj_low st) = length adj" "length (tj_on_stack st) = length adj"
    and "v \<in> tj_visited st \<Longrightarrow> tj_num st v < tj_next st" "inj_on (tj_num st) (tj_visited st)" "set (tj_stack st) \<subseteq> tj_visited st"
    and "set (tj_grays st) \<subseteq> set (tj_stack st)" "set (tj_grays st) \<subseteq> tj_visited st"
    and "v \<in> tj_visited st \<Longrightarrow> v < length adj" "v < length adj \<Longrightarrow> tj_on_stack st ! v \<longleftrightarrow> v \<in> set (tj_stack st)"
    and "sorted_wrt (\<lambda>x y. tj_num st y < tj_num st x) (tj_stack st)" "sorted_wrt (\<lambda>x y. tj_num st y < tj_num st x) (tj_grays st)"
  using assms unfolding shape_def by (auto simp: tj_visited_def)

lemma distinct_grays: "shape st \<Longrightarrow> distinct (map fst (tj_work st))"
  using shapeD(12) [of st] unfolding tj_grays_def distinct_conv_nth sorted_wrt_iff_nth_less by (metis nat_neq_iff less_irrefl)

lemma gray_segment:
  assumes "shape st" and "g \<in> set (tj_grays st)" and "v \<in> set (tj_grays st)" and "v \<in> segment st g"
  shows "v = g"
proof -
  have "tj_num st v = tj_num st g" using assms(3,4) unfolding segment_def by fastforce
  then show ?thesis using shapeD(5,8) [OF assms(1)] assms(2,3) by (meson inj_onD subsetD)
qed

lemma top_segment:
  assumes "shape st" and "tj_work st = (v, pi) # rest"
  shows "segment st v = {x \<in> set (tj_stack st). tj_num st v \<le> tj_num st x}"
proof -
  have "tj_num st g < tj_num st v" if "g \<in> set (map fst rest)" for g using shapeD(12) [OF assms(1)] assms(2) that by (auto simp: tj_grays_def)
  then have "\<not> tj_num st v < tj_num st g" if "g \<in> set (tj_grays st)" for g using that assms(2) by (fastforce simp: tj_grays_def)
  then show ?thesis unfolding segment_def by blast
qed

lemma low_update:
  assumes inv: "tarjan_inv st X" and v: "v \<in> set (tj_grays st)" and y: "y \<in> set (tj_stack st)" "(v, y) \<in> edges\<^sup>*"
  shows "tarjan_inv (st\<lparr>tj_low := (tj_low st)[v := min (tj_low st ! v) (tj_num st y)]\<rparr>) X"
proof -
  let ?st = "st\<lparr>tj_low := (tj_low st)[v := min (tj_low st ! v) (tj_num st y)]\<rparr>"
  have sh: "shape st" using inv by (simp add: tarjan_inv_def)
  have len: "v < length (tj_low st)" using shapeD(2,8,9) [OF sh] v by auto
  have fields: "tj_num ?st = tj_num st" "tj_visited ?st = tj_visited st" "tj_grays ?st = tj_grays st" "looked ?st = looked st" "finished ?st = finished st"
    by (simp_all add: fun_eq_iff tj_num_def tj_visited_def tj_grays_def looked_def finished_def)
  have seg: "segment ?st = segment st" unfolding fun_eq_iff segment_def fields by simp
  have low: "tj_low ?st ! g = (if g = v then min (tj_low st ! v) (tj_num st y) else tj_low st ! g)" for g using len by simp
  have "lows st" using inv by (simp add: tarjan_inv_def)
  then have L: "\<forall>g\<in>set (tj_grays st). tj_low st ! g \<le> tj_num st g \<and> (\<exists>y\<in>set (tj_stack st). tj_num st y = tj_low st ! g \<and> (g, y) \<in> edges\<^sup>*)"
      "\<forall>g\<in>set (tj_grays st). \<forall>x\<in>segment st g. \<forall>w\<in>looked st x \<inter> set (tj_stack st). tj_low st ! g \<le> tj_num st w"
    unfolding lows_def by blast+
  have "tj_low ?st ! g \<le> tj_low st ! g" for g unfolding low by simp
  then have "\<forall>g\<in>set (tj_grays st). \<forall>x\<in>segment st g. \<forall>w\<in>looked st x \<inter> set (tj_stack st). tj_low ?st ! g \<le> tj_num st w"
    using L(2) order_trans by blast
  moreover have "\<forall>g\<in>set (tj_grays st). tj_low ?st ! g \<le> tj_num st g \<and> (\<exists>y\<in>set (tj_stack st). tj_num st y = tj_low ?st ! g \<and> (g, y) \<in> edges\<^sup>*)"
    unfolding low using L(1) y v by (auto simp: min_def)
  ultimately have "lows ?st" unfolding lows_def fields seg by simp
  moreover have "shape ?st" "explored ?st X" "outputs ?st"
    using inv unfolding tarjan_inv_def shape_def explored_def outputs_def fields by simp_all
  ultimately show ?thesis by (simp add: tarjan_inv_def)
qed

lemma looked_step:
  assumes "distinct (map fst (tj_work st))" and "tj_work st = (v, pi) # rest" and "pi < length (adj ! v)"
  shows "looked (st\<lparr>tj_work := (v, Suc pi) # rest\<rparr>) u = (if u = v then insert (adj ! v ! pi) (looked st v) else looked st u)"
  using assms by (simp add: looked_def take_Suc_conv_app_nth)

lemma advance:
  assumes inv: "tarjan_inv st (tj_visited st)" and work: "tj_work st = (v, pi) # rest" and pi: "pi < length (adj ! v)"
    and low: "adj ! v ! pi \<in> set (tj_stack st) \<Longrightarrow> tj_low st ! v \<le> tj_num st (adj ! v ! pi)"
  shows "tarjan_inv (st\<lparr>tj_work := (v, Suc pi) # rest\<rparr>) (insert (adj ! v ! pi) (tj_visited st))"
proof -
  let ?st = "st\<lparr>tj_work := (v, Suc pi) # rest\<rparr>" and ?w = "adj ! v ! pi"
  have sh: "shape st" using inv by (simp add: tarjan_inv_def)
  have fields: "tj_num ?st = tj_num st" "tj_visited ?st = tj_visited st" "tj_grays ?st = tj_grays st" "finished ?st = finished st"
    by (simp_all add: fun_eq_iff tj_num_def tj_visited_def tj_grays_def finished_def work)
  have look: "looked ?st u = (if u = v then insert ?w (looked st v) else looked st u)" for u
    using looked_step [OF distinct_grays [OF sh] work pi] .
  have seg: "segment ?st = segment st" unfolding fun_eq_iff segment_def fields by simp
  have v: "v \<in> set (tj_grays st)" using work by (simp add: tj_grays_def)
  have "tj_low st ! g \<le> tj_num st w" if "g \<in> set (tj_grays st)" "x \<in> segment st g" "w \<in> looked ?st x \<inter> set (tj_stack st)" for g x w
  proof (cases "x = v \<and> w = ?w")
    case True
    then have "g = v" using gray_segment [OF sh that(1) v] that(2) by simp
    then show ?thesis using low True that(3) by simp
  next
    case False
    then have "w \<in> looked st x \<inter> set (tj_stack st)" using that(3) unfolding look by (auto split: if_splits)
    then show ?thesis using inv that(1,2) unfolding tarjan_inv_def lows_def by blast
  qed
  then have "lows ?st" using inv unfolding tarjan_inv_def lows_def fields seg by simp
  moreover have "\<forall>u\<in>tj_visited st. looked ?st u \<subseteq> insert ?w (tj_visited st)"
    using inv unfolding tarjan_inv_def explored_def look by auto
  then have "explored ?st (insert ?w (tj_visited st))" using inv unfolding tarjan_inv_def explored_def fields by simp
  moreover have "shape ?st" "outputs ?st" using inv unfolding tarjan_inv_def shape_def outputs_def fields by simp_all
  ultimately show ?thesis by (simp add: tarjan_inv_def)
qed

lemma visit_node:
  assumes inv: "tarjan_inv st (insert w (tj_visited st))" and w: "w < length adj" "tj_index st ! w = None"
    and reach: "\<And>g. g \<in> set (tj_grays st) \<Longrightarrow> (g, w) \<in> edges\<^sup>*"
  defines "st' \<equiv> tj_visit w (st\<lparr>tj_work := (w, 0) # tj_work st\<rparr>)"
  shows "tarjan_inv st' (tj_visited st')" and "tj_visited st' = insert w (tj_visited st)"
proof -
  have I: "shape st" "explored st (insert w (tj_visited st))" "lows st" "outputs st" using inv by (simp_all add: tarjan_inv_def)
  note sh = shapeD [OF I(1)]
  have nv: "w \<notin> tj_visited st" using w by (simp add: tj_visited_def)
  have ng: "w \<notin> set (tj_grays st)" "w \<notin> set (tj_stack st)" using sh(6,8) nv by auto
  have num: "tj_num st' u = (if u = w then tj_next st else tj_num st u)" for u
    using w(1) sh(1) by (simp add: st'_def tj_num_def tj_visit_def nth_list_update)
  show vis: "tj_visited st' = insert w (tj_visited st)" using w(1) sh(1) by (auto simp: st'_def tj_visited_def tj_visit_def nth_list_update)
  have gr: "tj_grays st' = w # tj_grays st" and stk: "tj_stack st' = w # tj_stack st" and out: "tj_out st' = tj_out st"
    by (simp_all add: st'_def tj_grays_def tj_visit_def)
  have fin: "finished st' = finished st" unfolding finished_def vis stk using nv by auto
  have look: "looked st' u = (if u = w then {} else looked st u)" for u by (simp add: st'_def looked_def tj_visit_def)
  have low: "tj_low st' ! u = (if u = w then tj_next st else tj_low st ! u)" for u
    using w(1) sh(2) by (simp add: st'_def tj_visit_def nth_list_update)
  have old: "tj_num st' u = tj_num st u" "tj_num st u < tj_next st" if "u \<in> tj_visited st" for u using that nv sh(4) num by auto
  have olds: "tj_num st' u = tj_num st u" "tj_num st u < tj_next st" if "u \<in> set (tj_stack st)" for u using that old sh(6) by auto
  have oldg: "tj_num st' u = tj_num st u" "tj_num st u < tj_next st" if "u \<in> set (tj_grays st)" for u using that old sh(8) by auto
  have nw: "tj_num st' w = tj_next st" by (simp add: num)
  have "x = w" if "x \<in> segment st' w" for x
  proof (rule ccontr)
    assume "x \<noteq> w"
    then have "x \<in> set (tj_stack st)" "tj_next st \<le> tj_num st' x" using that nw by (auto simp: segment_def stk)
    then show False using olds [of x] by simp
  qed
  moreover have "\<not> tj_num st' w < tj_num st' h" if "h \<in> set (tj_grays st')" for h using that oldg [of h] nw by (auto simp: gr)
  then have "w \<in> segment st' w" by (auto simp: segment_def stk)
  ultimately have seg_w: "segment st' w = {w}" by blast
  have seg: "segment st' g = segment st g" if g: "g \<in> set (tj_grays st)" for g
  proof -
    have gw: "tj_num st' g < tj_num st' w" using oldg [OF g] nw by simp
    have "x \<in> segment st' g \<longleftrightarrow> x \<in> segment st g" for x
    proof (cases "x \<in> set (tj_stack st)")
      case True
      have "(\<forall>h\<in>set (tj_grays st). tj_num st' g < tj_num st' h \<longrightarrow> tj_num st' x < tj_num st' h) \<longleftrightarrow>
          (\<forall>h\<in>set (tj_grays st). tj_num st g < tj_num st h \<longrightarrow> tj_num st x < tj_num st h)" using oldg(1) g olds(1) [OF True] by simp
      then show ?thesis unfolding segment_def stk gr using True olds [OF True] oldg(1) [OF g] nw by simp
    next
      case False
      then show ?thesis using gw by (auto simp: segment_def stk gr)
    qed
    then show ?thesis by blast
  qed
  have "shape st'" unfolding shape_def
  proof (intro conjI)
    show "inj_on (tj_num st') (tj_visited st')" unfolding inj_on_def vis using old sh(5) nw by (metis inj_onD insertE less_irrefl)
    have "sorted_wrt (\<lambda>x y. tj_num st' y < tj_num st' x) (tj_stack st)" by (rule sorted_wrt_mono_rel [OF _ sh(11)]) (simp add: olds)
    then show "sorted_wrt (\<lambda>x y. tj_num st' y < tj_num st' x) (tj_stack st')" by (simp add: stk nw olds)
    have "sorted_wrt (\<lambda>x y. tj_num st' y < tj_num st' x) (tj_grays st)" by (rule sorted_wrt_mono_rel [OF _ sh(12)]) (simp add: oldg)
    then show "sorted_wrt (\<lambda>x y. tj_num st' y < tj_num st' x) (tj_grays st')" by (simp add: gr nw oldg)
    show "\<forall>v<length adj. tj_on_stack st' ! v \<longleftrightarrow> v \<in> set (tj_stack st')"
      using sh(3,10) w(1) by (auto simp: st'_def tj_visit_def nth_list_update)
    show "length (tj_index st') = length adj" "length (tj_low st') = length adj" "length (tj_on_stack st') = length adj"
      using sh(1-3) by (simp_all add: st'_def tj_visit_def)
    have "tj_next st' = Suc (tj_next st)" by (simp add: st'_def tj_visit_def)
    then show "\<forall>v\<in>tj_visited st'. tj_num st' v < tj_next st'" unfolding vis using old nw by (auto simp: less_Suc_eq)
    show "set (tj_stack st') \<subseteq> tj_visited st'" "set (tj_grays st') \<subseteq> set (tj_stack st')" unfolding vis stk gr using sh(6,7) by auto
  qed
  moreover have "explored st' (tj_visited st')" unfolding explored_def
  proof (intro conjI ballI impI)
    fix g x assume gx: "g \<in> set (tj_grays st')" "x \<in> set (tj_stack st')" "tj_num st' g \<le> tj_num st' x"
    show "(g, x) \<in> edges\<^sup>*"
    proof (cases "x = w")
      case True
      then show ?thesis using gx(1) reach by (auto simp: gr)
    next
      case False
      then have x: "x \<in> set (tj_stack st)" using gx(2) by (simp add: stk)
      then have "g \<noteq> w" using gx(3) nw olds [of x] by auto
      then have "g \<in> set (tj_grays st)" "tj_num st g \<le> tj_num st x" using gx olds [OF x] oldg [of g] by (auto simp: gr)
      then show ?thesis using I(2) x unfolding explored_def by blast
    qed
  next
    fix x assume "x \<in> set (tj_stack st')"
    then consider "x = w" | "x \<in> set (tj_stack st)" by (auto simp: stk)
    then show "\<exists>g\<in>set (tj_grays st'). tj_num st' g \<le> tj_num st' x \<and> (x, g) \<in> edges\<^sup>*"
    proof cases
      case 2
      then obtain g where "g \<in> set (tj_grays st)" "tj_num st g \<le> tj_num st x" "(x, g) \<in> edges\<^sup>*" using I(2) unfolding explored_def by blast
      then show ?thesis using olds [OF 2] oldg [of g] by (auto simp: gr)
    qed (auto simp: gr)
  qed (use I(2) in \<open>auto simp: explored_def fin vis look\<close>)
  moreover have "lows st'" unfolding lows_def
  proof (intro conjI ballI)
    fix g assume "g \<in> set (tj_grays st')"
    then consider "g = w" | "g \<in> set (tj_grays st)" "g \<noteq> w" using ng by (auto simp: gr)
    note g = this
    show "tj_low st' ! g \<le> tj_num st' g"
      using g by cases (use I(3) oldg [of g] nw in \<open>auto simp: low lows_def\<close>)
    show "\<exists>y\<in>set (tj_stack st'). tj_num st' y = tj_low st' ! g \<and> (g, y) \<in> edges\<^sup>*"
      using g
    proof cases
      case 2
      then obtain y where "y \<in> set (tj_stack st)" "tj_num st y = tj_low st ! g" "(g, y) \<in> edges\<^sup>*" using I(3) unfolding lows_def by blast
      then show ?thesis using 2(2) olds [of y] by (auto simp: low stk)
    qed (auto simp: low stk nw)
    fix x v assume x: "x \<in> segment st' g" "v \<in> looked st' x \<inter> set (tj_stack st')"
    show "tj_low st' ! g \<le> tj_num st' v"
      using g
    proof cases
      case 1
      then show ?thesis using x seg_w look by auto
    next
      case 2
      have g': "tj_low st ! g \<le> tj_num st g" "tj_num st g < tj_next st" using I(3) 2(1) oldg(2) unfolding lows_def by blast+
      have "x \<in> segment st g" "v \<in> looked st x" using x seg [OF 2(1)] look [of x] by (auto split: if_splits)
      then show ?thesis using x(2) I(3) 2 g' olds(1) [of v] nw unfolding lows_def low by (cases "v = w") (auto simp: stk)
    qed
  qed
  moreover have "outputs st'" using I(4) by (simp add: outputs_def out fin)
  ultimately show "tarjan_inv st' (tj_visited st')" by (simp add: tarjan_inv_def)
qed

text \<open>A node whose neighbours are exhausted leaves the work stack, alone or with its component.\<close>

lemma looked_pop:
  assumes "distinct (map fst (tj_work st))" and "tj_work st = (v, pi) # rest" and "length (adj ! v) \<le> pi" and "tj_work st' = rest"
  shows "looked st' = looked st"
proof
  fix u
  have "map_of rest v = None" using assms(1,2) by (simp add: map_of_eq_None_iff)
  then show "looked st' u = looked st u" using assms(2-4) by (simp add: looked_def)
qed

lemma gray_order:
  assumes "shape st" and "tj_work st = (v, pi) # rest" and "g \<in> set (tj_grays st)"
  shows "tj_num st g \<le> tj_num st v" and "g \<noteq> v \<Longrightarrow> tj_num st g < tj_num st v" and "g \<noteq> v \<Longrightarrow> g \<in> fst ` set rest"
  using shapeD(12) [OF assms(1)] assms(2,3) by (auto simp: tj_grays_def)

lemma leave_node:
  assumes inv: "tarjan_inv st (tj_visited st)" and work: "tj_work st = (v, pi) # rest" and pi: "length (adj ! v) \<le> pi"
    and low: "tj_low st ! v < tj_num st v" and parent: "rest = (p, pj) # rest'" "tj_low st ! p \<le> tj_low st ! v"
  shows "tarjan_inv (st\<lparr>tj_work := rest\<rparr>) (tj_visited st)"
proof -
  let ?st = "st\<lparr>tj_work := rest\<rparr>"
  have I: "shape st" "explored st (tj_visited st)" "lows st" "outputs st" using inv by (simp_all add: tarjan_inv_def)
  note sh = shapeD [OF I(1)] and ord = gray_order [OF I(1) work]
  have fields: "tj_num ?st = tj_num st" "tj_visited ?st = tj_visited st" "finished ?st = finished st" "looked ?st = looked st"
    using looked_pop [OF distinct_grays [OF I(1)] work pi, of ?st] by (simp_all add: fun_eq_iff tj_num_def tj_visited_def finished_def)
  have gr: "tj_grays st = v # tj_grays ?st" using work by (simp add: tj_grays_def)
  have v: "v \<in> set (tj_grays st)" and p: "p \<in> set (tj_grays ?st)" using parent(1) by (simp_all add: gr) (simp add: tj_grays_def)
  have notv: "g \<noteq> v" if "g \<in> set (tj_grays ?st)" for g using that distinct_grays [OF I(1)] unfolding tj_grays_def [symmetric] gr by auto
  have pmax: "tj_num st g < tj_num st p" if "g \<in> set (tj_grays ?st)" "g \<noteq> p" for g
    using sh(12) that parent(1) unfolding gr by (auto simp: tj_grays_def)
  have seg: "x \<in> segment st g \<or> g = p \<and> x \<in> segment st v" if g: "g \<in> set (tj_grays ?st)" and x: "x \<in> segment ?st g" for g x
  proof (cases "tj_num st x < tj_num st v")
    case True
    then show ?thesis using x unfolding segment_def fields gr by auto
  next
    case False
    then have "x \<in> segment st v" using x unfolding top_segment [OF I(1) work] by (simp add: segment_def fields)
    moreover have "g = p"
    proof (rule ccontr)
      assume "g \<noteq> p"
      then have "tj_num st x < tj_num st p" using x p pmax [OF g] unfolding segment_def fields by blast
      then show False using False ord(1) [of p] p by (auto simp: gr)
    qed
    ultimately show ?thesis by blast
  qed
  have "lows ?st" unfolding lows_def fields
  proof (intro conjI ballI)
    fix g assume g: "g \<in> set (tj_grays ?st)"
    then have g': "g \<in> set (tj_grays st)" by (simp add: gr)
    show "tj_low ?st ! g \<le> tj_num st g" "\<exists>y\<in>set (tj_stack ?st). tj_num st y = tj_low ?st ! g \<and> (g, y) \<in> edges\<^sup>*"
      using I(3) g' unfolding lows_def by simp_all
    fix x w assume x: "x \<in> segment ?st g" and w: "w \<in> looked st x \<inter> set (tj_stack ?st)"
    have L: "\<forall>w\<in>looked st x \<inter> set (tj_stack st). tj_low st ! h \<le> tj_num st w" if "h \<in> set (tj_grays st)" "x \<in> segment st h" for h
      using I(3) that unfolding lows_def by blast
    have w': "w \<in> looked st x \<inter> set (tj_stack st)" using w by simp
    from seg [OF g x] show "tj_low ?st ! g \<le> tj_num st w"
    proof
      assume "x \<in> segment st g"
      then show ?thesis using L [OF g'] w' by simp
    next
      assume a: "g = p \<and> x \<in> segment st v"
      then have "tj_low st ! v \<le> tj_num st w" using L [OF v] w' by blast
      then show ?thesis using parent(2) a by simp
    qed
  qed
  moreover have "\<exists>g\<in>set (tj_grays ?st). tj_num st g \<le> tj_num st x \<and> (x, g) \<in> edges\<^sup>*" if x: "x \<in> set (tj_stack st)" for x
  proof -
    have up: "\<exists>g\<in>set (tj_grays st). tj_num st g \<le> tj_num st x \<and> (x, g) \<in> edges\<^sup>*" if "x \<in> set (tj_stack st)" for x
      using I(2) that unfolding explored_def by blast
    obtain g where g: "g \<in> set (tj_grays st)" "tj_num st g \<le> tj_num st x" "(x, g) \<in> edges\<^sup>*" using up [OF x] by blast
    show ?thesis
    proof (cases "g = v")
      case False
      then show ?thesis using g by (auto simp: gr)
    next
      case True
      obtain y where y: "y \<in> set (tj_stack st)" "tj_num st y = tj_low st ! v" "(v, y) \<in> edges\<^sup>*" using I(3) v unfolding lows_def by blast
      obtain h where h: "h \<in> set (tj_grays st)" "tj_num st h \<le> tj_num st y" "(y, h) \<in> edges\<^sup>*" using up [OF y(1)] by blast
      have "(x, h) \<in> edges\<^sup>*" using g(3) y(3) h(3) True by (meson rtrancl_trans)
      moreover have "h \<noteq> v" "tj_num st h \<le> tj_num st x" using h(2) y(2) low g(2) True by auto
      ultimately show ?thesis using h(1) by (auto simp: gr)
    qed
  qed
  then have "explored ?st (tj_visited st)" using I(2) gr unfolding explored_def fields by simp
  moreover have "shape ?st" using I(1) gr unfolding shape_def fields by simp
  moreover have "outputs ?st" using I(4) unfolding outputs_def fields by simp
  ultimately show ?thesis by (simp add: tarjan_inv_def)
qed

lemma top_reached:
  assumes "tarjan_inv st X" and "tj_work st = (v, pi) # rest" and "x \<in> set (tj_stack st)"
  shows "(x, v) \<in> edges\<^sup>*"
proof -
  have I: "shape st" "explored st X" using assms(1) by (simp_all add: tarjan_inv_def)
  obtain g where g: "g \<in> set (tj_grays st)" "(x, g) \<in> edges\<^sup>*" using I(2) assms(3) unfolding explored_def by blast
  have "v \<in> set (tj_stack st)" using shapeD(7) [OF I(1)] assms(2) by (auto simp: tj_grays_def)
  then have "(g, v) \<in> edges\<^sup>*" using I(2) g(1) gray_order(1) [OF I(1) assms(2) g(1)] unfolding explored_def by blast
  then show ?thesis using g(2) by (meson rtrancl_trans)
qed

lemma root_component:
  assumes inv: "tarjan_inv st (tj_visited st)" and work: "tj_work st = (v, pi) # rest" and pi: "length (adj ! v) \<le> pi"
    and low: "tj_low st ! v = tj_num st v"
  defines "C \<equiv> {x \<in> set (tj_stack st). tj_num st v \<le> tj_num st x}"
  shows "edges `` C \<subseteq> C \<union> finished st" and "C = component v"
proof -
  have I: "shape st" "explored st (tj_visited st)" "lows st" using inv by (simp_all add: tarjan_inv_def)
  note sh = shapeD [OF I(1)] and ord = gray_order [OF I(1) work]
  have v: "v \<in> set (tj_grays st)" "v \<in> set (tj_stack st)" using sh(7) work by (auto simp: tj_grays_def)
  have seg: "segment st v = C" unfolding C_def by (rule top_segment [OF I(1) work])
  have look: "looked st x = set (adj ! x)" if "x \<in> C" for x
  proof (cases "x = v")
    case True
    then show ?thesis using work pi by (simp add: looked_def)
  next
    case False
    then have "x \<notin> set (tj_grays st)" using ord(2) that unfolding C_def by fastforce
    then have "map_of (tj_work st) x = None" by (simp add: tj_grays_def map_of_eq_None_iff)
    then show ?thesis by (simp add: looked_def)
  qed
  show closed: "edges `` C \<subseteq> C \<union> finished st"
  proof
    fix w assume "w \<in> edges `` C"
    then obtain x where x: "x \<in> C" "w \<in> set (adj ! x)" by (auto simp: edges_def)
    have "x \<in> tj_visited st" using x(1) sh(6) by (auto simp: C_def)
    then have w: "w \<in> tj_visited st" using I(2) x look unfolding explored_def by blast
    show "w \<in> C \<union> finished st"
    proof (cases "w \<in> set (tj_stack st)")
      case True
      then have "tj_low st ! v \<le> tj_num st w" using I(3) v(1) x look [OF x(1)] seg unfolding lows_def by blast
      then show ?thesis using True low by (simp add: C_def)
    qed (use w in \<open>simp add: finished_def\<close>)
  qed
  have fin: "edges `` finished st \<subseteq> finished st" using I(2) unfolding explored_def by blast
  have "edges\<^sup>* `` (C \<union> finished st) \<subseteq> C \<union> finished st" using closed fin by (subst Image_closed_trancl) auto
  moreover have "edges\<^sup>* `` finished st \<subseteq> finished st" using fin by (subst Image_closed_trancl) auto
  moreover have "v \<in> C" "v \<notin> finished st" using v(2) by (simp_all add: C_def finished_def)
  ultimately have "component v \<subseteq> C" unfolding component_def by blast
  moreover have "C \<subseteq> component v"
    using top_reached [OF inv work] I(2) v(1) unfolding component_def C_def explored_def by blast
  ultimately show "C = component v" by blast
qed

lemma stack_split:
  assumes "shape st" and "tj_stack st = a @ v # b"
  shows "set (a @ [v]) = {x \<in> set (tj_stack st). tj_num st v \<le> tj_num st x}" and "set b = {x \<in> set (tj_stack st). tj_num st x < tj_num st v}"
proof -
  have "\<forall>x\<in>set a. tj_num st v < tj_num st x" "\<forall>x\<in>set b. tj_num st x < tj_num st v"
    using shapeD(11) [OF assms(1)] by (auto simp: assms(2) sorted_wrt_append)
  then show "set (a @ [v]) = {x \<in> set (tj_stack st). tj_num st v \<le> tj_num st x}" "set b = {x \<in> set (tj_stack st). tj_num st x < tj_num st v}"
    unfolding assms(2) by fastforce+
qed

lemma pop_root:
  assumes inv: "tarjan_inv st (tj_visited st)" and work: "tj_work st = (v, pi) # rest" and pi: "length (adj ! v) \<le> pi"
    and low: "tj_low st ! v = tj_num st v" and split: "tj_stack st = a @ v # b"
  defines "st' \<equiv> st\<lparr>tj_on_stack := fold (\<lambda>w on. on[w := False]) (a @ [v]) (tj_on_stack st), tj_stack := b, tj_out := tj_out st @ [a @ [v]], tj_work := rest\<rparr>"
  shows "tarjan_inv st' (tj_visited st)"
proof -
  have I: "shape st" "explored st (tj_visited st)" "lows st" "outputs st" using inv by (simp_all add: tarjan_inv_def)
  note sh = shapeD [OF I(1)] and ord = gray_order [OF I(1) work] and C = stack_split [OF I(1) split]
  note root = root_component [OF inv work pi low, folded C(1)]
  have fields: "tj_num st' = tj_num st" "tj_visited st' = tj_visited st" "looked st' = looked st" "tj_low st' = tj_low st" "tj_next st' = tj_next st"
      "tj_stack st' = b" "tj_out st' = tj_out st @ [a @ [v]]" "tj_index st' = tj_index st"
    using looked_pop [OF distinct_grays [OF I(1)] work pi, of st'] by (simp_all add: st'_def fun_eq_iff tj_num_def tj_visited_def)
  have gr: "tj_grays st = v # tj_grays st'" using work by (simp add: st'_def tj_grays_def)
  have dist: "distinct (tj_stack st)" using sh(11) unfolding distinct_conv_nth sorted_wrt_iff_nth_less by (metis nat_neq_iff less_irrefl)
  have small: "tj_num st g < tj_num st v" "g \<in> set (tj_grays st)" "g \<in> set b" if "g \<in> set (tj_grays st')" for g
  proof -
    show g: "g \<in> set (tj_grays st)" using that by (simp add: gr)
    have "g \<noteq> v" using that distinct_grays [OF I(1)] unfolding tj_grays_def [symmetric] gr by auto
    then show "tj_num st g < tj_num st v" using ord(2) g by blast
    then show "g \<in> set b" using C(2) g sh(7) by auto
  qed
  have bsub: "set b \<subseteq> set (tj_stack st)" using split by auto
  have fin: "finished st' = finished st \<union> set (a @ [v])"
    unfolding finished_def fields using sh(6) dist split by auto
  have "tj_on_stack st' = fold (\<lambda>w on. on[w := False]) (a @ [v]) (tj_on_stack st)" by (simp add: st'_def)
  then have on: "length (tj_on_stack st') = length (tj_on_stack st)"
      "u < length adj \<Longrightarrow> tj_on_stack st' ! u \<longleftrightarrow> u \<notin> set (a @ [v]) \<and> tj_on_stack st ! u" for u
    using fold_clear [of "a @ [v]" "tj_on_stack st"] sh(3) by metis+
  have "shape st'" unfolding shape_def fields
  proof (intro conjI)
    show "length (tj_on_stack st') = length adj" using sh(3) on by simp
    have "u \<in> set b \<longleftrightarrow> u \<in> set (tj_stack st) \<and> u \<notin> set (a @ [v])" for u using dist unfolding split by auto
    then show "\<forall>u<length adj. tj_on_stack st' ! u \<longleftrightarrow> u \<in> set b" using on(2) sh(10) by (simp, blast)
    show "sorted_wrt (\<lambda>x y. tj_num st y < tj_num st x) b" using sh(11) unfolding split by (simp add: sorted_wrt_append)
    show "sorted_wrt (\<lambda>x y. tj_num st y < tj_num st x) (tj_grays st')" using sh(12) unfolding gr by simp
    show "\<forall>u\<in>tj_visited st. tj_num st u < tj_next st" using sh(4) by blast
    show "set b \<subseteq> tj_visited st" using bsub sh(6) by blast
    show "set (tj_grays st') \<subseteq> set b" using small(3) by blast
  qed (fact sh)+
  moreover have "explored st' (tj_visited st)" unfolding explored_def fields
  proof (intro conjI)
    show "edges `` finished st' \<subseteq> finished st'" unfolding fin using root(1) I(2) unfolding explored_def by blast
    show "\<forall>x\<in>set b. \<exists>g\<in>set (tj_grays st'). tj_num st g \<le> tj_num st x \<and> (x, g) \<in> edges\<^sup>*"
    proof
      fix x assume x: "x \<in> set b"
      then obtain g where g: "g \<in> set (tj_grays st)" "tj_num st g \<le> tj_num st x" "(x, g) \<in> edges\<^sup>*"
        using I(2) bsub unfolding explored_def by blast
      moreover have "tj_num st x < tj_num st v" using x C(2) by blast
      ultimately have "g \<noteq> v" by auto
      then show "\<exists>g\<in>set (tj_grays st'). tj_num st g \<le> tj_num st x \<and> (x, g) \<in> edges\<^sup>*" using g by (auto simp: gr)
    qed
    show "\<forall>u\<in>tj_visited st. looked st u \<subseteq> tj_visited st"
        "\<forall>g\<in>set (tj_grays st'). \<forall>x\<in>set b. tj_num st g \<le> tj_num st x \<longrightarrow> (g, x) \<in> edges\<^sup>*"
      using I(2) small(2) bsub unfolding explored_def by blast+
  qed
  moreover have "lows st'" unfolding lows_def fields
  proof (intro conjI ballI)
    fix g assume g: "g \<in> set (tj_grays st')"
    have L: "tj_low st ! g \<le> tj_num st g" "\<exists>y\<in>set (tj_stack st). tj_num st y = tj_low st ! g \<and> (g, y) \<in> edges\<^sup>*"
        "\<forall>x\<in>segment st g. \<forall>w\<in>looked st x \<inter> set (tj_stack st). tj_low st ! g \<le> tj_num st w"
      using I(3) small(2) [OF g] unfolding lows_def by blast+
    show "tj_low st ! g \<le> tj_num st g" by (rule L(1))
    show "\<exists>y\<in>set b. tj_num st y = tj_low st ! g \<and> (g, y) \<in> edges\<^sup>*" 
    proof -
      obtain y where y: "y \<in> set (tj_stack st)" "tj_num st y = tj_low st ! g" "(g, y) \<in> edges\<^sup>*" using L(2) by blast
      have "tj_num st y < tj_num st v" using y(2) L(1) small(1) [OF g] by simp
      then have "y \<in> set b" using C(2) y(1) by blast
      then show ?thesis using y by blast
    qed
    fix x w assume x: "x \<in> segment st' g" and w: "w \<in> looked st x \<inter> set b"
    have "x \<in> set b" using x unfolding segment_def fields by blast
    then have "tj_num st x < tj_num st v" using C(2) by blast
    then have "x \<in> segment st g" using x bsub unfolding segment_def fields gr by auto
    then show "tj_low st ! g \<le> tj_num st w" using L(3) w bsub by blast
  qed
  moreover have "outputs st'" unfolding outputs_def fields fin
  proof (intro conjI)
    have "set (a @ [v]) \<inter> finished st = {}" using split by (auto simp: finished_def)
    then show "distinct (concat (tj_out st @ [a @ [v]]))" using I(4) dist split unfolding outputs_def by auto
    show "\<forall>c\<in>set (tj_out st @ [a @ [v]]). \<exists>v<length adj. set c = component v"
      using I(4) root(2) sh(6,9) split unfolding outputs_def by (auto intro: exI [of _ v])
    show "set (concat (tj_out st @ [a @ [v]])) = finished st \<union> set (a @ [v])" using I(4) unfolding outputs_def by simp
  qed
  ultimately show ?thesis by (simp add: tarjan_inv_def)
qed

lemma index_num: "v \<in> tj_visited st \<Longrightarrow> tj_index st ! v = Some i \<longleftrightarrow> tj_num st v = i"
  by (auto simp: tj_visited_def tj_num_def)

lemma leave_inv:
  assumes inv: "tarjan_inv st (tj_visited st)" and work: "tj_work st = (v, pi) # rest" and pi: "length (adj ! v) \<le> pi"
  shows "tarjan_inv (tj_leave v rest st) (tj_visited st)" and "tj_visited (tj_leave v rest st) = tj_visited st" and "tj_work (tj_leave v rest st) = rest"
proof -
  have I: "shape st" "explored st (tj_visited st)" "lows st" using inv by (simp_all add: tarjan_inv_def)
  note sh = shapeD [OF I(1)] and ord = gray_order [OF I(1) work]
  have v: "v \<in> set (tj_grays st)" "v \<in> set (tj_stack st)" "v \<in> tj_visited st" using sh(6,7) work by (auto simp: tj_grays_def)
  have vis: "tj_visited (tj_leave v rest st) = tj_visited st \<and> tj_work (tj_leave v rest st) = rest"
    by (cases "pop_scc v (tj_stack st)") (auto simp: tj_leave_def tj_pop_def tj_visited_def Let_def split: list.splits)
  then show "tj_visited (tj_leave v rest st) = tj_visited st" "tj_work (tj_leave v rest st) = rest" by simp_all
  have L: "tj_low st ! g \<le> tj_num st g" "\<exists>y\<in>set (tj_stack st). tj_num st y = tj_low st ! g \<and> (g, y) \<in> edges\<^sup>*" if "g \<in> set (tj_grays st)" for g
    using I(3) that unfolding lows_def by blast+
  have pv: "p \<noteq> v" "tj_num st p < tj_num st v" "p \<in> set (tj_grays st)" if "rest = (p, pj) # rest'" for p pj rest'
    using sh(12) that work by (auto simp: tj_grays_def)
  show "tarjan_inv (tj_leave v rest st) (tj_visited st)"
  proof (cases "tj_low st ! v = tj_num st v")
    case True
    obtain a b where ab: "tj_stack st = a @ v # b" "pop_scc v (tj_stack st) = (a @ [v], b)" using pop_scc_split [OF v(2)] by blast
    have "(tj_low st)[p := min (tj_low st ! p) (tj_low st ! v)] = tj_low st" if "rest = (p, pj) # rest'" for p pj rest'
      using L(1) [OF pv(3) [OF that]] pv(2) [OF that] True by (simp add: min_def)
    then have "tj_leave v rest st = st\<lparr>tj_on_stack := fold (\<lambda>w on. on[w := False]) (a @ [v]) (tj_on_stack st), tj_stack := b,
        tj_out := tj_out st @ [a @ [v]], tj_work := rest\<rparr>"
      using ab(2) True v(3) by (auto simp: tj_leave_def tj_pop_def index_num Let_def split: list.splits)
    then show ?thesis using pop_root [OF inv work pi True ab(1)] by simp
  next
    case False
    then have low: "tj_low st ! v < tj_num st v" using L(1) [OF v(1)] by simp
    obtain y where y: "y \<in> set (tj_stack st)" "tj_num st y = tj_low st ! v" "(v, y) \<in> edges\<^sup>*" using L(2) [OF v(1)] by blast
    obtain g where g: "g \<in> set (tj_grays st)" "tj_num st g \<le> tj_num st y" using I(2) y(1) unfolding explored_def by blast
    have "g \<noteq> v" using g(2) low y(2) by auto
    then have "g \<in> fst ` set rest" using ord(3) [OF g(1)] by blast
    then obtain p pj rest' where rest: "rest = (p, pj) # rest'" by (cases rest) auto
    note p = pv [OF rest]
    let ?st = "st\<lparr>tj_low := (tj_low st)[p := min (tj_low st ! p) (tj_num st y)]\<rparr>"
    have "(p, v) \<in> edges\<^sup>*" using I(2) p v(2) unfolding explored_def by auto
    then have inv': "tarjan_inv ?st (tj_visited st)" using low_update [OF inv p(3) y(1)] y(3) by (meson rtrancl_trans)
    have len: "p < length (tj_low st)" using sh(2,8,9) p(3) by auto
    have vis': "tj_visited ?st = tj_visited st" "tj_num ?st = tj_num st" by (simp_all add: tj_visited_def tj_num_def fun_eq_iff)
    have "tarjan_inv (?st\<lparr>tj_work := rest\<rparr>) (tj_visited st)"
      using leave_node [of ?st v pi rest p pj rest'] inv' work pi rest low p(1) len y(2) vis' by simp
    moreover have "tj_leave v rest st = ?st\<lparr>tj_work := rest\<rparr>"
      using False v(3) rest y(2) by (simp add: tj_leave_def tj_pop_def index_num)
    ultimately show ?thesis by simp
  qed
qed

section \<open>Termination and result\<close>

definition tail_started :: "tarjan_state \<Rightarrow> bool" where
  "tail_started st \<longleftrightarrow> (\<forall>f\<in>set (tl (tj_work st)). 0 < snd f)"

definition to_do :: "tarjan_state \<Rightarrow> nat" where
  "to_do st = (\<Sum>f\<leftarrow>tj_work st. 2 * (length (adj ! fst f) - snd f) + 1) + (\<Sum>u\<in>{..<length adj} - tj_visited st. 2 * length (adj ! u) + 2)"

lemma enter_started: "tj_work st = [] \<or> 0 < snd (hd (tj_work st)) \<Longrightarrow> tj_enter st = st"
  by (auto simp: tj_enter_def split: list.splits nat.splits)

definition good :: "tarjan_state \<Rightarrow> bool" where
  "good st \<longleftrightarrow> tarjan_inv st (tj_visited st) \<and> tail_started st"

definition progress :: "tarjan_state \<Rightarrow> tarjan_state \<Rightarrow> bool" where
  "progress st st' \<longleftrightarrow> good st' \<and> to_do st' < to_do st \<and> tj_visited st \<subseteq> tj_visited st'"

lemma looked_edge:
  assumes "good st" and "tj_work st = (v, pi) # rest" and "pi < length (adj ! v)"
  shows "(v, adj ! v ! pi) \<in> edges" "adj ! v ! pi < length adj" "v \<in> set (tj_grays st)" "v \<in> tj_visited st"
proof -
  have "shape st" using assms(1) by (simp add: good_def tarjan_inv_def)
  from shapeD(8,9) [OF this] show v: "v \<in> set (tj_grays st)" "v \<in> tj_visited st" using assms(2) by (auto simp: tj_grays_def)
  then have "v < length adj" using shapeD(9) \<open>shape st\<close> by blast
  then show "(v, adj ! v ! pi) \<in> edges" "adj ! v ! pi < length adj" using closed assms(3) by (auto simp: edges_def)
qed

lemma step_known:
  assumes good: "good st" and work: "tj_work st = (v, pi) # rest" and pi: "pi < length (adj ! v)"
    and vis: "adj ! v ! pi \<in> tj_visited st" and st': "st' = st\<lparr>tj_work := (v, Suc pi) # rest\<rparr>"
    and low: "adj ! v ! pi \<in> set (tj_stack st) \<Longrightarrow> tj_low st ! v \<le> tj_num st (adj ! v ! pi)"
  shows "progress st (tj_enter st')"
proof -
  have "tarjan_inv st' (tj_visited st)" using advance [OF _ work pi low] good vis unfolding st' good_def by (simp add: insert_absorb)
  moreover have v: "tj_visited st' = tj_visited st" by (simp add: st' tj_visited_def)
  moreover have "tj_enter st' = st'" by (rule enter_started) (simp add: st')
  moreover have "tail_started st'" using good work by (auto simp: good_def tail_started_def st')
  moreover have "to_do st' < to_do st" using work pi unfolding to_do_def v by (simp add: st')
  ultimately show ?thesis by (simp add: progress_def good_def)
qed

lemma step_new:
  assumes good: "good st" and work: "tj_work st = (v, pi) # rest" and pi: "pi < length (adj ! v)"
    and new: "tj_index st ! (adj ! v ! pi) = None" and st': "st' = st\<lparr>tj_work := (adj ! v ! pi, 0) # (v, Suc pi) # rest\<rparr>"
  shows "progress st (tj_enter st')"
proof -
  let ?w = "adj ! v ! pi" and ?st = "st\<lparr>tj_work := (v, Suc pi) # rest\<rparr>"
  have I: "shape st" "explored st (tj_visited st)" using good by (simp_all add: good_def tarjan_inv_def)
  note e = looked_edge [OF good work pi]
  have nv: "?w \<notin> tj_visited st" using new by (simp add: tj_visited_def)
  then have "?w \<notin> set (tj_stack st)" using shapeD(6) [OF I(1)] by blast
  then have adv: "tarjan_inv ?st (insert ?w (tj_visited ?st))" using advance [OF _ work pi] good by (simp add: good_def tj_visited_def)
  have reach: "(g, ?w) \<in> edges\<^sup>*" if "g \<in> set (tj_grays ?st)" for g
  proof -
    have g: "g \<in> set (tj_grays st)" using that work by (simp add: tj_grays_def)
    moreover have "v \<in> set (tj_stack st)" using shapeD(7) [OF I(1)] e(3) by blast
    ultimately have "(g, v) \<in> edges\<^sup>*" using I(2) gray_order(1) [OF I(1) work g] unfolding explored_def by blast
    then show ?thesis using e(1) by (rule rtrancl_into_rtrancl)
  qed
  have en: "tj_enter st' = tj_visit ?w (?st\<lparr>tj_work := (?w, 0) # tj_work ?st\<rparr>)" by (simp add: tj_enter_def st')
  note V = visit_node [OF adv e(2) _ reach, folded en]
  have vis: "tj_visited (tj_enter st') = insert ?w (tj_visited st)" using V(2) new by (simp add: tj_visited_def)
  have wk: "tj_work (tj_enter st') = (?w, 0) # (v, Suc pi) # rest" by (simp add: en tj_visit_def)
  have "{..<length adj} - tj_visited st = insert ?w ({..<length adj} - tj_visited (tj_enter st'))" "?w \<notin> {..<length adj} - tj_visited (tj_enter st')"
    unfolding vis using e(2) nv by auto
  then have "to_do (tj_enter st') < to_do st" unfolding to_do_def wk using work pi by simp
  moreover have "tail_started (tj_enter st')" using good work by (auto simp: good_def tail_started_def wk)
  ultimately show ?thesis using V(1) new vis by (auto simp: progress_def good_def)
qed

lemma low_step_good:
  assumes good: "good st" and work: "tj_work st = (v, pi) # rest" and pi: "pi < length (adj ! v)" and on: "adj ! v ! pi \<in> set (tj_stack st)"
  defines "st' \<equiv> st\<lparr>tj_low := (tj_low st)[v := min (tj_low st ! v) (tj_num st (adj ! v ! pi))]\<rparr>"
  shows "good st'" and "tj_low st' ! v \<le> tj_num st' (adj ! v ! pi)" and "tj_visited st' = tj_visited st" "to_do st' = to_do st"
proof -
  note e = looked_edge [OF good work pi]
  show vis: "tj_visited st' = tj_visited st" by (simp add: st'_def tj_visited_def)
  then show "to_do st' = to_do st" by (simp add: to_do_def) (simp add: st'_def)
  have "tarjan_inv st' (tj_visited st)" using low_update [OF _ e(3) on] e(1) good unfolding good_def st'_def by auto
  then show "good st'" using good vis by (simp add: good_def tail_started_def) (simp add: st'_def)
  have "shape st" using good by (simp add: good_def tarjan_inv_def)
  then have "v < length (tj_low st)" using shapeD(2,9) e(4) by metis
  then show "tj_low st' ! v \<le> tj_num st' (adj ! v ! pi)" by (simp add: st'_def tj_num_def)
qed

lemma step_progress:
  assumes good: "good st" and work: "tj_work st = (v, pi) # rest"
  shows "progress st (tj_enter (tj_process adj st))"
proof (cases "pi < length (adj ! v)")
  case pi: True
  let ?w = "adj ! v ! pi"
  note e = looked_edge [OF good work pi]
  have I: "shape st" using good by (simp add: good_def tarjan_inv_def)
  show ?thesis
  proof (cases "tj_index st ! ?w")
    case None
    then show ?thesis using step_new [OF good work pi None refl] by (simp add: tj_process_def work pi)
  next
    case (Some i)
    then have w: "?w \<in> tj_visited st" and i: "i = tj_num st ?w" using e(2) shapeD(1) [OF I] by (auto simp: tj_visited_def tj_num_def)
    have on: "tj_on_stack st ! ?w \<longleftrightarrow> ?w \<in> set (tj_stack st)" using shapeD(10) [OF I] e(2) .
    show ?thesis
    proof (cases "?w \<in> set (tj_stack st)")
      case True
      let ?st = "st\<lparr>tj_low := (tj_low st)[v := min (tj_low st ! v) (tj_num st ?w)]\<rparr>"
      note l = low_step_good [OF good work pi True]
      have "tj_process adj st = ?st\<lparr>tj_work := (v, Suc pi) # rest\<rparr>" using True on i Some by (simp add: tj_process_def work pi)
      then have "progress ?st (tj_enter (tj_process adj st))" using step_known [OF l(1) _ pi _ _ l(2)] work w l(3) by simp
      then show ?thesis using l(3,4) by (simp add: progress_def)
    next
      case False
      then show ?thesis using step_known [OF good work pi w refl] on Some by (simp add: tj_process_def work pi)
    qed
  qed
next
  case False
  then have pi: "length (adj ! v) \<le> pi" by simp
  let ?st = "tj_leave v rest st"
  have inv: "tarjan_inv st (tj_visited st)" using good by (simp add: good_def)
  note l = leave_inv [OF inv work pi]
  have pr: "tj_process adj st = ?st" using False by (simp add: tj_process_def work)
  have tl: "0 < snd f" if "f \<in> set rest" for f using good work that by (auto simp: good_def tail_started_def)
  then have "tj_enter ?st = ?st" using l(3) by (intro enter_started) (cases rest, auto)
  moreover have "tail_started ?st" using tl l(3) by (cases rest) (auto simp: tail_started_def)
  moreover have "to_do ?st < to_do st" unfolding to_do_def l(2,3) work by simp
  ultimately show ?thesis using l by (simp add: pr progress_def good_def)
qed

lemma enter_work [simp]: "tj_work (tj_enter st) = tj_work st"
  by (auto simp: tj_enter_def tj_visit_def split: list.splits nat.splits)

lemma loop_ends:
  assumes "good (tj_enter st)"
  shows "\<exists>st'. tarjan_loop adj st = Some st' \<and> good st' \<and> tj_work st' = [] \<and> tj_visited (tj_enter st) \<subseteq> tj_visited st'"
  using assms
proof (induction "to_do (tj_enter st)" arbitrary: st rule: less_induct)
  case less
  show ?case
  proof (cases "tj_work st")
    case Nil
    then show ?thesis using less.prems enter_started [of st] by (subst tarjan_loop.simps) simp
  next
    case (Cons f rest)
    obtain v pi where f: "f = (v, pi)" by fastforce
    have p: "progress (tj_enter st) (tj_enter (tj_process adj (tj_enter st)))" using step_progress [OF less.prems] Cons f by simp
    from less.hyps [of "tj_process adj (tj_enter st)"] p show ?thesis
      unfolding progress_def using Cons by (subst tarjan_loop.simps) (auto intro: order_trans)
  qed
qed

lemma start_good:
  assumes "good st" and "tj_work st = []" and "v < length adj" and "tj_index st ! v = None"
  shows "good (tj_enter (st\<lparr>tj_work := [(v, 0)]\<rparr>))" and "v \<in> tj_visited (tj_enter (st\<lparr>tj_work := [(v, 0)]\<rparr>))"
    and "tj_visited st \<subseteq> tj_visited (tj_enter (st\<lparr>tj_work := [(v, 0)]\<rparr>))"
proof -
  let ?st = "st\<lparr>tj_work := [(v, 0)]\<rparr>"
  have en: "tj_enter ?st = tj_visit v (st\<lparr>tj_work := (v, 0) # tj_work st\<rparr>)" using assms(2) by (simp add: tj_enter_def)
  have "tarjan_inv st (insert v (tj_visited st))" using assms(1) unfolding good_def tarjan_inv_def explored_def by blast
  note V = visit_node [OF this assms(3,4), folded en]
  have "set (tj_grays st) = {}" using assms(2) by (simp add: tj_grays_def)
  then show "good (tj_enter ?st)" "v \<in> tj_visited (tj_enter ?st)" "tj_visited st \<subseteq> tj_visited (tj_enter ?st)"
    using V by (auto simp: good_def tail_started_def)
qed

lemma starts_end:
  assumes "good st" and "tj_work st = []" and "set vs \<subseteq> {..<length adj}"
  shows "\<exists>st'. tarjan_starts adj vs st = Some st' \<and> good st' \<and> tj_work st' = [] \<and> tj_visited st \<union> set vs \<subseteq> tj_visited st'"
  using assms
proof (induction vs arbitrary: st)
  case (Cons v vs)
  show ?case
  proof (cases "tj_index st ! v = None")
    case True
    have v: "v < length adj" using Cons.prems(3) by simp
    note s = start_good [OF Cons.prems(1,2) v True]
    obtain st1 where st1: "tarjan_loop adj (st\<lparr>tj_work := [(v, 0)]\<rparr>) = Some st1" "good st1" "tj_work st1 = []"
      "tj_visited (tj_enter (st\<lparr>tj_work := [(v, 0)]\<rparr>)) \<subseteq> tj_visited st1" using loop_ends [OF s(1)] by blast
    then show ?thesis using Cons.IH [OF st1(2,3)] Cons.prems(3) True s(2,3) by fastforce
  next
    case False
    have "shape st" using Cons.prems(1) by (simp add: good_def tarjan_inv_def)
    then have "v \<in> tj_visited st" using False Cons.prems(3) shapeD(1) by (auto simp: tj_visited_def)
    then show ?thesis using Cons.IH [OF Cons.prems(1,2)] Cons.prems(3) False by auto
  qed
qed simp

lemma init_good: "good (tarjan_init (length adj))" and init_work: "tj_work (tarjan_init (length adj)) = []"
proof -
  let ?s = "tarjan_init (length adj)"
  show "tj_work ?s = []" by (simp add: tarjan_init_def)
  have e: "tj_visited ?s = {}" "tj_grays ?s = []" "tj_stack ?s = []" "finished ?s = {}" "tj_out ?s = []"
    by (simp_all add: tarjan_init_def tj_visited_def tj_grays_def finished_def)
  have "shape ?s" unfolding shape_def e by (simp add: tarjan_init_def)
  then show "good ?s" unfolding good_def tarjan_inv_def explored_def lows_def outputs_def tail_started_def e by (simp add: tarjan_init_def)
qed

lemma component_self: "v \<in> component v"
  by (simp add: component_def)

lemma component_eq: "w \<in> component v \<Longrightarrow> component w = component v"
  unfolding component_def by (auto intro: rtrancl_trans)

lemma scc_exact:
  "\<exists>out. tarjan_scc adj = Some out \<and> distinct (concat out) \<and> set (concat out) = {..<length adj} \<and> set ` set out = component ` {..<length adj}"
proof -
  have "set [0..<length adj] \<subseteq> {..<length adj}" by auto
  note ends = starts_end [OF init_good init_work this]
  obtain st where st: "tarjan_starts adj [0..<length adj] (tarjan_init (length adj)) = Some st" "good st" "tj_work st = []"
      "set [0..<length adj] \<subseteq> tj_visited st"
    using ends by blast
  have I: "shape st" "explored st (tj_visited st)" "outputs st" using st(2) by (simp_all add: good_def tarjan_inv_def)
  have "tj_stack st = []" using I(2) st(3) by (auto simp: explored_def tj_grays_def)
  then have fin: "finished st = {..<length adj}" using st(4) shapeD(9) [OF I(1)] by (auto simp: finished_def)
  have comp: "\<exists>v<length adj. set c = component v" if "c \<in> set (tj_out st)" for c using I(3) that unfolding outputs_def by blast
  have all: "set (concat (tj_out st)) = {..<length adj}" using I(3) fin by (simp add: outputs_def)
  have "component v \<in> set ` set (tj_out st)" if "v < length adj" for v
  proof -
    have "v \<in> set (concat (tj_out st))" using all that by blast
    then obtain c where c: "c \<in> set (tj_out st)" "v \<in> set c" by auto
    obtain u where "set c = component u" using comp [OF c(1)] by blast
    then have "set c = component v" using component_eq c(2) by blast
    then show ?thesis using c(1) by blast
  qed
  then have "set ` set (tj_out st) = component ` {..<length adj}" using comp by blast
  then show ?thesis using st(1) I(3) all by (simp add: tarjan_scc_def outputs_def)
qed

end

end
