(* ===== verification/Conc_Lockorder.thy ===== *)
theory Conc_Lockorder
  imports Conc_Tarjan "HOL-Library.List_Lexorder" "HOL-Library.Char_ord"
begin

text \<open>
  The lock-order pass of \<open>crates/verifier/src/lockorder.rs\<close>: edges between lock classes are interned into a graph, its strongly connected
  components of two or more classes are the reported cycles. The functions of a component are collected from a \<open>HashMap\<close>, then sorted and
  de-duplicated, so that its iteration order does not matter; here the table is a list in order of insertion.
\<close>

record lock_order_cycle =
  lc_classes :: "string list"
  lc_functions :: "string list"

record tagged_edge =
  te_function :: string
  te_from :: string
  te_to :: string

record lock_graph =
  lg_ids :: "string \<rightharpoonup> nat"
  lg_names :: "string list"
  lg_adj :: "nat list list"
  lg_fns :: "((nat \<times> nat) \<times> string list) list"

definition lg_node :: "string \<Rightarrow> lock_graph \<Rightarrow> nat \<times> lock_graph" where
  "lg_node s g =
     (case lg_ids g s of
        Some i \<Rightarrow> (i, g)
      | None \<Rightarrow> let i = length (lg_names g) in (i, g\<lparr>lg_names := lg_names g @ [s], lg_ids := (lg_ids g)(s \<mapsto> i)\<rparr>))"

definition lg_ensure :: "nat \<Rightarrow> nat list list \<Rightarrow> nat list list" where
  "lg_ensure n a = a @ replicate (Suc n - length a) []"

fun push_fn :: "nat \<times> nat \<Rightarrow> string \<Rightarrow> ((nat \<times> nat) \<times> string list) list \<Rightarrow> ((nat \<times> nat) \<times> string list) list" where
  "push_fn k f [] = [(k, [f])]"
| "push_fn k f ((k', fs) # m) = (if k' = k then (k', fs @ [f]) # m else (k', fs) # push_fn k f m)"

definition add_edge :: "tagged_edge \<Rightarrow> lock_graph \<Rightarrow> lock_graph" where
  "add_edge e g =
     (let (u, g) = lg_node (te_from e) g; (v, g) = lg_node (te_to e) g; a = lg_ensure (max u v) (lg_adj g) in
      g\<lparr>lg_adj := a[u := a ! u @ [v]], lg_fns := push_fn (u, v) (te_function e) (lg_fns g)\<rparr>)"

definition lock_graph_of :: "tagged_edge list \<Rightarrow> lock_graph" where
  "lock_graph_of es = fold add_edge es \<lparr>lg_ids = Map.empty, lg_names = [], lg_adj = [], lg_fns = []\<rparr>"

definition cycle_of :: "lock_graph \<Rightarrow> nat list \<Rightarrow> lock_order_cycle" where
  "cycle_of g scc =
     \<lparr>lc_classes = sort (map ((!) (lg_names g)) scc),
      lc_functions = remdups_adj (sort (concat (map snd (filter (\<lambda>((u, v), _). u \<in> set scc \<and> v \<in> set scc) (lg_fns g)))))\<rparr>"

definition detect_cycles :: "tagged_edge list \<Rightarrow> lock_order_cycle list option" where
  "detect_cycles es =
     (let g = lock_graph_of es in
      map_option (\<lambda>sccs. sort_key lc_classes (map (cycle_of g) (filter (\<lambda>scc. \<not> length scc < 2) sccs))) (tarjan_scc (lg_adj g)))"

lemma detect_cycles_example:
  "detect_cycles [\<lparr>te_function = ''f'', te_from = ''A'', te_to = ''B''\<rparr>, \<lparr>te_function = ''g'', te_from = ''B'', te_to = ''A''\<rparr>,
      \<lparr>te_function = ''g'', te_from = ''B'', te_to = ''C''\<rparr>, \<lparr>te_function = ''f'', te_from = ''B'', te_to = ''A''\<rparr>]
   = Some [\<lparr>lc_classes = [''A'', ''B''], lc_functions = [''f'', ''g'']\<rparr>]"
  by code_simp

section \<open>The interned graph\<close>

definition interned :: "lock_graph \<Rightarrow> bool" where
  "interned g \<longleftrightarrow> distinct (lg_names g) \<and> (\<forall>s i. lg_ids g s = Some i \<longleftrightarrow> i < length (lg_names g) \<and> lg_names g ! i = s)"

lemma lg_node_interns:
  assumes "interned g" and "lg_node s g = (i, g')"
  shows "interned g' \<and> i < length (lg_names g') \<and> lg_names g' ! i = s \<and> (\<exists>more. lg_names g' = lg_names g @ more \<and> set more \<subseteq> {s}) \<and>
    lg_adj g' = lg_adj g \<and> lg_fns g' = lg_fns g"
proof (cases "lg_ids g s")
  case None
  have new: "s \<notin> set (lg_names g)" using assms(1) None unfolding interned_def by (metis in_set_conv_nth option.distinct(1))
  have g': "g' = g\<lparr>lg_names := lg_names g @ [s], lg_ids := (lg_ids g)(s \<mapsto> length (lg_names g))\<rparr>" "i = length (lg_names g)"
    using assms(2) None by (auto simp: lg_node_def Let_def)
  have "interned g'" using assms(1) new unfolding interned_def g' by (auto simp: nth_append less_Suc_eq)
  then show ?thesis by (simp add: g')
next
  case (Some j)
  then show ?thesis using assms by (auto simp: lg_node_def interned_def)
qed

lemma lg_node_cases:
  assumes "interned g" and "lg_node s g = (i, g')"
  shows "interned g'" and "i < length (lg_names g')" "lg_names g' ! i = s" and "\<exists>more. lg_names g' = lg_names g @ more \<and> set more \<subseteq> {s}"
    and "lg_adj g' = lg_adj g" "lg_fns g' = lg_fns g"
  using lg_node_interns [OF assms] by blast+

definition holds_edges :: "tagged_edge list \<Rightarrow> lock_graph \<Rightarrow> bool" where
  "holds_edges es g \<longleftrightarrow>
     length (lg_adj g) = length (lg_names g) \<and> set (lg_names g) = (\<Union>e\<in>set es. {te_from e, te_to e}) \<and>
     (\<forall>u v. u < length (lg_names g) \<and> v \<in> set (lg_adj g ! u) \<longleftrightarrow>
        u < length (lg_names g) \<and> v < length (lg_names g) \<and> (\<exists>e\<in>set es. te_from e = lg_names g ! u \<and> te_to e = lg_names g ! v)) \<and>
     (\<forall>u v f. (\<exists>fs. ((u, v), fs) \<in> set (lg_fns g) \<and> f \<in> set fs) \<longleftrightarrow>
        u < length (lg_names g) \<and> v < length (lg_names g) \<and> (\<exists>e\<in>set es. te_function e = f \<and> te_from e = lg_names g ! u \<and> te_to e = lg_names g ! v))"

lemma push_fn_mem: "(\<exists>fs. (k, fs) \<in> set (push_fn k' f' m) \<and> f \<in> set fs) \<longleftrightarrow> (\<exists>fs. (k, fs) \<in> set m \<and> f \<in> set fs) \<or> k = k' \<and> f = f'"
  by (induction k' f' m rule: push_fn.induct) auto

lemma lg_ensure_nth: "length (lg_ensure n a) = max (length a) (Suc n)" "u < length (lg_ensure n a) \<Longrightarrow> lg_ensure n a ! u = (if u < length a then a ! u else [])"
  by (auto simp: lg_ensure_def nth_append)

lemma add_edge_holds:
  assumes int: "interned g" and holds: "holds_edges es g"
  shows "interned (add_edge e g)" and "holds_edges (es @ [e]) (add_edge e g)"
proof -
  obtain u g1 where 1: "lg_node (te_from e) g = (u, g1)" by fastforce
  obtain v g2 where 2: "lg_node (te_to e) g1 = (v, g2)" by fastforce
  note n1 = lg_node_cases [OF int 1] and n2 = lg_node_cases [OF lg_node_cases(1) [OF int 1] 2]
  obtain m1 m2 where m: "lg_names g1 = lg_names g @ m1" "set m1 \<subseteq> {te_from e}" "lg_names g2 = lg_names g1 @ m2" "set m2 \<subseteq> {te_to e}"
    using n1(4) n2(4) by blast
  let ?N = "lg_names g2" and ?n = "length (lg_names g)" and ?a = "lg_ensure (max u v) (lg_adj g)"
  define more where "more = m1 @ m2"
  have N: "?N = lg_names g @ more" "set more \<subseteq> {te_from e, te_to e}" using m by (auto simp: more_def)
  have u: "u < length ?N" "?N ! u = te_from e" using n1(2,3) m(3) by (auto simp: nth_append)
  have v: "v < length ?N" "?N ! v = te_to e" using n2(2,3) by auto
  have dist: "distinct ?N" using n2(1) by (simp add: interned_def)
  have H: "length (lg_adj g) = ?n" "set (lg_names g) = (\<Union>e\<in>set es. {te_from e, te_to e})" using holds by (simp_all add: holds_edges_def)
  have len: "length ?a = length ?N"
  proof (cases more rule: rev_cases)
    case Nil
    then show ?thesis using u(1) v(1) N(1) H(1) by (simp add: lg_ensure_nth)
  next
    case (snoc ms y)
    then have "?N ! (length ?N - 1) \<in> {te_from e, te_to e}" using N by (auto simp: nth_append)
    then have "length ?N - 1 = u \<or> length ?N - 1 = v" using dist u v snoc N(1) unfolding distinct_conv_nth by (metis diff_Suc_1 insertE length_append_singleton append_assoc lessI singletonD)
    then show ?thesis using u(1) v(1) H(1) N(1) by (auto simp: lg_ensure_nth)
  qed
  have old: "a < ?n" if "d \<in> set es" "?N ! a = te_from d \<or> ?N ! a = te_to d" "a < length ?N" for a d
  proof -
    have "?N ! a \<in> set (lg_names g)" using that(1,2) H(2) by auto
    then obtain b where "b < ?n" "?N ! b = ?N ! a" unfolding N(1) in_set_conv_nth by (auto simp: nth_append)
    then show ?thesis using dist that(3) N(1) unfolding distinct_conv_nth by (metis length_append trans_less_add1)
  qed
  have same: "?N ! a = lg_names g ! a" if "a < ?n" for a using that N(1) by (simp add: nth_append)
  have g': "add_edge e g = g2\<lparr>lg_adj := ?a[u := ?a ! u @ [v]], lg_fns := push_fn (u, v) (te_function e) (lg_fns g)\<rparr>"
    using 1 2 n1(5,6) n2(5,6) by (simp add: add_edge_def Let_def)
  have fld: "lg_names (add_edge e g) = ?N" "lg_adj (add_edge e g) = ?a[u := ?a ! u @ [v]]" "lg_fns (add_edge e g) = push_fn (u, v) (te_function e) (lg_fns g)"
    by (simp_all add: g')
  show "interned (add_edge e g)" using n2(1) by (simp add: g' interned_def)
  have uv: "a = u" if "a < length ?N" "?N ! a = te_from e" for a using nth_eq_iff_index_eq [OF dist that(1) u(1)] that(2) u(2) by simp
  have vv: "a = v" if "a < length ?N" "?N ! a = te_to e" for a using nth_eq_iff_index_eq [OF dist that(1) v(1)] that(2) v(2) by simp
  have E: "a < ?n \<and> b \<in> set (lg_adj g ! a) \<longleftrightarrow> a < ?n \<and> b < ?n \<and> (\<exists>d\<in>set es. te_from d = lg_names g ! a \<and> te_to d = lg_names g ! b)" for a b
    using holds unfolding holds_edges_def by blast
  have F: "(\<exists>fs. ((a, b), fs) \<in> set (lg_fns g) \<and> f \<in> set fs) \<longleftrightarrow>
      a < ?n \<and> b < ?n \<and> (\<exists>d\<in>set es. te_function d = f \<and> te_from d = lg_names g ! a \<and> te_to d = lg_names g ! b)" for a b f
    using holds unfolding holds_edges_def by blast
  have lift: "(a < ?n \<and> b < ?n \<and> (\<exists>d\<in>set es. P d \<and> te_from d = lg_names g ! a \<and> te_to d = lg_names g ! b)) \<longleftrightarrow>
      a < length ?N \<and> b < length ?N \<and> (\<exists>d\<in>set es. P d \<and> te_from d = ?N ! a \<and> te_to d = ?N ! b)" for a b P
    using old same N(1) by (metis length_append trans_less_add1)
  have adj': "b \<in> set (?a[u := ?a ! u @ [v]] ! a) \<longleftrightarrow> (a < ?n \<and> b \<in> set (lg_adj g ! a)) \<or> a = u \<and> b = v" if "a < length ?N" for a b
    using that len u(1) H(1) by (auto simp: nth_list_update lg_ensure_nth(2))
  show "holds_edges (es @ [e]) (add_edge e g)" unfolding holds_edges_def
  proof (intro conjI allI)
    show "length (lg_adj (add_edge e g)) = length (lg_names (add_edge e g))" using len by (simp add: g')
    show "set (lg_names (add_edge e g)) = (\<Union>e\<in>set (es @ [e]). {te_from e, te_to e})"
      using N H(2) nth_mem [OF u(1)] nth_mem [OF v(1)] u(2) v(2) by (auto simp: g')
    fix a b
    have new: "(a < length ?N \<and> b < length ?N \<and> te_from e = ?N ! a \<and> te_to e = ?N ! b) \<longleftrightarrow> a = u \<and> b = v" using uv vv u v by metis
    have ex: "(\<exists>d\<in>set (es @ [e]). P d) \<longleftrightarrow> (\<exists>d\<in>set es. P d) \<or> P e" for P by auto
    have "a < length ?N \<and> b \<in> set (?a[u := ?a ! u @ [v]] ! a) \<longleftrightarrow> (a < ?n \<and> b \<in> set (lg_adj g ! a)) \<or> a = u \<and> b = v"
      using adj' [of a b] N(1) u(1) by auto
    also have "\<dots> \<longleftrightarrow> (a < length ?N \<and> b < length ?N \<and> (\<exists>d\<in>set es. te_from d = ?N ! a \<and> te_to d = ?N ! b)) \<or>
        (a < length ?N \<and> b < length ?N \<and> te_from e = ?N ! a \<and> te_to e = ?N ! b)"
      unfolding E new using lift [of a b "\<lambda>_. True"] by simp
    finally show "a < length (lg_names (add_edge e g)) \<and> b \<in> set (lg_adj (add_edge e g) ! a) \<longleftrightarrow> a < length (lg_names (add_edge e g)) \<and>
        b < length (lg_names (add_edge e g)) \<and> (\<exists>d\<in>set (es @ [e]). te_from d = lg_names (add_edge e g) ! a \<and> te_to d = lg_names (add_edge e g) ! b)"
      unfolding ex fld by blast
    fix f
    have "(\<exists>fs. ((a, b), fs) \<in> set (lg_fns (add_edge e g)) \<and> f \<in> set fs) \<longleftrightarrow>
        (a < length ?N \<and> b < length ?N \<and> (\<exists>d\<in>set es. te_function d = f \<and> te_from d = ?N ! a \<and> te_to d = ?N ! b)) \<or>
        (a < length ?N \<and> b < length ?N \<and> te_from e = ?N ! a \<and> te_to e = ?N ! b) \<and> f = te_function e"
      unfolding fld push_fn_mem F new using lift [of a b "\<lambda>d. te_function d = f"] by simp
    then show "(\<exists>fs. ((a, b), fs) \<in> set (lg_fns (add_edge e g)) \<and> f \<in> set fs) \<longleftrightarrow> a < length (lg_names (add_edge e g)) \<and> b < length (lg_names (add_edge e g)) \<and>
        (\<exists>d\<in>set (es @ [e]). te_function d = f \<and> te_from d = lg_names (add_edge e g) ! a \<and> te_to d = lg_names (add_edge e g) ! b)"
      unfolding ex fld by blast
  qed
qed

lemma lock_graph_holds: "interned (lock_graph_of es)" "holds_edges es (lock_graph_of es)"
proof -
  have "interned (lock_graph_of es) \<and> holds_edges es (lock_graph_of es)"
  proof (induction es rule: rev_induct)
    case Nil
    show ?case by (simp add: lock_graph_of_def interned_def holds_edges_def)
  next
    case (snoc e es)
    have "lock_graph_of (es @ [e]) = add_edge e (lock_graph_of es)" by (simp add: lock_graph_of_def)
    then show ?case using add_edge_holds [of "lock_graph_of es" es e] snoc by simp
  qed
  then show "interned (lock_graph_of es)" "holds_edges es (lock_graph_of es)" by simp_all
qed

lemma lock_graph_facts:
  fixes es :: "tagged_edge list"
  defines "N \<equiv> lg_names (lock_graph_of es)"
  shows "distinct N" "length (lg_adj (lock_graph_of es)) = length N" "set N = (\<Union>e\<in>set es. {te_from e, te_to e})"
    and "u < length N \<and> v \<in> set (lg_adj (lock_graph_of es) ! u) \<longleftrightarrow> u < length N \<and> v < length N \<and> (\<exists>e\<in>set es. te_from e = N ! u \<and> te_to e = N ! v)"
    and "(\<exists>fs. ((u, v), fs) \<in> set (lg_fns (lock_graph_of es)) \<and> f \<in> set fs) \<longleftrightarrow>
      u < length N \<and> v < length N \<and> (\<exists>e\<in>set es. te_function e = f \<and> te_from e = N ! u \<and> te_to e = N ! v)"
  using lock_graph_holds [of es] unfolding interned_def holds_edges_def N_def by blast+

interpretation locks: tarjan_graph "lg_adj (lock_graph_of es)" for es
proof
  fix v w assume "v < length (lg_adj (lock_graph_of es))" "w \<in> set (lg_adj (lock_graph_of es) ! v)"
  then show "w < length (lg_adj (lock_graph_of es))" using lock_graph_facts(2,4) by metis
qed

section \<open>Reported cycles\<close>

definition lock_order :: "tagged_edge list \<Rightarrow> (string \<times> string) set" where
  "lock_order es = {(te_from e, te_to e) | e. e \<in> set es}"

definition mutually_ordered :: "tagged_edge list \<Rightarrow> string \<Rightarrow> string set" where
  "mutually_ordered es x = {y. (x, y) \<in> (lock_order es)\<^sup>* \<and> (y, x) \<in> (lock_order es)\<^sup>*}"

lemma edge_names:
  "(u, v) \<in> locks.edges es \<longleftrightarrow> u < length (lg_names (lock_graph_of es)) \<and> v < length (lg_names (lock_graph_of es)) \<and>
     (lg_names (lock_graph_of es) ! u, lg_names (lock_graph_of es) ! v) \<in> lock_order es"
proof -
  have "(a, b) \<in> lock_order es \<longleftrightarrow> (\<exists>e\<in>set es. te_from e = a \<and> te_to e = b)" for a b unfolding lock_order_def by blast
  then show ?thesis using lock_graph_facts(4) [of u es v] unfolding locks.edges_def lock_graph_facts(2) by blast
qed

lemma path_names: "(u, v) \<in> (locks.edges es)\<^sup>* \<Longrightarrow> (lg_names (lock_graph_of es) ! u, lg_names (lock_graph_of es) ! v) \<in> (lock_order es)\<^sup>*"
proof (induction rule: rtrancl_induct)
  case (step v w)
  then show ?case using edge_names [of v w es] by (meson rtrancl.rtrancl_into_rtrancl)
qed simp

lemma path_nodes:
  assumes "(x, y) \<in> (lock_order es)\<^sup>*" and "u < length (lg_names (lock_graph_of es))" and "lg_names (lock_graph_of es) ! u = x"
  shows "\<exists>v<length (lg_names (lock_graph_of es)). lg_names (lock_graph_of es) ! v = y \<and> (u, v) \<in> (locks.edges es)\<^sup>*"
  using assms(1)
proof (induction rule: rtrancl_induct)
  case base
  then show ?case using assms(2,3) by blast
next
  case (step y z)
  then obtain v where v: "v < length (lg_names (lock_graph_of es))" "lg_names (lock_graph_of es) ! v = y" "(u, v) \<in> (locks.edges es)\<^sup>*" by blast
  have "z \<in> set (lg_names (lock_graph_of es))" using step.hyps(2) lock_graph_facts(3) [of es] by (auto simp: lock_order_def)
  then obtain w where w: "w < length (lg_names (lock_graph_of es))" "lg_names (lock_graph_of es) ! w = z" by (auto simp: in_set_conv_nth)
  then have "(v, w) \<in> locks.edges es" using edge_names [of v w es] v step.hyps(2) by simp
  then have "(u, w) \<in> (locks.edges es)\<^sup>*" using v(3) by (rule rtrancl_into_rtrancl [rotated])
  then show ?case using w by blast
qed

lemma component_names:
  assumes "u < length (lg_names (lock_graph_of es))"
  shows "(!) (lg_names (lock_graph_of es)) ` locks.component es u = mutually_ordered es (lg_names (lock_graph_of es) ! u)"
proof -
  let ?N = "lg_names (lock_graph_of es)"
  have "?N ! v \<in> mutually_ordered es (?N ! u)" if "v \<in> locks.component es u" for v
    using that path_names [of _ _ es] unfolding locks.component_def mutually_ordered_def by blast
  moreover have "\<exists>v\<in>locks.component es u. ?N ! v = y" if y: "y \<in> mutually_ordered es (?N ! u)" for y
  proof -
    obtain v where v: "v < length ?N" "?N ! v = y" "(u, v) \<in> (locks.edges es)\<^sup>*" using y path_nodes [OF _ assms refl] unfolding mutually_ordered_def by blast
    obtain w where w: "w < length ?N" "?N ! w = ?N ! u" "(v, w) \<in> (locks.edges es)\<^sup>*" using y path_nodes [OF _ v(1,2)] unfolding mutually_ordered_def by blast
    have "w = u" using w(2) nth_eq_iff_index_eq [OF lock_graph_facts(1) w(1) assms] by blast
    then show ?thesis using v w unfolding locks.component_def by blast
  qed
  ultimately show ?thesis by blast
qed

lemma sorted_dedup: "remdups_adj (sort xs) = sorted_list_of_set (set xs)" for xs :: "'a :: linorder list"
proof -
  have "sorted ys \<Longrightarrow> distinct (remdups_adj ys)" for ys :: "'a list"
  proof (induction ys rule: remdups_adj.induct)
    case (3 x y ys)
    then show ?case by (cases "x = y") (auto simp: less_le)
  qed simp_all
  then have "sorted (remdups_adj (sort xs)) \<and> distinct (remdups_adj (sort xs))" by simp
  then show ?thesis using sorted_list_of_set.idem_if_sorted_distinct [of "remdups_adj (sort xs)"] by simp
qed

definition cycle_report :: "tagged_edge list \<Rightarrow> string set \<Rightarrow> lock_order_cycle" where
  "cycle_report es C =
     \<lparr>lc_classes = sorted_list_of_set C, lc_functions = sorted_list_of_set {te_function e | e. e \<in> set es \<and> te_from e \<in> C \<and> te_to e \<in> C}\<rparr>"

lemma cycle_of_report:
  assumes "distinct scc" and "set scc \<subseteq> {..<length (lg_names (lock_graph_of es))}"
  shows "cycle_of (lock_graph_of es) scc = cycle_report es ((!) (lg_names (lock_graph_of es)) ` set scc)"
proof -
  let ?N = "lg_names (lock_graph_of es)"
  have inj: "inj_on ((!) ?N) {..<length ?N}" using lock_graph_facts(1) [of es] by (simp add: inj_on_nth)
  then have "distinct (map ((!) ?N) scc)" using assms by (simp add: distinct_map inj_on_subset)
  then have "sort (map ((!) ?N) scc) = sorted_list_of_set (set (map ((!) ?N) scc))"
    using sorted_list_of_set_sort_remdups [of "map ((!) ?N) scc"] by (simp add: distinct_remdups_id del: set_map)
  moreover have "set (concat (map snd (filter (\<lambda>((u, v), _). u \<in> set scc \<and> v \<in> set scc) (lg_fns (lock_graph_of es))))) =
      {te_function e | e. e \<in> set es \<and> te_from e \<in> (!) ?N ` set scc \<and> te_to e \<in> (!) ?N ` set scc}" (is "?L = ?R")
  proof (intro set_eqI)
    fix f
    have "f \<in> ?L \<longleftrightarrow> (\<exists>u\<in>set scc. \<exists>v\<in>set scc. \<exists>fs. ((u, v), fs) \<in> set (lg_fns (lock_graph_of es)) \<and> f \<in> set fs)" by fastforce
    also have "\<dots> \<longleftrightarrow> (\<exists>u\<in>set scc. \<exists>v\<in>set scc. \<exists>e\<in>set es. te_function e = f \<and> te_from e = ?N ! u \<and> te_to e = ?N ! v)"
      unfolding lock_graph_facts(5) using assms(2) by blast
    also have "\<dots> \<longleftrightarrow> f \<in> ?R" by auto
    finally show "f \<in> ?L \<longleftrightarrow> f \<in> ?R" .
  qed
  ultimately show ?thesis by (simp add: cycle_of_def cycle_report_def sorted_dedup)
qed

text \<open>
  Property C39. Lock-order cycles are exact: the pass returns, and reports, sorted and once each, exactly the maximal sets of two or more lock classes that are
  mutually reachable in the acquisition order (the strongly connected components of the graph of all edges), each with its classes
  and with the functions that contribute an edge inside it.
\<close>

theorem lock_cycles_exact:
  "\<exists>cs. detect_cycles es = Some cs \<and> distinct cs \<and> sorted (map lc_classes cs) \<and>
     set cs = cycle_report es ` {C \<in> range (mutually_ordered es). 2 \<le> card C}"
proof -
  let ?g = "lock_graph_of es"
  let ?N = "lg_names ?g"
  obtain out where out: "tarjan_scc (lg_adj ?g) = Some out" "distinct (concat out)" "set (concat out) = {..<length ?N}"
      "set ` set out = locks.component es ` {..<length ?N}"
    using locks.scc_exact [of es] unfolding lock_graph_facts(2) by blast
  let ?big = "filter (\<lambda>scc. \<not> length scc < 2) out"
  have inj: "inj_on ((!) ?N) {..<length ?N}" using lock_graph_facts(1) [of es] by (simp add: inj_on_nth)
  have scc: "distinct c" "set c \<subseteq> {..<length ?N}" if "c \<in> set out" for c
    using that out(2,3) by (auto simp: distinct_concat_iff)
  have rep: "cycle_of ?g c = cycle_report es ((!) ?N ` set c)" if "c \<in> set out" for c using cycle_of_report scc [OF that] by blast
  have card: "card ((!) ?N ` set c) = length c" if "c \<in> set out" for c
    using scc [OF that] inj by (simp add: card_image inj_on_subset distinct_card)
  have img: "(\<lambda>c. (!) ?N ` set c) ` set out = mutually_ordered es ` set ?N"
  proof -
    have "(\<lambda>c. (!) ?N ` set c) ` set out = (`) ((!) ?N) ` (set ` set out)" by (simp add: image_image)
    also have "\<dots> = mutually_ordered es ` (!) ?N ` {..<length ?N}" unfolding out(4) image_image using component_names by (intro image_cong) auto
    also have "(!) ?N ` {..<length ?N} = set ?N" by (auto simp: set_conv_nth)
    finally show ?thesis .
  qed
  have isolated: "mutually_ordered es x = {x}" if "x \<notin> set ?N" for x
  proof -
    have "x \<notin> Domain (lock_order es)" using that lock_graph_facts(3) [of es] by (auto simp: lock_order_def)
    then show ?thesis unfolding mutually_ordered_def by (auto elim: converse_rtranclE)
  qed
  have big: "(\<lambda>c. (!) ?N ` set c) ` set ?big = {C \<in> range (mutually_ordered es). 2 \<le> card C}"
  proof -
    have "(\<lambda>c. (!) ?N ` set c) ` set ?big = {C \<in> mutually_ordered es ` set ?N. 2 \<le> card C}" unfolding img [symmetric] using card by auto
    also have "\<dots> = {C \<in> range (mutually_ordered es). 2 \<le> card C}" using isolated by fastforce
    finally show ?thesis .
  qed
  have eq: "map (cycle_of ?g) ?big = map (\<lambda>c. cycle_report es ((!) ?N ` set c)) ?big" using rep by simp
  have det: "detect_cycles es = Some (sort_key lc_classes (map (\<lambda>c. cycle_report es ((!) ?N ` set c)) ?big))"
    unfolding detect_cycles_def Let_def out(1) option.map eq ..
  have "distinct (map (\<lambda>c. cycle_report es ((!) ?N ` set c)) ?big)" unfolding distinct_map
  proof
    have "?big = filter (\<lambda>scc. \<not> length scc < 2) (removeAll [] out)" unfolding removeAll_filter_not_eq filter_filter by (rule filter_cong) auto
    then show "distinct ?big" using out(2) by (simp add: distinct_concat_iff)
    show "inj_on (\<lambda>c. cycle_report es ((!) ?N ` set c)) (set ?big)"
    proof (rule inj_onI)
      fix c d assume cd: "c \<in> set ?big" "d \<in> set ?big" "cycle_report es ((!) ?N ` set c) = cycle_report es ((!) ?N ` set d)"
      then have "sorted_list_of_set ((!) ?N ` set c) = sorted_list_of_set ((!) ?N ` set d)" by (simp add: cycle_report_def)
      then have "(!) ?N ` set c = (!) ?N ` set d" by (metis List.finite_set finite_imageI set_sorted_list_of_set)
      then have "set c = set d" using inj_on_image_eq_iff [OF inj] scc(2) cd(1,2) by auto
      then have "set c \<inter> set d \<noteq> {}" using cd(1) by auto
      moreover have "c \<in> set out" "d \<in> set out" using cd(1,2) by simp_all
      ultimately show "c = d" using out(2) unfolding distinct_concat_iff by blast
    qed
  qed
  then have dist: "distinct (sort_key lc_classes (map (\<lambda>c. cycle_report es ((!) ?N ` set c)) ?big))" by (simp add: distinct_sort)
  have reports: "set (sort_key lc_classes (map (\<lambda>c. cycle_report es ((!) ?N ` set c)) ?big)) = cycle_report es ` {C \<in> range (mutually_ordered es). 2 \<le> card C}"
    unfolding big [symmetric] image_image set_sort set_map ..
  show ?thesis by (intro exI conjI, rule det, rule dist, rule sorted_sort_key, rule reports)
qed

end
