(* ===== verification/Spec2Isabelle.thy ===== *)
theory Spec2Isabelle
  imports Memory_Model Solver_Examples Absint_Props Conc_Atomicity Conc_Litmus Conc_Lockset Conc_Crossentry Conc_Races Conc_Weakcheck Conc_Lockorder
begin

text \<open>
  A verification development for CSolver, a memory-safety verifier for low-level code. The program reads LLVM, MIR or machine code into a small
  intermediate representation (MSIR), analyses its control flow, infers intervals, executes it symbolically, and asks a solver of
  its own whether every memory-safety obligation holds. This development models the parts on which a verdict of safety rests:
  the solver, the memory model, the intermediate representation, the control-flow analyses, the interval analysis and the concurrency checks.

  \<^bold>\<open>Parts and theories.\<close> Each theory opens with the source files it models; names follow the source, with a prefix where a name is taken.

  \<^item> \<open>Prelude\<close>: the machine integers of the sources (\<open>u64\<close>, \<open>u128\<close> as words, \<open>i128\<close> as integers with wrapping, checked and saturating
    operations written out), bit lists, shared list facts.
  \<^item> \<open>Bit_Vector\<close>, \<open>Verdicts\<close>, \<open>Safety_Properties\<close> (\<open>crates/core\<close>): bit-vectors of width 1 to 128, the verdict lattice, proof trees and
    obligations, the catalogue of safety properties.
  \<^item> \<open>Memory_Model\<close> (\<open>crates/memory\<close>): regions, pointers, allocation, deallocation and the access check with its outcomes.
  \<^item> \<open>Expr_Ctx\<close>, \<open>Bv_Ops\<close> (\<open>crates/solver/src/expr.rs\<close>): the interned expression arena and its builders, with the value of every expression.
  \<^item> \<open>Cnf_Gates\<close>, \<open>Cnf_Circuits\<close>, \<open>Blaster\<close> (\<open>bitblast.rs\<close>, \<open>blaster.rs\<close>): Tseitin gates, the arithmetic circuits, the encoder.
  \<^item> \<open>Sat_Solver\<close>, \<open>Sat_Invariant\<close>, \<open>Sat_Propagate\<close>, \<open>Sat_Analyze\<close>, \<open>Sat_Backjump\<close>, \<open>Sat_Search\<close>, \<open>Sat_Correct\<close> (\<open>sat.rs\<close>, \<open>sat_learn.rs\<close>): the
    conflict-driven SAT solver (watched literals, first-UIP learning, activities, Luby restarts, clause deletion) and its correctness.
  \<^item> \<open>Bit_Precise\<close>, \<open>Linear_Arith\<close>, \<open>Solver_Api\<close>, \<open>Solver_Examples\<close> (\<open>bitprecise.rs\<close>, \<open>linear.rs\<close>, \<open>lib.rs\<close>): the two decision procedures,
    the combined strategy, the simplifier, and evaluated examples.
  \<^item> \<open>Ir_Types\<close>, \<open>Ir_Insts\<close>, \<open>Ir_Module\<close> (\<open>crates/ir\<close>): types and data layout, instructions with the obligations they imply, functions, modules
    and the module linker.
  \<^item> \<open>Cfg_Graph\<close>, \<open>Cfg_Dominators\<close>, \<open>Cfg_Domtree\<close>, \<open>Cfg_Loops\<close> (\<open>crates/cfg\<close>): the control-flow graph and its depth-first orders, the dominator
    iteration, dominators and post-dominators, natural loops.
  \<^item> \<open>Absint_Interval\<close>, \<open>Absint_Env\<close>, \<open>Absint_Engine\<close>, \<open>Absint_Analysis\<close>, \<open>Absint_Sound\<close>, \<open>Absint_Props\<close> (\<open>crates/absint\<close>): the interval lattice,
    environments, the generic worklist solver, the transfer functions, their soundness, and what the analysis guarantees.
  \<^item> \<open>Conc_Events\<close>, \<open>Conc_Atomicity\<close>, \<open>Conc_Litmus\<close>, \<open>Conc_Lockset\<close>, \<open>Conc_Crossentry\<close>, \<open>Conc_Typestate\<close>, \<open>Conc_Races\<close>, \<open>Conc_Weakmem\<close>, \<open>Conc_Robust\<close>, \<open>Conc_Weakcheck\<close>, \<open>Conc_Tarjan\<close>, \<open>Conc_Lockorder\<close>
    (\<open>crates/verifier/src/interleave\<close>, \<open>datarace.rs\<close>, \<open>lockorder.rs\<close>): the events of a thread and their schedules, the interleaving search for lost updates, the
    store-buffer litmus, the lockset searches, the searches across entries, the data-race pass, the weak-memory exploration, its comparison with
    sequential consistency, the grouping of threads, and the lock-order cycles by Tarjan's algorithm.

  \<^bold>\<open>Interfaces.\<close> A locale states each contract one part relies on: \<open>refuter\<close> (what the bit-precise procedure needs of a SAT solver, provided by
  the CDCL model), \<open>ranking\<close>, \<open>ranked_flow\<close>, \<open>numbered_flow\<close> and \<open>flow_graph\<close> (what the dominator iteration needs of a numbered graph, provided by
  the graph of a function and by its reversal), \<open>abstract_domain\<close> (the laws documented on the trait, provided by intervals and by
  environments) and \<open>dataflow\<close> (what the worklist solver needs of its callbacks, provided by the interval analysis)
  and \<open>tarjan_graph\<close> (what the component search needs of an adjacency list, provided by the graph of lock classes).

  \<^bold>\<open>What is shown.\<close> For the solver: a bit-precise verdict is sound for all assignments, a linear verdict for those without overflow, counterexamples
  are genuine, every procedure returns, and the layers below (circuits, encoder, propagation, learning, clause deletion, elimination) meet
  their specifications. For the memory model: a proven access is in bounds of a live region, aligned and permitted; a reported
  violation other than alignment is real; freed regions stay freed. For the representation: layouts and linking. For
  control flow: the graph, its orders, dominators, post-dominators and loops are exact. For intervals: the analysis ends on
  every function and its intervals and verdicts are right for all executions of the reference model of \<open>Absint_Sound\<close>, in which
  arithmetic does not wrap below the \<open>i128\<close> range; theorems next to it show the wrapping, zero-extended and unsigned readings it misses.
  For the concurrency checks: the interleaving search is exact when the schedules fit its budget and its witnesses are always real schedules; the lockset,
  cross-entry and race searches report exactly what their specifications over traces and schedules describe, once each; a use-after-free two threads can
  really reach is reported; typestate payloads are read back as written; the weak-memory check
  decides robustness whenever its two explorations finish, and its groups are the connected components of sharing threads;
  the lock-order pass reports exactly the strongly connected components of the acquisition order.

  \<^bold>\<open>Bounds and fuel.\<close> Loops that are not structural carry fuel (or are partial functions, the worklist solver), and the result \<open>None\<close> stands for exhausted fuel or
  for a panic of the source. The fuel is computed from the input: the number of edges for depth-first search, the square of the node count for
  the dominator iteration, the node count for climbing and for loop bodies. Every theorem about a result also says that there is one.
  The CDCL search has the conflict budget of the source; within it, propagation and conflict resolution carry fuel that \<open>Sat_Correct\<close> shows to suffice.

  \<^bold>\<open>Parameters.\<close> The \<open>f64\<close> arithmetic of clause activities and the wall clock of the budgeted procedures and the iteration order of the hash map of weak observations are arguments of the definitions that use them; the
  theorems hold for every clock and for every arithmetic with the law \<open>f64_law\<close> (closed on values above minus infinity). Machine words are used where a wrap can be observed; indices (\<open>usize\<close>) and identifiers (\<open>u32\<close>) are natural numbers.

  \<^bold>\<open>Not modelled.\<close> The symbolic executor, the verifier driver, and in \<open>crates/absint\<close> the zone domain, the relational,
  induction and points-to analyses, because of their size; the front ends, binary loaders, contracts, report and command line, which are parsing, text and I/O.
  \<open>Display\<close> implementations and message texts are left out or reduced to a datatype.
\<close>

section \<open>The solver\<close>

text \<open>
  Property C1. Soundness of a bit-precise verdict: when the combined strategy reports \<open>BitPrecise\<close>, the goal is true
  under every assignment of the symbols that makes all assumptions true, with the exact wrap-around semantics of
  every operator.
\<close>

theorem bit_precise_verdict_sound:
  assumes "ctx_wf ctx" and "\<forall>a\<in>set as. a < ctx_len ctx" and "goal < ctx_len ctx"
    and "prove_implies_method fo c1 c2 ctx as goal = Some (Some BitPrecise)"
  shows "\<forall>env. (\<forall>a\<in>set as. holds env ctx a) \<longrightarrow> holds env ctx goal"
  using prove_implies_method_bits [OF assms] by (simp add: implies_all_def)

theorem bit_precise_verdict_sound_witness:
  "prove_implies_method sample_floats never never p_ctx [0] 0 = Some (Some BitPrecise) \<and> holds (\<lambda>_ _. 1) p_ctx 0"
proof -
  have "\<forall>env. (\<forall>a\<in>set [0]. holds env p_ctx a) \<longrightarrow> holds env p_ctx 0"
    by (rule bit_precise_verdict_sound [OF p_ctx_wf _ _ p_method]) (simp_all add: p_ctx_len)
  from this [THEN spec, of "\<lambda>_ _. 1"] show ?thesis
    using p_method by (simp add: holds_def p_ctx_eq expr_val_def arena_vals_def arena_step_def)
qed

text \<open>
  Property C5. Soundness of a linear verdict: when the strategy reports \<open>Linear\<close>, the goal holds in every
  environment that makes the assumptions true and in which no quantity of the query overflows (the operands and
  results of the arithmetic lie in the signed range, and products do not wrap).
\<close>

theorem linear_verdict_sound:
  assumes "ctx_wf ctx" and "\<forall>a\<in>set as. a < ctx_len ctx" and "goal < ctx_len ctx"
    and "prove_implies_method fo c1 c2 ctx as goal = Some (Some Linear)"
    and "\<forall>e\<in>set (goal # as). no_overflow ctx env e" and "\<forall>a\<in>set as. holds env ctx a"
  shows "holds env ctx goal"
  using prove_implies_method_linear [OF assms] .

theorem linear_verdict_sound_witness: "holds (\<lambda>_ _. 0) wide_ctx 2"
proof (rule linear_verdict_sound [OF wide_ctx_wf _ _ wide_method])
  show "\<forall>e\<in>set [2, 2]. no_overflow wide_ctx (\<lambda>_ _. 0) e" using wide_no_overflow by simp
  show "\<forall>a\<in>set [2]. holds (\<lambda>_ _. 0) wide_ctx a" using wide_holds by simp
qed (simp_all add: wide_ctx_eq ctx_len_def)

text \<open>
  Property C7. The strategy always returns: on a well-formed arena no bit-blasting step panics, the elimination and
  the CDCL search terminate within their fuel, and a verdict (possibly \<open>None\<close>, not proved) is produced.
\<close>

theorem strategy_returns:
  assumes "ctx_wf ctx" and "\<forall>a\<in>set as. a < ctx_len ctx" and "goal < ctx_len ctx"
  shows "\<exists>r. prove_implies_method fo c1 c2 ctx as goal = Some r"
  using prove_implies_method_returns [OF assms] by blast

theorem strategy_returns_witness:
  "\<exists>r. prove_implies_method sample_floats never never wide_ctx [2] 2 = Some r"
  by (rule strategy_returns [OF wide_ctx_wf]) (simp_all add: wide_ctx_eq ctx_len_def)

text \<open>
  Property C6. Counterexamples are genuine: a model returned by \<open>find_counterexample\<close> satisfies every assumption and
  falsifies the goal.
\<close>

theorem counterexample_genuine:
  assumes "f64_law ok fo" and "ctx_wf ctx" and "\<forall>a\<in>set as. a < ctx_len ctx" and "goal < ctx_len ctx"
    and "find_counterexample fo clock ctx as goal = Some (Some mdl)"
  shows "(\<forall>a\<in>set as. holds (env_of_model mdl) ctx a) \<and> \<not> holds (env_of_model mdl) ctx goal"
  using find_counterexample_genuine [OF assms] .

theorem counterexample_genuine_witness:
  "\<not> holds (env_of_model [(''p'', \<lparr>bv_width = 1, bv_words = (0, 0)\<rparr>)]) p_ctx 0"
  using counterexample_genuine [OF sample_floats_law p_ctx_wf _ _ p_refuted] by (simp add: p_ctx_len)

text \<open>
  Property C2. The CDCL solver decides correctly and always returns: on every clause list with variables in range the
  search ends within its budget, \<open>Unsat\<close> is only returned for an unsatisfiable formula and \<open>Sat\<close> carries a full
  assignment that satisfies every clause.
\<close>

theorem cdcl_correct:
  assumes "f64_law ok fo" and "\<forall>c\<in>set F. \<forall>l\<in>set c. lit_var l < n"
  shows "\<exists>r. solve fo clock budget (solver_new fo n F) = Some r \<and> (r = Unsat \<longrightarrow> \<not> satisfiable F) \<and>
    (\<forall>m. r = Sat m \<longrightarrow> length m = n \<and> cnf_sat (\<lambda>v. m ! v) F)"
proof -
  obtain r where r: "solve fo clock budget (solver_new fo n F) = Some r" "result_ok True F n r"
    using solve_correct [OF _ assms(2), of ok fo clock budget] assms(1) by (auto simp: f64_law_def)
  then show ?thesis by (cases r) (auto simp: result_ok_def)
qed

theorem cdcl_correct_witness:
  "\<exists>r. solve sample_floats never 10 (solver_new sample_floats 2 [[Lit 0 False, Lit 1 True], [Lit 1 False]]) = Some r \<and>
     r \<noteq> Unsat"
proof -
  let ?F = "[[Lit 0 False, Lit 1 True], [Lit 1 False]]"
  have "cnf_sat (\<lambda>_. True) ?F" by (simp add: cnf_sat_def clause_true_def lit_val_def)
  then have "satisfiable ?F" by (auto simp: satisfiable_def)
  then show ?thesis using cdcl_correct [OF sample_floats_law, of ?F 2 never 10] by auto
qed

text \<open>
  Property C11. The constant folder of the constraint language preserves meaning: \<open>simplify\<close> never panics on a
  formula whose constants are well formed, and its result is equivalent to its input in every environment.
\<close>

theorem simplify_preserves_meaning:
  assumes "formula_ok f"
  shows "\<exists>g. simplify f = Some g \<and> (\<forall>env. formula_val env g = formula_val env f)"
  using simplify_equiv(1) [OF assms] .

theorem simplify_preserves_meaning_witness:
  "\<exists>g. simplify (FNot (FAnd [FBool True, FUlt (TVar ''x'' 8) (TVar ''y'' 8)])) = Some g \<and>
     (\<forall>env. formula_val env g = (\<not> env ''x'' 8 mod 256 < env ''y'' 8 mod 256))"
  using simplify_preserves_meaning [of "FNot (FAnd [FBool True, FUlt (TVar ''x'' 8) (TVar ''y'' 8)])"]
  by simp

text \<open>
  Property C12. Building a binary operation: whatever folding or identity the builder applies, the returned expression
  denotes the operation on the operands, the arena stays well formed, and every earlier expression keeps its value.
\<close>

theorem bin_denotes_operation:
  assumes "ctx_wf ctx" and "a < ctx_len ctx" and "b < ctx_len ctx" and "width ctx a = w" and "width ctx b = w"
    and "bin op a b ctx = Some (e, ctx')"
  shows "ctx_wf ctx' \<and> e < ctx_len ctx' \<and> width ctx' e = w \<and>
    (\<forall>env. expr_val env ctx' e = bin_den op w (expr_val env ctx a) (expr_val env ctx b)) \<and>
    (\<forall>x < ctx_len ctx. \<forall>env. expr_val env ctx' x = expr_val env ctx x)"
  using bin_builds [OF assms] ctx_ext_val [OF _ assms(1)] by (auto simp: builds_def)

theorem bin_denotes_operation_witness:
  "\<exists>ctx'. bin Xor 0 0 p_ctx = Some (1, ctx') \<and>
     (\<forall>env. expr_val env ctx' 1 = bin_den Xor 1 (expr_val env p_ctx 0) (expr_val env p_ctx 0))"
proof -
  obtain ctx' where b: "bin Xor 0 0 p_ctx = Some (1, ctx')"
    by (auto simp: p_ctx_eq bin_def as_const_def node_def intern_def)
  show ?thesis using bin_denotes_operation [OF p_ctx_wf _ _ _ _ b, of 1] b by (simp add: p_ctx_len p_ctx_width)
qed

text \<open>
  Property C40. \<open>symbols_of\<close> terminates and returns exactly the reachable symbols, sorted and without duplicates; and
  the value of the expression depends on nothing else.
\<close>

theorem symbols_of_exact:
  assumes "ctx_wf ctx" and "root < ctx_len ctx"
  shows "\<exists>out. symbols_of ctx root = Some out \<and> sorted out \<and> distinct out \<and>
    set out = {y. is_sym (node ctx y) \<and> reaches ctx root y} \<and>
    (\<forall>env env'. (\<forall>y\<in>set out. \<forall>name w. node ctx y = Sym name w \<longrightarrow> env name w = env' name w) \<longrightarrow>
       expr_val env ctx root = expr_val env' ctx root)"
proof -
  obtain out where out: "symbols_of ctx root = Some out" "sorted out" "distinct out"
    "set out = {y. is_sym (node ctx y) \<and> reaches ctx root y}"
    using symbols_of_correct [OF assms] by blast
  have "expr_val env ctx root = expr_val env' ctx root"
    if "\<forall>y\<in>set out. \<forall>name w. node ctx y = Sym name w \<longrightarrow> env name w = env' name w" for env env'
  proof (rule expr_val_coincidence [OF assms])
    fix y name w assume "reaches ctx root y" and n: "node ctx y = Sym name w"
    then have "y \<in> set out" using out(4) by simp
    then show "env name w = env' name w" using that n by blast
  qed
  then show ?thesis using out by blast
qed

theorem symbols_of_exact_witness:
  "\<exists>out. symbols_of wide_ctx 2 = Some out \<and> sorted out"
  using symbols_of_exact [OF wide_ctx_wf, of 2] by (auto simp: wide_ctx_eq ctx_len_def)

text \<open>
  Property C4. Bit-blasting an expression is exact: starting from an empty CNF, \<open>encode\<close> returns for every
  expression of a well-formed arena; when it returns bits, there are as many as the expression is wide, and in every
  model of the produced clauses they spell the value of the expression under the environment the model induces.
  Conversely every environment extends to a model of the clauses.
\<close>

theorem bit_blasting_exact:
  assumes "ctx_wf ctx" and "e < ctx_len ctx"
  shows "\<exists>r st. encode (Suc e) ctx e blaster_new = Some (r, st) \<and>
    (\<forall>bits. r = Some bits \<longrightarrow> length bits = width ctx e \<and>
       (\<forall>\<sigma>. cnf_sat \<sigma> (clauses (bl_cnf st)) \<longrightarrow> word_val \<sigma> bits = expr_val (model_env (syms st) \<sigma>) ctx e)) \<and>
    (\<forall>env. \<exists>\<sigma>. cnf_sat \<sigma> (clauses (bl_cnf st)) \<and> agrees (syms st) \<sigma> env)"
proof -
  obtain r st where e: "encode (Suc e) ctx e blaster_new = Some (r, st)"
    using encode_total [OF assms, of "Suc e" blaster_new] by (auto simp del: encode.simps)
  note P = enc_okD [OF encode_correct [OF assms] blast_ok_new e]
  have "cnf_sat \<sigma> (clauses (bl_cnf st)) \<Longrightarrow> word_val \<sigma> bits = expr_val (model_env (syms st) \<sigma>) ctx e" if "r = Some bits" for bits \<sigma>
    using den_okD(4) [OF P(3) [OF that]] model_env_agrees [OF blast_okD(2) [OF P(1)]] by blast
  moreover have "\<exists>\<sigma>. cnf_sat \<sigma> (clauses (bl_cnf st)) \<and> agrees (syms st) \<sigma> env" for env
    using blast_okD(3) [OF P(1)] by blast
  moreover have "length bits = width ctx e" if "r = Some bits" for bits using den_okD(1) [OF P(3) [OF that]] .
  ultimately show ?thesis using e by (intro exI [of _ r] exI [of _ st]) blast
qed

theorem bit_blasting_exact_witness:
  "\<exists>r st. encode 1 p_ctx 0 blaster_new = Some (r, st) \<and> (\<exists>\<sigma>. cnf_sat \<sigma> (clauses (bl_cnf st)))"
  using bit_blasting_exact [OF p_ctx_wf, of 0] unfolding p_ctx_len One_nat_def by blast

text \<open>
  The expression arena loses the target width of an extension: extending a symbol to 16 bits and then to
  32 bits returns the same 16-bit expression, because the hash-consing key of an extension is the operand alone.
\<close>

theorem zext_forgets_width:
  "case symbol ''x'' 8 expr_ctx_new of (x, c) \<Rightarrow>
     (case zext x 16 c of
        Some (a, c) \<Rightarrow> (case zext x 32 c of Some (b, c) \<Rightarrow> a = b \<and> width c b = 16 | None \<Rightarrow> False)
      | None \<Rightarrow> False)"
  by (simp add: symbol_def intern_def expr_ctx_new_def zext_def width_def node_def)

section \<open>Circuits\<close>

text \<open>
  Property C13. The restoring-division circuit is exact: in every model of the clauses it adds, the quotient and
  remainder words have the SMT-LIB values of unsigned division, division by zero included, and every model of the
  old clauses extends to one of the new clauses without changing an old variable.
\<close>

theorem udivrem_exact:
  assumes "cnf_wf c" and "list_all (in_range c) a" and "list_all (in_range c) b" and "length b = length a"
  shows "\<exists>q r c'. udivrem a b c = ((q, r), c') \<and> extends c c' \<and> length q = length a \<and> length r = length a \<and>
    (\<forall>\<sigma>. cnf_sat \<sigma> (clauses c') \<longrightarrow>
       word_val \<sigma> q = (if word_val \<sigma> b = 0 then 2 ^ length a - 1 else word_val \<sigma> a div word_val \<sigma> b) \<and>
       word_val \<sigma> r = (if word_val \<sigma> b = 0 then word_val \<sigma> a else word_val \<sigma> a mod word_val \<sigma> b))"
proof -
  obtain q r c' where q: "udivrem a b c = ((q, r), c')" "extends c c'" "length q = length a" "length r = length a"
    and v: "\<And>\<sigma>. cnf_sat \<sigma> (clauses c') \<Longrightarrow>
       word_val \<sigma> q = bin_den UDiv (length a) (word_val \<sigma> a) (word_val \<sigma> b) \<and>
       word_val \<sigma> r = bin_den URem (length a) (word_val \<sigma> a) (word_val \<sigma> b)"
    by (rule udivrem_correct [OF assms(1,2) refl assms(3,4)]) (rule that; assumption)
  have "bin_den UDiv (length a) x y = (if y = 0 then 2 ^ length a - 1 else x div y)"
    "bin_den URem (length a) x y = (if y = 0 then x else x mod y)" for x y
    by (simp_all add: bin_den_def Let_def)
  then show ?thesis using q v by (intro exI [of _ q] exI [of _ r] exI [of _ c']) simp
qed

theorem udivrem_exact_witness:
  "\<exists>q r c'. udivrem [Lit 0 False] [Lit 1 False] \<lparr>num_vars = 2, clauses = [], true_lit = None\<rparr> = ((q, r), c') \<and>
     length q = 1"
  using udivrem_exact [of "\<lparr>num_vars = 2, clauses = [], true_lit = None\<rparr>" "[Lit 0 False]" "[Lit 1 False]"]
  by (fastforce simp: cnf_wf_def in_range_def)

text \<open>
  The comparison circuits are exact for all ten predicates, signed and unsigned.
\<close>

theorem compare_exact:
  assumes "cnf_wf c" and "list_all (in_range c) a" and "list_all (in_range c) b" and "length b = length a" and "a \<noteq> []"
  shows "extends c (snd (compare op a b c)) \<and>
    (\<forall>\<sigma>. cnf_sat \<sigma> (clauses (snd (compare op a b c))) \<longrightarrow>
       lit_val \<sigma> (fst (compare op a b c)) = cmp_den op (length a) (word_val \<sigma> a) (word_val \<sigma> b))"
  using compare_computes [OF assms(1,2) refl assms(3,4), of op] assms(5) by (simp add: computes_def)

theorem compare_exact_witness:
  "extends \<lparr>num_vars = 2, clauses = [], true_lit = None\<rparr>
     (snd (compare Slt [Lit 0 False] [Lit 1 False] \<lparr>num_vars = 2, clauses = [], true_lit = None\<rparr>))"
  using compare_exact [of "\<lparr>num_vars = 2, clauses = [], true_lit = None\<rparr>" "[Lit 0 False]" "[Lit 1 False]" Slt]
  by (simp add: cnf_wf_def in_range_def)

text \<open>
  The barrel shifter is exact for left, logical and arithmetic right shifts by a symbolic amount,
  amounts of at least the width included.
\<close>

theorem shift_exact:
  assumes "cnf_wf c" and "list_all (in_range c) a" and "list_all (in_range c) b" and "length b = length a" and "a \<noteq> []"
    and "op \<in> {Shl, LShr, AShr}"
  shows "extends c (snd (shift_var op a b c)) \<and> length (fst (shift_var op a b c)) = length a \<and>
    (\<forall>\<sigma>. cnf_sat \<sigma> (clauses (snd (shift_var op a b c))) \<longrightarrow>
       word_val \<sigma> (fst (shift_var op a b c)) = bin_den op (length a) (word_val \<sigma> a) (word_val \<sigma> b))"
  using shift_var_computes [OF assms(1,2) refl assms(3,4) _ assms(6)] assms(5) by (simp add: computes_word_def)

theorem shift_exact_witness:
  "length (fst (shift_var AShr [Lit 0 False] [Lit 1 False] \<lparr>num_vars = 2, clauses = [], true_lit = None\<rparr>)) = 1"
  using shift_exact [of "\<lparr>num_vars = 2, clauses = [], true_lit = None\<rparr>" "[Lit 0 False]" "[Lit 1 False]" AShr]
  by (simp add: cnf_wf_def in_range_def)

section \<open>The SAT search\<close>

text \<open>
  Property C9. Unit propagation terminates, only extends the assignment, and either reaches a state with an empty
  queue that satisfies the two-watched-literal invariant or reports a clause that is falsified under the
  assignment.
\<close>

theorem propagation_correct:
  assumes "solver_inv F s"
  shows "\<exists>cf s'. propagate s = Some (cf, s') \<and> (\<forall>v. assign s v \<noteq> None \<longrightarrow> assign s' v = assign s v) \<and>
    (cf = None \<longrightarrow> solver_inv F s' \<and> prop_queue s' = []) \<and>
    (\<forall>ci. cf = Some ci \<longrightarrow> conflict_inv F ci s')"
proof -
  obtain cf s' where p: "propagate s = Some (cf, s')" using propagate_total [OF assms] by auto
  show ?thesis using propagate_loop_correct [OF assms p [unfolded propagate_def]] p by (cases cf) auto
qed

theorem propagation_correct_witness: "\<exists>cf s'. propagate conf_state = Some (cf, s')"
  using propagation_correct [OF conf_state_inv] by blast

text \<open>
  Property C8. Conflict analysis makes progress: from a conflict above level 0, learning never panics, the learnt
  clause is entailed by the input formula, the solver backjumps to a strictly lower level, and the full invariant
  (trail, reasons, clause store, watches) holds again.
\<close>

theorem learning_makes_progress:
  assumes "conflict_inv F confl s" and "0 < decision_level s"
  shows "\<exists>s'. learn_and_backjump fo confl s = Some s' \<and> solver_inv F s' \<and> decision_level s' < decision_level s \<and>
    (\<forall>c\<in>set (s_clauses s'). entails F c)"
  using learn_and_backjump_correct [OF assms, of fo] by (auto simp: solver_inv_def core_inv_def store_ok_def)

theorem learning_makes_progress_witness:
  "\<exists>ci s s'. propagate conf_state = Some (Some ci, s) \<and> learn_and_backjump sample_floats ci s = Some s' \<and>
     decision_level s' = 0"
proof -
  obtain s where p: "propagate conf_state = Some (Some 1, s)" "decision_level s = 1" by (rule conf_propagated)
  have "conflict_inv conf_F 1 s" using propagate_loop_correct [OF conf_state_inv p(1) [unfolded propagate_def]] by simp
  from learning_makes_progress [OF this, of sample_floats] show ?thesis using p by auto
qed

text \<open>
  Property C10. Deleting learnt clauses at level 0 keeps the solver invariant: the original clauses, the reasons of the
  assigned variables and the rebuilt watch lists remain consistent.
\<close>

theorem reduce_db_keeps_invariant:
  assumes "solver_inv F s" and "decision_level s = 0" and "prop_queue s = []"
  shows "solver_inv F (reduce_db s)"
  using reduce_db_inv [OF assms] .

theorem reduce_db_keeps_invariant_witness: "solver_inv conf_F (reduce_db conf_start)"
  by (rule reduce_db_keeps_invariant [OF conf_start_inv(1,3,2)])

section \<open>Linear arithmetic\<close>

text \<open>
  Fourier-Motzkin elimination terminates on every list of well-formed constraints, and an answer
  of infeasibility is right over all integers: no point satisfies the constraints.
\<close>

theorem elimination_correct:
  assumes "\<forall>c\<in>set cs. lin_wf c"
  shows "\<exists>r. feasible cs = Some r \<and> (\<not> r \<longrightarrow> (\<forall>x. \<not> solution x cs))"
  using feasible_correct [OF assms] by auto

theorem elimination_correct_witness:
  "\<forall>x. \<not> solution x [\<lparr>lin_coeffs = [(0, 1)], lin_const = 1\<rparr>, \<lparr>lin_coeffs = [(0, - 1)], lin_const = 0\<rparr>]"
proof -
  let ?cs = "[\<lparr>lin_coeffs = [(0, 1)], lin_const = 1\<rparr>, \<lparr>lin_coeffs = [(0, - 1)], lin_const = 0\<rparr>]"
  have "feasible ?cs = Some False" by code_simp
  then show ?thesis using elimination_correct [of ?cs] by (auto simp: lin_wf_def coeffs_wf_def i128_defs)
qed

section \<open>Verdicts\<close>

text \<open>
  Combining verdicts: the overall verdict is \<open>Pass\<close> exactly when every part passes, \<open>Fail\<close> exactly when
  some part fails, and it does not depend on the order or grouping of the parts.
\<close>

theorem combine_all_spec:
  "(combine_all vs = Pass \<longleftrightarrow> set vs \<subseteq> {Pass}) \<and> (combine_all vs = Fail \<longleftrightarrow> Fail \<in> set vs) \<and>
   combine_all (us @ vs) = combine (combine_all us) (combine_all vs) \<and>
   combine_all (us @ vs) = combine_all (vs @ us)"
  using combine_all_Pass combine_all_Fail combine_all_append [of us vs] combine_all_append [of vs us]
  by (auto simp: combine_max max.commute)

end
